(* ===== verification/Ax_Prelude.thy ===== *)
theory Ax_Prelude
  imports Main "HOL-Library.Word"
begin

text \<open>
  Shared vocabulary of the development: the ways a C++ operation can fail, the result type that
  carries those failures, memory blocks made of cells that may be uninitialised, the
  little-endian layout of integers the sources rely on ("little endian only (x86)"), and the
  generic lemmas about them that the component theories use.
\<close>

unbundle bit_operations_syntax

section \<open>Collections of rewrite rules\<close>

named_theorems ax_defs \<open>definitions of the modelled operations that proofs unfold\<close>
named_theorems ax_res \<open>inversion rules for results\<close>

section \<open>Failures and results\<close>

text \<open>
  \<open>Assert_fail\<close> is \<^verbatim>\<open>ax_assert\<close> (it logs and calls \<^verbatim>\<open>abort\<close>), \<open>Mem_error\<close> an access the
  language leaves undefined (outside a block, through a dangling or null pointer, of an
  uninitialised cell), \<open>Div_zero\<close> an integer division by zero, \<open>Diverge\<close> a loop over a
  pointer structure that never reaches its end and \<open>Arith_overflow\<close> a signed computation whose
  value is not an \<^verbatim>\<open>int\<close>.
\<close>

datatype ax_err = Assert_fail | Mem_error | Div_zero | Diverge | Arith_overflow

type_synonym 'a res = "ax_err + 'a"

definition rbind :: "'a res \<Rightarrow> ('a \<Rightarrow> 'b res) \<Rightarrow> 'b res" where
  "rbind m f = (case m of Inl e \<Rightarrow> Inl e | Inr x \<Rightarrow> f x)"

lemma rbind_simps [simp]:
  "rbind (Inl e) f = Inl e"
  "rbind (Inr x) f = f x"
  by (simp_all add: rbind_def)

lemma rbind_Inr_iff [ax_res]:
  "rbind m f = Inr y \<longleftrightarrow> (\<exists>x. m = Inr x \<and> f x = Inr y)"
  by (cases m) simp_all

lemma rbind_Inl_iff [ax_res]:
  "rbind m f = Inl e \<longleftrightarrow> m = Inl e \<or> (\<exists>x. m = Inr x \<and> f x = Inl e)"
  by (cases m) simp_all

lemma rbind_cong [fundef_cong]:
  "m = m' \<Longrightarrow> (\<And>x. m' = Inr x \<Longrightarrow> f x = f' x) \<Longrightarrow> rbind m f = rbind m' f'"
  by (cases m') simp_all

lemma rbind_assoc: "rbind (rbind m f) g = rbind m (\<lambda>x. rbind (f x) g)"
  by (cases m) simp_all

text \<open>\<^verbatim>\<open>RT_ASSERT\<close> of \<^verbatim>\<open>ax_debug.h\<close>: a failed test logs and aborts.\<close>

definition rt_assert :: "bool \<Rightarrow> unit res" where
  "rt_assert b = (if b then Inr () else Inl Assert_fail)"

lemma rt_assert_simps [simp]:
  "rt_assert True = Inr ()"
  "rt_assert False = Inl Assert_fail"
  by (simp_all add: rt_assert_def)

lemma rt_assert_Inr_iff [ax_res]: "rt_assert b = Inr u \<longleftrightarrow> b"
  by (simp add: rt_assert_def)

text \<open>A pointer that must not be null when it is followed.\<close>

definition deref :: "'a option \<Rightarrow> 'a res" where
  "deref p = (case p of None \<Rightarrow> Inl Mem_error | Some x \<Rightarrow> Inr x)"

lemma deref_simps [simp]:
  "deref None = Inl Mem_error"
  "deref (Some x) = Inr x"
  by (simp_all add: deref_def)

lemma deref_Inr_iff [ax_res]: "deref p = Inr x \<longleftrightarrow> p = Some x"
  by (cases p) simp_all

text \<open>The value of a signed computation of the type \<^verbatim>\<open>int\<close>.\<close>

definition c_int :: "int \<Rightarrow> int res" where
  "c_int v = (if - (2 ^ 31) \<le> v \<and> v < 2 ^ 31 then Inr v else Inl Arith_overflow)"

lemma c_int_ok: "- (2 ^ 31) \<le> v \<Longrightarrow> v < 2 ^ 31 \<Longrightarrow> c_int v = Inr v"
  by (simp add: c_int_def)

lemma c_int_nonneg: "0 \<le> v \<Longrightarrow> v < 2 ^ 31 \<Longrightarrow> c_int v = Inr v"
  by (simp add: c_int_def)

lemma c_int_Inr_iff [ax_res]: "c_int v = Inr x \<longleftrightarrow> x = v \<and> - (2 ^ 31) \<le> v \<and> v < 2 ^ 31"
  by (auto simp: c_int_def)

text \<open>The return codes of \<^verbatim>\<open>common_def.h\<close>.\<close>

definition AX_RET_OK :: int where "AX_RET_OK = 0"
definition AX_RET_ERROR :: int where "AX_RET_ERROR = - 1"
definition AX_RET_FULL :: int where "AX_RET_FULL = - 2"
definition AX_RET_AGAIN :: int where "AX_RET_AGAIN = - 3"

lemmas ax_ret_defs = AX_RET_OK_def AX_RET_ERROR_def AX_RET_FULL_def AX_RET_AGAIN_def

section \<open>Machine words\<close>

type_synonym u8 = "8 word"
type_synonym u16 = "16 word"
type_synonym u32 = "32 word"
type_synonym u64 = "64 word"

text \<open>A C \<^verbatim>\<open>int\<close> is a 32-bit word read with \<^const>\<open>sint\<close>; a 16-bit word likewise is a
  \<^verbatim>\<open>short\<close>.\<close>

abbreviation (input) max_u32 :: nat where
  "max_u32 \<equiv> 2 ^ 32"

lemma unat_u32_bound: "unat (x :: u32) < 4294967296"
  using unsigned_less [of x, where ?'a = nat] by simp

lemma unat_add_u32:
  "unat (x :: u32) + unat y < 4294967296 \<Longrightarrow> unat (x + y) = unat x + unat y"
  by (simp add: unat_word_ariths)

lemma unat_add_le_u32:
  "unat (x :: u32) + unat y \<le> unat (z :: u32) \<Longrightarrow> unat (x + y) = unat x + unat y"
  using unat_u32_bound [of z] by (intro unat_add_u32) linarith

lemma unat_sub_u32: "unat (y :: u32) \<le> unat x \<Longrightarrow> unat (x - y) = unat x - unat y"
  by (simp add: unat_sub_if')

lemma unat_of_nat_u32: "n < 4294967296 \<Longrightarrow> unat (of_nat n :: u32) = n"
  by (simp add: unat_of_nat)

lemma sint_int_of: "- (2 ^ 31) \<le> v \<Longrightarrow> v < 2 ^ 31 \<Longrightarrow> sint (word_of_int v :: u32) = v"
  by (simp add: signed_of_int signed_take_bit_int_eq_self_iff)

lemma sint_u32: "unat (w :: u32) < 2 ^ 31 \<Longrightarrow> sint w = int (unat w)"
proof -
  assume "unat w < 2 ^ 31"
  then have "int (unat w) < int (2 ^ 31)" by (simp only: of_nat_less_iff)
  then have "int (unat w) < 2 ^ 31" unfolding of_nat_power of_nat_numeral .
  then have "sint (word_of_int (int (unat w)) :: u32) = int (unat w)"
    by (intro sint_int_of) linarith+
  then show ?thesis by simp
qed

section \<open>Memory blocks\<close>

text \<open>A block from \<^verbatim>\<open>malloc\<close> is a list of cells; \<open>None\<close> is a byte nobody has written yet.\<close>

type_synonym cell = "u8 option"
type_synonym block = "cell list"

definition malloc_blk :: "nat \<Rightarrow> block" where
  "malloc_blk n = replicate n None"

text \<open>\<^verbatim>\<open>realloc\<close> keeps the common prefix; what is beyond the old size is uninitialised.\<close>

definition realloc_blk :: "block option \<Rightarrow> nat \<Rightarrow> block" where
  "realloc_blk p n = (case p of None \<Rightarrow> malloc_blk n
     | Some b \<Rightarrow> take n b @ malloc_blk (n - length b))"

lemma malloc_blk_0 [simp]: "malloc_blk 0 = []"
  by (simp add: malloc_blk_def)

lemma length_malloc_blk [simp]: "length (malloc_blk n) = n"
  by (simp add: malloc_blk_def)

lemma length_realloc_blk [simp]: "length (realloc_blk p n) = n"
  by (cases p) (auto simp: realloc_blk_def min_def)

lemma take_realloc_blk:
  "k \<le> n \<Longrightarrow> k \<le> length b \<Longrightarrow> take k (realloc_blk (Some b) n) = take k b"
  by (simp add: realloc_blk_def min_def)

text \<open>Reading \<open>n\<close> cells at an offset, and overwriting cells at an offset; both fail outside the
  block. An access of no bytes is no access.\<close>

definition blk_read :: "block \<Rightarrow> nat \<Rightarrow> nat \<Rightarrow> block res" where
  "blk_read b off n =
     (if n = 0 then Inr [] else if off + n \<le> length b then Inr (take n (drop off b))
      else Inl Mem_error)"

definition blk_write :: "block \<Rightarrow> nat \<Rightarrow> block \<Rightarrow> block res" where
  "blk_write b off xs =
     (if xs = [] then Inr b else if off + length xs \<le> length b
      then Inr (take off b @ xs @ drop (off + length xs) b) else Inl Mem_error)"

lemma blk_read_ok:
  "off + n \<le> length b \<Longrightarrow> blk_read b off n = Inr (take n (drop off b))"
  by (simp add: blk_read_def)

lemma blk_write_ok:
  "off + length xs \<le> length b \<Longrightarrow>
   blk_write b off xs = Inr (take off b @ xs @ drop (off + length xs) b)"
  by (auto simp: blk_write_def)

lemma blk_write_length: "blk_write b off xs = Inr b' \<Longrightarrow> length b' = length b"
  by (auto simp: blk_write_def split: if_splits)

lemma blk_read_length: "blk_read b off n = Inr xs \<Longrightarrow> length xs = n"
  by (auto simp: blk_read_def split: if_splits)

text \<open>A read sees the last write to its range and is blind to writes elsewhere.\<close>

lemma blk_read_write_same:
  "blk_write b off xs = Inr b' \<Longrightarrow> length xs = n \<Longrightarrow> blk_read b' off n = Inr xs"
  by (auto simp: blk_write_def blk_read_def split: if_splits)

lemma blk_read_write_disjoint:
  assumes w: "blk_write b off xs = Inr b'" and "off' + n \<le> off \<or> off + length xs \<le> off'"
  shows "blk_read b' off' n = blk_read b off' n"
proof (cases "xs = []")
  case True
  then show ?thesis using w by (simp add: blk_write_def)
next
  case False
  then have b': "b' = take off b @ xs @ drop (off + length xs) b" and le: "off + length xs \<le> length b"
    using w by (auto simp: blk_write_def split: if_splits)
  from assms(2) have "take n (drop off' b') = take n (drop off' b)"
  proof
    assume "off' + n \<le> off"
    then show ?thesis using le by (auto simp: b' drop_take min_def)
  next
    assume "off + length xs \<le> off'"
    then show ?thesis using le by (simp add: b')
  qed
  then show ?thesis using blk_write_length [OF w] by (simp add: blk_read_def)
qed

text \<open>The bytes of a list of cells, when all of them are initialised.\<close>

fun cells_bytes :: "cell list \<Rightarrow> u8 list res" where
  "cells_bytes [] = Inr []"
| "cells_bytes (None # cs) = Inl Mem_error"
| "cells_bytes (Some c # cs) = rbind (cells_bytes cs) (\<lambda>bs. Inr (c # bs))"

lemma cells_bytes_map_Some [simp]: "cells_bytes (map Some bs) = Inr bs"
  by (induction bs) simp_all

lemma cells_bytes_Inr_iff: "cells_bytes cs = Inr bs \<longleftrightarrow> cs = map Some bs"
proof
  show "cells_bytes cs = Inr bs \<Longrightarrow> cs = map Some bs"
    by (induction cs arbitrary: bs rule: cells_bytes.induct) (auto simp: ax_res)
qed simp

section \<open>Little-endian integers\<close>

definition le16 :: "u16 \<Rightarrow> u8 list" where
  "le16 w = [ucast w, ucast (drop_bit 8 w)]"

definition le32 :: "u32 \<Rightarrow> u8 list" where
  "le32 w = [ucast w, ucast (drop_bit 8 w), ucast (drop_bit 16 w), ucast (drop_bit 24 w)]"

fun un_le16 :: "u8 list \<Rightarrow> u16" where
  "un_le16 [a, b] = ucast a OR push_bit 8 (ucast b)"
| "un_le16 _ = 0"

fun un_le32 :: "u8 list \<Rightarrow> u32" where
  "un_le32 [a, b, c, d] = ucast a OR push_bit 8 (ucast b) OR push_bit 16 (ucast c)
     OR push_bit 24 (ucast d)"
| "un_le32 _ = 0"

lemma length_le [simp]: "length (le16 w) = 2" "length (le32 v) = 4"
  by (simp_all add: le16_def le32_def)

lemma le_not_Nil [simp]: "le16 w \<noteq> []" "le32 v \<noteq> []"
  by (simp_all add: le16_def le32_def)

lemma un_le16_le16 [simp]: "un_le16 (le16 w) = w"
  by (rule bit_word_eqI) (auto simp: le16_def bit_simps)

lemma un_le32_le32 [simp]: "un_le32 (le32 w) = w"
proof (rule bit_word_eqI)
  fix n :: nat
  consider "n < 8" | "8 \<le> n" "n < 16" | "16 \<le> n" "n < 24" | "24 \<le> n"
    by linarith
  then show "bit (un_le32 (le32 w)) n = bit w n" if "n < LENGTH(32)"
    using that by cases (auto simp: le32_def bit_simps)
qed

end
