(* ===== verification/Fifo_Spec.thy ===== *)
theory Fifo_Spec
  imports Ax_Prelude
begin

text \<open>
  What the clients of a byte buffer rely on: pushing appends, popping drops from the front, both
  succeed while the capacity stays below the 32-bit limit. The locale proves once that any
  program of pushes and pops then acts as on a list; \<^verbatim>\<open>buffer_t\<close> is its instance.
\<close>

datatype fifo_op = Push "cell list" | Pop u32

text \<open>Running a sequence of operations, and the same sequence on a plain list.\<close>

fun fifo_run :: "(cell list \<Rightarrow> 'b \<Rightarrow> ('b \<times> u32) res) \<Rightarrow> (u32 \<Rightarrow> 'b \<Rightarrow> ('b \<times> u32) res) \<Rightarrow>
    fifo_op list \<Rightarrow> 'b \<Rightarrow> 'b res" where
  "fifo_run push pop [] b = Inr b"
| "fifo_run push pop (Push xs # ops) b = rbind (push xs b) (\<lambda>(b', _). fifo_run push pop ops b')"
| "fifo_run push pop (Pop n # ops) b = rbind (pop n b) (\<lambda>(b', _). fifo_run push pop ops b')"

fun fifo_list :: "fifo_op list \<Rightarrow> cell list \<Rightarrow> cell list" where
  "fifo_list [] xs = xs"
| "fifo_list (Push ys # ops) xs = fifo_list ops (xs @ ys)"
| "fifo_list (Pop n # ops) xs = fifo_list ops (drop (unat n) xs)"

text \<open>An upper bound for what the pushes of a program can add to the capacity.\<close>

fun fifo_growth :: "fifo_op list \<Rightarrow> nat" where
  "fifo_growth [] = 0"
| "fifo_growth (Push ys # ops) = length ys + 128 + fifo_growth ops"
| "fifo_growth (Pop n # ops) = fifo_growth ops"

fun fifo_nonempty :: "fifo_op \<Rightarrow> bool" where
  "fifo_nonempty (Push ys) = (ys \<noteq> [])"
| "fifo_nonempty (Pop n) = True"

locale byte_fifo =
  fixes inv :: "'b \<Rightarrow> bool"
    and content :: "'b \<Rightarrow> cell list"
    and cap :: "'b \<Rightarrow> nat"
    and push :: "cell list \<Rightarrow> 'b \<Rightarrow> ('b \<times> u32) res"
    and pop :: "u32 \<Rightarrow> 'b \<Rightarrow> ('b \<times> u32) res"
  assumes push_law: "inv b \<Longrightarrow> xs \<noteq> [] \<Longrightarrow> cap b + length xs + 128 < 2 ^ 32 \<Longrightarrow>
      \<exists>b' r. push xs b = Inr (b', r) \<and> inv b' \<and> content b' = content b @ xs \<and>
        cap b' \<le> cap b + length xs + 128"
    and pop_law: "inv b \<Longrightarrow> \<exists>b' r. pop n b = Inr (b', r) \<and> inv b' \<and>
        content b' = drop (unat n) (content b) \<and> cap b' \<le> cap b"
begin

lemma run_refines:
  assumes "inv b" and "list_all fifo_nonempty ops" and "cap b + fifo_growth ops < 2 ^ 32"
  shows "\<exists>b'. fifo_run push pop ops b = Inr b' \<and> inv b' \<and>
           content b' = fifo_list ops (content b)"
  using assms
proof (induction ops arbitrary: b)
  case Nil
  then show ?case by simp
next
  case (Cons x ops)
  show ?case
  proof (cases x)
    case (Push xs)
    then obtain b1 r where "push xs b = Inr (b1, r)" and b1: "inv b1"
        "content b1 = content b @ xs" "cap b1 \<le> cap b + length xs + 128"
      using push_law [of b xs] Cons.prems by auto
    moreover have "cap b1 + fifo_growth ops < 2 ^ 32"
      using b1(3) Cons.prems(3) Push by simp
    ultimately show ?thesis using Cons.IH [of b1] Cons.prems Push by simp
  next
    case (Pop n)
    then obtain b1 r where "pop n b = Inr (b1, r)" and b1: "inv b1"
        "content b1 = drop (unat n) (content b)" "cap b1 \<le> cap b"
      using pop_law [of b n] Cons.prems by auto
    moreover have "cap b1 + fifo_growth ops < 2 ^ 32"
      using b1(3) Cons.prems(3) Pop by simp
    ultimately show ?thesis using Cons.IH [of b1] Cons.prems Pop by simp
  qed
qed

lemma push_then_pop:
  assumes "inv b" and "content b = []" and "xs \<noteq> []" and "cap b + length xs + 128 < 2 ^ 32"
  shows "\<exists>b'. fifo_run push pop [Push xs, Pop (of_nat (length xs))] b = Inr b' \<and> content b' = []"
proof -
  have "unat (of_nat (length xs) :: u32) = length xs"
    using assms(4) by (intro unat_of_nat_u32) simp
  then show ?thesis
    using run_refines [of b "[Push xs, Pop (of_nat (length xs))]"] assms by auto
qed

end

end
