(* ===== verification/Ax_Buffer.thy ===== *)
theory Ax_Buffer
  imports Ax_Prelude Fifo_Spec
begin

text \<open>
  The growable byte buffer \<^verbatim>\<open>buffer_t\<close> of \<^verbatim>\<open>src/core/ax_buffer.h\<close> and \<^verbatim>\<open>ax_buffer.cc\<close>: its
  fields keep their 32-bit width, its storage is a memory block with uninitialised cells, and a
  pointer obtained from \<^verbatim>\<open>data()\<close> or \<^verbatim>\<open>tail()\<close> carries the generation of the block it points
  into, so that using it after \<^verbatim>\<open>free\<close> or \<^verbatim>\<open>realloc\<close> is an error of the model. Allocation is
  taken to succeed (a failure is an \<^verbatim>\<open>RT_ASSERT\<close> and ends the process); \<^verbatim>\<open>realloc\<close> to size 0
  returns NULL, as glibc does. The operations are shown to implement a first-in first-out
  sequence of bytes.
\<close>

section \<open>The data structure\<close>

text \<open>\<open>bf_gen\<close> is the generation of the current block; the other fields are those of the class
  (\<^verbatim>\<open>prepare_end_\<close> is never read or written by the code).\<close>

record buffer_t =
  bf_gen :: nat
  bf_buf :: "block option"
  bf_upper_limit :: u32
  bf_init_alloc :: u32
  bf_len :: u32
  bf_alloc_size :: u32
  bf_start :: u32
  bf_end :: u32

type_synonym buf_ptr = "nat \<times> nat"

text \<open>The inline accessors \<^verbatim>\<open>tail()\<close> and \<^verbatim>\<open>data()\<close>, and following such a pointer.\<close>

definition buffer_tail :: "buffer_t \<Rightarrow> buf_ptr option" where
  "buffer_tail b = (if bf_buf b = None then None else Some (bf_gen b, unat (bf_end b)))"

definition buffer_data :: "buffer_t \<Rightarrow> buf_ptr option" where
  "buffer_data b =
     (if bf_len b \<le> 0 \<or> bf_buf b = None then None else Some (bf_gen b, unat (bf_start b)))"

definition buffer_fetch :: "buffer_t \<Rightarrow> buf_ptr \<Rightarrow> nat \<Rightarrow> u8 list res" where
  "buffer_fetch b p n =
     (if fst p \<noteq> bf_gen b then Inl Mem_error
      else rbind (deref (bf_buf b)) (\<lambda>blk. rbind (blk_read blk (snd p) n) cells_bytes))"

definition buffer_store :: "buf_ptr \<Rightarrow> cell list \<Rightarrow> buffer_t \<Rightarrow> buffer_t res" where
  "buffer_store p xs b =
     (if fst p \<noteq> bf_gen b then Inl Mem_error
      else rbind (deref (bf_buf b)) (\<lambda>blk. rbind (blk_write blk (snd p) xs)
        (\<lambda>blk'. Inr (b\<lparr>bf_buf := Some blk'\<rparr>))))"

section \<open>Operations\<close>

definition buffer_alloc :: "u32 \<Rightarrow> buffer_t \<Rightarrow> buffer_t" where
  "buffer_alloc n b = b\<lparr>bf_gen := Suc (bf_gen b), bf_buf := Some (malloc_blk (unat n)),
     bf_start := 0, bf_len := 0, bf_end := 0, bf_alloc_size := n\<rparr>"

definition buffer_new :: buffer_t where
  "buffer_new = \<lparr>bf_gen = 0, bf_buf = None, bf_upper_limit = 0, bf_init_alloc = 0, bf_len = 0,
     bf_alloc_size = 0, bf_start = 0, bf_end = 0\<rparr>"

definition buffer_new_n :: "u32 \<Rightarrow> buffer_t" where
  "buffer_new_n n = (buffer_alloc n buffer_new)\<lparr>bf_upper_limit := n * 4, bf_init_alloc := n\<rparr>"

definition buffer_shrink :: "buffer_t \<Rightarrow> buffer_t res" where
  "buffer_shrink b =
     rbind (if bf_len b > 0
            then rbind (deref (bf_buf b)) (\<lambda>blk.
                 rbind (blk_read blk (unat (bf_start b)) (unat (bf_len b)))
                   (\<lambda>xs. blk_write (malloc_blk (unat (bf_init_alloc b))) 0 xs))
            else Inr (malloc_blk (unat (bf_init_alloc b))))
       (\<lambda>newp. Inr (b\<lparr>bf_gen := Suc (bf_gen b), bf_buf := Some newp,
          bf_alloc_size := bf_init_alloc b\<rparr>))"

definition buffer_shift :: "buffer_t \<Rightarrow> buffer_t res" where
  "buffer_shift b = (case bf_buf b of None \<Rightarrow> Inr b | Some blk \<Rightarrow>
     rbind (if bf_upper_limit b > 0 \<and> bf_alloc_size b > bf_upper_limit b
               \<and> bf_len b < bf_init_alloc b
            then buffer_shrink b
            else rbind (blk_read blk (unat (bf_start b)) (unat (bf_len b)))
              (\<lambda>xs. rbind (blk_write blk 0 xs) (\<lambda>blk'. Inr (b\<lparr>bf_buf := Some blk'\<rparr>))))
       (\<lambda>b'. Inr (b'\<lparr>bf_start := 0, bf_end := bf_len b'\<rparr>)))"

text \<open>\<^verbatim>\<open>pop(n)\<close>; the second component is the returned value.\<close>

definition buffer_pop :: "u32 \<Rightarrow> buffer_t \<Rightarrow> (buffer_t \<times> u32) res" where
  "buffer_pop n b =
     (let len = bf_len b in
      if n \<ge> len then
        (let b1 = b\<lparr>bf_start := 0, bf_end := 0, bf_len := 0\<rparr> in
         rbind (if bf_upper_limit b1 > 0 \<and> bf_alloc_size b1 > bf_upper_limit b1
                then buffer_shrink b1 else Inr b1)
           (\<lambda>b2. Inr (b2, len)))
      else Inr (b\<lparr>bf_start := bf_start b + n, bf_len := bf_len b - n\<rparr>, bf_len b - n))"

text \<open>\<^verbatim>\<open>pop_char\<close>, \<^verbatim>\<open>pop_short\<close> and \<^verbatim>\<open>pop_int\<close> take the pointer before \<^verbatim>\<open>pop\<close> and read
  through it afterwards.\<close>

definition buffer_pop_bytes :: "nat \<Rightarrow> buffer_t \<Rightarrow> (buffer_t \<times> u8 list) res" where
  "buffer_pop_bytes k b =
     rbind (case buffer_data b of None \<Rightarrow> Inl Assert_fail | Some p \<Rightarrow> Inr p) (\<lambda>p.
     rbind (buffer_pop (of_nat k) b) (\<lambda>(b', _).
     rbind (buffer_fetch b' p k) (\<lambda>bs. Inr (b', bs))))"

definition buffer_pop_char :: "buffer_t \<Rightarrow> (buffer_t \<times> u8) res" where
  "buffer_pop_char b = rbind (buffer_pop_bytes 1 b) (\<lambda>(b', bs). Inr (b', hd bs))"

definition buffer_pop_short :: "buffer_t \<Rightarrow> (buffer_t \<times> u16) res" where
  "buffer_pop_short b = rbind (buffer_pop_bytes 2 b) (\<lambda>(b', bs). Inr (b', un_le16 bs))"

definition buffer_pop_int :: "buffer_t \<Rightarrow> (buffer_t \<times> u32) res" where
  "buffer_pop_int b = rbind (buffer_pop_bytes 4 b) (\<lambda>(b', bs). Inr (b', un_le32 bs))"

definition realloc_assert :: "block option \<Rightarrow> u32 \<Rightarrow> block res" where
  "realloc_assert p n = (if n = 0 then Inl Assert_fail else Inr (realloc_blk p (unat n)))"

definition buffer_prepare :: "u32 \<Rightarrow> buffer_t \<Rightarrow> (buffer_t \<times> u32) res" where
  "buffer_prepare sz b =
     rbind (if bf_end b + sz > bf_alloc_size b then buffer_shift b else Inr b) (\<lambda>b1.
     let need = bf_end b1 + sz in
     if need > bf_alloc_size b1 then
       (let need' = (if need - bf_alloc_size b1 < 128 then bf_alloc_size b1 + 128 else need) in
        rbind (realloc_assert (bf_buf b1) need') (\<lambda>newp.
          Inr (b1\<lparr>bf_gen := Suc (bf_gen b1), bf_buf := Some newp, bf_alloc_size := need'\<rparr>,
               need')))
     else Inr (b1, bf_alloc_size b1))"

definition buffer_flush_push :: "u32 \<Rightarrow> buffer_t \<Rightarrow> buffer_t res" where
  "buffer_flush_push actual_size b =
     rbind (rt_assert (bf_end b + actual_size \<le> bf_alloc_size b)) (\<lambda>_.
       Inr (b\<lparr>bf_len := bf_len b + actual_size, bf_end := bf_end b + actual_size\<rparr>))"

text \<open>\<^verbatim>\<open>push(src, size)\<close>: the source bytes are given as a list of \<^verbatim>\<open>size\<close> cells.\<close>

definition buffer_push :: "cell list \<Rightarrow> buffer_t \<Rightarrow> (buffer_t \<times> u32) res" where
  "buffer_push src b =
     (let sz = of_nat (length src) in
      rbind (buffer_prepare sz b) (\<lambda>(b1, _).
      rbind (rt_assert (bf_buf b1 \<noteq> None)) (\<lambda>_.
      rbind (deref (bf_buf b1)) (\<lambda>blk.
      rbind (blk_write blk (unat (bf_end b1)) src) (\<lambda>blk'.
        Inr (b1\<lparr>bf_buf := Some blk', bf_len := bf_len b1 + sz, bf_end := bf_end b1 + sz\<rparr>,
             bf_len b1 + sz))))))"

definition buffer_push_char :: "u8 \<Rightarrow> buffer_t \<Rightarrow> buffer_t res" where
  "buffer_push_char c b = rbind (buffer_push [Some c] b) (\<lambda>(b', _). Inr b')"

definition buffer_push_short :: "u16 \<Rightarrow> buffer_t \<Rightarrow> buffer_t res" where
  "buffer_push_short n b = rbind (buffer_push (map Some (le16 n)) b) (\<lambda>(b', _). Inr b')"

definition buffer_push_int :: "u32 \<Rightarrow> buffer_t \<Rightarrow> buffer_t res" where
  "buffer_push_int n b = rbind (buffer_push (map Some (le32 n)) b) (\<lambda>(b', _). Inr b')"

text \<open>\<^verbatim>\<open>push(buffer_t &rhs)\<close> for a buffer other than the receiver: \<^verbatim>\<open>rhs.data()\<close> is NULL
  when \<^verbatim>\<open>rhs\<close> is empty, and nothing is copied then.\<close>

definition buffer_push_buffer :: "buffer_t \<Rightarrow> buffer_t \<Rightarrow> (buffer_t \<times> u32) res" where
  "buffer_push_buffer rhs b =
     rbind (case buffer_data rhs of None \<Rightarrow> Inr [] | Some p \<Rightarrow>
              rbind (deref (bf_buf rhs)) (\<lambda>blk. blk_read blk (snd p) (unat (bf_len rhs))))
       (\<lambda>src. buffer_push src b)"

text \<open>The copy constructor; \<open>u0\<close> and \<open>i0\<close> are what the two limits hold before they are
  assigned.\<close>

definition buffer_copy :: "u32 \<Rightarrow> u32 \<Rightarrow> buffer_t \<Rightarrow> buffer_t res" where
  "buffer_copy u0 i0 rhs =
     rbind (buffer_push_buffer rhs (buffer_alloc (bf_alloc_size rhs)
              (buffer_new\<lparr>bf_upper_limit := u0, bf_init_alloc := i0\<rparr>)))
       (\<lambda>(b, _). Inr (b\<lparr>bf_upper_limit := bf_alloc_size b * 4,
                         bf_init_alloc := bf_alloc_size b\<rparr>))"

definition buffer_clear :: "buffer_t \<Rightarrow> buffer_t" where
  "buffer_clear b = b\<lparr>bf_start := 0, bf_end := 0, bf_len := 0\<rparr>"

definition buffer_reset :: "u32 \<Rightarrow> buffer_t \<Rightarrow> buffer_t res" where
  "buffer_reset sz b =
     rbind (if sz \<noteq> bf_alloc_size b then
              rbind (realloc_assert (bf_buf b) sz) (\<lambda>newp.
                Inr (b\<lparr>bf_gen := Suc (bf_gen b), bf_alloc_size := sz, bf_buf := Some newp\<rparr>))
            else if sz = 0 then
              Inr (b\<lparr>bf_gen := Suc (bf_gen b), bf_alloc_size := 0, bf_buf := None\<rparr>)
            else Inr b)
       (\<lambda>b'. Inr (buffer_clear b'))"

definition buffer_set_shrink_limit :: "u32 \<Rightarrow> buffer_t \<Rightarrow> buffer_t" where
  "buffer_set_shrink_limit n b = b\<lparr>bf_upper_limit := n\<rparr>"

section \<open>Well-formed buffers and their content\<close>

definition buffer_ok :: "buffer_t \<Rightarrow> bool" where
  "buffer_ok b \<longleftrightarrow>
     (case bf_buf b of None \<Rightarrow> bf_alloc_size b = 0
      | Some blk \<Rightarrow> length blk = unat (bf_alloc_size b)) \<and>
     unat (bf_start b) + unat (bf_len b) = unat (bf_end b) \<and>
     unat (bf_end b) \<le> unat (bf_alloc_size b)"

definition buffer_content :: "buffer_t \<Rightarrow> cell list" where
  "buffer_content b = (case bf_buf b of None \<Rightarrow> []
     | Some blk \<Rightarrow> take (unat (bf_len b)) (drop (unat (bf_start b)) blk))"

text \<open>The sizes for which no 32-bit computation of the code wraps.\<close>

definition buffer_room :: "buffer_t \<Rightarrow> nat \<Rightarrow> bool" where
  "buffer_room b n \<longleftrightarrow> unat (bf_alloc_size b) + n + 128 < 4294967296"

text \<open>The largest capacity shrinking can lead back to.\<close>

definition buffer_size :: "buffer_t \<Rightarrow> nat" where
  "buffer_size b = max (unat (bf_alloc_size b)) (unat (bf_init_alloc b))"

lemmas word_nat = word_le_nat_alt word_less_nat_alt

lemma buffer_ok_blk:
  "buffer_ok b \<Longrightarrow> bf_buf b = Some blk \<Longrightarrow> length blk = unat (bf_alloc_size b)"
  by (simp add: buffer_ok_def)

lemma buffer_ok_null:
  assumes "buffer_ok b" "bf_buf b = None"
  shows "bf_alloc_size b = 0" "bf_end b = 0" "bf_len b = 0" "bf_start b = 0"
  using assms by (auto simp: buffer_ok_def unat_eq_zero)

lemma length_buffer_content:
  "buffer_ok b \<Longrightarrow> length (buffer_content b) = unat (bf_len b)"
  by (auto simp: buffer_content_def buffer_ok_def split: option.splits)

lemma buffer_new_ok: "buffer_ok buffer_new" "buffer_content buffer_new = []"
  by (simp_all add: buffer_ok_def buffer_content_def buffer_new_def)

lemma buffer_new_n_ok: "buffer_ok (buffer_new_n n)" "buffer_content (buffer_new_n n) = []"
  by (simp_all add: buffer_ok_def buffer_content_def buffer_new_n_def buffer_alloc_def)

lemma buffer_size_new_n [simp]: "buffer_size (buffer_new_n n) = unat n"
  by (simp add: buffer_size_def buffer_new_n_def buffer_alloc_def)

lemma buffer_clear_ok:
  "buffer_ok b \<Longrightarrow> buffer_ok (buffer_clear b) \<and> buffer_content (buffer_clear b) = []"
  by (auto simp: buffer_ok_def buffer_content_def buffer_clear_def split: option.splits)

section \<open>Shrinking and shifting keep the content\<close>

lemma buffer_shrink_eq:
  assumes "buffer_ok b" "bf_buf b = Some blk" "unat (bf_len b) \<le> unat (bf_init_alloc b)"
  shows "buffer_shrink b = Inr (b\<lparr>bf_gen := Suc (bf_gen b), bf_buf := Some (buffer_content b
           @ malloc_blk (unat (bf_init_alloc b) - unat (bf_len b))),
           bf_alloc_size := bf_init_alloc b\<rparr>)"
proof -
  have len: "length blk = unat (bf_alloc_size b)"
    using assms by (simp add: buffer_ok_blk)
  have range: "unat (bf_start b) + unat (bf_len b) \<le> length blk"
    using assms(1) len by (simp add: buffer_ok_def)
  have c: "buffer_content b = take (unat (bf_len b)) (drop (unat (bf_start b)) blk)"
    using assms(2) by (simp add: buffer_content_def)
  have lc: "length (take (unat (bf_len b)) (drop (unat (bf_start b)) blk)) = unat (bf_len b)"
    using range by simp
  show ?thesis
  proof (cases "bf_len b > 0")
    case True
    then show ?thesis using assms(2,3) range lc
      by (simp add: buffer_shrink_def blk_read_ok blk_write_ok c malloc_blk_def)
  next
    case False
    then have "bf_len b = 0" by (metis word_neq_0_conv)
    then show ?thesis by (simp add: buffer_shrink_def c)
  qed
qed

text \<open>What \<^verbatim>\<open>shift\<close> and \<^verbatim>\<open>prepare\<close> leave alone.\<close>

definition same_data :: "buffer_t \<Rightarrow> buffer_t \<Rightarrow> bool" where
  "same_data b b' \<longleftrightarrow> buffer_ok b' \<and> buffer_content b' = buffer_content b \<and>
     bf_len b' = bf_len b \<and> bf_upper_limit b' = bf_upper_limit b \<and>
     bf_init_alloc b' = bf_init_alloc b"

lemma buffer_shift_ok:
  assumes ok: "buffer_ok b"
  shows "\<exists>b'. buffer_shift b = Inr b' \<and> same_data b b' \<and> bf_end b' = bf_len b \<and>
           (bf_buf b' = None \<longleftrightarrow> bf_buf b = None) \<and>
           unat (bf_alloc_size b') \<le> buffer_size b"
proof (cases "bf_buf b")
  case None
  then show ?thesis using ok buffer_ok_null [OF ok None]
    by (simp add: buffer_shift_def same_data_def buffer_size_def)
next
  case (Some blk)
  have c: "buffer_content b = take (unat (bf_len b)) (drop (unat (bf_start b)) blk)"
    using Some by (simp add: buffer_content_def)
  have range: "unat (bf_start b) + unat (bf_len b) \<le> length blk"
    using ok buffer_ok_blk [OF ok Some] by (simp add: buffer_ok_def)
  show ?thesis
  proof (cases "bf_upper_limit b > 0 \<and> bf_alloc_size b > bf_upper_limit b
                  \<and> bf_len b < bf_init_alloc b")
    case True
    then have le: "unat (bf_len b) \<le> unat (bf_init_alloc b)"
      by (simp add: word_nat)
    show ?thesis using True Some ok le length_buffer_content [OF ok] range
      by (simp add: buffer_shift_def buffer_shrink_eq [OF ok Some le] same_data_def buffer_ok_def
          buffer_content_def buffer_size_def)
  next
    case False
    have len: "length blk = unat (bf_alloc_size b)" by (rule buffer_ok_blk [OF ok Some])
    have "buffer_shift b = Inr (b\<lparr>bf_buf := Some (buffer_content b
            @ drop (unat (bf_len b)) blk), bf_start := 0, bf_end := bf_len b\<rparr>)"
      using False Some range unfolding buffer_shift_def
      by (simp only: if_False option.case) (simp add: blk_read_ok blk_write_ok c)
    then show ?thesis using Some ok range len
      by (auto simp: same_data_def buffer_ok_def buffer_content_def buffer_size_def min_def)
  qed
qed

lemma buffer_prepare_ok:
  assumes ok: "buffer_ok b" and room: "buffer_room b (unat n)"
  shows "\<exists>b'. buffer_prepare n b = Inr (b', bf_alloc_size b') \<and> same_data b b' \<and>
           unat (bf_end b') + unat n \<le> unat (bf_alloc_size b') \<and>
           (bf_buf b \<noteq> None \<or> n \<noteq> 0 \<longrightarrow> bf_buf b' \<noteq> None) \<and>
           unat (bf_alloc_size b') \<le> buffer_size b + unat n + 128"
proof -
  have end_le: "unat (bf_end b) \<le> unat (bf_alloc_size b)"
    and len_le: "unat (bf_len b) \<le> unat (bf_end b)"
    using ok by (simp_all add: buffer_ok_def)
  have sum: "unat (bf_end b + n) = unat (bf_end b) + unat n"
    using room end_le by (simp add: buffer_room_def unat_add_u32)
  obtain b1 where b1: "(if bf_end b + n > bf_alloc_size b then buffer_shift b else Inr b) = Inr b1"
    and same: "same_data b b1" and e1: "unat (bf_end b1) \<le> unat (bf_end b)"
    and null: "bf_buf b1 = None \<longleftrightarrow> bf_buf b = None"
    and cap: "unat (bf_alloc_size b1) \<le> buffer_size b"
  proof (cases "bf_end b + n > bf_alloc_size b")
    case True
    then show ?thesis using buffer_shift_ok [OF ok] len_le that by auto
  next
    case False
    then show ?thesis using ok that [of b] by (simp add: same_data_def buffer_size_def)
  qed
  have ok1: "buffer_ok b1" using same by (simp add: same_data_def)
  have need: "unat (bf_end b1 + n) = unat (bf_end b1) + unat n"
    using room end_le e1 by (simp add: buffer_room_def unat_add_u32)
  show ?thesis
  proof (cases "bf_end b1 + n > bf_alloc_size b1")
    case False
    then have "unat (bf_end b1) + unat n \<le> unat (bf_alloc_size b1)"
      by (simp add: word_nat need)
    then show ?thesis using False b1 same null cap ok1 buffer_ok_null [OF ok1]
      by (auto simp: buffer_prepare_def Let_def unat_eq_zero)
  next
    case True
    define need' where "need' = (if bf_end b1 + n - bf_alloc_size b1 < 128
      then bf_alloc_size b1 + 128 else bf_end b1 + n)"
    have big: "unat (bf_alloc_size b1) < unat (bf_end b1) + unat n"
      using True by (simp add: word_nat need)
    have diff: "unat (bf_end b1 + n - bf_alloc_size b1) =
        unat (bf_end b1) + unat n - unat (bf_alloc_size b1)"
      using big need by (simp add: unat_sub_u32)
    have "unat (bf_alloc_size b1 + 128) = unat (bf_alloc_size b1) + 128"
      using room big end_le e1 by (simp add: buffer_room_def unat_word_ariths)
    then have need'_ge: "unat (bf_end b1) + unat n \<le> unat need'"
      and need'_le: "unat need' \<le> buffer_size b + unat n + 128"
      using need diff cap e1 end_le by (auto simp: need'_def word_nat buffer_size_def)
    then have nz: "need' \<noteq> 0" using big by (auto simp: unat_eq_zero)
    let ?b' = "b1\<lparr>bf_gen := Suc (bf_gen b1), bf_buf := Some (realloc_blk (bf_buf b1) (unat need')),
                bf_alloc_size := need'\<rparr>"
    have "buffer_prepare n b = Inr (?b', need')"
      using True b1 nz by (simp add: buffer_prepare_def Let_def need'_def [symmetric]
          realloc_assert_def)
    moreover have "same_data b ?b'"
      using same ok1 need'_ge
      by (auto simp: same_data_def buffer_ok_def buffer_content_def realloc_blk_def drop_take
          min_def split: option.splits)
    ultimately show ?thesis using need'_ge need'_le by simp
  qed
qed

section \<open>The buffer is a first-in first-out byte sequence\<close>

lemma buffer_push_ok:
  assumes ok: "buffer_ok b" and room: "buffer_room b (length src)"
    and nonnull: "bf_buf b \<noteq> None \<or> src \<noteq> []"
  shows "\<exists>b'. buffer_push src b = Inr (b', bf_len b') \<and> buffer_ok b' \<and>
           buffer_content b' = buffer_content b @ src \<and> bf_buf b' \<noteq> None \<and>
           buffer_size b' \<le> buffer_size b + length src + 128"
proof -
  let ?n = "of_nat (length src) :: u32"
  have n: "unat ?n = length src"
    using room by (intro unat_of_nat_u32) (simp add: buffer_room_def)
  obtain b1 where b1: "buffer_prepare ?n b = Inr (b1, bf_alloc_size b1)"
    and same: "same_data b b1"
    and fits: "unat (bf_end b1) + length src \<le> unat (bf_alloc_size b1)"
    and nn: "bf_buf b \<noteq> None \<or> ?n \<noteq> 0 \<longrightarrow> bf_buf b1 \<noteq> None"
    and cap: "unat (bf_alloc_size b1) \<le> buffer_size b + length src + 128"
    using buffer_prepare_ok [OF ok, of ?n] room n by auto
  have ok1: "buffer_ok b1" using same by (simp add: same_data_def)
  have "?n \<noteq> 0 \<longleftrightarrow> src \<noteq> []" using n by (metis length_0_conv unat_eq_zero)
  then obtain blk where blk: "bf_buf b1 = Some blk" using nn nonnull by auto
  have len: "length blk = unat (bf_alloc_size b1)" by (rule buffer_ok_blk [OF ok1 blk])
  have bounds: "unat (bf_start b1) + unat (bf_len b1) = unat (bf_end b1)"
    using ok1 by (simp add: buffer_ok_def)
  have sums: "unat (bf_end b1 + ?n) = unat (bf_end b1) + length src"
    "unat (bf_len b1 + ?n) = unat (bf_len b1) + length src"
    using n fits bounds unat_add_le_u32 [of _ ?n "bf_alloc_size b1"] by simp_all
  let ?blk = "take (unat (bf_end b1)) blk @ src @ drop (unat (bf_end b1) + length src) blk"
  let ?b' = "b1\<lparr>bf_buf := Some ?blk, bf_len := bf_len b1 + ?n, bf_end := bf_end b1 + ?n\<rparr>"
  have eq: "buffer_push src b = Inr (?b', bf_len ?b')"
    using b1 blk fits len by (simp add: buffer_push_def Let_def blk_write_ok)
  have "buffer_ok ?b'" using fits len sums bounds ok1 by (simp add: buffer_ok_def)
  moreover have "buffer_content ?b' = buffer_content b1 @ src"
    using blk sums bounds [symmetric] fits len by (simp add: buffer_content_def drop_take)
  moreover have "buffer_size ?b' \<le> buffer_size b + length src + 128"
    using cap same by (auto simp: buffer_size_def same_data_def)
  ultimately show ?thesis using eq same by (auto simp: same_data_def)
qed

lemma buffer_pop_ok:
  assumes ok: "buffer_ok b"
  shows "\<exists>b' r. buffer_pop n b = Inr (b', r) \<and> buffer_ok b' \<and>
           buffer_content b' = drop (unat n) (buffer_content b) \<and>
           (bf_buf b \<noteq> None \<longrightarrow> bf_buf b' \<noteq> None) \<and> buffer_size b' \<le> buffer_size b"
proof (cases "n \<ge> bf_len b")
  case False
  then have lt: "unat n < unat (bf_len b)" by (simp add: word_nat)
  have "unat (bf_start b + n) = unat (bf_start b) + unat n"
    using ok lt by (intro unat_add_le_u32 [where z = "bf_end b"]) (simp add: buffer_ok_def)
  moreover have "unat (bf_len b - n) = unat (bf_len b) - unat n"
    using lt by (simp add: unat_sub_u32)
  ultimately show ?thesis using False ok lt
    by (auto simp: buffer_pop_def Let_def buffer_ok_def buffer_content_def drop_take add.commute
        buffer_size_def split: option.splits)
next
  case True
  let ?b1 = "buffer_clear b"
  have ok1: "buffer_ok ?b1" using ok buffer_clear_ok by blast
  have gone: "drop (unat n) (buffer_content b) = []"
    using True length_buffer_content [OF ok] by (simp add: word_nat)
  have eq: "buffer_pop n b = rbind (if bf_upper_limit b > 0 \<and> bf_alloc_size b > bf_upper_limit b
      then buffer_shrink ?b1 else Inr ?b1) (\<lambda>b2. Inr (b2, bf_len b))"
    using True by (simp add: buffer_pop_def Let_def buffer_clear_def)
  show ?thesis
  proof (cases "bf_upper_limit b > 0 \<and> bf_alloc_size b > bf_upper_limit b")
    case False
    then show ?thesis using eq ok1 gone buffer_clear_ok [OF ok]
      by (auto simp: buffer_clear_def buffer_size_def)
  next
    case True
    then have "bf_alloc_size b \<noteq> 0" by (auto simp: word_nat)
    then obtain blk where blk: "bf_buf ?b1 = Some blk"
      using ok by (auto simp: buffer_ok_def buffer_clear_def split: option.splits)
    have "bf_len ?b1 = 0" by (simp add: buffer_clear_def)
    then have "buffer_shrink ?b1 = Inr (?b1\<lparr>bf_gen := Suc (bf_gen ?b1), bf_buf :=
        Some (malloc_blk (unat (bf_init_alloc b))), bf_alloc_size := bf_init_alloc b\<rparr>)"
      using buffer_shrink_eq [OF ok1 blk] buffer_clear_ok [OF ok] by (simp add: buffer_clear_def)
    then show ?thesis using eq True gone
      by (simp add: buffer_ok_def buffer_content_def buffer_clear_def buffer_size_def)
  qed
qed

interpretation buffer_fifo: byte_fifo buffer_ok buffer_content buffer_size buffer_push buffer_pop
proof unfold_locales
  fix b :: buffer_t and xs :: "cell list"
  assume ok: "buffer_ok b" and ne: "xs \<noteq> []" and small: "buffer_size b + length xs + 128 < 2 ^ 32"
  have "buffer_room b (length xs)"
    using small by (auto simp: buffer_room_def buffer_size_def)
  with ok ne show "\<exists>b' r. buffer_push xs b = Inr (b', r) \<and> buffer_ok b' \<and>
      buffer_content b' = buffer_content b @ xs \<and> buffer_size b' \<le> buffer_size b + length xs + 128"
    using buffer_push_ok [of b xs] by blast
next
  fix b :: buffer_t and n :: u32
  assume "buffer_ok b"
  then show "\<exists>b' r. buffer_pop n b = Inr (b', r) \<and> buffer_ok b' \<and>
      buffer_content b' = drop (unat n) (buffer_content b) \<and> buffer_size b' \<le> buffer_size b"
    using buffer_pop_ok [of b n] by blast
qed

section \<open>Reading through the pointers\<close>

lemma buffer_fetch_content:
  assumes ok: "buffer_ok b" and c: "buffer_content b = map Some bs @ rest" and k: "length bs = k"
    and b': "bf_gen b' = bf_gen b" "bf_buf b' = bf_buf b" and "bs \<noteq> []"
  shows "buffer_fetch b' (bf_gen b, unat (bf_start b)) k = Inr bs"
proof -
  obtain blk where blk: "bf_buf b = Some blk"
    using c \<open>bs \<noteq> []\<close> by (auto simp: buffer_content_def split: option.splits)
  have "k \<le> unat (bf_len b)"
    using c k length_buffer_content [OF ok] by (metis length_append length_map le_add1)
  then have "take k (drop (unat (bf_start b)) blk) = take k (buffer_content b)"
    using blk by (simp add: buffer_content_def min_def)
  also have "\<dots> = map Some bs" using c k by simp
  finally have "take k (drop (unat (bf_start b)) blk) = map Some bs" .
  moreover have "unat (bf_start b) + k \<le> length blk"
    using ok blk \<open>k \<le> unat (bf_len b)\<close> by (simp add: buffer_ok_def)
  ultimately show ?thesis using blk b' by (simp add: buffer_fetch_def blk_read_ok)
qed

lemma buffer_pop_bytes_ok:
  assumes ok: "buffer_ok b" and c: "buffer_content b = map Some bs @ rest" and k: "length bs = k"
    and "bs \<noteq> []"
    and keep: "rest \<noteq> [] \<or> bf_upper_limit b = 0 \<or> bf_alloc_size b \<le> bf_upper_limit b"
  shows "\<exists>b'. buffer_pop_bytes k b = Inr (b', bs) \<and> buffer_ok b' \<and> buffer_content b' = rest"
proof -
  have len: "unat (bf_len b) = k + length rest"
    using length_buffer_content [OF ok] c k by simp
  then have "k < 4294967296" using unat_u32_bound [of "bf_len b"] by linarith
  then have n: "unat (of_nat k :: u32) = k" by (rule unat_of_nat_u32)
  have "bf_len b \<noteq> 0" using len k \<open>bs \<noteq> []\<close> by (auto simp: unat_eq_zero)
  moreover have "bf_buf b \<noteq> None"
    using c \<open>bs \<noteq> []\<close> by (auto simp: buffer_content_def split: option.splits)
  ultimately have p: "buffer_data b = Some (bf_gen b, unat (bf_start b))"
    by (simp add: buffer_data_def)
  obtain b' r where b': "buffer_pop (of_nat k) b = Inr (b', r)" "buffer_ok b'"
      "buffer_content b' = drop k (buffer_content b)"
    using buffer_pop_ok [OF ok, of "of_nat k"] n by auto
  have "bf_gen b' = bf_gen b \<and> bf_buf b' = bf_buf b"
  proof (cases "rest = []")
    case True
    then have "\<not> (bf_upper_limit b > 0 \<and> bf_alloc_size b > bf_upper_limit b)"
      using keep by auto
    then show ?thesis using b'(1) by (auto simp: buffer_pop_def Let_def split: if_splits)
  next
    case False
    then have "\<not> of_nat k \<ge> bf_len b" using len n by (simp add: word_nat)
    then show ?thesis using b'(1) by (auto simp: buffer_pop_def Let_def split: if_splits)
  qed
  then have "buffer_fetch b' (bf_gen b, unat (bf_start b)) k = Inr bs"
    using buffer_fetch_content [OF ok c k] \<open>bs \<noteq> []\<close> by simp
  then show ?thesis using p b' c k by (simp add: buffer_pop_bytes_def)
qed

text \<open>Filling the space that \<^verbatim>\<open>prepare\<close> made through \<^verbatim>\<open>tail()\<close> and publishing it with
  \<^verbatim>\<open>flush_push\<close> appends, as \<^verbatim>\<open>push\<close> does.\<close>

definition buffer_fill :: "u32 \<Rightarrow> cell list \<Rightarrow> buffer_t \<Rightarrow> buffer_t res" where
  "buffer_fill n xs b =
     rbind (buffer_prepare n b) (\<lambda>(b1, _).
     rbind (deref (buffer_tail b1)) (\<lambda>p.
     rbind (buffer_store p xs b1) (\<lambda>b2. buffer_flush_push (of_nat (length xs)) b2)))"

lemma buffer_fill_ok:
  assumes ok: "buffer_ok b" and room: "buffer_room b (unat n)" and xs: "length xs \<le> unat n"
    and "bf_buf b \<noteq> None \<or> n \<noteq> 0"
  shows "\<exists>b'. buffer_fill n xs b = Inr b' \<and> buffer_ok b' \<and>
           buffer_content b' = buffer_content b @ xs \<and> bf_buf b' \<noteq> None \<and>
           buffer_size b' \<le> buffer_size b + unat n + 128"
proof -
  let ?k = "of_nat (length xs) :: u32"
  obtain b1 where b1: "buffer_prepare n b = Inr (b1, bf_alloc_size b1)" and same: "same_data b b1"
    and fits: "unat (bf_end b1) + unat n \<le> unat (bf_alloc_size b1)" and nn: "bf_buf b1 \<noteq> None"
    and cap: "unat (bf_alloc_size b1) \<le> buffer_size b + unat n + 128"
    using buffer_prepare_ok [OF ok room] assms(4) by auto
  have ok1: "buffer_ok b1" using same by (simp add: same_data_def)
  obtain blk where blk: "bf_buf b1 = Some blk" using nn by auto
  have len: "length blk = unat (bf_alloc_size b1)" by (rule buffer_ok_blk [OF ok1 blk])
  have bounds: "unat (bf_start b1) + unat (bf_len b1) = unat (bf_end b1)"
    using ok1 by (simp add: buffer_ok_def)
  have k: "unat ?k = length xs"
    using xs unat_u32_bound [of n] by (intro unat_of_nat_u32) linarith
  have sums: "unat (bf_end b1 + ?k) = unat (bf_end b1) + length xs"
    "unat (bf_len b1 + ?k) = unat (bf_len b1) + length xs"
    using k fits xs bounds unat_add_le_u32 [of _ ?k "bf_alloc_size b1"] by simp_all
  let ?blk = "take (unat (bf_end b1)) blk @ xs @ drop (unat (bf_end b1) + length xs) blk"
  let ?b' = "b1\<lparr>bf_buf := Some ?blk, bf_len := bf_len b1 + ?k, bf_end := bf_end b1 + ?k\<rparr>"
  have "buffer_fill n xs b = Inr ?b'"
    using b1 blk fits xs len sums
    by (simp add: buffer_fill_def buffer_tail_def buffer_store_def blk_write_ok
        buffer_flush_push_def word_nat)
  moreover have "buffer_ok ?b'" using fits xs len sums bounds by (simp add: buffer_ok_def)
  moreover have "buffer_content ?b' = buffer_content b1 @ xs"
    using blk sums bounds [symmetric] fits xs len by (simp add: buffer_content_def drop_take)
  moreover have "buffer_size ?b' \<le> buffer_size b + unat n + 128"
    using cap same by (auto simp: buffer_size_def same_data_def)
  ultimately show ?thesis using same by (auto simp: same_data_def)
qed

section \<open>Properties\<close>

text \<open>C1: Any program of pushes of non-empty byte sequences and pops, run on a well-formed buffer
  whose capacity cannot reach the 32-bit limit, succeeds, keeps the buffer well-formed and leaves
  exactly the bytes a first-in first-out list would hold, whatever growing, shifting and
  shrinking happens on the way.\<close>

theorem buffer_refines_fifo:
  assumes "buffer_ok b" and "list_all fifo_nonempty ops"
    and "buffer_size b + fifo_growth ops < 2 ^ 32"
  shows "\<exists>b'. fifo_run buffer_push buffer_pop ops b = Inr b' \<and> buffer_ok b' \<and>
           buffer_content b' = fifo_list ops (buffer_content b)"
  using assms by (rule buffer_fifo.run_refines)

theorem buffer_refines_fifo_witness:
  "\<exists>b'. fifo_run buffer_push buffer_pop [Push [Some 1, Some 2], Pop 1, Push [Some 3]]
      (buffer_new_n 16) = Inr b' \<and> buffer_content b' = [Some 2, Some 3]"
  using buffer_refines_fifo [OF buffer_new_n_ok(1) [of 16],
      of "[Push [Some 1, Some 2], Pop 1, Push [Some 3]]"]
  by (auto simp: buffer_new_n_ok)

text \<open>Two integers pushed into an empty buffer come out in order: \<^verbatim>\<open>pop_int\<close> returns the
  first one, and the second one is what is left.\<close>

lemma buffer_push_pop_int:
  assumes ok: "buffer_ok b" and empty: "buffer_content b = []"
    and room: "buffer_size b + 264 < 2 ^ 32"
  shows "\<exists>b'. rbind (buffer_push_int n b) (\<lambda>b1. rbind (buffer_push_int m b1) buffer_pop_int)
           = Inr (b', n) \<and> buffer_ok b' \<and> buffer_content b' = map Some (le32 m)"
proof -
  obtain b1 r1 where b1: "buffer_push (map Some (le32 n)) b = Inr (b1, r1)" "buffer_ok b1"
      "buffer_content b1 = map Some (le32 n)" "buffer_size b1 \<le> buffer_size b + 132"
    using buffer_fifo.push_law [OF ok, of "map Some (le32 n)"] room empty
    by auto
  obtain b2 r2 where b2: "buffer_push (map Some (le32 m)) b1 = Inr (b2, r2)" "buffer_ok b2"
      "buffer_content b2 = map Some (le32 n) @ map Some (le32 m)"
    using buffer_fifo.push_law [OF b1(2), of "map Some (le32 m)"] room b1(3,4)
    by auto
  obtain b' where "buffer_pop_bytes 4 b2 = Inr (b', le32 n)" "buffer_ok b'"
      "buffer_content b' = map Some (le32 m)"
    using buffer_pop_bytes_ok [OF b2(2,3) length_le(2)] by auto
  then show ?thesis using b1 b2 by (simp add: buffer_push_int_def buffer_pop_int_def)
qed

text \<open>\<^verbatim>\<open>pop_int\<close> reads through the pointer it took before \<^verbatim>\<open>pop\<close>. When the integer is
  the last data of a buffer that has outgrown its shrink limit, \<^verbatim>\<open>pop\<close> frees the block first,
  and the read is a use after free.\<close>

lemma buffer_pop_int_use_after_free:
  assumes "buffer_ok b" and "0 < unat (bf_len b)" and "unat (bf_len b) \<le> 4"
    and "0 < bf_upper_limit b" and "bf_upper_limit b < bf_alloc_size b"
  shows "buffer_pop_int b = Inl Mem_error"
proof -
  have "bf_alloc_size b \<noteq> 0" using assms(4,5) by (auto simp: word_nat)
  then obtain blk where blk: "bf_buf b = Some blk"
    using assms(1) by (auto simp: buffer_ok_def split: option.splits)
  have p: "buffer_data b = Some (bf_gen b, unat (bf_start b))"
    using assms(2) blk by (auto simp: buffer_data_def unat_eq_zero)
  have pop: "buffer_pop 4 b = Inr (b\<lparr>bf_gen := Suc (bf_gen b), bf_start := 0, bf_end := 0,
      bf_len := 0, bf_buf := Some (malloc_blk (unat (bf_init_alloc b))),
      bf_alloc_size := bf_init_alloc b\<rparr>, bf_len b)"
    using assms(3-5) by (simp add: buffer_pop_def Let_def buffer_shrink_def word_nat)
  then show ?thesis
    using p by (simp add: buffer_pop_int_def buffer_pop_bytes_def buffer_fetch_def)
qed

text \<open>The copy constructor yields a well-formed buffer with the same bytes as its argument,
  whatever the two limits held before they were assigned.\<close>

lemma buffer_copy_content:
  assumes ok: "buffer_ok rhs"
  shows "\<exists>b'. buffer_copy u0 i0 rhs = Inr b' \<and> buffer_ok b' \<and>
           buffer_content b' = buffer_content rhs \<and> bf_alloc_size b' = bf_alloc_size rhs"
proof -
  let ?b = "buffer_alloc (bf_alloc_size rhs) (buffer_new\<lparr>bf_upper_limit := u0, bf_init_alloc := i0\<rparr>)"
  have len: "length (buffer_content rhs) = unat (bf_len rhs)"
    by (rule length_buffer_content [OF ok])
  have le: "unat (bf_len rhs) \<le> unat (bf_alloc_size rhs)"
    using ok by (simp add: buffer_ok_def)
  have src: "buffer_push_buffer rhs ?b = buffer_push (buffer_content rhs) ?b"
    using ok by (cases "bf_buf rhs") (auto simp: buffer_push_buffer_def buffer_data_def
        buffer_content_def buffer_ok_def blk_read_ok)
  have prep: "buffer_prepare (bf_len rhs) ?b = Inr (?b, bf_alloc_size rhs)"
    using le by (simp add: buffer_prepare_def buffer_alloc_def word_nat)
  let ?b' = "?b\<lparr>bf_buf := Some (buffer_content rhs
      @ drop (unat (bf_len rhs)) (malloc_blk (unat (bf_alloc_size rhs)))),
      bf_len := bf_len rhs, bf_end := bf_len rhs\<rparr>"
  have "buffer_push (buffer_content rhs) ?b = Inr (?b', bf_len rhs)"
    using prep le len by (simp add: buffer_push_def Let_def blk_write_ok buffer_alloc_def)
  then show ?thesis using src len le
    by (simp add: buffer_copy_def buffer_ok_def buffer_content_def [of "_\<lparr>bf_init_alloc := _\<rparr>"]
        buffer_alloc_def)
qed

end
