(* ===== verification/Msg_Queue_Spec.thy ===== *)
theory Msg_Queue_Spec
  imports Ax_Prelude
begin

text \<open>
  The contract of a message queue as its clients use it: a message (type and payload) that fits
  is appended, the front is the oldest message, popping removes it. The locale derives that a
  batch that fits comes out in the order it went in.
\<close>

type_synonym msg = "u32 \<times> u8 list"

fun send_all :: "(msg \<Rightarrow> 'q \<Rightarrow> 'q res) \<Rightarrow> msg list \<Rightarrow> 'q \<Rightarrow> 'q res" where
  "send_all push [] q = Inr q"
| "send_all push (m # ms) q = rbind (push m q) (send_all push ms)"

fun drain :: "('q \<Rightarrow> msg res) \<Rightarrow> ('q \<Rightarrow> 'q res) \<Rightarrow> nat \<Rightarrow> 'q \<Rightarrow> (msg list \<times> 'q) res" where
  "drain front pop 0 q = Inr ([], q)"
| "drain front pop (Suc n) q = rbind (front q) (\<lambda>m. rbind (pop q) (\<lambda>q'.
     rbind (drain front pop n q') (\<lambda>(ms, q''). Inr (m # ms, q''))))"

text \<open>The bytes a batch occupies.\<close>

definition batch_bytes :: "msg list \<Rightarrow> nat" where
  "batch_bytes ms = sum_list (map (\<lambda>m. length (snd m) + 8) ms)"

lemma batch_bytes_simps [simp]:
  "batch_bytes [] = 0"
  "batch_bytes (m # ms) = length (snd m) + 8 + batch_bytes ms"
  by (simp_all add: batch_bytes_def)

locale msg_queue =
  fixes rep :: "'q \<Rightarrow> msg list \<Rightarrow> bool"
    and room :: "'q \<Rightarrow> nat"
    and min_len :: nat
    and push :: "msg \<Rightarrow> 'q \<Rightarrow> 'q res"
    and front :: "'q \<Rightarrow> msg res"
    and pop :: "'q \<Rightarrow> 'q res"
  assumes push_law: "rep q ms \<Longrightarrow> min_len \<le> length (snd m) \<Longrightarrow> length (snd m) + 8 < room q \<Longrightarrow>
      \<exists>q'. push m q = Inr q' \<and> rep q' (ms @ [m]) \<and> room q' = room q - (length (snd m) + 8)"
    and front_law: "rep q (m # ms) \<Longrightarrow> front q = Inr m"
    and pop_law: "rep q (m # ms) \<Longrightarrow> \<exists>q'. pop q = Inr q' \<and> rep q' ms"
begin

lemma send_all_rep:
  assumes "rep q old" and "\<forall>m \<in> set ms. min_len \<le> length (snd m)" and "batch_bytes ms < room q"
  shows "\<exists>q'. send_all push ms q = Inr q' \<and> rep q' (old @ ms)"
  using assms
proof (induction ms arbitrary: q old)
  case Nil
  then show ?case by simp
next
  case (Cons m ms)
  then obtain q1 where "push m q = Inr q1" "rep q1 (old @ [m])"
      "room q1 = room q - (length (snd m) + 8)"
    using push_law [of q old m] by auto
  then show ?case using Cons.IH [of q1 "old @ [m]"] Cons.prems by auto
qed

lemma drain_rep: "rep q ms \<Longrightarrow> \<exists>q'. drain front pop (length ms) q = Inr (ms, q') \<and> rep q' []"
proof (induction ms arbitrary: q)
  case Nil
  then show ?case by simp
next
  case (Cons m ms)
  then obtain q1 where "pop q = Inr q1" "rep q1 ms" using pop_law by blast
  then show ?case using Cons.IH [of q1] front_law [OF Cons.prems] by auto
qed

lemma in_order:
  assumes "rep q []" and "\<forall>m \<in> set ms. min_len \<le> length (snd m)" and "batch_bytes ms < room q"
  shows "\<exists>q1 q'. send_all push ms q = Inr q1 \<and>
           drain front pop (length ms) q1 = Inr (ms, q') \<and> rep q' []"
proof -
  obtain q1 where "send_all push ms q = Inr q1" "rep q1 ms"
    using send_all_rep [OF assms] by auto
  then show ?thesis using drain_rep [of q1 ms] by blast
qed

end

end
