(* ===== verification/Ax_Queue.thy ===== *)
theory Ax_Queue
  imports Ax_Prelude Msg_Queue_Spec
begin

text \<open>
  The queue of variable-length messages \<^verbatim>\<open>queue_t\<close> of \<^verbatim>\<open>src/core/ax_queue.h\<close> and
  \<^verbatim>\<open>ax_queue.cc\<close>. Chunks live in a heap indexed by number, a message is a header (length and
  type, both 32-bit little-endian) followed by its payload, at a byte position of a chunk, as
  \<^verbatim>\<open>var_msg_t\<close> lays it out. Positions and sizes stay below twice \<^verbatim>\<open>capacity_limit\<close>, so they are
  naturals; the destructor only frees.
\<close>

section \<open>Data\<close>

text \<open>\<^verbatim>\<open>offsetof(var_msg_t, data)\<close> and \<^verbatim>\<open>sizeof(var_msg_t)\<close>, which includes the padding after
  the one-byte array, and the class constant \<^verbatim>\<open>capacity_limit\<close>.\<close>

definition VAR_MSG_HLEN :: nat where "VAR_MSG_HLEN = 8"
definition sizeof_var_msg :: nat where "sizeof_var_msg = 12"
definition capacity_limit :: nat where "capacity_limit = 4000000"

record buf_chunk_t =
  ck_capacity :: nat
  ck_nelems :: int
  ck_data :: block
  ck_prev :: "nat option"
  ck_next :: "nat option"

record queue_t =
  q_heap :: "nat \<rightharpoonup> buf_chunk_t"
  q_fresh :: nat
  q_each_capacity :: int
  q_chunk_spare :: "nat option"
  q_chunk_begin :: "nat option"
  q_pos_begin :: nat
  q_chunk_back :: "nat option"
  q_pos_back :: nat
  q_chunk_end :: "nat option"
  q_pos_end :: nat
  q_nelems :: int

section \<open>Operations\<close>

definition chunk_new :: "nat \<Rightarrow> buf_chunk_t" where
  "chunk_new n = \<lparr>ck_capacity = n, ck_nelems = 0, ck_data = malloc_blk n, ck_prev = None,
     ck_next = None\<rparr>"

text \<open>Following a chunk pointer, and assigning through one.\<close>

definition chunk_at :: "queue_t \<Rightarrow> nat option \<Rightarrow> buf_chunk_t res" where
  "chunk_at q p = rbind (deref p) (\<lambda>a. deref (q_heap q a))"

definition chunk_upd ::
  "nat option \<Rightarrow> (buf_chunk_t \<Rightarrow> buf_chunk_t) \<Rightarrow> queue_t \<Rightarrow> queue_t res" where
  "chunk_upd p f q = rbind (deref p) (\<lambda>a. rbind (deref (q_heap q a)) (\<lambda>c.
     Inr (q\<lparr>q_heap := (q_heap q)(a \<mapsto> f c)\<rparr>)))"

text \<open>The comparison of the constructor's \<^verbatim>\<open>int n\<close> with \<^verbatim>\<open>capacity_limit\<close> is unsigned.\<close>

definition queue_new :: "int \<Rightarrow> queue_t res" where
  "queue_new n = rbind (rt_assert (n mod 2 ^ 32 < int capacity_limit)) (\<lambda>_.
     Inr \<lparr>q_heap = [0 \<mapsto> chunk_new (nat n)], q_fresh = 1, q_each_capacity = n,
       q_chunk_spare = None, q_chunk_begin = Some 0, q_pos_begin = 0, q_chunk_back = None,
       q_pos_back = 0, q_chunk_end = Some 0, q_pos_end = 0, q_nelems = 0\<rparr>)"

text \<open>Where a message is put: the header pointer (chunk and offset) and the updated queue. The
  second branch takes a spare chunk or a new one, links it behind \<^verbatim>\<open>chunk_end_\<close> and rewinds
  \<^verbatim>\<open>pos_end_\<close>, but the header stays in the old \<^verbatim>\<open>chunk_end_\<close>.\<close>

definition queue_take_spare :: "nat \<Rightarrow> queue_t \<Rightarrow> (queue_t \<times> nat) res" where
  "queue_take_spare a q =
     rbind (deref (q_heap q a)) (\<lambda>c.
     let q1 = q\<lparr>q_chunk_spare := ck_next c\<rparr> in
     rbind (case q_chunk_spare q1 of None \<Rightarrow> Inr q1
            | Some s \<Rightarrow> chunk_upd (Some s) (\<lambda>d. d\<lparr>ck_prev := None\<rparr>) q1)
       (\<lambda>q2. Inr (q2, a)))"

definition queue_alloc_chunk :: "nat \<Rightarrow> queue_t \<Rightarrow> (queue_t \<times> nat) res" where
  "queue_alloc_chunk total_len q =
     (let cap = (if int total_len > q_each_capacity q then total_len
                 else nat (q_each_capacity q)) in
      Inr (q\<lparr>q_heap := (q_heap q)(q_fresh q \<mapsto> chunk_new cap), q_fresh := Suc (q_fresh q)\<rparr>,
           q_fresh q))"

definition queue_grow :: "nat \<Rightarrow> queue_t \<Rightarrow> queue_t res" where
  "queue_grow total_len q =
     rbind (case q_chunk_spare q of
              None \<Rightarrow> queue_alloc_chunk total_len q
            | Some s \<Rightarrow> rbind (deref (q_heap q s)) (\<lambda>sc.
                if ck_capacity sc > total_len then queue_take_spare s q
                else queue_alloc_chunk total_len q))
       (\<lambda>(q1, a).
     rbind (chunk_upd (Some a) (\<lambda>c. c\<lparr>ck_next := None, ck_prev := q_chunk_end q1\<rparr>) q1) (\<lambda>q2.
     rbind (chunk_upd (q_chunk_end q2) (\<lambda>c. c\<lparr>ck_next := Some a\<rparr>) q2) (\<lambda>q3.
       Inr (q3\<lparr>q_chunk_back := Some a, q_pos_end := 0\<rparr>))))"

text \<open>Writing the message at an offset of the chunk \<^verbatim>\<open>chunk_end_\<close>; a NULL \<^verbatim>\<open>vdata\<close> writes
  the header only.\<close>

definition queue_store :: "nat \<Rightarrow> u32 \<Rightarrow> u32 \<Rightarrow> cell list option \<Rightarrow> queue_t \<Rightarrow> queue_t res" where
  "queue_store off len ty vdata q =
     rbind (chunk_at q (q_chunk_end q)) (\<lambda>c.
     rbind (blk_write (ck_data c) off (map Some (le32 len @ le32 ty))) (\<lambda>d1.
     rbind (case vdata of None \<Rightarrow> Inr d1 | Some xs \<Rightarrow> blk_write d1 (off + VAR_MSG_HLEN) xs) (\<lambda>d2.
       chunk_upd (q_chunk_end q) (\<lambda>c. c\<lparr>ck_data := d2\<rparr>) q)))"

definition msg_total :: "int \<Rightarrow> nat" where
  "msg_total n = (if nat n + VAR_MSG_HLEN < sizeof_var_msg then sizeof_var_msg
                  else nat n + VAR_MSG_HLEN)"

definition queue_push :: "int \<Rightarrow> u32 \<Rightarrow> cell list option \<Rightarrow> queue_t \<Rightarrow> (queue_t \<times> int) res" where
  "queue_push n ty vdata q =
     rbind (rt_assert (n > 0)) (\<lambda>_.
     let total_len = msg_total n in
     if total_len > capacity_limit then Inr (q, AX_RET_FULL)
     else rbind (chunk_at q (q_chunk_end q)) (\<lambda>c.
     rbind (if q_pos_end q + total_len < ck_capacity c
            then Inr (q, q_pos_end q)
            else rbind (queue_grow total_len q) (\<lambda>q1. Inr (q1, 0))) (\<lambda>(q1, off).
     rbind (queue_store off (word_of_int n) ty vdata q1) (\<lambda>q2.
     let q3 = q2\<lparr>q_chunk_back := q_chunk_end q2\<rparr> in
     rbind (chunk_upd (q_chunk_back q3) (\<lambda>c. c\<lparr>ck_nelems := ck_nelems c + 1\<rparr>) q3) (\<lambda>q4.
       Inr (q4\<lparr>q_pos_back := q_pos_end q4, q_pos_end := q_pos_end q4 + total_len,
                q_nelems := q_nelems q4 + 1\<rparr>, AX_RET_OK))))))"

text \<open>\<^verbatim>\<open>front()\<close> and \<^verbatim>\<open>back()\<close> return the address of a header; reading the header and the
  payload through such an address.\<close>

definition queue_front :: "queue_t \<Rightarrow> (nat option \<times> nat)" where
  "queue_front q = (q_chunk_begin q, q_pos_begin q)"

definition queue_back :: "queue_t \<Rightarrow> (nat option \<times> nat) option" where
  "queue_back q = (if q_chunk_back q = None then None else Some (q_chunk_back q, q_pos_back q))"

definition read_u32 :: "queue_t \<Rightarrow> (nat option \<times> nat) \<Rightarrow> u32 res" where
  "read_u32 q p = rbind (chunk_at q (fst p)) (\<lambda>c.
     rbind (blk_read (ck_data c) (snd p) 4) (\<lambda>cs.
     rbind (cells_bytes cs) (\<lambda>bs. Inr (un_le32 bs))))"

definition msg_length :: "queue_t \<Rightarrow> (nat option \<times> nat) \<Rightarrow> u32 res" where
  "msg_length q p = read_u32 q p"

definition msg_type :: "queue_t \<Rightarrow> (nat option \<times> nat) \<Rightarrow> u32 res" where
  "msg_type q p = read_u32 q (fst p, snd p + 4)"

definition msg_payload :: "queue_t \<Rightarrow> (nat option \<times> nat) \<Rightarrow> u8 list res" where
  "msg_payload q p = rbind (msg_length q p) (\<lambda>n. rbind (chunk_at q (fst p)) (\<lambda>c.
     rbind (blk_read (ck_data c) (snd p + VAR_MSG_HLEN) (unat n)) cells_bytes))"

text \<open>\<^verbatim>\<open>pop()\<close>. The branch for a chunk that is not the last one stores the spare list into
  \<^verbatim>\<open>pchunk->next\<close> before it follows \<^verbatim>\<open>chunk_begin_->next\<close>, which is the same field.\<close>

definition queue_retire_chunk :: "queue_t \<Rightarrow> queue_t res" where
  "queue_retire_chunk q =
     (let pchunk = q_chunk_begin q in
      rbind (case q_chunk_spare q of None \<Rightarrow> Inr q
             | Some s \<Rightarrow> chunk_upd (Some s) (\<lambda>c. c\<lparr>ck_prev := pchunk\<rparr>) q) (\<lambda>q1.
      rbind (chunk_upd pchunk (\<lambda>c. c\<lparr>ck_next := q_chunk_spare q1, ck_prev := None\<rparr>) q1) (\<lambda>q2.
      rbind (chunk_at q2 (q_chunk_begin q2)) (\<lambda>c.
      let q3 = q2\<lparr>q_chunk_begin := ck_next c\<rparr> in
      chunk_upd (q_chunk_begin q3) (\<lambda>c. c\<lparr>ck_prev := None\<rparr>) q3))))"

definition queue_pop :: "queue_t \<Rightarrow> queue_t res" where
  "queue_pop q =
     rbind (chunk_at q (q_chunk_begin q)) (\<lambda>c.
     if ck_nelems c = 0 then Inr q
     else rbind (msg_length q (queue_front q)) (\<lambda>len.
     rbind (chunk_upd (q_chunk_begin q) (\<lambda>c. c\<lparr>ck_nelems := ck_nelems c - 1\<rparr>)
              (q\<lparr>q_pos_begin := q_pos_begin q + VAR_MSG_HLEN + unat len\<rparr>)) (\<lambda>q1.
     let q2 = q1\<lparr>q_nelems := q_nelems q1 - 1\<rparr> in
     if ck_nelems c - 1 = 0 then
       rbind (if q_chunk_back q2 = q_chunk_begin q2 then
                rbind (rt_assert (q_chunk_end q2 = q_chunk_begin q2)) (\<lambda>_.
                  Inr (q2\<lparr>q_pos_back := 0, q_chunk_back := None, q_pos_end := 0\<rparr>))
              else queue_retire_chunk q2)
         (\<lambda>q3. Inr (q3\<lparr>q_pos_begin := 0\<rparr>))
     else Inr q2)))"

definition queue_count :: "queue_t \<Rightarrow> int" where
  "queue_count q = q_nelems q"

text \<open>The destructor: the chunks it deletes, in order. It follows \<^verbatim>\<open>next\<close> from
  \<^verbatim>\<open>chunk_begin_\<close> up to \<^verbatim>\<open>chunk_end_\<close> and then along the spare list; the fuel is the number
  of chunks ever allocated.\<close>

fun queue_delete_live :: "nat \<Rightarrow> nat option \<Rightarrow> queue_t \<Rightarrow> nat list res" where
  "queue_delete_live 0 p q = Inl Diverge"
| "queue_delete_live (Suc k) p q =
     rbind (deref p) (\<lambda>a.
     if p = q_chunk_end q then Inr [a]
     else rbind (deref (q_heap q a)) (\<lambda>c.
       rbind (queue_delete_live k (ck_next c) q) (\<lambda>as. Inr (a # as))))"

fun queue_delete_spare :: "nat \<Rightarrow> nat option \<Rightarrow> queue_t \<Rightarrow> nat list res" where
  "queue_delete_spare 0 p q = (if p = None then Inr [] else Inl Diverge)"
| "queue_delete_spare (Suc k) p q = (case p of None \<Rightarrow> Inr []
     | Some a \<Rightarrow> rbind (deref (q_heap q a)) (\<lambda>c.
         rbind (queue_delete_spare k (ck_next c) q) (\<lambda>as. Inr (a # as))))"

definition queue_delete :: "queue_t \<Rightarrow> nat list res" where
  "queue_delete q =
     rbind (queue_delete_live (q_fresh q) (q_chunk_begin q) q) (\<lambda>xs.
     rbind (queue_delete_spare (q_fresh q) (q_chunk_spare q) q) (\<lambda>ys. Inr (xs @ ys)))"

section \<open>Messages in a chunk\<close>

lemmas queue_consts [simp] = VAR_MSG_HLEN_def sizeof_var_msg_def capacity_limit_def

definition enc_msg :: "msg \<Rightarrow> u8 list" where
  "enc_msg m = le32 (of_nat (length (snd m))) @ le32 (fst m) @ snd m"

lemma length_enc_msg [simp]: "length (enc_msg m) = length (snd m) + 8"
  by (simp add: enc_msg_def)

text \<open>\<open>queue_rep q ms\<close>: the queue holds the messages \<open>ms\<close>, all of them in one chunk, at least
  four bytes of payload each.\<close>

definition queue_rep :: "queue_t \<Rightarrow> msg list \<Rightarrow> bool" where
  "queue_rep q ms \<longleftrightarrow> (\<exists>a c pre post.
     q_chunk_begin q = Some a \<and> q_chunk_end q = Some a \<and> q_heap q a = Some c \<and>
     ck_data c = pre @ map Some (concat (map enc_msg ms)) @ post \<and>
     length (ck_data c) = ck_capacity c \<and> ck_capacity c < 4000000 \<and>
     q_pos_begin q = length pre \<and> q_pos_end q = length pre + length (concat (map enc_msg ms)) \<and>
     ck_nelems c = int (length ms) \<and> q_nelems q = int (length ms) \<and>
     q_chunk_back q = (if ms = [] then None else Some a) \<and>
     (ms = [] \<longrightarrow> pre = []) \<and> (\<forall>m \<in> set ms. 4 \<le> length (snd m)))"

lemma queue_repE:
  assumes "queue_rep q ms"
  obtains a c pre post where "q_chunk_begin q = Some a" "q_chunk_end q = Some a"
    "q_heap q a = Some c" "ck_data c = pre @ map Some (concat (map enc_msg ms)) @ post"
    "length (ck_data c) = ck_capacity c" "ck_capacity c < 4000000" "q_pos_begin q = length pre"
    "q_pos_end q = length pre + length (concat (map enc_msg ms))"
    "ck_nelems c = int (length ms)" "q_nelems q = int (length ms)"
    "q_chunk_back q = (if ms = [] then None else Some a)" "ms = [] \<longrightarrow> pre = []"
    "\<forall>m \<in> set ms. 4 \<le> length (snd m)"
  using assms unfolding queue_rep_def by blast

definition queue_room :: "queue_t \<Rightarrow> nat" where
  "queue_room q = (case chunk_at q (q_chunk_end q) of Inl _ \<Rightarrow> 0
     | Inr c \<Rightarrow> ck_capacity c - q_pos_end q)"

text \<open>How clients use the queue: send a message with its payload, look at the front.\<close>

definition queue_send :: "msg \<Rightarrow> queue_t \<Rightarrow> queue_t res" where
  "queue_send m q = rbind (queue_push (int (length (snd m))) (fst m) (Some (map Some (snd m))) q)
     (\<lambda>(q', _). Inr q')"

definition queue_peek :: "queue_t \<Rightarrow> msg res" where
  "queue_peek q = rbind (msg_type q (queue_front q)) (\<lambda>ty.
     rbind (msg_payload q (queue_front q)) (\<lambda>xs. Inr (ty, xs)))"

lemma blk_read_middle:
  "length pre = off \<Longrightarrow> length xs = n \<Longrightarrow> blk_read (pre @ xs @ post) off n = Inr xs"
  by (auto simp: blk_read_def)

lemma blk_write_middle:
  "length pre = off \<Longrightarrow> length xs = length ys \<Longrightarrow>
   blk_write (pre @ ys @ post) off xs = Inr (pre @ xs @ post)"
  by (auto simp: blk_write_def)

lemma read_u32_at:
  assumes "q_heap q a = Some c" and "ck_data c = pre @ map Some (le32 w) @ post"
    and "length pre = off"
  shows "read_u32 q (Some a, off) = Inr w"
  using assms by (simp add: read_u32_def chunk_at_def blk_read_middle)

lemma queue_front_reads:
  assumes "queue_rep q (m # ms)"
  shows "msg_length q (queue_front q) = Inr (of_nat (length (snd m)))"
    and "queue_peek q = Inr m"
proof -
  obtain a c pre post where q: "q_chunk_begin q = Some a" "q_heap q a = Some c"
      "q_pos_begin q = length pre" and
    d: "ck_data c = pre @ map Some (concat (map enc_msg (m # ms))) @ post"
    and cap: "length (ck_data c) = ck_capacity c" "ck_capacity c < 4000000"
    using assms by (elim queue_repE) blast
  let ?rest = "map Some (concat (map enc_msg ms)) @ post"
  have d1: "ck_data c = pre @ map Some (le32 (of_nat (length (snd m))))
      @ map Some (le32 (fst m)) @ map Some (snd m) @ ?rest"
    using d by (simp add: enc_msg_def)
  show len: "msg_length q (queue_front q) = Inr (of_nat (length (snd m)))"
    using read_u32_at [OF q(2) d1] q by (simp add: msg_length_def queue_front_def)
  have ty: "msg_type q (queue_front q) = Inr (fst m)"
    using read_u32_at [of q a c "pre @ map Some (le32 (of_nat (length (snd m))))"] q d1
    by (simp add: msg_type_def queue_front_def)
  have n: "unat (of_nat (length (snd m)) :: u32) = length (snd m)"
    using cap d1 by (intro unat_of_nat_u32) simp
  have "blk_read (ck_data c) (length pre + 8) (length (snd m)) = Inr (map Some (snd m))"
    using blk_read_middle [of "pre @ map Some (le32 (of_nat (length (snd m))))
        @ map Some (le32 (fst m))" _ "map Some (snd m)"] d1 by simp
  then have "msg_payload q (queue_front q) = Inr (snd m)"
    using len n q by (simp add: msg_payload_def queue_front_def chunk_at_def)
  then show "queue_peek q = Inr m" using ty by (simp add: queue_peek_def)
qed

lemma queue_store_fits:
  assumes "q_chunk_end q = Some a" and "q_heap q a = Some c"
    and "ck_data c = pre @ hdr @ body @ post" and "length pre = off" and "length hdr = 8"
    and "length body = length xs"
  shows "queue_store off len ty (Some (map Some xs)) q = Inr (q\<lparr>q_heap := (q_heap q)(a \<mapsto>
      c\<lparr>ck_data := pre @ map Some (le32 len @ le32 ty @ xs) @ post\<rparr>)\<rparr>)"
proof -
  have "blk_write (ck_data c) off (map Some (le32 len @ le32 ty)) =
      Inr (pre @ map Some (le32 len @ le32 ty) @ body @ post)"
    using assms(3-5) blk_write_middle [of pre off "map Some (le32 len @ le32 ty)" hdr] by simp
  moreover have "blk_write (pre @ map Some (le32 len @ le32 ty) @ body @ post) (off + 8)
      (map Some xs) = Inr (pre @ map Some (le32 len @ le32 ty) @ map Some xs @ post)"
    using assms(4,6) blk_write_middle [of "pre @ map Some (le32 len @ le32 ty)" "off + 8"
        "map Some xs" body post] by simp
  ultimately show ?thesis
    using assms(1,2) by (simp add: queue_store_def chunk_at_def chunk_upd_def)
qed

text \<open>The state after a message that fits has been sent.\<close>

lemma queue_send_eq:
  assumes q: "q_chunk_end q = Some a" "q_heap q a = Some c"
    and d: "ck_data c = pre @ hdr @ body @ post" "length pre = q_pos_end q" "length hdr = 8"
      "length body = length (snd m)"
    and fits: "q_pos_end q + msg_total (int (length (snd m))) < ck_capacity c"
    and limit: "ck_capacity c < 4000000" and ne: "snd m \<noteq> []"
  shows "queue_send m q = Inr (q\<lparr>q_heap := (q_heap q)(a \<mapsto> c\<lparr>ck_data := pre
           @ map Some (enc_msg m) @ post, ck_nelems := ck_nelems c + 1\<rparr>), q_chunk_back := Some a,
         q_pos_back := q_pos_end q,
         q_pos_end := q_pos_end q + msg_total (int (length (snd m))), q_nelems := q_nelems q + 1\<rparr>)"
proof -
  have store: "queue_store (q_pos_end q) (word_of_int (int (length (snd m)))) (fst m)
      (Some (map Some (snd m))) q = Inr (q\<lparr>q_heap := (q_heap q)(a \<mapsto>
        c\<lparr>ck_data := pre @ map Some (enc_msg m) @ post\<rparr>)\<rparr>)"
    using queue_store_fits [OF q d(1) d(2-4)] by (simp add: enc_msg_def)
  show ?thesis using fits limit ne q store
    by (simp add: queue_send_def queue_push_def Let_def chunk_at_def chunk_upd_def)
qed

lemma queue_send_rep:
  assumes rep: "queue_rep q ms" and big: "4 \<le> length (snd m)"
    and fits: "length (snd m) + 8 < queue_room q"
  shows "\<exists>q'. queue_send m q = Inr q' \<and> queue_rep q' (ms @ [m]) \<and>
           queue_room q' = queue_room q - (length (snd m) + 8)"
proof -
  obtain a c pre post where q: "q_chunk_begin q = Some a" "q_chunk_end q = Some a"
      "q_heap q a = Some c" "length (ck_data c) = ck_capacity c" "ck_capacity c < 4000000"
      "q_pos_begin q = length pre" "q_pos_end q = length pre + length (concat (map enc_msg ms))"
      "ck_nelems c = int (length ms)" "q_nelems q = int (length ms)"
      "\<forall>m \<in> set ms. 4 \<le> length (snd m)" "ms = [] \<longrightarrow> pre = []"
    and d: "ck_data c = pre @ map Some (concat (map enc_msg ms)) @ post"
    using rep by (elim queue_repE) blast
  let ?n = "length (snd m)"
  have room: "q_pos_end q + (?n + 8) < ck_capacity c"
    using fits q by (simp add: queue_room_def chunk_at_def)
  then have lp: "?n + 8 < length post" using d q by simp
  define hdr body post' where parts: "hdr = take 8 post" "body = take ?n (drop 8 post)"
      "post' = drop (?n + 8) post"
  have post: "post = hdr @ body @ post'" "length hdr = 8" "length body = ?n"
    using lp by (simp_all add: parts add.commute flip: drop_drop)
  let ?pre = "pre @ map Some (concat (map enc_msg ms))"
  let ?c = "c\<lparr>ck_data := ?pre @ map Some (enc_msg m) @ post', ck_nelems := ck_nelems c + 1\<rparr>"
  let ?q = "q\<lparr>q_heap := (q_heap q)(a \<mapsto> ?c),
      q_chunk_back := Some a, q_pos_back := q_pos_end q, q_pos_end := q_pos_end q + (?n + 8),
      q_nelems := q_nelems q + 1\<rparr>"
  have total: "msg_total (int ?n) = ?n + 8" using big by (simp add: msg_total_def)
  have "snd m \<noteq> []" using big by auto
  then have "queue_send m q = Inr ?q"
    using queue_send_eq [of q a c ?pre hdr body post' m] q d post room total by simp
  moreover have "queue_rep ?q (ms @ [m])"
    unfolding queue_rep_def
    by (rule exI [of _ a], rule exI [of _ ?c],
        rule exI [of _ pre], rule exI [of _ post']) (use q d post big in auto)
  moreover have "queue_room ?q = queue_room q - (?n + 8)"
    using q by (simp add: queue_room_def chunk_at_def)
  ultimately show ?thesis by blast
qed

lemma queue_pop_rep:
  assumes rep: "queue_rep q (m # ms)"
  shows "\<exists>q'. queue_pop q = Inr q' \<and> queue_rep q' ms"
proof -
  obtain a c pre post where q: "q_chunk_begin q = Some a" "q_chunk_end q = Some a"
      "q_heap q a = Some c" "length (ck_data c) = ck_capacity c" "ck_capacity c < 4000000"
      "q_pos_begin q = length pre"
      "q_pos_end q = length pre + length (concat (map enc_msg (m # ms)))"
      "ck_nelems c = int (length (m # ms))" "q_nelems q = int (length (m # ms))"
      "\<forall>m \<in> set (m # ms). 4 \<le> length (snd m)" "q_chunk_back q = Some a"
    and d: "ck_data c = pre @ map Some (concat (map enc_msg (m # ms))) @ post"
    using rep by (elim queue_repE) auto
  have n: "unat (of_nat (length (snd m)) :: u32) = length (snd m)"
    using q d by (intro unat_of_nat_u32) simp
  note len = queue_front_reads(1) [OF rep]
  let ?c = "c\<lparr>ck_nelems := int (length ms)\<rparr>"
  let ?q = "q\<lparr>q_heap := (q_heap q)(a \<mapsto> ?c), q_pos_begin := length pre + 8 + length (snd m),
      q_nelems := int (length ms)\<rparr>"
  show ?thesis
  proof (cases "ms = []")
    case False
    have "queue_pop q = Inr ?q"
      using q len n False by (simp add: queue_pop_def chunk_at_def chunk_upd_def Let_def)
    moreover have "queue_rep ?q ms"
      unfolding queue_rep_def
      by (rule exI [of _ a], rule exI [of _ ?c],
          rule exI [of _ "pre @ map Some (enc_msg m)"], rule exI [of _ post])
        (use q d False in auto)
    ultimately show ?thesis by blast
  next
    case True
    have "queue_pop q = Inr (?q\<lparr>q_pos_begin := 0, q_pos_back := 0, q_chunk_back := None,
        q_pos_end := 0\<rparr>)"
      using q len n True by (simp add: queue_pop_def chunk_at_def chunk_upd_def Let_def)
    moreover have "queue_rep (?q\<lparr>q_pos_begin := 0, q_pos_back := 0, q_chunk_back := None,
        q_pos_end := 0\<rparr>) ms"
      unfolding queue_rep_def
      by (rule exI [of _ a], rule exI [of _ ?c], rule exI [of _ "[]"],
          rule exI [of _ "ck_data c"]) (use q True in auto)
    ultimately show ?thesis by blast
  qed
qed

interpretation var_queue: msg_queue queue_rep queue_room 4 queue_send queue_peek queue_pop
proof unfold_locales
  fix q ms and m :: msg
  assume "queue_rep q ms" "4 \<le> length (snd m)" "length (snd m) + 8 < queue_room q"
  then show "\<exists>q'. queue_send m q = Inr q' \<and> queue_rep q' (ms @ [m]) \<and>
      queue_room q' = queue_room q - (length (snd m) + 8)"
    by (rule queue_send_rep)
next
  fix q m ms
  assume "queue_rep q (m # ms)"
  then show "queue_peek q = Inr m" by (rule queue_front_reads(2))
next
  fix q m ms
  assume "queue_rep q (m # ms)"
  then show "\<exists>q'. queue_pop q = Inr q' \<and> queue_rep q' ms" by (rule queue_pop_rep)
qed

lemma queue_new_rep:
  assumes "0 \<le> n" and "n < 4000000"
  shows "\<exists>q. queue_new n = Inr q \<and> queue_rep q [] \<and> queue_room q = nat n"
  using assms
  by (auto simp: queue_new_def queue_rep_def queue_room_def chunk_new_def chunk_at_def)

section \<open>When a message does not fit\<close>

definition grown_queue :: "nat \<Rightarrow> buf_chunk_t \<Rightarrow> nat \<Rightarrow> queue_t \<Rightarrow> queue_t" where
  "grown_queue a c tot q = q\<lparr>q_heap := (q_heap q)(q_fresh q \<mapsto> (chunk_new
      (if int tot > q_each_capacity q then tot else nat (q_each_capacity q)))
        \<lparr>ck_next := None, ck_prev := Some a\<rparr>, a \<mapsto> c\<lparr>ck_next := Some (q_fresh q)\<rparr>),
      q_fresh := Suc (q_fresh q), q_chunk_back := Some (q_fresh q), q_pos_end := 0\<rparr>"

lemma queue_grow_eq:
  assumes "q_chunk_spare q = None" and "q_chunk_end q = Some a" and "q_heap q a = Some c"
    and "q_fresh q \<noteq> a"
  shows "queue_grow tot q = Inr (grown_queue a c tot q)"
  using assms by (simp add: queue_grow_def queue_alloc_chunk_def Let_def chunk_upd_def
      grown_queue_def fun_upd_twist)

section \<open>Properties\<close>

text \<open>C3: A batch of messages of at least four bytes each that fits into the first chunk of a new
  queue is read back by \<^verbatim>\<open>front\<close> and \<^verbatim>\<open>pop\<close> in the order it was pushed, types and payloads
  intact, and the queue is empty afterwards.\<close>

theorem queue_in_order:
  assumes "0 \<le> n" and "n < 4000000" and "\<forall>m \<in> set ms. 4 \<le> length (snd m)"
    and "batch_bytes ms < nat n"
  shows "\<exists>q0 q1 q2. queue_new n = Inr q0 \<and> send_all queue_send ms q0 = Inr q1 \<and>
           drain queue_peek queue_pop (length ms) q1 = Inr (ms, q2) \<and> queue_count q2 = 0"
proof -
  obtain q0 where "queue_new n = Inr q0" "queue_rep q0 []" "queue_room q0 = nat n"
    using queue_new_rep [OF assms(1,2)] by blast
  moreover from this obtain q1 q2 where "send_all queue_send ms q0 = Inr q1"
      "drain queue_peek queue_pop (length ms) q1 = Inr (ms, q2)" "queue_rep q2 []"
    using var_queue.in_order [of q0 ms] assms by auto
  ultimately show ?thesis by (auto simp: queue_count_def elim: queue_repE)
qed

theorem queue_in_order_witness:
  "\<exists>q0 q1 q2. queue_new 100 = Inr q0 \<and>
     send_all queue_send [(1, [1, 2, 3, 4]), (2, [5, 6, 7, 8, 9])] q0 = Inr q1 \<and>
     drain queue_peek queue_pop 2 q1 = Inr ([(1, [1, 2, 3, 4]), (2, [5, 6, 7, 8, 9])], q2) \<and>
     queue_count q2 = 0"
  using queue_in_order [of 100 "[(1, [1, 2, 3, 4]), (2, [5, 6, 7, 8, 9])]"]
  by (simp add: numeral_2_eq_2)



text \<open>A message larger than the current chunk gets a chunk of its own size, but it is written
  into the old one: the copy runs past the end of the block.\<close>

lemma queue_large_message_overruns:
  assumes rep: "queue_rep q ms" and spare: "q_chunk_spare q = None"
    and fresh: "q_heap q (q_fresh q) = None"
    and large: "queue_room q + q_pos_end q < length xs + 8" and limit: "length xs + 8 \<le> 4000000"
    and "4 \<le> length xs"
  shows "queue_push (int (length xs)) ty (Some (map Some xs)) q = Inl Mem_error"
proof -
  obtain a c where q: "q_chunk_end q = Some a" "q_heap q a = Some c"
      "length (ck_data c) = ck_capacity c" "q_pos_end q \<le> ck_capacity c"
    using rep by (elim queue_repE) auto
  let ?n = "length xs"
  have big: "ck_capacity c < ?n + 8" using large q by (simp add: queue_room_def chunk_at_def)
  have neq: "q_fresh q \<noteq> a" using fresh q by auto
  have total: "msg_total (int ?n) = ?n + 8" using assms(6) by (simp add: msg_total_def)
  have "queue_store 0 (word_of_int (int ?n)) ty (Some (map Some xs)) (grown_queue a c (?n + 8) q)
      = Inl Mem_error"
    using q big \<open>4 \<le> length xs\<close>
    by (auto simp: queue_store_def grown_queue_def chunk_at_def blk_write_def)
  then show ?thesis
    using q big total limit \<open>4 \<le> length xs\<close> queue_grow_eq [OF spare q(1,2) neq, of "?n + 8"]
    by (cases xs) (auto simp: queue_push_def Let_def chunk_at_def)
qed

text \<open>A payload shorter than four bytes is padded by \<^verbatim>\<open>push\<close> to the size of \<^verbatim>\<open>var_msg_t\<close>
  but \<^verbatim>\<open>pop\<close> skips only the header and the payload: after the first of two messages is popped,
  \<^verbatim>\<open>front\<close> points into the padding and reads a length nobody wrote.\<close>

lemma queue_short_message_misread:
  assumes short: "xs \<noteq> []" "length xs < 4" and "ys \<noteq> []"
    and n: "int (12 + msg_total (int (length ys))) < n" "n < 4000000"
  shows "rbind (queue_new n) (\<lambda>q0. rbind (send_all queue_send [(t1, xs), (t2, ys)] q0)
     (\<lambda>q1. rbind (queue_pop q1) (\<lambda>q2. msg_length q2 (queue_front q2)))) = Inl Mem_error"
proof -
  let ?x = "enc_msg (t1, xs)" and ?y = "enc_msg (t2, ys)"
  define pad where "pad = 4 - length xs"
  have t1: "msg_total (int (length xs)) = 12" using short by (simp add: msg_total_def)
  have t2: "length ys + 8 \<le> msg_total (int (length ys))" by (simp add: msg_total_def)
  define r where "r = nat n - 12 - (length ys + 8)"
  have "nat n = 8 + length xs + (pad + (8 + length ys + r))"
    using n short t2 by (auto simp: r_def pad_def)
  then have blk: "malloc_blk (nat n) = malloc_blk 8 @ malloc_blk (length xs) @ malloc_blk pad
      @ malloc_blk 8 @ malloc_blk (length ys) @ malloc_blk r"
    by (simp only: malloc_blk_def replicate_add append_assoc)
  define c0 c1 c2 where c: "c0 = chunk_new (nat n)"
    "c1 = c0\<lparr>ck_data := map Some ?x @ malloc_blk pad @ malloc_blk 8 @ malloc_blk (length ys)
            @ malloc_blk r, ck_nelems := 1\<rparr>"
    "c2 = c1\<lparr>ck_data := (map Some ?x @ malloc_blk pad) @ map Some ?y @ malloc_blk r,
            ck_nelems := 2\<rparr>"
  define q0 where "q0 = \<lparr>q_heap = [0 \<mapsto> c0], q_fresh = 1, q_each_capacity = n,
    q_chunk_spare = None, q_chunk_begin = Some 0, q_pos_begin = 0, q_chunk_back = None,
    q_pos_back = 0, q_chunk_end = Some 0, q_pos_end = 0, q_nelems = 0\<rparr>"
  have new: "queue_new n = Inr q0" using n by (simp add: queue_new_def q0_def c)
  let ?q1 = "q0\<lparr>q_heap := [0 \<mapsto> c1], q_chunk_back := Some 0, q_pos_back := 0, q_pos_end := 12,
    q_nelems := 1\<rparr>"
  have s1: "queue_send (t1, xs) q0 = Inr ?q1"
    using n blk t1 t2 short
    by (subst queue_send_eq [where a = 0 and c = c0 and pre = "[]" and hdr = "malloc_blk 8"
          and body = "malloc_blk (length xs)"
          and post = "malloc_blk pad @ malloc_blk 8 @ malloc_blk (length ys) @ malloc_blk r"])
      (simp_all add: q0_def c chunk_new_def)
  let ?q2 = "q0\<lparr>q_heap := [0 \<mapsto> c2], q_chunk_back := Some 0, q_pos_back := 12,
    q_pos_end := 12 + msg_total (int (length ys)), q_nelems := 2\<rparr>"
  have s2: "queue_send (t2, ys) ?q1 = Inr ?q2"
    using n short \<open>ys \<noteq> []\<close>
    by (subst queue_send_eq [where a = 0 and c = c1 and pre = "map Some ?x @ malloc_blk pad"
          and hdr = "malloc_blk 8" and body = "malloc_blk (length ys)" and post = "malloc_blk r"])
      (simp_all add: q0_def c chunk_new_def pad_def)
  have len: "msg_length ?q2 (Some 0, 0) = Inr (of_nat (length xs))"
    using read_u32_at [of ?q2 0 c2 "[]" "of_nat (length xs)"]
    by (simp add: msg_length_def c enc_msg_def)
  have "unat (of_nat (length xs) :: u32) = length xs"
    using short by (intro unat_of_nat_u32) simp
  then have pop: "queue_pop ?q2 = Inr (?q2\<lparr>q_heap := [0 \<mapsto> c2\<lparr>ck_nelems := 1\<rparr>],
      q_pos_begin := 8 + length xs, q_nelems := 1\<rparr>)"
    using len by (simp add: queue_pop_def queue_front_def chunk_at_def chunk_upd_def c q0_def)
  obtain zs where "malloc_blk pad @ map Some ?y @ malloc_blk r = None # zs"
    using short by (cases pad) (auto simp: pad_def malloc_blk_def)
  then have "ck_data c2 = map Some ?x @ None # zs" by (simp add: c)
  then have "msg_length (?q2\<lparr>q_heap := [0 \<mapsto> c2\<lparr>ck_nelems := 1\<rparr>], q_pos_begin := 8 + length xs,
      q_nelems := 1\<rparr>) (Some 0, 8 + length xs) = Inl Mem_error"
    by (simp add: msg_length_def read_u32_def chunk_at_def blk_read_def)
  then show ?thesis using new s1 s2 pop by (simp add: queue_front_def q0_def)
qed

end
