(* ===== verification/Mem_Pool.thy ===== *)
theory Mem_Pool
  imports Ax_Prelude "HOL-Library.Signed_Division"
begin

text \<open>
  The memory pool \<^verbatim>\<open>MemPool\<close> of \<^verbatim>\<open>src/core/mem_pool.h\<close> and \<^verbatim>\<open>mem_pool.cc\<close>, at the level of
  its bytes: nodes of \<^verbatim>\<open>offset_\<close> bytes whose last byte is an allocation flag and whose first
  four bytes hold, while the node is free, the index of the next free node. An address is an
  integer offset from \<^verbatim>\<open>buf_\<close>; blocks that come from the system allocator have addresses
  outside the pool.
\<close>

section \<open>Data and operations\<close>

definition POOL_ALLOC_FLAG :: u8 where "POOL_ALLOC_FLAG = 0x77"
definition POOL_FREE_FLAG :: u8 where "POOL_FREE_FLAG = 0"

record mem_pool =
  mp_buf :: block
  mp_buf_end :: int
  mp_free_node :: int
  mp_capacity :: int
  mp_nalloc :: int
  mp_elt_size :: nat
  mp_offset :: int

text \<open>Access of an \<^verbatim>\<open>int\<close> or a \<^verbatim>\<open>char\<close> at an address.\<close>

definition mem_write :: "block \<Rightarrow> int \<Rightarrow> u8 list \<Rightarrow> block res" where
  "mem_write b a bs = (if a < 0 then Inl Mem_error else blk_write b (nat a) (map Some bs))"

definition mem_read :: "block \<Rightarrow> int \<Rightarrow> nat \<Rightarrow> u8 list res" where
  "mem_read b a n = (if a < 0 then Inl Mem_error else rbind (blk_read b (nat a) n) cells_bytes)"

definition read_int :: "block \<Rightarrow> int \<Rightarrow> int res" where
  "read_int b a = rbind (mem_read b a 4) (\<lambda>bs. Inr (sint (un_le32 bs)))"

definition write_int :: "block \<Rightarrow> int \<Rightarrow> int \<Rightarrow> block res" where
  "write_int b a v = mem_write b a (le32 (word_of_int v))"

definition read_char :: "block \<Rightarrow> int \<Rightarrow> u8 res" where
  "read_char b a = rbind (mem_read b a 1) (\<lambda>bs. Inr (hd bs))"

text \<open>The loop that links node \<open>i\<close> to node \<open>i + 1\<close>, for the \<open>k\<close> indices from \<open>i\<close> on. The products of
  indices with \<^verbatim>\<open>offset_\<close> are computed in \<^verbatim>\<open>int\<close>.\<close>

fun pool_link :: "int \<Rightarrow> int \<Rightarrow> nat \<Rightarrow> block \<Rightarrow> block res" where
  "pool_link off i 0 b = Inr b"
| "pool_link off i (Suc k) b =
     rbind (c_int (i * off)) (\<lambda>a. rbind (write_int b a (i + 1)) (pool_link off (i + 1) k))"

text \<open>The constructor. \<^verbatim>\<open>elt_size_ + 1\<close> and \<^verbatim>\<open>n * offset_\<close> are unsigned 32-bit values; the first is stored in
  the \<^verbatim>\<open>int\<close> \<^verbatim>\<open>offset_\<close>.\<close>

definition pool_new :: "u32 \<Rightarrow> u32 \<Rightarrow> mem_pool res" where
  "pool_new n elt_size =
     (let elt = (if elt_size < 5 then 5 else elt_size);
          off = sint (elt + 1);
          bytes = unat (n * (elt + 1));
          cap = sint n in
      rbind (c_int (cap - 1)) (\<lambda>last.
      rbind (pool_link off 0 (nat last) (replicate bytes (Some 0))) (\<lambda>b.
      rbind (c_int (last * off)) (\<lambda>a.
      rbind (write_int b a (- 1)) (\<lambda>b'.
        Inr \<lparr>mp_buf = b', mp_buf_end = int bytes, mp_free_node = 0, mp_capacity = cap,
             mp_nalloc = 0, mp_elt_size = unat elt, mp_offset = off\<rparr>)))))"

text \<open>\<^verbatim>\<open>alloc()\<close>; \<open>sys\<close> is the address the system allocator returns when the pool is full.\<close>

definition pool_alloc :: "int \<Rightarrow> mem_pool \<Rightarrow> (mem_pool \<times> int) res" where
  "pool_alloc sys m =
     (if mp_nalloc m \<ge> mp_capacity m then Inr (m, sys)
      else rbind (rt_assert (mp_free_node m \<ge> 0)) (\<lambda>_.
      rbind (c_int (mp_free_node m * mp_offset m)) (\<lambda>p.
      rbind (read_int (mp_buf m) p) (\<lambda>next.
      rbind (read_char (mp_buf m) (p + int (mp_elt_size m))) (\<lambda>flag.
      rbind (rt_assert (flag = POOL_FREE_FLAG)) (\<lambda>_.
      rbind (mem_write (mp_buf m) (p + int (mp_elt_size m)) [POOL_ALLOC_FLAG]) (\<lambda>b.
        Inr (m\<lparr>mp_buf := b, mp_free_node := next, mp_nalloc := mp_nalloc m + 1\<rparr>, p))))))))"

text \<open>The index \<^verbatim>\<open>(int)(pc - buf_) / offset_\<close> of a node: the difference is cut to 32 bits, the division rounds
  towards zero.\<close>

definition node_index :: "int \<Rightarrow> int \<Rightarrow> int res" where
  "node_index p off = (if off = 0 then Inl Div_zero else c_int (sint (word_of_int p :: u32) sdiv off))"

text \<open>\<^verbatim>\<open>free(p)\<close>: an address below \<^verbatim>\<open>buf_\<close> or above \<^verbatim>\<open>buf_end_\<close> goes to the system
  allocator and leaves the pool alone.\<close>

definition pool_free :: "int \<Rightarrow> mem_pool \<Rightarrow> mem_pool res" where
  "pool_free p m =
     (if p < 0 \<or> p > mp_buf_end m then Inr m
      else rbind (read_char (mp_buf m) (p + int (mp_elt_size m))) (\<lambda>flag.
      rbind (rt_assert (flag = POOL_ALLOC_FLAG)) (\<lambda>_.
      rbind (node_index p (mp_offset m)) (\<lambda>n.
      rbind (write_int (mp_buf m) p (mp_free_node m)) (\<lambda>b.
      rbind (mem_write b (p + int (mp_elt_size m)) [POOL_FREE_FLAG]) (\<lambda>b'.
      rbind (c_int (mp_nalloc m - 1)) (\<lambda>nalloc.
        Inr (m\<lparr>mp_buf := b', mp_free_node := n, mp_nalloc := nalloc\<rparr>))))))))"

text \<open>What a client does with a node it owns: it stores bytes into it.\<close>

definition pool_store :: "int \<Rightarrow> nat \<Rightarrow> u8 list \<Rightarrow> mem_pool \<Rightarrow> mem_pool res" where
  "pool_store p k bs m =
     rbind (mem_write (mp_buf m) (p + int k) bs) (\<lambda>b. Inr (m\<lparr>mp_buf := b\<rparr>))"

section \<open>The free list\<close>

text \<open>The size of a node as a natural number.\<close>

definition node_bytes :: "mem_pool \<Rightarrow> nat" where
  "node_bytes m = nat (mp_offset m)"

lemma node_bytes_simps [simp]:
  "node_bytes (m\<lparr>mp_buf := b\<rparr>) = node_bytes m"
  "node_bytes (m\<lparr>mp_free_node := v\<rparr>) = node_bytes m"
  "node_bytes (m\<lparr>mp_nalloc := n\<rparr>) = node_bytes m"
  "node_bytes \<lparr>mp_buf = b, mp_buf_end = be, mp_free_node = v, mp_capacity = cap, mp_nalloc = n, mp_elt_size = e, mp_offset = int k\<rparr> = k"
  by (simp_all add: node_bytes_def)

definition node_flag :: "mem_pool \<Rightarrow> nat \<Rightarrow> u8 res" where
  "node_flag m i = read_char (mp_buf m) (int i * int (node_bytes m) + int (mp_elt_size m))"

definition node_link :: "mem_pool \<Rightarrow> nat \<Rightarrow> int res" where
  "node_link m i = read_int (mp_buf m) (int i * int (node_bytes m))"

text \<open>The chain of free nodes from a link value; \<open>-1\<close> ends it.\<close>

fun free_chain :: "mem_pool \<Rightarrow> int \<Rightarrow> nat list \<Rightarrow> bool" where
  "free_chain m v [] = (v = - 1)"
| "free_chain m v (i # is) = (v = int i \<and> (\<exists>w. node_link m i = Inr w \<and> free_chain m w is))"

definition pool_ok :: "mem_pool \<Rightarrow> nat list \<Rightarrow> bool" where
  "pool_ok m fs \<longleftrightarrow>
     mp_offset m = int (node_bytes m) \<and> node_bytes m = mp_elt_size m + 1 \<and> 5 \<le> mp_elt_size m \<and>
     0 < mp_capacity m \<and> mp_capacity m < 2 ^ 31 \<and> length (mp_buf m) < 2 ^ 31 \<and>
     length (mp_buf m) = nat (mp_capacity m) * node_bytes m \<and>
     mp_buf_end m = int (length (mp_buf m)) \<and>
     distinct fs \<and> (\<forall>i \<in> set fs. i < nat (mp_capacity m)) \<and>
     free_chain m (mp_free_node m) fs \<and>
     mp_nalloc m = mp_capacity m - int (length fs) \<and>
     (\<forall>i < nat (mp_capacity m).
        node_flag m i = Inr (if i \<in> set fs then POOL_FREE_FLAG else POOL_ALLOC_FLAG))"

lemma node_disjoint:
  fixes i j d :: nat
  assumes "i \<noteq> j"
  shows "i * d + d \<le> j * d \<or> j * d + d \<le> i * d"
proof (cases "i < j")
  case True
  then have "Suc i * d \<le> j * d" by (intro mult_le_mono1) simp
  then show ?thesis by (simp add: add.commute)
next
  case False
  then have "Suc j * d \<le> i * d" using assms by (intro mult_le_mono1) simp
  then show ?thesis by (simp add: add.commute)
qed

lemma node_inside: "(i :: nat) < c \<Longrightarrow> i * d + d \<le> c * d"
  using mult_le_mono1 [of "Suc i" c d] by (simp add: add.commute)

section \<open>Frame lemmas for node accesses\<close>

lemma mem_write_ok:
  "0 \<le> a \<Longrightarrow> a + int (length bs) \<le> int (length b) \<Longrightarrow>
   \<exists>b'. mem_write b a bs = Inr b' \<and> length b' = length b"
  using blk_write_ok [of "nat a" "map Some bs" b] by (auto simp: mem_write_def)

lemma mem_write_Inr: "mem_write b a bs = Inr b' \<Longrightarrow> 0 \<le> a \<and> length b' = length b"
  by (auto simp: mem_write_def dest: blk_write_length split: if_splits)

lemma mem_read_write_same:
  "mem_write b a bs = Inr b' \<Longrightarrow> length bs = n \<Longrightarrow> mem_read b' a n = Inr bs"
  by (auto simp: mem_write_def mem_read_def blk_read_write_same split: if_splits)

lemma mem_read_write_disjoint:
  assumes "mem_write b a bs = Inr b'" and "a' + int n \<le> a \<or> a + int (length bs) \<le> a'"
  shows "mem_read b' a' n = mem_read b a' n"
proof (cases "a' < 0")
  case False
  have w: "0 \<le> a" "blk_write b (nat a) (map Some bs) = Inr b'"
    using assms(1) by (auto simp: mem_write_def split: if_splits)
  have "blk_read b' (nat a') n = blk_read b (nat a') n"
    using assms(2) w False by (intro blk_read_write_disjoint [OF w(2)]) auto
  then show ?thesis by (simp add: mem_read_def)
qed (simp add: mem_read_def)

text \<open>A write of \<open>bs\<close> at displacement \<open>k\<close> of node \<open>i\<close>.\<close>

definition node_write :: "mem_pool \<Rightarrow> nat \<Rightarrow> nat \<Rightarrow> u8 list \<Rightarrow> block \<Rightarrow> bool" where
  "node_write m i k bs b' \<longleftrightarrow>
     mem_write (mp_buf m) (int i * int (node_bytes m) + int k) bs = Inr b' \<and>
     k + length bs \<le> node_bytes m"

lemma node_write_read:
  assumes w: "node_write m i k bs b'"
    and far: "i \<noteq> j \<and> h + n \<le> node_bytes m \<or> i = j \<and> (h + n \<le> k \<or> k + length bs \<le> h)"
  shows "mem_read b' (int j * int (node_bytes m) + int h) n =
         mem_read (mp_buf m) (int j * int (node_bytes m) + int h) n"
proof -
  let ?d = "node_bytes m"
  have in_node: "k + length bs \<le> ?d" using w by (simp add: node_write_def)
  have "j * ?d + h + n \<le> i * ?d + k \<or> i * ?d + k + length bs \<le> j * ?d + h"
    using far in_node node_disjoint [of i j ?d] by auto
  then have "int (j * ?d + h + n) \<le> int (i * ?d + k) \<or> int (i * ?d + k + length bs) \<le> int (j * ?d + h)"
    by linarith
  then show ?thesis
    using w by (intro mem_read_write_disjoint) (auto simp: node_write_def)
qed

lemma node_write_link:
  assumes "node_write m i k bs b'" and "4 \<le> node_bytes m" and "i \<noteq> j \<or> 4 \<le> k"
  shows "node_link (m\<lparr>mp_buf := b'\<rparr>) j = node_link m j"
proof -
  have "mem_read b' (int j * int (node_bytes m) + int 0) 4 =
        mem_read (mp_buf m) (int j * int (node_bytes m) + int 0) 4"
    using assms by (intro node_write_read) auto
  then show ?thesis by (simp add: node_link_def read_int_def)
qed

lemma node_write_flag:
  assumes "node_write m i k bs b'" and "node_bytes m = mp_elt_size m + 1"
    and "i \<noteq> j \<or> k + length bs \<le> mp_elt_size m"
  shows "node_flag (m\<lparr>mp_buf := b'\<rparr>) j = node_flag m j"
proof -
  have "mem_read b' (int j * int (node_bytes m) + int (mp_elt_size m)) 1 =
        mem_read (mp_buf m) (int j * int (node_bytes m) + int (mp_elt_size m)) 1"
    using assms by (intro node_write_read) auto
  then show ?thesis by (simp add: node_flag_def read_char_def)
qed

lemma node_write_ex:
  assumes "pool_ok m fs" and "i < nat (mp_capacity m)" and "k + length bs \<le> node_bytes m"
  shows "\<exists>b'. node_write m i k bs b' \<and> length b' = length (mp_buf m)"
proof -
  have "i * node_bytes m + (k + length bs) \<le> length (mp_buf m)"
    using assms node_inside [of i "nat (mp_capacity m)" "node_bytes m"] by (simp add: pool_ok_def)
  then have "int (i * node_bytes m + (k + length bs)) \<le> int (length (mp_buf m))"
    by linarith
  then show ?thesis
    using assms(3) mem_write_ok [of "int i * int (node_bytes m) + int k" bs "mp_buf m"]
    by (simp add: node_write_def add.assoc)
qed

lemma free_chain_cong:
  "(\<And>i. i \<in> set fs \<Longrightarrow> node_link m' i = node_link m i) \<Longrightarrow> free_chain m' v fs = free_chain m v fs"
  by (induction fs arbitrary: v) auto

lemma node_link_simps [simp]:
  "node_link (m\<lparr>mp_free_node := v\<rparr>) i = node_link m i"
  "node_link (m\<lparr>mp_nalloc := n\<rparr>) i = node_link m i"
  "node_flag (m\<lparr>mp_free_node := v\<rparr>) i = node_flag m i"
  "node_flag (m\<lparr>mp_nalloc := n\<rparr>) i = node_flag m i"
  by (simp_all add: node_link_def node_flag_def)

lemma free_chain_simps [simp]:
  "free_chain (m\<lparr>mp_free_node := v\<rparr>) w fs = free_chain m w fs"
  "free_chain (m\<lparr>mp_nalloc := n\<rparr>) w fs = free_chain m w fs"
  by (rule free_chain_cong, simp)+

section \<open>Operations keep the pool well-formed\<close>

lemma node_addr_bound:
  assumes "pool_ok m fs" and "i < nat (mp_capacity m)"
  shows "0 \<le> int i * int (node_bytes m)" and "int i * int (node_bytes m) < 2 ^ 31"
proof -
  have "i * node_bytes m + node_bytes m \<le> length (mp_buf m)"
    using assms node_inside [of i "nat (mp_capacity m)" "node_bytes m"] by (simp add: pool_ok_def)
  moreover have "length (mp_buf m) < 2 ^ 31" using assms(1) unfolding pool_ok_def by blast
  ultimately have "i * node_bytes m < 2 ^ 31" by linarith
  then have "int (i * node_bytes m) < int (2 ^ 31)" by (simp only: of_nat_less_iff)
  then show "int i * int (node_bytes m) < 2 ^ 31" by simp
qed simp

lemma node_addr_int:
  assumes "pool_ok m fs" and "i < nat (mp_capacity m)"
  shows "c_int (int i * mp_offset m) = Inr (int i * int (node_bytes m))"
proof -
  have "mp_offset m = int (node_bytes m)" using assms(1) by (simp add: pool_ok_def)
  then show ?thesis using c_int_nonneg [OF node_addr_bound [OF assms]] by simp
qed

lemma node_index_addr:
  assumes "pool_ok m fs" and "i < nat (mp_capacity m)"
  shows "node_index (int i * int (node_bytes m)) (mp_offset m) = Inr (int i)"
proof -
  have off: "mp_offset m = int (node_bytes m)" "0 < node_bytes m" and i: "int i < 2 ^ 31"
    using assms by (auto simp: pool_ok_def)
  have "sint (word_of_int (int i * int (node_bytes m)) :: u32) = int i * int (node_bytes m)"
    using node_addr_bound [OF assms] by (intro sint_int_of) linarith+
  moreover have "(int i * int (node_bytes m)) sdiv int (node_bytes m) = int i"
    using off(2) by (cases "i = 0") (simp_all add: signed_divide_int_def abs_mult sgn_mult)
  ultimately show ?thesis using off i by (simp add: node_index_def c_int_def)
qed

lemma pool_nalloc_nonneg:
  assumes "pool_ok m fs"
  shows "0 \<le> mp_nalloc m" and "mp_nalloc m < 2 ^ 31"
proof -
  have "set fs \<subseteq> {..<nat (mp_capacity m)}" "distinct fs" using assms by (auto simp: pool_ok_def)
  then have "length fs \<le> nat (mp_capacity m)"
    using card_mono [of "{..<nat (mp_capacity m)}" "set fs"] by (simp add: distinct_card)
  then show "0 \<le> mp_nalloc m" and "mp_nalloc m < 2 ^ 31" using assms by (auto simp: pool_ok_def)
qed

lemma pool_alloc_ok:
  assumes ok: "pool_ok m (i # fs)"
  shows "\<exists>m'. pool_alloc sys m = Inr (m', int i * int (node_bytes m)) \<and> pool_ok m' fs \<and>
           node_bytes m' = node_bytes m \<and> mp_capacity m' = mp_capacity m"
proof -
  let ?e = "mp_elt_size m"
  have i: "i < nat (mp_capacity m)" and off: "node_bytes m = ?e + 1" "5 \<le> ?e"
    using ok by (simp_all add: pool_ok_def)
  have flag: "node_flag m i = Inr POOL_FREE_FLAG" using ok i by (simp add: pool_ok_def)
  obtain w where w: "node_link m i = Inr w" "free_chain m w fs" "mp_free_node m = int i"
    using ok by (auto simp: pool_ok_def)
  obtain b where b: "node_write m i ?e [POOL_ALLOC_FLAG] b" "length b = length (mp_buf m)"
    using node_write_ex [OF ok i, of ?e "[POOL_ALLOC_FLAG]"] off by auto
  have wr: "mem_write (mp_buf m) (int i * int (node_bytes m) + int ?e) [POOL_ALLOC_FLAG] = Inr b"
    using b by (simp add: node_write_def)
  let ?m = "m\<lparr>mp_buf := b, mp_free_node := w, mp_nalloc := mp_nalloc m + 1\<rparr>"
  have "pool_alloc sys m = Inr (?m, int i * int (node_bytes m))"
    using ok w flag wr node_addr_int [OF ok i]
    by (simp add: pool_alloc_def pool_ok_def node_link_def node_flag_def)
  moreover have "pool_ok ?m fs"
  proof -
    have "node_link (m\<lparr>mp_buf := b\<rparr>) j = node_link m j" for j
      using node_write_link [OF b(1)] off by simp
    then have "free_chain (m\<lparr>mp_buf := b\<rparr>) w fs" using w(2) free_chain_cong by blast
    moreover have "node_flag (m\<lparr>mp_buf := b\<rparr>) j =
        (if j = i then Inr POOL_ALLOC_FLAG else node_flag m j)" for j
      using node_write_flag [OF b(1) off(1), of j] mem_read_write_same [OF wr]
      by (auto simp: node_flag_def read_char_def)
    ultimately show ?thesis using ok b(2) i
      by (auto simp: pool_ok_def)
  qed
  ultimately show ?thesis by auto
qed

lemma pool_free_ok:
  assumes ok: "pool_ok m fs" and i: "i < nat (mp_capacity m)" "i \<notin> set fs"
  shows "\<exists>m'. pool_free (int i * int (node_bytes m)) m = Inr m' \<and> pool_ok m' (i # fs) \<and>
           node_bytes m' = node_bytes m \<and> mp_capacity m' = mp_capacity m"
proof -
  let ?e = "mp_elt_size m" and ?p = "int i * int (node_bytes m)"
  have off: "node_bytes m = ?e + 1" "5 \<le> ?e" using ok by (simp_all add: pool_ok_def)
  have flag: "node_flag m i = Inr POOL_ALLOC_FLAG" using ok i by (simp add: pool_ok_def)
  have fn: "- 1 \<le> mp_free_node m" "mp_free_node m < 2 ^ 31"
    using ok by (cases fs; auto simp: pool_ok_def)+
  obtain b where b: "node_write m i 0 (le32 (word_of_int (mp_free_node m))) b"
      "length b = length (mp_buf m)"
    using node_write_ex [OF ok i(1), of 0 "le32 (word_of_int (mp_free_node m))"] off by auto
  let ?m1 = "m\<lparr>mp_buf := b\<rparr>"
  have wr1: "write_int (mp_buf m) ?p (mp_free_node m) = Inr b"
    using b by (simp add: node_write_def write_int_def)
  have link1: "node_link ?m1 i = Inr (mp_free_node m)"
    using mem_read_write_same [OF wr1 [unfolded write_int_def]] fn
    by (simp add: node_link_def read_int_def sint_int_of)
  have in1: "i * node_bytes m + node_bytes m \<le> length b"
    using node_inside [OF i(1), of "node_bytes m"] ok b(2) by (simp add: pool_ok_def)
  have "\<exists>b'. mem_write b (?p + int ?e) [POOL_FREE_FLAG] = Inr b' \<and> length b' = length b"
  proof (rule mem_write_ok)
    have "int (i * node_bytes m + node_bytes m) \<le> int (length b)" using in1 by linarith
    then show "?p + int ?e + int (length [POOL_FREE_FLAG]) \<le> int (length b)"
      using off by (simp add: algebra_simps)
  qed simp
  then obtain b' where wr2: "mem_write b (?p + int ?e) [POOL_FREE_FLAG] = Inr b'"
      and lb': "length b' = length b" by blast
  have b2: "node_write ?m1 i ?e [POOL_FREE_FLAG] b'" using wr2 off by (simp add: node_write_def)
  have "int (i * node_bytes m) \<le> int (length b)" using in1 by linarith
  then have range: "?p \<le> mp_buf_end m" using b(2) ok by (simp add: pool_ok_def)
  let ?m = "m\<lparr>mp_buf := b', mp_free_node := int i, mp_nalloc := mp_nalloc m - 1\<rparr>"
  have nonneg: "\<not> ?p < 0" by (simp add: not_less)
  have idx: "node_index ?p (mp_offset m) = Inr (int i)" by (rule node_index_addr [OF ok i(1)])
  have cnt: "c_int (mp_nalloc m - 1) = Inr (mp_nalloc m - 1)"
    using pool_nalloc_nonneg [OF ok] by (intro c_int_ok) linarith+
  have "pool_free ?p m = Inr ?m"
    unfolding pool_free_def using flag wr1 wr2 range nonneg idx cnt
    by (simp only: node_flag_def) simp
  moreover have "pool_ok ?m (i # fs)"
  proof -
    have l: "node_link (m\<lparr>mp_buf := b'\<rparr>) j = node_link ?m1 j" for j
      using node_write_link [OF b2] off by simp
    have lj: "node_link ?m1 j = node_link m j" if "j \<noteq> i" for j
      using node_write_link [OF b(1)] off that by simp
    have "free_chain (m\<lparr>mp_buf := b'\<rparr>) (mp_free_node m) fs = free_chain m (mp_free_node m) fs"
      using i(2) l lj by (intro free_chain_cong) metis
    then have "free_chain (m\<lparr>mp_buf := b'\<rparr>) (int i) (i # fs)"
      using ok l [of i] link1 by (simp add: pool_ok_def)
    moreover have "node_flag (m\<lparr>mp_buf := b'\<rparr>) j =
        (if j = i then Inr POOL_FREE_FLAG else node_flag m j)" for j
      using node_write_flag [OF b2, of j] node_write_flag [OF b(1), of j] off
        mem_read_write_same [OF wr2] by (auto simp: node_flag_def read_char_def)
    ultimately show ?thesis using ok b(2) lb' i by (auto simp: pool_ok_def)
  qed
  ultimately show ?thesis by auto
qed

lemma pool_store_ok:
  assumes ok: "pool_ok m fs" and i: "i < nat (mp_capacity m)" "i \<notin> set fs"
    and k: "k + length bs \<le> mp_elt_size m"
  shows "\<exists>m'. pool_store (int i * int (node_bytes m)) k bs m = Inr m' \<and> pool_ok m' fs"
proof -
  have off: "node_bytes m = mp_elt_size m + 1" "5 \<le> mp_elt_size m"
    using ok by (simp_all add: pool_ok_def)
  obtain b where b: "node_write m i k bs b" "length b = length (mp_buf m)"
    using node_write_ex [OF ok i(1), of k bs] off k by auto
  have "free_chain (m\<lparr>mp_buf := b\<rparr>) (mp_free_node m) fs = free_chain m (mp_free_node m) fs"
  proof (rule free_chain_cong)
    fix j assume "j \<in> set fs"
    then show "node_link (m\<lparr>mp_buf := b\<rparr>) j = node_link m j"
      using i(2) off by (intro node_write_link [OF b(1)]) auto
  qed
  moreover have "node_flag (m\<lparr>mp_buf := b\<rparr>) j = node_flag m j" for j
    using node_write_flag [OF b(1) off(1)] k by simp
  ultimately have "pool_ok (m\<lparr>mp_buf := b\<rparr>) fs" using ok b(2) by (auto simp: pool_ok_def)
  then show ?thesis using b(1) by (simp add: pool_store_def node_write_def)
qed

section \<open>The constructor\<close>

lemma pool_link_ok:
  assumes "4 \<le> off" and "(i + k) * off \<le> length b" and "int (length b) < 2 ^ 31"
  shows "\<exists>b'. pool_link (int off) (int i) k b = Inr b' \<and> length b' = length b \<and>
    (\<forall>j. i \<le> j \<and> j < i + k \<longrightarrow> mem_read b' (int j * int off) 4 = Inr (le32 (word_of_int (int j + 1)))) \<and>
    (\<forall>a n. (\<forall>j. i \<le> j \<and> j < i + k \<longrightarrow> a + int n \<le> int j * int off \<or> int j * int off + 4 \<le> a) \<longrightarrow>
       mem_read b' a n = mem_read b a n)"
  using assms(2,3)
proof (induction k arbitrary: i b)
  case 0
  then show ?case by auto
next
  case (Suc k)
  have "i * off + off \<le> (i + Suc k) * off"
    by (rule node_inside) simp
  then have "i * off + off \<le> length b" using Suc.prems(1) by (rule order_trans)
  then have "i * off + 4 \<le> length b" using assms(1) by linarith
  then have "int (i * off + 4) \<le> int (length b)" by linarith
  then obtain b1 where w: "write_int b (int i * int off) (int i + 1) = Inr b1"
      and len: "length b1 = length b"
    using mem_write_ok [of "int i * int off" "le32 (word_of_int (int i + 1))" b]
    by (auto simp: write_int_def)
  note w' = w [unfolded write_int_def]
  have adr: "c_int (int i * int off) = Inr (int i * int off)"
    using \<open>int (i * off + 4) \<le> int (length b)\<close> Suc.prems(2) by (intro c_int_nonneg) simp_all
  obtain b' where b': "pool_link (int off) (int (Suc i)) k b1 = Inr b'" "length b' = length b1"
    and links: "\<And>j. Suc i \<le> j \<Longrightarrow> j < Suc i + k \<Longrightarrow>
        mem_read b' (int j * int off) 4 = Inr (le32 (word_of_int (int j + 1)))"
    and frame: "\<And>a n. (\<And>j. Suc i \<le> j \<Longrightarrow> j < Suc i + k \<Longrightarrow>
        a + int n \<le> int j * int off \<or> int j * int off + 4 \<le> a) \<Longrightarrow> mem_read b' a n = mem_read b1 a n"
    using Suc.IH [of "Suc i" b1] Suc.prems len by auto
  have sep: "int i * int off + 4 \<le> int j * int off" if "Suc i \<le> j" for j
  proof -
    have "i * off + off \<le> j * off" using node_inside [of i j off] that by simp
    then have "int (i * off + 4) \<le> int (j * off)" using assms(1) by linarith
    then show ?thesis by simp
  qed
  have "mem_read b' (int i * int off) 4 = mem_read b1 (int i * int off) 4"
    using sep by (intro frame) auto
  then have "mem_read b' (int i * int off) 4 = Inr (le32 (word_of_int (int i + 1)))"
    using mem_read_write_same [OF w'] by simp
  then have all: "mem_read b' (int j * int off) 4 = Inr (le32 (word_of_int (int j + 1)))"
    if "i \<le> j" "j < i + Suc k" for j
    using that links [of j] by (cases "j = i") auto
  have "mem_read b' a n = mem_read b a n"
    if "\<And>j. i \<le> j \<and> j < i + Suc k \<longrightarrow> a + int n \<le> int j * int off \<or> int j * int off + 4 \<le> a" for a n
  proof -
    have "mem_read b' a n = mem_read b1 a n" using that by (intro frame) auto
    moreover have "mem_read b1 a n = mem_read b a n"
      using that [of i] by (intro mem_read_write_disjoint [OF w']) auto
    ultimately show ?thesis by simp
  qed
  then show ?case using w adr b' len all by (auto simp: add.commute)
qed

lemma free_chain_upto:
  assumes "\<And>i. i < n \<Longrightarrow> node_link m i = Inr (if Suc i < n then int (Suc i) else - 1)"
  shows "free_chain m (if i < n then int i else - 1) [i..<n]"
proof (induction "n - i" arbitrary: i)
  case 0
  then show ?case by simp
next
  case (Suc k)
  then have "i < n" by simp
  then show ?case using Suc.hyps(1) [of "Suc i"] Suc.hyps(2) assms [of i]
    by (simp add: upt_conv_Cons)
qed

lemma mem_read_replicate:
  "0 \<le> a \<Longrightarrow> a + int n \<le> int k \<Longrightarrow> mem_read (replicate k (Some 0)) a n = Inr (replicate n 0)"
  by (auto simp: mem_read_def blk_read_def min_def cells_bytes_Inr_iff)

lemma pool_new_ok:
  assumes n: "0 < n" and fits: "n * (max 5 e0 + 1) < 2 ^ 31"
  shows "\<exists>m. pool_new (of_nat n) (of_nat e0) = Inr m \<and> pool_ok m [0..<n] \<and>
           mp_capacity m = int n \<and> mp_elt_size m = max 5 e0"
proof -
  define e where "e = max 5 e0"
  define off where "off = e + 1"
  have e: "5 \<le> e" by (simp add: e_def)
  have "off \<le> n * off" "n \<le> n * off" using n mult_le_mono1 [of 1 n off] by (simp_all add: off_def)
  then have le: "off < 2 ^ 31" "n < 2 ^ 31" using fits by (simp_all add: off_def e_def)
  then have ue: "unat (of_nat e :: u32) = e" "unat (of_nat e + 1 :: u32) = off"
    by (simp_all add: off_def unat_of_nat unat_word_ariths)
  have se: "sint (of_nat e + 1 :: u32) = int off" using sint_u32 [of "of_nat e + 1"] ue(2) le(1) by simp
  have sn: "sint (of_nat n :: u32) = int n"
    using le(2) by (simp add: sint_int_of [of "int n", simplified])
  have w: "(of_nat e + 1 :: u32) = of_nat off" by (simp add: off_def)
  have bytes: "unat (of_nat n * (of_nat e + 1) :: u32) = n * off"
    using fits unat_of_nat_u32 [of "n * off"] unfolding w of_nat_mult [symmetric] by (simp add: off_def e_def del: of_nat_mult)
  have nn: "n * off < 2 ^ 31" using fits by (simp add: off_def e_def)
  define b0 where "b0 = replicate (n * off) (Some 0 :: cell)"
  have b0: "(0 + (n - 1)) * off \<le> length b0" "int (length b0) < 2 ^ 31"
    using nn by (simp_all add: b0_def del: of_nat_mult)
  obtain b1 where b1: "pool_link (int off) (int 0) (n - 1) b0 = Inr b1" "length b1 = length b0"
    and links: "\<And>j. j < n - 1 \<Longrightarrow> mem_read b1 (int j * int off) 4 = Inr (le32 (word_of_int (int j + 1)))"
    and frame: "\<And>a k. (\<And>j. j < n - 1 \<Longrightarrow> a + int k \<le> int j * int off \<or> int j * int off + 4 \<le> a) \<Longrightarrow>
       mem_read b1 a k = mem_read b0 a k"
    using pool_link_ok [OF _ b0] e by (auto simp: off_def)
  have "(n - 1) * off + off \<le> n * off" using n by (intro node_inside) simp
  moreover have "length b1 = n * off" "4 \<le> off" using b1(2) e by (simp_all add: b0_def off_def)
  ultimately have "int ((n - 1) * off + 4) \<le> int (length b1)" by linarith
  then obtain b2 where w: "mem_write b1 (int (n - 1) * int off) (le32 (word_of_int (- 1))) = Inr b2"
      and len2: "length b2 = length b1"
    using mem_write_ok [of "int (n - 1) * int off" "le32 (word_of_int (- 1))" b1] by auto
  have sep: "int j * int off + int h + int k \<le> int i * int off \<or> int i * int off + 4 \<le> int j * int off + int h"
    if "4 \<le> h \<and> h + k \<le> off \<or> i \<noteq> j \<and> h + k \<le> off" for i j h k
  proof -
    have "j * off + h + k \<le> i * off \<or> i * off + 4 \<le> j * off + h"
      using node_disjoint [of i j off] that e by (cases "i = j") (auto simp: off_def)
    then have "int (j * off + h + k) \<le> int (i * off) \<or> int (i * off + 4) \<le> int (j * off + h)" by linarith
    then show ?thesis by simp
  qed
  let ?m = "\<lparr>mp_buf = b2, mp_buf_end = int (n * off), mp_free_node = 0, mp_capacity = int n,
      mp_nalloc = 0, mp_elt_size = e, mp_offset = int off\<rparr>"
  have h: "(if (of_nat e0 :: u32) < 5 then 5 else of_nat e0) = (of_nat e :: u32)"
  proof -
    have "e0 < 2 ^ 32" using le(1) by (simp add: off_def e_def)
    then have "unat (of_nat e0 :: u32) = e0" by (simp add: unat_of_nat)
    then show ?thesis by (auto simp: e_def max_def word_less_nat_alt)
  qed
  have cap: "nat (int n - 1) = n - 1" "int (n - 1) = int n - 1" using n by auto
  have "(n - 1) * off \<le> n * off" by (intro mult_le_mono1) simp
  then have "(n - 1) * off < 2 ^ 31" using nn by (rule le_less_trans)
  then have "int ((n - 1) * off) < int (2 ^ 31)" by (simp only: of_nat_less_iff)
  then have adr: "c_int (int (n - 1) * int off) = Inr (int (n - 1) * int off)" by (intro c_int_nonneg) simp_all
  have lst: "c_int (int n - 1) = Inr (int n - 1)" using le(2) by (intro c_int_ok) simp_all
  have new: "pool_new (of_nat n) (of_nat e0) = Inr ?m"
    unfolding pool_new_def Let_def h se bytes sn lst rbind_simps cap(1) ue(1) b0_def [symmetric]
    using b1(1) w adr unfolding write_int_def cap(2) by simp
  have "node_link ?m i = Inr (if Suc i < n then int (Suc i) else - 1)" if "i < n" for i
  proof (cases "Suc i < n")
    case True
    then have "mem_read b2 (int i * int off) 4 = mem_read b1 (int i * int off) 4"
      using sep [of 0 4 "n - 1" i] e by (intro mem_read_write_disjoint [OF w]) (auto simp: off_def)
    moreover have "sint (word_of_int (int i + 1) :: u32) = int i + 1"
      using True le(2) by (intro sint_int_of) auto
    ultimately show ?thesis using links [of i] True
      by (simp add: node_link_def read_int_def add.commute)
  next
    case False
    then have "i = n - 1" using that by simp
    then show ?thesis using mem_read_write_same [OF w] False
      by (simp add: node_link_def read_int_def)
  qed
  then have chain: "free_chain ?m 0 [0..<n]"
    using free_chain_upto [of n ?m 0] n by simp
  have flags: "node_flag ?m i = Inr POOL_FREE_FLAG" if "i < n" for i
  proof -
    have "mem_read b2 (int i * int off + int e) 1 = mem_read b1 (int i * int off + int e) 1"
      using sep [of e 1 "n - 1" i] e by (intro mem_read_write_disjoint [OF w]) (auto simp: off_def)
    also have "\<dots> = mem_read b0 (int i * int off + int e) 1"
      using sep [of e 1 _ i] e by (intro frame) (auto simp: off_def)
    also have "\<dots> = Inr [0]"
    proof -
      have "int (i * off + off) \<le> int (n * off)" using node_inside [OF that, of off] by linarith
      then have "int i * int off + int e + int 1 \<le> int (n * off)"
        using off_def by (simp only: of_nat_add of_nat_mult)
      then show ?thesis using mem_read_replicate [of "int i * int off + int e" 1 "n * off"]
        by (simp add: b0_def)
    qed
    finally show ?thesis by (simp add: node_flag_def read_char_def POOL_FREE_FLAG_def)
  qed
  have "pool_ok ?m [0..<n]"
  proof -
    have "Suc e = off" "length b2 = n * off" using len2 b1(2) by (simp_all add: off_def b0_def)
    then show ?thesis using chain flags n e le(2) nn by (simp add: pool_ok_def del: of_nat_mult)
  qed
  then show ?thesis using new by (auto simp: e_def)
qed

section \<open>The allocator contract\<close>

text \<open>A node allocator as its clients see it: \<open>live\<close> is the set of addresses handed out.
  Allocation returns an address that is not live, freeing makes a live address available again,
  storing into a live node disturbs nothing.\<close>

locale node_allocator =
  fixes ok :: "'m \<Rightarrow> bool"
    and live :: "'m \<Rightarrow> int set"
    and full :: "'m \<Rightarrow> bool"
    and alloc :: "int \<Rightarrow> 'm \<Rightarrow> ('m \<times> int) res"
    and release :: "int \<Rightarrow> 'm \<Rightarrow> 'm res"
    and store :: "int \<Rightarrow> nat \<Rightarrow> u8 list \<Rightarrow> 'm \<Rightarrow> 'm res"
    and node_size :: "'m \<Rightarrow> nat"
  assumes alloc_law: "ok m \<Longrightarrow> \<not> full m \<Longrightarrow>
      \<exists>m' p. alloc sys m = Inr (m', p) \<and> ok m' \<and> p \<notin> live m \<and> live m' = insert p (live m)"
    and release_law: "ok m \<Longrightarrow> p \<in> live m \<Longrightarrow>
      \<exists>m'. release p m = Inr m' \<and> ok m' \<and> live m' = live m - {p} \<and> \<not> full m' \<and>
        (\<exists>m''. alloc sys m' = Inr (m'', p))"
    and store_law: "ok m \<Longrightarrow> p \<in> live m \<Longrightarrow> k + length bs \<le> node_size m \<Longrightarrow>
      \<exists>m'. store p k bs m = Inr m' \<and> ok m' \<and> live m' = live m"
begin

lemma two_allocs_distinct:
  assumes "ok m" and "\<not> full m" and "alloc s m = Inr (m1, p)" and "\<not> full m1"
  shows "\<exists>m2 q. alloc s m1 = Inr (m2, q) \<and> q \<noteq> p \<and> q \<notin> live m \<and> p \<notin> live m"
proof -
  have m1: "ok m1" "p \<notin> live m" "live m1 = insert p (live m)"
    using alloc_law [OF assms(1,2), of s] assms(3) by auto
  then show ?thesis using alloc_law [OF m1(1) assms(4), of s] by auto
qed

end

definition pool_wf :: "mem_pool \<Rightarrow> bool" where
  "pool_wf m \<longleftrightarrow> (\<exists>fs. pool_ok m fs)"

text \<open>The addresses of the nodes whose flag says they are allocated.\<close>

definition pool_live :: "mem_pool \<Rightarrow> int set" where
  "pool_live m = {int i * int (node_bytes m) | i. i < nat (mp_capacity m) \<and>
     node_flag m i = Inr POOL_ALLOC_FLAG}"

definition pool_full :: "mem_pool \<Rightarrow> bool" where
  "pool_full m \<longleftrightarrow> mp_nalloc m \<ge> mp_capacity m"

lemma pool_flags_neq [simp]: "POOL_ALLOC_FLAG \<noteq> POOL_FREE_FLAG" "POOL_FREE_FLAG \<noteq> POOL_ALLOC_FLAG"
  by (simp_all add: POOL_ALLOC_FLAG_def POOL_FREE_FLAG_def)

lemma pool_live_eq:
  assumes "pool_ok m fs"
  shows "pool_live m = (\<lambda>i. int i * int (node_bytes m)) ` ({..<nat (mp_capacity m)} - set fs)"
  using assms by (auto simp: pool_live_def pool_ok_def split: if_splits)

lemma pool_addr_inj: "pool_ok m fs \<Longrightarrow> inj_on (\<lambda>i. int i * int (node_bytes m)) A"
  by (auto simp: pool_ok_def inj_on_def)

lemma pool_full_iff: "pool_ok m fs \<Longrightarrow> pool_full m \<longleftrightarrow> fs = []"
  by (auto simp: pool_full_def pool_ok_def)

interpretation pool: node_allocator pool_wf pool_live pool_full pool_alloc pool_free pool_store mp_elt_size
proof unfold_locales
  fix m sys
  assume wf: "pool_wf m" and nf: "\<not> pool_full m"
  then obtain i fs where ok: "pool_ok m (i # fs)"
    by (auto simp: pool_wf_def dest: pool_full_iff) (metis list.exhaust pool_full_iff)
  then obtain m' where m': "pool_alloc sys m = Inr (m', int i * int (node_bytes m))" "pool_ok m' fs"
      "node_bytes m' = node_bytes m" "mp_capacity m' = mp_capacity m"
    using pool_alloc_ok by blast
  have i: "i < nat (mp_capacity m)" "i \<notin> set fs" using ok by (auto simp: pool_ok_def)
  have "pool_live m' = insert (int i * int (node_bytes m)) (pool_live m)"
    using i m' by (auto simp: pool_live_eq [OF ok] pool_live_eq [OF m'(2)])
  moreover have "int i * int (node_bytes m) \<notin> pool_live m"
    using ok by (auto simp: pool_live_eq [OF ok] pool_ok_def)
  ultimately show "\<exists>m' p. pool_alloc sys m = Inr (m', p) \<and> pool_wf m' \<and> p \<notin> pool_live m \<and>
      pool_live m' = insert p (pool_live m)"
    using m' by (auto simp: pool_wf_def)
next
  fix m p sys
  assume wf: "pool_wf m" and p: "p \<in> pool_live m"
  then obtain fs i where ok: "pool_ok m fs" and i: "i < nat (mp_capacity m)" "i \<notin> set fs"
      and pi: "p = int i * int (node_bytes m)"
    by (auto simp: pool_wf_def pool_live_eq)
  obtain m' where m': "pool_free p m = Inr m'" "pool_ok m' (i # fs)" "node_bytes m' = node_bytes m"
      "mp_capacity m' = mp_capacity m"
    using pool_free_ok [OF ok i] pi by blast
  have "pool_live m' = pool_live m - {p}"
    using pool_addr_inj [OF ok, of UNIV] i m'
    by (auto simp: pool_live_eq [OF ok] pool_live_eq [OF m'(2)] pi dest: injD)
  moreover have "\<not> pool_full m'" using pool_full_iff [OF m'(2)] by simp
  moreover have "\<exists>m''. pool_alloc sys m' = Inr (m'', p)"
    using pool_alloc_ok [OF m'(2), of sys] m'(3) pi by auto
  ultimately show "\<exists>m'. pool_free p m = Inr m' \<and> pool_wf m' \<and> pool_live m' = pool_live m - {p} \<and>
      \<not> pool_full m' \<and> (\<exists>m''. pool_alloc sys m' = Inr (m'', p))"
    using m' by (auto simp: pool_wf_def)
next
  fix m p k and bs :: "u8 list"
  assume wf: "pool_wf m" and p: "p \<in> pool_live m" and k: "k + length bs \<le> mp_elt_size m"
  then obtain fs i where ok: "pool_ok m fs" and i: "i < nat (mp_capacity m)" "i \<notin> set fs"
      and pi: "p = int i * int (node_bytes m)"
    by (auto simp: pool_wf_def pool_live_eq)
  obtain m' where m': "pool_store p k bs m = Inr m'" "pool_ok m' fs"
    using pool_store_ok [OF ok i k] pi by blast
  then have "node_bytes m' = node_bytes m" "mp_capacity m' = mp_capacity m"
    by (auto simp: pool_store_def ax_res)
  then have "pool_live m' = pool_live m"
    by (simp add: pool_live_eq [OF ok] pool_live_eq [OF m'(2)])
  then show "\<exists>m'. pool_store p k bs m = Inr m' \<and> pool_wf m' \<and> pool_live m' = pool_live m"
    using m' by (auto simp: pool_wf_def)
qed

section \<open>A client of the pool\<close>

text \<open>The states a client reaches that frees only nodes it owns and stores only into the
  \<^verbatim>\<open>elt_size_\<close> bytes of its nodes; \<open>S\<close> is the set of pool nodes it owns. A request on a full
  pool is served by the system allocator and changes nothing here.\<close>

inductive pool_reach :: "u32 \<Rightarrow> u32 \<Rightarrow> mem_pool \<Rightarrow> int set \<Rightarrow> bool" for n e where
  reach_new: "pool_new n e = Inr m \<Longrightarrow> pool_reach n e m {}"
| reach_alloc: "pool_reach n e m S \<Longrightarrow> \<not> pool_full m \<Longrightarrow> pool_alloc sys m = Inr (m', p) \<Longrightarrow>
    pool_reach n e m' (insert p S)"
| reach_full: "pool_reach n e m S \<Longrightarrow> pool_full m \<Longrightarrow> pool_alloc sys m = Inr (m', p) \<Longrightarrow>
    pool_reach n e m' S"
| reach_free: "pool_reach n e m S \<Longrightarrow> p \<in> S \<Longrightarrow> pool_free p m = Inr m' \<Longrightarrow>
    pool_reach n e m' (S - {p})"
| reach_store: "pool_reach n e m S \<Longrightarrow> p \<in> S \<Longrightarrow> k + length bs \<le> mp_elt_size m \<Longrightarrow>
    pool_store p k bs m = Inr m' \<Longrightarrow> pool_reach n e m' S"

lemma pool_alloc_full: "pool_full m \<Longrightarrow> pool_alloc sys m = Inr (m, sys)"
  by (simp add: pool_full_def pool_alloc_def)

lemma pool_reach_inv:
  assumes "pool_reach (of_nat n) (of_nat e) m S"
    and "0 < n" and "n * (max 5 e + 1) < 2 ^ 31"
  shows "pool_wf m \<and> pool_live m = S"
  using assms
proof (induction rule: pool_reach.induct)
  case (reach_new m)
  then have ok: "pool_ok m [0..<n]" "mp_capacity m = int n" using pool_new_ok [of n e] by auto
  then have "pool_live m = {}" by (auto simp: pool_live_eq [OF ok(1)])
  then show ?case using ok by (auto simp: pool_wf_def)
next
  case (reach_alloc m S sys m' p)
  then show ?case using pool.alloc_law [of m sys] by auto
next
  case (reach_full m S sys m' p)
  then show ?case by (auto simp: pool_alloc_full)
next
  case (reach_free m S p m')
  then show ?case using pool.release_law [of m p] by auto
next
  case (reach_store m S p k bs m')
  then show ?case using pool.store_law [of m p k bs] by auto
qed

lemma pool_nalloc_card:
  assumes ok: "pool_ok m fs"
  shows "mp_nalloc m = int (card (pool_live m))"
proof -
  have "set fs \<subseteq> {..<nat (mp_capacity m)}" "distinct fs" using ok by (auto simp: pool_ok_def)
  then have "card ({..<nat (mp_capacity m)} - set fs) = nat (mp_capacity m) - length fs"
    by (simp add: card_Diff_subset distinct_card)
  moreover have "length fs \<le> nat (mp_capacity m)"
    using \<open>set fs \<subseteq> _\<close> \<open>distinct fs\<close> card_mono [of "{..<nat (mp_capacity m)}" "set fs"]
    by (simp add: distinct_card)
  moreover have "mp_nalloc m = mp_capacity m - int (length fs)" using ok by (simp add: pool_ok_def)
  moreover have "0 < mp_capacity m" using ok by (simp add: pool_ok_def)
  ultimately show ?thesis
    by (simp add: pool_live_eq [OF ok] card_image [OF pool_addr_inj [OF ok]])
qed

lemma pool_live_disjoint:
  assumes ok: "pool_ok m fs" and "p \<in> pool_live m" and "q \<in> pool_live m" and "p \<noteq> q"
  shows "p + int (mp_elt_size m) < q \<or> q + int (mp_elt_size m) < p"
proof -
  obtain i j where ij: "p = int i * int (node_bytes m)" "q = int j * int (node_bytes m)"
    using assms(2,3) by (auto simp: pool_live_eq [OF ok])
  then have "i \<noteq> j" using assms(4) by auto
  then have "i * node_bytes m + node_bytes m \<le> j * node_bytes m \<or>
      j * node_bytes m + node_bytes m \<le> i * node_bytes m" by (rule node_disjoint)
  then have "int (i * node_bytes m + node_bytes m) \<le> int (j * node_bytes m) \<or>
      int (j * node_bytes m + node_bytes m) \<le> int (i * node_bytes m)" by linarith
  moreover have "node_bytes m = mp_elt_size m + 1" using ok by (simp add: pool_ok_def)
  ultimately show ?thesis unfolding ij of_nat_add of_nat_mult by linarith
qed

text \<open>C5: A client of a memory pool of less than \<open>2 ^ 31\<close> bytes (nodes hold five data bytes at least, and
  one more for the flag) that frees only what it owns and stays inside the data bytes of its nodes owns exactly the nodes flagged as allocated, their number is \<^verbatim>\<open>size()\<close>, distinct
  nodes do not overlap, every free of an owned node succeeds (no boundary assertion fires), and as
  long as the pool is not full an allocation succeeds with a node the client does not own yet.\<close>

theorem pool_client_safe:
  assumes "pool_reach (of_nat n) (of_nat e) m S"
    and "0 < n" and "n * (max 5 e + 1) < 2 ^ 31"
  shows "S = pool_live m \<and> mp_nalloc m = int (card S) \<and>
    (\<forall>p q. p \<in> S \<and> q \<in> S \<and> p \<noteq> q \<longrightarrow>
       p + int (mp_elt_size m) < q \<or> q + int (mp_elt_size m) < p) \<and>
    (\<forall>p \<in> S. \<exists>m'. pool_free p m = Inr m' \<and> (\<exists>m''. pool_alloc sys m' = Inr (m'', p))) \<and>
    (int (card S) < mp_capacity m \<longrightarrow> (\<exists>m' p. pool_alloc sys m = Inr (m', p) \<and> p \<notin> S))"
proof -
  have inv: "pool_wf m" "pool_live m = S" using pool_reach_inv [OF assms] by auto
  then obtain fs where ok: "pool_ok m fs" by (auto simp: pool_wf_def)
  have na: "mp_nalloc m = int (card S)" using pool_nalloc_card [OF ok] inv by simp
  moreover have "\<exists>m'. pool_free p m = Inr m' \<and> (\<exists>m''. pool_alloc sys m' = Inr (m'', p))" if "p \<in> S" for p
    using pool.release_law [of m p sys] inv that by auto
  moreover have "\<exists>m' p. pool_alloc sys m = Inr (m', p) \<and> p \<notin> S" if "int (card S) < mp_capacity m"
    using pool.alloc_law [of m sys] inv na that by (auto simp: pool_full_def)
  ultimately show ?thesis using inv pool_live_disjoint [OF ok] by auto
qed

text \<open>Three nodes of eight bytes: two are allocated and the first is freed again.\<close>

lemma pool_example_reach: "\<exists>m. pool_reach 3 8 m {9} \<and> mp_capacity m = 3"
proof -
  obtain m0 where m0: "pool_new 3 8 = Inr m0" "pool_ok m0 [0, 1, 2]" "mp_capacity m0 = 3" "mp_elt_size m0 = 8"
    proof -
    have "[0..<3] = [0, 1, 2 :: nat]" by (simp add: upt_rec numeral_2_eq_2)
    then show thesis using pool_new_ok [of 3 8] that by (auto simp del: upt_rec_numeral)
  qed
  have nb: "node_bytes m0 = 9" using m0(2,4) by (simp add: pool_ok_def)
  obtain m1 where m1: "pool_alloc 0 m0 = Inr (m1, 0)" "pool_ok m1 [1, 2]" "node_bytes m1 = 9" "mp_capacity m1 = 3"
    using pool_alloc_ok [OF m0(2), of 0] nb m0(3) by auto
  obtain m2 where m2: "pool_alloc 0 m1 = Inr (m2, 9)" "pool_ok m2 [2]" "node_bytes m2 = 9" "mp_capacity m2 = 3"
    using pool_alloc_ok [OF m1(2), of 0] m1(3,4) by auto
  obtain m3 where m3: "pool_free 0 m2 = Inr m3" "mp_capacity m3 = 3"
    using pool_free_ok [OF m2(2), of 0] m2(3,4) by auto
  have r1: "pool_reach 3 8 m1 {0}"
    using pool_reach.reach_alloc [OF pool_reach.reach_new [OF m0(1)] _ m1(1)] m0(2) by (simp add: pool_full_iff)
  have r2: "pool_reach 3 8 m2 {9, 0}"
    using pool_reach.reach_alloc [OF r1 _ m2(1)] m1(2) by (simp add: pool_full_iff)
  have "pool_reach 3 8 m3 ({9, 0} - {0})" by (rule pool_reach.reach_free [OF r2 _ m3(1)]) simp
  moreover have "{9, 0} - {0 :: int} = {9}" by auto
  ultimately have "pool_reach 3 8 m3 {9}" by (simp only:)
  then show ?thesis using m3(2) by blast
qed

theorem pool_client_safe_witness:
  "\<exists>m. pool_reach 3 8 m {9} \<and> pool_live m = {9} \<and> mp_nalloc m = 1 \<and> (\<exists>m'. pool_free 9 m = Inr m') \<and>
     (\<exists>m' p. pool_alloc 0 m = Inr (m', p) \<and> p \<noteq> 9)"
proof -
  obtain m where m: "pool_reach 3 8 m {9}" "mp_capacity m = 3" using pool_example_reach by auto
  then have "pool_reach (of_nat 3) (of_nat 8) m {9}" by simp
  from pool_client_safe [OF this, of 0] m show ?thesis by auto
qed

lemma pool_node_flag_free:
  assumes ok: "pool_ok m fs" and i: "i < nat (mp_capacity m)" "int i * int (node_bytes m) \<notin> pool_live m"
  shows "node_flag m i = Inr POOL_FREE_FLAG"
  using i ok by (auto simp: pool_live_eq [OF ok] pool_ok_def image_iff)

text \<open>The flag byte catches a double free: freeing a node of the pool that is not allocated
  fails the assertion of \<^verbatim>\<open>free\<close>. The bounds test of \<^verbatim>\<open>free\<close> is off by one: the address just behind
  the pool (\<^verbatim>\<open>buf_end_\<close>), where a block of the system allocator may start, is taken for a node
  and the flag is read outside the pool.\<close>

lemma pool_double_free:
  assumes "pool_wf m"
  shows "(i < nat (mp_capacity m) \<and> int i * int (node_bytes m) \<notin> pool_live m \<longrightarrow>
            pool_free (int i * int (node_bytes m)) m = Inl Assert_fail) \<and>
         pool_free (mp_buf_end m) m = Inl Mem_error \<and>
         pool_free (mp_buf_end m + 1) m = Inr m"
proof -
  obtain fs where ok: "pool_ok m fs" using assms by (auto simp: pool_wf_def)
  have "pool_free (int i * int (node_bytes m)) m = Inl Assert_fail"
    if i: "i < nat (mp_capacity m)" "int i * int (node_bytes m) \<notin> pool_live m"
  proof -
    have "i * node_bytes m \<le> nat (mp_capacity m) * node_bytes m"
      using i(1) by (intro mult_le_mono1) simp
    then have "int (i * node_bytes m) \<le> mp_buf_end m"
      using ok by (simp only: pool_ok_def)
    then have "\<not> mp_buf_end m < int i * int (node_bytes m)" by simp
    moreover have "\<not> int i * int (node_bytes m) < 0" by (simp add: not_less)
    ultimately show ?thesis
      using pool_node_flag_free [OF ok i] by (simp add: pool_free_def node_flag_def)
  qed
  moreover have "pool_free (mp_buf_end m) m = Inl Mem_error"
  proof -
    have "mp_buf_end m = int (length (mp_buf m))" using ok by (simp add: pool_ok_def)
    then show ?thesis
      by (simp add: pool_free_def read_char_def mem_read_def blk_read_def nat_add_distrib)
  qed
  moreover have "pool_free (mp_buf_end m + 1) m = Inr m" by (simp add: pool_free_def)
  ultimately show ?thesis by blast
qed

text \<open>A pool between \<open>2 ^ 31\<close> and \<open>2 ^ 32\<close> bytes passes the unsigned computation of its size, but the
  products with \<^verbatim>\<open>offset_\<close> that link its nodes overflow: three nodes of one gigabyte.\<close>

lemma pool_link_overflow: "pool_new 3 0x40000000 = Inl Arith_overflow"
proof -
  define b :: block where "b = replicate 3221225475 (Some 0)"
  have len: "int (length b) = 3221225475" by (simp add: b_def)
  obtain b1 where b1: "write_int b 0 1 = Inr b1" "length b1 = length b"
    using mem_write_ok [of 0 "le32 (word_of_int 1)" b] len by (auto simp: write_int_def)
  obtain b2 where b2: "write_int b1 1073741825 2 = Inr b2"
    using mem_write_ok [of 1073741825 "le32 (word_of_int 2)" b1] len b1(2) by (auto simp: write_int_def)
  have "pool_link 1073741825 0 2 b = Inr b2" using b1(1) b2 by (simp add: numeral_2_eq_2 c_int_def)
  then show ?thesis by (simp add: pool_new_def c_int_def b_def)
qed

end
