(* ===== verification/Dll.thy ===== *)
theory Dll
  imports Main
begin

text \<open>
  Doubly linked lists as the sources build them, in \<^verbatim>\<open>ax_hashmap.h\<close> (bucket lists and the global
  list), \<^verbatim>\<open>ax_timer.cc\<close> (timer slots) and \<^verbatim>\<open>connect.cc\<close> (connections in use): a head pointer,
  a next and a previous pointer per node, no sentinel. The theory has the list predicate and the
  effect of the two pointer surgeries, insertion at the head and removal of any node.
\<close>

type_synonym links = "nat \<Rightarrow> nat option"

section \<open>Segments\<close>

text \<open>\<open>seg nx pv p h xs q\<close>: from the pointer \<open>h\<close> the next pointers run through \<open>xs\<close> and leave at \<open>q\<close>;
  the previous pointers run back and leave at \<open>p\<close>.\<close>

fun seg :: "links \<Rightarrow> links \<Rightarrow> nat option \<Rightarrow> nat option \<Rightarrow> nat list \<Rightarrow> nat option \<Rightarrow> bool" where
  "seg nx pv p h [] q = (h = q)"
| "seg nx pv p h (x # xs) q = (h = Some x \<and> pv x = p \<and> seg nx pv (Some x) (nx x) xs q)"

definition lastp :: "nat option \<Rightarrow> nat list \<Rightarrow> nat option" where
  "lastp p xs = (if xs = [] then p else Some (last xs))"

lemma lastp_simps [simp]: "lastp p [] = p" "lastp p (x # xs) = lastp (Some x) xs"
  by (auto simp: lastp_def)

lemma seg_append:
  "seg nx pv p h (xs @ ys) q \<longleftrightarrow> (\<exists>m. seg nx pv p h xs m \<and> seg nx pv (lastp p xs) m ys q)"
  by (induction xs arbitrary: p h) auto

lemma seg_cong:
  "(\<And>x. x \<in> set xs \<Longrightarrow> nx' x = nx x) \<Longrightarrow> (\<And>x. x \<in> set xs \<Longrightarrow> pv' x = pv x) \<Longrightarrow>
   seg nx' pv' p h xs q = seg nx pv p h xs q"
  by (induction xs arbitrary: p h) auto

lemma seg_frame [simp]:
  "x \<notin> set xs \<Longrightarrow> seg (nx(x := v)) pv p h xs q = seg nx pv p h xs q"
  "x \<notin> set xs \<Longrightarrow> seg nx (pv(x := v)) p h xs q = seg nx pv p h xs q"
  by (rule seg_cong; auto)+

section \<open>Lists\<close>

text \<open>Updates through a pointer that may be null.\<close>

definition upd_opt :: "nat option \<Rightarrow> 'b \<Rightarrow> (nat \<Rightarrow> 'b) \<Rightarrow> (nat \<Rightarrow> 'b)" where
  "upd_opt p v l = (case p of None \<Rightarrow> l | Some a \<Rightarrow> l(a := v))"

lemma upd_opt_simps [simp]:
  "upd_opt None v l = l"
  "upd_opt (Some a) v l = l(a := v)"
  by (simp_all add: upd_opt_def)

text \<open>The new exit of a segment, and its new entry.\<close>

lemma seg_new_exit:
  assumes "seg nx pv p h xs q" and "distinct xs" and "xs \<noteq> []"
  shows "seg (nx(last xs := q')) pv p h xs q'"
  using assms
proof (induction xs arbitrary: p h)
  case (Cons x xs)
  then show ?case by (cases xs) auto
qed simp

lemma seg_new_entry:
  assumes "seg nx pv p (Some y) (y # ys) q" and "distinct (y # ys)"
  shows "seg nx (pv(y := p')) p' (Some y) (y # ys) q"
  using assms by auto

definition dll :: "links \<Rightarrow> links \<Rightarrow> nat option \<Rightarrow> nat list \<Rightarrow> bool" where
  "dll nx pv h xs \<longleftrightarrow> seg nx pv None h xs None"

lemma dll_simps [simp]:
  "dll nx pv h [] \<longleftrightarrow> h = None"
  "x \<notin> set xs \<Longrightarrow> dll (nx(x := v)) pv h xs = dll nx pv h xs"
  "x \<notin> set xs \<Longrightarrow> dll nx (pv(x := v)) h xs = dll nx pv h xs"
  by (auto simp: dll_def)

lemma dll_cong:
  "(\<And>x. x \<in> set xs \<Longrightarrow> nx' x = nx x) \<Longrightarrow> (\<And>x. x \<in> set xs \<Longrightarrow> pv' x = pv x) \<Longrightarrow>
   dll nx' pv' h xs = dll nx pv h xs"
  unfolding dll_def by (rule seg_cong)

lemma dll_head: "dll nx pv h (x # xs) \<Longrightarrow> h = Some x"
  by (simp add: dll_def)

text \<open>The neighbours of a node.\<close>

lemma dll_neighbours:
  assumes "dll nx pv h (xs @ x # ys)"
  shows "pv x = lastp None xs" and "nx x = (case ys of [] \<Rightarrow> None | y # _ \<Rightarrow> Some y)"
    and "h = (case xs of [] \<Rightarrow> Some x | a # _ \<Rightarrow> Some a)"
  using assms by (cases ys; cases xs; auto simp: dll_def seg_append)+

text \<open>Insertion at the head.\<close>

lemma dll_push:
  assumes "dll nx pv h xs" and "x \<notin> set xs" and "distinct xs"
  shows "dll (nx(x := h)) ((upd_opt h (Some x) pv)(x := None)) (Some x) (x # xs)"
  using assms by (cases xs) (auto simp: dll_def)

text \<open>Removal of any node.\<close>

lemma dll_remove:
  assumes l: "dll nx pv h (xs @ x # ys)" and d: "distinct (xs @ x # ys)"
  shows "dll (upd_opt (pv x) (nx x) nx) (upd_opt (nx x) (pv x) pv)
           (if h = Some x then nx x else h) (xs @ ys)"
proof -
  note nb = dll_neighbours [OF l]
  have front: "seg nx pv None h xs (Some x)"
    and rear: "seg nx pv (Some x) (nx x) ys None"
    using l by (auto simp: dll_def seg_append)
  let ?nx = "upd_opt (pv x) (nx x) nx" and ?pv = "upd_opt (nx x) (pv x) pv"
  have "seg ?nx ?pv (lastp None xs) (nx x) ys None"
  proof (cases ys)
    case (Cons y ys')
    have "seg nx (pv(y := pv x)) (pv x) (Some y) (y # ys') None"
      using rear d nb(2) Cons by (intro seg_new_entry [where p = "Some x"]) auto
    then show ?thesis
      using nb d Cons by (cases xs rule: rev_cases) (auto simp: lastp_def)
  qed (use nb in auto)
  moreover have "seg ?nx ?pv None (if h = Some x then nx x else h) xs (nx x)"
  proof (cases "xs = []")
    case False
    have "h \<noteq> Some x" using nb(3) d False by (cases xs) auto
    have "seg (nx(last xs := nx x)) pv None h xs (nx x)"
      using seg_new_exit [OF front] d False by simp
    then show ?thesis
      using nb d False \<open>h \<noteq> Some x\<close> by (cases ys) (auto simp: lastp_def)
  qed (use front in auto)
  ultimately show ?thesis unfolding dll_def seg_append by blast
qed

lemma dll_remove1:
  assumes "dll nx pv h xs" and "distinct xs" and "x \<in> set xs"
  shows "dll ((upd_opt (pv x) (nx x) nx)(x := v)) ((upd_opt (nx x) (pv x) pv)(x := w))
           (if h = Some x then nx x else h) (remove1 x xs)"
proof -
  obtain ys zs where xs: "xs = ys @ x # zs" "x \<notin> set ys" "x \<notin> set zs"
    using assms(2,3) by (metis distinct.simps(2) distinct_append not_distinct_conv_prefix split_list_first)
  then have "remove1 x xs = ys @ zs" by (simp add: remove1_append)
  then show ?thesis using dll_remove [of nx pv h ys x zs] assms xs by simp
qed

lemma dll_closed:
  assumes "dll nx pv h xs" and "x \<in> set xs"
  shows "nx x = Some y \<Longrightarrow> y \<in> set xs" and "pv x = Some y \<Longrightarrow> y \<in> set xs"
proof -
  obtain ys zs where xs: "xs = ys @ x # zs" using assms(2) by (meson split_list)
  note nb = dll_neighbours [OF assms(1) [unfolded xs]]
  show "y \<in> set xs" if "nx x = Some y" using that nb(2) xs by (auto split: list.splits)
  show "y \<in> set xs" if "pv x = Some y" using that nb(1) xs by (auto simp: lastp_def split: if_splits)
qed

lemma dll_in_head: "dll nx pv h xs \<Longrightarrow> h = Some x \<Longrightarrow> x \<in> set xs"
  by (cases xs) (auto simp: dll_def)

text \<open>The list a head pointer leads to is determined by the links.\<close>

lemma seg_unique:
  "seg nx pv p h xs None \<Longrightarrow> seg nx pv p' h ys None \<Longrightarrow> xs = ys"
proof (induction xs arbitrary: p p' h ys)
  case Nil
  then show ?case by (cases ys) auto
next
  case (Cons x xs)
  then show ?case by (cases ys) auto
qed

lemma dll_unique: "dll nx pv h xs \<Longrightarrow> dll nx pv h ys \<Longrightarrow> xs = ys"
  unfolding dll_def by (rule seg_unique)

text \<open>The nodes a walk along the next pointers visits, at most \<open>n\<close>.\<close>

fun walk :: "links \<Rightarrow> nat \<Rightarrow> nat option \<Rightarrow> nat list" where
  "walk nx n None = []"
| "walk nx 0 (Some a) = []"
| "walk nx (Suc n) (Some a) = a # walk nx n (nx a)"

lemma seg_walk: "seg nx pv p h xs None \<Longrightarrow> length xs \<le> n \<Longrightarrow> walk nx n h = xs"
proof (induction xs arbitrary: p h n)
  case (Cons x xs)
  then show ?case by (cases n) auto
qed simp

lemma dll_walk: "dll nx pv h xs \<Longrightarrow> length xs \<le> n \<Longrightarrow> walk nx n h = xs"
  unfolding dll_def by (rule seg_walk)

lemma distinct_bounded_length:
  "distinct xs \<Longrightarrow> (\<And>x. x \<in> set xs \<Longrightarrow> x < n) \<Longrightarrow> length xs \<le> n"
  using card_mono [of "{..<n}" "set xs"] by (auto simp: distinct_card)

section \<open>Singly linked lists\<close>

fun chain :: "links \<Rightarrow> nat option \<Rightarrow> nat list \<Rightarrow> bool" where
  "chain nx h [] = (h = None)"
| "chain nx h (x # xs) = (h = Some x \<and> chain nx (nx x) xs)"

lemma chain_cong: "(\<And>x. x \<in> set xs \<Longrightarrow> nx' x = nx x) \<Longrightarrow> chain nx' h xs = chain nx h xs"
  by (induction xs arbitrary: h) auto

lemma chain_frame [simp]: "x \<notin> set xs \<Longrightarrow> chain (nx(x := v)) h xs = chain nx h xs"
  by (rule chain_cong) auto

lemma chain_drop:
  "chain nx h (xs @ x # ys) \<Longrightarrow> distinct (xs @ x # ys) \<Longrightarrow>
   chain (if xs = [] then nx else nx(last xs := nx x)) (if xs = [] then nx x else h) (xs @ ys)"
proof (induction xs arbitrary: h)
  case (Cons a xs)
  show ?case
  proof (cases xs)
    case Nil
    then have "chain (nx(a := nx x)) (nx x) ys" using Cons.prems by simp
    then show ?thesis using Cons.prems Nil by (simp add: fun_upd_def)
  next
    case (Cons b bs)
    then show ?thesis using Cons.IH Cons.prems by auto
  qed
qed simp

end
