(* ===== verification/Node_Heap.thy ===== *)
theory Node_Heap
  imports Ax_Prelude Dll
begin

text \<open>
  A heap of nodes of one class, for the linked structures of the sources. An address is an index;
  \<^verbatim>\<open>new\<close> appends a node, \<^verbatim>\<open>delete\<close> leaves a hole, so that every access through a dangling pointer
  is the error \<^const>\<open>Mem_error\<close>. A loop that follows one pointer field visits at most as many nodes
  as the heap has addresses; a longer walk is in a cycle, and that is the fuel of the loops.
\<close>

type_synonym 'n heap = "'n option list"

definition hget :: "'n heap \<Rightarrow> nat \<Rightarrow> 'n res" where
  "hget hp a = (if a < length hp then deref (hp ! a) else Inl Mem_error)"

definition hupd :: "nat \<Rightarrow> ('n \<Rightarrow> 'n) \<Rightarrow> 'n heap \<Rightarrow> 'n heap res" where
  "hupd a f hp = rbind (hget hp a) (\<lambda>e. Inr (hp[a := Some (f e)]))"

text \<open>\<^verbatim>\<open>if (p != NULL) p->field = v\<close>\<close>

definition hupd_opt :: "nat option \<Rightarrow> ('n \<Rightarrow> 'n) \<Rightarrow> 'n heap \<Rightarrow> 'n heap res" where
  "hupd_opt p f hp = (case p of None \<Rightarrow> Inr hp | Some a \<Rightarrow> hupd a f hp)"

definition hnew :: "'n \<Rightarrow> 'n heap \<Rightarrow> 'n heap \<times> nat" where
  "hnew e hp = (hp @ [Some e], length hp)"

definition hdel :: "nat \<Rightarrow> 'n heap \<Rightarrow> 'n heap res" where
  "hdel a hp = rbind (hget hp a) (\<lambda>_. Inr (hp[a := None]))"

text \<open>The addresses of live nodes, and a pointer field as a function of the address.\<close>

definition alive :: "'n heap \<Rightarrow> nat set" where
  "alive hp = {a. a < length hp \<and> hp ! a \<noteq> None}"

definition fld :: "('n \<Rightarrow> 'b option) \<Rightarrow> 'n heap \<Rightarrow> nat \<Rightarrow> 'b option" where
  "fld f hp a = (if a \<in> alive hp then f (the (hp ! a)) else None)"

lemma alive_iff: "a \<in> alive hp \<longleftrightarrow> a < length hp \<and> (\<exists>e. hp ! a = Some e)"
  by (auto simp: alive_def)

lemma alive_less: "a \<in> alive hp \<Longrightarrow> a < length hp"
  by (simp add: alive_def)

lemma hget_Inr_iff [ax_res]: "hget hp a = Inr e \<longleftrightarrow> a < length hp \<and> hp ! a = Some e"
  by (auto simp: hget_def deref_def split: option.splits)

lemma hget_alive: "a \<in> alive hp \<Longrightarrow> hget hp a = Inr (the (hp ! a))"
  by (auto simp: alive_def hget_def deref_def)

lemma hget_alive_ex: "hget hp a = Inr e \<Longrightarrow> a \<in> alive hp"
  by (auto simp: alive_def ax_res)

lemma hget_dead: "a \<notin> alive hp \<Longrightarrow> hget hp a = Inl Mem_error"
  by (auto simp: alive_def hget_def deref_def)

lemma hupd_alive: "a \<in> alive hp \<Longrightarrow> hupd a f hp = Inr (hp[a := Some (f (the (hp ! a)))])"
  by (simp add: hupd_def hget_alive)

lemma alive_update [simp]: "a \<in> alive hp \<Longrightarrow> alive (hp[a := Some e]) = alive hp"
  by (auto simp: alive_def nth_list_update)

lemma alive_delete: "alive (hp[a := None]) = alive hp - {a}"
  by (cases "a < length hp") (auto simp: alive_def nth_list_update split: if_splits)

lemma alive_append: "alive (hp @ [Some e]) = insert (length hp) (alive hp)"
  by (auto simp: alive_def nth_append split: if_splits)

lemma fresh_not_alive [simp]: "length hp \<notin> alive hp"
  by (simp add: alive_def)

lemma fld_update [simp]: "a \<in> alive hp \<Longrightarrow> fld f (hp[a := Some e]) = (fld f hp)(a := f e)"
  by (rule ext) (auto simp: fld_def alive_less)

lemma fld_append: "fld f (hp @ [Some e]) = (fld f hp)(length hp := f e)"
  by (rule ext) (auto simp: fld_def alive_append nth_append alive_def)

lemma fld_delete: "b \<noteq> a \<Longrightarrow> fld f (hp[a := None]) b = fld f hp b"
  by (auto simp: fld_def alive_delete)

lemma fld_alive: "a \<in> alive hp \<Longrightarrow> f (the (hp ! a)) = fld f hp a"
  by (simp add: fld_def)

text \<open>A conditional update, seen through a field that it sets and one that it leaves alone.\<close>

definition ptr_ok :: "nat option \<Rightarrow> 'n heap \<Rightarrow> bool" where
  "ptr_ok p hp \<longleftrightarrow> (case p of None \<Rightarrow> True | Some a \<Rightarrow> a \<in> alive hp)"

lemma ptr_ok_simps [simp]: "ptr_ok None hp" "ptr_ok (Some a) hp \<longleftrightarrow> a \<in> alive hp"
  by (simp_all add: ptr_ok_def)

definition hset :: "nat option \<Rightarrow> ('n \<Rightarrow> 'n) \<Rightarrow> 'n heap \<Rightarrow> 'n heap" where
  "hset p u hp = (case p of None \<Rightarrow> hp | Some a \<Rightarrow> hp[a := Some (u (the (hp ! a)))])"

lemma hset_None [simp]: "hset None u hp = hp"
  by (simp add: hset_def)

lemma hupd_opt_ok [simp]: "ptr_ok p hp \<Longrightarrow> hupd_opt p u hp = Inr (hset p u hp)"
  by (cases p) (simp_all add: hupd_opt_def hset_def hupd_alive)

lemma hupd_ok: "a \<in> alive hp \<Longrightarrow> hupd a u hp = Inr (hset (Some a) u hp)"
  by (simp add: hset_def hupd_alive)

lemma alive_hset [simp]: "ptr_ok p hp \<Longrightarrow> alive (hset p u hp) = alive hp"
  by (cases p) (simp_all add: hset_def)

lemma ptr_ok_hset [simp]: "ptr_ok p hp \<Longrightarrow> ptr_ok q (hset p u hp) = ptr_ok q hp"
  by (cases q) simp_all

lemma length_hset [simp]: "length (hset p u hp) = length hp"
  by (cases p) (simp_all add: hset_def)

lemma fld_hset_new:
  "ptr_ok p hp \<Longrightarrow> (\<And>e. f (u e) = v) \<Longrightarrow> fld f (hset p u hp) = upd_opt p v (fld f hp)"
  by (cases p) (simp_all add: hset_def)

lemma fld_hset_same:
  "ptr_ok p hp \<Longrightarrow> (\<And>e. f (u e) = f e) \<Longrightarrow> fld f (hset p u hp) = fld f hp"
  by (cases p) (auto simp: hset_def fld_alive)

lemmas fld_hset = fld_hset_new fld_hset_same

lemma ptr_ok_cong: "alive hp' = alive hp \<Longrightarrow> ptr_ok p hp' = ptr_ok p hp"
  by (cases p) simp_all

lemma fld_Some_alive: "fld f hp a = Some b \<Longrightarrow> a \<in> alive hp"
  by (simp add: fld_def split: if_splits)

end
