(* ===== verification/Kv_Spec.thy ===== *)
theory Kv_Spec
  imports Ax_Prelude
begin

text \<open>
  What the hash table promises its clients (the timer, the RPC tables): a list of key/value pairs,
  newest first. A value may be the null pointer, which a lookup cannot tell from an absent key.
\<close>

section \<open>The specification\<close>

type_synonym ('k, 'v) items = "('k \<times> 'v option) list"

definition lookup_val :: "('k, 'v) items \<Rightarrow> 'k \<Rightarrow> 'v option" where
  "lookup_val l k = (case map_of l k of None \<Rightarrow> None | Some d \<Rightarrow> d)"

definition drop_key :: "'k \<Rightarrow> ('k, 'v) items \<Rightarrow> ('k, 'v) items" where
  "drop_key k l = filter (\<lambda>p. fst p \<noteq> k) l"

lemma lookup_val_simps [simp]:
  "lookup_val [] k = None"
  "lookup_val ((k', v) # l) k = (if k = k' then v else lookup_val l k)"
  by (simp_all add: lookup_val_def)

lemma lookup_drop_key: "lookup_val (drop_key k l) k' = (if k' = k then None else lookup_val l k')"
  by (induction l) (auto simp: drop_key_def)

lemma keys_drop_key: "fst ` set (drop_key k l) = fst ` set l - {k}"
  by (auto simp: drop_key_def)

datatype ('k, 'v) kv_op = Put 'k "'v option" | Take 'k | Get 'k

text \<open>A run on the specification collects the answers of the lookups and removals; \<open>None\<close> marks a
  second insertion of a present key, which the table does not support.\<close>

fun spec_run :: "('k, 'v) items \<Rightarrow> ('k, 'v) kv_op list \<Rightarrow> (('k, 'v) items \<times> 'v option list) option" where
  "spec_run l [] = Some (l, [])"
| "spec_run l (Put k v # ops) = (if k \<in> fst ` set l then None else spec_run ((k, v) # l) ops)"
| "spec_run l (Take k # ops) =
     map_option (\<lambda>(l', outs). (l', lookup_val l k # outs)) (spec_run (drop_key k l) ops)"
| "spec_run l (Get k # ops) = map_option (\<lambda>(l', outs). (l', lookup_val l k # outs)) (spec_run l ops)"

text \<open>The same program on an implementation, given by its three operations.\<close>

fun kv_run :: "('k \<Rightarrow> 'v option \<Rightarrow> 's \<Rightarrow> 's res) \<Rightarrow> ('k \<Rightarrow> 's \<Rightarrow> 'v option res) \<Rightarrow>
    ('k \<Rightarrow> 's \<Rightarrow> ('s \<times> 'v option) res) \<Rightarrow> 's \<Rightarrow> ('k, 'v) kv_op list \<Rightarrow> ('s \<times> 'v option list) res" where
  "kv_run pu ge ta s [] = Inr (s, [])"
| "kv_run pu ge ta s (Put k v # ops) = rbind (pu k v s) (\<lambda>s'. kv_run pu ge ta s' ops)"
| "kv_run pu ge ta s (Take k # ops) =
     rbind (ta k s) (\<lambda>(s', x). rbind (kv_run pu ge ta s' ops) (\<lambda>(s'', outs). Inr (s'', x # outs)))"
| "kv_run pu ge ta s (Get k # ops) =
     rbind (ge k s) (\<lambda>x. rbind (kv_run pu ge ta s ops) (\<lambda>(s'', outs). Inr (s'', x # outs)))"

section \<open>The interface\<close>

locale kv_store =
  fixes ok :: "'s \<Rightarrow> bool"
    and items :: "'s \<Rightarrow> ('k, 'v) items"
    and put :: "'k \<Rightarrow> 'v option \<Rightarrow> 's \<Rightarrow> 's res"
    and get :: "'k \<Rightarrow> 's \<Rightarrow> 'v option res"
    and take_out :: "'k \<Rightarrow> 's \<Rightarrow> ('s \<times> 'v option) res"
  assumes put_law: "ok s \<Longrightarrow> k \<notin> fst ` set (items s) \<Longrightarrow>
      \<exists>s'. put k v s = Inr s' \<and> ok s' \<and> items s' = (k, v) # items s"
    and get_law: "ok s \<Longrightarrow> get k s = Inr (lookup_val (items s) k)"
    and take_law: "ok s \<Longrightarrow>
      \<exists>s'. take_out k s = Inr (s', lookup_val (items s) k) \<and> ok s' \<and> items s' = drop_key k (items s)"
begin

lemma kv_run_refines:
  "ok s \<Longrightarrow> spec_run (items s) ops = Some (l, outs) \<Longrightarrow>
   \<exists>s'. kv_run put get take_out s ops = Inr (s', outs) \<and> ok s' \<and> items s' = l"
proof (induction ops arbitrary: s outs)
  case (Cons x ops)
  show ?case
  proof (cases x)
    case (Put k v)
    then have "k \<notin> fst ` set (items s)" "spec_run ((k, v) # items s) ops = Some (l, outs)"
      using Cons.prems(2) by (auto split: if_splits)
    moreover obtain s1 where "put k v s = Inr s1" "ok s1" "items s1 = (k, v) # items s"
      using put_law [OF Cons.prems(1) calculation(1)] by blast
    ultimately show ?thesis using Cons.IH [of s1 outs] Put by simp
  next
    case (Take k)
    obtain s1 where s1: "take_out k s = Inr (s1, lookup_val (items s) k)" "ok s1"
        "items s1 = drop_key k (items s)"
      using take_law [OF Cons.prems(1)] by blast
    obtain outs1 where "spec_run (items s1) ops = Some (l, outs1)" "outs = lookup_val (items s) k # outs1"
      using Cons.prems(2) s1(3) Take by auto
    then show ?thesis using Cons.IH [OF s1(2)] s1(1) Take by fastforce
  next
    case (Get k)
    obtain outs1 where "spec_run (items s) ops = Some (l, outs1)" "outs = lookup_val (items s) k # outs1"
      using Cons.prems(2) Get by auto
    then show ?thesis using Cons.IH [OF Cons.prems(1)] get_law [OF Cons.prems(1), of k] Get by fastforce
  qed
qed simp

text \<open>A value put under a fresh key is found until it is taken out.\<close>

lemma put_get_take:
  assumes "ok s" and "k \<notin> fst ` set (items s)"
  shows "\<exists>s1 s2. put k v s = Inr s1 \<and> get k s1 = Inr v \<and> take_out k s1 = Inr (s2, v) \<and>
    ok s2 \<and> items s2 = items s \<and> get k s2 = Inr None"
proof -
  obtain s1 where s1: "put k v s = Inr s1" "ok s1" "items s1 = (k, v) # items s"
    using put_law [OF assms] by blast
  obtain s2 where s2: "take_out k s1 = Inr (s2, lookup_val (items s1) k)" "ok s2"
      "items s2 = drop_key k (items s1)" using take_law [OF s1(2)] by blast
  have "\<forall>p \<in> set (items s). fst p \<noteq> k" using assms(2) by force
  then have "items s2 = items s" using s2(3) s1(3) by (simp add: drop_key_def)
  moreover have "lookup_val (items s) k = None"
    using assms(2) by (simp add: lookup_val_def map_of_eq_None_iff [THEN iffD2])
  ultimately show ?thesis using s1 s2 get_law [OF s1(2), of k] get_law [OF s2(2), of k] by simp
qed

end

end
