(* ===== verification/Ax_Hashmap.thy ===== *)
theory Ax_Hashmap
  imports Node_Heap Kv_Spec
begin

text \<open>
  The hash table with iteration list \<^verbatim>\<open>hmap_t\<close> of \<^verbatim>\<open>src/core/ax_hashmap.h\<close>: entries on a heap, each
  on the doubly linked list of its bucket and on the doubly linked list of all entries. The
  overloaded \<^verbatim>\<open>do_hash\<close> is the argument \<open>hs\<close> of the operations; its two overloads are
  \<open>do_hash_uint\<close> and \<open>str_hash\<close>. Keys of class \<^verbatim>\<open>string_t\<close> are the characters they hold.
\<close>

section \<open>Data\<close>

text \<open>\<^verbatim>\<open>hmap_entry_t\<close>; \<^const>\<open>None\<close> is the null pointer.\<close>

record ('k, 'v) hmap_entry_t =
  he_data :: "'v option"
  he_key :: 'k
  he_next :: "nat option"
  he_prev :: "nat option"
  he_link_next :: "nat option"
  he_link_prev :: "nat option"

record ('k, 'v) hmap_t =
  hm_heap :: "('k, 'v) hmap_entry_t heap"
  hm_table :: "nat option list"
  hm_link_head :: "nat option"
  hm_nslot :: u32
  hm_size :: u32

section \<open>Hash functions\<close>

definition do_hash_uint :: "u32 \<Rightarrow> u32" where
  "do_hash_uint k = k"

text \<open>One round of the ELF hash; a \<^verbatim>\<open>char\<close> is signed, so it is sign-extended when it is added.\<close>

definition str_hash_step :: "u32 \<Rightarrow> u8 \<Rightarrow> u32" where
  "str_hash_step hash c =
     (let hash1 = push_bit 4 hash + scast c;
          x = hash1 AND 0xF0000000 in
      if x \<noteq> 0 then (hash1 XOR drop_bit 24 x) AND NOT x else hash1)"

text \<open>The loop runs to the terminating zero, or to the end of the list.\<close>

fun str_hash_loop :: "u32 \<Rightarrow> u8 list \<Rightarrow> u32" where
  "str_hash_loop hash [] = hash"
| "str_hash_loop hash (c # s) = (if c = 0 then hash else str_hash_loop (str_hash_step hash c) s)"

definition str_hash :: "u8 list \<Rightarrow> u32" where
  "str_hash s = str_hash_loop 0 s AND 0x7FFFFFFF"

section \<open>Operations\<close>

text \<open>The table of \<open>n\<close> null pointers; its size in bytes is a 32-bit product.\<close>

definition alloc_table :: "u32 \<Rightarrow> nat option list" where
  "alloc_table n = replicate (unat (n * 8) div 8) None"

definition hmap_new :: "u32 \<Rightarrow> ('k, 'v) hmap_t" where
  "hmap_new n = \<lparr>hm_heap = [], hm_table = alloc_table n, hm_link_head = None, hm_nslot = n, hm_size = 0\<rparr>"

definition table_get :: "nat option list \<Rightarrow> u32 \<Rightarrow> nat option res" where
  "table_get tb h = (if unat h < length tb then Inr (tb ! unat h) else Inl Mem_error)"

text \<open>\<^verbatim>\<open>do_hash(key) % n\<close>\<close>

definition slot_of :: "('k \<Rightarrow> u32) \<Rightarrow> u32 \<Rightarrow> 'k \<Rightarrow> u32 res" where
  "slot_of hs n key = (if n = 0 then Inl Div_zero else Inr (hs key mod n))"

text \<open>An entry becomes the head of bucket \<open>h\<close>.\<close>

definition bucket_push :: "u32 \<Rightarrow> nat \<Rightarrow> ('k, 'v) hmap_entry_t heap \<times> nat option list \<Rightarrow>
    (('k, 'v) hmap_entry_t heap \<times> nat option list) res" where
  "bucket_push h p s =
     rbind (table_get (snd s) h) (\<lambda>old.
     rbind (hupd_opt old (\<lambda>e. e\<lparr>he_prev := Some p\<rparr>) (fst s)) (\<lambda>hp.
     rbind (hupd p (\<lambda>e. e\<lparr>he_next := old, he_prev := None\<rparr>) hp) (\<lambda>hp'.
       Inr (hp', (snd s)[unat h := Some p]))))"

definition hmap_attach_link_head :: "nat option \<Rightarrow> ('k, 'v) hmap_t \<Rightarrow> ('k, 'v) hmap_t res" where
  "hmap_attach_link_head entry m =
     rbind (rt_assert (entry \<noteq> None)) (\<lambda>_.
     rbind (deref entry) (\<lambda>a.
     rbind (hupd a (\<lambda>e. e\<lparr>he_link_prev := None\<rparr>) (hm_heap m)) (\<lambda>hp.
       case hm_link_head m of
         None \<Rightarrow>
           rbind (hupd a (\<lambda>e. e\<lparr>he_link_next := None\<rparr>) hp) (\<lambda>hp.
             Inr (m\<lparr>hm_heap := hp, hm_link_head := entry\<rparr>))
       | Some h \<Rightarrow>
           rbind (hupd a (\<lambda>e. e\<lparr>he_link_next := Some h\<rparr>) hp) (\<lambda>hp.
           rbind (hupd h (\<lambda>e. e\<lparr>he_link_prev := entry\<rparr>) hp) (\<lambda>hp.
             Inr (m\<lparr>hm_heap := hp, hm_link_head := entry\<rparr>))))))"

definition hmap_detach_link :: "nat option \<Rightarrow> ('k, 'v) hmap_t \<Rightarrow> ('k, 'v) hmap_t res" where
  "hmap_detach_link entry m =
     (case entry of None \<Rightarrow> Inr m
      | Some a \<Rightarrow>
          rbind (hget (hm_heap m) a) (\<lambda>e.
          let p = he_link_prev e; q = he_link_next e in
          rbind (hupd_opt p (\<lambda>x. x\<lparr>he_link_next := q\<rparr>) (hm_heap m)) (\<lambda>hp.
          rbind (hupd_opt q (\<lambda>x. x\<lparr>he_link_prev := p\<rparr>) hp) (\<lambda>hp.
          rbind (hupd a (\<lambda>x. x\<lparr>he_link_next := None, he_link_prev := None\<rparr>) hp) (\<lambda>hp.
            Inr (m\<lparr>hm_heap := hp,
                   hm_link_head := (if entry = hm_link_head m then q else hm_link_head m)\<rparr>))))))"

definition hmap_detach :: "('k \<Rightarrow> u32) \<Rightarrow> nat option \<Rightarrow> ('k, 'v) hmap_t \<Rightarrow> ('k, 'v) hmap_t res" where
  "hmap_detach hs entry m =
     (case entry of None \<Rightarrow> Inr m
      | Some a \<Rightarrow>
          rbind (hget (hm_heap m) a) (\<lambda>e.
          rbind (slot_of hs (hm_nslot m) (he_key e)) (\<lambda>slot.
          let p = he_prev e; q = he_next e in
          rbind (hupd_opt p (\<lambda>x. x\<lparr>he_next := q\<rparr>) (hm_heap m)) (\<lambda>hp.
          rbind (hupd_opt q (\<lambda>x. x\<lparr>he_prev := p\<rparr>) hp) (\<lambda>hp.
          rbind (table_get (hm_table m) slot) (\<lambda>hd.
          let tb = (if hd = entry then (hm_table m)[unat slot := q] else hm_table m) in
          rbind (hupd a (\<lambda>x. x\<lparr>he_next := None, he_prev := None\<rparr>) hp) (\<lambda>hp.
          rbind (hmap_detach_link entry (m\<lparr>hm_heap := hp, hm_table := tb\<rparr>)) (\<lambda>m'.
            Inr (m'\<lparr>hm_size := hm_size m' - 1\<rparr>)))))))))"

definition hmap_remove :: "('k \<Rightarrow> u32) \<Rightarrow> nat option \<Rightarrow> ('k, 'v) hmap_t \<Rightarrow> ('k, 'v) hmap_t res" where
  "hmap_remove hs entry m =
     (case entry of None \<Rightarrow> Inr m
      | Some a \<Rightarrow>
          rbind (hmap_detach hs entry m) (\<lambda>m'.
          rbind (hdel a (hm_heap m')) (\<lambda>hp. Inr (m'\<lparr>hm_heap := hp\<rparr>))))"

definition hmap_insert :: "('k \<Rightarrow> u32) \<Rightarrow> 'k \<Rightarrow> 'v option \<Rightarrow> ('k, 'v) hmap_t \<Rightarrow> ('k, 'v) hmap_t res" where
  "hmap_insert hs key val m =
     rbind (slot_of hs (hm_nslot m) key) (\<lambda>h.
     let (hp, a) = hnew \<lparr>he_data = val, he_key = key, he_next = None, he_prev = None,
                         he_link_next = None, he_link_prev = None\<rparr> (hm_heap m) in
     rbind (bucket_push h a (hp, hm_table m)) (\<lambda>(hp, tb).
     rbind (hmap_attach_link_head (Some a) (m\<lparr>hm_heap := hp, hm_table := tb\<rparr>)) (\<lambda>m'.
       Inr (m'\<lparr>hm_size := hm_size m' + 1\<rparr>))))"

text \<open>The search loop of both overloads of \<^verbatim>\<open>find\<close>, over the entries of a bucket; \<open>eq\<close> is the
  comparison with the searched key.\<close>

fun find_loop :: "('k \<Rightarrow> bool) \<Rightarrow> ('k, 'v) hmap_entry_t heap \<Rightarrow> nat \<Rightarrow> nat option \<Rightarrow> nat option res" where
  "find_loop eq hp n None = Inr None"
| "find_loop eq hp 0 (Some a) = Inl Diverge"
| "find_loop eq hp (Suc n) (Some a) =
     rbind (hget hp a) (\<lambda>e. if eq (he_key e) then Inr (Some a) else find_loop eq hp n (he_next e))"

definition hmap_find :: "('k \<Rightarrow> u32) \<Rightarrow> 'k \<Rightarrow> ('k, 'v) hmap_t \<Rightarrow> nat option res" where
  "hmap_find hs key m =
     rbind (slot_of hs (hm_nslot m) key) (\<lambda>h.
     rbind (table_get (hm_table m) h) (\<lambda>entry.
       find_loop (\<lambda>k. k = key) (hm_heap m) (length (hm_heap m)) entry))"

text \<open>\<^verbatim>\<open>find(const char*)\<close>: the key is a zero-terminated string of the caller; \<open>cstr\<close> are the
  characters before the zero.\<close>

definition cstr :: "u8 list \<Rightarrow> u8 list" where
  "cstr s = takeWhile (\<lambda>c. c \<noteq> 0) s"

definition hmap_find_cstr :: "u8 list \<Rightarrow> (u8 list, 'v) hmap_t \<Rightarrow> nat option res" where
  "hmap_find_cstr s m =
     rbind (slot_of str_hash (hm_nslot m) s) (\<lambda>h.
     rbind (table_get (hm_table m) h) (\<lambda>entry.
       find_loop (\<lambda>k. cstr k = cstr s) (hm_heap m) (length (hm_heap m)) entry))"

definition hmap_get_data :: "('k \<Rightarrow> u32) \<Rightarrow> 'k \<Rightarrow> ('k, 'v) hmap_t \<Rightarrow> 'v option res" where
  "hmap_get_data hs key m =
     rbind (hmap_find hs key m) (\<lambda>p.
       case p of None \<Rightarrow> Inr None | Some a \<Rightarrow> rbind (hget (hm_heap m) a) (\<lambda>e. Inr (he_data e)))"

definition hmap_remove_get :: "('k \<Rightarrow> u32) \<Rightarrow> 'k \<Rightarrow> ('k, 'v) hmap_t \<Rightarrow> (('k, 'v) hmap_t \<times> 'v option) res" where
  "hmap_remove_get hs key m =
     rbind (hmap_find hs key m) (\<lambda>p.
       case p of None \<Rightarrow> Inr (m, None)
       | Some a \<Rightarrow> rbind (hget (hm_heap m) a) (\<lambda>e.
           rbind (hmap_remove hs p m) (\<lambda>m'. Inr (m', he_data e))))"

fun remove_all_loop :: "('k \<Rightarrow> u32) \<Rightarrow> nat \<Rightarrow> ('k, 'v) hmap_t \<Rightarrow> ('k, 'v) hmap_t res" where
  "remove_all_loop hs n m =
     (case hm_link_head m of None \<Rightarrow> Inr m
      | Some a \<Rightarrow> (case n of 0 \<Rightarrow> Inl Diverge
          | Suc n' \<Rightarrow> rbind (hmap_remove hs (Some a) m) (remove_all_loop hs n')))"

declare remove_all_loop.simps [simp del]

definition hmap_remove_all :: "('k \<Rightarrow> u32) \<Rightarrow> ('k, 'v) hmap_t \<Rightarrow> ('k, 'v) hmap_t res" where
  "hmap_remove_all hs m = remove_all_loop hs (length (hm_heap m)) m"

text \<open>The loop of \<^verbatim>\<open>rehash\<close> follows the list of all entries.\<close>

fun rehash_loop :: "('k \<Rightarrow> u32) \<Rightarrow> u32 \<Rightarrow> nat \<Rightarrow> nat option \<Rightarrow>
    ('k, 'v) hmap_entry_t heap \<times> nat option list \<Rightarrow> (('k, 'v) hmap_entry_t heap \<times> nat option list) res" where
  "rehash_loop hs n f None s = Inr s"
| "rehash_loop hs n 0 (Some p) s = Inl Diverge"
| "rehash_loop hs n (Suc f) (Some p) s =
     rbind (hget (fst s) p) (\<lambda>e.
     rbind (slot_of hs n (he_key e)) (\<lambda>h.
     rbind (bucket_push h p s) (\<lambda>s'.
     rbind (hget (fst s') p) (\<lambda>e'.
       rehash_loop hs n f (he_link_next e') s'))))"

definition hmap_rehash :: "('k \<Rightarrow> u32) \<Rightarrow> u32 \<Rightarrow> ('k, 'v) hmap_t \<Rightarrow> ('k, 'v) hmap_t res" where
  "hmap_rehash hs n m =
     rbind (rt_assert (n > 0)) (\<lambda>_.
     rbind (rehash_loop hs n (length (hm_heap m)) (hm_link_head m) (hm_heap m, alloc_table n)) (\<lambda>(hp, tb).
       Inr (m\<lparr>hm_heap := hp, hm_table := tb, hm_nslot := n\<rparr>)))"

text \<open>Iteration: \<^verbatim>\<open>head()\<close> and \<^verbatim>\<open>get_link_next()\<close>.\<close>

definition hmap_head :: "('k, 'v) hmap_t \<Rightarrow> nat option" where
  "hmap_head m = hm_link_head m"

definition get_link_next :: "('k, 'v) hmap_t \<Rightarrow> nat \<Rightarrow> nat option res" where
  "get_link_next m a = rbind (hget (hm_heap m) a) (\<lambda>e. Inr (he_link_next e))"

section \<open>Well-formed tables\<close>

definition hkey :: "('k, 'v) hmap_entry_t heap \<Rightarrow> nat \<Rightarrow> 'k option" where
  "hkey hp = fld (\<lambda>e. Some (he_key e)) hp"

definition hslot :: "('k \<Rightarrow> u32) \<Rightarrow> u32 \<Rightarrow> ('k, 'v) hmap_entry_t heap \<Rightarrow> nat \<Rightarrow> nat" where
  "hslot hs n hp a = unat (hs (the (hkey hp a)) mod n)"

text \<open>The buckets \<open>bl\<close> partition the member entries \<open>A\<close> by their slot.\<close>

definition buckets_ok :: "('k \<Rightarrow> u32) \<Rightarrow> u32 \<Rightarrow> ('k, 'v) hmap_entry_t heap \<Rightarrow> nat option list \<Rightarrow>
    (nat \<Rightarrow> nat list) \<Rightarrow> nat set \<Rightarrow> bool" where
  "buckets_ok hs n hp tb bl A \<longleftrightarrow>
     0 < n \<and> length tb = unat n \<and> A \<subseteq> alive hp \<and>
     (\<forall>i < unat n. distinct (bl i) \<and> set (bl i) = {a \<in> A. hslot hs n hp a = i} \<and>
        dll (fld he_next hp) (fld he_prev hp) (tb ! i) (bl i))"

definition list_ok :: "('k, 'v) hmap_entry_t heap \<Rightarrow> nat option \<Rightarrow> nat list \<Rightarrow> bool" where
  "list_ok hp h xs \<longleftrightarrow> distinct xs \<and> set xs \<subseteq> alive hp \<and>
     dll (fld he_link_next hp) (fld he_link_prev hp) h xs"

definition hmap_ok :: "('k \<Rightarrow> u32) \<Rightarrow> ('k, 'v) hmap_t \<Rightarrow> (nat \<Rightarrow> nat list) \<Rightarrow> nat list \<Rightarrow> bool" where
  "hmap_ok hs m bl xs \<longleftrightarrow>
     buckets_ok hs (hm_nslot m) (hm_heap m) (hm_table m) bl (set xs) \<and>
     list_ok (hm_heap m) (hm_link_head m) xs \<and> hm_size m = of_nat (length xs)"

lemma slot_bound: "0 < n \<Longrightarrow> unat (h mod n :: u32) < unat n"
  by (simp add: unat_mod word_gt_0 unat_gt_0)

lemma slot_of_ok: "0 < n \<Longrightarrow> slot_of hs n k = Inr (hs k mod n)"
  by (auto simp: slot_of_def)

lemma hkey_alive: "a \<in> alive hp \<Longrightarrow> hkey hp a = Some (he_key (the (hp ! a)))"
  by (simp add: hkey_def fld_def)

lemma hkey_hset [simp]: "ptr_ok p hp \<Longrightarrow> (\<And>e. he_key (u e) = he_key e) \<Longrightarrow> hkey (hset p u hp) = hkey hp"
  by (simp add: hkey_def fld_hset_same)

lemma hslot_cong: "hkey hp' a = hkey hp a \<Longrightarrow> hslot hs n hp' a = hslot hs n hp a"
  by (simp add: hslot_def)

lemma hslot_hset [simp]:
  "ptr_ok p hp \<Longrightarrow> (\<And>e. he_key (u e) = he_key e) \<Longrightarrow> hslot hs n (hset p u hp) = hslot hs n hp"
  by (rule ext) (simp add: hslot_def)

lemma buckets_ok_cong:
  assumes "buckets_ok hs n hp tb bl A" and "A \<subseteq> alive hp'"
    and "\<And>a. a \<in> A \<Longrightarrow> hkey hp' a = hkey hp a"
    and "\<And>a. a \<in> A \<Longrightarrow> fld he_next hp' a = fld he_next hp a"
    and "\<And>a. a \<in> A \<Longrightarrow> fld he_prev hp' a = fld he_prev hp a"
  shows "buckets_ok hs n hp' tb bl A"
proof -
  have "dll (fld he_next hp') (fld he_prev hp') (tb ! i) (bl i) =
      dll (fld he_next hp) (fld he_prev hp) (tb ! i) (bl i)" if "i < unat n" for i
    using assms that by (intro dll_cong) (auto simp: buckets_ok_def)
  moreover have "hslot hs n hp' a = hslot hs n hp a" if "a \<in> A" for a
    using assms(3) [OF that] by (rule hslot_cong)
  ultimately show ?thesis using assms(1,2) unfolding buckets_ok_def by auto
qed

lemma list_ok_cong:
  assumes "list_ok hp h xs" and "set xs \<subseteq> alive hp'"
    and "\<And>a. a \<in> set xs \<Longrightarrow> fld he_link_next hp' a = fld he_link_next hp a"
    and "\<And>a. a \<in> set xs \<Longrightarrow> fld he_link_prev hp' a = fld he_link_prev hp a"
  shows "list_ok hp' h xs"
proof -
  have "dll (fld he_link_next hp') (fld he_link_prev hp') h xs =
      dll (fld he_link_next hp) (fld he_link_prev hp) h xs"
    using assms by (intro dll_cong) auto
  then show ?thesis using assms(1,2) by (simp add: list_ok_def)
qed

lemma bucket_alive:
  "buckets_ok hs n hp tb bl A \<Longrightarrow> i < unat n \<Longrightarrow> a \<in> set (bl i) \<Longrightarrow> a \<in> alive hp \<and> a \<in> A"
  by (auto simp: buckets_ok_def)

lemma bucket_head_ok:
  assumes "buckets_ok hs n hp tb bl A" and "i < unat n"
  shows "ptr_ok (tb ! i) hp"
proof -
  have "dll (fld he_next hp) (fld he_prev hp) (tb ! i) (bl i)" using assms by (simp add: buckets_ok_def)
  then show ?thesis using bucket_alive [OF assms] by (cases "bl i") (auto dest: dll_head)
qed

section \<open>Pointer surgery\<close>

text \<open>What an operation on the bucket fields leaves alone, and what one on the list fields does.\<close>

definition same_links :: "('k, 'v) hmap_entry_t heap \<Rightarrow> ('k, 'v) hmap_entry_t heap \<Rightarrow> bool" where
  "same_links hp hp' \<longleftrightarrow> alive hp' = alive hp \<and> length hp' = length hp \<and> hkey hp' = hkey hp \<and>
     fld he_data hp' = fld he_data hp \<and>
     fld he_link_next hp' = fld he_link_next hp \<and> fld he_link_prev hp' = fld he_link_prev hp"

definition same_buckets :: "('k, 'v) hmap_entry_t heap \<Rightarrow> ('k, 'v) hmap_entry_t heap \<Rightarrow> bool" where
  "same_buckets hp hp' \<longleftrightarrow> alive hp' = alive hp \<and> length hp' = length hp \<and> hkey hp' = hkey hp \<and>
     fld he_data hp' = fld he_data hp \<and>
     fld he_next hp' = fld he_next hp \<and> fld he_prev hp' = fld he_prev hp"

lemma same_links_list_ok: "same_links hp hp' \<Longrightarrow> list_ok hp h xs \<Longrightarrow> list_ok hp' h xs"
  by (simp add: same_links_def list_ok_def)

lemma same_buckets_ok: "same_buckets hp hp' \<Longrightarrow> buckets_ok hs n hp tb bl A \<Longrightarrow> buckets_ok hs n hp' tb bl A"
  by (simp add: same_buckets_def buckets_ok_def hslot_def)

lemma bucket_push_ok:
  assumes ok: "buckets_ok hs n hp tb bl A" and a: "a \<in> alive hp" "a \<notin> A"
    and h: "h = hs (the (hkey hp a)) mod n"
  shows "\<exists>hp'. bucket_push h a (hp, tb) = Inr (hp', tb[unat h := Some a]) \<and>
    buckets_ok hs n hp' (tb[unat h := Some a]) (bl(unat h := a # bl (unat h))) (insert a A) \<and>
    same_links hp hp'"
proof -
  let ?old = "tb ! unat h"
  have n: "0 < n" "length tb = unat n" using ok by (simp_all add: buckets_ok_def)
  then have hn: "unat h < unat n" using slot_bound h by simp
  define hp1 where "hp1 = hset ?old (\<lambda>e. e\<lparr>he_prev := Some a\<rparr>) hp"
  define hp2 where "hp2 = hset (Some a) (\<lambda>e. e\<lparr>he_next := ?old, he_prev := None\<rparr>) hp1"
  have p1: "ptr_ok ?old hp" using bucket_head_ok [OF ok hn] .
  then have al1: "alive hp1 = alive hp" by (simp add: hp1_def)
  have p2: "ptr_ok (Some a) hp1" using a al1 by simp
  have run: "bucket_push h a (hp, tb) = Inr (hp2, tb[unat h := Some a])"
    using n hn p1 p2 by (simp add: bucket_push_def table_get_def hupd_ok hp2_def flip: hp1_def)
  have flds: "fld he_next hp2 = (fld he_next hp)(a := ?old)"
      "fld he_prev hp2 = (upd_opt ?old (Some a) (fld he_prev hp))(a := None)"
    using p1 p2 by (simp_all add: hp1_def hp2_def fld_hset)
  have same: "same_links hp hp2"
    using p1 p2 by (simp add: same_links_def hp1_def hp2_def fld_hset)
  have buckets: "distinct (bl i)" "set (bl i) = {a \<in> A. hslot hs n hp a = i}"
      "dll (fld he_next hp) (fld he_prev hp) (tb ! i) (bl i)" if "i < unat n" for i
    using ok that by (auto simp: buckets_ok_def)
  have slot_a: "hslot hs n hp a = unat h" using h by (simp add: hslot_def)
  have "dll (fld he_next hp2) (fld he_prev hp2) (tb[unat h := Some a] ! i) ((bl(unat h := a # bl (unat h))) i)"
    if i: "i < unat n" for i
  proof (cases "i = unat h")
    case True
    then show ?thesis
      using dll_push [OF buckets(3) [OF hn], of a] buckets(1,2) [OF hn] a n hn flds by simp
  next
    case False
    have "\<forall>b. ?old = Some b \<longrightarrow> b \<notin> set (bl i)"
      using dll_head buckets(2) [OF i] buckets(2,3) [OF hn] False
      by (cases "bl (unat h)") (fastforce simp: dll_def)+
    moreover have "a \<notin> set (bl i)" using a buckets(2) [OF i] by auto
    ultimately have "dll (fld he_next hp2) (fld he_prev hp2) (tb ! i) (bl i)"
      using buckets(3) [OF i] flds by (cases ?old) auto
    then show ?thesis using False by simp
  qed
  moreover have "hslot hs n hp2 = hslot hs n hp"
    using same by (auto simp: same_links_def hslot_def)
  ultimately have "buckets_ok hs n hp2 (tb[unat h := Some a]) (bl(unat h := a # bl (unat h))) (insert a A)"
    using ok a n same slot_a buckets by (auto simp: buckets_ok_def same_links_def)
  then show ?thesis using run same by blast
qed

lemma bucket_unlink:
  assumes ok: "buckets_ok hs n hp tb bl A" and a: "a \<in> A" "hslot hs n hp a = i"
    and same: "same_links hp hp'"
    and nx: "fld he_next hp' = (upd_opt (fld he_prev hp a) (fld he_next hp a) (fld he_next hp))(a := v)"
    and pv: "fld he_prev hp' = (upd_opt (fld he_next hp a) (fld he_prev hp a) (fld he_prev hp))(a := w)"
    and tb: "tb' = (if tb ! i = Some a then tb[i := fld he_next hp a] else tb)"
  shows "buckets_ok hs n hp' tb' (bl(i := remove1 a (bl i))) (A - {a})"
proof -
  have i: "i < unat n" using ok a(2) slot_bound by (auto simp: buckets_ok_def hslot_def)
  have buckets: "distinct (bl j)" "set (bl j) = {a \<in> A. hslot hs n hp a = j}"
      "dll (fld he_next hp) (fld he_prev hp) (tb ! j) (bl j)" if "j < unat n" for j
    using ok that by (auto simp: buckets_ok_def)
  have ai: "a \<in> set (bl i)" using buckets(2) [OF i] a by simp
  have "dll (fld he_next hp') (fld he_prev hp') (tb' ! j) ((bl(i := remove1 a (bl i))) j)"
    if j: "j < unat n" for j
  proof (cases "j = i")
    case True
    have "tb' ! i = (if tb ! i = Some a then fld he_next hp a else tb ! i)"
      using tb i ok by (simp add: buckets_ok_def)
    then show ?thesis
      using dll_remove1 [OF buckets(3,1) [OF i] ai, of v w] True unfolding nx pv by simp
  next
    case False
    have "b \<notin> set (bl j)" if "b \<in> set (bl i)" for b
      using that buckets(2) [OF i] buckets(2) [OF j] False by auto
    then have "dll (fld he_next hp') (fld he_prev hp') (tb ! j) (bl j)"
      using buckets(3) [OF j] dll_closed [OF buckets(3) [OF i] ai] ai unfolding nx pv
      by (cases "fld he_next hp a"; cases "fld he_prev hp a") auto
    then show ?thesis using False tb by simp
  qed
  moreover have "hslot hs n hp' = hslot hs n hp" using same by (auto simp: same_links_def hslot_def)
  moreover have "length tb' = length tb" using tb by simp
  ultimately show ?thesis
    using ok same buckets a by (auto simp: buckets_ok_def same_links_def)
qed

lemma member_ptrs:
  assumes "dll (fld f hp) (fld g hp) h xs" and "a \<in> set xs" and "set xs \<subseteq> alive hp"
  shows "ptr_ok (fld f hp a) hp" and "ptr_ok (fld g hp a) hp"
  using dll_closed [OF assms(1,2)] assms(3) by (auto simp: ptr_ok_def split: option.splits)

lemma detach_link_ok:
  assumes l: "list_ok (hm_heap m) (hm_link_head m) xs" and a: "a \<in> set xs"
  shows "\<exists>hp'. hmap_detach_link (Some a) m = Inr (m\<lparr>hm_heap := hp', hm_link_head :=
        (if hm_link_head m = Some a then fld he_link_next (hm_heap m) a else hm_link_head m)\<rparr>) \<and>
      list_ok hp' (if hm_link_head m = Some a then fld he_link_next (hm_heap m) a else hm_link_head m)
        (remove1 a xs) \<and>
      same_buckets (hm_heap m) hp'"
proof -
  let ?hp = "hm_heap m"
  let ?p = "fld he_link_prev ?hp a" and ?q = "fld he_link_next ?hp a"
  have d: "dll (fld he_link_next ?hp) (fld he_link_prev ?hp) (hm_link_head m) xs" "distinct xs"
      "set xs \<subseteq> alive ?hp" using l by (simp_all add: list_ok_def)
  have ptrs: "ptr_ok ?p ?hp" "ptr_ok ?q ?hp" "a \<in> alive ?hp"
    using member_ptrs [OF d(1) a d(3)] a d(3) by auto
  define hp1 where "hp1 = hset ?p (\<lambda>x. x\<lparr>he_link_next := ?q\<rparr>) ?hp"
  define hp2 where "hp2 = hset ?q (\<lambda>x. x\<lparr>he_link_prev := ?p\<rparr>) hp1"
  define hp3 where "hp3 = hset (Some a) (\<lambda>x. x\<lparr>he_link_next := None, he_link_prev := None\<rparr>) hp2"
  have ok1: "ptr_ok ?q hp1" "a \<in> alive hp1" using ptrs by (simp_all add: hp1_def)
  then have ok2: "a \<in> alive hp2" by (simp add: hp2_def)
  have run: "hmap_detach_link (Some a) m = Inr (m\<lparr>hm_heap := hp3, hm_link_head :=
      (if hm_link_head m = Some a then ?q else hm_link_head m)\<rparr>)"
    using ptrs ok1 ok2
    by (simp add: hmap_detach_link_def hget_alive fld_alive hupd_ok Let_def hp3_def eq_commute
        flip: hp1_def hp2_def)
  have "same_buckets ?hp hp3"
    using ptrs ok1 ok2 by (simp add: same_buckets_def hp1_def hp2_def hp3_def fld_hset)
  moreover have "fld he_link_next hp3 = (upd_opt ?p ?q (fld he_link_next ?hp))(a := None)"
      "fld he_link_prev hp3 = (upd_opt ?q ?p (fld he_link_prev ?hp))(a := None)"
    using ptrs ok1 ok2 by (simp_all add: hp1_def hp2_def hp3_def fld_hset)
  ultimately show ?thesis
    using run dll_remove1 [OF d(1,2) a, of None None] d(2,3) set_remove1_subset [of a xs]
    by (auto simp: list_ok_def same_buckets_def intro!: exI [of _ hp3])
qed

lemma attach_link_ok:
  assumes l: "list_ok (hm_heap m) (hm_link_head m) xs" and a: "a \<in> alive (hm_heap m)" "a \<notin> set xs"
  shows "\<exists>hp'. hmap_attach_link_head (Some a) m = Inr (m\<lparr>hm_heap := hp', hm_link_head := Some a\<rparr>) \<and>
      list_ok hp' (Some a) (a # xs) \<and> same_buckets (hm_heap m) hp'"
proof -
  let ?hp = "hm_heap m" and ?h = "hm_link_head m"
  have d: "dll (fld he_link_next ?hp) (fld he_link_prev ?hp) ?h xs" "distinct xs"
      "set xs \<subseteq> alive ?hp" using l by (simp_all add: list_ok_def)
  have h: "ptr_ok ?h ?hp" "?h \<noteq> Some a"
    using dll_in_head [OF d(1)] d(3) a(2) by (auto simp: ptr_ok_def split: option.splits)
  define hp1 where "hp1 = hset (Some a) (\<lambda>e. e\<lparr>he_link_prev := None\<rparr>) ?hp"
  define hp2 where "hp2 = hset (Some a) (\<lambda>e. e\<lparr>he_link_next := ?h\<rparr>) hp1"
  define hp3 where "hp3 = hset ?h (\<lambda>e. e\<lparr>he_link_prev := Some a\<rparr>) hp2"
  have ok: "a \<in> alive hp1" "ptr_ok ?h hp1" using a h by (simp_all add: hp1_def)
  then have ok2: "ptr_ok ?h hp2" by (simp add: hp2_def)
  have run: "hmap_attach_link_head (Some a) m = Inr (m\<lparr>hm_heap := hp3, hm_link_head := Some a\<rparr>)"
    using a ok ok2
    by (cases ?h) (simp_all add: hmap_attach_link_head_def hupd_ok hp3_def hp2_def hp1_def)
  have "same_buckets ?hp hp3"
    using a ok ok2 by (simp add: same_buckets_def hp1_def hp2_def hp3_def fld_hset)
  moreover have "fld he_link_next hp3 = (fld he_link_next ?hp)(a := ?h)"
      "fld he_link_prev hp3 = (upd_opt ?h (Some a) (fld he_link_prev ?hp))(a := None)"
    using a ok ok2 h(2) by (cases ?h; auto simp: hp1_def hp2_def hp3_def fld_hset fun_upd_twist)+
  ultimately show ?thesis
    using run dll_push [OF d(1) a(2) d(2)] a d(2,3)
    by (auto simp: list_ok_def same_buckets_def intro!: exI [of _ hp3])
qed

section \<open>Operations keep the table well-formed\<close>

lemma of_nat_length_remove1: "a \<in> set xs \<Longrightarrow> of_nat (length xs) - 1 = (of_nat (length (remove1 a xs)) :: u32)"
  by (cases "length xs") (auto simp: length_remove1)

lemma hmap_detach_ok:
  assumes ok: "hmap_ok hs m bl xs" and a: "a \<in> set xs"
  shows "\<exists>m'. hmap_detach hs (Some a) m = Inr m' \<and>
    hmap_ok hs m' (bl(hslot hs (hm_nslot m) (hm_heap m) a :=
      remove1 a (bl (hslot hs (hm_nslot m) (hm_heap m) a)))) (remove1 a xs) \<and>
    alive (hm_heap m') = alive (hm_heap m) \<and> length (hm_heap m') = length (hm_heap m) \<and>
    hkey (hm_heap m') = hkey (hm_heap m) \<and> fld he_data (hm_heap m') = fld he_data (hm_heap m) \<and>
    hm_nslot m' = hm_nslot m"
proof -
  let ?hp = "hm_heap m" and ?n = "hm_nslot m" and ?tb = "hm_table m"
  let ?i = "hslot hs ?n ?hp a"
  let ?p = "fld he_prev ?hp a" and ?q = "fld he_next ?hp a"
  have b: "buckets_ok hs ?n ?hp ?tb bl (set xs)" and l: "list_ok ?hp (hm_link_head m) xs"
    and sz: "hm_size m = of_nat (length xs)" using ok by (simp_all add: hmap_ok_def)
  have n: "0 < ?n" "length ?tb = unat ?n" "set xs \<subseteq> alive ?hp" using b by (simp_all add: buckets_ok_def)
  then have i: "?i < unat ?n" by (simp add: hslot_def slot_bound)
  have d: "dll (fld he_next ?hp) (fld he_prev ?hp) (?tb ! ?i) (bl ?i)" "a \<in> set (bl ?i)"
      "set (bl ?i) \<subseteq> alive ?hp"
    using b i a by (auto simp: buckets_ok_def)
  have ptrs: "ptr_ok ?p ?hp" "ptr_ok ?q ?hp" "a \<in> alive ?hp"
    using member_ptrs [OF d(1,2,3)] d by auto
  define hp1 where "hp1 = hset ?p (\<lambda>x. x\<lparr>he_next := ?q\<rparr>) ?hp"
  define hp2 where "hp2 = hset ?q (\<lambda>x. x\<lparr>he_prev := ?p\<rparr>) hp1"
  define hp3 where "hp3 = hset (Some a) (\<lambda>x. x\<lparr>he_next := None, he_prev := None\<rparr>) hp2"
  define tb' where "tb' = (if ?tb ! ?i = Some a then ?tb[?i := ?q] else ?tb)"
  have ok1: "ptr_ok ?q hp1" "a \<in> alive hp1" using ptrs by (simp_all add: hp1_def)
  then have ok2: "a \<in> alive hp2" by (simp add: hp2_def)
  have same: "same_links ?hp hp3"
    using ptrs ok1 ok2 by (simp add: same_links_def hp1_def hp2_def hp3_def fld_hset)
  have "fld he_next hp3 = (upd_opt ?p ?q (fld he_next ?hp))(a := None)"
      "fld he_prev hp3 = (upd_opt ?q ?p (fld he_prev ?hp))(a := None)"
    using ptrs ok1 ok2 by (simp_all add: hp1_def hp2_def hp3_def fld_hset)
  then have b3: "buckets_ok hs ?n hp3 tb' (bl(?i := remove1 a (bl ?i))) (set xs - {a})"
    using bucket_unlink [OF b a refl same _ _ tb'_def] by blast
  define m1 where "m1 = m\<lparr>hm_heap := hp3, hm_table := tb'\<rparr>"
  have "list_ok (hm_heap m1) (hm_link_head m1) xs"
    using same_links_list_ok [OF same l] by (simp add: m1_def)
  from detach_link_ok [OF this a] obtain hp4 h4 where
    run4: "hmap_detach_link (Some a) m1 = Inr (m1\<lparr>hm_heap := hp4, hm_link_head := h4\<rparr>)"
    and l4: "list_ok hp4 h4 (remove1 a xs)" and same4: "same_buckets (hm_heap m1) hp4" by blast
  let ?m' = "m1\<lparr>hm_heap := hp4, hm_link_head := h4, hm_size := hm_size m - 1\<rparr>"
  have slot: "unat (hs (he_key (the (?hp ! a))) mod ?n) = ?i"
    using ptrs(3) by (simp add: hslot_def hkey_alive)
  have "hmap_detach hs (Some a) m = Inr ?m'"
    using ptrs ok1 ok2 n i slot run4
    by (cases "?tb ! ?i = Some a")
      (simp_all add: hmap_detach_def hget_alive slot_of_ok fld_alive hupd_ok Let_def table_get_def
        tb'_def m1_def flip: hp1_def hp2_def hp3_def)
  moreover have "buckets_ok hs ?n hp4 tb' (bl(?i := remove1 a (bl ?i))) (set (remove1 a xs))"
    using same_buckets_ok [OF _ b3, of hp4] same4 l by (simp add: m1_def list_ok_def)
  moreover have "hmap_ok hs ?m' (bl(?i := remove1 a (bl ?i))) (remove1 a xs)"
    using calculation(2) l4 sz of_nat_length_remove1 [OF a] by (simp add: hmap_ok_def m1_def)
  ultimately show ?thesis using same same4 by (simp add: same_links_def same_buckets_def m1_def)
qed

lemma hmap_remove_ok:
  assumes ok: "hmap_ok hs m bl xs" and a: "a \<in> set xs"
  shows "\<exists>m' bl'. hmap_remove hs (Some a) m = Inr m' \<and> hmap_ok hs m' bl' (remove1 a xs) \<and>
    length (hm_heap m') = length (hm_heap m) \<and>
    (\<forall>b. b \<noteq> a \<longrightarrow> hkey (hm_heap m') b = hkey (hm_heap m) b \<and>
       fld he_data (hm_heap m') b = fld he_data (hm_heap m) b) \<and>
    a \<notin> alive (hm_heap m')"
proof -
  obtain m1 bl1 where m1: "hmap_detach hs (Some a) m = Inr m1" "hmap_ok hs m1 bl1 (remove1 a xs)"
      "alive (hm_heap m1) = alive (hm_heap m)" "length (hm_heap m1) = length (hm_heap m)"
      "hkey (hm_heap m1) = hkey (hm_heap m)" "fld he_data (hm_heap m1) = fld he_data (hm_heap m)"
    using hmap_detach_ok [OF ok a] by blast
  let ?hp = "(hm_heap m1)[a := None]"
  have al: "a \<in> alive (hm_heap m)" "distinct xs" using ok a by (auto simp: hmap_ok_def list_ok_def)
  then have na: "a \<notin> set (remove1 a xs)" by simp
  have b1: "buckets_ok hs (hm_nslot m1) (hm_heap m1) (hm_table m1) bl1 (set (remove1 a xs))"
    and l1: "list_ok (hm_heap m1) (hm_link_head m1) (remove1 a xs)"
    using m1(2) by (simp_all add: hmap_ok_def)
  have sub: "set (remove1 a xs) \<subseteq> alive ?hp"
    using l1 na by (auto simp: list_ok_def alive_delete)
  have keys: "hkey ?hp b = hkey (hm_heap m1) b" if "b \<noteq> a" for b
    using that by (simp add: hkey_def fld_delete)
  have ne: "b \<noteq> a" if "b \<in> set (remove1 a xs)" for b using na that by blast
  have "buckets_ok hs (hm_nslot m1) ?hp (hm_table m1) bl1 (set (remove1 a xs))"
    by (rule buckets_ok_cong [OF b1 sub]; drule ne; simp add: keys fld_delete)
  moreover have "list_ok ?hp (hm_link_head m1) (remove1 a xs)"
    by (rule list_ok_cong [OF l1 sub]; drule ne; simp add: fld_delete)
  ultimately have "hmap_ok hs (m1\<lparr>hm_heap := ?hp\<rparr>) bl1 (remove1 a xs)"
    using m1(2) by (simp add: hmap_ok_def)
  moreover have "hmap_remove hs (Some a) m = Inr (m1\<lparr>hm_heap := ?hp\<rparr>)"
    using m1(1,3) al by (simp add: hmap_remove_def hdel_def hget_alive)
  ultimately show ?thesis
    using m1 keys fld_delete [of _ a he_data "hm_heap m1"]
    by (auto simp: alive_delete intro!: exI [of _ "m1\<lparr>hm_heap := ?hp\<rparr>"] exI [of _ bl1])
qed

lemma hmap_insert_ok:
  assumes ok: "hmap_ok hs m bl xs"
  shows "\<exists>m'. hmap_insert hs k v m = Inr m' \<and>
    hmap_ok hs m' (bl(unat (hs k mod hm_nslot m) := length (hm_heap m) # bl (unat (hs k mod hm_nslot m))))
      (length (hm_heap m) # xs) \<and>
    length (hm_heap m') = Suc (length (hm_heap m)) \<and> hm_nslot m' = hm_nslot m \<and>
    hkey (hm_heap m') = (hkey (hm_heap m))(length (hm_heap m) := Some k) \<and>
    fld he_data (hm_heap m') = (fld he_data (hm_heap m))(length (hm_heap m) := v)"
proof -
  let ?hp = "hm_heap m" and ?n = "hm_nslot m" and ?tb = "hm_table m" and ?a = "length (hm_heap m)"
  let ?e = "\<lparr>he_data = v, he_key = k, he_next = None, he_prev = None,
             he_link_next = None, he_link_prev = None\<rparr>"
  define hp0 where "hp0 = ?hp @ [Some ?e]"
  have b: "buckets_ok hs ?n ?hp ?tb bl (set xs)" and l: "list_ok ?hp (hm_link_head m) xs"
    and sz: "hm_size m = of_nat (length xs)" using ok by (simp_all add: hmap_ok_def)
  have n: "0 < ?n" and xs: "set xs \<subseteq> alive ?hp" using b by (simp_all add: buckets_ok_def)
  have fresh: "?a \<notin> set xs" using xs by auto
  have f0: "fld f hp0 = (fld f ?hp)(?a := f ?e)" for f :: "('a, 'b) hmap_entry_t \<Rightarrow> 'c option"
    by (simp add: hp0_def fld_append)
  have f0': "fld f hp0 = (fld f ?hp)(?a := f ?e)" for f :: "('a, 'b) hmap_entry_t \<Rightarrow> nat option"
    by (simp add: hp0_def fld_append)
  have k0: "hkey hp0 = (hkey ?hp)(?a := Some k)" by (simp add: hp0_def hkey_def fld_append)
  have al0: "alive hp0 = insert ?a (alive ?hp)" by (simp add: hp0_def alive_append)
  have b0: "buckets_ok hs ?n hp0 ?tb bl (set xs)"
    using xs fresh by (intro buckets_ok_cong [OF b]) (auto simp: al0 k0 f0')
  have l0: "list_ok hp0 (hm_link_head m) xs"
    using xs fresh by (intro list_ok_cong [OF l]) (auto simp: al0 f0')
  let ?h = "hs k mod ?n"
  obtain hp1 where run1: "bucket_push ?h ?a (hp0, ?tb) = Inr (hp1, ?tb[unat ?h := Some ?a])"
    and b1: "buckets_ok hs ?n hp1 (?tb[unat ?h := Some ?a]) (bl(unat ?h := ?a # bl (unat ?h))) (insert ?a (set xs))"
    and same1: "same_links hp0 hp1"
    using bucket_push_ok [OF b0, of ?a ?h] fresh by (auto simp: al0 k0)
  define m1 where "m1 = m\<lparr>hm_heap := hp1, hm_table := ?tb[unat ?h := Some ?a]\<rparr>"
  have "list_ok (hm_heap m1) (hm_link_head m1) xs" "?a \<in> alive (hm_heap m1)"
    using same_links_list_ok [OF same1 l0] same1 al0 by (simp_all add: m1_def same_links_def)
  then obtain hp2 where run2: "hmap_attach_link_head (Some ?a) m1 = Inr (m1\<lparr>hm_heap := hp2, hm_link_head := Some ?a\<rparr>)"
    and l2: "list_ok hp2 (Some ?a) (?a # xs)" and same2: "same_buckets hp1 hp2"
    using attach_link_ok [of m1 xs ?a] fresh by (auto simp: m1_def)
  let ?m' = "m1\<lparr>hm_heap := hp2, hm_link_head := Some ?a, hm_size := hm_size m + 1\<rparr>"
  have "hmap_insert hs k v m = Inr ?m'"
    using n run1 run2
    by (simp add: hmap_insert_def slot_of_ok hnew_def Let_def flip: hp0_def m1_def) (simp add: m1_def)
  moreover have "hmap_ok hs ?m' (bl(unat ?h := ?a # bl (unat ?h))) (?a # xs)"
    using same_buckets_ok [OF same2 b1] l2 sz by (simp add: hmap_ok_def m1_def add.commute)
  moreover have "length hp2 = Suc ?a" "hkey hp2 = hkey hp0" "fld he_data hp2 = fld he_data hp0"
    using same1 same2 by (simp_all add: same_links_def same_buckets_def hp0_def)
  moreover have "fld he_data hp0 = (fld he_data ?hp)(?a := v)" by (simp add: hp0_def fld_append)
  ultimately show ?thesis using k0 by (simp add: m1_def)
qed

section \<open>Searching\<close>

lemma find_loop_seg:
  assumes "seg (fld he_next hp) pv p h xs None" and "set xs \<subseteq> alive hp" and "length xs \<le> n"
  shows "find_loop eq hp n h = Inr (List.find (\<lambda>a. eq (the (hkey hp a))) xs)"
  using assms
proof (induction xs arbitrary: p h n)
  case (Cons a xs)
  then obtain n' where "n = Suc n'" by (cases n) auto
  then show ?case
    using Cons by (auto simp: hget_alive hkey_alive fld_alive)
qed simp

lemma bucket_length:
  assumes "buckets_ok hs n hp tb bl A" and "i < unat n"
  shows "length (bl i) \<le> length hp"
  using assms by (intro distinct_bounded_length) (auto simp: buckets_ok_def dest: alive_less)

lemma hmap_find_bucket:
  assumes ok: "hmap_ok hs m bl xs"
  shows "hmap_find hs k m =
    Inr (List.find (\<lambda>a. the (hkey (hm_heap m) a) = k) (bl (unat (hs k mod hm_nslot m))))"
proof -
  let ?n = "hm_nslot m" and ?hp = "hm_heap m" and ?i = "unat (hs k mod hm_nslot m)"
  have b: "buckets_ok hs ?n ?hp (hm_table m) bl (set xs)" using ok by (simp add: hmap_ok_def)
  then have n: "0 < ?n" "length (hm_table m) = unat ?n" by (simp_all add: buckets_ok_def)
  then have i: "?i < unat ?n" by (simp add: slot_bound)
  then have "seg (fld he_next ?hp) (fld he_prev ?hp) None (hm_table m ! ?i) (bl ?i) None"
    using b by (simp add: buckets_ok_def dll_def)
  moreover have "set (bl ?i) \<subseteq> alive ?hp" using bucket_alive [OF b i] by blast
  ultimately have "find_loop (\<lambda>x. x = k) ?hp (length ?hp) (hm_table m ! ?i) =
      Inr (List.find (\<lambda>a. the (hkey ?hp a) = k) (bl ?i))"
    using bucket_length [OF b i] by (rule find_loop_seg)
  then show ?thesis using n i by (simp add: hmap_find_def slot_of_ok table_get_def)
qed

definition hmap_addrs :: "('k, 'v) hmap_t \<Rightarrow> nat list" where
  "hmap_addrs m = walk (fld he_link_next (hm_heap m)) (length (hm_heap m)) (hm_link_head m)"

definition hmap_items :: "('k, 'v) hmap_t \<Rightarrow> ('k, 'v) items" where
  "hmap_items m = map (\<lambda>a. (the (hkey (hm_heap m) a), fld he_data (hm_heap m) a)) (hmap_addrs m)"

definition hmap_wf :: "('k \<Rightarrow> u32) \<Rightarrow> ('k, 'v) hmap_t \<Rightarrow> bool" where
  "hmap_wf hs m \<longleftrightarrow> (\<exists>bl xs. hmap_ok hs m bl xs) \<and> distinct (map fst (hmap_items m))"

lemma hmap_addrs_ok:
  assumes "hmap_ok hs m bl xs"
  shows "hmap_addrs m = xs"
proof -
  have l: "list_ok (hm_heap m) (hm_link_head m) xs" using assms by (simp add: hmap_ok_def)
  then have "length xs \<le> length (hm_heap m)"
    by (intro distinct_bounded_length) (auto simp: list_ok_def dest: alive_less)
  then show ?thesis using l by (auto simp: hmap_addrs_def list_ok_def intro: dll_walk)
qed

lemma hmap_items_ok:
  "hmap_ok hs m bl xs \<Longrightarrow>
   hmap_items m = map (\<lambda>a. (the (hkey (hm_heap m) a), fld he_data (hm_heap m) a)) xs"
  by (simp add: hmap_items_def hmap_addrs_ok)

lemma List_find_SomeD: "List.find P xs = Some b \<Longrightarrow> b \<in> set xs \<and> P b"
  by (auto simp: find_Some_iff)

lemma List_find_unique:
  assumes "a \<in> set xs" and "P a" and "\<And>b. b \<in> set xs \<Longrightarrow> P b \<Longrightarrow> b = a"
  shows "List.find P xs = Some a"
proof (cases "List.find P xs")
  case None
  then show ?thesis using assms(1,2) by (auto simp: find_None_iff)
next
  case (Some b)
  then show ?thesis using List_find_SomeD [OF Some] assms(3) by simp
qed

lemma List_find_append:
  "List.find P (xs @ ys) = (case List.find P xs of None \<Rightarrow> List.find P ys | Some a \<Rightarrow> Some a)"
  by (induction xs) auto

lemma List_find_none: "(\<And>b. b \<in> set xs \<Longrightarrow> \<not> P b) \<Longrightarrow> List.find P xs = None"
  by (simp add: find_None_iff)

text \<open>With unique keys the bucket search is a search of the whole list.\<close>

lemma hmap_find_ok:
  assumes ok: "hmap_ok hs m bl xs" and d: "distinct (map (\<lambda>a. the (hkey (hm_heap m) a)) xs)"
  shows "hmap_find hs k m = Inr (List.find (\<lambda>a. the (hkey (hm_heap m) a) = k) xs)"
proof -
  let ?K = "\<lambda>a. the (hkey (hm_heap m) a)" and ?i = "unat (hs k mod hm_nslot m)"
  have "0 < hm_nslot m" using ok by (simp add: hmap_ok_def buckets_ok_def)
  then have bi: "set (bl ?i) = {a \<in> set xs. hslot hs (hm_nslot m) (hm_heap m) a = ?i}"
    using ok slot_bound by (simp add: hmap_ok_def buckets_ok_def)
  have "List.find (\<lambda>a. ?K a = k) (bl ?i) = List.find (\<lambda>a. ?K a = k) xs"
  proof (cases "\<exists>a \<in> set xs. ?K a = k")
    case True
    then obtain a where a: "a \<in> set xs" "?K a = k" by blast
    have uniq: "b = a" if "b \<in> set xs" "?K b = k" for b
      using inj_onD [of ?K "set xs" b a] that a d by (simp add: distinct_map)
    have "a \<in> set (bl ?i)" using bi a by (simp add: hslot_def)
    then have "List.find (\<lambda>a. ?K a = k) (bl ?i) = Some a"
      using a(2) by (rule List_find_unique) (use uniq bi in blast)
    moreover have "List.find (\<lambda>a. ?K a = k) xs = Some a" using a uniq by (rule List_find_unique)
    ultimately show ?thesis by simp
  next
    case False
    then have "List.find (\<lambda>a. ?K a = k) (bl ?i) = None" "List.find (\<lambda>a. ?K a = k) xs = None"
      using bi by (intro List_find_none; simp)+
    then show ?thesis by simp
  qed
  then show ?thesis by (simp add: hmap_find_bucket [OF ok])
qed

lemma lookup_val_find:
  "lookup_val (map (\<lambda>a. (K a, D a)) xs) k = (case List.find (\<lambda>a. K a = k) xs of None \<Rightarrow> None | Some a \<Rightarrow> D a)"
  by (induction xs) auto

section \<open>The table is a key/value store\<close>

lemma hmap_get_ok:
  assumes "hmap_wf hs m"
  shows "hmap_get_data hs k m = Inr (lookup_val (hmap_items m) k)"
proof -
  let ?K = "\<lambda>a. the (hkey (hm_heap m) a)"
  obtain bl xs where ok: "hmap_ok hs m bl xs" and d: "distinct (map ?K xs)"
    using assms by (auto simp: hmap_wf_def hmap_items_ok comp_def)
  have "hget (hm_heap m) a = Inr (the (hm_heap m ! a))" if "List.find (\<lambda>a. ?K a = k) xs = Some a" for a
    using List_find_SomeD [OF that] ok by (intro hget_alive) (auto simp: hmap_ok_def list_ok_def)
  then show ?thesis
    using hmap_find_ok [OF ok d, of k]
    by (auto simp: hmap_get_data_def hmap_items_ok [OF ok] lookup_val_find fld_def
        split: option.splits dest: hget_alive_ex)
qed

lemma hmap_wfE:
  assumes "hmap_wf hs m"
  obtains bl xs where "hmap_ok hs m bl xs" and "distinct (map (\<lambda>a. the (hkey (hm_heap m) a)) xs)"
  using assms by (auto simp: hmap_wf_def hmap_items_ok comp_def)

lemma hmap_wfI:
  "hmap_ok hs m bl xs \<Longrightarrow> distinct (map fst (hmap_items m)) \<Longrightarrow> hmap_wf hs m"
  by (auto simp: hmap_wf_def)

lemma hmap_items_cong:
  assumes "hmap_ok hs m' bl' xs'" and "set xs' \<subseteq> A"
    and "\<And>a. a \<in> A \<Longrightarrow> hkey (hm_heap m') a = hkey (hm_heap m) a"
    and "\<And>a. a \<in> A \<Longrightarrow> fld he_data (hm_heap m') a = fld he_data (hm_heap m) a"
  shows "hmap_items m' = map (\<lambda>a. (the (hkey (hm_heap m) a), fld he_data (hm_heap m) a)) xs'"
  using assms(2-4) by (auto simp: hmap_items_ok [OF assms(1)] subset_iff)

lemma hmap_insert_items:
  assumes ok: "hmap_ok hs m bl xs" and run: "hmap_insert hs k v m = Inr m'"
  shows "\<exists>bl'. hmap_ok hs m' bl' (length (hm_heap m) # xs)" and "hmap_items m' = (k, v) # hmap_items m"
proof -
  let ?a = "length (hm_heap m)"
  obtain bl' where m': "hmap_ok hs m' bl' (?a # xs)"
      "hkey (hm_heap m') = (hkey (hm_heap m))(?a := Some k)"
      "fld he_data (hm_heap m') = (fld he_data (hm_heap m))(?a := v)"
    using hmap_insert_ok [OF ok, of k v] run by auto
  then show "\<exists>bl'. hmap_ok hs m' bl' (?a # xs)" by blast
  have "?a \<notin> set xs" using ok by (auto simp: hmap_ok_def list_ok_def)
  then show "hmap_items m' = (k, v) # hmap_items m"
    using m' by (auto simp: hmap_items_ok [OF m'(1)] hmap_items_ok [OF ok])
qed

lemma remove1_filter_key:
  assumes "distinct (map K xs)" and "a \<in> set xs"
  shows "map (\<lambda>b. (K b, D b)) (remove1 a xs) = drop_key (K a) (map (\<lambda>b. (K b, D b)) xs)"
proof -
  have "remove1 a xs = filter (\<lambda>b. b \<noteq> a) xs"
    using assms(1) by (simp add: distinct_remove1_removeAll distinct_map removeAll_filter_not_eq) metis
  also have "\<dots> = filter (\<lambda>b. K b \<noteq> K a) xs"
    using assms by (intro filter_cong) (auto simp: distinct_map dest: inj_onD)
  finally show ?thesis by (simp add: drop_key_def filter_map comp_def)
qed

lemma hmap_remove_get_ok:
  assumes wf: "hmap_wf hs m"
  shows "\<exists>m'. hmap_remove_get hs k m = Inr (m', lookup_val (hmap_items m) k) \<and> hmap_wf hs m' \<and>
    hmap_items m' = drop_key k (hmap_items m)"
proof -
  let ?K = "\<lambda>a. the (hkey (hm_heap m) a)" and ?D = "fld he_data (hm_heap m)"
  obtain bl xs where ok: "hmap_ok hs m bl xs" and d: "distinct (map ?K xs)"
    using hmap_wfE [OF wf] .
  note it = hmap_items_ok [OF ok] and fnd = hmap_find_ok [OF ok d, of k]
  show ?thesis
  proof (cases "List.find (\<lambda>a. ?K a = k) xs")
    case None
    then have "\<forall>p \<in> set (hmap_items m). fst p \<noteq> k" by (auto simp: it find_None_iff)
    then have "drop_key k (hmap_items m) = hmap_items m" by (simp add: drop_key_def)
    moreover have "lookup_val (hmap_items m) k = None" using None by (simp add: it lookup_val_find)
    ultimately show ?thesis using None fnd wf by (simp add: hmap_remove_get_def)
  next
    case (Some a)
    then have a: "a \<in> set xs" "?K a = k" using List_find_SomeD [OF Some] by auto
    obtain m' bl' where m': "hmap_remove hs (Some a) m = Inr m'" "hmap_ok hs m' bl' (remove1 a xs)"
      and same: "\<And>b. b \<noteq> a \<Longrightarrow> hkey (hm_heap m') b = hkey (hm_heap m) b"
        "\<And>b. b \<noteq> a \<Longrightarrow> fld he_data (hm_heap m') b = fld he_data (hm_heap m) b"
      using hmap_remove_ok [OF ok a(1)] by blast
    have al: "a \<in> alive (hm_heap m)" and "distinct xs"
      using ok a(1) by (auto simp: hmap_ok_def list_ok_def)
    then have "a \<notin> set (remove1 a xs)" by simp
    then have "hmap_items m' = map (\<lambda>b. (?K b, ?D b)) (remove1 a xs)"
      using same by (intro hmap_items_cong [OF m'(2), of "- {a}"]) auto
    then have it': "hmap_items m' = drop_key k (hmap_items m)"
      using remove1_filter_key [OF d a(1), of ?D] a(2) by (simp add: it)
    moreover have "distinct (map fst (hmap_items m'))"
      using wf by (simp add: it' drop_key_def distinct_map_filter hmap_wf_def)
    then have "hmap_wf hs m'" using hmap_wfI [OF m'(2)] by simp
    moreover have "hmap_remove_get hs k m = Inr (m', ?D a)"
      using fnd Some m'(1) al by (simp add: hmap_remove_get_def hget_alive fld_alive)
    ultimately show ?thesis using Some by (simp add: it lookup_val_find)
  qed
qed

interpretation hash_table: kv_store "hmap_wf hs" hmap_items "hmap_insert hs" "hmap_get_data hs" "hmap_remove_get hs"
  for hs :: "'k \<Rightarrow> u32"
proof unfold_locales
  fix m :: "('k, 'b) hmap_t" and k v
  assume wf: "hmap_wf hs m" and k: "k \<notin> fst ` set (hmap_items m)"
  obtain bl xs where ok: "hmap_ok hs m bl xs" using hmap_wfE [OF wf] .
  obtain m' where run: "hmap_insert hs k v m = Inr m'" using hmap_insert_ok [OF ok] by blast
  moreover obtain bl' where ok': "hmap_ok hs m' bl' (length (hm_heap m) # xs)"
    using hmap_insert_items(1) [OF ok run] by blast
  moreover have it: "hmap_items m' = (k, v) # hmap_items m" using hmap_insert_items(2) [OF ok run] .
  moreover have "hmap_wf hs m'"
    using wf k it by (intro hmap_wfI [OF ok']) (auto simp: hmap_wf_def)
  ultimately show "\<exists>s'. hmap_insert hs k v m = Inr s' \<and> hmap_wf hs s' \<and> hmap_items s' = (k, v) # hmap_items m"
    by blast
qed (simp_all add: hmap_get_ok hmap_remove_get_ok)

section \<open>Construction, rehashing and clearing\<close>

lemma alloc_table_length: "unat n < 2 ^ 29 \<Longrightarrow> length (alloc_table n) = unat n"
  by (simp add: alloc_table_def unat_word_ariths)

lemma buckets_ok_empty:
  assumes "0 < n" and "unat n < 2 ^ 29"
  shows "buckets_ok hs n hp (alloc_table n) (\<lambda>_. []) {}"
proof -
  have "alloc_table n ! i = None" if "i < unat n" for i
    using that alloc_table_length [OF assms(2)] by (simp add: alloc_table_def)
  then show ?thesis using assms alloc_table_length by (simp add: buckets_ok_def)
qed

lemma hmap_new_ok:
  assumes "0 < n" and "unat n < 2 ^ 29"
  shows "hmap_ok hs (hmap_new n) (\<lambda>_. []) []"
  using buckets_ok_empty [OF assms, of hs "[]"] by (simp add: hmap_ok_def hmap_new_def list_ok_def)

lemma hmap_new_items: "hmap_items (hmap_new n) = []"
  by (simp add: hmap_items_def hmap_addrs_def hmap_new_def)

lemma hmap_new_wf: "0 < n \<Longrightarrow> unat n < 2 ^ 29 \<Longrightarrow> hmap_wf hs (hmap_new n)"
  by (rule hmap_wfI [OF hmap_new_ok]) (simp_all add: hmap_new_items)

lemma rehash_loop_ok:
  assumes "seg (fld he_link_next hp) pv q p ts None" and "length ts \<le> f" and "distinct ts"
    and "set ts \<inter> A = {}" and "set ts \<subseteq> alive hp" and "buckets_ok hs n hp tb bl A"
  shows "\<exists>hp' tb'. rehash_loop hs n f p (hp, tb) = Inr (hp', tb') \<and> same_links hp hp' \<and>
    buckets_ok hs n hp' tb' (\<lambda>i. rev (filter (\<lambda>a. hslot hs n hp a = i) ts) @ bl i) (A \<union> set ts)"
  using assms
proof (induction ts arbitrary: q p f hp tb bl A)
  case Nil
  then show ?case by (auto simp: same_links_def)
next
  case (Cons a ts)
  obtain f' where f: "f = Suc f'" "length ts \<le> f'" using Cons.prems(2) by (cases f) auto
  have a: "a \<in> alive hp" "a \<notin> A" "p = Some a" using Cons.prems by auto
  let ?h = "hs (the (hkey hp a)) mod n"
  have ha: "unat ?h = hslot hs n hp a" by (simp add: hslot_def)
  obtain hp1 where run1: "bucket_push ?h a (hp, tb) = Inr (hp1, tb[unat ?h := Some a])"
    and b1: "buckets_ok hs n hp1 (tb[unat ?h := Some a]) (bl(unat ?h := a # bl (unat ?h))) (insert a A)"
    and same1: "same_links hp hp1"
    using bucket_push_ok [OF Cons.prems(6) a(1,2)] by blast
  have links: "fld he_link_next hp1 = fld he_link_next hp" "alive hp1 = alive hp"
      "hslot hs n hp1 = hslot hs n hp"
    using same1 by (auto simp: same_links_def hslot_def)
  have "seg (fld he_link_next hp1) pv (Some a) (fld he_link_next hp a) ts None"
    using Cons.prems(1) links by simp
  from Cons.IH [OF this f(2) _ _ _ b1] Cons.prems links obtain hp' tb' where
    run: "rehash_loop hs n f' (fld he_link_next hp a) (hp1, tb[unat ?h := Some a]) = Inr (hp', tb')"
    and same: "same_links hp1 hp'"
    and b: "buckets_ok hs n hp' tb' (\<lambda>i. rev (filter (\<lambda>a. hslot hs n hp a = i) ts) @
        (bl(unat ?h := a # bl (unat ?h))) i) (insert a A \<union> set ts)"
    by auto
  have "0 < n" using Cons.prems(6) by (simp add: buckets_ok_def)
  then have "rehash_loop hs n f p (hp, tb) = Inr (hp', tb')"
    using a f(1) run run1 links hkey_alive [OF a(1)]
    by (simp add: hget_alive slot_of_ok fld_alive)
  moreover have "(\<lambda>i. rev (filter (\<lambda>a. hslot hs n hp a = i) ts) @ (bl(unat ?h := a # bl (unat ?h))) i) =
      (\<lambda>i. rev (filter (\<lambda>a. hslot hs n hp a = i) (a # ts)) @ bl i)"
    using ha by (intro ext) simp
  ultimately show ?case using b same same1 by (auto simp: same_links_def)
qed

lemma hmap_rehash_ok:
  assumes ok: "hmap_ok hs m bl xs" and n: "0 < n" "unat n < 2 ^ 29"
  shows "\<exists>m'. hmap_rehash hs n m = Inr m' \<and> hm_nslot m' = n \<and>
    hmap_ok hs m' (\<lambda>i. rev (filter (\<lambda>a. hslot hs n (hm_heap m) a = i) xs)) xs \<and>
    hmap_items m' = hmap_items m \<and> hkey (hm_heap m') = hkey (hm_heap m) \<and>
    fld he_data (hm_heap m') = fld he_data (hm_heap m)"
proof -
  let ?hp = "hm_heap m"
  have l: "list_ok ?hp (hm_link_head m) xs" using ok by (simp add: hmap_ok_def)
  then have "seg (fld he_link_next ?hp) (fld he_link_prev ?hp) None (hm_link_head m) xs None"
    by (simp add: list_ok_def dll_def)
  moreover have "length xs \<le> length ?hp"
    using l by (intro distinct_bounded_length) (auto simp: list_ok_def dest: alive_less)
  ultimately obtain hp' tb' where
    run: "rehash_loop hs n (length ?hp) (hm_link_head m) (?hp, alloc_table n) = Inr (hp', tb')"
    and same: "same_links ?hp hp'"
    and b: "buckets_ok hs n hp' tb' (\<lambda>i. rev (filter (\<lambda>a. hslot hs n ?hp a = i) xs)) (set xs)"
    using rehash_loop_ok [OF _ _ _ _ _ buckets_ok_empty [OF n, of hs ?hp]] l
    by (fastforce simp: list_ok_def)
  let ?m' = "m\<lparr>hm_heap := hp', hm_table := tb', hm_nslot := n\<rparr>"
  have ok': "hmap_ok hs ?m' (\<lambda>i. rev (filter (\<lambda>a. hslot hs n ?hp a = i) xs)) xs"
    using ok b same_links_list_ok [OF same l] by (simp add: hmap_ok_def)
  moreover have "hmap_items ?m' = hmap_items m"
    using same by (simp add: hmap_items_ok [OF ok'] hmap_items_ok [OF ok] same_links_def)
  moreover have "hmap_rehash hs n m = Inr ?m'" using run n by (simp add: hmap_rehash_def)
  ultimately show ?thesis using same by (auto simp: same_links_def)
qed

lemma remove_all_loop_ok:
  "hmap_ok hs m bl xs \<Longrightarrow> length xs \<le> n \<Longrightarrow>
   \<exists>m' bl'. remove_all_loop hs n m = Inr m' \<and> hmap_ok hs m' bl' []"
proof (induction xs arbitrary: m bl n)
  case Nil
  then have "hm_link_head m = None" by (simp add: hmap_ok_def list_ok_def)
  then show ?case using Nil by (auto simp: remove_all_loop.simps)
next
  case (Cons a xs)
  then obtain n' where n: "n = Suc n'" "length xs \<le> n'" by (cases n) auto
  have h: "hm_link_head m = Some a"
    using Cons.prems(1) by (auto simp: hmap_ok_def list_ok_def dest: dll_head)
  obtain m' bl' where "hmap_remove hs (Some a) m = Inr m'" "hmap_ok hs m' bl' xs"
    using hmap_remove_ok [OF Cons.prems(1), of a] by auto
  then show ?case using Cons.IH [of m' bl' n'] n h by (simp add: remove_all_loop.simps [of hs "Suc n'" m])
qed

lemma hmap_remove_all_ok:
  assumes "hmap_ok hs m bl xs"
  shows "\<exists>m'. hmap_remove_all hs m = Inr m' \<and> hmap_wf hs m' \<and> hmap_items m' = [] \<and> hm_size m' = 0"
proof -
  have "length xs \<le> length (hm_heap m)"
    using assms by (intro distinct_bounded_length) (auto simp: hmap_ok_def list_ok_def dest: alive_less)
  then obtain m' bl' where m': "hmap_remove_all hs m = Inr m'" "hmap_ok hs m' bl' []"
    using remove_all_loop_ok [OF assms, of "length (hm_heap m)"] by (auto simp: hmap_remove_all_def)
  then have "hmap_items m' = []" by (simp add: hmap_items_ok)
  moreover have "hm_size m' = 0" using m'(2) by (simp add: hmap_ok_def)
  ultimately show ?thesis using m' hmap_wfI [OF m'(2)] by simp
qed

section \<open>Properties\<close>

text \<open>C2: Starting from an empty table of at most \<open>2 ^ 29\<close> slots and for any hash function, every
  program of insertions, lookups and removals that never inserts a key twice succeeds, gives the
  answers of a list of key/value pairs and leaves exactly those pairs on the iteration list, newest
  first.\<close>

theorem hmap_refines_kv:
  assumes "0 < n" and "unat n < 2 ^ 29" and "spec_run [] ops = Some (l, outs)"
  shows "\<exists>m. kv_run (hmap_insert hs) (hmap_get_data hs) (hmap_remove_get hs) (hmap_new n) ops = Inr (m, outs) \<and>
    hmap_items m = l"
proof -
  have "spec_run (hmap_items (hmap_new n)) ops = Some (l, outs)"
    using assms(3) by (simp add: hmap_new_items)
  from hash_table.kv_run_refines [OF hmap_new_wf [OF assms(1,2)] this]
  show ?thesis by blast
qed

theorem hmap_refines_kv_witness:
  "\<exists>m. kv_run (hmap_insert do_hash_uint) (hmap_get_data do_hash_uint) (hmap_remove_get do_hash_uint)
     (hmap_new 2) [Put 1 (Some CHR ''x''), Put 3 (Some CHR ''y''), Get 1, Take 3, Get 3] =
     Inr (m, [Some CHR ''x'', Some CHR ''y'', None]) \<and> hmap_items m = [(1, Some CHR ''x'')]"
  using hmap_refines_kv [of 2 "[Put 1 (Some CHR ''x''), Put 3 (Some CHR ''y''), Get 1, Take 3, Get 3]"
      "[(1, Some CHR ''x'')]" "[Some CHR ''x'', Some CHR ''y'', None]" do_hash_uint]
  by (simp add: drop_key_def)

text \<open>C30: Rehashing a well-formed table whose keys are pairwise different to any size from 1 to \<open>2 ^ 29 - 1\<close>
  slots succeeds, keeps the pairs and their iteration order, and every lookup answers as before. Equal keys,
  which \<^verbatim>\<open>insert\<close> permits, are left out: for them a lookup may change (\<open>hmap_rehash_duplicates\<close>).\<close>

theorem hmap_rehash_keeps:
  assumes "hmap_wf hs m" and "0 < n" and "unat n < 2 ^ 29"
  shows "\<exists>m'. hmap_rehash hs n m = Inr m' \<and> hmap_wf hs m' \<and> hmap_items m' = hmap_items m \<and>
    hm_nslot m' = n \<and> (\<forall>k. hmap_get_data hs k m' = hmap_get_data hs k m)"
proof -
  obtain bl xs where ok: "hmap_ok hs m bl xs" using hmap_wfE [OF assms(1)] .
  obtain m' bl' where m': "hmap_rehash hs n m = Inr m'" "hm_nslot m' = n" "hmap_ok hs m' bl' xs"
      "hmap_items m' = hmap_items m"
    using hmap_rehash_ok [OF ok assms(2,3)] by blast
  then have "hmap_wf hs m'" using assms(1) by (intro hmap_wfI [OF m'(3)]) (simp add: hmap_wf_def)
  then show ?thesis using m' assms(1) by (simp add: hmap_get_ok)
qed

theorem hmap_rehash_keeps_witness:
  "\<exists>m1 m2 m'. hmap_insert do_hash_uint 1 (Some CHR ''x'') (hmap_new 2) = Inr m1 \<and>
     hmap_insert do_hash_uint 3 (Some CHR ''y'') m1 = Inr m2 \<and> hmap_rehash do_hash_uint 7 m2 = Inr m' \<and>
     hm_nslot m' = 7 \<and> hmap_items m' = [(3, Some CHR ''y''), (1, Some CHR ''x'')] \<and>
     hmap_get_data do_hash_uint 1 m' = Inr (Some CHR ''x'') \<and> hmap_get_data do_hash_uint 3 m' = Inr (Some CHR ''y'')"
proof -
  have new: "hmap_wf do_hash_uint (hmap_new 2)" by (rule hmap_new_wf) simp_all
  obtain m1 where m1: "hmap_insert do_hash_uint 1 (Some CHR ''x'') (hmap_new 2) = Inr m1" "hmap_wf do_hash_uint m1"
      "hmap_items m1 = [(1, Some CHR ''x'')]"
    using hash_table.put_law [OF new, of 1] by (auto simp: hmap_new_items)
  obtain m2 where m2: "hmap_insert do_hash_uint 3 (Some CHR ''y'') m1 = Inr m2" "hmap_wf do_hash_uint m2"
      "hmap_items m2 = [(3, Some CHR ''y''), (1, Some CHR ''x'')]"
    using hash_table.put_law [OF m1(2), of 3] by (auto simp: m1(3))
  from hmap_rehash_keeps [OF m2(2), of 7] show ?thesis
    using m1(1) m2 by (auto simp: hmap_get_ok lookup_val_def)
qed

lemma hmap_get_bucket:
  assumes "hmap_ok hs m bl xs"
    and "List.find (\<lambda>a. the (hkey (hm_heap m) a) = k) (bl (unat (hs k mod hm_nslot m))) = Some a"
  shows "hmap_get_data hs k m = Inr (fld he_data (hm_heap m) a)"
proof -
  have "0 < hm_nslot m" using assms(1) by (simp add: hmap_ok_def buckets_ok_def)
  then have "unat (hs k mod hm_nslot m) < unat (hm_nslot m)" by (rule slot_bound)
  then have "a \<in> alive (hm_heap m)"
    using assms(1) bucket_alive [of hs "hm_nslot m" "hm_heap m" "hm_table m" bl "set xs" _ a]
      List_find_SomeD [OF assms(2)] by (auto simp: hmap_ok_def)
  then show ?thesis
    using assms by (simp add: hmap_get_data_def hmap_find_bucket hget_alive fld_alive)
qed

text \<open>\<^verbatim>\<open>insert\<close> does not test for an existing entry. After two insertions under one key a lookup
  finds the newer value, but \<^verbatim>\<open>rehash\<close> rebuilds every bucket in reverse, and the same lookup then
  finds the older value.\<close>

lemma hmap_rehash_duplicates:
  assumes wf: "hmap_wf hs m" and k: "k \<notin> fst ` set (hmap_items m)" and n: "0 < n" "unat n < 2 ^ 29"
  shows "\<exists>m1 m2 m3. hmap_insert hs k v1 m = Inr m1 \<and> hmap_insert hs k v2 m1 = Inr m2 \<and>
    hmap_get_data hs k m2 = Inr v2 \<and> hmap_rehash hs n m2 = Inr m3 \<and>
    hmap_items m3 = hmap_items m2 \<and> hmap_get_data hs k m3 = Inr v1"
proof -
  obtain bl xs where ok: "hmap_ok hs m bl xs" using hmap_wfE [OF wf] .
  let ?a = "length (hm_heap m)"
  obtain m1 bl1 where m1: "hmap_insert hs k v1 m = Inr m1" "hmap_ok hs m1 bl1 (?a # xs)"
      "length (hm_heap m1) = Suc ?a" "hkey (hm_heap m1) = (hkey (hm_heap m))(?a := Some k)"
      "fld he_data (hm_heap m1) = (fld he_data (hm_heap m))(?a := v1)"
    using hmap_insert_ok [OF ok, of k v1] by blast
  obtain m2 where m2: "hmap_insert hs k v2 m1 = Inr m2"
      "hmap_ok hs m2 (bl1(unat (hs k mod hm_nslot m1) := Suc ?a # bl1 (unat (hs k mod hm_nslot m1)))) (Suc ?a # ?a # xs)"
      "hkey (hm_heap m2) = (hkey (hm_heap m1))(Suc ?a := Some k)" "hm_nslot m2 = hm_nslot m1"
      "fld he_data (hm_heap m2) = (fld he_data (hm_heap m1))(Suc ?a := v2)"
    using hmap_insert_ok [OF m1(2), of k v2] m1(3) by auto
  have "hmap_get_data hs k m2 = Inr v2"
    using m2 by (subst hmap_get_bucket [OF m2(2), of k "Suc ?a"]) auto
  moreover obtain m3 where m3: "hmap_rehash hs n m2 = Inr m3" "hm_nslot m3 = n"
      "hmap_ok hs m3 (\<lambda>i. rev (filter (\<lambda>a. hslot hs n (hm_heap m2) a = i) (Suc ?a # ?a # xs))) (Suc ?a # ?a # xs)"
      "hmap_items m3 = hmap_items m2" "hkey (hm_heap m3) = hkey (hm_heap m2)"
      "fld he_data (hm_heap m3) = fld he_data (hm_heap m2)"
    using hmap_rehash_ok [OF m2(2) n] by blast
  moreover have "hmap_get_data hs k m3 = Inr v1"
  proof -
    let ?i = "unat (hs k mod n)"
    have fresh: "?a \<notin> set xs" "Suc ?a \<notin> set xs"
      using ok alive_less [of _ "hm_heap m"] by (fastforce simp: hmap_ok_def list_ok_def)+
    have old: "the (hkey (hm_heap m3) b) \<noteq> k" if "b \<in> set xs" for b
      using that k fresh m1(4) m2(3) m3(5) by (auto simp: hmap_items_ok [OF ok] image_iff)
    have slots: "hslot hs n (hm_heap m2) ?a = ?i" "hslot hs n (hm_heap m2) (Suc ?a) = ?i"
      using m1(4) m2(3) by (simp_all add: hslot_def)
    let ?r = "rev (filter (\<lambda>a. hslot hs n (hm_heap m2) a = ?i) xs)"
    have "List.find (\<lambda>b. the (hkey (hm_heap m3) b) = k) (?r @ [?a, Suc ?a]) = Some ?a"
    proof -
      have "List.find (\<lambda>b. the (hkey (hm_heap m3) b) = k) ?r = None"
        using old by (intro List_find_none) auto
      then show ?thesis using m1(4) m2(3) m3(5) by (simp add: List_find_append)
    qed
    then show ?thesis
      using slots m3 m2 m1 by (subst hmap_get_bucket [OF m3(3), of k ?a]) auto
  qed
  ultimately show ?thesis using m1(1) m2(1) by blast
qed

lemma str_hash_loop_cstr: "str_hash_loop h s = str_hash_loop h (cstr s)"
  by (induction s arbitrary: h) (auto simp: cstr_def)

lemma find_loop_cong:
  assumes "seg (fld he_next hp) pv p h xs None" and "set xs \<subseteq> alive hp" and "length xs \<le> n"
    and "\<And>a. a \<in> set xs \<Longrightarrow> eq (the (hkey hp a)) = eq' (the (hkey hp a))"
  shows "find_loop eq hp n h = find_loop eq' hp n h"
  using find_loop_seg [OF assms(1-3)] assms(4) by (auto intro: find_cong)

text \<open>The search by a C string, which skips the construction of a \<^verbatim>\<open>string_t\<close>, gives the entry that
  the search by the equal \<^verbatim>\<open>string_t\<close> key gives, in every table whose keys are C strings: the two
  overloads agree on the hash value and on the comparison.\<close>

lemma hmap_find_cstr_eq:
  assumes wf: "hmap_wf str_hash m" and keys: "\<forall>k \<in> fst ` set (hmap_items m). 0 \<notin> set k"
  shows "hmap_find_cstr (k @ 0 # junk) m = hmap_find str_hash (cstr k) m"
proof -
  let ?hp = "hm_heap m" and ?n = "hm_nslot m"
  obtain bl xs where ok: "hmap_ok str_hash m bl xs" using hmap_wfE [OF wf] .
  then have b: "buckets_ok str_hash ?n ?hp (hm_table m) bl (set xs)" by (simp add: hmap_ok_def)
  then have n: "0 < ?n" "length (hm_table m) = unat ?n" by (simp_all add: buckets_ok_def)
  have c: "cstr (k @ 0 # junk) = cstr k" "cstr (cstr k) = cstr k"
    by (induction k) (auto simp: cstr_def dest: set_takeWhileD)
  have h: "str_hash (k @ 0 # junk) = str_hash (cstr k)"
    using str_hash_loop_cstr [of 0 "k @ 0 # junk"] by (simp add: str_hash_def c)
  let ?i = "unat (str_hash (cstr k) mod ?n)"
  have i: "?i < unat ?n" using n slot_bound by simp
  have sub: "set (bl ?i) \<subseteq> alive ?hp" using bucket_alive [OF b i] by blast
  have "find_loop (\<lambda>x. cstr x = cstr k) ?hp (length ?hp) (hm_table m ! ?i) =
      find_loop (\<lambda>x. x = cstr k) ?hp (length ?hp) (hm_table m ! ?i)"
  proof (rule find_loop_cong [OF _ sub bucket_length [OF b i]])
    show "seg (fld he_next ?hp) (fld he_prev ?hp) None (hm_table m ! ?i) (bl ?i) None"
      using b i by (simp add: buckets_ok_def dll_def)
    fix a assume "a \<in> set (bl ?i)"
    then have "a \<in> set xs" using bucket_alive [OF b i] by blast
    then have "0 \<notin> set (the (hkey ?hp a))" using keys by (auto simp: hmap_items_ok [OF ok])
    then have "cstr (the (hkey ?hp a)) = the (hkey ?hp a)"
      unfolding cstr_def takeWhile_eq_all_conv by metis
    then show "(cstr (the (hkey ?hp a)) = cstr k) = (the (hkey ?hp a) = cstr k)" by simp
  qed
  then show ?thesis
    using n i h by (simp add: hmap_find_cstr_def hmap_find_def slot_of_ok table_get_def c)
qed

text \<open>The iteration list as an LRU queue: a used entry is detached and attached at the head.\<close>

definition hmap_touch :: "nat \<Rightarrow> ('k, 'v) hmap_t \<Rightarrow> ('k, 'v) hmap_t res" where
  "hmap_touch a m = rbind (hmap_detach_link (Some a) m) (hmap_attach_link_head (Some a))"

text \<open>C31: The usage of the header as an LRU queue: detaching an entry from the list and attaching it
  at the head moves its pair to the front, keeps the others in order and changes no lookup.\<close>

theorem hmap_lru:
  assumes wf: "hmap_wf hs m" and fnd: "hmap_find hs k m = Inr (Some a)"
  shows "\<exists>m' v. hmap_touch a m = Inr m' \<and> hmap_items m' = (k, v) # drop_key k (hmap_items m) \<and>
    hmap_wf hs m' \<and> (\<forall>k'. hmap_get_data hs k' m' = hmap_get_data hs k' m)"
proof -
  let ?hp = "hm_heap m"
  let ?K = "\<lambda>a. the (hkey ?hp a)" and ?D = "fld he_data ?hp"
  obtain bl xs where ok: "hmap_ok hs m bl xs" and d: "distinct (map ?K xs)" using hmap_wfE [OF wf] .
  have a: "a \<in> set xs" "?K a = k"
    using fnd hmap_find_ok [OF ok d, of k] List_find_SomeD [of "\<lambda>a. ?K a = k" xs a] by auto
  have b: "buckets_ok hs (hm_nslot m) ?hp (hm_table m) bl (set xs)" and l: "list_ok ?hp (hm_link_head m) xs"
    using ok by (simp_all add: hmap_ok_def)
  obtain hp1 h1 where r1: "hmap_detach_link (Some a) m = Inr (m\<lparr>hm_heap := hp1, hm_link_head := h1\<rparr>)"
      "list_ok hp1 h1 (remove1 a xs)" "same_buckets ?hp hp1"
    using detach_link_ok [OF l a(1)] by blast
  let ?m1 = "m\<lparr>hm_heap := hp1, hm_link_head := h1\<rparr>"
  have dist: "distinct xs" "a \<in> alive ?hp" using l a(1) by (auto simp: list_ok_def)
  obtain hp2 where r2: "hmap_attach_link_head (Some a) ?m1 = Inr (?m1\<lparr>hm_heap := hp2, hm_link_head := Some a\<rparr>)"
      "list_ok hp2 (Some a) (a # remove1 a xs)" "same_buckets hp1 hp2"
    using attach_link_ok [of ?m1 "remove1 a xs" a] r1 dist by (auto simp: same_buckets_def)
  define m2 where "m2 = ?m1\<lparr>hm_heap := hp2, hm_link_head := Some a\<rparr>"
  have hp2: "hm_heap m2 = hp2" "hm_link_head m2 = Some a" "hm_nslot m2 = hm_nslot m"
      "hm_table m2 = hm_table m" "hm_size m2 = hm_size m" by (simp_all add: m2_def)
  have same: "same_buckets ?hp hp2" using r1(3) r2(3) by (simp add: same_buckets_def)
  have st: "set (a # remove1 a xs) = set xs" "length (a # remove1 a xs) = length xs"
    using dist a(1) length_pos_if_in_set [OF a(1)] by (auto simp: length_remove1)
  have ok2: "hmap_ok hs m2 bl (a # remove1 a xs)"
    unfolding hmap_ok_def st hp2 using ok same_buckets_ok [OF same b] r2(2) by (simp add: hmap_ok_def)
  have it2: "hmap_items m2 = (k, ?D a) # drop_key k (hmap_items m)"
    unfolding hmap_items_ok [OF ok2] hmap_items_ok [OF ok]
    using same a(2) remove1_filter_key [OF d a(1), of ?D] by (simp add: same_buckets_def hp2)
  have "distinct (map fst (hmap_items m2))"
    using wf by (auto simp: it2 hmap_wf_def drop_key_def distinct_map_filter)
  then have wf2: "hmap_wf hs m2" using hmap_wfI [OF ok2] by simp
  have val: "lookup_val (hmap_items m) k = ?D a"
  proof -
    have "List.find (\<lambda>a. ?K a = k) xs = Some a" using hmap_find_ok [OF ok d, of k] fnd by simp
    then show ?thesis by (simp add: hmap_items_ok [OF ok] lookup_val_find)
  qed
  then have "lookup_val (hmap_items m2) k' = lookup_val (hmap_items m) k'" for k'
    by (simp add: it2 lookup_drop_key)
  then have "\<forall>k'. hmap_get_data hs k' m2 = hmap_get_data hs k' m"
    using wf wf2 by (simp add: hmap_get_ok)
  moreover have "hmap_touch a m = Inr m2" using r1(1) r2(1) by (simp add: hmap_touch_def m2_def)
  ultimately show ?thesis using it2 wf2 by blast
qed

theorem hmap_lru_witness:
  "\<exists>m1 m2 m'. hmap_insert do_hash_uint 1 (Some CHR ''a'') (hmap_new 2) = Inr m1 \<and>
     hmap_insert do_hash_uint 2 (Some CHR ''b'') m1 = Inr m2 \<and> hmap_touch 0 m2 = Inr m' \<and>
     (\<exists>v. hmap_items m' = [(1, v), (2, Some CHR ''b'')])"
proof -
  obtain m1 where m1: "hmap_insert do_hash_uint 1 (Some CHR ''a'') (hmap_new 2) = Inr m1"
      "hmap_wf do_hash_uint m1" "hmap_items m1 = [(1, Some CHR ''a'')]"
    using hash_table.put_law [OF hmap_new_wf [of 2 do_hash_uint], of 1 "Some CHR ''a''"]
    by (auto simp: hmap_new_items)
  moreover obtain m2 where m2: "hmap_insert do_hash_uint 2 (Some CHR ''b'') m1 = Inr m2"
      "hmap_wf do_hash_uint m2" "hmap_items m2 = [(2, Some CHR ''b''), (1, Some CHR ''a'')]"
    using hash_table.put_law [OF m1(2), of 2 "Some CHR ''b''"] m1(3) by auto
  moreover have "hmap_find do_hash_uint 1 m2 = Inr (Some 0)"
    using m1(1) m2(1)
    by (auto simp: hmap_insert_def hmap_new_def alloc_table_def slot_of_def do_hash_uint_def hnew_def
        bucket_push_def table_get_def hupd_opt_def hupd_def hget_def hmap_attach_link_head_def hmap_find_def Let_def)
  ultimately show ?thesis
    using hmap_lru [of do_hash_uint m2 1 0] by (fastforce simp: drop_key_def)
qed

end
