(* ===== verification/Ax_String.thy ===== *)
theory Ax_String
  imports Ax_Prelude
begin

text \<open>
  The string class \<^verbatim>\<open>string_t\<close> of \<^verbatim>\<open>src/core/ax_string.h\<close> and \<^verbatim>\<open>ax_string.cc\<close>: a union of 24
  characters (strings of at most 22 characters, with their length in the last byte) and of a
  structure with a pointer to heap memory. The union is modelled as its 24 cells, so that what a
  write through one view does to the other view is visible; \<open>st_owned\<close> is the heap block the object
  was given, with its address. A C string of the caller is the list of its characters before the
  terminating zero; the address \<^verbatim>\<open>malloc\<close> returns is the argument \<open>adr\<close> of the operations that
  allocate.
\<close>

section \<open>C strings in memory\<close>

fun c_strlen :: "block \<Rightarrow> nat res" where
  "c_strlen [] = Inl Mem_error"
| "c_strlen (None # b) = Inl Mem_error"
| "c_strlen (Some c # b) = (if c = 0 then Inr 0 else rbind (c_strlen b) (\<lambda>n. Inr (Suc n)))"

definition c_strcpy :: "block \<Rightarrow> u8 list \<Rightarrow> block res" where
  "c_strcpy dst s = blk_write dst 0 (map Some (s @ [0]))"

definition c_strcat :: "block \<Rightarrow> u8 list \<Rightarrow> block res" where
  "c_strcat dst s = rbind (c_strlen dst) (\<lambda>n. blk_write dst n (map Some (s @ [0])))"

definition c_string :: "block \<Rightarrow> u8 list res" where
  "c_string b = rbind (c_strlen b) (\<lambda>n. cells_bytes (take n b))"

text \<open>\<^verbatim>\<open>strncpy\<close> copies at most \<open>n\<close> characters and fills up with zeros.\<close>

definition c_strncpy :: "block \<Rightarrow> u8 list \<Rightarrow> nat \<Rightarrow> block res" where
  "c_strncpy dst s n = blk_write dst 0 (map Some (take n s @ replicate (n - length s) 0))"

text \<open>A string literal.\<close>

definition c_lit :: "string \<Rightarrow> u8 list" where
  "c_lit s = map of_char s"

definition le64 :: "u64 \<Rightarrow> u8 list" where
  "le64 w = le32 (ucast w) @ le32 (ucast (drop_bit 32 w))"

definition un_le64 :: "u8 list \<Rightarrow> u64" where
  "un_le64 bs = ucast (un_le32 (take 4 bs)) OR push_bit 32 (ucast (un_le32 (drop 4 bs)))"

section \<open>The class\<close>

record string_t =
  st_small :: block
  st_owned :: "(u64 \<times> block) option"

definition LAST_CHAR :: nat where "LAST_CHAR = 23"
definition MAX_SMALL_LEN :: nat where "MAX_SMALL_LEN = 22"
definition SMALL_STR :: u8 where "SMALL_STR = 0"
definition LARGER_STR :: u8 where "LARGER_STR = 0x80"
definition TYPE_MASK :: u8 where "TYPE_MASK = 0x80"

definition st_get :: "nat \<Rightarrow> nat \<Rightarrow> string_t \<Rightarrow> u8 list res" where
  "st_get off n s = rbind (blk_read (st_small s) off n) cells_bytes"

definition st_put :: "nat \<Rightarrow> u8 list \<Rightarrow> string_t \<Rightarrow> string_t res" where
  "st_put off bs s = rbind (blk_write (st_small s) off (map Some bs)) (\<lambda>b. Inr (s\<lparr>st_small := b\<rparr>))"

text \<open>The members of \<^verbatim>\<open>LargerStr\<close>.\<close>

definition set_data :: "u64 \<Rightarrow> block \<Rightarrow> string_t \<Rightarrow> string_t res" where
  "set_data adr b s = rbind (st_put 0 (le64 adr) s) (\<lambda>s. Inr (s\<lparr>st_owned := Some (adr, b)\<rparr>))"

definition get_data_blk :: "string_t \<Rightarrow> block res" where
  "get_data_blk s = rbind (st_get 0 8 s) (\<lambda>bs.
     case st_owned s of None \<Rightarrow> Inl Mem_error
     | Some (adr, b) \<Rightarrow> if un_le64 bs = adr then Inr b else Inl Mem_error)"

definition set_data_blk :: "block \<Rightarrow> string_t \<Rightarrow> string_t" where
  "set_data_blk b s = s\<lparr>st_owned := map_option (\<lambda>(adr, _). (adr, b)) (st_owned s)\<rparr>"

definition get_len :: "string_t \<Rightarrow> u32 res" where
  "get_len s = rbind (st_get 8 4 s) (\<lambda>bs. Inr (un_le32 bs))"

definition set_len :: "u32 \<Rightarrow> string_t \<Rightarrow> string_t res" where
  "set_len n s = st_put 8 (le32 n) s"

definition get_capacity :: "string_t \<Rightarrow> u32 res" where
  "get_capacity s = rbind (st_get 12 4 s) (\<lambda>bs. Inr (un_le32 bs))"

definition set_capacity :: "u32 \<Rightarrow> string_t \<Rightarrow> string_t res" where
  "set_capacity n s = st_put 12 (le32 n) s"

definition get_type_char :: "string_t \<Rightarrow> u8 res" where
  "get_type_char s = rbind (st_get LAST_CHAR 1 s) (\<lambda>bs. Inr (hd bs))"

definition set_type_char :: "u8 \<Rightarrow> string_t \<Rightarrow> string_t res" where
  "set_type_char c s = st_put LAST_CHAR [c] s"

definition string_type :: "string_t \<Rightarrow> u8 res" where
  "string_type s = rbind (get_type_char s) (\<lambda>c. Inr (c AND TYPE_MASK))"

definition string_len :: "string_t \<Rightarrow> u32 res" where
  "string_len s = rbind (string_type s) (\<lambda>t.
     if t = SMALL_STR then rbind (get_type_char s) (\<lambda>c. Inr (ucast (c AND NOT TYPE_MASK)))
     else get_len s)"

definition string_capacity :: "string_t \<Rightarrow> u32 res" where
  "string_capacity s = rbind (string_type s) (\<lambda>t.
     if t = SMALL_STR then Inr (of_nat MAX_SMALL_LEN) else get_capacity s)"

section \<open>Operations\<close>

definition string_new :: string_t where
  "string_new = \<lparr>st_small = replicate 24 (Some 0), st_owned = None\<rparr>"

text \<open>The object before a constructor has run.\<close>

definition string_raw :: string_t where
  "string_raw = \<lparr>st_small = replicate 24 None, st_owned = None\<rparr>"

text \<open>The copy of another string's representation into an object without heap memory, shared by the
  copy constructor and the assignment operator.\<close>

definition string_take :: "u64 \<Rightarrow> string_t \<Rightarrow> string_t \<Rightarrow> string_t res" where
  "string_take adr rhs s =
     rbind (string_type rhs) (\<lambda>t.
     if t = SMALL_STR then Inr (s\<lparr>st_small := st_small rhs\<rparr>)
     else rbind (get_len rhs) (\<lambda>n.
       let alloc_size = unat (n + 1) in
       rbind (get_data_blk rhs) (\<lambda>src.
       rbind (blk_read src 0 alloc_size) (\<lambda>cs.
       rbind (blk_write (malloc_blk alloc_size) 0 cs) (\<lambda>b.
       rbind (set_data adr b s) (\<lambda>s.
       rbind (set_len n s) (\<lambda>s.
       rbind (set_capacity n s) (\<lambda>s.
       rbind (get_type_char rhs) (\<lambda>c. set_type_char c s)))))))))"

definition string_copy :: "u64 \<Rightarrow> string_t \<Rightarrow> string_t res" where
  "string_copy adr rhs = string_take adr rhs string_raw"

definition string_of_cstr :: "u64 \<Rightarrow> u8 list option \<Rightarrow> string_t res" where
  "string_of_cstr adr cstr =
     (case cstr of None \<Rightarrow> Inr string_new
      | Some s \<Rightarrow>
          let n = (of_nat (length s) :: u32) in
          if unat n \<le> MAX_SMALL_LEN \<and> unat n < LAST_CHAR then
            rbind (st_put 0 (take (unat n) s) string_new) (\<lambda>t.
            rbind (get_type_char t) (\<lambda>c. set_type_char (c OR (ucast n AND NOT TYPE_MASK)) t))
          else
            let alloc_size = unat (n + 1) in
            rbind (set_len n string_new) (\<lambda>t.
            rbind (set_capacity n t) (\<lambda>t.
            rbind (blk_write (malloc_blk alloc_size) 0 (map Some (take alloc_size (s @ [0])))) (\<lambda>b.
            rbind (set_data adr b t) (\<lambda>t. set_type_char LARGER_STR t)))))"

definition string_clear :: "string_t \<Rightarrow> string_t res" where
  "string_clear s =
     rbind (string_type s) (\<lambda>t.
     rbind (if t = LARGER_STR then rbind (get_data_blk s) (\<lambda>_. Inr (s\<lparr>st_owned := None\<rparr>)) else Inr s) (\<lambda>s.
       Inr (s\<lparr>st_small := replicate 24 (Some 0)\<rparr>)))"

text \<open>\<^verbatim>\<open>operator=\<close>; \<open>self\<close> says that both sides are the same object.\<close>

definition string_assign_op :: "u64 \<Rightarrow> bool \<Rightarrow> string_t \<Rightarrow> string_t \<Rightarrow> string_t res" where
  "string_assign_op adr self rhs s =
     rbind (string_clear s) (\<lambda>s'. string_take adr (if self then s' else rhs) s')"

definition string_assign :: "u64 \<Rightarrow> u8 list \<Rightarrow> string_t \<Rightarrow> string_t res" where
  "string_assign adr cs s =
     (let n = (of_nat (length cs) :: u32) in
      rbind (string_clear s) (\<lambda>s.
      if unat n > MAX_SMALL_LEN then
        let alloc_size = unat (n + 1) in
        rbind (set_data adr (malloc_blk alloc_size) s) (\<lambda>s.
        rbind (set_capacity n s) (\<lambda>s.
        rbind (get_data_blk s) (\<lambda>b.
        rbind (c_strcpy b cs) (\<lambda>b.
        rbind (set_len n (set_data_blk b s)) (\<lambda>s. set_type_char LARGER_STR s)))))
      else
        rbind (c_strcpy (st_small s) cs) (\<lambda>b.
          set_type_char (ucast n AND NOT TYPE_MASK) (s\<lparr>st_small := b\<rparr>))))"

definition string_c_str :: "string_t \<Rightarrow> u8 list res" where
  "string_c_str s = rbind (string_type s) (\<lambda>t.
     if t = SMALL_STR then c_string (st_small s) else rbind (get_data_blk s) c_string)"

text \<open>\<^verbatim>\<open>equal(const char*)\<close>; \<^verbatim>\<open>strcmp\<close> compares up to the zeros.\<close>

definition string_equal_cstr :: "u8 list option \<Rightarrow> string_t \<Rightarrow> bool res" where
  "string_equal_cstr cstr s =
     (case cstr of None \<Rightarrow> Inr False
      | Some cs \<Rightarrow> rbind (string_len s) (\<lambda>n.
          if (of_nat (length cs) :: u32) \<noteq> n then Inr False
          else rbind (string_c_str s) (\<lambda>ds. Inr (ds = cs))))"

definition string_equal :: "string_t \<Rightarrow> string_t \<Rightarrow> bool res" where
  "string_equal rhs s = rbind (string_c_str rhs) (\<lambda>cs. string_equal_cstr (Some cs) s)"

definition string_expand :: "u64 \<Rightarrow> u32 \<Rightarrow> string_t \<Rightarrow> string_t res" where
  "string_expand adr n s =
     (let alloc_size = unat (n + 1) in
      if unat n < MAX_SMALL_LEN then Inr s
      else rbind (string_len s) (\<lambda>slen.
      rbind (string_type s) (\<lambda>t.
      let fin = (\<lambda>s. rbind (set_capacity n s) (\<lambda>s. rbind (set_len slen s) (\<lambda>s. set_type_char LARGER_STR s))) in
      if t = SMALL_STR then
        rbind (if slen > 0 then rbind (c_string (st_small s)) (c_strcpy (replicate 23 None))
               else Inr (replicate 23 None)) (\<lambda>tmp.
        rbind (c_string tmp) (\<lambda>cs.
        rbind (c_strcpy (replicate alloc_size (Some 0)) cs) (\<lambda>b.
        rbind (set_data adr b s) fin)))
      else rbind (get_capacity s) (\<lambda>cap.
        if n > cap then
          rbind (get_data_blk s) (\<lambda>b.
          rbind (set_data adr (realloc_blk (Some b) alloc_size) s) fin)
        else Inr s))))"

definition string_strcat :: "u64 \<Rightarrow> u8 list \<Rightarrow> string_t \<Rightarrow> string_t res" where
  "string_strcat adr cs s =
     rbind (string_len s) (\<lambda>slen.
     let new_len = of_nat (length cs) + slen in
     rbind (string_capacity s) (\<lambda>cap.
     rbind (if new_len > cap then string_expand adr new_len s else Inr s) (\<lambda>s.
     if unat new_len > MAX_SMALL_LEN then
       rbind (get_data_blk s) (\<lambda>b.
       rbind (c_strcat b cs) (\<lambda>b. set_len new_len (set_data_blk b s)))
     else
       rbind (c_strcat (st_small s) cs) (\<lambda>b.
       rbind (get_type_char (s\<lparr>st_small := b\<rparr>)) (\<lambda>c.
       set_type_char ((c AND TYPE_MASK) OR (ucast new_len AND NOT TYPE_MASK)) (s\<lparr>st_small := b\<rparr>))))))"

definition string_strcat_str :: "u64 \<Rightarrow> string_t \<Rightarrow> string_t \<Rightarrow> string_t res" where
  "string_strcat_str adr rhs s = rbind (string_c_str rhs) (\<lambda>cs. string_strcat adr cs s)"

section \<open>The two views of the union\<close>

lemma un_le64_le64 [simp]: "un_le64 (le64 w) = w"
proof -
  have "take 4 (le64 w) = le32 (ucast w)" "drop 4 (le64 w) = le32 (ucast (drop_bit 32 w))"
    by (simp_all add: le64_def)
  moreover have "ucast (ucast w :: u32) OR push_bit 32 (ucast (ucast (drop_bit 32 w) :: u32)) = w"
    by (rule bit_word_eqI) (auto simp: bit_simps)
  ultimately show ?thesis by (simp add: un_le64_def)
qed

lemma length_le64 [simp]: "length (le64 w) = 8"
  by (simp add: le64_def)

text \<open>The cells of the union by member: \<^verbatim>\<open>data_\<close>, \<^verbatim>\<open>len_\<close>, \<^verbatim>\<open>capacity_\<close>, the unused bytes and the
  type byte.\<close>

definition lay :: "block \<Rightarrow> block \<Rightarrow> block \<Rightarrow> block \<Rightarrow> cell \<Rightarrow> block" where
  "lay a b c d e = a @ b @ c @ d @ [e]"

definition lay_ok :: "block \<Rightarrow> block \<Rightarrow> block \<Rightarrow> block \<Rightarrow> bool" where
  "lay_ok a b c d \<longleftrightarrow> length a = 8 \<and> length b = 4 \<and> length c = 4 \<and> length d = 7"

lemma lay_put:
  assumes "lay_ok a b c d" and "st_small s = lay a b c d e"
  shows "length bs = 8 \<Longrightarrow> st_put 0 bs s = Inr (s\<lparr>st_small := lay (map Some bs) b c d e\<rparr>)"
    and "length bs = 4 \<Longrightarrow> st_put 8 bs s = Inr (s\<lparr>st_small := lay a (map Some bs) c d e\<rparr>)"
    and "length bs = 4 \<Longrightarrow> st_put 12 bs s = Inr (s\<lparr>st_small := lay a b (map Some bs) d e\<rparr>)"
    and "st_put LAST_CHAR [x] s = Inr (s\<lparr>st_small := lay a b c d (Some x)\<rparr>)"
  using assms by (auto simp: lay_def lay_ok_def st_put_def LAST_CHAR_def blk_write_def)

text \<open>The same for states written out, with the setters of the members.\<close>

definition st :: "block \<Rightarrow> block \<Rightarrow> block \<Rightarrow> block \<Rightarrow> cell \<Rightarrow> (u64 \<times> block) option \<Rightarrow> string_t" where
  "st a b c d e w = \<lparr>st_small = lay a b c d e, st_owned = w\<rparr>"

lemma st_setters:
  assumes "lay_ok a b c d"
  shows "set_data adr v (st a b c d e w) = Inr (st (map Some (le64 adr)) b c d e (Some (adr, v)))"
    and "set_len n (st a b c d e w) = Inr (st a (map Some (le32 n)) c d e w)"
    and "set_capacity n (st a b c d e w) = Inr (st a b (map Some (le32 n)) d e w)"
    and "set_type_char x (st a b c d e w) = Inr (st a b c d (Some x) w)"
  using lay_put [OF assms, of "st a b c d e w" e]
  by (simp_all add: set_data_def set_len_def set_capacity_def set_type_char_def st_def)

lemma st_cases:
  assumes "length (st_small s) = 24"
  obtains a b c d e where "s = st a b c d e (st_owned s)" and "lay_ok a b c d"
proof
  let ?b = "st_small s"
  have "take 4 (drop 8 ?b) @ drop 12 ?b = drop 8 ?b" "take 4 (drop 12 ?b) @ drop 16 ?b = drop 12 ?b"
      "take 7 (drop 16 ?b) @ drop 23 ?b = drop 16 ?b"
    using append_take_drop_id [of 4 "drop 8 ?b"] append_take_drop_id [of 4 "drop 12 ?b"]
      append_take_drop_id [of 7 "drop 16 ?b"] by (simp_all only: drop_drop) simp_all
  then have "?b = take 8 ?b @ take 4 (drop 8 ?b) @ take 4 (drop 12 ?b) @ take 7 (drop 16 ?b) @ drop 23 ?b"
    by (simp only: append_take_drop_id)
  moreover have "drop 23 ?b = [?b ! 23]" using assms by (intro nth_equalityI) auto
  ultimately show "s = st (take 8 ?b) (take 4 (drop 8 ?b)) (take 4 (drop 12 ?b)) (take 7 (drop 16 ?b)) (?b ! 23) (st_owned s)"
    by (simp add: st_def lay_def)
  show "lay_ok (take 8 ?b) (take 4 (drop 8 ?b)) (take 4 (drop 12 ?b)) (take 7 (drop 16 ?b))"
    using assms by (simp add: lay_ok_def)
qed

lemma lay_get:
  assumes "lay_ok a b c d" and "st_small s = lay a b c d e"
  shows "a = map Some x \<Longrightarrow> st_get 0 8 s = Inr x"
    and "b = map Some x \<Longrightarrow> st_get 8 4 s = Inr x"
    and "c = map Some x \<Longrightarrow> st_get 12 4 s = Inr x"
    and "e = Some y \<Longrightarrow> st_get LAST_CHAR (Suc 0) s = Inr [y]"
  using assms by (auto simp: lay_def lay_ok_def st_get_def LAST_CHAR_def blk_read_def)

lemma lay_replicate: "replicate 24 x = lay (replicate 8 x) (replicate 4 x) (replicate 4 x) (replicate 7 x) x"
  by (simp add: lay_def numeral_eq_Suc)

lemma lay_ok_replicate [simp]: "lay_ok (replicate 8 x) (replicate 4 y) (replicate 4 z) (replicate 7 w)"
  by (simp add: lay_ok_def)

section \<open>Represented strings\<close>

text \<open>The string \<open>cs\<close> in the small and in the large representation.\<close>

definition small_rep :: "u8 list \<Rightarrow> string_t \<Rightarrow> bool" where
  "small_rep cs s \<longleftrightarrow> st_small s = map Some (cs @ replicate (23 - length cs) 0 @ [of_nat (length cs)]) \<and>
     length cs \<le> 22 \<and> 0 \<notin> set cs \<and> st_owned s = None"

definition large_rep :: "u8 list \<Rightarrow> nat \<Rightarrow> string_t \<Rightarrow> bool" where
  "large_rep cs cap s \<longleftrightarrow> (\<exists>adr b d. length d = 7 \<and>
     st_small s = lay (map Some (le64 adr)) (map Some (le32 (of_nat (length cs))))
       (map Some (le32 (of_nat cap))) d (Some LARGER_STR) \<and>
     st_owned s = Some (adr, b) \<and> length b = cap + 1 \<and> take (Suc (length cs)) b = map Some (cs @ [0]) \<and>
     length cs \<le> cap \<and> cap + 1 < 2 ^ 32 \<and> 0 \<notin> set cs)"

definition string_rep :: "u8 list \<Rightarrow> string_t \<Rightarrow> bool" where
  "string_rep cs s \<longleftrightarrow> small_rep cs s \<or> (\<exists>cap. large_rep cs cap s)"

lemma c_strlen_prefix:
  "0 \<notin> set cs \<Longrightarrow> c_strlen (map Some cs @ Some 0 # b) = Inr (length cs)"
  by (induction cs) auto

lemma c_string_prefix:
  "0 \<notin> set cs \<Longrightarrow> c_string (map Some cs @ Some 0 # b) = Inr cs"
  by (simp add: c_string_def c_strlen_prefix)

lemma take_Suc_prefix:
  assumes "take (Suc (length cs)) b = map Some (cs @ [0])"
  shows "b = map Some cs @ Some 0 # drop (Suc (length cs)) b"
  using append_take_drop_id [of "Suc (length cs)" b] unfolding assms by simp

lemma small_len_byte:
  assumes "n \<le> 22"
  shows "(of_nat n :: u8) AND TYPE_MASK = 0" and "(of_nat n :: u8) AND NOT TYPE_MASK = of_nat n"
    and "(ucast (of_nat n :: u8) :: u32) = of_nat n" and "ucast (of_nat n :: u32) = (of_nat n :: u8)"
proof -
  have "n \<in> set [0..<23]" using assms by simp
  then show "(of_nat n :: u8) AND TYPE_MASK = 0" "(of_nat n :: u8) AND NOT TYPE_MASK = of_nat n"
      "(ucast (of_nat n :: u8) :: u32) = of_nat n" "ucast (of_nat n :: u32) = (of_nat n :: u8)"
    by (auto simp: upt_rec TYPE_MASK_def)
qed

lemma small_rep_type:
  assumes "small_rep cs s"
  shows "get_type_char s = Inr (of_nat (length cs))" and "string_type s = Inr SMALL_STR"
    and "string_len s = Inr (of_nat (length cs))" and "string_capacity s = Inr (of_nat MAX_SMALL_LEN)"
    and "string_c_str s = Inr cs"
proof -
  have n: "length cs \<le> 22" and z: "0 \<notin> set cs"
    and sm: "st_small s = map Some (cs @ replicate (23 - length cs) 0) @ [Some (of_nat (length cs))]"
    using assms by (auto simp: small_rep_def)
  note byte = small_len_byte [OF n]
  show ty: "get_type_char s = Inr (of_nat (length cs))"
    using n by (simp add: get_type_char_def st_get_def LAST_CHAR_def blk_read_def sm)
  then show ty2: "string_type s = Inr SMALL_STR" by (simp add: string_type_def byte SMALL_STR_def)
  show "string_len s = Inr (of_nat (length cs))" using ty ty2 by (simp add: string_len_def byte)
  show "string_capacity s = Inr (of_nat MAX_SMALL_LEN)" using ty2 by (simp add: string_capacity_def)
  have "23 - length cs = Suc (22 - length cs)" using n by simp
  then have "st_small s = map Some cs @ Some 0 # (replicate (22 - length cs) (Some 0) @ [Some (of_nat (length cs))])"
    using sm by simp
  then show "string_c_str s = Inr cs" using c_string_prefix [OF z] ty2 by (simp add: string_c_str_def)
qed

lemma large_rep_type:
  assumes "large_rep cs cap s"
  shows "get_type_char s = Inr LARGER_STR" and "string_type s = Inr LARGER_STR"
    and "string_len s = Inr (of_nat (length cs))" and "string_capacity s = Inr (of_nat cap)"
    and "get_len s = Inr (of_nat (length cs))" and "get_capacity s = Inr (of_nat cap)"
    and "\<exists>b adr. get_data_blk s = Inr b \<and> st_owned s = Some (adr, b) \<and> length b = cap + 1 \<and>
      b = map Some cs @ Some 0 # drop (Suc (length cs)) b"
    and "string_c_str s = Inr cs"
proof -
  obtain adr b d where d: "length d = 7"
    and sm: "st_small s = lay (map Some (le64 adr)) (map Some (le32 (of_nat (length cs))))
       (map Some (le32 (of_nat cap))) d (Some LARGER_STR)"
    and own: "st_owned s = Some (adr, b)" "length b = cap + 1"
    and b: "take (Suc (length cs)) b = map Some (cs @ [0])" and z: "0 \<notin> set cs"
    using assms by (auto simp: large_rep_def)
  have "lay_ok (map Some (le64 adr)) (map Some (le32 (of_nat (length cs)))) (map Some (le32 (of_nat cap))) d"
    using d by (simp add: lay_ok_def)
  note get = lay_get [OF this sm]
  show ty: "get_type_char s = Inr LARGER_STR" by (simp add: get_type_char_def get)
  then show ty2: "string_type s = Inr LARGER_STR"
    by (simp add: string_type_def LARGER_STR_def TYPE_MASK_def)
  show len: "get_len s = Inr (of_nat (length cs))" by (simp add: get_len_def get)
  show cap: "get_capacity s = Inr (of_nat cap)" by (simp add: get_capacity_def get)
  show "string_len s = Inr (of_nat (length cs))" "string_capacity s = Inr (of_nat cap)"
    using ty2 len cap by (simp_all add: string_len_def string_capacity_def SMALL_STR_def LARGER_STR_def)
  have blk: "get_data_blk s = Inr b" by (simp add: get_data_blk_def get own)
  then show "\<exists>b adr. get_data_blk s = Inr b \<and> st_owned s = Some (adr, b) \<and> length b = cap + 1 \<and>
      b = map Some cs @ Some 0 # drop (Suc (length cs)) b"
    using own take_Suc_prefix [OF b] by blast
  have "string_c_str s = c_string b"
    using ty2 blk by (simp add: string_c_str_def SMALL_STR_def LARGER_STR_def)
  also have "\<dots> = Inr cs" using take_Suc_prefix [OF b] c_string_prefix [OF z] by metis
  finally show "string_c_str s = Inr cs" .
qed

lemma string_rep_len: "string_rep cs s \<Longrightarrow> string_len s = Inr (of_nat (length cs))"
  and string_rep_c_str: "string_rep cs s \<Longrightarrow> string_c_str s = Inr cs"
  by (auto simp: string_rep_def small_rep_type large_rep_type)

section \<open>Operations on represented strings\<close>

lemma large_repI:
  assumes "st_small s = lay (map Some (le64 adr)) (map Some (le32 (of_nat (length cs))))
       (map Some (le32 (of_nat cap))) d (Some LARGER_STR)"
    and "length d = 7" and "st_owned s = Some (adr, map Some (cs @ [0]) @ r)"
    and "cap = length cs + length r" and "cap + 1 < 2 ^ 32" and "0 \<notin> set cs"
  shows "large_rep cs cap s"
  unfolding large_rep_def using assms by (intro exI [of _ adr] exI) auto

lemma string_new_rep: "small_rep [] string_new"
  by (simp add: small_rep_def string_new_def numeral_eq_Suc)

lemma string_clear_ok:
  assumes "string_rep cs s"
  shows "string_clear s = Inr string_new"
  using assms unfolding string_rep_def
proof
  assume "small_rep cs s"
  then show ?thesis using small_rep_type [of cs s]
    by (simp add: string_clear_def SMALL_STR_def LARGER_STR_def string_new_def small_rep_def)
next
  assume "\<exists>cap. large_rep cs cap s"
  then obtain cap where l: "large_rep cs cap s" ..
  obtain b where "get_data_blk s = Inr b" using large_rep_type(7) [OF l] by blast
  then show ?thesis using large_rep_type(2) [OF l]
    by (simp add: string_clear_def string_new_def)
qed

lemma unat_succ_length: "n + 1 < 2 ^ 32 \<Longrightarrow> unat (of_nat n + 1 :: u32) = n + 1"
  using unat_of_nat_u32 [of "n + 1"] by (simp add: add.commute)

lemma unat_length: "n + 1 < 2 ^ 32 \<Longrightarrow> unat (of_nat n :: u32) = n"
  by (rule unat_of_nat_u32) simp

lemma string_of_cstr_rep:
  assumes z: "0 \<notin> set cs" and n: "length cs + 1 < 2 ^ 32"
  shows "\<exists>s. string_of_cstr adr (Some cs) = Inr s \<and>
    (if length cs \<le> 22 then small_rep cs s else large_rep cs (length cs) s)"
proof (cases "length cs \<le> 22")
  case True
  note byte = small_len_byte [OF True]
  let ?r = "replicate (23 - length cs) (0 :: u8)"
  have put: "st_put 0 cs string_new = Inr (string_new\<lparr>st_small := map Some (cs @ ?r @ [0])\<rparr>)"
  proof -
    have "24 - length cs = Suc (23 - length cs)" using True by simp
    then have "map Some (cs @ ?r @ [0]) = map Some cs @ replicate (24 - length cs) (Some 0)"
      by (simp add: replicate_append_same)
    then show ?thesis using True by (auto simp: st_put_def blk_write_def string_new_def)
  qed
  have ty: "get_type_char (string_new\<lparr>st_small := map Some (cs @ ?r @ [0])\<rparr>) = Inr 0"
    using True by (simp add: get_type_char_def st_get_def LAST_CHAR_def blk_read_def)
  have "set_type_char (of_nat (length cs)) (string_new\<lparr>st_small := map Some (cs @ ?r @ [0])\<rparr>) =
      Inr (string_new\<lparr>st_small := map Some (cs @ ?r @ [of_nat (length cs)])\<rparr>)"
    using True by (simp add: set_type_char_def st_put_def LAST_CHAR_def blk_write_def)
  then show ?thesis
    using True put ty byte z unat_length [OF n]
    by (simp add: string_of_cstr_def Let_def MAX_SMALL_LEN_def LAST_CHAR_def small_rep_def string_new_def)
next
  case False
  let ?n = "of_nat (length cs) :: u32" and ?b = "map Some (cs @ [0])"
  have b: "blk_write (malloc_blk (length cs + 1)) 0 ?b = Inr ?b"
    by (simp add: blk_write_def)
  let ?z = "\<lambda>k. replicate k (Some 0) :: block"
  have new: "string_new = st (?z 8) (?z 4) (?z 4) (?z 7) (Some 0) None"
    by (simp add: string_new_def st_def lay_replicate)
  let ?s = "st (map Some (le64 adr)) (map Some (le32 ?n)) (map Some (le32 ?n)) (?z 7) (Some LARGER_STR) (Some (adr, ?b))"
  have "string_of_cstr adr (Some cs) = Inr ?s"
    using False b unat_length [OF n] unat_succ_length [OF n]
    by (simp add: string_of_cstr_def Let_def MAX_SMALL_LEN_def new st_setters lay_ok_def)
  moreover have "large_rep cs (length cs) ?s"
    using z n by (intro large_repI [where r = "[]" and adr = adr and d = "?z 7"]) (simp_all add: st_def)
  ultimately show ?thesis using False by auto
qed

lemma string_take_ok:
  assumes rep: "string_rep cs rhs" and s: "length (st_small s) = 24" "st_owned s = None"
  shows "\<exists>s'. string_take adr rhs s = Inr s' \<and> string_rep cs s'"
  using rep [unfolded string_rep_def]
proof
  assume sm: "small_rep cs rhs"
  then show ?thesis using small_rep_type(2) [OF sm] s
    by (auto simp: string_take_def small_rep_def string_rep_def)
next
  assume "\<exists>cap. large_rep cs cap rhs"
  then obtain cap where l: "large_rep cs cap rhs" ..
  note ty = large_rep_type [OF l]
  obtain src where src: "get_data_blk rhs = Inr src" "length src = cap + 1"
      "src = map Some cs @ Some 0 # drop (Suc (length cs)) src" using ty(7) by blast
  have n: "length cs \<le> cap" "cap + 1 < 2 ^ 32" "0 \<notin> set cs" using l by (auto simp: large_rep_def)
  then have n1: "unat (of_nat (length cs) + 1 :: u32) = length cs + 1"
    by (intro unat_succ_length) linarith
  have "take (length cs + 1) src = map Some (cs @ [0])"
    by (subst src(3)) simp
  then have rd: "blk_read src 0 (length cs + 1) = Inr (map Some (cs @ [0]))"
    using src(2) n by (simp add: blk_read_def)
  obtain a b c d e where st: "s = st a b c d e None" and lay: "lay_ok a b c d"
    using st_cases [OF s(1)] s(2) by metis
  let ?n = "of_nat (length cs) :: u32"
  let ?s = "st (map Some (le64 adr)) (map Some (le32 ?n)) (map Some (le32 ?n)) d (Some LARGER_STR) (Some (adr, map Some (cs @ [0])))"
  have "string_take adr rhs s = Inr ?s"
    using ty(2,5,1) src(1) rd n1 lay
    by (simp add: string_take_def Let_def SMALL_STR_def LARGER_STR_def blk_write_def st st_setters lay_ok_def)
  moreover have "large_rep cs (length cs) ?s"
    using n lay by (intro large_repI [where r = "[]" and adr = adr and d = d]) (simp_all add: st_def lay_ok_def)
  ultimately show ?thesis by (auto simp: string_rep_def)
qed

lemma string_assign_ok:
  assumes rep: "string_rep ds s" and z: "0 \<notin> set cs" and n: "length cs + 1 < 2 ^ 32"
  shows "\<exists>s'. string_assign adr cs s = Inr s' \<and> string_rep cs s'"
proof (cases "length cs \<le> 22")
  case True
  note byte = small_len_byte [OF True]
  let ?r = "replicate (23 - length cs) (0 :: u8)"
  have "24 - Suc (length cs) = 23 - length cs" by simp
  moreover have "23 - length cs = Suc (22 - length cs)" using True by simp
  ultimately have cpy: "c_strcpy (st_small string_new) cs = Inr (map Some (cs @ ?r @ [0]))"
    using True by (auto simp: c_strcpy_def blk_write_def string_new_def replicate_append_same)
  have "set_type_char (of_nat (length cs)) (string_new\<lparr>st_small := map Some (cs @ ?r @ [0])\<rparr>) =
      Inr (string_new\<lparr>st_small := map Some (cs @ ?r @ [of_nat (length cs)])\<rparr>)"
    using True by (simp add: set_type_char_def st_put_def LAST_CHAR_def blk_write_def)
  then show ?thesis
    using True cpy byte z string_clear_ok [OF rep] unat_length [OF n]
    by (simp add: string_assign_def Let_def MAX_SMALL_LEN_def string_rep_def small_rep_def string_new_def)
next
  case False
  let ?z = "\<lambda>k. replicate k (Some 0) :: block" and ?n = "of_nat (length cs) :: u32"
  have new: "string_new = st (?z 8) (?z 4) (?z 4) (?z 7) (Some 0) None"
    by (simp add: string_new_def st_def lay_replicate)
  let ?st = "\<lambda>l v t. st (map Some (le64 adr)) l (map Some (le32 ?n)) (?z 7) t (Some (adr, v))"
  have blk: "get_data_blk (?st (?z 4) v (Some 0)) = Inr v" for v
    using lay_get(1) [of "map Some (le64 adr)" "?z 4" "map Some (le32 ?n)" "?z 7" "?st (?z 4) v (Some 0)" "Some 0" "le64 adr"]
    by (simp add: get_data_blk_def st_def lay_ok_def)
  have cpy: "c_strcpy (malloc_blk (length cs + 1)) cs = Inr (map Some (cs @ [0]))"
    by (simp add: c_strcpy_def blk_write_def)
  have upd: "set_data_blk v' (?st l v t) = ?st l v' t" for v v' l t by (simp add: set_data_blk_def st_def)
  have "string_assign adr cs s = Inr (?st (map Some (le32 ?n)) (map Some (cs @ [0])) (Some LARGER_STR))"
    using False cpy string_clear_ok [OF rep] unat_length [OF n] unat_succ_length [OF n]
    by (simp add: string_assign_def Let_def MAX_SMALL_LEN_def new st_setters lay_ok_def blk upd)
  moreover have "large_rep cs (length cs) (?st (map Some (le32 ?n)) (map Some (cs @ [0])) (Some LARGER_STR))"
    using z n by (intro large_repI [where r = "[]" and adr = adr and d = "?z 7"]) (simp_all add: st_def)
  ultimately show ?thesis by (auto simp: string_rep_def)
qed

section \<open>Growing strings\<close>

lemma small_expand_ok:
  assumes sm: "small_rep cs s" and cs: "cs \<noteq> []" and n: "22 \<le> n" "n + 1 < 2 ^ 32"
  shows "\<exists>s' v. string_expand adr (of_nat n) s = Inr s' \<and> large_rep cs n s' \<and> st_owned s' = Some (adr, v)"
proof -
  note ty = small_rep_type [OF sm]
  have len: "length cs \<le> 22" and z: "0 \<notin> set cs" and s: "length (st_small s) = 24" "st_owned s = None"
    using sm by (auto simp: small_rep_def)
  obtain a b c d e where st: "s = st a b c d e None" and lay: "lay_ok a b c d"
    using st_cases [OF s(1)] s(2) by metis
  let ?l = "of_nat (length cs) :: u32" and ?n = "of_nat n :: u32"
  have pos: "?l > 0" using cs len by (simp add: word_gt_0 word_of_nat_eq_0_iff) (use nat_dvd_not_less in fastforce)
  have cs_small: "c_string (st_small s) = Inr cs"
    using ty(2,5) by (simp add: string_c_str_def)
  have tmp: "c_strcpy (replicate 23 None) cs = Inr (map Some cs @ Some 0 # replicate (22 - length cs) None)"
    using len by (simp add: c_strcpy_def blk_write_def)
  have un: "unat ?n = n" "unat (?n + 1) = n + 1" using unat_length [OF n(2)] unat_succ_length [OF n(2)] by auto
  have new: "c_strcpy (replicate (n + 1) (Some 0)) cs = Inr (map Some (cs @ [0]) @ replicate (n - length cs) (Some 0))"
    using len n by (simp add: c_strcpy_def blk_write_def)
  let ?s = "st (map Some (le64 adr)) (map Some (le32 ?l)) (map Some (le32 ?n)) d (Some LARGER_STR)
      (Some (adr, map Some (cs @ [0]) @ replicate (n - length cs) (Some 0)))"
  have "string_expand adr ?n s = Inr ?s"
    using n un ty(2,3) pos cs_small tmp new c_string_prefix [OF z] lay
    by (simp add: string_expand_def Let_def MAX_SMALL_LEN_def st st_setters lay_ok_def)
  moreover have "large_rep cs n ?s"
    using n z len lay
    by (intro large_repI [where r = "replicate (n - length cs) (Some 0)" and adr = adr and d = d])
      (simp_all add: st_def lay_ok_def)
  moreover have "st_owned ?s = Some (adr, map Some (cs @ [0]) @ replicate (n - length cs) (Some 0))"
    by (simp add: st_def)
  ultimately show ?thesis by blast
qed

lemma large_expand_ok:
  assumes l: "large_rep cs cap s" and n: "cap < n" "22 \<le> n" "n + 1 < 2 ^ 32"
  shows "\<exists>s'. string_expand adr (of_nat n) s = Inr s' \<and> large_rep cs n s'"
proof -
  note ty = large_rep_type [OF l]
  obtain adr0 v d where v: "st_owned s = Some (adr0, v)" and d: "length d = 7"
    and sm: "st_small s = lay (map Some (le64 adr0)) (map Some (le32 (of_nat (length cs))))
       (map Some (le32 (of_nat cap))) d (Some LARGER_STR)"
    and b: "length v = cap + 1" "take (Suc (length cs)) v = map Some (cs @ [0])"
    and le: "length cs \<le> cap" and z: "0 \<notin> set cs"
    using l by (auto simp: large_rep_def)
  obtain b where blk: "get_data_blk s = Inr b" "b = v" using ty(7) v by auto
  have st: "s = st (map Some (le64 adr0)) (map Some (le32 (of_nat (length cs)))) (map Some (le32 (of_nat cap))) d (Some LARGER_STR) (Some (adr0, v))"
    using sm v by (simp add: st_def)
  let ?n = "of_nat n :: u32"
  have un: "unat ?n = n" "unat (?n + 1) = n + 1" using unat_length [OF n(3)] unat_succ_length [OF n(3)] by auto
  have uc: "unat (of_nat cap :: u32) = cap" using n by (intro unat_length) linarith
  define w where "w = realloc_blk (Some v) (n + 1)"
  have w: "w = map Some (cs @ [0]) @ drop (Suc (length cs)) w" "length w = n + 1"
  proof -
    have "take (Suc (length cs)) w = map Some (cs @ [0])"
      using b le n by (simp add: w_def take_realloc_blk)
    then show "w = map Some (cs @ [0]) @ drop (Suc (length cs)) w"
      by (metis append_take_drop_id)
  qed (simp add: w_def)
  let ?s = "st (map Some (le64 adr)) (map Some (le32 (of_nat (length cs)))) (map Some (le32 ?n)) d (Some LARGER_STR) (Some (adr, w))"
  have "string_expand adr ?n s = Inr (?s)"
    using n un uc ty(2,3,6) blk d
    by (simp add: string_expand_def Let_def MAX_SMALL_LEN_def SMALL_STR_def LARGER_STR_def word_less_nat_alt
        w_def st st_setters lay_ok_def)
  moreover have "large_rep cs n ?s"
    using n z le d w
    by (intro large_repI [where r = "drop (Suc (length cs)) w" and adr = adr and d = d])
      (simp_all add: st_def)
  ultimately show ?thesis by blast
qed

lemma large_cat_ok:
  assumes l: "large_rep cs cap s" and n: "length cs + length ds \<le> cap" and z: "0 \<notin> set ds"
  shows "\<exists>s'. rbind (get_data_blk s) (\<lambda>b. rbind (c_strcat b ds) (\<lambda>b.
      set_len (of_nat (length cs + length ds)) (set_data_blk b s))) = Inr s' \<and> large_rep (cs @ ds) cap s'"
proof -
  note ty = large_rep_type [OF l]
  obtain adr v d where v: "st_owned s = Some (adr, v)" and d: "length d = 7"
    and sm: "st_small s = lay (map Some (le64 adr)) (map Some (le32 (of_nat (length cs))))
       (map Some (le32 (of_nat cap))) d (Some LARGER_STR)"
    and b: "length v = cap + 1" and cap: "cap + 1 < 2 ^ 32" "0 \<notin> set cs"
    using l by (auto simp: large_rep_def)
  obtain b where blk: "get_data_blk s = Inr b" "b = v" "b = map Some cs @ Some 0 # drop (Suc (length cs)) b"
    using ty(7) v by auto
  have strlen: "c_strlen v = Inr (length cs)" using c_strlen_prefix [OF cap(2)] blk by metis
  define w where "w = map Some (cs @ ds @ [0]) @ drop (Suc (length cs + length ds)) v"
  have tk: "take (length cs) v = map Some cs" using blk by (metis append_eq_conv_conj length_map)
  have cat: "c_strcat v ds = Inr w"
    using strlen n b tk by (simp add: c_strcat_def blk_write_def w_def)
  have st: "s = st (map Some (le64 adr)) (map Some (le32 (of_nat (length cs)))) (map Some (le32 (of_nat cap))) d (Some LARGER_STR) (Some (adr, v))"
    using sm v by (simp add: st_def)
  let ?s = "st (map Some (le64 adr)) (map Some (le32 (of_nat (length cs + length ds)))) (map Some (le32 (of_nat cap))) d (Some LARGER_STR) (Some (adr, w))"
  have upd: "set_data_blk w s = st (map Some (le64 adr)) (map Some (le32 (of_nat (length cs)))) (map Some (le32 (of_nat cap))) d (Some LARGER_STR) (Some (adr, w))"
    using st by (simp add: set_data_blk_def st_def)
  have "set_len (of_nat (length cs + length ds)) (set_data_blk w s) = Inr ?s"
    unfolding upd by (rule st_setters) (simp add: lay_ok_def d)
  moreover have "large_rep (cs @ ds) cap ?s"
    using z cap d n b
    by (intro large_repI [where r = "drop (Suc (length cs + length ds)) v" and adr = adr and d = d])
      (simp_all add: st_def w_def)
  ultimately show ?thesis using blk cat by simp
qed

lemma small_cat_ok:
  assumes sm: "small_rep cs s" and n: "length cs + length ds \<le> 22" and z: "0 \<notin> set ds"
  shows "\<exists>s'. string_strcat adr ds s = Inr s' \<and> small_rep (cs @ ds) s'"
proof -
  note ty = small_rep_type [OF sm]
  let ?m = "length cs + length ds"
  have len: "length cs \<le> 22" and zc: "0 \<notin> set cs"
    and cells: "st_small s = map Some (cs @ replicate (23 - length cs) 0 @ [of_nat (length cs)])"
    using sm by (auto simp: small_rep_def)
  have e: "22 - length cs = length ds + (22 - ?m)" using n by simp
  have e1: "23 - length cs = Suc (22 - length cs)" using n by simp
  have e2: "replicate (22 - length cs) (Some (0 :: u8)) = replicate (length ds) (Some 0) @ replicate (22 - ?m) (Some 0)"
    by (subst e) (rule replicate_add)
  have cells': "st_small s = map Some cs @ Some 0 # replicate (length ds) (Some 0) @
      replicate (22 - ?m) (Some 0) @ [Some (of_nat (length cs))]"
    unfolding cells e1 by (simp add: e2)
  let ?r = "replicate (23 - ?m) (0 :: u8)"
  have "23 - ?m = Suc (22 - ?m)" using n by simp
  then have r: "?r = 0 # replicate (22 - ?m) 0" by (simp only: replicate_Suc)
  have cat: "c_strcat (st_small s) ds = Inr (map Some (cs @ ds @ ?r @ [of_nat (length cs)]))"
    using c_strlen_prefix [OF zc] n unfolding cells'
    by (simp add: c_strcat_def blk_write_def r)
  let ?t = "s\<lparr>st_small := map Some (cs @ ds @ ?r @ [of_nat (length cs)])\<rparr>"
  have gt: "get_type_char ?t = Inr (of_nat (length cs))"
    using n by (simp add: get_type_char_def st_get_def LAST_CHAR_def blk_read_def)
  have st: "set_type_char (of_nat ?m) ?t = Inr (s\<lparr>st_small := map Some (cs @ ds @ ?r @ [of_nat ?m])\<rparr>)"
    using n by (simp add: set_type_char_def st_put_def LAST_CHAR_def blk_write_def)
  have new: "(of_nat (length ds) + of_nat (length cs) :: u32) = of_nat ?m" by simp
  have un: "unat (of_nat ?m :: u32) = ?m" "unat (of_nat MAX_SMALL_LEN :: u32) = 22"
    using n unat_of_nat_u32 [of ?m] unat_of_nat_u32 [of 22] unfolding MAX_SMALL_LEN_def by linarith+
  have fits: "\<not> (of_nat ?m :: u32) > of_nat MAX_SMALL_LEN" "\<not> unat (of_nat ?m :: u32) > MAX_SMALL_LEN"
    using n un unfolding word_less_nat_alt MAX_SMALL_LEN_def by linarith+
  have "string_strcat adr ds s = Inr (s\<lparr>st_small := map Some (cs @ ds @ ?r @ [of_nat ?m])\<rparr>)"
    unfolding string_strcat_def ty(3,4) rbind_simps Let_def new
    using fits cat gt st small_len_byte [OF n] small_len_byte [OF len] by simp
  moreover have "small_rep (cs @ ds) (s\<lparr>st_small := map Some (cs @ ds @ ?r @ [of_nat ?m])\<rparr>)"
    using n z zc sm by (simp add: small_rep_def)
  ultimately show ?thesis by blast
qed

lemma string_strcat_ok:
  assumes rep: "string_rep cs s" and n: "length cs + length ds + 1 < 2 ^ 32" and z: "0 \<notin> set ds"
    and side: "small_rep cs s \<and> (cs \<noteq> [] \<or> length ds \<le> 22) \<or>
      (\<exists>cap. large_rep cs cap s) \<and> 22 < length cs + length ds"
  shows "\<exists>s'. string_strcat adr ds s = Inr s' \<and> string_rep (cs @ ds) s'"
proof (cases "length cs + length ds \<le> 22")
  case True
  then have "small_rep cs s" using side by auto
  from small_cat_ok [OF this True z, of adr] show ?thesis by (auto simp: string_rep_def)
next
  case False
  let ?m = "length cs + length ds"
  have new: "(of_nat (length ds) + of_nat (length cs) :: u32) = of_nat ?m" by simp
  have um: "unat (of_nat ?m :: u32) = ?m" using n by (intro unat_length) simp
  have big: "unat (of_nat ?m :: u32) > MAX_SMALL_LEN" using False unfolding um by (simp add: MAX_SMALL_LEN_def)
  have fin: ?thesis
    if "(if (of_nat ?m :: u32) > c then string_expand adr (of_nat ?m) s else Inr s) = Inr s1"
      "string_capacity s = Inr c" "large_rep cs cap s1" "?m \<le> cap" for s1 c cap
    using large_cat_ok [OF that(3,4) z] that(1,2) string_rep_len [OF rep] big
    by (auto simp: string_strcat_def Let_def new string_rep_def simp del: of_nat_add)
  show ?thesis
  proof (cases "small_rep cs s")
    case True
    then have cs: "cs \<noteq> []" using side False by (auto simp: small_rep_def large_rep_def lay_def LARGER_STR_def)
    obtain s1 where s1: "string_expand adr (of_nat ?m) s = Inr s1" "large_rep cs ?m s1"
      using small_expand_ok [OF True cs, of ?m adr] False n by auto
    have "(of_nat MAX_SMALL_LEN :: u32) < of_nat ?m"
      using False um by (simp only: word_less_nat_alt) (simp add: MAX_SMALL_LEN_def)
    then show ?thesis using fin [OF _ small_rep_type(4) [OF True] s1(2)] s1(1) by simp
  next
    case nsm: False
    then obtain cap where l: "large_rep cs cap s" using side by blast
    then have "cap + 1 < 2 ^ 32" by (auto simp: large_rep_def)
    then have uc: "unat (of_nat cap :: u32) = cap" by (rule unat_length)
    show ?thesis
    proof (cases "cap < ?m")
      case True
      obtain s1 where s1: "string_expand adr (of_nat ?m) s = Inr s1" "large_rep cs ?m s1"
        using large_expand_ok [OF l True, of adr] False n by auto
      have "(of_nat cap :: u32) < of_nat ?m" using True um uc by (simp only: word_less_nat_alt)
      then show ?thesis using fin [OF _ large_rep_type(4) [OF l] s1(2)] s1(1) by simp
    next
      case le: False
      then have "\<not> (of_nat cap :: u32) < of_nat ?m" using um uc by (simp only: word_less_nat_alt) simp
      then show ?thesis using fin [OF _ large_rep_type(4) [OF l] l] le by simp
    qed
  qed
qed

section \<open>Properties\<close>

text \<open>C8: A C string survives \<^verbatim>\<open>string_t\<close>: constructed from it, copied, assigned over another string
  and read back it is the same characters, in the small representation up to 22 characters and on
  the heap above; its length is exact and it compares equal to itself and to nothing else.\<close>

theorem string_value_semantics:
  assumes "0 \<notin> set cs" and "length cs + 1 < 2 ^ 32" and "0 \<notin> set ds" and "length ds + 1 < 2 ^ 32"
  shows "\<exists>s t u v. string_of_cstr adr (Some cs) = Inr s \<and> string_copy adr1 s = Inr t \<and>
    string_of_cstr adr2 (Some ds) = Inr u \<and> string_assign_op adr3 False s u = Inr v \<and>
    string_c_str s = Inr cs \<and> string_c_str t = Inr cs \<and> string_c_str v = Inr cs \<and>
    string_len t = Inr (of_nat (length cs)) \<and>
    string_equal t s = Inr True \<and> string_equal u s = Inr (ds = cs)"
proof -
  obtain s u where s: "string_of_cstr adr (Some cs) = Inr s" "string_rep cs s"
      and u: "string_of_cstr adr2 (Some ds) = Inr u" "string_rep ds u"
    using string_of_cstr_rep [OF assms(1,2), of adr] string_of_cstr_rep [OF assms(3,4), of adr2]
    by (auto simp: string_rep_def split: if_splits)
  obtain t where t: "string_copy adr1 s = Inr t" "string_rep cs t"
    using string_take_ok [OF s(2), of string_raw adr1] by (auto simp: string_copy_def string_raw_def)
  obtain v where v: "string_assign_op adr3 False s u = Inr v" "string_rep cs v"
    using string_take_ok [OF s(2), of string_new adr3] string_clear_ok [OF u(2)]
    by (auto simp: string_assign_op_def string_new_def)
  have "(of_nat (length ds) :: u32) = of_nat (length cs) \<longleftrightarrow> length ds = length cs"
    using assms(2,4) by (metis unat_length)
  then have "string_equal_cstr (Some ds) s = Inr (ds = cs)"
    using string_rep_len [OF s(2)] string_rep_c_str [OF s(2)] by (auto simp: string_equal_cstr_def)
  then show ?thesis
    using s t u v by (auto simp: string_rep_c_str string_rep_len string_equal_def string_equal_cstr_def)
qed

theorem string_value_semantics_witness:
  "\<exists>s t u v. string_of_cstr 4096 (Some [104, 105]) = Inr s \<and> string_copy 8192 s = Inr t \<and>
    string_of_cstr 12288 (Some (replicate 30 97)) = Inr u \<and> string_assign_op 4096 False s u = Inr v \<and>
    string_c_str v = Inr [104, 105]"
  using string_value_semantics [of "[104, 105]" "replicate 30 97" 4096 8192 12288 4096] by auto

text \<open>C32: \<^verbatim>\<open>strcat\<close> appends: for a small string that is not empty or whose result stays small, and for
  a heap string whose result has more than 22 characters, the characters of the argument follow the
  old ones, across the growth from the small to the heap representation and of the heap block. The two cases
  left out are defects: an empty small string that grows past 22 characters reads uninitialised memory, and a
  heap string whose result has at most 22 characters has its block pointer overwritten.\<close>

theorem string_strcat_appends:
  assumes "string_rep cs s" and "length cs + length ds + 1 < 2 ^ 32" and "0 \<notin> set ds"
    and "small_rep cs s \<and> (cs \<noteq> [] \<or> length ds \<le> 22) \<or>
      (\<exists>cap. large_rep cs cap s) \<and> 22 < length cs + length ds"
  shows "\<exists>s'. string_strcat adr ds s = Inr s' \<and> string_c_str s' = Inr (cs @ ds) \<and>
    string_len s' = Inr (of_nat (length cs + length ds)) \<and> string_rep (cs @ ds) s'"
  using string_strcat_ok [OF assms, of adr] by (auto simp: string_rep_c_str string_rep_len)

theorem string_strcat_appends_witness:
  "\<exists>s s'. string_of_cstr 4096 (Some [104, 105]) = Inr s \<and>
     string_strcat 8192 (replicate 40 97) s = Inr s' \<and> string_c_str s' = Inr ([104, 105] @ replicate 40 97)"
proof -
  obtain s where s: "string_of_cstr 4096 (Some [104, 105]) = Inr s" "small_rep [104, 105] s"
    using string_of_cstr_rep [of "[104, 105]" 4096] by auto
  then show ?thesis
    using string_strcat_appends [of "[104, 105]" s "replicate 40 97" 8192] by (auto simp: string_rep_def)
qed

lemma cells_bytes_Inl: "cells_bytes cs = Inl e \<Longrightarrow> e = Mem_error"
  by (induction cs rule: cells_bytes.induct) (auto simp: ax_res)

lemma un_le64_low_byte:
  assumes "length bs = 8"
  shows "(ucast (un_le64 bs) :: u8) = hd bs"
proof -
  obtain b0 b1 b2 b3 r where bs: "bs = b0 # b1 # b2 # b3 # r" using assms
    by (auto simp: numeral_eq_Suc length_Suc_conv)
  show ?thesis by (rule bit_word_eqI) (auto simp: bs un_le64_def bit_simps)
qed

text \<open>A heap string whose address has a zero low byte, appended to as if it were small.\<close>

lemma large_strcat_short:
  assumes l: "large_rep cs cap s" and own: "st_owned s = Some (adr, v)" and low: "(ucast adr :: u8) = 0"
    and z: "0 \<notin> set ds" "ds \<noteq> []" and n: "length cs + length ds \<le> 22" "22 \<le> cap"
  shows "\<exists>u. string_strcat a ds s = Inr u \<and> string_c_str u = Inl Mem_error"
proof -
  note ty = large_rep_type [OF l]
  obtain d where d: "length d = 7"
    and sm: "st_small s = lay (map Some (le64 adr)) (map Some (le32 (of_nat (length cs))))
       (map Some (le32 (of_nat cap))) d (Some LARGER_STR)" and cap: "cap + 1 < 2 ^ 32"
    using l own by (auto simp: large_rep_def)
  let ?m = "length cs + length ds" and ?b = "st_small s"
  have len: "length ?b = 24" using sm d by (simp add: lay_def)
  obtain r where r: "le64 adr = 0 # r" "length r = 7"
  proof -
    have "(ucast (ucast adr :: u32) :: u8) = ucast adr" by (rule bit_word_eqI) (auto simp: bit_simps)
    then have "hd (le64 adr) = 0" using low by (simp add: le64_def le32_def)
    then show thesis using that [of "tl (le64 adr)"] length_le64 [of adr] by (cases "le64 adr") auto
  qed
  have b0: "?b = Some 0 # map Some r @ map Some (le32 (of_nat (length cs))) @ map Some (le32 (of_nat cap)) @ d @ [Some LARGER_STR]"
    using sm r by (simp add: lay_def)
  define w where "w = map Some (ds @ [0]) @ drop (Suc (length ds)) ?b"
  have cat: "c_strcat ?b ds = Inr w"
    using n len b0 by (simp add: c_strcat_def blk_write_def w_def)
  have "w ! 23 = ?b ! 23" using n len by (simp add: w_def nth_append)
  also have "\<dots> = Some LARGER_STR" using d r by (simp add: b0 nth_append)
  finally have w23: "w ! 23 = Some LARGER_STR" .
  have lw: "length w = 24" using n len by (simp add: w_def)
  have un: "unat (of_nat ?m :: u32) = ?m" "unat (of_nat cap :: u32) = cap"
    using unat_length [OF cap] unat_of_nat_u32 [of ?m] n by linarith+
  have new: "(of_nat (length ds) + of_nat (length cs) :: u32) = of_nat ?m" by simp
  have fits: "\<not> (of_nat ?m :: u32) > of_nat cap" "\<not> unat (of_nat ?m :: u32) > MAX_SMALL_LEN"
    using n un unfolding word_less_nat_alt MAX_SMALL_LEN_def by linarith+
  have gt: "get_type_char (s\<lparr>st_small := w\<rparr>) = Inr LARGER_STR"
    using lw w23 by (simp add: get_type_char_def st_get_def LAST_CHAR_def blk_read_def take_Suc_conv_app_nth
        flip: Cons_nth_drop_Suc)
  let ?c = "(LARGER_STR AND TYPE_MASK) OR (ucast (of_nat ?m :: u32) AND NOT TYPE_MASK)"
  define u where "u = s\<lparr>st_small := take 23 w @ [Some ?c]\<rparr>"
  have "set_type_char ?c (s\<lparr>st_small := w\<rparr>) = Inr u"
    using lw by (simp add: set_type_char_def st_put_def LAST_CHAR_def blk_write_def u_def)
  then have run: "string_strcat a ds s = Inr u"
    unfolding string_strcat_def ty(3,4) rbind_simps Let_def new using fits cat gt by simp
  have "string_type u = Inr LARGER_STR"
  proof -
    have "get_type_char u = Inr ?c"
      using lw by (simp add: get_type_char_def st_get_def LAST_CHAR_def blk_read_def u_def)
    moreover have "?c AND TYPE_MASK = LARGER_STR"
      by (simp add: LARGER_STR_def TYPE_MASK_def and.assoc bit.conj_disj_distrib2)
    ultimately show ?thesis by (simp add: string_type_def)
  qed
  moreover have "get_data_blk u = Inl Mem_error"
  proof (cases "st_get 0 8 u")
    case (Inl e)
    then have "e = Mem_error"
      using lw by (auto simp: st_get_def ax_res blk_read_def u_def dest: cells_bytes_Inl split: if_splits)
    then show ?thesis using Inl by (simp add: get_data_blk_def)
  next
    case (Inr bs)
    have l8: "take 8 w = map Some bs"
      using Inr lw by (auto simp: st_get_def ax_res blk_read_def u_def cells_bytes_Inr_iff split: if_splits)
    have "length bs = length (take 8 w)" unfolding l8 by simp
    then have bs: "length bs = 8" using lw by simp
    then have "Some (hd bs) = hd (take 8 w)" unfolding l8 by (cases bs) auto
    also have "\<dots> = Some (hd ds)" using z(2) by (simp add: w_def hd_append) (cases ds; simp)
    finally have "hd bs \<noteq> 0" using z by (cases ds) auto
    then have "un_le64 bs \<noteq> adr" using un_le64_low_byte [OF bs] low by auto
    then show ?thesis using Inr own by (simp add: get_data_blk_def u_def)
  qed
  ultimately have "string_c_str u = Inl Mem_error"
    by (simp add: string_c_str_def SMALL_STR_def LARGER_STR_def)
  then show ?thesis using run by blast
qed

text \<open>Two defects of growing. Appending more than 22 characters to an empty string makes \<^verbatim>\<open>expand\<close>
  copy an uninitialised stack buffer. Appending to a heap string whose result has at most 22
  characters (a string that was expanded) treats the object as a small string: with a heap address
  whose lowest byte is zero the characters land in the bytes of the pointer, the call succeeds, and
  reading the string then follows a wild pointer.\<close>

lemma string_growth_defects:
  assumes "22 < length ds" and "length ds + 1 < 2 ^ 32"
    and "cs \<noteq> []" and "small_rep cs s" and "(ucast adr :: u8) = 0"
    and "0 \<notin> set es" and "es \<noteq> []" and "length cs + length es \<le> 22"
  shows "string_strcat a ds string_new = Inl Mem_error \<and>
    (\<exists>t u. string_expand adr 50 s = Inr t \<and> string_c_str t = Inr cs \<and>
       string_strcat a es t = Inr u \<and> string_c_str u = Inl Mem_error)"
proof
  note ty = small_rep_type [OF string_new_rep]
  have ud: "unat (of_nat (length ds) :: u32) = length ds" using assms(2) by (rule unat_length)
  have "(of_nat MAX_SMALL_LEN :: u32) < of_nat (length ds)" "\<not> unat (of_nat (length ds) :: u32) < MAX_SMALL_LEN"
    using assms(1) by (simp_all add: word_less_nat_alt ud MAX_SMALL_LEN_def)
  then show "string_strcat a ds string_new = Inl Mem_error"
    using ty by (simp add: string_strcat_def string_expand_def Let_def c_string_def numeral_eq_Suc)
next
  obtain t v where t: "string_expand adr (of_nat 50) s = Inr t" "large_rep cs 50 t" "st_owned t = Some (adr, v)"
    using small_expand_ok [OF assms(4,3), of 50 adr] by auto
  then show "\<exists>t u. string_expand adr 50 s = Inr t \<and> string_c_str t = Inr cs \<and>
       string_strcat a es t = Inr u \<and> string_c_str u = Inl Mem_error"
    using large_strcat_short [OF t(2,3) assms(5,6,7,8)] large_rep_type(8) [OF t(2)] by auto
qed

text \<open>Self-assignment destroys a string: \<^verbatim>\<open>operator=\<close> clears the object before it reads the right
  hand side and does not test for the same object.\<close>

lemma string_self_assign_clears:
  assumes "string_rep cs s"
  shows "\<exists>t. string_assign_op adr True s s = Inr t \<and> string_c_str t = Inr []"
  using string_clear_ok [OF assms] small_rep_type [OF string_new_rep]
  by (simp add: string_assign_op_def string_take_def)

end
