(* ===== verification/Ax_Timer.thy ===== *)
theory Ax_Timer
  imports Ax_Hashmap
begin

text \<open>
  The timer wheel \<^verbatim>\<open>EvTimer\<close> of \<^verbatim>\<open>src/core/ax_timer.h\<close> and \<^verbatim>\<open>ax_timer.cc\<close>: three wheels of 1024
  slots, each slot a singly linked list of entries, and the hash table from handles to entries
  (\<open>hmap_t\<close>, used here through its interface \<open>kv_store\<close>). Entries come from a node heap, which is what the
  memory pool gives its clients. The callbacks of the application are a parameter: \<open>cb c h d t\<close> is the
  effect of callback \<open>c\<close> with handle \<open>h\<close> and data \<open>d\<close> on the timer.
\<close>

section \<open>Data\<close>

record ('c, 'd) timer_entry =
  te_handle :: u32
  te_cbfunc :: "'c option"
  te_tick :: u32
  te_data :: 'd
  te_next :: "nat option"

definition SLOT_PER_WHEEL :: nat where "SLOT_PER_WHEEL = 1024"
definition TOTAL_WHEEL :: nat where "TOTAL_WHEEL = 3"
definition kEntryPoolSize :: nat where "kEntryPoolSize = 10000"

record ('c, 'd) ev_timer =
  et_ticknow :: u32
  et_tick_interval :: u32
  et_tm_now :: u64
  et_tm_slap :: u64
  et_handle :: u32
  et_slot_now :: "u32 list"
  et_entry_map :: "(u32, nat) hmap_t"
  et_entries :: "('c, 'd) timer_entry heap"
  et_wheel :: "nat option list list"

section \<open>Operations\<close>

text \<open>The constructor; \<open>now\<close> is the time of day in milliseconds. It does not initialise
  \<^verbatim>\<open>slot_now_\<close>: \<open>junk\<close> is what the memory holds.\<close>

definition timer_new :: "u32 \<Rightarrow> u64 \<Rightarrow> u32 list \<Rightarrow> ('c, 'd) ev_timer" where
  "timer_new t now junk =
     \<lparr>et_ticknow = 0, et_tick_interval = t, et_tm_now = now, et_tm_slap = 0, et_handle = 0,
      et_slot_now = junk, et_entry_map = hmap_new (of_nat (kEntryPoolSize * 3)), et_entries = [],
      et_wheel = replicate TOTAL_WHEEL (replicate SLOT_PER_WHEEL None)\<rparr>"

definition wheel_get :: "nat option list list \<Rightarrow> nat \<Rightarrow> u32 \<Rightarrow> nat option res" where
  "wheel_get wh i s =
     (if i < length wh \<and> unat s < length (wh ! i) then Inr (wh ! i ! unat s) else Inl Mem_error)"

definition wheel_set :: "nat option list list \<Rightarrow> nat \<Rightarrow> u32 \<Rightarrow> nat option \<Rightarrow> nat option list list" where
  "wheel_set wh i s p = wh[i := (wh ! i)[unat s := p]]"

text \<open>\<^verbatim>\<open>which_slot\<close>: the digits of a tick, and the wheel of the highest digit above the current one.\<close>

definition which_slot :: "u32 list \<Rightarrow> u32 \<Rightarrow> (nat \<times> u32 list) res" where
  "which_slot slot_now tick =
     (let slot = [tick mod 1024, tick div 1024 mod 1024, tick div 1024 div 1024 mod 1024] in
      rbind (rt_assert (tick div 1024 div 1024 div 1024 < 1)) (\<lambda>_.
        Inr (if slot ! 2 > slot_now ! 2 then 2 else if slot ! 1 > slot_now ! 1 then 1 else 0, slot)))"

text \<open>\<^verbatim>\<open>++handle_; if (handle_ <= 0) handle_ = 1;\<close>\<close>

definition next_handle :: "u32 \<Rightarrow> u32" where
  "next_handle h = (if sint (h + 1) \<le> 0 then 1 else h + 1)"

definition timeout_tick :: "('c, 'd) ev_timer \<Rightarrow> u32 \<Rightarrow> u32 res" where
  "timeout_tick t timeout =
     (if timeout > et_tick_interval t then
        if et_tick_interval t = 0 then Inl Div_zero
        else Inr (et_ticknow t + timeout div et_tick_interval t)
      else Inr (et_ticknow t + 1))"

text \<open>The entry at \<open>a\<close> goes to the head of the list of its slot.\<close>

definition slot_push :: "nat \<Rightarrow> ('c, 'd) ev_timer \<Rightarrow> ('c, 'd) ev_timer res" where
  "slot_push a t =
     rbind (hget (et_entries t) a) (\<lambda>e.
     rbind (which_slot (et_slot_now t) (te_tick e)) (\<lambda>(w, slot).
     rbind (wheel_get (et_wheel t) w (slot ! w)) (\<lambda>head.
     rbind (hupd a (\<lambda>e. e\<lparr>te_next := head\<rparr>) (et_entries t)) (\<lambda>hp.
       Inr (t\<lparr>et_entries := hp, et_wheel := wheel_set (et_wheel t) w (slot ! w) (Some a)\<rparr>)))))"

definition add_timer :: "'c option \<Rightarrow> 'd \<Rightarrow> u32 \<Rightarrow> ('c, 'd) ev_timer \<Rightarrow> (('c, 'd) ev_timer \<times> u32) res" where
  "add_timer cbfunc data timeout t =
     (let h = next_handle (et_handle t) in
      rbind (timeout_tick t timeout) (\<lambda>tick.
      let (hp, a) = hnew \<lparr>te_handle = h, te_cbfunc = cbfunc, te_tick = tick, te_data = data, te_next = None\<rparr>
                      (et_entries t) in
      rbind (hmap_insert do_hash_uint h (Some a) (et_entry_map t)) (\<lambda>m.
      rbind (slot_push a (t\<lparr>et_handle := h, et_entries := hp, et_entry_map := m\<rparr>)) (\<lambda>t'.
        Inr (t', h)))))"

text \<open>The search loop of \<^verbatim>\<open>del_timer\<close>, with \<open>pw\<close> one entry behind \<open>qw\<close>; it unlinks the entry with the
  handle.\<close>

fun del_loop :: "u32 \<Rightarrow> nat \<Rightarrow> ('c, 'd) timer_entry heap \<Rightarrow> nat \<Rightarrow> nat \<Rightarrow> nat option \<Rightarrow>
    ('c, 'd) timer_entry heap option res" where
  "del_loop h pe hp n pw None = Inr None"
| "del_loop h pe hp 0 pw (Some qw) = Inl Diverge"
| "del_loop h pe hp (Suc n) pw (Some qw) =
     rbind (hget hp qw) (\<lambda>e.
     if te_handle e = h then
       rbind (rt_assert (qw = pe)) (\<lambda>_.
       rbind (hupd pw (\<lambda>x. x\<lparr>te_next := te_next e\<rparr>) hp) (\<lambda>hp.
       rbind (hdel pe hp) (\<lambda>hp. Inr (Some hp))))
     else del_loop h pe hp n qw (te_next e))"

definition del_timer :: "u32 \<Rightarrow> ('c, 'd) ev_timer \<Rightarrow> (('c, 'd) ev_timer \<times> int) res" where
  "del_timer h t =
     rbind (hmap_remove_get do_hash_uint h (et_entry_map t)) (\<lambda>(m, v).
     let t = t\<lparr>et_entry_map := m\<rparr> in
     case v of None \<Rightarrow> Inr (t, - 1)
     | Some pe \<Rightarrow>
         rbind (hget (et_entries t) pe) (\<lambda>e.
         rbind (which_slot (et_slot_now t) (te_tick e)) (\<lambda>(w, slot).
         rbind (wheel_get (et_wheel t) w (slot ! w)) (\<lambda>pw.
         case pw of None \<Rightarrow> Inr (t, - 1)
         | Some pw \<Rightarrow>
             rbind (hget (et_entries t) pw) (\<lambda>ew.
             if te_handle ew = h then
               rbind (rt_assert (pw = pe)) (\<lambda>_.
               rbind (hdel pe (et_entries t)) (\<lambda>hp.
                 Inr (t\<lparr>et_entries := hp, et_wheel := wheel_set (et_wheel t) w (slot ! w) (te_next ew)\<rparr>, 0)))
             else
               rbind (del_loop h pe (et_entries t) (length (et_entries t)) pw (te_next ew)) (\<lambda>r.
                 Inr (case r of None \<Rightarrow> (t, - 1) | Some hp \<Rightarrow> (t\<lparr>et_entries := hp\<rparr>, 0))))))))"

text \<open>The loop of \<^verbatim>\<open>process_tick\<close> that moves the entries of a slot to lower wheels.\<close>

fun move_loop :: "nat \<Rightarrow> nat option \<Rightarrow> ('c, 'd) ev_timer \<Rightarrow> ('c, 'd) ev_timer res" where
  "move_loop n None t = Inr t"
| "move_loop 0 (Some p) t = Inl Diverge"
| "move_loop (Suc n) (Some p) t =
     rbind (hget (et_entries t) p) (\<lambda>e. rbind (slot_push p t) (move_loop n (te_next e)))"

text \<open>One round of the loop that updates the wheels.\<close>

definition update_wheel :: "nat \<Rightarrow> ('c, 'd) ev_timer \<Rightarrow> ('c, 'd) ev_timer res" where
  "update_wheel i t =
     (if unat (et_slot_now t ! i) < SLOT_PER_WHEEL then Inr t
      else
        let sn = (et_slot_now t)[i := 0, i + 1 := et_slot_now t ! (i + 1) + 1];
            slot = sn ! (i + 1) in
        rbind (wheel_get (et_wheel t) (i + 1) slot) (\<lambda>p.
        rbind (move_loop (length (et_entries t)) p (t\<lparr>et_slot_now := sn\<rparr>)) (\<lambda>t.
          Inr (t\<lparr>et_wheel := wheel_set (et_wheel t) (i + 1) slot None\<rparr>))))"

text \<open>The callback loop, which also collects the handles it was run for.\<close>

fun run_loop :: "('c \<Rightarrow> u32 \<Rightarrow> 'd \<Rightarrow> ('c, 'd) ev_timer \<Rightarrow> ('c, 'd) ev_timer res) \<Rightarrow> nat \<Rightarrow> nat option \<Rightarrow>
    ('c, 'd) ev_timer \<Rightarrow> (('c, 'd) ev_timer \<times> u32 list) res" where
  "run_loop cb n None t = Inr (t, [])"
| "run_loop cb 0 (Some p) t = Inl Diverge"
| "run_loop cb (Suc n) (Some p) t =
     rbind (hget (et_entries t) p) (\<lambda>e.
     case te_cbfunc e of
       None \<Rightarrow> run_loop cb n (te_next e) t
     | Some c \<Rightarrow>
         rbind (cb c (te_handle e) (te_data e) t) (\<lambda>t'.
         rbind (run_loop cb n (te_next e) t') (\<lambda>(t'', hs). Inr (t'', te_handle e # hs))))"

fun delete_loop :: "nat \<Rightarrow> nat option \<Rightarrow> ('c, 'd) ev_timer \<Rightarrow> ('c, 'd) ev_timer res" where
  "delete_loop n None t = Inr t"
| "delete_loop 0 (Some p) t = Inl Diverge"
| "delete_loop (Suc n) (Some p) t =
     rbind (hget (et_entries t) p) (\<lambda>e.
     rbind (hmap_remove_get do_hash_uint (te_handle e) (et_entry_map t)) (\<lambda>(m, _).
     rbind (hdel p (et_entries t)) (\<lambda>hp.
       delete_loop n (te_next e) (t\<lparr>et_entry_map := m, et_entries := hp\<rparr>))))"

definition advance_tick :: "('c, 'd) ev_timer \<Rightarrow> ('c, 'd) ev_timer res" where
  "advance_tick t =
     rbind (update_wheel 0 (t\<lparr>et_ticknow := et_ticknow t + 1,
       et_slot_now := (et_slot_now t)[0 := et_slot_now t ! 0 + 1]\<rparr>)) (update_wheel 1)"

definition process_tick :: "('c \<Rightarrow> u32 \<Rightarrow> 'd \<Rightarrow> ('c, 'd) ev_timer \<Rightarrow> ('c, 'd) ev_timer res) \<Rightarrow>
    ('c, 'd) ev_timer \<Rightarrow> (('c, 'd) ev_timer \<times> u32 list) res" where
  "process_tick cb t =
     rbind (advance_tick t) (\<lambda>t.
     rbind (wheel_get (et_wheel t) 0 (et_slot_now t ! 0)) (\<lambda>head.
     if head = None then Inr (t, [])
     else
       rbind (run_loop cb (length (et_entries t)) head t) (\<lambda>(t, hs).
       rbind (delete_loop (length (et_entries t)) head t) (\<lambda>t.
         Inr (t\<lparr>et_wheel := wheel_set (et_wheel t) 0 (et_slot_now t ! 0) None\<rparr>, hs)))))"

text \<open>\<^verbatim>\<open>timer_routine\<close>; \<open>now\<close> is the time of day. After the correction for a long block the lag is at
  most 60000 ms, so 60000 rounds are enough when the interval is not zero.\<close>

fun routine_loop :: "('c \<Rightarrow> u32 \<Rightarrow> 'd \<Rightarrow> ('c, 'd) ev_timer \<Rightarrow> ('c, 'd) ev_timer res) \<Rightarrow> nat \<Rightarrow>
    ('c, 'd) ev_timer \<Rightarrow> (('c, 'd) ev_timer \<times> u32 list) res" where
  "routine_loop cb n t =
     (if et_tm_now t > et_tm_slap t then
        case n of 0 \<Rightarrow> Inl Diverge
        | Suc n' \<Rightarrow>
            rbind (process_tick cb (t\<lparr>et_tm_slap := et_tm_slap t + ucast (et_tick_interval t)\<rparr>)) (\<lambda>(t, hs).
            rbind (routine_loop cb n' t) (\<lambda>(t, hs'). Inr (t, hs @ hs')))
      else Inr (t, []))"

declare routine_loop.simps [simp del]

definition timer_routine :: "('c \<Rightarrow> u32 \<Rightarrow> 'd \<Rightarrow> ('c, 'd) ev_timer \<Rightarrow> ('c, 'd) ev_timer res) \<Rightarrow> u64 \<Rightarrow>
    ('c, 'd) ev_timer \<Rightarrow> (('c, 'd) ev_timer \<times> u32 list) res" where
  "timer_routine cb now t =
     (let t = t\<lparr>et_tm_now := now\<rparr>;
          t = (if et_tm_now t > et_tm_slap t + 60000 then t\<lparr>et_tm_slap := et_tm_now t\<rparr> else t) in
      routine_loop cb 60000 t)"

section \<open>Where an entry belongs\<close>

text \<open>The wheel and slot of an entry due at tick \<open>T\<close> when the current tick is \<open>now\<close>, and the digits of
  the current tick.\<close>

definition place :: "nat \<Rightarrow> nat \<Rightarrow> nat \<times> nat" where
  "place now T =
     (if T div 1048576 > now div 1048576 then (2, T div 1048576)
      else if T div 1024 mod 1024 > now div 1024 mod 1024 then (1, T div 1024 mod 1024)
      else (0, T mod 1024))"

definition digits :: "nat \<Rightarrow> u32 list" where
  "digits now = [of_nat (now mod 1024), of_nat (now div 1024 mod 1024), of_nat (now div 1048576)]"

lemma div_1048576: "(x :: nat) div 1048576 = x div 1024 div 1024"
  by (simp add: div_mult2_eq [symmetric])

lemma place_range: "T < 2 ^ 30 \<Longrightarrow> fst (place now T) < 3 \<and> snd (place now T) < 1024"
  by (auto simp: place_def)

lemma unat_div_mod: "unat ((x :: u32) div y) = unat x div unat y" "unat (x mod y) = unat x mod unat y"
  by (simp_all add: unat_div unat_mod)

lemma which_slot_place:
  assumes "unat tick < 2 ^ 30" and "now < 2 ^ 30"
  shows "\<exists>slot. which_slot (digits now) tick = Inr (fst (place now (unat tick)), slot) \<and>
    unat (slot ! fst (place now (unat tick))) = snd (place now (unat tick))"
proof -
  let ?T = "unat tick"
  have d: "unat (tick mod 1024) = ?T mod 1024" "unat (tick div 1024 mod 1024) = ?T div 1024 mod 1024"
      "unat (tick div 1024 div 1024 mod 1024) = ?T div 1048576"
    using assms(1) by (simp_all add: unat_div_mod div_mult2_eq [symmetric])
  have "unat (tick div 1024 div 1024 div 1024) = 0"
    using assms(1) by (simp add: unat_div_mod div_mult2_eq [symmetric])
  then have top: "tick div 1024 div 1024 div 1024 < 1" by (simp add: word_less_nat_alt)
  have n: "unat (digits now ! 2) = now div 1048576" "unat (digits now ! 1) = now div 1024 mod 1024"
    using assms(2) by (auto simp: digits_def unat_of_nat_u32 less_mult_imp_div_less)
  show ?thesis
    using top d n by (auto simp: which_slot_def Let_def place_def word_less_nat_alt)
qed

text \<open>The place is the same one tick later, except for the entries of a slot that is cascaded.\<close>

lemma place_step:
  assumes "now < T" and "Suc now mod 1024 \<noteq> 0"
  shows "place (Suc now) T = place now T"
proof -
  have "Suc now div 1024 = now div 1024" using assms(2) by (simp add: div_Suc)
  moreover have "Suc now div 1048576 = now div 1048576"
    using calculation by (simp add: div_1048576)
  ultimately show ?thesis by (simp add: place_def)
qed

lemma place_current:
  assumes "now \<le> T" and "place now T = (0, now mod 1024)"
  shows "T = now"
proof -
  have a: "T div 1048576 \<le> now div 1048576" "T div 1024 mod 1024 \<le> now div 1024 mod 1024" "T mod 1024 = now mod 1024"
    using assms(2) by (auto simp: place_def split: if_splits)
  have "now div 1048576 \<le> T div 1048576" using assms(1) by (rule div_le_mono)
  then have e2: "T div 1048576 = now div 1048576" using a by simp
  have "now div 1024 \<le> T div 1024" using assms(1) by (rule div_le_mono)
  moreover have "T div 1024 div 1024 = now div 1024 div 1024" using e2 div_1048576 by simp
  ultimately have "T div 1024 = now div 1024"
    using a(2) div_mult_mod_eq [of "T div 1024" 1024] div_mult_mod_eq [of "now div 1024" 1024] by linarith
  then show ?thesis using a(3) div_mult_mod_eq [of T 1024] div_mult_mod_eq [of now 1024] by linarith
qed

lemma place_self: "place now now = (0, now mod 1024)"
  by (simp add: place_def)

lemma place_carry:
  assumes "now < T" and c: "Suc now mod 1024 = 0" and nc: "Suc now mod 1048576 \<noteq> 0"
  shows "place (Suc now) T =
    (if place now T = (1, Suc now div 1024 mod 1024) then (0, T mod 1024) else place now T)"
    and "fst (place now T) \<noteq> 0"
proof -
  define k where "k = Suc now div 1024"
  define K where "K = T div 1024"
  have now: "Suc now = 1024 * k" using mult_div_mod_eq [of 1024 "Suc now"] c by (simp add: k_def)
  note e = div_1048576
  have k0: "0 < k" using now by (cases k) auto
  have "now = 1023 + (k - 1) * 1024" using now k0 by (cases k) auto
  then have n1: "now div 1024 = k - 1" by simp
  have kK: "k \<le> K" using assms(1) unfolding K_def k_def by (intro div_le_mono) simp
  have "Suc now mod 1048576 = 1024 * (k mod 1024)" using now mod_mult_mult1 [of 1024 k 1024] by simp
  then have b0: "0 < k mod 1024" using nc by simp
  define a b A B where "a = k div 1024" and "b = k mod 1024" and "A = K div 1024" and "B = K mod 1024"
  have kab: "k = b + a * 1024" "K = B + A * 1024" "b < 1024" "0 < b"
    using b0 by (simp_all add: a_def b_def A_def B_def)
  then have "k - 1 = (b - 1) + a * 1024" "b - 1 < 1024" by auto
  then have k1: "(k - 1) div 1024 = a" "(k - 1) mod 1024 = b - 1" by simp_all
  have "a \<le> A" using kK unfolding a_def A_def by (rule div_le_mono)
  then have "a < A \<or> a = A \<and> b \<le> B" using kK kab by (cases "a = A") auto
  then have lex: "a < A \<or> a = A \<and> b \<le> B" "0 < b" "b < 1024" using kab by simp_all
  then show "place (Suc now) T =
    (if place now T = (1, Suc now div 1024 mod 1024) then (0, T mod 1024) else place now T)"
    "fst (place now T) \<noteq> 0"
    unfolding place_def e n1
    by (auto simp: k_def [symmetric] K_def [symmetric] a_def [symmetric] b_def [symmetric] A_def [symmetric] B_def [symmetric] k1 [unfolded One_nat_def])
qed

end
