(* ===== verification/Ax_Timer_Inv.thy ===== *)
theory Ax_Timer_Inv
  imports Ax_Timer
begin

text \<open>
  Correctness of the timer wheel: the invariant that ties the slot lists, the handle table and the
  current tick together, its preservation by \<^verbatim>\<open>add_timer\<close>, \<^verbatim>\<open>del_timer\<close> and \<^verbatim>\<open>process_tick\<close>, and the
  properties a client relies on. The handle table is used through the laws of \<open>kv_store\<close> only.
\<close>

section \<open>The invariant\<close>

definition etick :: "('c, 'd) timer_entry heap \<Rightarrow> nat \<Rightarrow> nat" where
  "etick hp a = unat (the (fld (\<lambda>e. Some (te_tick e)) hp a))"

definition ehandle :: "('c, 'd) timer_entry heap \<Rightarrow> nat \<Rightarrow> u32" where
  "ehandle hp a = the (fld (\<lambda>e. Some (te_handle e)) hp a)"

text \<open>The slot lists \<open>sl\<close> hold the pending entries \<open>P\<close> by their place; the heads of the slots in \<open>X\<close> are
  not constrained, and no pending entry belongs there.\<close>

definition slots_ok :: "(nat \<times> nat) set \<Rightarrow> nat \<Rightarrow> ('c, 'd) timer_entry heap \<Rightarrow> nat option list list \<Rightarrow>
    (nat \<Rightarrow> nat \<Rightarrow> nat list) \<Rightarrow> nat set \<Rightarrow> bool" where
  "slots_ok X now hp wh sl P \<longleftrightarrow>
     length wh = 3 \<and> (\<forall>i < 3. length (wh ! i) = 1024) \<and> P \<subseteq> alive hp \<and> now < 2 ^ 30 \<and>
     (\<forall>a \<in> P. now \<le> etick hp a \<and> etick hp a < 2 ^ 30 \<and> place now (etick hp a) \<notin> X) \<and>
     (\<forall>i < 3. \<forall>j < 1024. (i, j) \<notin> X \<longrightarrow> distinct (sl i j) \<and>
        set (sl i j) = {a \<in> P. place now (etick hp a) = (i, j)} \<and>
        chain (fld te_next hp) (wh ! i ! j) (sl i j))"

definition map_ok :: "(u32, nat) hmap_t \<Rightarrow> ('c, 'd) timer_entry heap \<Rightarrow> nat set \<Rightarrow> bool" where
  "map_ok m hp P \<longleftrightarrow> hmap_wf do_hash_uint m \<and> inj_on (ehandle hp) P \<and>
     set (hmap_items m) = (\<lambda>a. (ehandle hp a, Some a)) ` P"

definition timer_inv :: "('c, 'd) ev_timer \<Rightarrow> (nat \<Rightarrow> nat \<Rightarrow> nat list) \<Rightarrow> nat set \<Rightarrow> bool" where
  "timer_inv t sl P \<longleftrightarrow>
     et_slot_now t = digits (unat (et_ticknow t)) \<and> 0 < et_tick_interval t \<and>
     slots_ok {} (unat (et_ticknow t)) (et_entries t) (et_wheel t) sl P \<and>
     map_ok (et_entry_map t) (et_entries t) P \<and>
     unat (et_handle t) < 2 ^ 31 \<and>
     (\<forall>a \<in> P. 0 < unat (ehandle (et_entries t) a) \<and> unat (ehandle (et_entries t) a) \<le> unat (et_handle t))"

lemma etick_alive: "a \<in> alive hp \<Longrightarrow> etick hp a = unat (te_tick (the (hp ! a)))"
  by (simp add: etick_def fld_def)

lemma ehandle_alive: "a \<in> alive hp \<Longrightarrow> ehandle hp a = te_handle (the (hp ! a))"
  by (simp add: ehandle_def fld_def)

lemma ehset_next [simp]:
  "ptr_ok p hp \<Longrightarrow> etick (hset p (\<lambda>e. e\<lparr>te_next := v\<rparr>) hp) = etick hp"
  "ptr_ok p hp \<Longrightarrow> ehandle (hset p (\<lambda>e. e\<lparr>te_next := v\<rparr>) hp) = ehandle hp"
  by (simp_all add: etick_def ehandle_def fld_hset_same fun_eq_iff)

lemma slots_ok_frame:
  assumes "slots_ok X now hp wh sl P" and "P \<subseteq> alive hp'"
    and "\<And>a. a \<in> P \<Longrightarrow> etick hp' a = etick hp a"
    and "\<And>a. a \<in> P \<Longrightarrow> fld te_next hp' a = fld te_next hp a"
  shows "slots_ok X now hp' wh sl P"
proof -
  have "chain (fld te_next hp') (wh ! i ! j) (sl i j) = chain (fld te_next hp) (wh ! i ! j) (sl i j)"
    if "i < 3" "j < 1024" "(i, j) \<notin> X" for i j
    using assms that by (intro chain_cong) (auto simp: slots_ok_def)
  moreover have "{a \<in> P. place now (etick hp' a) = q} = {a \<in> P. place now (etick hp a) = q}" for q
    using assms(3) by auto
  ultimately show ?thesis using assms unfolding slots_ok_def by auto
qed

lemma slot_push_ok:
  assumes ok: "slots_ok X now hp wh sl P" and a: "a \<in> alive hp" "a \<notin> P"
    and T: "now \<le> etick hp a" "etick hp a < 2 ^ 30" and place: "place now (etick hp a) = (i, j)" "(i, j) \<notin> X"
    and t: "et_entries t = hp" "et_wheel t = wh" "et_slot_now t = digits now"
  shows "\<exists>hp' wh'. slot_push a t = Inr (t\<lparr>et_entries := hp', et_wheel := wh'\<rparr>) \<and>
    hp' = hset (Some a) (\<lambda>e. e\<lparr>te_next := wh ! i ! j\<rparr>) hp \<and> wh' = wh[i := (wh ! i)[j := Some a]] \<and>
    slots_ok X now hp' wh' (\<lambda>x y. if x = i \<and> y = j then a # sl i j else sl x y) (insert a P)"
proof -
  let ?hp = "hset (Some a) (\<lambda>e. e\<lparr>te_next := wh ! i ! j\<rparr>) hp" and ?wh = "wh[i := (wh ! i)[j := Some a]]"
  have ij: "i < 3" "j < 1024" using place_range [OF T(2), of now] place by auto
  have wh: "length wh = 3" "\<And>i. i < 3 \<Longrightarrow> length (wh ! i) = 1024" and now: "now < 2 ^ 30"
    using ok by (auto simp: slots_ok_def)
  obtain slot where slot: "which_slot (digits now) (te_tick (the (hp ! a))) = Inr (i, slot)" "unat (slot ! i) = j"
    using which_slot_place [of "te_tick (the (hp ! a))" now] T(2) now place(1) by (auto simp: etick_alive [OF a(1)])
  have run: "slot_push a t = Inr (t\<lparr>et_entries := ?hp, et_wheel := ?wh\<rparr>)"
    using a(1) ij wh slot t by (simp add: slot_push_def hget_alive wheel_get_def hupd_ok wheel_set_def)
  have nx: "fld te_next ?hp = (fld te_next hp)(a := wh ! i ! j)" using a(1) by (simp add: fld_hset)
  have old: "distinct (sl x y)" "set (sl x y) = {a \<in> P. place now (etick hp a) = (x, y)}"
      "chain (fld te_next hp) (wh ! x ! y) (sl x y)" if "x < 3" "y < 1024" "(x, y) \<notin> X" for x y
    using ok that by (auto simp: slots_ok_def)
  have notin: "a \<notin> set (sl x y)" if "x < 3" "y < 1024" "(x, y) \<notin> X" for x y using old(2) [OF that] a(2) by auto
  have "chain (fld te_next ?hp) (?wh ! x ! y) (if x = i \<and> y = j then a # sl i j else sl x y)"
    if xy: "x < 3" "y < 1024" "(x, y) \<notin> X" for x y
  proof (cases "x = i \<and> y = j")
    case True
    then show ?thesis
      using old(3) [OF ij place(2)] notin [OF ij place(2)] ij wh(1) wh(2) [OF ij(1)] by (simp add: nx)
  next
    case False
    then have "?wh ! x ! y = wh ! x ! y" using ij wh(1) by (cases "x = i") auto
    moreover have "(if x = i \<and> y = j then a # sl i j else sl x y) = sl x y" using False by simp
    ultimately show ?thesis using old(3) [OF xy] notin [OF xy] by (simp only: nx) simp
  qed
  moreover have "length (?wh ! x) = 1024" if "x < 3" for x
    using wh(1) wh(2) [OF that] that by (cases "x = i") simp_all
  moreover have et: "etick ?hp = etick hp" using a(1) by simp
  moreover have "distinct (if x = i \<and> y = j then a # sl i j else sl x y)"
    if xy: "x < 3" "y < 1024" "(x, y) \<notin> X" for x y
    using old(1) [OF xy] notin [OF xy] by auto
  moreover have "set (if x = i \<and> y = j then a # sl i j else sl x y) =
        {b \<in> insert a P. place now (etick hp b) = (x, y)}" if xy: "x < 3" "y < 1024" "(x, y) \<notin> X" for x y
  proof (cases "x = i \<and> y = j")
    case True
    then show ?thesis using old(2) [OF xy] place(1) by (simp add: insert_Collect) blast
  next
    case False
    then have "place now (etick hp a) \<noteq> (x, y)" using place(1) by auto
    then have "{b \<in> insert a P. place now (etick hp b) = (x, y)} = {b \<in> P. place now (etick hp b) = (x, y)}"
      by blast
    then show ?thesis using False old(2) [OF xy] by (simp only: if_False)
  qed
  moreover have "\<forall>b \<in> insert a P. now \<le> etick hp b \<and> etick hp b < 2 ^ 30 \<and> place now (etick hp b) \<notin> X"
    using ok T place by (simp add: slots_ok_def)
  moreover have "insert a P \<subseteq> alive ?hp" using ok a(1) by (simp add: slots_ok_def)
  ultimately have "slots_ok X now ?hp ?wh (\<lambda>x y. if x = i \<and> y = j then a # sl i j else sl x y) (insert a P)"
    unfolding slots_ok_def et using wh(1) now by (simp only: length_list_update) blast
  then show ?thesis using run by blast
qed

section \<open>Adding a timer\<close>

definition same_clock :: "('c, 'd) ev_timer \<Rightarrow> ('c, 'd) ev_timer \<Rightarrow> bool" where
  "same_clock t t' \<longleftrightarrow> et_tm_now t' = et_tm_now t \<and> et_tm_slap t' = et_tm_slap t \<and>
     et_tick_interval t' = et_tick_interval t"

lemma same_clock_simps [simp]:
  "same_clock t (t'\<lparr>et_ticknow := n\<rparr>) = same_clock t t'" "same_clock t (t'\<lparr>et_slot_now := sn\<rparr>) = same_clock t t'"
  "same_clock t (t'\<lparr>et_entries := hp\<rparr>) = same_clock t t'" "same_clock t (t'\<lparr>et_wheel := wh\<rparr>) = same_clock t t'"
  "same_clock t (t'\<lparr>et_entry_map := m\<rparr>) = same_clock t t'" "same_clock t (t'\<lparr>et_handle := h\<rparr>) = same_clock t t'"
  "same_clock t t"
  by (auto simp: same_clock_def)

lemma same_clock_trans: "same_clock t t1 \<Longrightarrow> same_clock t1 t2 \<Longrightarrow> same_clock t t2"
  by (simp add: same_clock_def)

lemma map_ok_frame:
  "map_ok m hp P \<Longrightarrow> (\<And>a. a \<in> P \<Longrightarrow> ehandle hp' a = ehandle hp a) \<Longrightarrow> map_ok m hp' P"
  unfolding map_ok_def by (auto simp: inj_on_def image_iff)

lemma map_ok_insert:
  assumes m: "map_ok m hp P" and a: "a \<notin> P" and h: "\<And>b. b \<in> P \<Longrightarrow> ehandle hp b \<noteq> ehandle hp a"
  shows "\<exists>m'. hmap_insert do_hash_uint (ehandle hp a) (Some a) m = Inr m' \<and> map_ok m' hp (insert a P)"
proof -
  have "set (hmap_items m) = (\<lambda>a. (ehandle hp a, Some a)) ` P" using m by (simp add: map_ok_def)
  then have "ehandle hp a \<notin> fst ` set (hmap_items m)" using h by fastforce
  from hash_table.put_law [OF _ this, of do_hash_uint "Some a"] m
  obtain m' where "hmap_insert do_hash_uint (ehandle hp a) (Some a) m = Inr m'" "hmap_wf do_hash_uint m'"
      "hmap_items m' = (ehandle hp a, Some a) # hmap_items m" by (auto simp: map_ok_def)
  moreover have "ehandle hp a \<notin> ehandle hp ` P" using h by fastforce
  ultimately show ?thesis using m a by (auto simp: map_ok_def)
qed

lemma map_ok_lookup:
  assumes m: "map_ok m hp P" and a: "a \<in> P"
  shows "lookup_val (hmap_items m) (ehandle hp a) = Some a"
proof -
  have "distinct (map fst (hmap_items m))" using m by (simp add: map_ok_def hmap_wf_def)
  moreover have "(ehandle hp a, Some a) \<in> set (hmap_items m)" using m a by (auto simp: map_ok_def)
  ultimately show ?thesis by (simp add: lookup_val_def)
qed

lemma map_ok_remove:
  assumes m: "map_ok m hp P" and a: "a \<in> P"
  shows "\<exists>m'. hmap_remove_get do_hash_uint (ehandle hp a) m = Inr (m', Some a) \<and> map_ok m' hp (P - {a})"
proof -
  obtain m' where m': "hmap_remove_get do_hash_uint (ehandle hp a) m = Inr (m', Some a)"
      "hmap_wf do_hash_uint m'" "hmap_items m' = drop_key (ehandle hp a) (hmap_items m)"
    using hash_table.take_law [of do_hash_uint m "ehandle hp a"] m map_ok_lookup [OF assms]
    by (auto simp: map_ok_def)
  have "ehandle hp b = ehandle hp a \<longleftrightarrow> b = a" if "b \<in> P" for b
    using m a that by (auto simp: map_ok_def inj_on_def)
  then have "set (hmap_items m') = (\<lambda>a. (ehandle hp a, Some a)) ` (P - {a})"
    using m m'(3) by (auto simp: map_ok_def drop_key_def)
  then show ?thesis using m m' by (auto simp: map_ok_def intro: inj_on_subset)
qed

lemma next_handle_ok:
  assumes "unat h + 1 < 2 ^ 31"
  shows "unat (next_handle h) = unat h + 1"
proof -
  have u: "unat (h + 1) = unat h + 1" using assms unat_add_u32 [of h 1] by simp
  have "sint (h + 1) = int (unat (h + 1))" using u assms by (intro sint_u32) simp
  then have "\<not> sint (h + 1) \<le> 0" using u by linarith
  then show ?thesis using u by (simp add: next_handle_def)
qed

text \<open>The tick a timeout leads to, as a number.\<close>

definition due :: "('c, 'd) ev_timer \<Rightarrow> u32 \<Rightarrow> nat" where
  "due t timeout = unat (et_ticknow t) +
     (if timeout > et_tick_interval t then unat timeout div unat (et_tick_interval t) else 1)"

lemma due_later: "0 < et_tick_interval t \<Longrightarrow> unat (et_ticknow t) < due t timeout"
  by (auto simp: due_def word_less_nat_alt div_greater_zero_iff)

lemma timeout_tick_ok:
  assumes "0 < et_tick_interval t" and "due t timeout < 2 ^ 30"
  shows "\<exists>tick. timeout_tick t timeout = Inr tick \<and> unat tick = due t timeout"
proof (cases "timeout > et_tick_interval t")
  case True
  have "unat (et_ticknow t + timeout div et_tick_interval t) = due t timeout"
    using True assms(2) by (subst unat_add_u32) (simp_all add: due_def unat_div_mod)
  then show ?thesis using True assms(1) by (auto simp: timeout_tick_def)
next
  case False
  have "unat (et_ticknow t + 1) = due t timeout"
    using False assms(2) by (subst unat_add_u32) (simp_all add: due_def)
  then show ?thesis using False by (simp add: timeout_tick_def)
qed

lemma add_timer_ok:
  assumes inv: "timer_inv t sl P" and h: "unat (et_handle t) + 1 < 2 ^ 31" and d: "due t timeout < 2 ^ 30"
  defines "a \<equiv> length (et_entries t)"
  shows "\<exists>t' sl'. add_timer c dt timeout t = Inr (t', next_handle (et_handle t)) \<and>
    timer_inv t' sl' (insert a P) \<and> a \<notin> P \<and>
    etick (et_entries t') a = due t timeout \<and> ehandle (et_entries t') a = next_handle (et_handle t) \<and>
    et_ticknow t' = et_ticknow t \<and> same_clock t t' \<and>
    et_handle t' = next_handle (et_handle t) \<and>
    (\<forall>b \<in> P. b \<in> alive (et_entries t') \<and> the (et_entries t' ! b) = the (et_entries t ! b)) \<and>
    sl' 0 (unat (et_ticknow t) mod 1024) = sl 0 (unat (et_ticknow t) mod 1024)"
proof -
  let ?hp = "et_entries t" and ?now = "unat (et_ticknow t)" and ?h = "next_handle (et_handle t)"
  have iv: "0 < et_tick_interval t" and sn: "et_slot_now t = digits ?now"
    and ok: "slots_ok {} ?now ?hp (et_wheel t) sl P" and m: "map_ok (et_entry_map t) ?hp P"
    and hs: "\<And>b. b \<in> P \<Longrightarrow> 0 < unat (ehandle ?hp b) \<and> unat (ehandle ?hp b) \<le> unat (et_handle t)"
    using inv by (auto simp: timer_inv_def)
  have P: "P \<subseteq> alive ?hp" using ok by (simp add: slots_ok_def)
  then have aP: "a \<notin> P" and neq: "\<And>b. b \<in> P \<Longrightarrow> b \<noteq> a" by (auto simp: a_def)
  obtain tick where tick: "timeout_tick t timeout = Inr tick" "unat tick = due t timeout"
    using timeout_tick_ok [OF iv d] by blast
  define e where "e = \<lparr>te_handle = ?h, te_cbfunc = c, te_tick = tick, te_data = dt, te_next = None\<rparr>"
  define hp0 where "hp0 = ?hp @ [Some e]"
  have al: "alive hp0 = insert a (alive ?hp)" by (simp add: hp0_def a_def alive_append)
  have th: "etick hp0 = (etick ?hp)(a := due t timeout)" "ehandle hp0 = (ehandle ?hp)(a := ?h)"
    by (auto simp: etick_def ehandle_def hp0_def a_def fld_append e_def tick fun_eq_iff)
  have nx0: "fld te_next hp0 b = fld te_next ?hp b" if "b \<in> P" for b
    using neq [OF that] by (simp add: hp0_def fld_append a_def)
  have ok0: "slots_ok {} ?now hp0 (et_wheel t) sl P"
    using P neq nx0 by (intro slots_ok_frame [OF ok]) (auto simp: al th)
  have m0: "map_ok (et_entry_map t) hp0 P" using m by (rule map_ok_frame) (simp add: th neq)
  have hn: "ehandle hp0 b \<noteq> ehandle hp0 a" if "b \<in> P" for b
    using hs [OF that] next_handle_ok [OF h] neq [OF that] by (auto simp: th)
  obtain m' where m': "hmap_insert do_hash_uint ?h (Some a) (et_entry_map t) = Inr m'" "map_ok m' hp0 (insert a P)"
    using map_ok_insert [OF m0 aP hn] by (auto simp: th)
  define t1 where "t1 = t\<lparr>et_handle := ?h, et_entries := hp0, et_entry_map := m'\<rparr>"
  obtain i j where ij: "place ?now (due t timeout) = (i, j)" by (cases "place ?now (due t timeout)")
  have later: "?now < due t timeout" using due_later [OF iv] .
  obtain hp' wh' where run: "slot_push a t1 = Inr (t1\<lparr>et_entries := hp', et_wheel := wh'\<rparr>)"
    and hp': "hp' = hset (Some a) (\<lambda>e. e\<lparr>te_next := et_wheel t ! i ! j\<rparr>) hp0"
    and ok': "slots_ok {} ?now hp' wh' (\<lambda>x y. if x = i \<and> y = j then a # sl i j else sl x y) (insert a P)"
    using slot_push_ok [OF ok0 _ aP, of i j t1] later d ij sn by (auto simp: al th t1_def)
  let ?sl = "\<lambda>x y. if x = i \<and> y = j then a # sl i j else sl x y"
  let ?t' = "t1\<lparr>et_entries := hp', et_wheel := wh'\<rparr>"
  have a0: "a \<in> alive hp0" by (simp add: al)
  have th': "etick hp' = etick hp0" "ehandle hp' = ehandle hp0" using a0 by (simp_all add: hp')
  have ent: "b \<in> alive hp' \<and> the (hp' ! b) = the (?hp ! b)" if "b \<in> P" for b
    using that P neq [OF that] a0 alive_less [of b ?hp]
    by (auto simp: hp' hset_def alive_append hp0_def nth_append)
  have "add_timer c dt timeout t = Inr (?t', ?h)"
    using tick m' run
    by (simp add: add_timer_def Let_def hnew_def a_def e_def hp0_def t1_def)
  moreover have "timer_inv ?t' ?sl (insert a P)"
  proof -
    have "map_ok m' hp' (insert a P)" using m'(2) by (rule map_ok_frame) (simp add: th')
    moreover have "unat (ehandle hp' b) \<le> unat ?h \<and> 0 < unat (ehandle hp' b)" if "b \<in> insert a P" for b
      using that hs [of b] next_handle_ok [OF h] by (cases "b = a") (auto simp: th' th)
    ultimately show ?thesis
      using iv sn ok' h next_handle_ok [OF h] by (simp add: timer_inv_def t1_def)
  qed
  moreover have "?sl 0 (?now mod 1024) = sl 0 (?now mod 1024)"
    using place_current [of ?now "due t timeout"] later ij by auto
  ultimately show ?thesis
    using aP ent by (intro exI [of _ ?t'] exI [of _ ?sl]) (simp add: th' th t1_def)
qed

section \<open>Advancing the tick\<close>

text \<open>The place of every pending entry of a state, after a tick without carry.\<close>

lemma slots_ok_step:
  assumes ok: "slots_ok X now hp wh sl P" and later: "\<And>a. a \<in> P \<Longrightarrow> now < etick hp a"
    and c: "Suc now mod 1024 \<noteq> 0" and n: "Suc now < 2 ^ 30"
  shows "slots_ok X (Suc now) hp wh sl P"
proof -
  have pl: "place (Suc now) (etick hp a) = place now (etick hp a)" if "a \<in> P" for a
    using place_step [OF later [OF that] c] .
  then have "{a \<in> P. place (Suc now) (etick hp a) = q} = {a \<in> P. place now (etick hp a) = q}" for q by auto
  moreover have "\<forall>a \<in> P. Suc now \<le> etick hp a \<and> etick hp a < 2 ^ 30 \<and> place (Suc now) (etick hp a) \<notin> X"
    using ok later pl by (auto simp: slots_ok_def Suc_le_eq)
  ultimately show ?thesis using ok n unfolding slots_ok_def by simp
qed

text \<open>A tick with a carry into the second digit: the entries of the new slot of wheel 1 are taken out,
  the others stay where they are.\<close>

lemma slots_ok_carry:
  assumes ok: "slots_ok {} now hp wh sl P" and later: "\<And>a. a \<in> P \<Longrightarrow> now < etick hp a"
    and c: "Suc now mod 1024 = 0" "Suc now mod 1048576 \<noteq> 0" and n: "Suc now < 2 ^ 30"
  defines "k \<equiv> Suc now div 1024 mod 1024"
  shows "slots_ok {(1, k)} (Suc now) hp wh sl (P - set (sl 1 k))"
    and "\<And>a. a \<in> set (sl 1 k) \<Longrightarrow> fst (place (Suc now) (etick hp a)) = 0"
proof -
  have k: "k < 1024" by (simp add: k_def)
  have lk: "set (sl 1 k) = {a \<in> P. place now (etick hp a) = (1, k)}" using ok k by (simp add: slots_ok_def)
  have pl: "place (Suc now) (etick hp a) =
      (if place now (etick hp a) = (1, k) then (0, etick hp a mod 1024) else place now (etick hp a))"
    if "a \<in> P" for a
    using place_carry(1) [OF later [OF that] c] by (simp add: k_def)
  show "\<And>a. a \<in> set (sl 1 k) \<Longrightarrow> fst (place (Suc now) (etick hp a)) = 0" using pl lk by auto
  have rest: "place (Suc now) (etick hp a) = place now (etick hp a)" "place now (etick hp a) \<noteq> (1, k)"
    if "a \<in> P - set (sl 1 k)" for a using pl lk that by auto
  have "set (sl i j) = {a \<in> P - set (sl 1 k). place (Suc now) (etick hp a) = (i, j)}"
    if "i < 3" "j < 1024" "(i, j) \<noteq> (1, k)" for i j
  proof -
    have "set (sl i j) = {a \<in> P. place now (etick hp a) = (i, j)}" using ok that by (simp add: slots_ok_def)
    also have "\<dots> = {a \<in> P - set (sl 1 k). place now (etick hp a) = (i, j)}"
    proof (rule Collect_cong)
      fix a
      have "a \<notin> set (sl 1 k)" if "place now (etick hp a) = (i, j)"
        using lk \<open>(i, j) \<noteq> (1, k)\<close> that by (simp only: mem_Collect_eq) blast
      then show "a \<in> P \<and> place now (etick hp a) = (i, j) \<longleftrightarrow>
          a \<in> P - set (sl 1 k) \<and> place now (etick hp a) = (i, j)" by blast
    qed
    also have "\<dots> = {a \<in> P - set (sl 1 k). place (Suc now) (etick hp a) = (i, j)}" using rest by auto
    finally show ?thesis .
  qed
  moreover have "\<forall>a \<in> P - set (sl 1 k). Suc now \<le> etick hp a \<and> etick hp a < 2 ^ 30 \<and>
      place (Suc now) (etick hp a) \<notin> {(1, k)}"
    using ok later rest by (auto simp: slots_ok_def Suc_le_eq)
  moreover have "\<forall>i < 3. \<forall>j < 1024. (i, j) \<notin> {(1, k)} \<longrightarrow> distinct (sl i j) \<and>
      chain (fld te_next hp) (wh ! i ! j) (sl i j)" using ok by (simp add: slots_ok_def)
  ultimately show "slots_ok {(1, k)} (Suc now) hp wh sl (P - set (sl 1 k))"
    using ok n unfolding slots_ok_def by auto
qed

text \<open>The loop that moves the entries \<open>as\<close> to wheel 0.\<close>

lemma move_loop_ok:
  assumes "slots_ok {(1, k)} now (et_entries t) (et_wheel t) sl P" and "et_slot_now t = digits now"
    and "chain (fld te_next (et_entries t)) p as" and "distinct as" and "set as \<inter> P = {}"
    and "set as \<subseteq> alive (et_entries t)" and "length as \<le> n"
    and "\<And>a. a \<in> set as \<Longrightarrow> now \<le> etick (et_entries t) a \<and> etick (et_entries t) a < 2 ^ 30 \<and>
           fst (place now (etick (et_entries t) a)) = 0"
  shows "\<exists>hp' wh' sl'. move_loop n p t = Inr (t\<lparr>et_entries := hp', et_wheel := wh'\<rparr>) \<and>
    slots_ok {(1, k)} now hp' wh' sl' (P \<union> set as) \<and>
    etick hp' = etick (et_entries t) \<and> ehandle hp' = ehandle (et_entries t) \<and>
    fld te_cbfunc hp' = fld te_cbfunc (et_entries t) \<and> length hp' = length (et_entries t)"
  using assms
proof (induction as arbitrary: t p n sl P)
  case Nil
  then show ?case by (intro exI [of _ "et_entries t"] exI [of _ "et_wheel t"] exI [of _ sl]) simp
next
  case (Cons a as)
  let ?hp = "et_entries t"
  obtain n' where n: "n = Suc n'" "length as \<le> n'" using Cons.prems(7) by (cases n) auto
  have a: "a \<in> alive ?hp" "a \<notin> P" "p = Some a" "a \<notin> set as" using Cons.prems by auto
  obtain j where j: "place now (etick ?hp a) = (0, j)"
    using Cons.prems(8) [of a] by (cases "place now (etick ?hp a)") auto
  obtain hp1 wh1 where run1: "slot_push a t = Inr (t\<lparr>et_entries := hp1, et_wheel := wh1\<rparr>)"
    and hp1: "hp1 = hset (Some a) (\<lambda>e. e\<lparr>te_next := et_wheel t ! 0 ! j\<rparr>) ?hp"
    and ok1: "slots_ok {(1, k)} now hp1 wh1 (\<lambda>x y. if x = 0 \<and> y = j then a # sl 0 j else sl x y) (insert a P)"
    using slot_push_ok [OF Cons.prems(1) a(1,2) _ _ j _ refl refl Cons.prems(2)] Cons.prems(8) [of a] by auto
  let ?t1 = "t\<lparr>et_entries := hp1, et_wheel := wh1\<rparr>"
  have same: "etick hp1 = etick ?hp" "ehandle hp1 = ehandle ?hp" "alive hp1 = alive ?hp" "length hp1 = length ?hp"
      "fld te_cbfunc hp1 = fld te_cbfunc ?hp"
    using a(1) by (simp_all add: hp1 fld_hset)
  have nx1: "fld te_next hp1 = (fld te_next ?hp)(a := et_wheel t ! 0 ! j)" using a(1) by (simp add: hp1 fld_hset)
  have c1: "chain (fld te_next hp1) (fld te_next ?hp a) as" using Cons.prems(3) a(4) by (simp add: nx1)
  have "\<exists>hp' wh' sl'. move_loop n' (fld te_next ?hp a) ?t1 = Inr (?t1\<lparr>et_entries := hp', et_wheel := wh'\<rparr>) \<and>
    slots_ok {(1, k)} now hp' wh' sl' (insert a P \<union> set as) \<and>
    etick hp' = etick (et_entries ?t1) \<and> ehandle hp' = ehandle (et_entries ?t1) \<and>
    fld te_cbfunc hp' = fld te_cbfunc (et_entries ?t1) \<and> length hp' = length (et_entries ?t1)"
  proof (rule Cons.IH)
    show "slots_ok {(1, k)} now (et_entries ?t1) (et_wheel ?t1) (\<lambda>x y. if x = 0 \<and> y = j then a # sl 0 j else sl x y) (insert a P)"
      using ok1 by simp
    show "chain (fld te_next (et_entries ?t1)) (fld te_next ?hp a) as" using c1 by simp
  qed (use Cons.prems a n same in auto)
  then obtain hp' wh' sl' where run: "move_loop n' (fld te_next ?hp a) ?t1 = Inr (t\<lparr>et_entries := hp', et_wheel := wh'\<rparr>)"
    and ok': "slots_ok {(1, k)} now hp' wh' sl' (insert a P \<union> set as)"
    and same': "etick hp' = etick hp1" "ehandle hp' = ehandle hp1" "length hp' = length hp1"
      "fld te_cbfunc hp' = fld te_cbfunc hp1" by auto
  have "move_loop n p t = Inr (t\<lparr>et_entries := hp', et_wheel := wh'\<rparr>)"
    using a n(1) run1 run by (simp add: hget_alive fld_alive)
  then show ?case using ok' same same' by (intro exI [of _ hp'] exI [of _ wh'] exI [of _ sl']) simp
qed

lemma slots_ok_close:
  assumes ok: "slots_ok {(w, k)} now hp wh sl P" and k: "w < 3" "k < 1024"
  shows "slots_ok {} now hp (wh[w := (wh ! w)[k := None]]) (\<lambda>x y. if x = w \<and> y = k then [] else sl x y) P"
proof -
  let ?wh = "wh[w := (wh ! w)[k := None]]" and ?sl = "\<lambda>x y. if x = w \<and> y = k then [] else sl x y"
  have len: "length wh = 3" "\<And>i. i < 3 \<Longrightarrow> length (wh ! i) = 1024" using ok by (auto simp: slots_ok_def)
  have no: "{a \<in> P. place now (etick hp a) = (w, k)} = {}" using ok by (auto simp: slots_ok_def)
  have "distinct (?sl i j) \<and> set (?sl i j) = {a \<in> P. place now (etick hp a) = (i, j)} \<and>
      chain (fld te_next hp) (?wh ! i ! j) (?sl i j)" if "i < 3" "j < 1024" for i j
  proof (cases "i = w \<and> j = k")
    case True
    then show ?thesis using no len(1) len(2) [OF k(1)] k by simp
  next
    case False
    then have "?wh ! i ! j = wh ! i ! j" using len(1) k(1) by (cases "i = w") auto
    moreover have "?sl i j = sl i j" using False by auto
    moreover have "(i, j) \<notin> {(w, k)}" using False by auto
    ultimately show ?thesis using ok that by (simp only: slots_ok_def) blast
  qed
  moreover have "length (?wh ! i) = 1024" if "i < 3" for i
    using len(1) len(2) [OF that] that by (cases "i = w") simp_all
  ultimately show ?thesis using ok unfolding slots_ok_def by simp
qed

lemma digits_low:
  assumes "now < 2 ^ 30"
  shows "unat (digits now ! 0) = now mod 1024" and "unat (digits now ! 1) = now div 1024 mod 1024"
    and "unat (digits now ! 0 + 1) = now mod 1024 + 1" and "unat (digits now ! 1 + 1) = now div 1024 mod 1024 + 1"
  using unat_of_nat_u32 [of "now mod 1024 + 1"] unat_of_nat_u32 [of "now div 1024 mod 1024 + 1"]
  by (simp_all add: digits_def unat_of_nat_u32 less_imp_le [THEN le_less_trans] add.commute)

lemma digits_step:
  assumes "Suc now mod 1024 \<noteq> 0"
  shows "(digits now)[0 := digits now ! 0 + 1] = digits (Suc now)"
proof -
  have d: "Suc now div 1024 = now div 1024" "Suc now mod 1024 = Suc (now mod 1024)"
    using assms by (simp_all add: div_Suc mod_Suc split: if_splits)
  then show ?thesis by (simp add: digits_def div_1048576)
qed

lemma digits_carry:
  assumes "Suc now mod 1024 = 0" and "Suc now mod 1048576 \<noteq> 0"
  shows "(digits now)[0 := 0, 1 := digits now ! 1 + 1] = digits (Suc now)"
    and "now mod 1024 = 1023" and "now div 1024 mod 1024 + 1 = Suc now div 1024 mod 1024"
proof -
  have q: "Suc now div 1024 = Suc (now div 1024)" "now mod 1024 = 1023"
    using assms(1) by (simp_all add: div_Suc mod_Suc split: if_splits)
  have "Suc now = 1024 * (Suc now div 1024)" using mult_div_mod_eq [of 1024 "Suc now"] assms(1) by simp
  then have "Suc now mod 1048576 = 1024 * (Suc now div 1024 mod 1024)"
    using mod_mult_mult1 [of 1024 "Suc now div 1024" 1024] by simp
  then have nz: "Suc (now div 1024) mod 1024 \<noteq> 0" using assms(2) q(1) by simp
  then have m: "Suc (now div 1024) mod 1024 = Suc (now div 1024 mod 1024)"
      "Suc (now div 1024) div 1024 = now div 1024 div 1024"
    by (simp_all add: mod_Suc div_Suc split: if_splits)
  then show "(digits now)[0 := 0, 1 := digits now ! 1 + 1] = digits (Suc now)"
    using assms(1) q by (simp add: digits_def div_1048576)
  show "now mod 1024 = 1023" using q by simp
  show "now div 1024 mod 1024 + 1 = Suc now div 1024 mod 1024" using q m by simp
qed

definition timer_ready :: "('c, 'd) ev_timer \<Rightarrow> nat set \<Rightarrow> bool" where
  "timer_ready t P \<longleftrightarrow> (\<forall>a \<in> P. unat (et_ticknow t) < etick (et_entries t) a)"

lemma timer_invD:
  assumes "timer_inv t sl P"
  shows "et_slot_now t = digits (unat (et_ticknow t))" and "0 < et_tick_interval t"
    and "slots_ok {} (unat (et_ticknow t)) (et_entries t) (et_wheel t) sl P"
    and "map_ok (et_entry_map t) (et_entries t) P" and "unat (et_ticknow t) < 2 ^ 30" and "P \<subseteq> alive (et_entries t)"
  using assms by (simp_all add: timer_inv_def slots_ok_def)

lemma slot_list_length:
  assumes "slots_ok X now hp wh sl P" and "i < 3" "j < 1024" "(i, j) \<notin> X"
  shows "length (sl i j) \<le> length hp"
  using assms by (intro distinct_bounded_length) (auto simp: slots_ok_def dest: alive_less)

lemma timer_inv_upd:
  assumes inv: "timer_inv t sl P" and ok: "slots_ok {} now hp wh sl' P" and now: "unat n = now"
    and same: "ehandle hp = ehandle (et_entries t)"
  shows "timer_inv (t\<lparr>et_ticknow := n, et_slot_now := digits now, et_entries := hp, et_wheel := wh\<rparr>) sl' P"
proof -
  have "map_ok (et_entry_map t) hp P"
    using timer_invD(4) [OF inv] by (rule map_ok_frame) (simp add: same)
  then show ?thesis using inv ok now same by (simp add: timer_inv_def)
qed

lemma advance_tick_ok:
  assumes inv: "timer_inv t sl P" and ready: "timer_ready t P"
    and n: "Suc (unat (et_ticknow t)) < 2 ^ 30" "Suc (unat (et_ticknow t)) mod 1048576 \<noteq> 0"
  shows "\<exists>hp wh sl'. advance_tick t = Inr (t\<lparr>et_ticknow := et_ticknow t + 1,
        et_slot_now := digits (Suc (unat (et_ticknow t))), et_entries := hp, et_wheel := wh\<rparr>) \<and>
      slots_ok {} (Suc (unat (et_ticknow t))) hp wh sl' P \<and>
      etick hp = etick (et_entries t) \<and> ehandle hp = ehandle (et_entries t) \<and>
      fld te_cbfunc hp = fld te_cbfunc (et_entries t) \<and> length hp = length (et_entries t)"
proof -
  let ?now = "unat (et_ticknow t)" and ?hp = "et_entries t" and ?wh = "et_wheel t"
  note D = timer_invD [OF inv]
  have later: "\<And>a. a \<in> P \<Longrightarrow> ?now < etick ?hp a" using ready by (simp add: timer_ready_def)
  note dl = digits_low [OF D(5)]
  have dl': "unat (digits (Suc ?now) ! 0) = Suc ?now mod 1024" "unat (digits (Suc ?now) ! 1) = Suc ?now div 1024 mod 1024"
    using digits_low [OF n(1)] by simp_all
  show ?thesis
  proof (cases "Suc ?now mod 1024 = 0")
    case False
    let ?t = "t\<lparr>et_ticknow := et_ticknow t + 1, et_slot_now := digits (Suc ?now)\<rparr>"
    have "advance_tick t = Inr ?t"
      using digits_step [OF False] dl' by (simp add: advance_tick_def update_wheel_def D(1) SLOT_PER_WHEEL_def)
    moreover have "slots_ok {} (Suc ?now) ?hp ?wh sl P" using slots_ok_step [OF D(3) later False n(1)] .
    ultimately show ?thesis by (intro exI [of _ ?hp] exI [of _ ?wh] exI [of _ sl]) simp
  next
    case True
    note dc = digits_carry [OF True n(2)]
    let ?k = "Suc ?now div 1024 mod 1024"
    let ?t1 = "t\<lparr>et_ticknow := et_ticknow t + 1, et_slot_now := (digits ?now)[0 := digits ?now ! 0 + 1]\<rparr>"
    let ?t2 = "t\<lparr>et_ticknow := et_ticknow t + 1, et_slot_now := digits (Suc ?now)\<rparr>"
    have sc: "slots_ok {(1, ?k)} (Suc ?now) ?hp ?wh sl (P - set (sl 1 ?k))"
      by (rule slots_ok_carry(1) [OF D(3) _ True n(2,1)]) (rule later)
    have sc2: "fst (place (Suc ?now) (etick ?hp a)) = 0" if "a \<in> set (sl 1 ?k)" for a
      by (rule slots_ok_carry(2) [OF D(3) _ True n(2,1) that]) (rule later)
    have k: "?k < 1024" by simp
    have lk: "chain (fld te_next ?hp) (?wh ! 1 ! ?k) (sl 1 ?k)" "distinct (sl 1 ?k)" "set (sl 1 ?k) \<subseteq> P"
      using D(3) k by (auto simp: slots_ok_def)
    have ent: "Suc ?now \<le> etick ?hp a \<and> etick ?hp a < 2 ^ 30 \<and> fst (place (Suc ?now) (etick ?hp a)) = 0"
      if "a \<in> set (sl 1 ?k)" for a
      using that lk(3) later [of a] D(3) sc2 [OF that] by (auto simp: slots_ok_def)
    obtain hp' wh' sl' where
      mv: "move_loop (length ?hp) (?wh ! 1 ! ?k) ?t2 = Inr (?t2\<lparr>et_entries := hp', et_wheel := wh'\<rparr>)"
      and ok': "slots_ok {(1, ?k)} (Suc ?now) hp' wh' sl' (P - set (sl 1 ?k) \<union> set (sl 1 ?k))"
      and same: "etick hp' = etick ?hp" "ehandle hp' = ehandle ?hp" "fld te_cbfunc hp' = fld te_cbfunc ?hp" "length hp' = length ?hp"
    proof -
      have "\<exists>hp' wh' sl'. move_loop (length ?hp) (?wh ! 1 ! ?k) ?t2 = Inr (?t2\<lparr>et_entries := hp', et_wheel := wh'\<rparr>) \<and>
        slots_ok {(1, ?k)} (Suc ?now) hp' wh' sl' (P - set (sl 1 ?k) \<union> set (sl 1 ?k)) \<and>
        etick hp' = etick (et_entries ?t2) \<and> ehandle hp' = ehandle (et_entries ?t2) \<and>
        fld te_cbfunc hp' = fld te_cbfunc (et_entries ?t2) \<and> length hp' = length (et_entries ?t2)"
        using sc lk D(6) ent slot_list_length [OF D(3), of 1 ?k] k by (intro move_loop_ok) auto
      then show thesis using that by auto
    qed
    have P: "P - set (sl 1 ?k) \<union> set (sl 1 ?k) = P" using lk(3) by blast
    have cl: "slots_ok {} (Suc ?now) hp' (wh'[1 := (wh' ! 1)[?k := None]]) (\<lambda>x y. if x = 1 \<and> y = ?k then [] else sl' x y) P"
      using slots_ok_close [OF ok'] k P by simp
    have wg: "wheel_get ?wh 1 (digits (Suc ?now) ! 1) = Inr (?wh ! 1 ! ?k)"
      using D(3) dl' k by (simp add: wheel_get_def slots_ok_def)
    have ge: "\<not> unat (digits ?now ! 0 + 1) < SLOT_PER_WHEEL" using dl dc(2) by (simp add: SLOT_PER_WHEEL_def)
    have sn: "((digits ?now)[0 := digits ?now ! 0 + 1])[0 := 0, 0 + 1 := (digits ?now)[0 := digits ?now ! 0 + 1] ! (0 + 1) + 1] =
        digits (Suc ?now)" using dc(1) by simp
    have uw: "update_wheel 0 ?t1 = Inr (?t2\<lparr>et_entries := hp', et_wheel := wh'[1 := (wh' ! 1)[?k := None]]\<rparr>)"
      unfolding update_wheel_def Let_def using ge sn mv wg dl' by (simp add: wheel_set_def digits_def)
    have "advance_tick t = Inr (?t2\<lparr>et_entries := hp', et_wheel := wh'[1 := (wh' ! 1)[?k := None]]\<rparr>)"
      using uw dl' k by (simp add: advance_tick_def D(1) update_wheel_def [of "Suc 0"] SLOT_PER_WHEEL_def)
    then show ?thesis using cl same by blast
  qed
qed

section \<open>Running the current slot\<close>

text \<open>What a callback may do to the timer: add timers, which are due later than the current tick; it
  leaves the pending entries and the list of the current slot alone.\<close>

definition timer_ext :: "(nat \<Rightarrow> nat \<Rightarrow> nat list) \<Rightarrow> nat set \<Rightarrow> ('c, 'd) ev_timer \<Rightarrow>
    (nat \<Rightarrow> nat \<Rightarrow> nat list) \<Rightarrow> nat set \<Rightarrow> ('c, 'd) ev_timer \<Rightarrow> bool" where
  "timer_ext sl P t sl' P' t' \<longleftrightarrow>
     P \<subseteq> P' \<and> et_ticknow t' = et_ticknow t \<and> same_clock t t' \<and>
     (\<forall>b \<in> P. b \<in> alive (et_entries t') \<and> the (et_entries t' ! b) = the (et_entries t ! b)) \<and>
     (\<forall>b \<in> P' - P. unat (et_ticknow t) < etick (et_entries t') b) \<and>
     sl' 0 (unat (et_ticknow t) mod 1024) = sl 0 (unat (et_ticknow t) mod 1024)"

definition callback_ok :: "('c \<Rightarrow> u32 \<Rightarrow> 'd \<Rightarrow> ('c, 'd) ev_timer \<Rightarrow> ('c, 'd) ev_timer res) \<Rightarrow> bool" where
  "callback_ok cb \<longleftrightarrow> (\<forall>c h d t sl P. timer_inv t sl P \<longrightarrow>
     (\<exists>t' sl' P'. cb c h d t = Inr t' \<and> timer_inv t' sl' P' \<and> timer_ext sl P t sl' P' t'))"

lemma timer_ext_refl: "timer_inv t sl P \<Longrightarrow> timer_ext sl P t sl P t"
  by (auto simp: timer_ext_def timer_inv_def slots_ok_def)

lemma timer_ext_fld:
  assumes "timer_inv t sl P" and "timer_ext sl P t sl' P' t'" and "b \<in> P"
  shows "fld f (et_entries t') b = fld f (et_entries t) b" and "etick (et_entries t') b = etick (et_entries t) b"
    and "ehandle (et_entries t') b = ehandle (et_entries t) b"
proof -
  have "b \<in> alive (et_entries t)" using timer_invD(6) [OF assms(1)] assms(3) by auto
  moreover have "b \<in> alive (et_entries t')" "the (et_entries t' ! b) = the (et_entries t ! b)"
    using assms(2,3) by (auto simp: timer_ext_def)
  ultimately show "fld f (et_entries t') b = fld f (et_entries t) b" "etick (et_entries t') b = etick (et_entries t) b"
    "ehandle (et_entries t') b = ehandle (et_entries t) b" by (simp_all add: fld_def etick_def ehandle_def)
qed

lemma timer_ext_trans:
  assumes inv: "timer_inv t1 sl1 P1" and e1: "timer_ext sl P t sl1 P1 t1" and e2: "timer_ext sl1 P1 t1 sl2 P2 t2"
  shows "timer_ext sl P t sl2 P2 t2"
proof -
  have "unat (et_ticknow t) < etick (et_entries t2) b" if "b \<in> P2 - P" for b
    using that e1 e2 timer_ext_fld(2) [OF inv e2, of b] by (cases "b \<in> P1") (auto simp: timer_ext_def)
  moreover have "b \<in> alive (et_entries t2) \<and> the (et_entries t2 ! b) = the (et_entries t ! b)" if "b \<in> P" for b
    using that e1 e2 by (auto simp: timer_ext_def)
  ultimately show ?thesis using e1 e2 by (auto simp: timer_ext_def intro: same_clock_trans)
qed

lemma run_loop_ok:
  assumes "timer_inv t sl P" and "set as \<subseteq> P" and "chain (fld te_next (et_entries t)) p as"
    and "length as \<le> n" and cb: "callback_ok cb"
  shows "\<exists>t' sl' P'. run_loop cb n p t =
      Inr (t', map (ehandle (et_entries t)) (filter (\<lambda>a. fld te_cbfunc (et_entries t) a \<noteq> None) as)) \<and>
    timer_inv t' sl' P' \<and> timer_ext sl P t sl' P' t'"
  using assms(1-4)
proof (induction as arbitrary: t sl P p n)
  case Nil
  then show ?case using timer_ext_refl [OF Nil.prems(1)] by auto
next
  case (Cons a as)
  let ?hp = "et_entries t"
  obtain n' where n: "n = Suc n'" "length as \<le> n'" using Cons.prems(4) by (cases n) auto
  have a: "a \<in> alive ?hp" "p = Some a" "a \<in> P" using Cons.prems timer_invD(6) [OF Cons.prems(1)] by auto
  have step: "hget ?hp a = Inr (the (?hp ! a))" "te_next (the (?hp ! a)) = fld te_next ?hp a"
      "te_cbfunc (the (?hp ! a)) = fld te_cbfunc ?hp a" "te_handle (the (?hp ! a)) = ehandle ?hp a"
    using a(1) by (simp_all add: hget_alive fld_alive ehandle_alive)
  show ?case
  proof (cases "fld te_cbfunc ?hp a")
    case None
    then show ?thesis using Cons.IH [of t sl P "fld te_next ?hp a" n'] Cons.prems a n step by simp
  next
    case (Some c)
    obtain t1 sl1 P1 where t1: "cb c (ehandle ?hp a) (te_data (the (?hp ! a))) t = Inr t1"
        "timer_inv t1 sl1 P1" "timer_ext sl P t sl1 P1 t1"
      using cb Cons.prems(1) unfolding callback_ok_def by blast
    note same = timer_ext_fld [OF Cons.prems(1) t1(3)]
    have "chain (fld te_next (et_entries t1)) (fld te_next ?hp a) as = chain (fld te_next ?hp) (fld te_next ?hp a) as"
      using Cons.prems(2) by (intro chain_cong same) auto
    then have ch: "chain (fld te_next (et_entries t1)) (fld te_next ?hp a) as" using Cons.prems(3) by simp
    have sub: "set as \<subseteq> P1" using Cons.prems(2) t1(3) by (auto simp: timer_ext_def)
    obtain t' sl' P' where r: "run_loop cb n' (fld te_next ?hp a) t1 =
        Inr (t', map (ehandle (et_entries t1)) (filter (\<lambda>a. fld te_cbfunc (et_entries t1) a \<noteq> None) as))"
        "timer_inv t' sl' P'" "timer_ext sl1 P1 t1 sl' P' t'"
      using Cons.IH [OF t1(2) sub ch n(2)] by blast
    have eq: "map (ehandle (et_entries t1)) (filter (\<lambda>a. fld te_cbfunc (et_entries t1) a \<noteq> None) as) =
        map (ehandle ?hp) (filter (\<lambda>a. fld te_cbfunc ?hp a \<noteq> None) as)"
    proof -
      have "filter (\<lambda>a. fld te_cbfunc (et_entries t1) a \<noteq> None) as = filter (\<lambda>a. fld te_cbfunc ?hp a \<noteq> None) as"
        using Cons.prems(2) by (intro filter_cong) (auto simp: same(1))
      then show ?thesis using Cons.prems(2) same(3) by auto
    qed
    then show ?thesis
      using a n step Some t1(1) r timer_ext_trans [OF t1(2,3) r(3)] by (auto simp: eq)
  qed
qed

lemma delete_loop_ok:
  assumes "map_ok (et_entry_map t) (et_entries t) P" and "P \<subseteq> alive (et_entries t)" and "set as \<subseteq> P"
    and "distinct as" and "chain (fld te_next (et_entries t)) p as" and "length as \<le> n"
  shows "\<exists>m hp. delete_loop n p t = Inr (t\<lparr>et_entry_map := m, et_entries := hp\<rparr>) \<and>
    map_ok m hp (P - set as) \<and> alive hp = alive (et_entries t) - set as \<and>
    (\<forall>b. b \<notin> set as \<longrightarrow> hp ! b = et_entries t ! b)"
  using assms
proof (induction as arbitrary: t p n P)
  case Nil
  then show ?case by (intro exI [of _ "et_entry_map t"] exI [of _ "et_entries t"]) simp
next
  case (Cons a as)
  let ?hp = "et_entries t"
  obtain n' where n: "n = Suc n'" "length as \<le> n'" using Cons.prems(6) by (cases n) auto
  have a: "a \<in> alive ?hp" "p = Some a" "a \<in> P" "a \<notin> set as" using Cons.prems by auto
  obtain m1 where m1: "hmap_remove_get do_hash_uint (ehandle ?hp a) (et_entry_map t) = Inr (m1, Some a)"
      "map_ok m1 ?hp (P - {a})"
    using map_ok_remove [OF Cons.prems(1) a(3)] by blast
  let ?hp1 = "?hp[a := None]"
  define t1 where "t1 = t\<lparr>et_entry_map := m1, et_entries := ?hp1\<rparr>"
  have fl: "b \<noteq> a \<Longrightarrow> fld f ?hp1 b = fld f ?hp b" for b and f :: "('a, 'b) timer_entry \<Rightarrow> nat option"
    by (rule fld_delete)
  have "map_ok m1 ?hp1 (P - {a})"
    using m1(2) by (rule map_ok_frame) (auto simp: ehandle_def fld_delete)
  moreover have "chain (fld te_next ?hp1) (fld te_next ?hp a) as = chain (fld te_next ?hp) (fld te_next ?hp a) as"
    using a(4) by (intro chain_cong fl) auto
  ultimately have "\<exists>m hp. delete_loop n' (fld te_next ?hp a) t1 = Inr (t1\<lparr>et_entry_map := m, et_entries := hp\<rparr>) \<and>
    map_ok m hp (P - {a} - set as) \<and> alive hp = alive (et_entries t1) - set as \<and>
    (\<forall>b. b \<notin> set as \<longrightarrow> hp ! b = et_entries t1 ! b)"
    using Cons.prems a n by (intro Cons.IH) (auto simp: t1_def alive_delete)
  then obtain m hp where r: "delete_loop n' (fld te_next ?hp a) t1 = Inr (t\<lparr>et_entry_map := m, et_entries := hp\<rparr>)"
      "map_ok m hp (P - {a} - set as)" "alive hp = alive ?hp1 - set as"
      "\<And>b. b \<notin> set as \<Longrightarrow> hp ! b = ?hp1 ! b" by (auto simp: t1_def)
  have "delete_loop n p t = Inr (t\<lparr>et_entry_map := m, et_entries := hp\<rparr>)"
    using a n m1(1) r(1) by (simp add: hget_alive fld_alive ehandle_alive hdel_def t1_def)
  moreover have "P - set (a # as) = P - {a} - set as" by auto
  ultimately show ?case using r(2-4)
    by (intro exI [of _ m] exI [of _ hp]) (auto simp: alive_delete)
qed

lemma slots_ok_delete:
  assumes ok: "slots_ok {} now hp wh sl P" and k: "w < 3" "k < 1024"
    and al: "alive hp' = alive hp - set (sl w k)" and same: "\<And>b. b \<notin> set (sl w k) \<Longrightarrow> hp' ! b = hp ! b"
  shows "slots_ok {(w, k)} now hp' wh sl (P - set (sl w k))"
proof -
  let ?Q = "P - set (sl w k)"
  have lk: "set (sl w k) = {a \<in> P. place now (etick hp a) = (w, k)}" using ok k by (simp add: slots_ok_def)
  have fl: "fld f hp' b = fld f hp b" if "b \<in> ?Q" for b and f :: "('a, 'b) timer_entry \<Rightarrow> 'x option"
    using that al same [of b] by (simp add: fld_def)
  have tk: "etick hp' b = etick hp b" if "b \<in> ?Q" for b
    using that al same [of b] by (simp add: etick_def fld_def)
  have "slots_ok {(w, k)} now hp wh sl ?Q"
  proof -
    have "set (sl i j) = {a \<in> ?Q. place now (etick hp a) = (i, j)}"
      if "i < 3" "j < 1024" "(i, j) \<noteq> (w, k)" for i j
    proof -
      have "set (sl i j) = {a \<in> P. place now (etick hp a) = (i, j)}" using ok that by (simp add: slots_ok_def)
      also have "\<dots> = {a \<in> ?Q. place now (etick hp a) = (i, j)}"
      proof (rule Collect_cong)
        fix a
        have "a \<notin> set (sl w k)" if "place now (etick hp a) = (i, j)"
          using lk \<open>(i, j) \<noteq> (w, k)\<close> that by (simp only: mem_Collect_eq) blast
        then show "a \<in> P \<and> place now (etick hp a) = (i, j) \<longleftrightarrow> a \<in> ?Q \<and> place now (etick hp a) = (i, j)" by blast
      qed
      finally show ?thesis .
    qed
    moreover have "\<forall>a \<in> ?Q. now \<le> etick hp a \<and> etick hp a < 2 ^ 30 \<and> place now (etick hp a) \<notin> {(w, k)}"
      using ok lk by (auto simp: slots_ok_def)
    moreover have "\<forall>i < 3. \<forall>j < 1024. distinct (sl i j) \<and> chain (fld te_next hp) (wh ! i ! j) (sl i j)"
      using ok by (simp add: slots_ok_def)
    ultimately show ?thesis using ok unfolding slots_ok_def by auto
  qed
  moreover have "?Q \<subseteq> alive hp'" using ok al by (auto simp: slots_ok_def)
  ultimately show ?thesis using tk fl by (rule slots_ok_frame)
qed

text \<open>The states a client of the timer sees, and their pending timers as handles with ticks.\<close>

definition timer_ok :: "('c, 'd) ev_timer \<Rightarrow> bool" where
  "timer_ok t \<longleftrightarrow> (\<exists>sl P. timer_inv t sl P \<and> timer_ready t P)"

definition timer_pending :: "('c, 'd) ev_timer \<Rightarrow> (u32 \<times> nat) set" where
  "timer_pending t = (\<lambda>(h, v). (h, etick (et_entries t) (the v))) ` set (hmap_items (et_entry_map t))"

definition timer_due :: "('c, 'd) ev_timer \<Rightarrow> nat \<Rightarrow> u32 set" where
  "timer_due t T = {h. \<exists>a. (h, Some a) \<in> set (hmap_items (et_entry_map t)) \<and>
     etick (et_entries t) a = T \<and> fld te_cbfunc (et_entries t) a \<noteq> None}"

lemma timer_pending_inv:
  "map_ok (et_entry_map t) (et_entries t) P \<Longrightarrow>
   timer_pending t = (\<lambda>a. (ehandle (et_entries t) a, etick (et_entries t) a)) ` P"
  by (simp add: timer_pending_def map_ok_def image_image)

lemma timer_due_inv:
  "map_ok (et_entry_map t) (et_entries t) P \<Longrightarrow>
   timer_due t T = ehandle (et_entries t) ` {a \<in> P. etick (et_entries t) a = T \<and> fld te_cbfunc (et_entries t) a \<noteq> None}"
  by (auto simp: timer_due_def map_ok_def)

lemma process_tick_inv:
  assumes inv: "timer_inv t sl P" and ready: "timer_ready t P" and cb: "callback_ok cb"
    and n: "Suc (unat (et_ticknow t)) < 2 ^ 30" "Suc (unat (et_ticknow t)) mod 1048576 \<noteq> 0"
  shows "\<exists>t' sl' P' hs. process_tick cb t = Inr (t', hs) \<and> timer_inv t' sl' P' \<and> timer_ready t' P' \<and>
    et_ticknow t' = et_ticknow t + 1 \<and> same_clock t t' \<and>
    distinct hs \<and> set hs = timer_due t (Suc (unat (et_ticknow t))) \<and>
    {a \<in> P. etick (et_entries t) a \<noteq> Suc (unat (et_ticknow t))} \<subseteq> P' \<and>
    (\<forall>a \<in> P. a \<in> P' \<longrightarrow> etick (et_entries t') a = etick (et_entries t) a \<and>
       ehandle (et_entries t') a = ehandle (et_entries t) a)"
proof -
  let ?now = "Suc (unat (et_ticknow t))" and ?k = "Suc (unat (et_ticknow t)) mod 1024"
  note D = timer_invD [OF inv]
  obtain hp wh sl1 where adv: "advance_tick t = Inr (t\<lparr>et_ticknow := et_ticknow t + 1,
        et_slot_now := digits ?now, et_entries := hp, et_wheel := wh\<rparr>)"
    and ok1: "slots_ok {} ?now hp wh sl1 P"
    and same: "etick hp = etick (et_entries t)" "ehandle hp = ehandle (et_entries t)"
      "fld te_cbfunc hp = fld te_cbfunc (et_entries t)" "length hp = length (et_entries t)"
    using advance_tick_ok [OF inv ready n] by blast
  define t1 where "t1 = t\<lparr>et_ticknow := et_ticknow t + 1, et_slot_now := digits ?now, et_entries := hp, et_wheel := wh\<rparr>"
  have un: "unat (et_ticknow t + 1) = ?now" using n(1) unat_add_u32 [of "et_ticknow t" 1] by simp
  have inv1: "timer_inv t1 sl1 P" unfolding t1_def using timer_inv_upd [OF inv ok1 un same(2)] .
  have t1: "et_entries t1 = hp" "et_wheel t1 = wh" "unat (et_ticknow t1) = ?now" "et_slot_now t1 = digits ?now"
    using un by (simp_all add: t1_def)
  have k: "?k < 1024" by simp
  let ?as = "sl1 0 ?k"
  have as: "distinct ?as" "set ?as = {a \<in> P. place ?now (etick hp a) = (0, ?k)}" "chain (fld te_next hp) (wh ! 0 ! ?k) ?as"
    using ok1 k by (auto simp: slots_ok_def)
  have cur: "set ?as = {a \<in> P. etick hp a = ?now}"
  proof -
    have "place ?now (etick hp a) = (0, ?k) \<longleftrightarrow> etick hp a = ?now" if "a \<in> P" for a
    proof
      show "place ?now (etick hp a) = (0, ?k) \<Longrightarrow> etick hp a = ?now"
        using place_current [of ?now "etick hp a"] ok1 that by (simp add: slots_ok_def)
    qed (simp add: place_self)
    then show ?thesis unfolding as(2) by blast
  qed
  have wg: "wheel_get wh 0 (digits ?now ! 0) = Inr (wh ! 0 ! ?k)"
    using ok1 digits_low(1) [OF n(1)] k by (simp add: wheel_get_def slots_ok_def)
  obtain t2 sl2 P2 where run: "run_loop cb (length hp) (wh ! 0 ! ?k) t1 =
      Inr (t2, map (ehandle hp) (filter (\<lambda>a. fld te_cbfunc hp a \<noteq> None) ?as))"
    and inv2: "timer_inv t2 sl2 P2" and ext: "timer_ext sl1 P t1 sl2 P2 t2"
    using run_loop_ok [OF inv1, of ?as "wh ! 0 ! ?k" "length hp" cb] as cb slot_list_length [OF ok1, of 0 ?k] k
    by (auto simp: t1)
  define hs where "hs = map (ehandle hp) (filter (\<lambda>a. fld te_cbfunc hp a \<noteq> None) ?as)"
  have hs: "distinct hs" "set hs = timer_due t ?now"
  proof -
    have "inj_on (ehandle hp) P" using D(4) by (simp add: map_ok_def same)
    moreover have "set (filter (\<lambda>a. fld te_cbfunc hp a \<noteq> None) ?as) \<subseteq> P" unfolding cur set_filter by blast
    ultimately have "inj_on (ehandle hp) (set (filter (\<lambda>a. fld te_cbfunc hp a \<noteq> None) ?as))"
      by (rule inj_on_subset)
    then show "distinct hs" using as(1) by (simp only: hs_def distinct_map) simp
    show "set hs = timer_due t ?now"
      using cur by (auto simp: hs_def timer_due_inv [OF D(4)] same)
  qed
  note D2 = timer_invD [OF inv2]
  have clk: "same_clock t t2" using ext same_clock_trans [of t t1 t2] by (simp add: timer_ext_def t1_def)
  have e2: "et_ticknow t2 = et_ticknow t1" "P \<subseteq> P2" "sl2 0 ?k = ?as"
      "\<And>b. b \<in> P2 - P \<Longrightarrow> ?now < etick (et_entries t2) b"
    using ext t1 by (auto simp: timer_ext_def)
  have ok2: "slots_ok {} ?now (et_entries t2) (et_wheel t2) sl2 P2" using D2(3) e2(1) t1 by simp
  have ch2: "chain (fld te_next (et_entries t2)) (wh ! 0 ! ?k) ?as"
  proof -
    have "chain (fld te_next (et_entries t2)) (wh ! 0 ! ?k) ?as = chain (fld te_next (et_entries t1)) (wh ! 0 ! ?k) ?as"
      using cur by (intro chain_cong timer_ext_fld(1) [OF inv1 ext]) auto
    then show ?thesis using as(3) t1 by simp
  qed
  have asP2: "set ?as \<subseteq> P2" using cur e2(2) by auto
  have len2: "length ?as \<le> length (et_entries t2)" using slot_list_length [OF ok2, of 0 ?k] k e2(3) by simp
  obtain m3 hp3 where del: "delete_loop (length (et_entries t2)) (wh ! 0 ! ?k) t2 =
        Inr (t2\<lparr>et_entry_map := m3, et_entries := hp3\<rparr>)" "map_ok m3 hp3 (P2 - set ?as)"
      "alive hp3 = alive (et_entries t2) - set ?as" "\<And>b. b \<notin> set ?as \<Longrightarrow> hp3 ! b = et_entries t2 ! b"
    using delete_loop_ok [OF D2(4,6) asP2 as(1) ch2 len2] by blast
  have ok3: "slots_ok {} ?now hp3 ((et_wheel t2)[0 := (et_wheel t2 ! 0)[?k := None]])
      (\<lambda>x y. if x = 0 \<and> y = ?k then [] else sl2 x y) (P2 - set ?as)"
    using slots_ok_close [OF slots_ok_delete [OF ok2 _ k, of 0 hp3]] del(3,4) e2(3) k by simp
  let ?P = "P2 - set ?as" and ?sl = "\<lambda>x y. if x = 0 \<and> y = ?k then [] else sl2 x y"
  define t3 where "t3 = t2\<lparr>et_entry_map := m3, et_entries := hp3, et_wheel := (et_wheel t2)[0 := (et_wheel t2 ! 0)[?k := None]]\<rparr>"
  have fl3: "etick hp3 b = etick (et_entries t2) b" "ehandle hp3 b = ehandle (et_entries t2) b" if "b \<in> ?P" for b
    using that del(3,4) by (simp_all add: etick_def ehandle_def fld_def)
  have inv3: "timer_inv t3 ?sl ?P"
    using inv2 ok3 del(2) e2(1) t1 fl3 by (simp add: timer_inv_def t3_def)
  have fl: "etick hp3 b = etick (et_entries t) b" "ehandle hp3 b = ehandle (et_entries t) b" if "b \<in> P" "b \<in> ?P" for b
    using that fl3 [OF that(2)] timer_ext_fld(2,3) [OF inv1 ext that(1)] same t1 by simp_all
  have ready3: "timer_ready t3 ?P"
  proof -
    have "?now < etick hp3 b" if "b \<in> ?P" for b
    proof (cases "b \<in> P")
      case True
      then have "etick hp b \<noteq> ?now" "?now \<le> etick hp b" using that cur ok1 by (auto simp: slots_ok_def)
      then show ?thesis using fl(1) [OF True that] same by simp
    next
      case False
      then show ?thesis using that e2(4) [of b] fl3 by simp
    qed
    then show ?thesis using e2(1) t1 by (simp add: timer_ready_def t3_def)
  qed
  show ?thesis
  proof (cases "?as = []")
    case True
    then have "wh ! 0 ! ?k = None" using as(3) by simp
    then have pt: "process_tick cb t = Inr (t1, [])" using adv wg by (simp add: process_tick_def t1_def)
    have "timer_ready t1 P"
    proof -
      have "?now < etick hp a" if "a \<in> P" for a
      proof -
        have "?now \<le> etick hp a" using that ok1 by (simp add: slots_ok_def)
        moreover have "etick hp a \<noteq> ?now" using that cur True by auto
        ultimately show ?thesis by simp
      qed
      then show ?thesis by (simp add: timer_ready_def t1)
    qed
    then show ?thesis using pt inv1 hs True t1 same by (intro exI [of _ t1] exI [of _ sl1] exI [of _ P] exI [of _ "[]"]) (simp add: hs_def t1_def)
  next
    case False
    then have ne: "wh ! 0 ! ?k \<noteq> None" using as(3) by (cases ?as) auto
    have sn2: "et_slot_now t2 = digits ?now" using D2(1) e2(1) t1 by simp
    have pt: "process_tick cb t = Inr (t3, hs)"
      using adv wg ne run del(1) sn2 digits_low(1) [OF n(1)] same(4)
      by (simp add: process_tick_def hs_def t3_def wheel_set_def flip: t1_def)
        (auto simp: t1 wheel_set_def)
    have "{a \<in> P. etick (et_entries t) a \<noteq> ?now} \<subseteq> ?P" using cur e2(2) same by auto
    then show ?thesis
      using pt inv3 ready3 hs fl e2(1) clk by (intro exI [of _ t3] exI [of _ ?sl] exI [of _ ?P] exI [of _ hs]) (simp add: t3_def t1_def)
  qed
qed

section \<open>Deleting a timer\<close>

lemma del_loop_ok:
  assumes "chain (fld te_next hp) (fld te_next hp pw) (xs @ a # ys)" and "distinct (pw # xs @ a # ys)"
    and "set (pw # xs @ a # ys) \<subseteq> alive hp" and "length (xs @ a # ys) \<le> n"
    and "\<And>b. b \<in> set xs \<Longrightarrow> ehandle hp b \<noteq> ehandle hp a"
  shows "\<exists>hp'. del_loop (ehandle hp a) a hp n pw (fld te_next hp pw) = Inr (Some hp') \<and>
    alive hp' = alive hp - {a} \<and> chain (fld te_next hp') (fld te_next hp' pw) (xs @ ys) \<and>
    (\<forall>b. b \<noteq> a \<longrightarrow> etick hp' b = etick hp b \<and> ehandle hp' b = ehandle hp b) \<and>
    (\<forall>b. b \<notin> set (pw # xs @ [a]) \<longrightarrow> fld te_next hp' b = fld te_next hp b)"
  using assms
proof (induction xs arbitrary: pw n)
  case Nil
  obtain n' where n: "n = Suc n'" using Nil.prems(4) by (cases n) auto
  have a: "a \<in> alive hp" "pw \<in> alive hp" "pw \<noteq> a" "fld te_next hp pw = Some a" using Nil.prems by auto
  let ?h1 = "hset (Some pw) (\<lambda>x. x\<lparr>te_next := te_next (the (hp ! a))\<rparr>) hp"
  have h1: "alive ?h1 = alive hp" "etick ?h1 = etick hp" "ehandle ?h1 = ehandle hp"
      "fld te_next ?h1 = (fld te_next hp)(pw := fld te_next hp a)"
    using a by (simp_all add: fld_hset fld_alive)
  have d: "etick (?h1[a := None]) b = etick ?h1 b" "ehandle (?h1[a := None]) b = ehandle ?h1 b"
      "fld te_next (?h1[a := None]) b = fld te_next ?h1 b" if "b \<noteq> a" for b
    using that by (simp_all add: etick_def ehandle_def fld_delete)
  have run: "del_loop (ehandle hp a) a hp n pw (fld te_next hp pw) = Inr (Some (?h1[a := None]))"
    using a n h1(1) by (simp add: hget_alive ehandle_alive hupd_ok hdel_def)
  have "chain (fld te_next (?h1[a := None])) (fld te_next hp a) ys = chain (fld te_next hp) (fld te_next hp a) ys"
  proof (rule chain_cong)
    fix x assume "x \<in> set ys"
    then have "x \<noteq> a" "x \<noteq> pw" using Nil.prems(2) by auto
    then show "fld te_next (?h1[a := None]) x = fld te_next hp x" using d(3) [of x] h1(4) by simp
  qed
  moreover have "fld te_next (?h1[a := None]) pw = fld te_next hp a" using d(3) [of pw] a h1(4) by simp
  ultimately show ?case
    using run Nil.prems(1) d h1 a by (intro exI [of _ "?h1[a := None]"]) (auto simp: alive_delete)
next
  case (Cons x xs)
  obtain n' where n: "n = Suc n'" "length (xs @ a # ys) \<le> n'" using Cons.prems(4) by (cases n) auto
  have x: "x \<in> alive hp" "fld te_next hp pw = Some x" "ehandle hp x \<noteq> ehandle hp a" "x \<noteq> a" "pw \<noteq> a" "pw \<noteq> x"
    using Cons.prems by auto
  obtain hp' where r: "del_loop (ehandle hp a) a hp n' x (fld te_next hp x) = Inr (Some hp')"
      "alive hp' = alive hp - {a}" "chain (fld te_next hp') (fld te_next hp' x) (xs @ ys)"
      "\<And>b. b \<noteq> a \<Longrightarrow> etick hp' b = etick hp b \<and> ehandle hp' b = ehandle hp b"
      "\<And>b. b \<notin> set (x # xs @ [a]) \<Longrightarrow> fld te_next hp' b = fld te_next hp b"
    using Cons.IH [of x n'] Cons.prems n by auto
  have run: "del_loop (ehandle hp a) a hp n pw (fld te_next hp pw) = Inr (Some hp')"
    using x n r(1) by (simp add: hget_alive ehandle_alive fld_alive)
  have "fld te_next hp' pw = Some x" using r(5) [of pw] x Cons.prems(2) by auto
  then show ?case using run r x by (intro exI [of _ hp']) auto
qed

text \<open>Removal of a pending entry from its slot list, seen by the other slots.\<close>

lemma slots_ok_unlink:
  assumes ok: "slots_ok {} now hp wh sl P" and a: "a \<in> P" "place now (etick hp a) = (w, k)"
    and al: "P - {a} \<subseteq> alive hp'" and tk: "\<And>b. b \<noteq> a \<Longrightarrow> etick hp' b = etick hp b"
    and frame: "\<And>b. b \<notin> set (sl w k) \<Longrightarrow> fld te_next hp' b = fld te_next hp b"
    and ch: "chain (fld te_next hp') p (remove1 a (sl w k))"
    and wh': "wh' = wh[w := (wh ! w)[k := p]]"
  shows "slots_ok {} now hp' wh' (\<lambda>x y. if x = w \<and> y = k then remove1 a (sl w k) else sl x y) (P - {a})"
proof -
  let ?sl = "\<lambda>x y. if x = w \<and> y = k then remove1 a (sl w k) else sl x y"
  have T: "etick hp a < 2 ^ 30" using ok a by (simp add: slots_ok_def)
  then have wk: "w < 3" "k < 1024" using place_range [OF T, of now] a(2) by auto
  have len: "length wh = 3" "\<And>i. i < 3 \<Longrightarrow> length (wh ! i) = 1024" using ok by (auto simp: slots_ok_def)
  have old: "distinct (sl i j)" "set (sl i j) = {b \<in> P. place now (etick hp b) = (i, j)}"
      "chain (fld te_next hp) (wh ! i ! j) (sl i j)" if "i < 3" "j < 1024" for i j
    using ok that by (auto simp: slots_ok_def)
  have "distinct (?sl i j) \<and> set (?sl i j) = {b \<in> P - {a}. place now (etick hp' b) = (i, j)} \<and>
      chain (fld te_next hp') (wh' ! i ! j) (?sl i j)" if ij: "i < 3" "j < 1024" for i j
  proof (cases "i = w \<and> j = k")
    case True
    have "set (remove1 a (sl w k)) = set (sl w k) - {a}" using old(1) [OF wk] by simp
    also have "\<dots> = {b \<in> P - {a}. place now (etick hp' b) = (w, k)}"
      unfolding old(2) [OF wk] using tk by auto
    finally show ?thesis using True ch old(1) [OF wk] len(1) len(2) [OF wk(1)] wk by (simp add: wh')
  next
    case False
    then have s: "?sl i j = sl i j" by auto
    have "wh' ! i ! j = wh ! i ! j" using False len(1) wk(1) by (cases "i = w") (auto simp: wh')
    moreover have "chain (fld te_next hp') (wh ! i ! j) (sl i j) = chain (fld te_next hp) (wh ! i ! j) (sl i j)"
    proof (intro chain_cong frame)
      fix b assume "b \<in> set (sl i j)"
      then have "place now (etick hp b) = (i, j)" using old(2) [OF ij] by blast
      then show "b \<notin> set (sl w k)" unfolding old(2) [OF wk] using False by auto
    qed
    moreover have "set (sl i j) = {b \<in> P - {a}. place now (etick hp' b) = (i, j)}"
    proof -
      have "a \<notin> {b \<in> P. place now (etick hp b) = (i, j)}" using a(2) False by auto
      then have "set (sl i j) = {b \<in> P - {a}. place now (etick hp b) = (i, j)}" unfolding old(2) [OF ij] by blast
      then show ?thesis using tk by auto
    qed
    ultimately show ?thesis using old [OF ij] unfolding s by simp
  qed
  moreover have "length (wh' ! i) = 1024" if "i < 3" for i
    using len(1) len(2) [OF that] that by (cases "i = w") (simp_all add: wh')
  moreover have "\<forall>b \<in> P - {a}. now \<le> etick hp' b \<and> etick hp' b < 2 ^ 30" using ok tk by (simp add: slots_ok_def)
  ultimately show ?thesis using ok al unfolding slots_ok_def by (simp add: wh')
qed

lemma del_timer_ok:
  assumes inv: "timer_inv t sl P" and a: "a \<in> P"
  shows "\<exists>t' sl'. del_timer (ehandle (et_entries t) a) t = Inr (t', 0) \<and> timer_inv t' sl' (P - {a}) \<and>
    et_ticknow t' = et_ticknow t \<and>
    (\<forall>b \<in> P - {a}. etick (et_entries t') b = etick (et_entries t) b \<and> ehandle (et_entries t') b = ehandle (et_entries t) b)"
proof -
  let ?hp = "et_entries t" and ?now = "unat (et_ticknow t)" and ?h = "ehandle (et_entries t) a"
  note D = timer_invD [OF inv]
  obtain w k where wk: "place ?now (etick ?hp a) = (w, k)" by (cases "place ?now (etick ?hp a)")
  have T: "etick ?hp a < 2 ^ 30" using D(3) a by (simp add: slots_ok_def)
  have wk3: "w < 3" "k < 1024" using place_range [OF T, of ?now] wk by auto
  have al: "a \<in> alive ?hp" "P \<subseteq> alive ?hp" using D(6) a by auto
  obtain slot where slot: "which_slot (digits ?now) (te_tick (the (?hp ! a))) = Inr (w, slot)" "unat (slot ! w) = k"
    using which_slot_place [of "te_tick (the (?hp ! a))" ?now] T D(5) wk by (auto simp: etick_alive [OF al(1)])
  obtain m where m: "hmap_remove_get do_hash_uint ?h (et_entry_map t) = Inr (m, Some a)" "map_ok m ?hp (P - {a})"
    using map_ok_remove [OF D(4) a] by blast
  define l where "l = sl w k"
  have l: "distinct l" "set l = {b \<in> P. place ?now (etick ?hp b) = (w, k)}" "chain (fld te_next ?hp) (et_wheel t ! w ! k) l"
    using D(3) wk3 by (auto simp: slots_ok_def l_def)
  have la: "a \<in> set l" "set l \<subseteq> alive ?hp" using l(2) a wk al(2) by auto
  have wg: "wheel_get (et_wheel t) w (slot ! w) = Inr (et_wheel t ! w ! k)"
    using D(3) wk3 slot(2) by (simp add: wheel_get_def slots_ok_def)
  have inj: "ehandle ?hp b \<noteq> ?h" if "b \<in> set l" "b \<noteq> a" for b
    using D(4) that l(2) a by (auto simp: map_ok_def inj_on_def)
  have fin: ?thesis
    if r: "del_timer ?h t = Inr (t\<lparr>et_entry_map := m, et_entries := hp', et_wheel := (et_wheel t)[w := (et_wheel t ! w)[k := p]]\<rparr>, 0)"
      and al': "alive hp' = alive ?hp - {a}" and ch: "chain (fld te_next hp') p (remove1 a l)"
      and same: "\<And>b. b \<noteq> a \<Longrightarrow> etick hp' b = etick ?hp b \<and> ehandle hp' b = ehandle ?hp b"
      and frame: "\<And>b. b \<notin> set l \<Longrightarrow> fld te_next hp' b = fld te_next ?hp b" for hp' p
  proof -
    have "slots_ok {} ?now hp' ((et_wheel t)[w := (et_wheel t ! w)[k := p]])
        (\<lambda>x y. if x = w \<and> y = k then remove1 a (sl w k) else sl x y) (P - {a})"
      using ch same frame al al' unfolding l_def by (intro slots_ok_unlink [OF D(3) a wk]) auto
    moreover have "map_ok m hp' (P - {a})" using m(2) by (rule map_ok_frame) (use same in auto)
    moreover have "\<forall>b \<in> P - {a}. 0 < unat (ehandle hp' b) \<and> unat (ehandle hp' b) \<le> unat (et_handle t)"
      using inv same by (simp add: timer_inv_def)
    ultimately have "timer_inv (t\<lparr>et_entry_map := m, et_entries := hp', et_wheel := (et_wheel t)[w := (et_wheel t ! w)[k := p]]\<rparr>)
        (\<lambda>x y. if x = w \<and> y = k then remove1 a (sl w k) else sl x y) (P - {a})"
      using inv by (simp add: timer_inv_def)
    then show ?thesis using r same by fastforce
  qed
  obtain xs ys where split: "l = xs @ a # ys" using la(1) by (meson split_list)
  have r1: "remove1 a l = xs @ ys" using l(1) split by (simp add: remove1_append)
  show ?thesis
  proof (cases xs)
    case Nil
    have hd: "et_wheel t ! w ! k = Some a" "chain (fld te_next ?hp) (fld te_next ?hp a) ys"
      using l(3) split Nil by auto
    have d: "etick (?hp[a := None]) b = etick ?hp b" "ehandle (?hp[a := None]) b = ehandle ?hp b"
        "fld te_next (?hp[a := None]) b = fld te_next ?hp b" if "b \<noteq> a" for b
      using that by (simp_all add: etick_def ehandle_def fld_delete)
    have ch: "chain (fld te_next (?hp[a := None])) (fld te_next ?hp a) ys"
    proof -
      have "chain (fld te_next (?hp[a := None])) (fld te_next ?hp a) ys = chain (fld te_next ?hp) (fld te_next ?hp a) ys"
      proof (intro chain_cong d)
        fix b assume "b \<in> set ys"
        then show "b \<noteq> a" using l(1) split by auto
      qed
      then show ?thesis using hd by simp
    qed
    have run: "del_timer ?h t = Inr (t\<lparr>et_entry_map := m, et_entries := ?hp[a := None],
        et_wheel := (et_wheel t)[w := (et_wheel t ! w)[k := fld te_next ?hp a]]\<rparr>, 0)"
      using m(1) al slot wg hd D(1)
      by (simp add: del_timer_def hget_alive ehandle_alive [symmetric] fld_alive hdel_def wheel_set_def)
    show ?thesis
    proof (rule fin [OF run alive_delete])
      show "chain (fld te_next (?hp[a := None])) (fld te_next ?hp a) (remove1 a l)" using ch r1 Nil by simp
      fix b assume "b \<notin> set l"
      then have "b \<noteq> a" using la(1) by auto
      then show "fld te_next (?hp[a := None]) b = fld te_next ?hp b" by (rule d(3))
    qed (use d in auto)
  next
    case (Cons pw xs')
    have hd: "et_wheel t ! w ! k = Some pw" "chain (fld te_next ?hp) (fld te_next ?hp pw) (xs' @ a # ys)" "pw \<noteq> a"
        "pw \<in> alive ?hp" "ehandle ?hp pw \<noteq> ?h"
      using l(1,3) split Cons la(2) inj [of pw] by auto
    have "length (xs' @ a # ys) \<le> length ?hp"
      using slot_list_length [OF D(3) wk3] split Cons by (simp add: l_def)
    then obtain hp' where r: "del_loop ?h a ?hp (length ?hp) pw (fld te_next ?hp pw) = Inr (Some hp')"
      "alive hp' = alive ?hp - {a}" "chain (fld te_next hp') (fld te_next hp' pw) (xs' @ ys)"
      "\<And>b. b \<noteq> a \<Longrightarrow> etick hp' b = etick ?hp b \<and> ehandle hp' b = ehandle ?hp b"
      "\<And>b. b \<notin> set (pw # xs' @ [a]) \<Longrightarrow> fld te_next hp' b = fld te_next ?hp b"
      using del_loop_ok [of ?hp pw xs' a ys "length ?hp"] hd l(1) la(2) split Cons inj by (auto simp del: del_loop.simps)
    have run: "del_timer ?h t = Inr (t\<lparr>et_entry_map := m, et_entries := hp'\<rparr>, 0)"
      using m(1) al slot wg hd D(1) r(1)
      by (simp add: del_timer_def hget_alive ehandle_alive [symmetric] fld_alive)
    have wh: "(et_wheel t)[w := (et_wheel t ! w)[k := Some pw]] = et_wheel t"
      using hd(1) by (metis list_update_id)
    show ?thesis
    proof (rule fin [where hp' = hp' and p = "Some pw"])
      show "del_timer ?h t = Inr (t\<lparr>et_entry_map := m, et_entries := hp', et_wheel := (et_wheel t)[w := (et_wheel t ! w)[k := Some pw]]\<rparr>, 0)"
        using run unfolding wh by simp
      show "chain (fld te_next hp') (Some pw) (remove1 a l)" using r(3) r1 Cons by simp
      show "fld te_next hp' b = fld te_next ?hp b" if "b \<notin> set l" for b using that split Cons by (intro r(5)) auto
    qed (use r in auto)
  qed
qed

section \<open>The empty timer\<close>

lemma timer_new_inv:
  assumes "0 < i" and "junk = [0, 0, 0]"
  shows "timer_inv (timer_new i now junk) (\<lambda>_ _. []) {}"
proof -
  have "hmap_wf do_hash_uint (hmap_new (of_nat (kEntryPoolSize * 3)) :: (u32, nat) hmap_t)"
    by (rule hmap_new_wf) (simp_all add: kEntryPoolSize_def)
  moreover have "slots_ok {} 0 [] (replicate TOTAL_WHEEL (replicate SLOT_PER_WHEEL None)) (\<lambda>_ _. []) {}"
    by (simp add: slots_ok_def TOTAL_WHEEL_def SLOT_PER_WHEEL_def)
  ultimately show ?thesis
    using assms by (simp add: timer_inv_def timer_new_def digits_def map_ok_def hmap_new_items)
qed

lemma timer_new_ok: "0 < i \<Longrightarrow> timer_ok (timer_new i now [0, 0, 0])"
  using timer_new_inv [of i "[0, 0, 0]" now] by (auto simp: timer_ok_def timer_ready_def)

text \<open>A callback that starts itself again, as the unit test's does, while there are handles and ticks
  left.\<close>

definition readd_cb :: "u32 \<Rightarrow> 'c \<Rightarrow> u32 \<Rightarrow> 'd \<Rightarrow> ('c, 'd) ev_timer \<Rightarrow> ('c, 'd) ev_timer res" where
  "readd_cb timeout c h d t =
     (if due t timeout < 2 ^ 30 \<and> unat (et_handle t) + 1 < 2 ^ 31
      then rbind (add_timer (Some c) d timeout t) (\<lambda>(t', _). Inr t') else Inr t)"

lemma readd_cb_ok: "callback_ok (readd_cb timeout)"
  unfolding callback_ok_def
proof (intro allI impI)
  fix c h d t sl P
  assume inv: "timer_inv (t :: ('a, 'b) ev_timer) sl P"
  show "\<exists>t' sl' P'. readd_cb timeout c h d t = Inr t' \<and> timer_inv t' sl' P' \<and> timer_ext sl P t sl' P' t'"
  proof (cases "due t timeout < 2 ^ 30 \<and> unat (et_handle t) + 1 < 2 ^ 31")
    case True
    from add_timer_ok [OF inv, of timeout "Some c" d] True obtain t' sl' where
      r: "add_timer (Some c) d timeout t = Inr (t', next_handle (et_handle t))"
        "timer_inv t' sl' (insert (length (et_entries t)) P)"
        "etick (et_entries t') (length (et_entries t)) = due t timeout" "et_ticknow t' = et_ticknow t" "same_clock t t'"
        "\<forall>b \<in> P. b \<in> alive (et_entries t') \<and> the (et_entries t' ! b) = the (et_entries t ! b)"
        "sl' 0 (unat (et_ticknow t) mod 1024) = sl 0 (unat (et_ticknow t) mod 1024)" by blast
    have "readd_cb timeout c h d t = Inr t'" using True r(1) by (simp add: readd_cb_def)
    moreover have "timer_ext sl P t sl' (insert (length (et_entries t)) P) t'"
      unfolding timer_ext_def using r(3-7) due_later [OF timer_invD(2) [OF inv], of timeout] by auto
    ultimately show ?thesis using r(2) by blast
  next
    case False
    then have "readd_cb timeout c h d t = Inr t" unfolding readd_cb_def by (rule if_not_P)
    then show ?thesis using inv timer_ext_refl [OF inv] by blast
  qed
qed

section \<open>Properties\<close>

text \<open>C4: Processing a tick fires exactly the timers due at that tick: the callbacks run once each for
  the handles whose entry is due (and has a callback), every other pending timer stays pending
  with its tick, nothing overdue remains, and the timer is in order again. This holds for every
  callback that itself adds timers, and for all ticks up to the \<open>2 ^ 20\<close>th.\<close>

theorem timer_fires:
  assumes ok: "timer_ok t" and cb: "callback_ok cb"
    and n: "Suc (unat (et_ticknow t)) < 2 ^ 30" "Suc (unat (et_ticknow t)) mod 2 ^ 20 \<noteq> 0"
  shows "\<exists>t' hs. process_tick cb t = Inr (t', hs) \<and> timer_ok t' \<and>
    unat (et_ticknow t') = Suc (unat (et_ticknow t)) \<and>
    distinct hs \<and> set hs = timer_due t (Suc (unat (et_ticknow t))) \<and>
    {p \<in> timer_pending t. snd p \<noteq> Suc (unat (et_ticknow t))} \<subseteq> timer_pending t' \<and>
    (\<forall>p \<in> timer_pending t'. Suc (unat (et_ticknow t)) < snd p)"
proof -
  let ?now = "Suc (unat (et_ticknow t))"
  obtain sl P where inv: "timer_inv t sl P" "timer_ready t P" using ok by (auto simp: timer_ok_def)
  have n2: "?now mod 1048576 \<noteq> 0" using n(2) by simp
  obtain t' sl' P' hs where r: "process_tick cb t = Inr (t', hs)" "timer_inv t' sl' P'" "timer_ready t' P'"
      "et_ticknow t' = et_ticknow t + 1" "distinct hs" "set hs = timer_due t ?now"
      "{a \<in> P. etick (et_entries t) a \<noteq> ?now} \<subseteq> P'"
      "\<forall>a \<in> P. a \<in> P' \<longrightarrow> etick (et_entries t') a = etick (et_entries t) a \<and> ehandle (et_entries t') a = ehandle (et_entries t) a"
    using process_tick_inv [OF inv cb n(1) n2] by blast
  have un: "unat (et_ticknow t') = ?now" using n(1) r(4) unat_add_u32 [of "et_ticknow t" 1] by simp
  note pend = timer_pending_inv [OF timer_invD(4) [OF inv(1)]] and pend' = timer_pending_inv [OF timer_invD(4) [OF r(2)]]
  have "{p \<in> timer_pending t. snd p \<noteq> ?now} \<subseteq> timer_pending t'"
    unfolding pend pend' using r(7,8) by (auto intro!: image_eqI)
  moreover have "\<forall>p \<in> timer_pending t'. ?now < snd p" unfolding pend' using r(3) un by (auto simp: timer_ready_def)
  moreover have "timer_ok t'" using r(2,3) by (auto simp: timer_ok_def)
  ultimately show ?thesis using r un by blast
qed

lemma timer_example:
  "timer_ok (timer_new 10 5 [0, 0, 0] :: (nat, nat) ev_timer)"
  by (rule timer_new_ok) simp

theorem timer_fires_witness:
  "\<exists>t' hs. process_tick (readd_cb 100) (timer_new 10 5 [0, 0, 0] :: (nat, nat) ev_timer) = Inr (t', hs) \<and>
     timer_ok t' \<and> hs = []"
proof -
  let ?t = "timer_new 10 5 [0, 0, 0] :: (nat, nat) ev_timer"
  have tk: "et_ticknow ?t = 0" and due: "timer_due ?t 1 = {}"
    by (simp_all add: timer_new_def timer_due_def hmap_new_items)
  then show ?thesis using timer_fires [OF timer_example readd_cb_ok [of 100]] by auto
qed

text \<open>C12: A timer that is added becomes pending under a fresh handle for the tick \<^verbatim>\<open>timeout / interval\<close>
  from now (at least the next one), without disturbing the others; deleting it by its handle
  succeeds, restores the pending timers, and a second deletion reports that the handle is
  unknown.\<close>

theorem timer_add_del:
  assumes ok: "timer_ok t" and h: "unat (et_handle t) + 1 < 2 ^ 31" and d: "due t timeout < 2 ^ 30"
  shows "\<exists>t1 t2 h. add_timer c x timeout t = Inr (t1, h) \<and> timer_ok t1 \<and> h \<notin> fst ` timer_pending t \<and>
    timer_pending t1 = insert (h, due t timeout) (timer_pending t) \<and>
    del_timer h t1 = Inr (t2, 0) \<and> timer_ok t2 \<and> timer_pending t2 = timer_pending t \<and>
    (\<exists>t3. del_timer h t2 = Inr (t3, - 1))"
proof -
  obtain sl P where inv: "timer_inv t sl P" "timer_ready t P" using ok by (auto simp: timer_ok_def)
  let ?a = "length (et_entries t)" and ?h = "next_handle (et_handle t)"
  obtain t1 sl1 where r: "add_timer c x timeout t = Inr (t1, ?h)" "timer_inv t1 sl1 (insert ?a P)" "?a \<notin> P"
      "etick (et_entries t1) ?a = due t timeout" "ehandle (et_entries t1) ?a = ?h" "et_ticknow t1 = et_ticknow t"
      "\<forall>b \<in> P. b \<in> alive (et_entries t1) \<and> the (et_entries t1 ! b) = the (et_entries t ! b)"
    using add_timer_ok [OF inv(1) h d, of c x] by blast
  have same: "etick (et_entries t1) b = etick (et_entries t) b" "ehandle (et_entries t1) b = ehandle (et_entries t) b" if "b \<in> P" for b
    using r(7) that timer_invD(6) [OF inv(1)] by (auto simp: etick_def ehandle_def fld_def)
  note pend = timer_pending_inv [OF timer_invD(4) [OF inv(1)]] and pend1 = timer_pending_inv [OF timer_invD(4) [OF r(2)]]
  have p1: "timer_pending t1 = insert (?h, due t timeout) (timer_pending t)"
    unfolding pend pend1 using r(4,5) same by simp
  have fresh: "?h \<notin> fst ` timer_pending t"
  proof
    assume "?h \<in> fst ` timer_pending t"
    then obtain b where b: "b \<in> P" "ehandle (et_entries t) b = ?h" by (auto simp: pend)
    then have "unat ?h \<le> unat (et_handle t)" using inv(1) by (auto simp: timer_inv_def)
    then show False using next_handle_ok [OF h] by simp
  qed
  have ok1: "timer_ok t1"
    using r(2) inv(2) same r(4,6) due_later [OF timer_invD(2) [OF inv(1)], of timeout]
    by (auto simp: timer_ok_def timer_ready_def intro!: exI [of _ sl1] exI [of _ "insert ?a P"])
  obtain t2 sl2 where d2: "del_timer ?h t1 = Inr (t2, 0)" "timer_inv t2 sl2 (insert ?a P - {?a})" "et_ticknow t2 = et_ticknow t1"
      "\<forall>b \<in> insert ?a P - {?a}. etick (et_entries t2) b = etick (et_entries t1) b \<and> ehandle (et_entries t2) b = ehandle (et_entries t1) b"
    using del_timer_ok [OF r(2), of ?a] r(5) by auto
  have P: "insert ?a P - {?a} = P" using r(3) by auto
  have same2: "etick (et_entries t2) b = etick (et_entries t) b" "ehandle (et_entries t2) b = ehandle (et_entries t) b" if "b \<in> P" for b
    using d2(4) same [OF that] that P by auto
  have inv2: "timer_inv t2 sl2 P" using d2(2) P by simp
  have p2: "timer_pending t2 = timer_pending t"
    unfolding pend timer_pending_inv [OF timer_invD(4) [OF inv2]] using same2 by (auto intro!: image_eqI)
  have ok2: "timer_ok t2" using inv2 inv(2) same2 d2(3) r(6)
    by (auto simp: timer_ok_def timer_ready_def intro!: exI [of _ sl2] exI [of _ P])
  have "lookup_val (hmap_items (et_entry_map t2)) ?h = None"
  proof -
    have "?h \<notin> fst ` set (hmap_items (et_entry_map t2))"
      using fresh p2 by (force simp: timer_pending_def)
    then show ?thesis by (simp add: lookup_val_def map_of_eq_None_iff [THEN iffD2])
  qed
  then have "\<exists>t3. del_timer ?h t2 = Inr (t3, - 1)"
    using hash_table.take_law [of do_hash_uint "et_entry_map t2" ?h] timer_invD(4) [OF inv2]
    by (auto simp: del_timer_def map_ok_def)
  then show ?thesis using r(1) ok1 fresh p1 d2(1) ok2 p2 by blast
qed

theorem timer_add_del_witness:
  "\<exists>t1 t2 h. add_timer None (7 :: nat) 500 (timer_new 10 5 [0, 0, 0] :: (nat, nat) ev_timer) = Inr (t1, h) \<and>
     timer_pending t1 = {(h, 50)} \<and> del_timer h t1 = Inr (t2, 0) \<and> timer_pending t2 = {}"
proof -
  let ?t = "timer_new 10 5 [0, 0, 0] :: (nat, nat) ev_timer"
  have "timer_pending ?t = {}" "due ?t 500 = 50" "unat (et_handle ?t) = 0"
    by (simp_all add: timer_pending_def timer_new_def hmap_new_items due_def)
  then show ?thesis using timer_add_del [OF timer_example, of 500 None 7] by auto
qed

text \<open>C33: The tick before the second wheel wraps is the last one: when the tick count reaches a multiple
  of \<open>2 ^ 20\<close>, \<^verbatim>\<open>process_tick\<close> reads slot 1024 of a wheel of 1024 slots, before it carries into the
  third wheel.\<close>

theorem timer_overrun:
  assumes ok: "timer_ok t" and n: "Suc (unat (et_ticknow t)) mod 2 ^ 20 = 0"
  shows "process_tick cb t = Inl Mem_error"
proof -
  let ?now = "unat (et_ticknow t)"
  obtain sl P where inv: "timer_inv t sl P" using ok by (auto simp: timer_ok_def)
  note D = timer_invD [OF inv]
  have n': "Suc ?now mod (1024 * 1024) = 0" using n by simp
  have m0: "Suc ?now mod 1024 = 0" using mod_mod_cancel [of 1024 "1024 * 1024" "Suc ?now"] n' by simp
  have low: "now mod 1024 = 1023" if "Suc now mod 1024 = 0" for now :: nat
    using that by (simp add: mod_Suc split: if_splits)
  have "Suc ?now div 1024 = Suc (?now div 1024)" using m0 by (simp add: div_Suc)
  moreover have "Suc ?now div 1024 mod 1024 = 0"
    using n' mod_mult2_eq [of "Suc ?now" 1024 1024] m0 by simp
  ultimately have high: "?now div 1024 mod 1024 = 1023" using low [of "?now div 1024"] by simp
  note dl = digits_low [OF D(5)]
  have w: "wheel_get (et_wheel t) 1 (digits ?now ! 1 + 1) = Inl Mem_error"
    using D(3) dl(4) high by (simp add: wheel_get_def slots_ok_def)
  have "advance_tick t = Inl Mem_error"
    using w dl(3) low [OF m0] by (simp add: advance_tick_def update_wheel_def D(1) SLOT_PER_WHEEL_def Let_def digits_def)
  then show ?thesis by (simp add: process_tick_def)
qed

lemma timer_at_tick:
  assumes "now < 2 ^ 30" and "0 < i"
  shows "timer_ok ((timer_new i 5 [0, 0, 0] :: (nat, nat) ev_timer)\<lparr>et_ticknow := of_nat now, et_slot_now := digits now\<rparr>)"
proof -
  let ?t = "timer_new i 5 [0, 0, 0] :: (nat, nat) ev_timer"
  have "slots_ok {} now (et_entries ?t) (et_wheel ?t) (\<lambda>_ _. []) {}"
    using assms(1) by (simp add: slots_ok_def timer_new_def TOTAL_WHEEL_def SLOT_PER_WHEEL_def)
  moreover have "unat (of_nat now :: u32) = now" using assms(1) by (intro unat_of_nat_u32) simp
  ultimately show ?thesis
    using timer_new_inv [OF assms(2) refl, of 5, where 'a = nat and 'b = nat]
    by (auto simp: timer_ok_def timer_inv_def timer_ready_def intro!: exI [of _ "\<lambda>_ _. []"] exI [of _ "{}"])
qed

theorem timer_overrun_witness:
  "process_tick (readd_cb 10) ((timer_new 10 5 [0, 0, 0] :: (nat, nat) ev_timer)
     \<lparr>et_ticknow := of_nat 1048575, et_slot_now := digits 1048575\<rparr>) = Inl Mem_error"
  by (rule timer_overrun [OF timer_at_tick]) simp_all

lemma timer_ok_clock [simp]:
  "timer_ok (t\<lparr>et_tm_slap := x\<rparr>) = timer_ok t" "timer_ok (t\<lparr>et_tm_now := x\<rparr>) = timer_ok t"
  by (simp_all add: timer_ok_def timer_inv_def timer_ready_def)

lemma unat_add_u64: "unat (x :: u64) + unat y < 2 ^ 64 \<Longrightarrow> unat (x + y) = unat x + unat y"
  by (simp add: unat_word_ariths)

lemma unat_ucast_u64: "unat (ucast (x :: u32) :: u64) = unat x"
  using unat_u32_bound [of x] by (simp add: unsigned_ucast_eq take_bit_nat_eq_self_iff)

lemma routine_loop_ok:
  assumes "timer_ok t" and cb: "callback_ok cb" and "unat (et_tm_now t) \<le> unat (et_tm_slap t) + n"
    and "unat (et_tm_now t) < 2 ^ 63" and "unat (et_ticknow t) + n < 2 ^ 20 - 1"
  shows "\<exists>t' hs. routine_loop cb n t = Inr (t', hs) \<and> timer_ok t' \<and>
    unat (et_tm_now t) \<le> unat (et_tm_slap t')"
  using assms(1,3-5)
proof (induction n arbitrary: t)
  case 0
  then have "\<not> et_tm_slap t < et_tm_now t" by (simp add: word_less_nat_alt)
  then show ?case using 0 by (simp add: routine_loop.simps not_less word_le_nat_alt)
next
  case (Suc n)
  show ?case
  proof (cases "et_tm_slap t < et_tm_now t")
    case False
    then have "routine_loop cb (Suc n) t = Inr (t, [])" by (subst routine_loop.simps) simp
    then show ?thesis using False Suc.prems by (simp add: not_less word_le_nat_alt)
  next
    case True
    define t0 where "t0 = t\<lparr>et_tm_slap := et_tm_slap t + ucast (et_tick_interval t)\<rparr>"
    obtain sl P where inv: "timer_inv t sl P" using Suc.prems(1) by (auto simp: timer_ok_def)
    have i: "0 < unat (et_tick_interval t)" using timer_invD(2) [OF inv] by (simp add: word_gt_0 unat_gt_0)
    have lt: "unat (et_tm_slap t) < unat (et_tm_now t)" using True by (simp add: word_less_nat_alt)
    have slap: "unat (et_tm_slap t0) = unat (et_tm_slap t) + unat (et_tick_interval t)"
      using lt Suc.prems(3) unat_u32_bound [of "et_tick_interval t"]
      unfolding t0_def by (simp add: unat_add_u64 unat_ucast_u64)
    have small: "Suc (unat (et_ticknow t0)) < 1048576" using Suc.prems(4) by (simp add: t0_def)
    obtain t1 hs where r: "process_tick cb t0 = Inr (t1, hs)" "timer_ok t1"
        "unat (et_ticknow t1) = Suc (unat (et_ticknow t0))" "same_clock t0 t1"
    proof -
      obtain sl P where "timer_inv t0 sl P" "timer_ready t0 P" using Suc.prems(1) by (auto simp: t0_def timer_ok_def timer_inv_def timer_ready_def)
      then obtain t1 sl1 P1 hs where q: "process_tick cb t0 = Inr (t1, hs)" "timer_inv t1 sl1 P1" "timer_ready t1 P1"
          "et_ticknow t1 = et_ticknow t0 + 1" "same_clock t0 t1"
        using process_tick_inv [of t0 sl P cb] cb small by auto
      moreover have "unat (et_ticknow t0 + 1) = Suc (unat (et_ticknow t0))"
        using small unat_add_u32 [of "et_ticknow t0" 1] by simp
      ultimately show thesis using that by (auto simp: timer_ok_def)
    qed
    have clk: "et_tm_now t1 = et_tm_now t" "et_tm_slap t1 = et_tm_slap t0"
      using r(4) by (simp_all add: same_clock_def t0_def)
    have "\<exists>t' hs. routine_loop cb n t1 = Inr (t', hs) \<and> timer_ok t' \<and> unat (et_tm_now t1) \<le> unat (et_tm_slap t')"
      using r(2,3) clk slap i Suc.prems small by (intro Suc.IH) (simp_all add: t0_def)
    then obtain t' hs' where "routine_loop cb n t1 = Inr (t', hs')" "timer_ok t'" "unat (et_tm_now t) \<le> unat (et_tm_slap t')"
      using clk by auto
    then show ?thesis using True r(1) by (simp add: routine_loop.simps [of cb "Suc n"] t0_def)
  qed
qed

text \<open>C35: \<^verbatim>\<open>timer_routine\<close> returns: for a timer in order, with at most \<open>2 ^ 20 - 60001\<close> ticks behind it, the
  loop processes the missed ticks (none when it was blocked for more than a minute) and ends with
  the timer in order and its clock not behind the time of day.\<close>

theorem timer_routine_terminates:
  assumes "timer_ok t" and "callback_ok cb" and "unat now < 2 ^ 63" and "unat (et_tm_slap t) < 2 ^ 63"
    and "unat (et_ticknow t) + 60000 < 2 ^ 20 - 1"
  shows "\<exists>t' hs. timer_routine cb now t = Inr (t', hs) \<and> timer_ok t' \<and> unat now \<le> unat (et_tm_slap t')"
proof -
  have slap: "unat (et_tm_slap t + 60000) = unat (et_tm_slap t) + 60000"
    using assms(4) unat_add_u64 [of "et_tm_slap t" 60000] by simp
  define t1 where "t1 = (if now > et_tm_slap t + 60000 then t\<lparr>et_tm_now := now, et_tm_slap := now\<rparr> else t\<lparr>et_tm_now := now\<rparr>)"
  have "timer_ok t1" "et_tm_now t1 = now" "et_ticknow t1 = et_ticknow t" using assms(1) by (simp_all add: t1_def)
  moreover have "unat now \<le> unat (et_tm_slap t1) + 60000"
    using slap by (auto simp: t1_def word_less_nat_alt)
  moreover have "timer_routine cb now t = routine_loop cb 60000 t1"
    by (simp add: timer_routine_def Let_def t1_def)
  ultimately show ?thesis using routine_loop_ok [of t1 cb 60000] assms by simp
qed

theorem timer_routine_terminates_witness:
  "\<exists>t' hs. timer_routine (readd_cb 100) 70000 (timer_new 10 5 [0, 0, 0] :: (nat, nat) ev_timer) = Inr (t', hs) \<and> timer_ok t'"
proof -
  have "et_tm_slap (timer_new 10 5 [0, 0, 0] :: (nat, nat) ev_timer) = 0"
    "et_ticknow (timer_new 10 5 [0, 0, 0] :: (nat, nat) ev_timer) = 0" by (simp_all add: timer_new_def)
  then show ?thesis using timer_routine_terminates [OF timer_example readd_cb_ok [of 100], of 70000] by auto
qed

end
