(* ===== verification/Proto_Msg.thy ===== *)
theory Proto_Msg
  imports Ax_Prelude
begin

text \<open>
  The messages between nodes and worker threads: the message header of \<^verbatim>\<open>src/core/ax_proto_msg.h\<close>,
  and the classes of \<^verbatim>\<open>src/proto/cgate_msg_pb.h\<close>, \<^verbatim>\<open>cgate_msg_pb.cc\<close>, \<^verbatim>\<open>node_msg_pb.h\<close> and
  \<^verbatim>\<open>node_msg_pb.cc\<close>, each with its fields, \<^verbatim>\<open>cal_size\<close>, \<^verbatim>\<open>pack\<close> and \<^verbatim>\<open>unpack\<close>. A pointer argument is
  the rest of the block it points into (\<^const>\<open>None\<close> is null); \<open>avail\<close> is what the caller claims. Signed
  and unsigned fields are words of their width. The abstract class \<^verbatim>\<open>proto_msg_t\<close> is the locale
  \<open>proto_msg\<close>.
\<close>

section \<open>Access to fields\<close>

definition put32 :: "nat \<Rightarrow> u32 \<Rightarrow> block \<Rightarrow> block res" where
  "put32 off w b = blk_write b off (map Some (le32 w))"

definition put16 :: "nat \<Rightarrow> u16 \<Rightarrow> block \<Rightarrow> block res" where
  "put16 off w b = blk_write b off (map Some (le16 w))"

definition put8 :: "nat \<Rightarrow> u8 \<Rightarrow> block \<Rightarrow> block res" where
  "put8 off w b = blk_write b off [Some w]"

definition get32 :: "nat \<Rightarrow> block \<Rightarrow> u32 res" where
  "get32 off b = rbind (rbind (blk_read b off 4) cells_bytes) (\<lambda>bs. Inr (un_le32 bs))"

definition get16 :: "nat \<Rightarrow> block \<Rightarrow> u16 res" where
  "get16 off b = rbind (rbind (blk_read b off 2) cells_bytes) (\<lambda>bs. Inr (un_le16 bs))"

definition get8 :: "nat \<Rightarrow> block \<Rightarrow> u8 res" where
  "get8 off b = rbind (rbind (blk_read b off 1) cells_bytes) (\<lambda>bs. Inr (hd bs))"

section \<open>The message header\<close>

definition MAX_PROTO_LEN :: nat where "MAX_PROTO_LEN = 32000"
definition MSG_HEADER_LEN :: nat where "MSG_HEADER_LEN = 4"

record msg_header_t =
  mh_proto :: u16
  mh_pl_len :: u16

text \<open>\<^verbatim>\<open>UNPACK_HEADER\<close> on a \<^verbatim>\<open>char*\<close>: the characters are promoted to \<^verbatim>\<open>int\<close> with their sign.\<close>

definition header_u16 :: "u8 \<Rightarrow> u8 \<Rightarrow> u16" where
  "header_u16 lo hi = ucast ((scast lo :: u32) OR push_bit 8 (scast hi))"

definition UNPACK_HEADER :: "block \<Rightarrow> msg_header_t res" where
  "UNPACK_HEADER p =
     rbind (get8 0 p) (\<lambda>b0. rbind (get8 1 p) (\<lambda>b1. rbind (get8 2 p) (\<lambda>b2. rbind (get8 3 p) (\<lambda>b3.
       Inr \<lparr>mh_proto = header_u16 b0 b1, mh_pl_len = header_u16 b2 b3\<rparr>))))"

definition PACK_HEADER :: "msg_header_t \<Rightarrow> block \<Rightarrow> block res" where
  "PACK_HEADER h p =
     rbind (put8 0 (ucast (mh_proto h)) p) (\<lambda>p. rbind (put8 1 (ucast (drop_bit 8 (mh_proto h))) p) (\<lambda>p.
     rbind (put8 2 (ucast (mh_pl_len h)) p) (\<lambda>p. put8 3 (ucast (drop_bit 8 (mh_pl_len h))) p)))"

section \<open>The message classes\<close>

record pb_conn_notify =
  cn_fd :: u32
  cn_hid :: u32
  cn_action :: u8

text \<open>The values of \<^verbatim>\<open>action\<close> and \<^verbatim>\<open>cmd\<close> the classes declare.\<close>

definition PEER_TIMEOUT :: u8 where "PEER_TIMEOUT = 2"
definition PEER_CLOSE :: u8 where "PEER_CLOSE = 1"
definition DO_CLOSE :: u8 where "DO_CLOSE = 1"
definition WORKER_START_OK :: u16 where "WORKER_START_OK = 1"

definition pb_conn_notify_id :: u16 where "pb_conn_notify_id = 4"

definition pb_conn_notify_init :: pb_conn_notify where
  "pb_conn_notify_init = \<lparr>cn_fd = 0, cn_hid = 0, cn_action = 0\<rparr>"

definition pb_conn_notify_cal_size :: "pb_conn_notify \<Rightarrow> int" where "pb_conn_notify_cal_size m = 9"

definition pb_conn_notify_unpack :: "block option \<Rightarrow> u32 \<Rightarrow> pb_conn_notify \<Rightarrow> (pb_conn_notify \<times> int) res" where
  "pb_conn_notify_unpack p avail m =
     (case p of None \<Rightarrow> Inr (m, - 1)
      | Some b \<Rightarrow>
          if avail < 9 then Inr (m, - 1)
          else
            rbind (get32 0 b) (\<lambda>fd_v.
            rbind (get32 4 b) (\<lambda>hid_v.
            rbind (get8 8 b) (\<lambda>action_v.
              Inr (m\<lparr>cn_fd := fd_v, cn_hid := hid_v, cn_action := action_v\<rparr>, 9)))))"

definition pb_conn_notify_pack :: "pb_conn_notify \<Rightarrow> block option \<Rightarrow> u32 \<Rightarrow> (block option \<times> int) res" where
  "pb_conn_notify_pack m p avail =
     (case p of None \<Rightarrow> Inr (p, - 1)
      | Some b \<Rightarrow>
          if avail < 9 then Inr (p, - 1)
          else
            rbind (put32 0 (cn_fd m) b) (\<lambda>b.
            rbind (put32 4 (cn_hid m) b) (\<lambda>b.
            rbind (put8 8 (cn_action m) b) (\<lambda>b.
              Inr (Some b, 9)))))"

record pb_cgate_newconn =
  nc_fd :: u32
  nc_hid :: u32
  nc_ip :: u64
  nc_port :: u16

definition pb_cgate_newconn_id :: u16 where "pb_cgate_newconn_id = 1"

definition pb_cgate_newconn_init :: pb_cgate_newconn where
  "pb_cgate_newconn_init = \<lparr>nc_fd = 0, nc_hid = 0, nc_ip = 0, nc_port = 0\<rparr>"

definition pb_cgate_newconn_cal_size :: "pb_cgate_newconn \<Rightarrow> int" where "pb_cgate_newconn_cal_size m = 18"

text \<open>The 64-bit address is assembled from signed characters, and the upper four bytes are or-ed into
  the lower half.\<close>

definition newconn_half :: "u8 \<Rightarrow> u8 \<Rightarrow> u8 \<Rightarrow> u8 \<Rightarrow> u64" where
  "newconn_half b0 b1 b2 b3 =
     scast ((scast b0 :: u32) OR push_bit 8 (scast b1)) OR
     scast (push_bit 16 (scast b2 :: u32) OR push_bit 24 (scast b3))"

definition newconn_ip :: "nat \<Rightarrow> block \<Rightarrow> u64 res" where
  "newconn_ip off b =
     rbind (get8 off b) (\<lambda>b0. rbind (get8 (off + 1) b) (\<lambda>b1. rbind (get8 (off + 2) b) (\<lambda>b2. rbind (get8 (off + 3) b) (\<lambda>b3.
     rbind (get8 (off + 4) b) (\<lambda>b4. rbind (get8 (off + 5) b) (\<lambda>b5. rbind (get8 (off + 6) b) (\<lambda>b6. rbind (get8 (off + 7) b) (\<lambda>b7.
       Inr (newconn_half b0 b1 b2 b3 OR newconn_half b4 b5 b6 b7)))))))))"

definition put_ip :: "nat \<Rightarrow> u64 \<Rightarrow> block \<Rightarrow> block res" where
  "put_ip off ip b =
     rbind (put8 off (ucast ip) b) (\<lambda>b. rbind (put8 (off + 1) (ucast (drop_bit 8 ip)) b) (\<lambda>b.
     rbind (put8 (off + 2) (ucast (drop_bit 16 ip)) b) (\<lambda>b. rbind (put8 (off + 3) (ucast (drop_bit 24 ip)) b) (\<lambda>b.
     rbind (put8 (off + 4) (ucast (drop_bit 32 ip)) b) (\<lambda>b. rbind (put8 (off + 5) (ucast (drop_bit 40 ip)) b) (\<lambda>b.
     rbind (put8 (off + 6) (ucast (drop_bit 48 ip)) b) (\<lambda>b. put8 (off + 7) (ucast (drop_bit 56 ip)) b)))))))"

definition pb_cgate_newconn_unpack :: "block option \<Rightarrow> u32 \<Rightarrow> pb_cgate_newconn \<Rightarrow> (pb_cgate_newconn \<times> int) res" where
  "pb_cgate_newconn_unpack p avail m =
     (case p of None \<Rightarrow> Inr (m, - 1)
      | Some b \<Rightarrow>
          if avail < 18 then Inr (m, - 1)
          else
            rbind (get32 0 b) (\<lambda>fd_v.
            rbind (get32 4 b) (\<lambda>hid_v.
            rbind (newconn_ip 8 b) (\<lambda>ip_v.
            rbind (get16 16 b) (\<lambda>port_v.
              Inr (m\<lparr>nc_fd := fd_v, nc_hid := hid_v, nc_ip := ip_v, nc_port := port_v\<rparr>, 18))))))"

definition pb_cgate_newconn_pack :: "pb_cgate_newconn \<Rightarrow> block option \<Rightarrow> u32 \<Rightarrow> (block option \<times> int) res" where
  "pb_cgate_newconn_pack m p avail =
     (case p of None \<Rightarrow> Inr (p, - 1)
      | Some b \<Rightarrow>
          if avail < 18 then Inr (p, - 1)
          else
            rbind (put32 0 (nc_fd m) b) (\<lambda>b.
            rbind (put32 4 (nc_hid m) b) (\<lambda>b.
            rbind (put_ip 8 (nc_ip m) b) (\<lambda>b.
            rbind (put16 16 (nc_port m) b) (\<lambda>b.
              Inr (Some b, 18))))))"

record pb_conn_ctrl =
  cc_fd :: u32
  cc_hid :: u32
  cc_action :: u8

definition pb_conn_ctrl_id :: u16 where "pb_conn_ctrl_id = 5"

definition pb_conn_ctrl_init :: pb_conn_ctrl where
  "pb_conn_ctrl_init = \<lparr>cc_fd = 0, cc_hid = 0, cc_action = 0\<rparr>"

definition pb_conn_ctrl_cal_size :: "pb_conn_ctrl \<Rightarrow> int" where "pb_conn_ctrl_cal_size m = 9"

definition pb_conn_ctrl_unpack :: "block option \<Rightarrow> u32 \<Rightarrow> pb_conn_ctrl \<Rightarrow> (pb_conn_ctrl \<times> int) res" where
  "pb_conn_ctrl_unpack p avail m =
     (case p of None \<Rightarrow> Inr (m, - 1)
      | Some b \<Rightarrow>
          if avail < 9 then Inr (m, - 1)
          else
            rbind (get32 0 b) (\<lambda>fd_v.
            rbind (get32 4 b) (\<lambda>hid_v.
            rbind (get8 8 b) (\<lambda>action_v.
              Inr (m\<lparr>cc_fd := fd_v, cc_hid := hid_v, cc_action := action_v\<rparr>, 9)))))"

definition pb_conn_ctrl_pack :: "pb_conn_ctrl \<Rightarrow> block option \<Rightarrow> u32 \<Rightarrow> (block option \<times> int) res" where
  "pb_conn_ctrl_pack m p avail =
     (case p of None \<Rightarrow> Inr (p, - 1)
      | Some b \<Rightarrow>
          if avail < 9 then Inr (p, - 1)
          else
            rbind (put32 0 (cc_fd m) b) (\<lambda>b.
            rbind (put32 4 (cc_hid m) b) (\<lambda>b.
            rbind (put8 8 (cc_action m) b) (\<lambda>b.
              Inr (Some b, 9)))))"

record pb_worker_ctrl =
  wc_cmd :: u16
  wc_lparam :: u32

definition pb_worker_ctrl_id :: u16 where "pb_worker_ctrl_id = 2"

definition pb_worker_ctrl_init :: pb_worker_ctrl where
  "pb_worker_ctrl_init = \<lparr>wc_cmd = 0, wc_lparam = 0\<rparr>"

definition pb_worker_ctrl_cal_size :: "pb_worker_ctrl \<Rightarrow> int" where "pb_worker_ctrl_cal_size m = 6"

definition pb_worker_ctrl_unpack :: "block option \<Rightarrow> u32 \<Rightarrow> pb_worker_ctrl \<Rightarrow> (pb_worker_ctrl \<times> int) res" where
  "pb_worker_ctrl_unpack p avail m =
     (case p of None \<Rightarrow> Inr (m, - 1)
      | Some b \<Rightarrow>
          if avail < 6 then Inr (m, - 1)
          else
            rbind (get16 0 b) (\<lambda>cmd_v.
            rbind (get32 2 b) (\<lambda>lparam_v.
              Inr (m\<lparr>wc_cmd := cmd_v, wc_lparam := lparam_v\<rparr>, 6))))"

definition pb_worker_ctrl_pack :: "pb_worker_ctrl \<Rightarrow> block option \<Rightarrow> u32 \<Rightarrow> (block option \<times> int) res" where
  "pb_worker_ctrl_pack m p avail =
     (case p of None \<Rightarrow> Inr (p, - 1)
      | Some b \<Rightarrow>
          if avail < 6 then Inr (p, - 1)
          else
            rbind (put16 0 (wc_cmd m) b) (\<lambda>b.
            rbind (put32 2 (wc_lparam m) b) (\<lambda>b.
              Inr (Some b, 6))))"

record pb_worker_notify =
  wn_cmd :: u16
  wn_lparam :: u32
  wn_wparam :: u16

definition pb_worker_notify_id :: u16 where "pb_worker_notify_id = 3"

definition pb_worker_notify_init :: pb_worker_notify where
  "pb_worker_notify_init = \<lparr>wn_cmd = 0, wn_lparam = 0, wn_wparam = 0\<rparr>"

definition pb_worker_notify_cal_size :: "pb_worker_notify \<Rightarrow> int" where "pb_worker_notify_cal_size m = 8"

definition pb_worker_notify_unpack :: "block option \<Rightarrow> u32 \<Rightarrow> pb_worker_notify \<Rightarrow> (pb_worker_notify \<times> int) res" where
  "pb_worker_notify_unpack p avail m =
     (case p of None \<Rightarrow> Inr (m, - 1)
      | Some b \<Rightarrow>
          if avail < 8 then Inr (m, - 1)
          else
            rbind (get16 0 b) (\<lambda>cmd_v.
            rbind (get32 2 b) (\<lambda>lparam_v.
            rbind (get16 6 b) (\<lambda>wparam_v.
              Inr (m\<lparr>wn_cmd := cmd_v, wn_lparam := lparam_v, wn_wparam := wparam_v\<rparr>, 8)))))"

definition pb_worker_notify_pack :: "pb_worker_notify \<Rightarrow> block option \<Rightarrow> u32 \<Rightarrow> (block option \<times> int) res" where
  "pb_worker_notify_pack m p avail =
     (case p of None \<Rightarrow> Inr (p, - 1)
      | Some b \<Rightarrow>
          if avail < 8 then Inr (p, - 1)
          else
            rbind (put16 0 (wn_cmd m) b) (\<lambda>b.
            rbind (put32 2 (wn_lparam m) b) (\<lambda>b.
            rbind (put16 6 (wn_wparam m) b) (\<lambda>b.
              Inr (Some b, 8)))))"

record pb_client_unicast =
  cu_hid :: u32
  cu_main_proto :: u16
  cu_sub_proto :: u16

definition pb_client_unicast_id :: u16 where "pb_client_unicast_id = 3"

definition pb_client_unicast_init :: pb_client_unicast where
  "pb_client_unicast_init = \<lparr>cu_hid = 0, cu_main_proto = 0, cu_sub_proto = 0\<rparr>"

definition pb_client_unicast_cal_size :: "pb_client_unicast \<Rightarrow> int" where "pb_client_unicast_cal_size m = 8"

definition pb_client_unicast_unpack :: "block option \<Rightarrow> u32 \<Rightarrow> pb_client_unicast \<Rightarrow> (pb_client_unicast \<times> int) res" where
  "pb_client_unicast_unpack p avail m =
     (case p of None \<Rightarrow> Inr (m, - 1)
      | Some b \<Rightarrow>
          if avail < 8 then Inr (m, - 1)
          else
            rbind (get32 0 b) (\<lambda>hid_v.
            rbind (get16 4 b) (\<lambda>main_proto_v.
            rbind (get16 6 b) (\<lambda>sub_proto_v.
              Inr (m\<lparr>cu_hid := hid_v, cu_main_proto := main_proto_v, cu_sub_proto := sub_proto_v\<rparr>, 8)))))"

definition pb_client_unicast_pack :: "pb_client_unicast \<Rightarrow> block option \<Rightarrow> u32 \<Rightarrow> (block option \<times> int) res" where
  "pb_client_unicast_pack m p avail =
     (case p of None \<Rightarrow> Inr (p, - 1)
      | Some b \<Rightarrow>
          if avail < 8 then Inr (p, - 1)
          else
            rbind (put32 0 (cu_hid m) b) (\<lambda>b.
            rbind (put16 4 (cu_main_proto m) b) (\<lambda>b.
            rbind (put16 6 (cu_sub_proto m) b) (\<lambda>b.
              Inr (Some b, 8)))))"

record pb_client_req =
  cr_hid :: u32
  cr_main_proto :: u16
  cr_sub_proto :: u16

definition pb_client_req_id :: u16 where "pb_client_req_id = 2"

definition pb_client_req_init :: pb_client_req where
  "pb_client_req_init = \<lparr>cr_hid = 0, cr_main_proto = 0, cr_sub_proto = 0\<rparr>"

definition pb_client_req_cal_size :: "pb_client_req \<Rightarrow> int" where "pb_client_req_cal_size m = 8"

definition pb_client_req_unpack :: "block option \<Rightarrow> u32 \<Rightarrow> pb_client_req \<Rightarrow> (pb_client_req \<times> int) res" where
  "pb_client_req_unpack p avail m =
     (case p of None \<Rightarrow> Inr (m, - 1)
      | Some b \<Rightarrow>
          if avail < 8 then Inr (m, - 1)
          else
            rbind (get32 0 b) (\<lambda>hid_v.
            rbind (get16 4 b) (\<lambda>main_proto_v.
            rbind (get16 6 b) (\<lambda>sub_proto_v.
              Inr (m\<lparr>cr_hid := hid_v, cr_main_proto := main_proto_v, cr_sub_proto := sub_proto_v\<rparr>, 8)))))"

definition pb_client_req_pack :: "pb_client_req \<Rightarrow> block option \<Rightarrow> u32 \<Rightarrow> (block option \<times> int) res" where
  "pb_client_req_pack m p avail =
     (case p of None \<Rightarrow> Inr (p, - 1)
      | Some b \<Rightarrow>
          if avail < 8 then Inr (p, - 1)
          else
            rbind (put32 0 (cr_hid m) b) (\<lambda>b.
            rbind (put16 4 (cr_main_proto m) b) (\<lambda>b.
            rbind (put16 6 (cr_sub_proto m) b) (\<lambda>b.
              Inr (Some b, 8)))))"

record pb_cgate_ctrl =
  ct_cmd :: u16

definition pb_cgate_ctrl_id :: u16 where "pb_cgate_ctrl_id = 1"

definition pb_cgate_ctrl_init :: pb_cgate_ctrl where
  "pb_cgate_ctrl_init = \<lparr>ct_cmd = 0\<rparr>"

definition pb_cgate_ctrl_cal_size :: "pb_cgate_ctrl \<Rightarrow> int" where "pb_cgate_ctrl_cal_size m = 2"

definition pb_cgate_ctrl_unpack :: "block option \<Rightarrow> u32 \<Rightarrow> pb_cgate_ctrl \<Rightarrow> (pb_cgate_ctrl \<times> int) res" where
  "pb_cgate_ctrl_unpack p avail m =
     (case p of None \<Rightarrow> Inr (m, - 1)
      | Some b \<Rightarrow>
          if avail < 2 then Inr (m, - 1)
          else
            rbind (get16 0 b) (\<lambda>cmd_v.
              Inr (m\<lparr>ct_cmd := cmd_v\<rparr>, 2)))"

definition pb_cgate_ctrl_pack :: "pb_cgate_ctrl \<Rightarrow> block option \<Rightarrow> u32 \<Rightarrow> (block option \<times> int) res" where
  "pb_cgate_ctrl_pack m p avail =
     (case p of None \<Rightarrow> Inr (p, - 1)
      | Some b \<Rightarrow>
          if avail < 2 then Inr (p, - 1)
          else
            rbind (put16 0 (ct_cmd m) b) (\<lambda>b.
              Inr (Some b, 2)))"

section \<open>The contract of a message class\<close>

text \<open>The bytes each class writes.\<close>

definition pb_conn_notify_bytes :: "pb_conn_notify \<Rightarrow> u8 list" where
  "pb_conn_notify_bytes m = le32 (cn_fd m) @ le32 (cn_hid m) @ [cn_action m]"

definition pb_cgate_newconn_bytes :: "pb_cgate_newconn \<Rightarrow> u8 list" where
  "pb_cgate_newconn_bytes m = le32 (nc_fd m) @ le32 (nc_hid m) @ le32 (ucast (nc_ip m)) @ le32 (ucast (drop_bit 32 (nc_ip m))) @ le16 (nc_port m)"

definition pb_conn_ctrl_bytes :: "pb_conn_ctrl \<Rightarrow> u8 list" where
  "pb_conn_ctrl_bytes m = le32 (cc_fd m) @ le32 (cc_hid m) @ [cc_action m]"

definition pb_worker_ctrl_bytes :: "pb_worker_ctrl \<Rightarrow> u8 list" where
  "pb_worker_ctrl_bytes m = le16 (wc_cmd m) @ le32 (wc_lparam m)"

definition pb_worker_notify_bytes :: "pb_worker_notify \<Rightarrow> u8 list" where
  "pb_worker_notify_bytes m = le16 (wn_cmd m) @ le32 (wn_lparam m) @ le16 (wn_wparam m)"

definition pb_client_unicast_bytes :: "pb_client_unicast \<Rightarrow> u8 list" where
  "pb_client_unicast_bytes m = le32 (cu_hid m) @ le16 (cu_main_proto m) @ le16 (cu_sub_proto m)"

definition pb_client_req_bytes :: "pb_client_req \<Rightarrow> u8 list" where
  "pb_client_req_bytes m = le32 (cr_hid m) @ le16 (cr_main_proto m) @ le16 (cr_sub_proto m)"

definition pb_cgate_ctrl_bytes :: "pb_cgate_ctrl \<Rightarrow> u8 list" where
  "pb_cgate_ctrl_bytes m = le16 (ct_cmd m)"

text \<open>\<open>pack\<close> writes the bytes of the message at the start of the block when there is room and reports their
  number; otherwise it reports \<open>- 1\<close> and writes nothing.\<close>

text \<open>A message object as its user sees it, with its size and its \<open>pack\<close> method.\<close>

definition packs_as :: "int \<times> (block option \<Rightarrow> u32 \<Rightarrow> (block option \<times> int) res) \<Rightarrow> u8 list \<Rightarrow> bool" where
  "packs_as obj bs \<longleftrightarrow> fst obj = int (length bs) \<and>
     (\<forall>b. length bs \<le> length b \<longrightarrow>
        snd obj (Some b) (word_of_int (fst obj)) = Inr (Some (map Some bs @ drop (length bs) b), fst obj))"

locale msg_packer =
  fixes cal_size :: "'m \<Rightarrow> int"
    and pack :: "'m \<Rightarrow> block option \<Rightarrow> u32 \<Rightarrow> (block option \<times> int) res"
    and bytes :: "'m \<Rightarrow> u8 list"
  assumes size_law: "cal_size m = int (length (bytes m))"
    and pack_law: "length (bytes m) \<le> unat avail \<Longrightarrow> unat avail \<le> length b \<Longrightarrow>
      pack m (Some b) avail = Inr (Some (map Some (bytes m) @ drop (length (bytes m)) b), cal_size m)"
    and pack_short: "unat avail < length (bytes m) \<Longrightarrow> pack m (Some b) avail = Inr (Some b, - 1)"
    and pack_null: "pack m None avail = Inr (None, - 1)"
begin

lemma packs_as: "length (bytes m) < 2 ^ 32 \<Longrightarrow> packs_as (cal_size m, pack m) (bytes m)"
  using pack_law [of m "of_nat (length (bytes m))"] unat_of_nat_u32 [of "length (bytes m)"]
  by (simp add: packs_as_def size_law)

lemma pack_prefix:
  assumes "length (bytes m) \<le> unat avail" and "unat avail \<le> length b" and "pack m (Some b) avail = Inr (Some b', r)"
  shows "take (length (bytes m)) b' = map Some (bytes m)" and "length b' = length b" and "r = cal_size m"
  using assms pack_law [OF assms(1,2)] by auto

end

text \<open>What a caller of both directions relies on: a packed message is read back, whatever the receiving
  object held before, and a call without room, or on a null pointer, reports \<open>- 1\<close> and changes nothing.\<close>

definition round_trips ::
    "('m \<Rightarrow> int) \<Rightarrow> ('m \<Rightarrow> block option \<Rightarrow> u32 \<Rightarrow> (block option \<times> int) res) \<Rightarrow>
     (block option \<Rightarrow> u32 \<Rightarrow> 'm \<Rightarrow> ('m \<times> int) res) \<Rightarrow> bool" where
  "round_trips cal_size pack unpack \<longleftrightarrow>
     (\<forall>m m0 b avail.
        (cal_size m \<le> int (unat avail) \<longrightarrow> unat avail \<le> length b \<longrightarrow>
           (\<exists>b'. pack m (Some b) avail = Inr (Some b', cal_size m) \<and>
              length b' = length b \<and> drop (nat (cal_size m)) b' = drop (nat (cal_size m)) b \<and>
              unpack (Some b') avail m0 = Inr (m, cal_size m))) \<and>
        (int (unat avail) < cal_size m \<longrightarrow>
           pack m (Some b) avail = Inr (Some b, - 1) \<and> unpack (Some b) avail m0 = Inr (m0, - 1)) \<and>
        pack m None avail = Inr (None, - 1) \<and> unpack None avail m0 = Inr (m0, - 1))"

locale proto_msg = msg_packer +
  fixes unpack :: "block option \<Rightarrow> u32 \<Rightarrow> 'a \<Rightarrow> ('a \<times> int) res"
  assumes unpack_law: "length (bytes m) \<le> unat avail \<Longrightarrow>
      unpack (Some (map Some (bytes m) @ r)) avail m0 = Inr (m, cal_size m)"
    and unpack_short: "unat avail < length (bytes m) \<Longrightarrow> unpack (Some b) avail m0 = Inr (m0, - 1)"
    and unpack_null: "unpack None avail m0 = Inr (m0, - 1)"
begin

lemma round_trip:
  assumes "length (bytes m) \<le> unat avail" and "unat avail \<le> length b"
  shows "\<exists>b'. pack m (Some b) avail = Inr (Some b', cal_size m) \<and> unpack (Some b') avail m0 = Inr (m, cal_size m)"
  using pack_law [OF assms] unpack_law [OF assms(1)] by simp

lemma round_trips: "round_trips cal_size pack unpack"
  unfolding round_trips_def
proof (intro allI conjI impI)
  fix m m0 :: 'a and b :: block and avail :: u32
  assume "cal_size m \<le> int (unat avail)" and "unat avail \<le> length b"
  then have "length (bytes m) \<le> unat avail" and l: "unat avail \<le> length b"
    unfolding size_law of_nat_le_iff by simp_all
  then show "\<exists>b'. pack m (Some b) avail = Inr (Some b', cal_size m) \<and>
      length b' = length b \<and> drop (nat (cal_size m)) b' = drop (nat (cal_size m)) b \<and>
      unpack (Some b') avail m0 = Inr (m, cal_size m)"
    by (simp add: pack_law unpack_law) (simp add: size_law)
next
  fix m m0 :: 'a and b :: block and avail :: u32
  assume "int (unat avail) < cal_size m"
  then have "unat avail < length (bytes m)" unfolding size_law of_nat_less_iff .
  then show "pack m (Some b) avail = Inr (Some b, - 1)" and "unpack (Some b) avail m0 = Inr (m0, - 1)"
    by (simp_all add: pack_short unpack_short)
qed (simp_all add: pack_null unpack_null)

text \<open>Two messages one after the other, the second at the distance the first call reports.\<close>

lemma two_messages:
  assumes "length (bytes m1) + length (bytes m2) \<le> length b" and "length b < 2 ^ 32"
  shows "\<exists>b1 b2. pack m1 (Some b) (of_nat (length b)) = Inr (Some b1, cal_size m1) \<and>
    pack m2 (Some (drop (nat (cal_size m1)) b1)) (of_nat (length b - length (bytes m1))) = Inr (Some b2, cal_size m2) \<and>
    unpack (Some (take (length (bytes m1)) b1 @ b2)) (of_nat (length b)) m0 = Inr (m1, cal_size m1) \<and>
    unpack (Some b2) (of_nat (length b - length (bytes m1))) m0 = Inr (m2, cal_size m2)"
proof -
  define n where "n = length (bytes m1)"
  define av where "av = (of_nat (length b) :: u32)"
  define av2 where "av2 = (of_nat (length b - n) :: u32)"
  let ?b1 = "map Some (bytes m1) @ drop n b"
  let ?b2 = "map Some (bytes m2) @ drop (length (bytes m2)) (drop n b)"
  have u: "unat av = length b" "unat av2 = length b - n"
    unfolding av_def av2_def using assms(2) by (intro unat_of_nat_u32; simp)+
  have le: "n + length (bytes m2) \<le> length b" using assms(1) by (simp add: n_def)
  have p1: "pack m1 (Some b) av = Inr (Some ?b1, cal_size m1)"
    using pack_law [of m1 av b] le by (simp add: u n_def)
  have d: "drop (nat (cal_size m1)) ?b1 = drop n b" by (simp add: size_law n_def)
  have p2: "pack m2 (Some (drop n b)) av2 = Inr (Some ?b2, cal_size m2)"
    using le by (intro pack_law) (simp_all add: u)
  have u1: "unpack (Some (take n ?b1 @ ?b2)) av m0 = Inr (m1, cal_size m1)"
    using unpack_law [of m1 av ?b2 m0] le by (simp add: u n_def)
  have u2: "unpack (Some ?b2) av2 m0 = Inr (m2, cal_size m2)"
    using le by (intro unpack_law) (simp_all add: u)
  show ?thesis using p1 p2 u1 u2 d unfolding av_def [symmetric] n_def [symmetric] av2_def [symmetric]
    by (intro exI [of _ ?b1] exI [of _ ?b2]) simp
qed

end

section \<open>The classes satisfy it\<close>

text \<open>Accesses at the front of a block, and accesses behind bytes that are already there.\<close>

lemma put_front:
  "4 \<le> length b \<Longrightarrow> put32 0 w b = Inr (map Some (le32 w) @ drop 4 b)"
  "2 \<le> length b \<Longrightarrow> put16 0 v b = Inr (map Some (le16 v) @ drop 2 b)"
  "0 < length b \<Longrightarrow> put8 0 c b = Inr (Some c # drop 1 b)"
  by (simp_all add: put32_def put16_def put8_def blk_write_def numeral_2_eq_2 Suc_le_eq)

lemma put_behind:
  "length xs \<le> off \<Longrightarrow> put32 off w (xs @ b) = rbind (put32 (off - length xs) w b) (\<lambda>b. Inr (xs @ b))"
  "length xs \<le> off \<Longrightarrow> put16 off v (xs @ b) = rbind (put16 (off - length xs) v b) (\<lambda>b. Inr (xs @ b))"
  "length xs \<le> off \<Longrightarrow> put8 off c (xs @ b) = rbind (put8 (off - length xs) c b) (\<lambda>b. Inr (xs @ b))"
  by (auto simp: put32_def put16_def put8_def blk_write_def Suc_diff_le)

lemma get_front:
  "get32 0 (map Some (le32 w) @ b) = Inr w"
  "get16 0 (map Some (le16 v) @ b) = Inr v"
  "get8 0 (Some c # b) = Inr c"
  by (simp_all add: get32_def get16_def get8_def blk_read_def)

lemma get_behind:
  "length xs \<le> off \<Longrightarrow> get32 off (xs @ b) = get32 (off - length xs) b"
  "length xs \<le> off \<Longrightarrow> get16 off (xs @ b) = get16 (off - length xs) b"
  "length xs \<le> off \<Longrightarrow> get8 off (xs @ b) = get8 (off - length xs) b"
  by (auto simp: get32_def get16_def get8_def blk_read_def)

lemma put8_Cons: "0 < n \<Longrightarrow> put8 n c (x # b) = rbind (put8 (n - 1) c b) (\<lambda>b. Inr (x # b))"
  by (cases n) (auto simp: put8_def blk_write_def)

lemma get8_Cons: "0 < n \<Longrightarrow> get8 n (x # b) = get8 (n - 1) b"
  by (cases n) (auto simp: get8_def blk_read_def)

lemma ip_halves:
  "ucast (drop_bit k (ucast ip :: u32)) = (ucast (drop_bit k ip) :: u8)"
  "ucast (drop_bit k (ucast (drop_bit 32 ip) :: u32)) = (ucast (drop_bit (k + 32) ip) :: u8)"
  if "k \<le> 24" for ip :: u64
  using that by (auto intro!: bit_word_eqI simp: bit_simps ac_simps)

lemma put_ip_front:
  assumes "8 \<le> length b"
  shows "put_ip 0 ip b = Inr (map Some (le32 (ucast ip)) @ map Some (le32 (ucast (drop_bit 32 ip))) @ drop 8 b)"
proof -
  obtain b0 b1 b2 b3 b4 b5 b6 b7 r where b: "b = b0 # b1 # b2 # b3 # b4 # b5 # b6 # b7 # r"
    using assms by (auto simp: numeral_eq_Suc Suc_le_length_iff)
  show ?thesis
    using ip_halves [of 0 ip]
    by (simp add: b put_ip_def put8_Cons put_front le32_def ip_halves)
qed

lemma put8_shift:
  "put8 (length xs + d) c (xs @ b) = rbind (put8 d c b) (\<lambda>b. Inr (xs @ b))"
  "put8 (length xs + d + k) c (xs @ b) = rbind (put8 (d + k) c b) (\<lambda>b. Inr (xs @ b))"
  by (simp_all add: put_behind)

lemma put_ip_behind:
  assumes "length xs \<le> off"
  shows "put_ip off ip (xs @ b) = rbind (put_ip (off - length xs) ip b) (\<lambda>b. Inr (xs @ b))"
proof -
  obtain d where "off = length xs + d" using assms le_Suc_ex by blast
  then show ?thesis
    by (simp only: put_ip_def put8_shift rbind_assoc rbind_simps add_diff_cancel_left')
qed

lemmas field_rules = put_front put_behind get_front get_behind

interpretation conn_notify: proto_msg pb_conn_notify_cal_size pb_conn_notify_pack pb_conn_notify_bytes pb_conn_notify_unpack
  by unfold_locales
    (auto simp: pb_conn_notify_cal_size_def pb_conn_notify_pack_def pb_conn_notify_unpack_def pb_conn_notify_bytes_def
       field_rules word_less_nat_alt)

interpretation conn_ctrl: proto_msg pb_conn_ctrl_cal_size pb_conn_ctrl_pack pb_conn_ctrl_bytes pb_conn_ctrl_unpack
  by unfold_locales
    (auto simp: pb_conn_ctrl_cal_size_def pb_conn_ctrl_pack_def pb_conn_ctrl_unpack_def pb_conn_ctrl_bytes_def
       field_rules word_less_nat_alt)

interpretation worker_ctrl: proto_msg pb_worker_ctrl_cal_size pb_worker_ctrl_pack pb_worker_ctrl_bytes pb_worker_ctrl_unpack
  by unfold_locales
    (auto simp: pb_worker_ctrl_cal_size_def pb_worker_ctrl_pack_def pb_worker_ctrl_unpack_def pb_worker_ctrl_bytes_def
       field_rules word_less_nat_alt)

interpretation worker_notify: proto_msg pb_worker_notify_cal_size pb_worker_notify_pack pb_worker_notify_bytes pb_worker_notify_unpack
  by unfold_locales
    (auto simp: pb_worker_notify_cal_size_def pb_worker_notify_pack_def pb_worker_notify_unpack_def pb_worker_notify_bytes_def
       field_rules word_less_nat_alt)

interpretation client_unicast: proto_msg pb_client_unicast_cal_size pb_client_unicast_pack pb_client_unicast_bytes pb_client_unicast_unpack
  by unfold_locales
    (auto simp: pb_client_unicast_cal_size_def pb_client_unicast_pack_def pb_client_unicast_unpack_def pb_client_unicast_bytes_def
       field_rules word_less_nat_alt)

interpretation client_req: proto_msg pb_client_req_cal_size pb_client_req_pack pb_client_req_bytes pb_client_req_unpack
  by unfold_locales
    (auto simp: pb_client_req_cal_size_def pb_client_req_pack_def pb_client_req_unpack_def pb_client_req_bytes_def
       field_rules word_less_nat_alt)

interpretation cgate_ctrl: proto_msg pb_cgate_ctrl_cal_size pb_cgate_ctrl_pack pb_cgate_ctrl_bytes pb_cgate_ctrl_unpack
  by unfold_locales
    (auto simp: pb_cgate_ctrl_cal_size_def pb_cgate_ctrl_pack_def pb_cgate_ctrl_unpack_def pb_cgate_ctrl_bytes_def
       field_rules word_less_nat_alt)

interpretation cgate_newconn: msg_packer pb_cgate_newconn_cal_size pb_cgate_newconn_pack pb_cgate_newconn_bytes
  by unfold_locales
    (auto simp: pb_cgate_newconn_cal_size_def pb_cgate_newconn_pack_def pb_cgate_newconn_bytes_def
       field_rules word_less_nat_alt put_ip_front put_ip_behind)

text \<open>C18: Every message class except \<^verbatim>\<open>pb_cgate_newconn\<close> round-trips: \<^verbatim>\<open>pack\<close> into a block with room for
  \<^verbatim>\<open>cal_size\<close> bytes writes exactly those, and \<^verbatim>\<open>unpack\<close> of the result gives all fields back and reports the
  same size; with less room, or on a null pointer, both report \<open>- 1\<close> and change nothing.\<close>

theorem proto_round_trips:
  "round_trips pb_conn_notify_cal_size pb_conn_notify_pack pb_conn_notify_unpack \<and>
   round_trips pb_conn_ctrl_cal_size pb_conn_ctrl_pack pb_conn_ctrl_unpack \<and>
   round_trips pb_worker_ctrl_cal_size pb_worker_ctrl_pack pb_worker_ctrl_unpack \<and>
   round_trips pb_worker_notify_cal_size pb_worker_notify_pack pb_worker_notify_unpack \<and>
   round_trips pb_client_unicast_cal_size pb_client_unicast_pack pb_client_unicast_unpack \<and>
   round_trips pb_client_req_cal_size pb_client_req_pack pb_client_req_unpack \<and>
   round_trips pb_cgate_ctrl_cal_size pb_cgate_ctrl_pack pb_cgate_ctrl_unpack"
  by (intro conjI conn_notify.round_trips conn_ctrl.round_trips worker_ctrl.round_trips worker_notify.round_trips
      client_unicast.round_trips client_req.round_trips cgate_ctrl.round_trips)

section \<open>The header\<close>

lemma header_u16_split:
  "header_u16 (ucast w) (ucast (drop_bit 8 w)) = (if bit w 7 then w OR 0xFF00 else w)"
proof (rule bit_word_eqI)
  have k: "(0xFF00 :: u16) = push_bit 8 (mask 8)" by (simp add: mask_eq_exp_minus_1 push_bit_eq_mult)
  fix n assume n: "n < LENGTH(16)"
  then consider "n < 7" | "n = 7" | "8 \<le> n" "n < 15" | "n = 15" by fastforce
  then show "bit (header_u16 (ucast w) (ucast (drop_bit 8 w))) n = bit (if bit w 7 then w OR 0xFF00 else w) n"
    unfolding k by cases (auto simp: header_u16_def bit_simps min_def)
qed

text \<open>The header macros do not round-trip: \<^verbatim>\<open>PACK_HEADER\<close> writes the two 16-bit fields correctly, but
  \<^verbatim>\<open>UNPACK_HEADER\<close> reads them from signed characters, so a field comes back with its upper byte set to
  \<open>0xFF\<close> exactly when bit 7 of its low byte is set, and unchanged otherwise.\<close>

lemma header_round_trip:
  assumes "MSG_HEADER_LEN \<le> length p"
  shows "\<exists>p'. PACK_HEADER h p = Inr p' \<and> length p' = length p \<and> drop MSG_HEADER_LEN p' = drop MSG_HEADER_LEN p \<and>
    UNPACK_HEADER p' = Inr \<lparr>mh_proto = if bit (mh_proto h) 7 then mh_proto h OR 0xFF00 else mh_proto h,
                           mh_pl_len = if bit (mh_pl_len h) 7 then mh_pl_len h OR 0xFF00 else mh_pl_len h\<rparr>"
proof -
  obtain b0 b1 b2 b3 r where "p = b0 # b1 # b2 # b3 # r"
    using assms by (auto simp: numeral_eq_Suc Suc_le_length_iff MSG_HEADER_LEN_def)
  then show ?thesis
    by (simp add: PACK_HEADER_def UNPACK_HEADER_def put8_Cons get8_Cons put_front get_front header_u16_split
        MSG_HEADER_LEN_def)
qed

section \<open>The address of a new connection\<close>

lemma bytes_below_80:
  assumes "w AND 0x80808080 = (0 :: u32)"
  shows "\<not> bit w 7" "\<not> bit w 15" "\<not> bit w 23" "\<not> bit w 31"
proof -
  have z: "\<not> (bit w n \<and> bit (0x80808080 :: u32) n)" for n
    using assms bit_and_iff [of w "0x80808080" n] by simp
  show "\<not> bit w 7" "\<not> bit w 15" "\<not> bit w 23" "\<not> bit w 31"
    using z [of 7] z [of 15] z [of 23] z [of 31] by (simp_all add: bit_numeral_rec)
qed

lemma newconn_half_small:
  assumes "w AND 0x80808080 = (0 :: u32)"
  shows "newconn_half (ucast w) (ucast (drop_bit 8 w)) (ucast (drop_bit 16 w)) (ucast (drop_bit 24 w)) = ucast w"
proof (rule bit_word_eqI)
  fix n assume n: "n < LENGTH(64)"
  consider "n < 7" | "n = 7" | "8 \<le> n" "n < 15" | "n = 15" | "16 \<le> n" "n < 23" | "n = 23"
    | "24 \<le> n" "n < 31" | "n = 31" | "32 \<le> n" by linarith
  then show "bit (newconn_half (ucast w) (ucast (drop_bit 8 w)) (ucast (drop_bit 16 w)) (ucast (drop_bit 24 w))) n
      = bit (ucast w :: u64) n"
    using bytes_below_80 [OF assms] n by cases (auto simp: newconn_half_def bit_simps min_def impossible_bit)
qed

lemma newconn_ip_shift: "newconn_ip (length xs + d) (xs @ b) = newconn_ip d b"
  by (simp add: newconn_ip_def get_behind add.assoc)

text \<open>What the address comes out as: each half of a 64-bit address is read with the signs of its characters
  extended, and the halves are or-ed.\<close>

definition newconn_word :: "u32 \<Rightarrow> u64" where
  "newconn_word v = newconn_half (ucast v) (ucast (drop_bit 8 v)) (ucast (drop_bit 16 v)) (ucast (drop_bit 24 v))"

definition decoded_ip :: "u64 \<Rightarrow> u64" where
  "decoded_ip ip = newconn_word (ucast ip) OR newconn_word (ucast (drop_bit 32 ip))"

lemma newconn_ip_front:
  "newconn_ip 0 (map Some (le32 lo) @ map Some (le32 hi) @ b) = Inr (newconn_word lo OR newconn_word hi)"
  by (simp add: newconn_ip_def newconn_word_def le32_def get8_Cons get_front)

lemma ip_halves_small:
  assumes "ip AND 0x8080808080808080 = (0 :: u64)"
  shows "(ucast ip :: u32) AND 0x80808080 = 0" and "(ucast (drop_bit 32 ip) :: u32) AND 0x80808080 = 0"
proof -
  have k: "(0x8080808080808080 :: u32) = 0x80808080" by (subst word_unat_eq_iff) simp
  have "ucast (ip AND 0x8080808080808080) = (ucast ip :: u32) AND 0x80808080"
    by (simp add: unsigned_and_eq k)
  then show "(ucast ip :: u32) AND 0x80808080 = 0" using assms by simp
  have "ucast (drop_bit 32 (ip AND 0x8080808080808080)) = (ucast (drop_bit 32 ip) :: u32) AND 0x80808080"
    by (simp add: unsigned_and_eq drop_bit_and)
  then show "(ucast (drop_bit 32 ip) :: u32) AND 0x80808080 = 0" using assms by simp
qed

lemma ip_fold_same: "take_bit 32 ip OR drop_bit 32 ip = ip \<longleftrightarrow> drop_bit 32 ip = 0" for ip :: u64
proof
  assume eq: "take_bit 32 ip OR drop_bit 32 ip = ip"
  have "\<not> bit ip (32 + n)" for n
    using eq bit_or_iff [of "take_bit 32 ip" "drop_bit 32 ip" "32 + n"]
    by (auto simp: bit_simps impossible_bit)
  then show "drop_bit 32 ip = 0" by (intro bit_word_eqI) (simp add: bit_simps)
next
  assume z: "drop_bit 32 ip = 0"
  have "push_bit 32 (drop_bit 32 ip) + take_bit 32 ip = ip" by (rule bits_ident)
  then show "take_bit 32 ip OR drop_bit 32 ip = ip" using z by simp
qed

lemma newconn_unpack_any:
  assumes "18 \<le> unat avail"
  shows "pb_cgate_newconn_unpack (Some (map Some (pb_cgate_newconn_bytes m) @ r)) avail m0 =
    Inr (m\<lparr>nc_ip := decoded_ip (nc_ip m)\<rparr>, 18)"
proof -
  define lo hi where "lo = (ucast (nc_ip m) :: u32)" and "hi = (ucast (drop_bit 32 (nc_ip m)) :: u32)"
  let ?pre = "map Some (le32 (nc_fd m)) @ map Some (le32 (nc_hid m))"
  let ?mid = "map Some (le32 lo) @ map Some (le32 hi)"
  let ?b' = "?pre @ ?mid @ map Some (le16 (nc_port m)) @ r"
  have bytes: "map Some (pb_cgate_newconn_bytes m) @ r = ?b'"
    by (simp add: pb_cgate_newconn_bytes_def lo_def hi_def)
  have ip: "newconn_ip 8 ?b' = Inr (decoded_ip (nc_ip m))"
    using newconn_ip_shift [of ?pre 0 "?mid @ map Some (le16 (nc_port m)) @ r"] newconn_ip_front [of lo hi]
    by (simp add: lo_def hi_def decoded_ip_def)
  show ?thesis unfolding bytes
    using assms(1) ip by (simp add: pb_cgate_newconn_unpack_def word_less_nat_alt field_rules)
qed

lemma decoded_ip_small:
  assumes "ip AND 0x8080808080808080 = 0"
  shows "decoded_ip ip = take_bit 32 ip OR drop_bit 32 ip"
proof -
  have "decoded_ip ip = ucast (ucast ip :: u32) OR ucast (ucast (drop_bit 32 ip) :: u32)"
    using newconn_half_small [OF ip_halves_small(1) [OF assms]] newconn_half_small [OF ip_halves_small(2) [OF assms]]
    by (simp only: decoded_ip_def newconn_word_def)
  also have "\<dots> = take_bit 32 ip OR drop_bit 32 ip"
    by (rule bit_word_eqI) (auto simp: bit_simps dest: bit_imp_le_length)
  finally show ?thesis .
qed

lemma decoded_ip_same: "ip AND 0x8080808080808080 = 0 \<Longrightarrow> ip < 2 ^ 32 \<Longrightarrow> decoded_ip ip = ip"
  using ip_fold_same [of ip]
  by (simp add: decoded_ip_small drop_bit_eq_div word_less_nat_alt word_unat_eq_iff unat_div)

lemma newconn_unpack_bytes:
  assumes "18 \<le> unat avail" and "nc_ip m AND 0x8080808080808080 = 0"
  shows "pb_cgate_newconn_unpack (Some (map Some (pb_cgate_newconn_bytes m) @ r)) avail m0 =
    Inr (m\<lparr>nc_ip := take_bit 32 (nc_ip m) OR drop_bit 32 (nc_ip m)\<rparr>, 18)"
  using newconn_unpack_any [OF assms(1)] decoded_ip_small [OF assms(2)] by simp

text \<open>A new-connection message whose address bytes are all below \<open>0x80\<close> is packed correctly, but unpacked
  with the upper half of the 64-bit address or-ed into the lower half: all other fields come back, and
  the address exactly when its upper half was zero.\<close>

lemma newconn_ip_folds:
  assumes "18 \<le> unat avail" and "unat avail \<le> length b" and "nc_ip m AND 0x8080808080808080 = 0"
  shows "\<exists>b' m'. pb_cgate_newconn_pack m (Some b) avail = Inr (Some b', 18) \<and>
      take 18 b' = map Some (pb_cgate_newconn_bytes m) \<and> pb_cgate_newconn_unpack (Some b') avail m0 = Inr (m', 18) \<and>
      m' = m\<lparr>nc_ip := take_bit 32 (nc_ip m) OR drop_bit 32 (nc_ip m)\<rparr> \<and> (m' = m \<longleftrightarrow> drop_bit 32 (nc_ip m) = 0)"
proof -
  let ?b' = "map Some (pb_cgate_newconn_bytes m) @ drop 18 b"
  have l: "length (pb_cgate_newconn_bytes m) = 18" by (simp add: pb_cgate_newconn_bytes_def)
  have "pb_cgate_newconn_pack m (Some b) avail = Inr (Some ?b', 18)"
    using cgate_newconn.pack_law [of m avail b] assms(1,2) unfolding l by (simp add: pb_cgate_newconn_cal_size_def)
  moreover have "take 18 ?b' = map Some (pb_cgate_newconn_bytes m)" by (simp add: l)
  moreover have "m\<lparr>nc_ip := take_bit 32 (nc_ip m) OR drop_bit 32 (nc_ip m)\<rparr> = m \<longleftrightarrow> drop_bit 32 (nc_ip m) = 0"
    using ip_fold_same [of "nc_ip m"] by (cases m) simp
  ultimately show ?thesis using newconn_unpack_bytes [OF assms(1,3)] by blast
qed

end
