(* ===== verification/Fd_Poller.thy ===== *)
theory Fd_Poller
  imports Ax_Timer_Inv
begin

text \<open>
  The event poller: \<^verbatim>\<open>FdPollerBase\<close> of \<^verbatim>\<open>src/core/fd_poller.h\<close> and \<^verbatim>\<open>fd_poller.cc\<close>. The virtual methods
  \<^verbatim>\<open>add_event\<close>, \<^verbatim>\<open>del_event\<close> and \<^verbatim>\<open>do_poll\<close> are arguments of the operations that call them; what the base
  class relies on is the locale \<open>fd_driver\<close>, which the theories of the two drivers interpret. The reactors
  are an argument too: \<open>on_ev r w fd p\<close> is the effect of \<^verbatim>\<open>on_ev_read\<close> (\<open>w\<close> false) or \<^verbatim>\<open>on_ev_write\<close> of the
  reactor \<open>r\<close>. The operating system is a state \<open>fp_os\<close> that only its calls change.
\<close>

section \<open>Data\<close>

definition EV_NULL :: u32 where "EV_NULL = 0"
definition EV_READ :: u32 where "EV_READ = 1"
definition EV_WRITE :: u32 where "EV_WRITE = 2"

lemmas ev_defs = EV_NULL_def EV_READ_def EV_WRITE_def

datatype fd_status = FDS_EMPTY | FDS_ACTIVE | FDS_WAIT_CLOSE | FDS_RETIRED

record 'r poller_entry =
  pe_ev_mask :: u8
  pe_status :: fd_status
  pe_reactor :: "'r option"

record ('r, 'c, 'd, 'k) fd_poller =
  fp_entry :: "'r poller_entry list"
  fp_pending_new :: "(u32, 'r) hmap_t"
  fp_retired :: "int list"
  fp_retired_sz :: int
  fp_timer :: "('c, 'd) ev_timer"
  fp_timetick :: int
  fp_max_fds :: u32
  fp_tm_last :: u64
  fp_os :: 'k

section \<open>Operations\<close>

definition entry_at :: "('r, 'c, 'd, 'k) fd_poller \<Rightarrow> int \<Rightarrow> 'r poller_entry res" where
  "entry_at p fd =
     (if 0 \<le> fd \<and> nat fd < length (fp_entry p) then Inr (fp_entry p ! nat fd) else Inl Mem_error)"

definition entry_upd :: "int \<Rightarrow> ('r poller_entry \<Rightarrow> 'r poller_entry) \<Rightarrow> ('r, 'c, 'd, 'k) fd_poller \<Rightarrow>
    ('r, 'c, 'd, 'k) fd_poller res" where
  "entry_upd fd f p =
     rbind (entry_at p fd) (\<lambda>e. Inr (p\<lparr>fp_entry := (fp_entry p)[nat fd := f e]\<rparr>))"

text \<open>\<^verbatim>\<open>fd < 0 || fd >= (int)max_fds_\<close>, the test of most operations.\<close>

definition fd_out :: "int \<Rightarrow> ('r, 'c, 'd, 'k) fd_poller \<Rightarrow> bool" where
  "fd_out fd p \<longleftrightarrow> fd < 0 \<or> fd \<ge> sint (fp_max_fds p)"

definition reset_fd :: "int \<Rightarrow> ('r, 'c, 'd, 'k) fd_poller \<Rightarrow> ('r, 'c, 'd, 'k) fd_poller res" where
  "reset_fd fd p =
     (if fd_out fd p then Inr p
      else entry_upd fd (\<lambda>e. e\<lparr>pe_ev_mask := ucast EV_NULL, pe_status := FDS_EMPTY\<rparr>) p)"

fun reset_loop :: "nat \<Rightarrow> int \<Rightarrow> ('r, 'c, 'd, 'k) fd_poller \<Rightarrow> ('r, 'c, 'd, 'k) fd_poller res" where
  "reset_loop 0 i p = Inr p"
| "reset_loop (Suc n) i p = rbind (reset_fd i p) (reset_loop n (i + 1))"

text \<open>The constructor. \<open>junk\<close> is what the memory of the new entries holds (with the reactor pointers, which
  nobody sets, as null), \<open>tjunk\<close> that of the timer's \<^verbatim>\<open>slot_now_\<close>, and \<open>now\<close> the time of day.\<close>

definition poller_new :: "u32 \<Rightarrow> int \<Rightarrow> u64 \<Rightarrow> u32 list \<Rightarrow> 'r poller_entry list \<Rightarrow> 'k \<Rightarrow>
    ('r, 'c, 'd, 'k) fd_poller res" where
  "poller_new maxn timetick now tjunk junk os =
     rbind (rt_assert (timetick > 0)) (\<lambda>_.
       reset_loop (nat (sint maxn)) 0
         \<lparr>fp_entry = junk, fp_pending_new = hmap_new 10, fp_retired = replicate (unat maxn) 0,
          fp_retired_sz = 0, fp_timer = timer_new (word_of_int timetick) now tjunk, fp_timetick = timetick,
          fp_max_fds = maxn, fp_tm_last = 0, fp_os = os\<rparr>)"

definition add_fd :: "(int \<Rightarrow> u32 \<Rightarrow> ('r, 'c, 'd, 'k) fd_poller \<Rightarrow> (('r, 'c, 'd, 'k) fd_poller \<times> int) res) \<Rightarrow>
    int \<Rightarrow> 'r option \<Rightarrow> ('r, 'c, 'd, 'k) fd_poller \<Rightarrow> (('r, 'c, 'd, 'k) fd_poller \<times> int) res" where
  "add_fd add_event fd reactor p =
     (if fd_out fd p then Inr (p, AX_RET_ERROR)
      else
        rbind (entry_at p fd) (\<lambda>pe.
        if pe_status pe \<noteq> FDS_EMPTY then
          rbind (hmap_insert do_hash_uint (word_of_int fd) reactor (fp_pending_new p)) (\<lambda>m.
            Inr (p\<lparr>fp_pending_new := m\<rparr>, AX_RET_AGAIN))
        else
          rbind (entry_upd fd (\<lambda>e. \<lparr>pe_ev_mask = ucast EV_NULL, pe_status = FDS_ACTIVE, pe_reactor = reactor\<rparr>) p) (\<lambda>p.
          rbind (add_event fd EV_READ p) (\<lambda>(p, _).
            Inr (p, AX_RET_OK)))))"

definition set_timetick :: "int \<Rightarrow> ('r, 'c, 'd, 'k) fd_poller \<Rightarrow> ('r, 'c, 'd, 'k) fd_poller" where
  "set_timetick tm p = (if tm > 0 then p\<lparr>fp_timetick := tm\<rparr> else p)"

definition wait_close :: "(int \<Rightarrow> u32 \<Rightarrow> ('r, 'c, 'd, 'k) fd_poller \<Rightarrow> (('r, 'c, 'd, 'k) fd_poller \<times> int) res) \<Rightarrow>
    int \<Rightarrow> ('r, 'c, 'd, 'k) fd_poller \<Rightarrow> (('r, 'c, 'd, 'k) fd_poller \<times> int) res" where
  "wait_close del_event fd p =
     (if fd_out fd p then Inr (p, AX_RET_ERROR)
      else
        rbind (entry_at p fd) (\<lambda>pe.
        if pe_status pe \<noteq> FDS_ACTIVE then Inr (p, AX_RET_ERROR)
        else
          rbind (del_event fd (EV_READ OR EV_WRITE) p) (\<lambda>(p, _).
          rbind (entry_upd fd (\<lambda>e. e\<lparr>pe_status := FDS_WAIT_CLOSE, pe_reactor := None\<rparr>) p) (\<lambda>p.
            Inr (p, AX_RET_OK)))))"

definition close_fd :: "int \<Rightarrow> ('r, 'c, 'd, 'k) fd_poller \<Rightarrow> (('r, 'c, 'd, 'k) fd_poller \<times> int) res" where
  "close_fd fd p =
     (if 0 \<le> fp_retired_sz p \<and> nat (fp_retired_sz p) < length (fp_retired p)
      then Inr (p\<lparr>fp_retired := (fp_retired p)[nat (fp_retired_sz p) := fd],
                  fp_retired_sz := fp_retired_sz p + 1\<rparr>, 0)
      else Inl Mem_error)"

definition set_reactor :: "int \<Rightarrow> 'r option \<Rightarrow> ('r, 'c, 'd, 'k) fd_poller \<Rightarrow> (('r, 'c, 'd, 'k) fd_poller \<times> int) res" where
  "set_reactor fd reactor p =
     (if fd_out fd p then Inr (p, AX_RET_ERROR)
      else
        rbind (entry_at p fd) (\<lambda>pe.
        if pe_status pe \<noteq> FDS_ACTIVE then Inr (p, AX_RET_ERROR)
        else rbind (entry_upd fd (\<lambda>e. e\<lparr>pe_reactor := reactor\<rparr>) p) (\<lambda>p. Inr (p, AX_RET_OK))))"

text \<open>\<open>tm_now\<close> is the time of day in milliseconds.\<close>

definition get_timepass :: "u64 \<Rightarrow> ('r, 'c, 'd, 'k) fd_poller \<Rightarrow> ('r, 'c, 'd, 'k) fd_poller \<times> u32" where
  "get_timepass tm_now p =
     (let last = (if fp_tm_last p = 0 then tm_now else fp_tm_last p) in
      (p\<lparr>fp_tm_last := tm_now\<rparr>, ucast (tm_now - last)))"

text \<open>The loop of \<^verbatim>\<open>process\<close> over the retired descriptors; \<open>close\<close> is the system call.\<close>

fun retire_loop :: "(int \<Rightarrow> u32 \<Rightarrow> ('r, 'c, 'd, 'k) fd_poller \<Rightarrow> (('r, 'c, 'd, 'k) fd_poller \<times> int) res) \<Rightarrow>
    (int \<Rightarrow> 'k \<Rightarrow> 'k) \<Rightarrow> int list \<Rightarrow> ('r, 'c, 'd, 'k) fd_poller \<Rightarrow> ('r, 'c, 'd, 'k) fd_poller res" where
  "retire_loop del_event close [] p = Inr p"
| "retire_loop del_event close (fd # fds) p =
     rbind (del_event fd (EV_READ OR EV_WRITE) p) (\<lambda>(p, _).
     rbind (reset_fd fd p) (\<lambda>p.
     rbind (entry_at p fd) (\<lambda>e.
       retire_loop del_event close fds
         (if pe_status e \<noteq> FDS_EMPTY then p\<lparr>fp_os := close fd (fp_os p)\<rparr> else p))))"

text \<open>The loop over the entries of \<^verbatim>\<open>pending_new_\<close>, along its iteration list.\<close>

fun pending_loop :: "(int \<Rightarrow> u32 \<Rightarrow> ('r, 'c, 'd, 'k) fd_poller \<Rightarrow> (('r, 'c, 'd, 'k) fd_poller \<times> int) res) \<Rightarrow>
    nat \<Rightarrow> nat option \<Rightarrow> ('r, 'c, 'd, 'k) fd_poller \<Rightarrow> ('r, 'c, 'd, 'k) fd_poller res" where
  "pending_loop add_event n None p = Inr p"
| "pending_loop add_event 0 (Some a) p = Inl Diverge"
| "pending_loop add_event (Suc n) (Some a) p =
     rbind (hget (hm_heap (fp_pending_new p)) a) (\<lambda>he.
     rbind (entry_upd (sint (he_key he)) (\<lambda>e. \<lparr>pe_ev_mask = ucast EV_NULL, pe_status = FDS_ACTIVE, pe_reactor = he_data he\<rparr>) p) (\<lambda>p.
     rbind (add_event (sint (he_key he)) EV_READ p) (\<lambda>(p, _).
     rbind (get_link_next (fp_pending_new p) a) (\<lambda>q.
       pending_loop add_event n q p))))"

definition poller_process ::
    "(int \<Rightarrow> u32 \<Rightarrow> ('r, 'c, 'd, 'k) fd_poller \<Rightarrow> (('r, 'c, 'd, 'k) fd_poller \<times> int) res) \<Rightarrow>
     (int \<Rightarrow> u32 \<Rightarrow> ('r, 'c, 'd, 'k) fd_poller \<Rightarrow> (('r, 'c, 'd, 'k) fd_poller \<times> int) res) \<Rightarrow>
     (('r, 'c, 'd, 'k) fd_poller \<Rightarrow> (('r, 'c, 'd, 'k) fd_poller \<times> int) res) \<Rightarrow> (int \<Rightarrow> 'k \<Rightarrow> 'k) \<Rightarrow>
     ('c \<Rightarrow> u32 \<Rightarrow> 'd \<Rightarrow> ('c, 'd) ev_timer \<Rightarrow> ('c, 'd) ev_timer res) \<Rightarrow> u64 \<Rightarrow>
     ('r, 'c, 'd, 'k) fd_poller \<Rightarrow> (('r, 'c, 'd, 'k) fd_poller \<times> int) res" where
  "poller_process add_event del_event do_poll close cb now p =
     rbind (timer_routine cb now (fp_timer p)) (\<lambda>(t, _).
     rbind (do_poll (p\<lparr>fp_timer := t\<rparr>)) (\<lambda>(p, _).
     rbind (retire_loop del_event close (take (nat (fp_retired_sz p)) (fp_retired p)) p) (\<lambda>p.
     let p = p\<lparr>fp_retired_sz := 0\<rparr> in
     rbind (pending_loop add_event (length (hm_heap (fp_pending_new p))) (hmap_head (fp_pending_new p)) p) (\<lambda>p.
       Inr (p, 0)))))"

definition add_timer_event :: "'c option \<Rightarrow> 'd \<Rightarrow> u32 \<Rightarrow> ('r, 'c, 'd, 'k) fd_poller \<Rightarrow>
    (('r, 'c, 'd, 'k) fd_poller \<times> u32) res" where
  "add_timer_event cbfunc data timeout p =
     rbind (add_timer cbfunc data timeout (fp_timer p)) (\<lambda>(t, h). Inr (p\<lparr>fp_timer := t\<rparr>, h))"

definition del_timer_event :: "u32 \<Rightarrow> ('r, 'c, 'd, 'k) fd_poller \<Rightarrow> (('r, 'c, 'd, 'k) fd_poller \<times> int) res" where
  "del_timer_event handle p =
     rbind (del_timer handle (fp_timer p)) (\<lambda>(t, r). Inr (p\<lparr>fp_timer := t\<rparr>, r))"

section \<open>Pollers in order\<close>

definition fd_ok :: "('r, 'c, 'd, 'k) fd_poller \<Rightarrow> int \<Rightarrow> bool" where
  "fd_ok p fd \<longleftrightarrow> 0 \<le> fd \<and> fd < int (length (fp_entry p))"

definition entries_ok :: "'r poller_entry list \<Rightarrow> bool" where
  "entries_ok es \<longleftrightarrow> (\<forall>e \<in> set es. pe_status e = FDS_ACTIVE \<longrightarrow> pe_reactor e \<noteq> None)"

text \<open>The descriptors waiting to be added again, with their reactors.\<close>

definition pending_fds :: "('r, 'c, 'd, 'k) fd_poller \<Rightarrow> (int \<times> 'r option) list" where
  "pending_fds p = map (\<lambda>(k, r). (sint k, r)) (hmap_items (fp_pending_new p))"

text \<open>The arrays have their sizes, every active entry has a reactor, and the descriptors to be closed and
  to be added again are in range.\<close>

definition poller_ok :: "('r, 'c, 'd, 'k) fd_poller \<Rightarrow> bool" where
  "poller_ok p \<longleftrightarrow>
     length (fp_entry p) = unat (fp_max_fds p) \<and> unat (fp_max_fds p) < 2 ^ 31 \<and>
     length (fp_retired p) = unat (fp_max_fds p) \<and>
     0 \<le> fp_retired_sz p \<and> nat (fp_retired_sz p) \<le> length (fp_retired p) \<and>
     (\<forall>fd \<in> set (take (nat (fp_retired_sz p)) (fp_retired p)). fd_ok p fd) \<and>
     (\<exists>bl xs. hmap_ok do_hash_uint (fp_pending_new p) bl xs) \<and>
     (\<forall>(fd, r) \<in> set (pending_fds p). fd_ok p fd \<and> r \<noteq> None) \<and>
     entries_ok (fp_entry p) \<and> 0 < fp_timetick p"

lemma poller_max: "poller_ok p \<Longrightarrow> sint (fp_max_fds p) = int (length (fp_entry p))"
  unfolding poller_ok_def by (metis sint_u32)

lemma poller_retired:
  assumes "poller_ok p"
  shows "length (fp_retired p) = length (fp_entry p)" and "0 \<le> fp_retired_sz p"
    and "fp_retired_sz p < sint (fp_max_fds p) \<longleftrightarrow> nat (fp_retired_sz p) < length (fp_retired p)"
proof -
  show l: "length (fp_retired p) = length (fp_entry p)" and z: "0 \<le> fp_retired_sz p"
    using assms by (simp_all add: poller_ok_def)
  show "fp_retired_sz p < sint (fp_max_fds p) \<longleftrightarrow> nat (fp_retired_sz p) < length (fp_retired p)"
    unfolding poller_max [OF assms] l using z by linarith
qed

lemma fd_out_iff: "poller_ok p \<Longrightarrow> fd_out fd p \<longleftrightarrow> \<not> fd_ok p fd"
  by (auto simp: fd_out_def fd_ok_def poller_max)

lemma fd_ok_nat: "fd_ok p fd \<Longrightarrow> nat fd < length (fp_entry p)"
  by (auto simp: fd_ok_def)

lemma fd_ok_max: "poller_ok p \<Longrightarrow> fd_ok p fd \<Longrightarrow> fd < sint (fp_max_fds p) \<and> 0 \<le> fd \<and> fd < 2 ^ 31"
  using poller_max [of p] sint_less [of "fp_max_fds p"] by (simp add: fd_ok_def)

lemma entry_at_ok: "fd_ok p fd \<Longrightarrow> entry_at p fd = Inr (fp_entry p ! nat fd)"
  by (auto simp: entry_at_def fd_ok_def)

lemma entry_upd_ok:
  "fd_ok p fd \<Longrightarrow> entry_upd fd f p = Inr (p\<lparr>fp_entry := (fp_entry p)[nat fd := f (fp_entry p ! nat fd)]\<rparr>)"
  by (simp add: entry_upd_def entry_at_ok)

lemma fd_ok_cong: "length (fp_entry q) = length (fp_entry p) \<Longrightarrow> fd_ok q fd = fd_ok p fd"
  by (simp add: fd_ok_def)

lemma fd_ok_upd [simp]:
  "fd_ok (p\<lparr>fp_entry := es\<rparr>) fd \<longleftrightarrow> 0 \<le> fd \<and> fd < int (length es)"
  "fd_ok (p\<lparr>fp_os := k\<rparr>) fd = fd_ok p fd"
  "fd_ok (p\<lparr>fp_timer := t\<rparr>) fd = fd_ok p fd"
  "fd_ok (p\<lparr>fp_retired_sz := n\<rparr>) fd = fd_ok p fd"
  "fd_ok (p\<lparr>fp_retired := rs\<rparr>) fd = fd_ok p fd"
  "fd_ok (p\<lparr>fp_pending_new := m\<rparr>) fd = fd_ok p fd"
  by (simp_all add: fd_ok_def)

lemma pending_fds_upd [simp]:
  "pending_fds (p\<lparr>fp_entry := es\<rparr>) = pending_fds p"
  "pending_fds (p\<lparr>fp_os := k\<rparr>) = pending_fds p"
  "pending_fds (p\<lparr>fp_timer := t\<rparr>) = pending_fds p"
  "pending_fds (p\<lparr>fp_retired_sz := n\<rparr>) = pending_fds p"
  "pending_fds (p\<lparr>fp_retired := rs\<rparr>) = pending_fds p"
  by (simp_all add: pending_fds_def)

lemma poller_ok_entries:
  assumes "poller_ok p" and l: "length es = length (fp_entry p)" and "entries_ok es"
  shows "poller_ok (p\<lparr>fp_entry := es, fp_os := k\<rparr>)"
proof -
  have "fd_ok (p\<lparr>fp_entry := es, fp_os := k\<rparr>) = fd_ok p" by (rule ext) (simp add: l fd_ok_def)
  then show ?thesis using assms unfolding poller_ok_def by simp
qed

lemma poller_ok_timer [simp]: "poller_ok (p\<lparr>fp_timer := t\<rparr>) = poller_ok p"
  by (simp add: poller_ok_def)

lemma poller_ok_retired0: "poller_ok p \<Longrightarrow> poller_ok (p\<lparr>fp_retired_sz := 0\<rparr>)"
  by (simp add: poller_ok_def)

lemma entries_ok_update:
  "entries_ok es \<Longrightarrow> (pe_status e = FDS_ACTIVE \<Longrightarrow> pe_reactor e \<noteq> None) \<Longrightarrow> entries_ok (es[i := e])"
  unfolding entries_ok_def by (auto dest!: subsetD [OF set_update_subset_insert])

lemma poller_entries_ok: "poller_ok p \<Longrightarrow> entries_ok (fp_entry p)"
  by (simp add: poller_ok_def)

text \<open>What a driver may do with an event request on \<open>fd\<close>: change the event mask of its entry and the system.\<close>

definition mask_frame :: "int \<Rightarrow> ('r, 'c, 'd, 'k) fd_poller \<Rightarrow> ('r, 'c, 'd, 'k) fd_poller \<Rightarrow> bool" where
  "mask_frame fd p p' \<longleftrightarrow>
     (\<exists>m k. p' = p\<lparr>fp_entry := (fp_entry p)[nat fd := (fp_entry p ! nat fd)\<lparr>pe_ev_mask := m\<rparr>], fp_os := k\<rparr>)"

lemma mask_frameE:
  assumes "mask_frame fd p p'" and "fd_ok p fd" and "poller_ok p"
  obtains es k where "p' = p\<lparr>fp_entry := es, fp_os := k\<rparr>" and "length es = length (fp_entry p)"
    and "map pe_status es = map pe_status (fp_entry p)" and "map pe_reactor es = map pe_reactor (fp_entry p)"
    and "poller_ok p'"
proof -
  obtain m k where p': "p' = p\<lparr>fp_entry := (fp_entry p)[nat fd := (fp_entry p ! nat fd)\<lparr>pe_ev_mask := m\<rparr>], fp_os := k\<rparr>"
    using assms(1) by (auto simp: mask_frame_def)
  have "entries_ok ((fp_entry p)[nat fd := (fp_entry p ! nat fd)\<lparr>pe_ev_mask := m\<rparr>])"
    using poller_entries_ok [OF assms(3)] fd_ok_nat [OF assms(2)]
    by (intro entries_ok_update) (auto simp: entries_ok_def)
  then have "poller_ok p'" unfolding p' by (intro poller_ok_entries assms(3)) simp_all
  then show thesis using that [OF p'] fd_ok_nat [OF assms(2)] by (simp add: map_update list_update_same_conv)
qed

text \<open>The entries after the pending descriptors \<open>l\<close> were added: those are active with a pending reactor, the
  others are as before.\<close>

definition after_pending :: "(int \<times> 'r option) list \<Rightarrow> 'r poller_entry list \<Rightarrow> 'r poller_entry list \<Rightarrow> bool" where
  "after_pending l es es' \<longleftrightarrow> length es' = length es \<and>
     (\<forall>i < length es.
       if int i \<in> fst ` set l then pe_status (es' ! i) = FDS_ACTIVE \<and> (int i, pe_reactor (es' ! i)) \<in> set l
       else pe_status (es' ! i) = pe_status (es ! i) \<and> pe_reactor (es' ! i) = pe_reactor (es ! i))"

lemma after_pending_Nil [simp]: "after_pending [] es es"
  by (simp add: after_pending_def)

lemma after_pending_Cons:
  assumes "length es1 = length es"
    and "\<And>i. i < length es \<Longrightarrow> pe_status (es1 ! i) = (if int i = fd then FDS_ACTIVE else pe_status (es ! i)) \<and>
      pe_reactor (es1 ! i) = (if int i = fd then d else pe_reactor (es ! i))"
    and "after_pending l es1 es'"
  shows "after_pending ((fd, d) # l) es es'"
  unfolding after_pending_def
proof (intro conjI allI impI)
  show "length es' = length es" using assms(1,3) by (simp add: after_pending_def)
  fix i assume i: "i < length es"
  then have "if int i \<in> fst ` set l then pe_status (es' ! i) = FDS_ACTIVE \<and> (int i, pe_reactor (es' ! i)) \<in> set l
       else pe_status (es' ! i) = pe_status (es1 ! i) \<and> pe_reactor (es' ! i) = pe_reactor (es1 ! i)"
    using assms(1,3) by (simp add: after_pending_def)
  then show "if int i \<in> fst ` set ((fd, d) # l) then pe_status (es' ! i) = FDS_ACTIVE \<and> (int i, pe_reactor (es' ! i)) \<in> set ((fd, d) # l)
       else pe_status (es' ! i) = pe_status (es ! i) \<and> pe_reactor (es' ! i) = pe_reactor (es ! i)"
    using assms(2) [OF i] by (cases "int i \<in> fst ` set l") auto
qed

locale fd_driver =
  fixes add_event del_event ::
    "int \<Rightarrow> u32 \<Rightarrow> ('r, 'c, 'd, 'k) fd_poller \<Rightarrow> (('r, 'c, 'd, 'k) fd_poller \<times> int) res"
  assumes add_law: "poller_ok p \<Longrightarrow> fd_ok p fd \<Longrightarrow> \<exists>p' r. add_event fd f p = Inr (p', r) \<and> mask_frame fd p p'"
    and del_law: "poller_ok p \<Longrightarrow> fd_ok p fd \<Longrightarrow> \<exists>p' r. del_event fd f p = Inr (p', r) \<and> mask_frame fd p p'"
begin

lemma reset_ok:
  assumes "poller_ok p" and "fd_ok p fd"
  shows "reset_fd fd p = Inr (p\<lparr>fp_entry := (fp_entry p)[nat fd := (fp_entry p ! nat fd)\<lparr>pe_ev_mask := 0, pe_status := FDS_EMPTY\<rparr>]\<rparr>)"
  using assms by (simp add: reset_fd_def fd_out_iff entry_upd_ok ev_defs)

text \<open>Closing the retired descriptors: they all become empty, and the system call is never reached.\<close>

lemma retire_loop_ok:
  assumes "poller_ok p" and "\<forall>fd \<in> set fds. fd_ok p fd"
  shows "\<exists>es k. retire_loop del_event close fds p = Inr (p\<lparr>fp_entry := es, fp_os := k\<rparr>) \<and>
    (\<forall>close'. retire_loop del_event close' fds p = retire_loop del_event close fds p) \<and>
    length es = length (fp_entry p) \<and> map pe_reactor es = map pe_reactor (fp_entry p) \<and>
    (\<forall>i < length es. pe_status (es ! i) = (if int i \<in> set fds then FDS_EMPTY else pe_status (fp_entry p ! i)))"
  using assms
proof (induction fds arbitrary: p)
  case Nil
  then show ?case by (intro exI [of _ "fp_entry p"] exI [of _ "fp_os p"]) simp
next
  case (Cons fd fds)
  then have fd: "fd_ok p fd" by simp
  obtain p1 r where p1: "del_event fd (EV_READ OR EV_WRITE) p = Inr (p1, r)" and f1: "mask_frame fd p p1"
    using del_law [OF Cons.prems(1) fd] by blast
  obtain es1 k1 where e1: "p1 = p\<lparr>fp_entry := es1, fp_os := k1\<rparr>" "length es1 = length (fp_entry p)"
      "map pe_status es1 = map pe_status (fp_entry p)" "map pe_reactor es1 = map pe_reactor (fp_entry p)" "poller_ok p1"
    using mask_frameE [OF f1 fd Cons.prems(1)] by blast
  define es2 where "es2 = es1[nat fd := (es1 ! nat fd)\<lparr>pe_ev_mask := 0, pe_status := FDS_EMPTY\<rparr>]"
  define p2 where "p2 = p\<lparr>fp_entry := es2, fp_os := k1\<rparr>"
  have fd1: "fd_ok p1 fd" using fd e1 by (simp add: fd_ok_def)
  have r2: "reset_fd fd p1 = Inr p2" using reset_ok [OF e1(5) fd1] e1(1) by (simp add: p2_def es2_def)
  have n: "nat fd < length es1" using fd_ok_nat [OF fd] e1(2) by simp
  have ok2: "poller_ok p2"
  proof -
    have "entries_ok es2"
      unfolding es2_def using poller_entries_ok [OF e1(5)] e1(1) by (intro entries_ok_update) simp_all
    then show ?thesis
      using poller_ok_entries [OF e1(5), of es2 k1] e1(1,2) by (simp add: p2_def es2_def)
  qed
  have at2: "entry_at p2 fd = Inr (es2 ! nat fd)" using n fd by (auto simp: entry_at_def p2_def es2_def fd_ok_def)
  have st2: "pe_status (es2 ! nat fd) = FDS_EMPTY" using n by (simp add: es2_def)
  have step: "retire_loop del_event cl (fd # fds) p = retire_loop del_event cl fds p2" for cl
    using p1 r2 at2 st2 by simp
  have "\<forall>fd \<in> set fds. fd_ok p2 fd" using Cons.prems(2) e1(2) by (simp add: fd_ok_def p2_def es2_def)
  then obtain es k where ih: "retire_loop del_event close fds p2 = Inr (p2\<lparr>fp_entry := es, fp_os := k\<rparr>)"
      "\<forall>close'. retire_loop del_event close' fds p2 = retire_loop del_event close fds p2"
      "length es = length es2" "map pe_reactor es = map pe_reactor es2"
      "\<forall>i < length es. pe_status (es ! i) = (if int i \<in> set fds then FDS_EMPTY else pe_status (es2 ! i))"
    using Cons.IH [OF ok2] by (auto simp: p2_def)
  have "map pe_reactor es2 = map pe_reactor es1" using n by (simp add: es2_def map_update list_update_same_conv)
  then have "map pe_reactor es2 = map pe_reactor (fp_entry p)" using e1(4) by simp
  moreover have "pe_status (es2 ! i) = (if int i = fd then FDS_EMPTY else pe_status (fp_entry p ! i))" if "i < length es2" for i
    using that e1(2) nth_map [of i es1 pe_status] nth_map [of i "fp_entry p" pe_status] e1(3) fd
    by (auto simp: es2_def nth_list_update fd_ok_def)
  ultimately show ?case
    using ih step e1(1,2) by (intro exI [of _ es] exI [of _ k]) (auto simp: p2_def es2_def)
qed

text \<open>Adding the pending descriptors: all of them become active with a pending reactor, the others keep
  their state.\<close>

lemma pending_loop_ok:
  assumes "poller_ok p" and "fp_pending_new p = m"
    and "seg (fld he_link_next (hm_heap m)) (fld he_link_prev (hm_heap m)) q h xs None"
    and "set xs \<subseteq> alive (hm_heap m)" and "length xs \<le> n"
    and "\<forall>a \<in> set xs. fd_ok p (sint (the (hkey (hm_heap m) a))) \<and> fld he_data (hm_heap m) a \<noteq> None"
  shows "\<exists>es k. pending_loop add_event n h p = Inr (p\<lparr>fp_entry := es, fp_os := k\<rparr>) \<and>
    poller_ok (p\<lparr>fp_entry := es, fp_os := k\<rparr>) \<and>
    after_pending (map (\<lambda>a. (sint (the (hkey (hm_heap m) a)), fld he_data (hm_heap m) a)) xs) (fp_entry p) es"
  using assms
proof (induction xs arbitrary: n h p q)
  case Nil
  then show ?case by (intro exI [of _ "fp_entry p"] exI [of _ "fp_os p"]) simp
next
  case (Cons a xs)
  define fd where "fd = sint (the (hkey (hm_heap m) a))"
  define d where "d = fld he_data (hm_heap m) a"
  have h: "h = Some a" and al: "a \<in> alive (hm_heap m)" using Cons.prems(3,4) by simp_all
  obtain n' where n: "n = Suc n'" "length xs \<le> n'" using Cons.prems(5) by (cases n) auto
  have he: "hget (hm_heap m) a = Inr (the (hm_heap m ! a))" using al by (rule hget_alive)
  have key: "sint (he_key (the (hm_heap m ! a))) = fd" and dat: "he_data (the (hm_heap m ! a)) = d"
    and nx: "he_link_next (the (hm_heap m ! a)) = fld he_link_next (hm_heap m) a"
    using al by (simp_all add: fd_def d_def hkey_def fld_def alive_iff split: option.splits)
  have fd: "fd_ok p fd" and d: "d \<noteq> None" using Cons.prems(6) by (simp_all add: fd_def d_def)
  define es1 where "es1 = (fp_entry p)[nat fd := \<lparr>pe_ev_mask = 0, pe_status = FDS_ACTIVE, pe_reactor = d\<rparr>]"
  define p1 where "p1 = p\<lparr>fp_entry := es1, fp_os := fp_os p\<rparr>"
  have e1: "entries_ok es1"
    unfolding es1_def using poller_entries_ok [OF Cons.prems(1)] d by (intro entries_ok_update) simp_all
  then have ok1: "poller_ok p1"
    unfolding p1_def by (intro poller_ok_entries Cons.prems(1)) (simp_all add: es1_def)
  have fd1: "fd_ok p1 fd" using fd by (simp add: fd_ok_def p1_def es1_def)
  obtain p2 r where p2: "add_event fd EV_READ p1 = Inr (p2, r)" "mask_frame fd p1 p2" using add_law [OF ok1 fd1] by blast
  have p1e: "fp_entry p1 = es1" by (simp add: p1_def)
  obtain es2 k2 where e2: "p2 = p1\<lparr>fp_entry := es2, fp_os := k2\<rparr>" "length es2 = length es1"
      "map pe_status es2 = map pe_status es1" "map pe_reactor es2 = map pe_reactor es1" "poller_ok p2"
    using mask_frameE [OF p2(2) fd1 ok1] unfolding p1e by blast
  have sg: "seg (fld he_link_next (hm_heap m)) (fld he_link_prev (hm_heap m)) (Some a) (fld he_link_next (hm_heap m) a) xs None"
    and al': "set xs \<subseteq> alive (hm_heap m)" using Cons.prems(3,4) by simp_all
  have e2e: "fp_entry p2 = es2" by (simp add: e2(1))
  have m2: "fp_pending_new p2 = m" using Cons.prems(2) by (simp add: e2(1) p1_def)
  have l2: "length es2 = length (fp_entry p)" using e2(2) by (simp add: p1_def es1_def)
  have step: "pending_loop add_event n h p = pending_loop add_event n' (fld he_link_next (hm_heap m) a) p2"
    using he key dat nx p2(1) m2 entry_upd_ok [OF fd] Cons.prems(2)
    by (simp add: n(1) h get_link_next_def ev_defs p1_def es1_def)
  have "\<forall>b \<in> set xs. fd_ok p2 (sint (the (hkey (hm_heap m) b))) \<and> fld he_data (hm_heap m) b \<noteq> None"
    using Cons.prems(6) l2 by (simp add: fd_ok_def e2(1))
  from Cons.IH [OF e2(5) m2 sg al' n(2) this] obtain es k where ih: "pending_loop add_event n' (fld he_link_next (hm_heap m) a) p2 = Inr (p2\<lparr>fp_entry := es, fp_os := k\<rparr>)"
      "poller_ok (p2\<lparr>fp_entry := es, fp_os := k\<rparr>)"
      "after_pending (map (\<lambda>a. (sint (the (hkey (hm_heap m) a)), fld he_data (hm_heap m) a)) xs) es2 es"
    unfolding e2e by blast
  have p2e: "p2\<lparr>fp_entry := es, fp_os := k\<rparr> = p\<lparr>fp_entry := es, fp_os := k\<rparr>" by (simp add: e2(1) p1_def)
  have e2i: "pe_status (es2 ! i) = (if int i = fd then FDS_ACTIVE else pe_status (fp_entry p ! i)) \<and>
      pe_reactor (es2 ! i) = (if int i = fd then d else pe_reactor (fp_entry p ! i))" if "i < length es2" for i
    using that l2 fd nth_map [of i es2 pe_status] nth_map [of i es1 pe_status] nth_map [of i es2 pe_reactor] nth_map [of i es1 pe_reactor]
    by (auto simp: e2(3,4) es1_def nth_list_update fd_ok_def)
  have "after_pending ((fd, d) # map (\<lambda>a. (sint (the (hkey (hm_heap m) a)), fld he_data (hm_heap m) a)) xs) (fp_entry p) es"
    using e2i l2 by (intro after_pending_Cons [OF l2 _ ih(3)]) auto
  then show ?case
    using ih step unfolding p2e by (intro exI [of _ es] exI [of _ k]) (simp add: fd_def d_def)
qed

lemma process_ok:
  assumes t: "timer_routine cb now (fp_timer p) = Inr (t, hs)"
    and poll: "do_poll (p\<lparr>fp_timer := t\<rparr>) = Inr (p1, n)" and ok: "poller_ok p1"
  shows "\<exists>p'. poller_process add_event del_event do_poll close cb now p = Inr (p', 0) \<and> poller_ok p' \<and>
    (\<forall>close'. poller_process add_event del_event do_poll close' cb now p = Inr (p', 0)) \<and>
    fp_retired_sz p' = 0 \<and> fp_pending_new p' = fp_pending_new p1 \<and> fp_max_fds p' = fp_max_fds p1 \<and>
    (\<exists>es. length es = length (fp_entry p1) \<and>
      (\<forall>i < length es. pe_reactor (es ! i) = pe_reactor (fp_entry p1 ! i) \<and>
         pe_status (es ! i) =
           (if int i \<in> set (take (nat (fp_retired_sz p1)) (fp_retired p1)) then FDS_EMPTY else pe_status (fp_entry p1 ! i))) \<and>
      after_pending (pending_fds p1) es (fp_entry p'))"
proof -
  let ?rs = "take (nat (fp_retired_sz p1)) (fp_retired p1)" and ?m = "fp_pending_new p1"
  have "\<forall>fd \<in> set ?rs. fd_ok p1 fd" using ok by (simp add: poller_ok_def)
  from retire_loop_ok [OF ok this, of close] obtain es k where
    r: "retire_loop del_event close ?rs p1 = Inr (p1\<lparr>fp_entry := es, fp_os := k\<rparr>)"
      "\<forall>close'. retire_loop del_event close' ?rs p1 = retire_loop del_event close ?rs p1"
      "length es = length (fp_entry p1)" "map pe_reactor es = map pe_reactor (fp_entry p1)"
      "\<forall>i < length es. pe_status (es ! i) = (if int i \<in> set ?rs then FDS_EMPTY else pe_status (fp_entry p1 ! i))"
    by blast
  have re: "pe_reactor (es ! i) = pe_reactor (fp_entry p1 ! i)" if "i < length es" for i
    using that r(3) arg_cong [OF r(4), of "\<lambda>l. l ! i"] by simp
  define p2 where "p2 = p1\<lparr>fp_entry := es, fp_os := k, fp_retired_sz := 0\<rparr>"
  have "pe_reactor (es ! i) \<noteq> None" if "i < length es" "pe_status (es ! i) = FDS_ACTIVE" for i
    using that r(3) r(5) [rule_format, OF that(1)] re [OF that(1)] poller_entries_ok [OF ok]
    by (simp add: entries_ok_def split: if_splits)
  then have "entries_ok es" by (auto simp: entries_ok_def in_set_conv_nth)
  then have ok2: "poller_ok p2"
    unfolding p2_def using poller_ok_retired0 [OF poller_ok_entries [OF ok r(3)]] by simp
  obtain bl xs where hm: "hmap_ok do_hash_uint ?m bl xs" using ok by (auto simp: poller_ok_def)
  then have seg: "seg (fld he_link_next (hm_heap ?m)) (fld he_link_prev (hm_heap ?m)) None (hm_link_head ?m) xs None"
    and al: "set xs \<subseteq> alive (hm_heap ?m)" and dx: "distinct xs" by (auto simp: hmap_ok_def list_ok_def dll_def)
  have len: "length xs \<le> length (hm_heap ?m)"
    using dx al by (intro distinct_bounded_length) (auto dest: alive_less)
  have pend: "pending_fds p1 = map (\<lambda>a. (sint (the (hkey (hm_heap ?m) a)), fld he_data (hm_heap ?m) a)) xs"
    by (simp add: pending_fds_def hmap_items_ok [OF hm])
  have "\<forall>a \<in> set xs. fd_ok p2 (sint (the (hkey (hm_heap ?m) a))) \<and> fld he_data (hm_heap ?m) a \<noteq> None"
    using ok r(3) unfolding poller_ok_def pend by (auto simp: p2_def fd_ok_def)
  from pending_loop_ok [OF ok2 _ seg al len this] obtain es' k' where
    q: "pending_loop add_event (length (hm_heap ?m)) (hm_link_head ?m) p2 = Inr (p2\<lparr>fp_entry := es', fp_os := k'\<rparr>)"
      "poller_ok (p2\<lparr>fp_entry := es', fp_os := k'\<rparr>)" "after_pending (pending_fds p1) es es'"
    unfolding pend by (auto simp: p2_def)
  define p' where "p' = p2\<lparr>fp_entry := es', fp_os := k'\<rparr>"
  have run: "poller_process add_event del_event do_poll cl cb now p = Inr (p', 0)" for cl
    using t poll r(1) r(2) [rule_format, of cl] q(1)
    by (simp add: poller_process_def Let_def hmap_head_def p'_def p2_def)
  show ?thesis using run q(2,3) r(3,5) re by (intro exI [of _ p']) (auto simp: p'_def p2_def)
qed

text \<open>The other operations, on every branch.\<close>

lemma add_fd_ok:
  assumes "poller_ok p" and "r \<noteq> None"
  shows "\<exists>p' n. add_fd add_event fd r p = Inr (p', n) \<and> poller_ok p' \<and> fp_max_fds p' = fp_max_fds p \<and>
    (if \<not> fd_ok p fd then n = AX_RET_ERROR \<and> p' = p
     else if pe_status (fp_entry p ! nat fd) \<noteq> FDS_EMPTY
     then n = AX_RET_AGAIN \<and> pending_fds p' = (fd, r) # pending_fds p \<and> fp_entry p' = fp_entry p
     else n = AX_RET_OK \<and> pending_fds p' = pending_fds p \<and>
       map pe_status (fp_entry p') = (map pe_status (fp_entry p))[nat fd := FDS_ACTIVE] \<and>
       map pe_reactor (fp_entry p') = (map pe_reactor (fp_entry p))[nat fd := r])"
proof (cases "fd_ok p fd")
  case False
  then show ?thesis using assms by (simp add: add_fd_def fd_out_iff)
next
  case fd: True
  show ?thesis
  proof (cases "pe_status (fp_entry p ! nat fd) = FDS_EMPTY")
    case True
    define es1 where "es1 = (fp_entry p)[nat fd := \<lparr>pe_ev_mask = 0, pe_status = FDS_ACTIVE, pe_reactor = r\<rparr>]"
    define p1 where "p1 = p\<lparr>fp_entry := es1, fp_os := fp_os p\<rparr>"
    have "entries_ok es1" unfolding es1_def
      using poller_entries_ok [OF assms(1)] assms(2) by (intro entries_ok_update) simp_all
    then have ok1: "poller_ok p1" unfolding p1_def by (intro poller_ok_entries assms(1)) (simp_all add: es1_def)
    have fd1: "fd_ok p1 fd" using fd by (simp add: fd_ok_def p1_def es1_def)
    obtain p2 n where p2: "add_event fd EV_READ p1 = Inr (p2, n)" "mask_frame fd p1 p2" using add_law [OF ok1 fd1] by blast
    obtain es2 k2 where e2: "p2 = p1\<lparr>fp_entry := es2, fp_os := k2\<rparr>"
        "map pe_status es2 = map pe_status (fp_entry p1)" "map pe_reactor es2 = map pe_reactor (fp_entry p1)" "poller_ok p2"
      using mask_frameE [OF p2(2) fd1 ok1] by blast
    have "add_fd add_event fd r p = Inr (p2, AX_RET_OK)"
      using fd True assms(1) p2(1)
      by (simp add: add_fd_def fd_out_iff entry_at_ok entry_upd_ok ev_defs p1_def es1_def)
    then show ?thesis using True fd e2 by (simp add: p1_def es1_def map_update)
  next
    case False
    obtain bl xs where hm: "hmap_ok do_hash_uint (fp_pending_new p) bl xs" using assms(1) by (auto simp: poller_ok_def)
    obtain m where run: "hmap_insert do_hash_uint (word_of_int fd) r (fp_pending_new p) = Inr m"
      using hmap_insert_ok [OF hm] by blast
    have it: "hmap_items m = (word_of_int fd, r) # hmap_items (fp_pending_new p)" using hmap_insert_items(2) [OF hm run] .
    have hm': "\<exists>bl xs. hmap_ok do_hash_uint m bl xs" using hmap_insert_items(1) [OF hm run] by blast
    define p1 where "p1 = p\<lparr>fp_pending_new := m\<rparr>"
    have "sint (word_of_int fd :: u32) = fd" using fd_ok_max [OF assms(1) fd] by (intro sint_int_of) simp_all
    then have pend: "pending_fds p1 = (fd, r) # pending_fds p" by (simp add: pending_fds_def p1_def it)
    have ok': "fd_ok p1 = fd_ok p" by (simp add: p1_def fun_eq_iff)
    have "poller_ok p1"
      using assms hm' fd unfolding poller_ok_def pend ok' by (simp add: p1_def)
    then show ?thesis using False fd assms(1) run pend
      by (intro exI [of _ p1] exI [of _ AX_RET_AGAIN]) (simp add: add_fd_def fd_out_iff entry_at_ok p1_def)
  qed
qed

lemma wait_close_ok:
  assumes "poller_ok p"
  shows "\<exists>p' n. wait_close del_event fd p = Inr (p', n) \<and> poller_ok p' \<and> fp_max_fds p' = fp_max_fds p \<and>
    (if fd_ok p fd \<and> pe_status (fp_entry p ! nat fd) = FDS_ACTIVE
     then n = AX_RET_OK \<and> map pe_status (fp_entry p') = (map pe_status (fp_entry p))[nat fd := FDS_WAIT_CLOSE] \<and>
       map pe_reactor (fp_entry p') = (map pe_reactor (fp_entry p))[nat fd := None]
     else n = AX_RET_ERROR \<and> p' = p)"
proof (cases "fd_ok p fd \<and> pe_status (fp_entry p ! nat fd) = FDS_ACTIVE")
  case False
  then show ?thesis using assms by (auto simp: wait_close_def fd_out_iff entry_at_ok)
next
  case True
  then have fd: "fd_ok p fd" by simp
  obtain p1 n where p1: "del_event fd (EV_READ OR EV_WRITE) p = Inr (p1, n)" "mask_frame fd p p1"
    using del_law [OF assms fd] by blast
  obtain es1 k1 where e1: "p1 = p\<lparr>fp_entry := es1, fp_os := k1\<rparr>" "length es1 = length (fp_entry p)"
      "map pe_status es1 = map pe_status (fp_entry p)" "map pe_reactor es1 = map pe_reactor (fp_entry p)" "poller_ok p1"
    using mask_frameE [OF p1(2) fd assms] by blast
  define es2 where "es2 = es1[nat fd := (es1 ! nat fd)\<lparr>pe_status := FDS_WAIT_CLOSE, pe_reactor := None\<rparr>]"
  have "entries_ok es2" unfolding es2_def
    using poller_entries_ok [OF e1(5)] e1(1) by (intro entries_ok_update) simp_all
  then have "poller_ok (p\<lparr>fp_entry := es2, fp_os := k1\<rparr>)"
    using e1(2) by (intro poller_ok_entries assms) (simp_all add: es2_def)
  moreover have "wait_close del_event fd p = Inr (p\<lparr>fp_entry := es2, fp_os := k1\<rparr>, AX_RET_OK)"
    using True assms p1(1) e1(1,2) entry_upd_ok [of p1 fd]
    by (simp add: wait_close_def fd_out_iff entry_at_ok fd_ok_def es2_def)
  ultimately show ?thesis using True e1 by (simp add: es2_def map_update)
qed

lemma set_reactor_ok:
  assumes "poller_ok p" and "r \<noteq> None"
  shows "\<exists>p' n. set_reactor fd r p = Inr (p', n) \<and> poller_ok p' \<and> fp_max_fds p' = fp_max_fds p"
proof (cases "fd_ok p fd")
  case True
  have "entries_ok ((fp_entry p)[nat fd := (fp_entry p ! nat fd)\<lparr>pe_reactor := r\<rparr>])"
    using poller_entries_ok [OF assms(1)] assms(2) by (intro entries_ok_update) simp_all
  then have "poller_ok (p\<lparr>fp_entry := (fp_entry p)[nat fd := (fp_entry p ! nat fd)\<lparr>pe_reactor := r\<rparr>], fp_os := fp_os p\<rparr>)"
    by (intro poller_ok_entries assms(1)) simp_all
  then show ?thesis using True assms(1) by (simp add: set_reactor_def fd_out_iff entry_at_ok entry_upd_ok)
qed (use assms in \<open>simp add: set_reactor_def fd_out_iff\<close>)

lemma close_fd_ok:
  assumes "poller_ok p" and "fd_ok p fd" and "fp_retired_sz p < sint (fp_max_fds p)"
  shows "\<exists>p'. close_fd fd p = Inr (p', 0) \<and> poller_ok p' \<and> fp_max_fds p' = fp_max_fds p \<and>
    take (nat (fp_retired_sz p')) (fp_retired p') = take (nat (fp_retired_sz p)) (fp_retired p) @ [fd]"
proof -
  define i where "i = nat (fp_retired_sz p)"
  have sz: "fp_retired_sz p = int i" "i < length (fp_retired p)" "length (fp_retired p) = length (fp_entry p)"
    using assms(3) poller_retired [OF assms(1)] by (simp_all add: i_def)
  define p' where "p' = p\<lparr>fp_retired := (fp_retired p)[i := fd], fp_retired_sz := fp_retired_sz p + 1\<rparr>"
  have run: "close_fd fd p = Inr (p', 0)" using sz by (simp add: close_fd_def p'_def)
  have tk: "take (nat (fp_retired_sz p')) (fp_retired p') = take (nat (fp_retired_sz p)) (fp_retired p) @ [fd]"
    using sz by (simp add: p'_def take_Suc_conv_app_nth nat_add_distrib)
  have "fd_ok p' = fd_ok p" by (simp add: p'_def fun_eq_iff fd_ok_def)
  moreover have "pending_fds p' = pending_fds p" by (simp add: p'_def pending_fds_def)
  ultimately have "poller_ok p'"
    using assms(1,2) sz unfolding poller_ok_def tk by (auto simp: p'_def)
  moreover have "fp_max_fds p' = fp_max_fds p" by (simp add: p'_def)
  ultimately show ?thesis using run tk by blast
qed

end

lemma reset_loop_ok:
  "reset_loop n i p = Inr (p\<lparr>fp_entry := take (nat i) (fp_entry p) @
     map (\<lambda>e. e\<lparr>pe_ev_mask := 0, pe_status := FDS_EMPTY\<rparr>) (take n (drop (nat i) (fp_entry p))) @
     drop (n + nat i) (fp_entry p)\<rparr>)"
  if "0 \<le> i" "nat i + n \<le> length (fp_entry p)" "sint (fp_max_fds p) = int (length (fp_entry p))"
  using that
proof (induction n arbitrary: i p)
  case (Suc n)
  have i: "nat (i + 1) = Suc (nat i)" using Suc.prems(1) by (simp add: nat_add_distrib)
  have "fd_ok p i" using Suc.prems by (auto simp: fd_ok_def)
  then have "reset_fd i p = Inr (p\<lparr>fp_entry := (fp_entry p)[nat i := (fp_entry p ! nat i)\<lparr>pe_ev_mask := 0, pe_status := FDS_EMPTY\<rparr>]\<rparr>)"
    using Suc.prems by (simp add: reset_fd_def fd_out_def entry_upd_ok fd_ok_def ev_defs)
  moreover have n: "nat i < length (fp_entry p)" using Suc.prems by simp
  ultimately show ?case
    using Suc.IH [of "i + 1" "p\<lparr>fp_entry := (fp_entry p)[nat i := (fp_entry p ! nat i)\<lparr>pe_ev_mask := 0, pe_status := FDS_EMPTY\<rparr>]\<rparr>"] Suc.prems
    by (simp add: i upd_conv_take_nth_drop take_Suc_conv_app_nth Cons_nth_drop_Suc [symmetric] min_def)
qed simp

lemma poller_new_eq:
  assumes "0 < timetick" and "length junk = unat maxn" and "unat maxn < 2 ^ 31"
  shows "poller_new maxn timetick now tjunk junk os = Inr
    \<lparr>fp_entry = map (\<lambda>e. e\<lparr>pe_ev_mask := 0, pe_status := FDS_EMPTY\<rparr>) junk, fp_pending_new = hmap_new 10,
     fp_retired = replicate (unat maxn) 0, fp_retired_sz = 0, fp_timer = timer_new (word_of_int timetick) now tjunk,
     fp_timetick = timetick, fp_max_fds = maxn, fp_tm_last = 0, fp_os = os\<rparr>"
proof -
  have m: "sint maxn = int (unat maxn)" using assms(3) by (rule sint_u32)
  have n: "nat (sint maxn) = length junk" using m assms(2) by simp
  show ?thesis
    using assms(1) unfolding poller_new_def n
    by (subst reset_loop_ok) (simp_all add: m assms(2) del: of_nat_unat)
qed

lemma poller_newD:
  assumes "poller_new maxn timetick now tjunk junk os = Inr p" and "length junk = unat maxn" and "unat maxn < 2 ^ 31"
  shows "poller_ok p" and "fp_max_fds p = maxn" and "fp_retired_sz p = 0" and "pending_fds p = []"
    and "\<forall>e \<in> set (fp_entry p). pe_status e = FDS_EMPTY"
    and "fp_timer p = timer_new (word_of_int timetick) now tjunk" and "fp_os p = os"
proof -
  have t: "0 < timetick" using assms(1) by (auto simp: poller_new_def ax_res)
  note p = assms(1) [unfolded poller_new_eq [OF t assms(2,3)], simplified, symmetric]
  show "fp_max_fds p = maxn" and "fp_retired_sz p = 0" and pend: "pending_fds p = []"
    and "\<forall>e \<in> set (fp_entry p). pe_status e = FDS_EMPTY"
    and "fp_timer p = timer_new (word_of_int timetick) now tjunk" and "fp_os p = os"
    by (simp_all add: p pending_fds_def hmap_new_items)
  have "\<exists>bl xs. hmap_ok do_hash_uint (fp_pending_new p) bl xs" using hmap_new_ok [of 10] by (fastforce simp: p)
  then show "poller_ok p" unfolding poller_ok_def pend using assms(2,3) t by (simp add: p entries_ok_def)
qed

end
