(* ===== verification/Epoll.thy ===== *)
theory Epoll
  imports Fd_Poller
begin

text \<open>
  The Linux driver \<^verbatim>\<open>EpollPoller\<close> of \<^verbatim>\<open>src/core/epoll.h\<close> and \<^verbatim>\<open>epoll.cc\<close>. The system calls are arguments:
  \<open>ctl op fd events os\<close> is \<^verbatim>\<open>epoll_ctl\<close> on the instance, \<open>wait timeout os\<close> is \<^verbatim>\<open>epoll_wait\<close> with
  the reported events, or \<^const>\<open>None\<close> when it fails.
\<close>

datatype epoll_op = EPOLL_CTL_ADD | EPOLL_CTL_DEL

definition EPOLLIN :: u32 where "EPOLLIN = 1"
definition EPOLLOUT :: u32 where "EPOLLOUT = 4"

section \<open>Operations\<close>

text \<open>One of the four guarded requests of \<^verbatim>\<open>add_event\<close> and \<^verbatim>\<open>del_event\<close>; the flag of the result says whether the
  caller returns with an error.\<close>

definition epoll_request :: "(epoll_op \<Rightarrow> int \<Rightarrow> u32 \<Rightarrow> 'k \<Rightarrow> 'k \<times> int) \<Rightarrow> epoll_op \<Rightarrow> u32 \<Rightarrow> (u8 \<Rightarrow> u8) \<Rightarrow> int \<Rightarrow>
    ('r, 'c, 'd, 'k) fd_poller \<Rightarrow> (('r, 'c, 'd, 'k) fd_poller \<times> bool) res" where
  "epoll_request ctl opn events f fd p =
     (let (os, ret) = ctl opn fd events (fp_os p); p = p\<lparr>fp_os := os\<rparr> in
      if ret = - 1 then Inr (p, True)
      else rbind (entry_upd fd (\<lambda>e. e\<lparr>pe_ev_mask := f (pe_ev_mask e)\<rparr>) p) (\<lambda>p. Inr (p, False)))"

definition epoll_add_event :: "(epoll_op \<Rightarrow> int \<Rightarrow> u32 \<Rightarrow> 'k \<Rightarrow> 'k \<times> int) \<Rightarrow> int \<Rightarrow> u32 \<Rightarrow>
    ('r, 'c, 'd, 'k) fd_poller \<Rightarrow> (('r, 'c, 'd, 'k) fd_poller \<times> int) res" where
  "epoll_add_event ctl fd flag p =
     (if fd < 0 \<or> fd > sint (fp_max_fds p) then Inr (p, AX_RET_ERROR)
      else
        rbind (if flag AND EV_READ \<noteq> 0 then epoll_request ctl EPOLL_CTL_ADD EPOLLIN (\<lambda>m. m OR ucast EV_READ) fd p
               else Inr (p, False)) (\<lambda>(p, failed).
        if failed then Inr (p, AX_RET_ERROR)
        else
          rbind (if flag AND EV_WRITE \<noteq> 0 then epoll_request ctl EPOLL_CTL_ADD EPOLLOUT (\<lambda>m. m OR ucast EV_WRITE) fd p
                 else Inr (p, False)) (\<lambda>(p, failed).
            Inr (p, if failed then AX_RET_ERROR else AX_RET_OK))))"

definition epoll_del_event :: "(epoll_op \<Rightarrow> int \<Rightarrow> u32 \<Rightarrow> 'k \<Rightarrow> 'k \<times> int) \<Rightarrow> int \<Rightarrow> u32 \<Rightarrow>
    ('r, 'c, 'd, 'k) fd_poller \<Rightarrow> (('r, 'c, 'd, 'k) fd_poller \<times> int) res" where
  "epoll_del_event ctl fd flag p =
     (if fd < 0 \<or> fd \<ge> uint (fp_max_fds p) then Inr (p, AX_RET_ERROR)
      else
        rbind (if flag AND EV_READ \<noteq> 0 then epoll_request ctl EPOLL_CTL_DEL EPOLLIN (\<lambda>m. m AND NOT (ucast EV_READ)) fd p
               else Inr (p, False)) (\<lambda>(p, failed).
        if failed then Inr (p, AX_RET_ERROR)
        else
          rbind (if flag AND EV_WRITE \<noteq> 0 then epoll_request ctl EPOLL_CTL_DEL EPOLLOUT (\<lambda>m. m AND NOT (ucast EV_WRITE)) fd p
                 else Inr (p, False)) (\<lambda>(p, failed).
            Inr (p, if failed then AX_RET_ERROR else AX_RET_OK))))"

text \<open>The call of a reactor through the entry of the descriptor.\<close>

definition call_reactor :: "('r \<Rightarrow> bool \<Rightarrow> int \<Rightarrow> ('r, 'c, 'd, 'k) fd_poller \<Rightarrow> ('r, 'c, 'd, 'k) fd_poller res) \<Rightarrow>
    bool \<Rightarrow> int \<Rightarrow> ('r, 'c, 'd, 'k) fd_poller \<Rightarrow> ('r, 'c, 'd, 'k) fd_poller res" where
  "call_reactor on_ev w fd p =
     rbind (entry_at p fd) (\<lambda>e. rbind (deref (pe_reactor e)) (\<lambda>r. on_ev r w fd p))"

fun epoll_loop :: "(epoll_op \<Rightarrow> int \<Rightarrow> u32 \<Rightarrow> 'k \<Rightarrow> 'k \<times> int) \<Rightarrow>
    ('r \<Rightarrow> bool \<Rightarrow> int \<Rightarrow> ('r, 'c, 'd, 'k) fd_poller \<Rightarrow> ('r, 'c, 'd, 'k) fd_poller res) \<Rightarrow>
    (int \<times> u32) list \<Rightarrow> ('r, 'c, 'd, 'k) fd_poller \<Rightarrow> ('r, 'c, 'd, 'k) fd_poller res" where
  "epoll_loop ctl on_ev [] p = Inr p"
| "epoll_loop ctl on_ev ((fd, events) # evs) p =
     rbind (entry_at p fd) (\<lambda>pe.
     if pe_status pe \<noteq> FDS_ACTIVE then
       rbind (epoll_del_event ctl fd (EV_READ OR EV_WRITE) p) (\<lambda>(p, _). epoll_loop ctl on_ev evs p)
     else
       rbind (if events AND EPOLLIN \<noteq> 0 then call_reactor on_ev False fd p else Inr p) (\<lambda>p.
       rbind (if events AND EPOLLOUT \<noteq> 0 then call_reactor on_ev True fd p else Inr p) (\<lambda>p.
         epoll_loop ctl on_ev evs p)))"

definition epoll_do_poll :: "(epoll_op \<Rightarrow> int \<Rightarrow> u32 \<Rightarrow> 'k \<Rightarrow> 'k \<times> int) \<Rightarrow>
    (int \<Rightarrow> 'k \<Rightarrow> 'k \<times> (int \<times> u32) list option) \<Rightarrow>
    ('r \<Rightarrow> bool \<Rightarrow> int \<Rightarrow> ('r, 'c, 'd, 'k) fd_poller \<Rightarrow> ('r, 'c, 'd, 'k) fd_poller res) \<Rightarrow>
    ('r, 'c, 'd, 'k) fd_poller \<Rightarrow> (('r, 'c, 'd, 'k) fd_poller \<times> int) res" where
  "epoll_do_poll ctl wait on_ev p =
     (let (os, events) = wait (if fp_timetick p > 0 then fp_timetick p else - 1) (fp_os p);
          p = p\<lparr>fp_os := os\<rparr> in
      case events of None \<Rightarrow> Inr (p, AX_RET_ERROR)
      | Some evs \<Rightarrow> rbind (epoll_loop ctl on_ev evs p) (\<lambda>p. Inr (p, int (length evs))))"

section \<open>The driver contract\<close>

lemma mask_frame_refl: "fd_ok p fd \<Longrightarrow> mask_frame fd p p"
  unfolding mask_frame_def
  by (intro exI [of _ "pe_ev_mask (fp_entry p ! nat fd)"] exI [of _ "fp_os p"]) simp

lemma mask_frame_os: "mask_frame fd p (p\<lparr>fp_os := k\<rparr>)" if "fd_ok p fd"
  unfolding mask_frame_def
  by (intro exI [of _ "pe_ev_mask (fp_entry p ! nat fd)"] exI [of _ k]) simp

lemma mask_frame_trans:
  assumes "mask_frame fd p q" and "mask_frame fd q r" and "fd_ok p fd"
  shows "mask_frame fd p r"
proof -
  obtain m k where q: "q = p\<lparr>fp_entry := (fp_entry p)[nat fd := (fp_entry p ! nat fd)\<lparr>pe_ev_mask := m\<rparr>], fp_os := k\<rparr>"
    using assms(1) by (auto simp: mask_frame_def)
  obtain m' k' where r: "r = q\<lparr>fp_entry := (fp_entry q)[nat fd := (fp_entry q ! nat fd)\<lparr>pe_ev_mask := m'\<rparr>], fp_os := k'\<rparr>"
    using assms(2) by (auto simp: mask_frame_def)
  show ?thesis unfolding mask_frame_def
    by (intro exI [of _ m'] exI [of _ k']) (simp add: r q fd_ok_nat [OF assms(3)])
qed

lemma mask_frame_fd_ok: "mask_frame fd p q \<Longrightarrow> fd_ok q fd = fd_ok p fd"
  by (auto simp: mask_frame_def fd_ok_def)

lemma mask_frame_max: "mask_frame fd p q \<Longrightarrow> fp_max_fds q = fp_max_fds p"
  by (auto simp: mask_frame_def)

lemma epoll_request_frame:
  assumes "fd_ok p fd"
  shows "\<exists>p' b. epoll_request ctl opn ev f fd p = Inr (p', b) \<and> mask_frame fd p p'"
proof -
  obtain k r where c: "ctl opn fd ev (fp_os p) = (k, r)" by force
  show ?thesis
  proof (cases "r = - 1")
    case True
    then show ?thesis using c mask_frame_os [OF assms, of k] by (auto simp: epoll_request_def)
  next
    case False
    have "mask_frame fd p (p\<lparr>fp_os := k, fp_entry := (fp_entry p)[nat fd := (fp_entry p ! nat fd)\<lparr>pe_ev_mask := f (pe_ev_mask (fp_entry p ! nat fd))\<rparr>]\<rparr>)"
      unfolding mask_frame_def by (intro exI [of _ "f (pe_ev_mask (fp_entry p ! nat fd))"] exI [of _ k]) simp
    then show ?thesis using False c assms entry_upd_ok [of "p\<lparr>fp_os := k\<rparr>" fd] by (auto simp: epoll_request_def)
  qed
qed

lemma epoll_optional_frame:
  assumes "fd_ok p fd"
  shows "\<exists>p' b. (if c then epoll_request ctl opn ev f fd p else Inr (p, False)) = Inr (p', b) \<and> mask_frame fd p p'"
  using epoll_request_frame [OF assms, of ctl opn ev f] mask_frame_refl [OF assms] by (cases c) auto

lemma epoll_event_frame:
  assumes "poller_ok p" and "fd_ok p fd"
  shows "\<exists>p' r. epoll_add_event ctl fd f p = Inr (p', r) \<and> mask_frame fd p p'"
    and "\<exists>p' r. epoll_del_event ctl fd f p = Inr (p', r) \<and> mask_frame fd p p'"
proof -
  have twice: "\<exists>p' r. rbind (if c then epoll_request ctl opn ev g fd p else Inr (p, False)) (\<lambda>(p, failed).
        if failed then Inr (p, AX_RET_ERROR)
        else rbind (if c' then epoll_request ctl opn ev' g' fd p else Inr (p, False)) (\<lambda>(p, failed).
          Inr (p, if failed then AX_RET_ERROR else AX_RET_OK))) = Inr (p', r) \<and> mask_frame fd p p'" for c c' opn ev ev' g g'
  proof -
    obtain p1 b1 where 1: "(if c then epoll_request ctl opn ev g fd p else Inr (p, False)) = Inr (p1, b1)" "mask_frame fd p p1"
      using epoll_optional_frame [OF assms(2)] by blast
    obtain p2 b2 where 2: "(if c' then epoll_request ctl opn ev' g' fd p1 else Inr (p1, False)) = Inr (p2, b2)" "mask_frame fd p1 p2"
      using epoll_optional_frame [of p1 fd] assms(2) mask_frame_fd_ok [OF 1(2)] by blast
    show ?thesis
      unfolding 1(1) rbind_simps case_prod_conv 2(1) using 1(2) mask_frame_trans [OF 1(2) 2(2) assms(2)] by auto
  qed
  have m: "\<not> (fd < 0 \<or> fd > sint (fp_max_fds p))" "\<not> (fd < 0 \<or> fd \<ge> uint (fp_max_fds p))"
    using assms poller_max [OF assms(1)] by (auto simp: fd_ok_def poller_ok_def)
  show "\<exists>p' r. epoll_add_event ctl fd f p = Inr (p', r) \<and> mask_frame fd p p'"
    unfolding epoll_add_event_def if_not_P [OF m(1)] by (rule twice)
  show "\<exists>p' r. epoll_del_event ctl fd f p = Inr (p', r) \<and> mask_frame fd p p'"
    unfolding epoll_del_event_def if_not_P [OF m(2)] by (rule twice)
qed

lemma epoll_request_retired:
  "epoll_request ctl opn ev f fd p = Inr (p', b) \<Longrightarrow> fp_retired_sz p' = fp_retired_sz p"
  by (cases "ctl opn fd ev (fp_os p)")
    (auto simp: epoll_request_def entry_upd_def Let_def ax_res split: if_splits)

lemma epoll_add_retired:
  "epoll_add_event ctl fd f p = Inr (p', r) \<Longrightarrow> fp_retired_sz p' = fp_retired_sz p"
  by (auto simp: epoll_add_event_def ax_res split: if_splits dest!: epoll_request_retired)

interpretation epoll: fd_driver "epoll_add_event ctl" "epoll_del_event ctl"
  for ctl :: "epoll_op \<Rightarrow> int \<Rightarrow> u32 \<Rightarrow> 'k \<Rightarrow> 'k \<times> int"
  by unfold_locales (rule epoll_event_frame; assumption)+

section \<open>Polling\<close>

text \<open>What the poller needs of the application: a reactor keeps the poller in order. What it needs of the
  system: the reported descriptors are below the bound given to the constructor, and an event is for
  reading or for writing, since a descriptor is registered for one of them.\<close>

definition reactors_ok :: "u32 \<Rightarrow> ('r \<Rightarrow> bool \<Rightarrow> int \<Rightarrow> ('r, 'c, 'd, 'k) fd_poller \<Rightarrow> ('r, 'c, 'd, 'k) fd_poller res) \<Rightarrow> bool" where
  "reactors_ok N on_ev \<longleftrightarrow>
     (\<forall>r w fd p. poller_ok p \<and> fp_max_fds p = N \<longrightarrow>
        (\<exists>p'. on_ev r w fd p = Inr p' \<and> poller_ok p' \<and> fp_max_fds p' = N))"

definition epoll_wait_ok :: "u32 \<Rightarrow> (int \<Rightarrow> 'k \<Rightarrow> 'k \<times> (int \<times> u32) list option) \<Rightarrow> bool" where
  "epoll_wait_ok N wait \<longleftrightarrow>
     (\<forall>t k k' evs. wait t k = (k', Some evs) \<longrightarrow>
        (\<forall>(fd, ev) \<in> set evs. 0 \<le> fd \<and> fd < sint N \<and> (ev AND EPOLLIN = 0 \<or> ev AND EPOLLOUT = 0)))"

lemma call_reactor_ok:
  assumes "reactors_ok N on_ev" and "poller_ok p" and "fp_max_fds p = N" and "fd_ok p fd"
    and "pe_status (fp_entry p ! nat fd) = FDS_ACTIVE"
  shows "\<exists>p'. call_reactor on_ev w fd p = Inr p' \<and> poller_ok p' \<and> fp_max_fds p' = N"
proof -
  have "pe_reactor (fp_entry p ! nat fd) \<noteq> None"
    using poller_entries_ok [OF assms(2)] assms(5) fd_ok_nat [OF assms(4)] by (simp add: entries_ok_def)
  then show ?thesis
    using assms by (auto simp: call_reactor_def entry_at_ok reactors_ok_def)
qed

lemma epoll_loop_ok:
  assumes "reactors_ok N on_ev" and "poller_ok p" and "fp_max_fds p = N"
    and "\<forall>(fd, ev) \<in> set evs. 0 \<le> fd \<and> fd < sint N \<and> (ev AND EPOLLIN = 0 \<or> ev AND EPOLLOUT = 0)"
  shows "\<exists>p'. epoll_loop ctl on_ev evs p = Inr p' \<and> poller_ok p' \<and> fp_max_fds p' = N"
  using assms
proof (induction evs arbitrary: p)
  case (Cons x evs)
  obtain fd ev where x: "x = (fd, ev)" by force
  have fd: "fd_ok p fd" using Cons.prems(2,3,4) x poller_max [OF Cons.prems(2)] by (simp add: fd_ok_def)
  note at = entry_at_ok [OF fd]
  show ?case
  proof (cases "pe_status (fp_entry p ! nat fd) = FDS_ACTIVE")
    case False
    obtain p1 r where p1: "epoll_del_event ctl fd (EV_READ OR EV_WRITE) p = Inr (p1, r)" "mask_frame fd p p1"
      using epoll_event_frame(2) [OF Cons.prems(2) fd] by blast
    have "poller_ok p1" using mask_frameE [OF p1(2) fd Cons.prems(2)] by blast
    then show ?thesis
      using Cons.IH [OF Cons.prems(1), of p1] Cons.prems(3,4) mask_frame_max [OF p1(2)] False x at p1(1) by simp
  next
    case act: True
    have one: "ev AND EPOLLIN = 0 \<or> ev AND EPOLLOUT = 0" using Cons.prems(4) x by simp
    obtain pr where pr: "call_reactor on_ev False fd p = Inr pr" "poller_ok pr" "fp_max_fds pr = N"
      using call_reactor_ok [OF Cons.prems(1-3) fd act, of False] by blast
    obtain pw where pw: "call_reactor on_ev True fd p = Inr pw" "poller_ok pw" "fp_max_fds pw = N"
      using call_reactor_ok [OF Cons.prems(1-3) fd act, of True] by blast
    define p1 where "p1 = (if ev AND EPOLLIN \<noteq> 0 then pr else if ev AND EPOLLOUT \<noteq> 0 then pw else p)"
    have p1: "rbind (if ev AND EPOLLIN \<noteq> 0 then call_reactor on_ev False fd p else Inr p) (\<lambda>p.
         if ev AND EPOLLOUT \<noteq> 0 then call_reactor on_ev True fd p else Inr p) = Inr p1"
        "poller_ok p1" "fp_max_fds p1 = N"
      using one pr pw Cons.prems(2,3) by (auto simp: p1_def)
    then have "epoll_loop ctl on_ev (x # evs) p = epoll_loop ctl on_ev evs p1"
      using act x at by (simp add: rbind_assoc [symmetric])
    then show ?thesis using Cons.IH [OF Cons.prems(1) p1(2,3)] Cons.prems(4) by simp
  qed
qed simp

lemma epoll_do_poll_ok:
  assumes "reactors_ok N on_ev" and "epoll_wait_ok N wait" and "poller_ok p" and "fp_max_fds p = N"
  shows "\<exists>p' n. epoll_do_poll ctl wait on_ev p = Inr (p', n) \<and> poller_ok p' \<and> fp_max_fds p' = N"
proof -
  obtain k evs where w: "wait (fp_timetick p) (fp_os p) = (k, evs)" by force
  have t: "(if fp_timetick p > 0 then fp_timetick p else - 1) = fp_timetick p" using assms(3) by (simp add: poller_ok_def)
  have ok: "poller_ok (p\<lparr>fp_os := k\<rparr>)"
    using poller_ok_entries [OF assms(3) refl poller_entries_ok [OF assms(3)], of k] by simp
  show ?thesis
  proof (cases evs)
    case None
    then show ?thesis using w ok assms(4) by (simp add: epoll_do_poll_def t)
  next
    case (Some l)
    then have "\<forall>(fd, ev) \<in> set l. 0 \<le> fd \<and> fd < sint N \<and> (ev AND EPOLLIN = 0 \<or> ev AND EPOLLOUT = 0)"
      using assms(2) w unfolding epoll_wait_ok_def by blast
    moreover have "fp_max_fds (p\<lparr>fp_os := k\<rparr>) = N" using assms(4) by simp
    ultimately obtain p' where "epoll_loop ctl on_ev l (p\<lparr>fp_os := k\<rparr>) = Inr p'" "poller_ok p'" "fp_max_fds p' = N"
      using epoll_loop_ok [OF assms(1) ok] by blast
    then show ?thesis using w Some by (simp add: epoll_do_poll_def t)
  qed
qed

section \<open>Sequences of operations\<close>

text \<open>The operations an application calls on its poller, from outside the loop or from a reactor. A reactor is
  the list of operations that one event makes it perform; the list may depend on the whole state, so also on
  what the operations return.\<close>

datatype 'r poller_cmd =
    Cmd_add_fd int 'r
  | Cmd_set_reactor int 'r
  | Cmd_wait_close int
  | Cmd_close_fd int
  | Cmd_add_event int u32
  | Cmd_del_event int u32
  | Cmd_set_timetick int

fun run_cmd :: "(epoll_op \<Rightarrow> int \<Rightarrow> u32 \<Rightarrow> 'k \<Rightarrow> 'k \<times> int) \<Rightarrow> 'r poller_cmd \<Rightarrow>
    ('r, 'c, 'd, 'k) fd_poller \<Rightarrow> (('r, 'c, 'd, 'k) fd_poller \<times> int) res" where
  "run_cmd ctl (Cmd_add_fd fd r) p = add_fd (epoll_add_event ctl) fd (Some r) p"
| "run_cmd ctl (Cmd_set_reactor fd r) p = set_reactor fd (Some r) p"
| "run_cmd ctl (Cmd_wait_close fd) p = wait_close (epoll_del_event ctl) fd p"
| "run_cmd ctl (Cmd_close_fd fd) p = close_fd fd p"
| "run_cmd ctl (Cmd_add_event fd flag) p = epoll_add_event ctl fd flag p"
| "run_cmd ctl (Cmd_del_event fd flag) p = epoll_del_event ctl fd flag p"
| "run_cmd ctl (Cmd_set_timetick tm) p = Inr (set_timetick tm p, 0)"

fun run_cmds :: "(epoll_op \<Rightarrow> int \<Rightarrow> u32 \<Rightarrow> 'k \<Rightarrow> 'k \<times> int) \<Rightarrow> 'r poller_cmd list \<Rightarrow>
    ('r, 'c, 'd, 'k) fd_poller \<Rightarrow> ('r, 'c, 'd, 'k) fd_poller res" where
  "run_cmds ctl [] p = Inr p"
| "run_cmds ctl (c # cs) p = rbind (run_cmd ctl c p) (\<lambda>(p, _). run_cmds ctl cs p)"

text \<open>What the operations demand of their arguments: \<^verbatim>\<open>close_fd\<close> tests nothing, and the bound of \<^verbatim>\<open>add_event\<close> lets
  one descriptor too many through. The others take any descriptor.\<close>

fun cmd_ok :: "u32 \<Rightarrow> 'r poller_cmd \<Rightarrow> bool" where
  "cmd_ok N (Cmd_close_fd fd) \<longleftrightarrow> 0 \<le> fd \<and> fd < sint N"
| "cmd_ok N (Cmd_add_event fd flag) \<longleftrightarrow> fd \<noteq> sint N"
| "cmd_ok N _ \<longleftrightarrow> True"

fun is_close :: "'r poller_cmd \<Rightarrow> bool" where
  "is_close (Cmd_close_fd fd) \<longleftrightarrow> True"
| "is_close _ \<longleftrightarrow> False"

definition closes :: "'r poller_cmd list \<Rightarrow> int" where
  "closes cs = int (length (filter is_close cs))"

text \<open>Reactors call the operations with such arguments, and one event retires at most one descriptor.\<close>

definition reactors_behave :: "u32 \<Rightarrow> ('r \<Rightarrow> bool \<Rightarrow> int \<Rightarrow> ('r, 'c, 'd, 'k) fd_poller \<Rightarrow> 'r poller_cmd list) \<Rightarrow> bool" where
  "reactors_behave N prog \<longleftrightarrow> (\<forall>r w fd p. list_all (cmd_ok N) (prog r w fd p) \<and> closes (prog r w fd p) \<le> 1)"

definition react :: "(epoll_op \<Rightarrow> int \<Rightarrow> u32 \<Rightarrow> 'k \<Rightarrow> 'k \<times> int) \<Rightarrow>
    ('r \<Rightarrow> bool \<Rightarrow> int \<Rightarrow> ('r, 'c, 'd, 'k) fd_poller \<Rightarrow> 'r poller_cmd list) \<Rightarrow>
    'r \<Rightarrow> bool \<Rightarrow> int \<Rightarrow> ('r, 'c, 'd, 'k) fd_poller \<Rightarrow> ('r, 'c, 'd, 'k) fd_poller res" where
  "react ctl prog r w fd p = run_cmds ctl (prog r w fd p) p"

text \<open>What Linux documents of an epoll instance whose registrations are \<open>reg\<close>: a descriptor has one
  registration, which \<^verbatim>\<open>EPOLL_CTL_ADD\<close> makes when there is none and \<^verbatim>\<open>EPOLL_CTL_DEL\<close> removes, failing calls leave
  the registrations alone, a wait reports at most the number of events asked for, of registered descriptors
  and for directions registered, and nothing but \<^verbatim>\<open>epoll_ctl\<close> registers a descriptor.\<close>

definition epoll_laws :: "u32 \<Rightarrow> ('k \<Rightarrow> int \<rightharpoonup> u32) \<Rightarrow> (epoll_op \<Rightarrow> int \<Rightarrow> u32 \<Rightarrow> 'k \<Rightarrow> 'k \<times> int) \<Rightarrow>
    (int \<Rightarrow> 'k \<Rightarrow> 'k \<times> (int \<times> u32) list option) \<Rightarrow> (int \<Rightarrow> 'k \<Rightarrow> 'k) \<Rightarrow> bool" where
  "epoll_laws N reg ctl wait close \<longleftrightarrow>
     (\<forall>fd ev k k' n. ctl EPOLL_CTL_ADD fd ev k = (k', n) \<longrightarrow>
        (if n = - 1 then reg k' = reg k else reg k fd = None \<and> reg k' = (reg k)(fd \<mapsto> ev))) \<and>
     (\<forall>fd ev k k' n. ctl EPOLL_CTL_DEL fd ev k = (k', n) \<longrightarrow>
        (if n = - 1 then reg k' = reg k else reg k' = (reg k)(fd := None))) \<and>
     (\<forall>t k k' evs. wait t k = (k', Some evs) \<longrightarrow> length evs \<le> unat N \<and>
        (\<forall>(fd, ev) \<in> set evs. \<exists>m. reg k fd = Some m \<and>
           (ev AND EPOLLIN \<noteq> 0 \<longrightarrow> m AND EPOLLIN \<noteq> 0) \<and> (ev AND EPOLLOUT \<noteq> 0 \<longrightarrow> m AND EPOLLOUT \<noteq> 0))) \<and>
     (\<forall>t k. reg (fst (wait t k)) \<subseteq>\<^sub>m reg k) \<and> (\<forall>fd k. reg (close fd k) \<subseteq>\<^sub>m reg k)"

text \<open>Every registered descriptor has an entry, and is registered for one direction.\<close>

definition reg_ok :: "('k \<Rightarrow> int \<rightharpoonup> u32) \<Rightarrow> ('r, 'c, 'd, 'k) fd_poller \<Rightarrow> bool" where
  "reg_ok reg p \<longleftrightarrow> (\<forall>fd m. reg (fp_os p) fd = Some m \<longrightarrow> fd_ok p fd \<and> m \<in> {EPOLLIN, EPOLLOUT})"

text \<open>A step that is no \<^verbatim>\<open>close_fd\<close>: it keeps the arrays' sizes, the count of retired descriptors and \<open>reg_ok\<close>.\<close>

definition quiet :: "('k \<Rightarrow> int \<rightharpoonup> u32) \<Rightarrow> ('r, 'c, 'd, 'k) fd_poller \<Rightarrow> ('r, 'c, 'd, 'k) fd_poller \<Rightarrow> bool" where
  "quiet reg p p' \<longleftrightarrow> length (fp_entry p') = length (fp_entry p) \<and> fp_retired_sz p' = fp_retired_sz p \<and>
     (reg_ok reg p \<longrightarrow> reg_ok reg p')"

lemma quiet_refl [simp]: "quiet reg p p"
  by (simp add: quiet_def)

lemma quiet_trans [trans]: "quiet reg p q \<Longrightarrow> quiet reg q r \<Longrightarrow> quiet reg p r"
  by (simp add: quiet_def)

lemma quiet_os:
  "quiet reg p p'" if "reg (fp_os p') \<subseteq>\<^sub>m reg (fp_os p)" "length (fp_entry p') = length (fp_entry p)"
    "fp_retired_sz p' = fp_retired_sz p"
  using that unfolding quiet_def reg_ok_def map_le_def fd_ok_def by (metis domI)

lemma quiet_entry: "entry_upd fd f p = Inr p' \<Longrightarrow> quiet reg p p'"
  by (rule quiet_os) (auto simp: entry_upd_def entry_at_def ax_res split: if_splits)

lemma epoll_laws_ctl:
  assumes "epoll_laws N reg ctl wait close" and c: "ctl opn fd ev k = (k', n)"
  shows "reg k' = (if n = - 1 then reg k else (reg k)(fd := case opn of EPOLL_CTL_ADD \<Rightarrow> Some ev | EPOLL_CTL_DEL \<Rightarrow> None))"
proof -
  have add: "ctl EPOLL_CTL_ADD fd ev k = (k', n) \<longrightarrow> (if n = - 1 then reg k' = reg k else reg k fd = None \<and> reg k' = (reg k)(fd \<mapsto> ev))"
    and del: "ctl EPOLL_CTL_DEL fd ev k = (k', n) \<longrightarrow> (if n = - 1 then reg k' = reg k else reg k' = (reg k)(fd := None))"
    using assms(1) unfolding epoll_laws_def by blast+
  show ?thesis
  proof (cases opn)
    case EPOLL_CTL_ADD
    then show ?thesis using add c by (simp split: if_splits)
  next
    case EPOLL_CTL_DEL
    then show ?thesis using del c by (simp split: if_splits)
  qed
qed

lemma quiet_request:
  assumes "epoll_request ctl opn ev f fd p = Inr (p', b)" and "epoll_laws N reg ctl wait close"
    and "ev \<in> {EPOLLIN, EPOLLOUT}"
  shows "quiet reg p p'"
proof -
  obtain k n where c: "ctl opn fd ev (fp_os p) = (k, n)" by force
  show ?thesis
  proof (cases "n = - 1")
    case True
    have "reg k = reg (fp_os p)" using epoll_laws_ctl [OF assms(2) c] True by simp
    moreover have "p' = p\<lparr>fp_os := k\<rparr>" using assms(1) c True by (simp add: epoll_request_def)
    ultimately show ?thesis by (intro quiet_os) simp_all
  next
    case False
    then have up: "entry_upd fd (\<lambda>e. e\<lparr>pe_ev_mask := f (pe_ev_mask e)\<rparr>) (p\<lparr>fp_os := k\<rparr>) = Inr p'"
      using assms(1) c by (auto simp: epoll_request_def ax_res)
    then have fd: "fd_ok p fd" by (auto simp: entry_upd_def entry_at_def ax_res fd_ok_def split: if_splits)
    have "reg k = (reg (fp_os p))(fd := case opn of EPOLL_CTL_ADD \<Rightarrow> Some ev | EPOLL_CTL_DEL \<Rightarrow> None)"
      using epoll_laws_ctl [OF assms(2) c] False by simp
    then have "quiet reg p (p\<lparr>fp_os := k\<rparr>)"
      using fd assms(3) by (auto simp: quiet_def reg_ok_def split: epoll_op.splits)
    also note quiet_entry [OF up]
    finally show ?thesis .
  qed
qed


lemma quiet_event:
  assumes "epoll_laws N reg ctl wait close"
  shows "epoll_add_event ctl fd flag p = Inr (p', r) \<Longrightarrow> quiet reg p p'"
    and "epoll_del_event ctl fd flag p = Inr (p', r) \<Longrightarrow> quiet reg p p'"
  by (auto simp: epoll_add_event_def epoll_del_event_def ax_res split: if_splits
      dest!: quiet_request [OF _ assms] intro: quiet_trans)

lemma quiet_cmd:
  assumes "epoll_laws N reg ctl wait close" and "run_cmd ctl c p = Inr (p', r)" and "\<not> is_close c"
  shows "quiet reg p p'"
proof (cases c)
  case (Cmd_add_fd fd a)
  have "quiet reg p (p\<lparr>fp_pending_new := m\<rparr>)" for m by (rule quiet_os) simp_all
  then show ?thesis
    using assms(2) unfolding Cmd_add_fd
    by (auto simp: add_fd_def ax_res split: if_splits dest!: quiet_entry [of _ _ _ _ reg] quiet_event(1) [OF assms(1)]
        intro: quiet_trans)
next
  case (Cmd_set_timetick tm)
  then have "p' = set_timetick tm p" using assms(2) by simp
  then show ?thesis by (intro quiet_os) (simp_all add: set_timetick_def)
qed (use assms(2,3) in \<open>auto simp: set_reactor_def wait_close_def ax_res split: if_splits
        dest!: quiet_entry [of _ _ _ _ reg] quiet_event [OF assms(1)] intro: quiet_trans\<close>)

lemma quiet_retire:
  assumes "epoll_laws N reg ctl wait close"
  shows "retire_loop (epoll_del_event ctl) close fds p = Inr p' \<Longrightarrow> quiet reg p p'"
proof (induction fds arbitrary: p)
  case (Cons fd fds)
  have cl: "quiet reg q (q\<lparr>fp_os := close fd (fp_os q)\<rparr>)" for q :: "('b, 'c, 'd, 'a) fd_poller"
    using assms by (intro quiet_os) (simp_all add: epoll_laws_def)
  obtain p1 r p2 q where p1: "epoll_del_event ctl fd (EV_READ OR EV_WRITE) p = Inr (p1, r)" and p2: "reset_fd fd p1 = Inr p2"
    and q: "q = p2 \<or> q = p2\<lparr>fp_os := close fd (fp_os p2)\<rparr>" and l: "retire_loop (epoll_del_event ctl) close fds q = Inr p'"
    using Cons.prems by (simp add: ax_res split_paired_Ex split: if_splits) blast+
  have "quiet reg p p1" by (rule quiet_event(2) [OF assms p1])
  also have "quiet reg p1 p2" using p2 by (auto simp: reset_fd_def split: if_splits dest: quiet_entry)
  also have "quiet reg p2 q" using q cl by auto
  also have "quiet reg q p'" by (rule Cons.IH [OF l])
  finally show ?case .
qed simp

lemma quiet_pending:
  assumes "epoll_laws N reg ctl wait close"
  shows "pending_loop (epoll_add_event ctl) n h p = Inr p' \<Longrightarrow> quiet reg p p'"
proof (induction n arbitrary: h p)
  case 0
  then show ?case by (cases h) simp_all
next
  case (Suc n)
  show ?case
  proof (cases h)
    case (Some a)
    then show ?thesis using Suc.prems
      by (auto simp: ax_res dest!: quiet_entry [of _ _ _ _ reg] quiet_event(1) [OF assms] Suc.IH intro: quiet_trans)
  qed (use Suc.prems in simp)
qed

lemma quiet_wait:
  assumes "epoll_laws N reg ctl wait close"
  shows "quiet reg p (p\<lparr>fp_os := fst (wait t (fp_os p))\<rparr>)"
  using assms by (intro quiet_os) (simp_all add: epoll_laws_def)

lemma quiet_close: "close_fd fd p = Inr (p', r) \<Longrightarrow> fp_retired_sz p' = fp_retired_sz p + 1 \<and> (reg_ok reg p \<longrightarrow> reg_ok reg p')"
  by (fastforce simp: close_fd_def reg_ok_def split: if_splits)

text \<open>A poller in order, with its bound and the system's registrations.\<close>

definition in_order :: "u32 \<Rightarrow> ('k \<Rightarrow> int \<rightharpoonup> u32) \<Rightarrow> ('r, 'c, 'd, 'k) fd_poller \<Rightarrow> bool" where
  "in_order N reg p \<longleftrightarrow> poller_ok p \<and> fp_max_fds p = N \<and> reg_ok reg p"

lemma event_keeps:
  assumes "poller_ok p"
  shows "fd \<noteq> sint (fp_max_fds p) \<Longrightarrow> \<exists>p' n. epoll_add_event ctl fd f p = Inr (p', n) \<and> poller_ok p' \<and> fp_max_fds p' = fp_max_fds p"
    and "\<exists>p' n. epoll_del_event ctl fd f p = Inr (p', n) \<and> poller_ok p' \<and> fp_max_fds p' = fp_max_fds p"
proof -
  have m: "sint (fp_max_fds p) = int (length (fp_entry p))" "uint (fp_max_fds p) = int (length (fp_entry p))"
    using assms poller_max [OF assms] by (simp_all add: poller_ok_def)
  have fr: "poller_ok p' \<and> fp_max_fds p' = fp_max_fds p" if "mask_frame fd p p'" "fd_ok p fd" for p'
    using mask_frameE [OF that assms] mask_frame_max [OF that(1)] by metis
  show "\<exists>p' n. epoll_add_event ctl fd f p = Inr (p', n) \<and> poller_ok p' \<and> fp_max_fds p' = fp_max_fds p" if "fd \<noteq> sint (fp_max_fds p)"
  proof (cases "fd_ok p fd")
    case True
    then show ?thesis using epoll_event_frame(1) [OF assms True, of ctl f] fr by blast
  next
    case False
    then have "fd < 0 \<or> fd > sint (fp_max_fds p)" using that m by (auto simp: fd_ok_def)
    then show ?thesis using assms by (simp add: epoll_add_event_def)
  qed
  show "\<exists>p' n. epoll_del_event ctl fd f p = Inr (p', n) \<and> poller_ok p' \<and> fp_max_fds p' = fp_max_fds p"
  proof (cases "fd_ok p fd")
    case True
    then show ?thesis using epoll_event_frame(2) [OF assms True, of ctl f] fr by blast
  next
    case False
    then have "fd < 0 \<or> fd \<ge> uint (fp_max_fds p)" using m by (auto simp: fd_ok_def)
    then show ?thesis using assms by (simp add: epoll_del_event_def)
  qed
qed

lemma poller_ok_timetick:
  assumes "poller_ok p" and "0 < tm"
  shows "poller_ok (p\<lparr>fp_timetick := tm\<rparr>)"
proof -
  have "fd_ok (p\<lparr>fp_timetick := tm\<rparr>) = fd_ok p" "pending_fds (p\<lparr>fp_timetick := tm\<rparr>) = pending_fds p"
    by (simp_all add: fun_eq_iff fd_ok_def pending_fds_def)
  then show ?thesis using assms unfolding poller_ok_def by simp
qed

lemma run_cmd_returns:
  assumes "poller_ok p" and "cmd_ok (fp_max_fds p) c" and "is_close c \<longrightarrow> fp_retired_sz p < sint (fp_max_fds p)"
  shows "\<exists>p' n. run_cmd ctl c p = Inr (p', n) \<and> poller_ok p' \<and> fp_max_fds p' = fp_max_fds p"
proof (cases c)
  case (Cmd_add_fd fd r)
  then show ?thesis using epoll.add_fd_ok [OF assms(1), of "Some r" ctl fd] by auto
next
  case (Cmd_set_reactor fd r)
  then show ?thesis using epoll.set_reactor_ok [OF assms(1), of "Some r" fd] by auto
next
  case (Cmd_wait_close fd)
  then show ?thesis using epoll.wait_close_ok [OF assms(1), of ctl fd] by auto
next
  case (Cmd_close_fd fd)
  then have "fd_ok p fd" using assms(2) poller_max [OF assms(1)] by (simp add: fd_ok_def)
  then show ?thesis using epoll.close_fd_ok [OF assms(1), of fd] assms(3) Cmd_close_fd by auto
next
  case (Cmd_add_event fd f)
  then show ?thesis using event_keeps(1) [OF assms(1), of fd ctl f] assms(2) by auto
next
  case (Cmd_del_event fd f)
  then show ?thesis using event_keeps(2) [OF assms(1), of ctl fd f] by auto
next
  case (Cmd_set_timetick tm)
  then show ?thesis using assms(1) poller_ok_timetick [OF assms(1), of tm] by (simp add: set_timetick_def)
qed

lemma run_cmd_keeps:
  assumes laws: "epoll_laws N reg ctl wait close" and ok: "in_order N reg p" and "cmd_ok N c" and run: "run_cmd ctl c p = Inr (p', n)"
  shows "in_order N reg p'" and "fp_retired_sz p' = fp_retired_sz p + closes [c]"
proof -
  have p: "poller_ok p" "fp_max_fds p = N" "reg_ok reg p" using ok by (simp_all add: in_order_def)
  have room: "is_close c \<longrightarrow> fp_retired_sz p < sint (fp_max_fds p)"
    using run unfolding poller_retired(3) [OF p(1)] by (cases c) (auto simp: close_fd_def split: if_splits)
  have sz: "fp_retired_sz p' = fp_retired_sz p + closes [c] \<and> reg_ok reg p'"
  proof (cases "is_close c")
    case True
    then obtain fd where "c = Cmd_close_fd fd" by (cases c) auto
    then show ?thesis using quiet_close [of fd p p' n reg] run p(3) by (simp add: closes_def)
  next
    case False
    then show ?thesis using quiet_cmd [OF laws run] p(3) by (simp add: quiet_def closes_def)
  qed
  then show "in_order N reg p'" and "fp_retired_sz p' = fp_retired_sz p + closes [c]"
    using run_cmd_returns [OF p(1) _ room, of ctl] p(2) assms(3) run by (auto simp: in_order_def)
qed

lemma closes_simps: "closes [] = 0" "closes (c # cs) = closes [c] + closes cs" "0 \<le> closes cs"
  by (simp_all add: closes_def)

lemma run_cmds_keeps:
  assumes "epoll_laws N reg ctl wait close" and "in_order N reg p" and "list_all (cmd_ok N) cs" and "run_cmds ctl cs p = Inr p'"
  shows "in_order N reg p' \<and> fp_retired_sz p' = fp_retired_sz p + closes cs"
  using assms(2-)
proof (induction cs arbitrary: p)
  case (Cons c cs)
  obtain q n where q: "run_cmd ctl c p = Inr (q, n)" "run_cmds ctl cs q = Inr p'" using Cons.prems(3) by (auto simp: ax_res)
  have "in_order N reg q" "fp_retired_sz q = fp_retired_sz p + closes [c]"
    using run_cmd_keeps [OF assms(1) Cons.prems(1) _ q(1)] Cons.prems(2) by simp_all
  then show ?case using Cons.IH [OF _ _ q(2)] Cons.prems(2) by (subst closes_simps(2)) simp
qed (simp add: closes_simps(1))

lemma run_cmds_returns:
  assumes "epoll_laws N reg ctl wait close" and "in_order N reg p" and "list_all (cmd_ok N) cs" and "fp_retired_sz p + closes cs \<le> sint N"
  shows "\<exists>p'. run_cmds ctl cs p = Inr p'"
  using assms(2-)
proof (induction cs arbitrary: p)
  case (Cons c cs)
  have p: "poller_ok p" "fp_max_fds p = N" using Cons.prems(1) by (simp_all add: in_order_def)
  have sz: "fp_retired_sz p + closes [c] + closes cs \<le> sint N" using Cons.prems(3) closes_simps(2) [of c cs] by linarith
  have room: "is_close c \<longrightarrow> fp_retired_sz p < sint (fp_max_fds p)"
  proof
    assume "is_close c"
    then have "closes [c] = 1" by (simp add: closes_def)
    then show "fp_retired_sz p < sint (fp_max_fds p)" using sz closes_simps(3) [of cs] unfolding p(2) by linarith
  qed
  obtain q n where q: "run_cmd ctl c p = Inr (q, n)"
    using run_cmd_returns [OF p(1) _ room, of ctl] Cons.prems(2) p(2) by auto
  have "in_order N reg q" "fp_retired_sz q = fp_retired_sz p + closes [c]"
    using run_cmd_keeps [OF assms(1) Cons.prems(1) _ q] Cons.prems(2) by simp_all
  then show ?case using Cons.IH [of q] Cons.prems(2) sz q by simp
qed simp

text \<open>The dispatch of events that are each for one direction of a descriptor with an entry.\<close>

definition events_ok :: "('r, 'c, 'd, 'k) fd_poller \<Rightarrow> (int \<times> u32) list \<Rightarrow> bool" where
  "events_ok p evs \<longleftrightarrow> (\<forall>(fd, ev) \<in> set evs. fd_ok p fd \<and> (ev AND EPOLLIN = 0 \<or> ev AND EPOLLOUT = 0))"

lemma events_ok_cong: "length (fp_entry q) = length (fp_entry p) \<Longrightarrow> events_ok q evs = events_ok p evs"
  by (simp add: events_ok_def fd_ok_def)

lemma in_order_length: "in_order N reg p \<Longrightarrow> in_order N reg q \<Longrightarrow> length (fp_entry q) = length (fp_entry p)"
  by (simp add: in_order_def poller_ok_def)

lemma call_reactor_eq:
  assumes "in_order N reg p" and "fd_ok p fd" and "pe_status (fp_entry p ! nat fd) = FDS_ACTIVE"
  shows "\<exists>r. \<forall>w. call_reactor (react ctl prog) w fd p = run_cmds ctl (prog r w fd p) p"
proof -
  obtain r where "pe_reactor (fp_entry p ! nat fd) = Some r"
    using poller_entries_ok [of p] assms fd_ok_nat [OF assms(2)] by (auto simp: entries_ok_def in_order_def)
  then show ?thesis using assms(2) by (auto simp: call_reactor_def entry_at_ok react_def)
qed

text \<open>One event costs at most the operations of one reactor.\<close>

lemma epoll_event_eq:
  assumes "reactors_behave N prog" and "in_order N reg p" and "events_ok p ((fd, ev) # evs)"
  shows "\<exists>cs. list_all (cmd_ok N) cs \<and> closes cs \<le> 1 \<and>
    epoll_loop ctl (react ctl prog) ((fd, ev) # evs) p = rbind (run_cmds ctl cs p) (epoll_loop ctl (react ctl prog) evs)"
proof -
  have fd: "fd_ok p fd" and one: "ev AND EPOLLIN = 0 \<or> ev AND EPOLLOUT = 0" using assms(3) by (auto simp: events_ok_def)
  show ?thesis
  proof (cases "pe_status (fp_entry p ! nat fd) = FDS_ACTIVE")
    case False
    then show ?thesis using fd
      by (intro exI [of _ "[Cmd_del_event fd (EV_READ OR EV_WRITE)]"], cases "epoll_del_event ctl fd (EV_READ OR EV_WRITE) p")
        (auto simp: entry_at_ok closes_def)
  next
    case True
    obtain r where r: "call_reactor (react ctl prog) w fd p = run_cmds ctl (prog r w fd p) p" for w
      using call_reactor_eq [OF assms(2) fd True] by blast
    define cs where "cs = (if ev AND EPOLLIN \<noteq> 0 then prog r False fd p else if ev AND EPOLLOUT \<noteq> 0 then prog r True fd p else [])"
    have "list_all (cmd_ok N) cs" "closes cs \<le> 1"
      using assms(1) by (auto simp: reactors_behave_def cs_def closes_def)
    moreover have "epoll_loop ctl (react ctl prog) ((fd, ev) # evs) p = rbind (run_cmds ctl cs p) (epoll_loop ctl (react ctl prog) evs)"
      using one True fd by (auto simp: entry_at_ok r cs_def)
    ultimately show ?thesis by blast
  qed
qed

lemma epoll_loop_keeps:
  assumes "epoll_laws N reg ctl wait close" and "reactors_behave N prog" and "in_order N reg p" and "events_ok p evs"
    and "epoll_loop ctl (react ctl prog) evs p = Inr p'"
  shows "in_order N reg p'"
  using assms(3-)
proof (induction evs arbitrary: p)
  case (Cons e evs)
  obtain fd ev where e: "e = (fd, ev)" by force
  obtain cs where cs: "list_all (cmd_ok N) cs"
      "epoll_loop ctl (react ctl prog) (e # evs) p = rbind (run_cmds ctl cs p) (epoll_loop ctl (react ctl prog) evs)"
    using epoll_event_eq [OF assms(2) Cons.prems(1), of fd ev evs ctl] Cons.prems(2) unfolding e by blast
  obtain q where q1: "run_cmds ctl cs p = Inr q" "epoll_loop ctl (react ctl prog) evs q = Inr p'"
    using Cons.prems(3) unfolding cs(2) by (cases "run_cmds ctl cs p") auto
  have q: "in_order N reg q" using run_cmds_keeps [OF assms(1) Cons.prems(1) cs(1) q1(1)] by blast
  have "events_ok q evs" using Cons.prems(2) events_ok_cong [OF in_order_length [OF Cons.prems(1) q]] by (simp add: events_ok_def)
  then show ?case by (rule Cons.IH [OF q _ q1(2)])
qed simp

lemma epoll_loop_returns:
  assumes "epoll_laws N reg ctl wait close" and "reactors_behave N prog" and "in_order N reg p" and "events_ok p evs"
    and "fp_retired_sz p + int (length evs) \<le> sint N"
  shows "\<exists>p'. epoll_loop ctl (react ctl prog) evs p = Inr p'"
  using assms(3-)
proof (induction evs arbitrary: p)
  case (Cons e evs)
  obtain fd ev where e: "e = (fd, ev)" by force
  obtain cs where cs: "list_all (cmd_ok N) cs" "closes cs \<le> 1"
      "epoll_loop ctl (react ctl prog) (e # evs) p = rbind (run_cmds ctl cs p) (epoll_loop ctl (react ctl prog) evs)"
    using epoll_event_eq [OF assms(2) Cons.prems(1), of fd ev evs ctl] Cons.prems(2) unfolding e by blast
  have "fp_retired_sz p + closes cs \<le> sint N" using Cons.prems(3) cs(2) by simp
  then obtain q where q: "run_cmds ctl cs p = Inr q" using run_cmds_returns [OF assms(1) Cons.prems(1) cs(1)] by blast
  have io: "in_order N reg q" and sz: "fp_retired_sz q = fp_retired_sz p + closes cs"
    using run_cmds_keeps [OF assms(1) Cons.prems(1) cs(1) q] by blast+
  have "events_ok q evs" using Cons.prems(2) events_ok_cong [OF in_order_length [OF Cons.prems(1) io]] by (simp add: events_ok_def)
  then have "\<exists>p'. epoll_loop ctl (react ctl prog) evs q = Inr p'" using Cons.IH [OF io] sz cs(2) Cons.prems(3) by simp
  then show ?case using cs(3) q by simp
qed simp

lemma in_order_os:
  assumes "in_order N reg p" and "quiet reg p (p\<lparr>fp_os := k\<rparr>)"
  shows "in_order N reg (p\<lparr>fp_os := k\<rparr>)"
proof -
  have p: "poller_ok p" "fp_max_fds p = N" "reg_ok reg p" using assms(1) by (simp_all add: in_order_def)
  have "poller_ok (p\<lparr>fp_os := k\<rparr>)" using poller_ok_entries [OF p(1) refl poller_entries_ok [OF p(1)], of k] by simp
  moreover have "reg_ok reg (p\<lparr>fp_os := k\<rparr>)" using assms(2) p(3) unfolding quiet_def by blast
  ultimately show ?thesis using p(2) by (simp add: in_order_def)
qed

lemma wait_events:
  assumes "epoll_laws N reg ctl wait close" and "in_order N reg p" and "wait t (fp_os p) = (k, Some evs)"
  shows "events_ok p evs" and "int (length evs) \<le> sint N"
proof -
  have l: "length evs \<le> unat N" and e: "\<forall>(fd, ev) \<in> set evs. \<exists>m. reg (fp_os p) fd = Some m \<and>
      (ev AND EPOLLIN \<noteq> 0 \<longrightarrow> m AND EPOLLIN \<noteq> 0) \<and> (ev AND EPOLLOUT \<noteq> 0 \<longrightarrow> m AND EPOLLOUT \<noteq> 0)"
    using assms(1) [unfolded epoll_laws_def, THEN conjunct2, THEN conjunct2, THEN conjunct1,
        THEN spec [of _ t], THEN spec [of _ "fp_os p"], THEN spec [of _ k], THEN spec [of _ evs], THEN mp, OF assms(3)]
    by blast+
  have d: "EPOLLIN AND EPOLLOUT = 0" "EPOLLOUT AND EPOLLIN = 0" by (simp_all add: EPOLLIN_def EPOLLOUT_def)
  have r: "reg_ok reg p" and "poller_ok p" "fp_max_fds p = N" using assms(2) by (simp_all add: in_order_def)
  then have "sint N = int (unat N)" using poller_max [of p] by (metis poller_ok_def)
  then show "int (length evs) \<le> sint N" using l by (simp only: of_nat_le_iff)
  show "events_ok p evs" unfolding events_ok_def
  proof clarify
    fix fd ev assume "(fd, ev) \<in> set evs"
    then obtain m where m: "reg (fp_os p) fd = Some m" "ev AND EPOLLIN \<noteq> 0 \<longrightarrow> m AND EPOLLIN \<noteq> 0"
        "ev AND EPOLLOUT \<noteq> 0 \<longrightarrow> m AND EPOLLOUT \<noteq> 0" using e by blast
    then have "fd_ok p fd" "m = EPOLLIN \<or> m = EPOLLOUT" using r by (auto simp: reg_ok_def)
    then show "fd_ok p fd \<and> (ev AND EPOLLIN = 0 \<or> ev AND EPOLLOUT = 0)" using m(2,3) d by auto
  qed
qed

lemma do_poll_keeps:
  assumes "epoll_laws N reg ctl wait close" and "reactors_behave N prog" and "in_order N reg p"
  shows "epoll_do_poll ctl wait (react ctl prog) p = Inr (p', n) \<Longrightarrow> in_order N reg p'"
    and "fp_retired_sz p = 0 \<Longrightarrow> \<exists>p' n. epoll_do_poll ctl wait (react ctl prog) p = Inr (p', n)"
proof -
  define t where "t = (if fp_timetick p > 0 then fp_timetick p else - 1)"
  obtain k evs where w: "wait t (fp_os p) = (k, evs)" by force
  define q where "q = p\<lparr>fp_os := k\<rparr>"
  have q: "in_order N reg q"
    using in_order_os [OF assms(3), of k] quiet_wait [OF assms(1), of p t] w by (simp add: q_def)
  have eq: "epoll_do_poll ctl wait (react ctl prog) p = (case evs of None \<Rightarrow> Inr (q, AX_RET_ERROR)
      | Some evs \<Rightarrow> rbind (epoll_loop ctl (react ctl prog) evs q) (\<lambda>p. Inr (p, int (length evs))))"
    using w by (simp add: epoll_do_poll_def t_def [symmetric] q_def Let_def split: option.splits)
  have ev: "events_ok q l \<and> int (length l) \<le> sint N" if "evs = Some l" for l
    using wait_events [OF assms(1,3), of t k l] w that events_ok_cong [OF in_order_length [OF assms(3) q]] by simp
  show "in_order N reg p'" if "epoll_do_poll ctl wait (react ctl prog) p = Inr (p', n)"
    using that q ev epoll_loop_keeps [OF assms(1,2) q] unfolding eq by (auto simp: ax_res split: option.splits)
  show "\<exists>p' n. epoll_do_poll ctl wait (react ctl prog) p = Inr (p', n)" if "fp_retired_sz p = 0"
  proof (cases evs)
    case (Some l)
    have "fp_retired_sz q + int (length l) \<le> sint N" using ev [OF Some] that by (simp add: q_def)
    then obtain p' where "epoll_loop ctl (react ctl prog) l q = Inr p'"
      using epoll_loop_returns [OF assms(1,2) q] ev [OF Some] by blast
    then show ?thesis unfolding eq Some by simp
  qed (simp add: eq)
qed

lemma in_order_timer [simp]: "in_order N reg (p\<lparr>fp_timer := t\<rparr>) = in_order N reg p"
  by (simp add: in_order_def reg_ok_def)

lemma process_keeps:
  assumes laws: "epoll_laws N reg ctl wait close" and beh: "reactors_behave N prog" and ok: "in_order N reg p"
    and run: "poller_process (epoll_add_event ctl) (epoll_del_event ctl) (epoll_do_poll ctl wait (react ctl prog)) close cb now p = Inr (p', n)"
  shows "in_order N reg p'" and "fp_retired_sz p' = 0"
proof -
  obtain t hs p1 m p2 where t: "timer_routine cb now (fp_timer p) = Inr (t, hs)"
    and p1: "epoll_do_poll ctl wait (react ctl prog) (p\<lparr>fp_timer := t\<rparr>) = Inr (p1, m)"
    and p2: "retire_loop (epoll_del_event ctl) close (take (nat (fp_retired_sz p1)) (fp_retired p1)) p1 = Inr p2"
    and p': "pending_loop (epoll_add_event ctl) (length (hm_heap (fp_pending_new p2))) (hmap_head (fp_pending_new p2)) (p2\<lparr>fp_retired_sz := 0\<rparr>) = Inr p'"
    using run by (auto simp: poller_process_def Let_def ax_res)
  have io: "in_order N reg p1" using do_poll_keeps(1) [OF laws beh _ p1] ok by simp
  then have ok1: "poller_ok p1" "fp_max_fds p1 = N" "reg_ok reg p1" by (simp_all add: in_order_def)
  have "reg_ok reg p2" using quiet_retire [OF laws p2] ok1(3) by (simp add: quiet_def)
  then have "reg_ok reg (p2\<lparr>fp_retired_sz := 0\<rparr>)" by (simp add: reg_ok_def)
  then have "reg_ok reg p'" using quiet_pending [OF laws p'] by (simp add: quiet_def)
  moreover have "poller_ok p' \<and> fp_max_fds p' = N \<and> fp_retired_sz p' = 0"
    using run ok1(2)
      epoll.process_ok [OF t, where ctl = ctl and do_poll = "epoll_do_poll ctl wait (react ctl prog)" and close = close, OF p1 ok1(1)] by auto
  ultimately show "in_order N reg p'" and "fp_retired_sz p' = 0" by (simp_all add: in_order_def)
qed

lemma process_returns:
  assumes laws: "epoll_laws N reg ctl wait close" and beh: "reactors_behave N prog" and ok: "in_order N reg p"
    and t: "timer_routine cb now (fp_timer p) = Inr (t, hs)" and sz: "fp_retired_sz p = 0"
  shows "\<exists>p'. poller_process (epoll_add_event ctl) (epoll_del_event ctl) (epoll_do_poll ctl wait (react ctl prog)) close cb now p = Inr (p', 0)"
proof -
  obtain p1 m where p1: "epoll_do_poll ctl wait (react ctl prog) (p\<lparr>fp_timer := t\<rparr>) = Inr (p1, m)"
    using do_poll_keeps(2) [OF laws beh, of "p\<lparr>fp_timer := t\<rparr>"] ok sz by auto
  have "in_order N reg p1" using do_poll_keeps(1) [OF laws beh _ p1] ok by simp
  then have "poller_ok p1" by (simp add: in_order_def)
  then show ?thesis
    using epoll.process_ok [OF t, where ctl = ctl and do_poll = "epoll_do_poll ctl wait (react ctl prog)" and close = close, OF p1] by blast
qed

text \<open>The life of a poller: operations with proper arguments, timers added and deleted, and rounds of the loop.\<close>

inductive epoll_step ::
    "u32 \<Rightarrow> (epoll_op \<Rightarrow> int \<Rightarrow> u32 \<Rightarrow> 'k \<Rightarrow> 'k \<times> int) \<Rightarrow> (int \<Rightarrow> 'k \<Rightarrow> 'k \<times> (int \<times> u32) list option) \<Rightarrow> (int \<Rightarrow> 'k \<Rightarrow> 'k) \<Rightarrow>
     ('c \<Rightarrow> u32 \<Rightarrow> 'd \<Rightarrow> ('c, 'd) ev_timer \<Rightarrow> ('c, 'd) ev_timer res) \<Rightarrow>
     ('r \<Rightarrow> bool \<Rightarrow> int \<Rightarrow> ('r, 'c, 'd, 'k) fd_poller \<Rightarrow> 'r poller_cmd list) \<Rightarrow>
     ('r, 'c, 'd, 'k) fd_poller \<Rightarrow> ('r, 'c, 'd, 'k) fd_poller \<Rightarrow> bool"
  for N ctl wait close cb prog where
  cmd: "cmd_ok N c \<Longrightarrow> run_cmd ctl c p = Inr (p', n) \<Longrightarrow> epoll_step N ctl wait close cb prog p p'"
| add_timer: "add_timer_event cbf d tmo p = Inr (p', h) \<Longrightarrow> epoll_step N ctl wait close cb prog p p'"
| del_timer: "del_timer_event h p = Inr (p', n) \<Longrightarrow> epoll_step N ctl wait close cb prog p p'"
| process: "poller_process (epoll_add_event ctl) (epoll_del_event ctl) (epoll_do_poll ctl wait (react ctl prog)) close cb now p = Inr (p', n) \<Longrightarrow>
    epoll_step N ctl wait close cb prog p p'"

lemma epoll_step_keeps:
  assumes laws: "epoll_laws N reg ctl wait close" and beh: "reactors_behave N prog"
    and "epoll_step N ctl wait close cb prog p p'" and ok: "in_order N reg p"
  shows "in_order N reg p'"
  using assms(3)
proof cases
  case (cmd c n)
  then show ?thesis by (rule run_cmd_keeps(1) [OF laws ok])
next
  case (add_timer cbf d tmo h)
  then show ?thesis using ok by (auto simp: add_timer_event_def ax_res)
next
  case (del_timer h n)
  then show ?thesis using ok by (auto simp: del_timer_event_def ax_res)
next
  case (process now n)
  then show ?thesis by (rule process_keeps(1) [OF laws beh ok])
qed

lemma epoll_steps_keep:
  assumes laws: "epoll_laws N reg ctl wait close" and beh: "reactors_behave N prog"
    and "(epoll_step N ctl wait close cb prog)\<^sup>*\<^sup>* p p'" and ok: "in_order N reg p"
  shows "in_order N reg p'"
  using assms(3) by induction (use ok epoll_step_keeps [OF laws beh] in blast)+

text \<open>Why \<^verbatim>\<open>close_fd\<close> has these restrictions: it writes past \<^verbatim>\<open>retired_\<close> when that is full, and a round reads
  outside the entries for a retired descriptor that is not in range.\<close>

lemma close_fd_unchecked:
  assumes "poller_ok p"
  shows "fp_retired_sz p = sint (fp_max_fds p) \<Longrightarrow> close_fd fd p = Inl Mem_error"
    and "\<not> fd_ok p fd \<Longrightarrow> retire_loop (epoll_del_event ctl) close (fd # fds) p = Inl Mem_error"
proof -
  show "close_fd fd p = Inl Mem_error" if "fp_retired_sz p = sint (fp_max_fds p)"
    using poller_retired(3) [OF assms] that by (simp add: close_fd_def)
  show "retire_loop (epoll_del_event ctl) close (fd # fds) p = Inl Mem_error" if "\<not> fd_ok p fd"
  proof -
    have m: "uint (fp_max_fds p) = int (length (fp_entry p))" using assms by (simp add: poller_ok_def)
    have "fd < 0 \<or> fd \<ge> uint (fp_max_fds p)" "fd_out fd p" "\<not> (0 \<le> fd \<and> nat fd < length (fp_entry p))"
      using that fd_out_iff [OF assms] m by (auto simp: fd_ok_def)
    then show ?thesis by (auto simp: epoll_del_event_def reset_fd_def entry_at_def)
  qed
qed


section \<open>Properties\<close>

text \<open>A small system for the examples: the state is the list of registered descriptors, all of them always
  readable, and the reactors do nothing.\<close>

fun sim_ctl :: "epoll_op \<Rightarrow> int \<Rightarrow> u32 \<Rightarrow> int list \<Rightarrow> int list \<times> int" where
  "sim_ctl EPOLL_CTL_ADD fd ev k = (if fd \<in> set k then (k, - 1) else (fd # k, 0))"
| "sim_ctl EPOLL_CTL_DEL fd ev k = (if fd \<in> set k then (removeAll fd k, 0) else (k, - 1))"

definition sim_wait :: "int \<Rightarrow> int list \<Rightarrow> int list \<times> (int \<times> u32) list option" where
  "sim_wait t k = (k, Some (map (\<lambda>fd. (fd, EPOLLIN)) (filter (\<lambda>fd. 0 \<le> fd \<and> fd < 4) k)))"

definition idle_reactor :: "nat \<Rightarrow> bool \<Rightarrow> int \<Rightarrow> (nat, unit, unit, int list) fd_poller \<Rightarrow> (nat, unit, unit, int list) fd_poller res" where
  "idle_reactor r w fd p = Inr p"

definition sim_junk :: "nat poller_entry list" where
  "sim_junk = replicate 4 \<lparr>pe_ev_mask = 7, pe_status = FDS_RETIRED, pe_reactor = None\<rparr>"

lemma sim_ok: "reactors_ok 4 idle_reactor" "epoll_wait_ok 4 sim_wait" "length sim_junk = unat (4 :: u32)"
  by (auto simp: reactors_ok_def idle_reactor_def epoll_wait_ok_def sim_wait_def EPOLLIN_def EPOLLOUT_def sim_junk_def)

definition sim_poller :: "(nat, unit, unit, int list) fd_poller" where
  "sim_poller =
    \<lparr>fp_entry = map (\<lambda>e. e\<lparr>pe_ev_mask := 0, pe_status := FDS_EMPTY\<rparr>) sim_junk, fp_pending_new = hmap_new 10,
     fp_retired = replicate 4 0, fp_retired_sz = 0, fp_timer = timer_new 10 5 [0, 0, 0],
     fp_timetick = 10, fp_max_fds = 4, fp_tm_last = 0, fp_os = []\<rparr>"

lemma sim_new: "poller_new 4 10 5 [0, 0, 0] sim_junk [] = Inr sim_poller"
  using poller_new_eq [of 10 sim_junk 4 5 "[0, 0, 0]" "[]"] sim_ok(3) by (simp add: sim_poller_def)

text \<open>Another one: the state lists the registrations with their directions, a wait reports up to four of them,
  and the reactors hang up on every event, as \<^verbatim>\<open>ConnectWorker::on_read\<close> does at the end of a stream.\<close>

fun tab_ctl :: "epoll_op \<Rightarrow> int \<Rightarrow> u32 \<Rightarrow> (int \<times> u32) list \<Rightarrow> (int \<times> u32) list \<times> int" where
  "tab_ctl EPOLL_CTL_ADD fd ev k = (if map_of k fd = None then ((fd, ev) # k, 0) else (k, - 1))"
| "tab_ctl EPOLL_CTL_DEL fd ev k = (if map_of k fd = None then (k, - 1) else (filter (\<lambda>e. fst e \<noteq> fd) k, 0))"

definition tab_wait :: "int \<Rightarrow> (int \<times> u32) list \<Rightarrow> (int \<times> u32) list \<times> (int \<times> u32) list option" where
  "tab_wait t k = (k, Some (map (\<lambda>fd. (fd, the (map_of k fd))) (take 4 (map fst k))))"

definition tab_close :: "int \<Rightarrow> (int \<times> u32) list \<Rightarrow> (int \<times> u32) list" where
  "tab_close fd k = filter (\<lambda>e. fst e \<noteq> fd) k"

definition hang_up :: "nat \<Rightarrow> bool \<Rightarrow> int \<Rightarrow> (nat, unit, unit, (int \<times> u32) list) fd_poller \<Rightarrow> nat poller_cmd list" where
  "hang_up r w fd p = (if 0 \<le> fd \<and> fd < 4 then [Cmd_wait_close fd, Cmd_close_fd fd] else [])"

lemma map_of_filter_ne: "map_of (filter (\<lambda>e. fst e \<noteq> fd) k) = (map_of k)(fd := None)"
  by (induction k) (auto simp: fun_eq_iff)

lemma tab_ok: "epoll_laws 4 map_of tab_ctl tab_wait tab_close" "reactors_behave 4 hang_up"
proof -
  have "\<exists>m. map_of k fd = Some m \<and> (the (map_of k fd) AND EPOLLIN \<noteq> 0 \<longrightarrow> m AND EPOLLIN \<noteq> 0) \<and>
      (the (map_of k fd) AND EPOLLOUT \<noteq> 0 \<longrightarrow> m AND EPOLLOUT \<noteq> 0)" if "fd \<in> set (take 4 (map fst k))" for k fd
    using set_take_subset [of 4 "map fst k"] that by (cases "map_of k fd") (auto simp: map_of_eq_None_iff)
  then show "epoll_laws 4 map_of tab_ctl tab_wait tab_close"
    unfolding epoll_laws_def
    by (intro conjI allI impI) (auto simp: tab_wait_def tab_close_def map_of_filter_ne map_le_def split: if_splits)
  show "reactors_behave 4 hang_up" by (simp add: reactors_behave_def hang_up_def closes_def)
qed

text \<open>C22: The life of a poller on the Linux driver. From a new poller, whatever sequence of \<^verbatim>\<open>add_fd\<close>, \<^verbatim>\<open>set_reactor\<close>,
  \<^verbatim>\<open>wait_close\<close>, \<^verbatim>\<open>close_fd\<close>, \<^verbatim>\<open>add_event\<close>, \<^verbatim>\<open>del_event\<close>, \<^verbatim>\<open>set_timetick\<close>, timer operations and rounds of \<^verbatim>\<open>process\<close> is run,
  where the reactors called in a round run such operations themselves, the poller stays in order:
  no access has left an array and every active descriptor has a reactor. The next operation returns. The
  reactors given are not null; \<^verbatim>\<open>close_fd\<close> is called with descriptors in range (it tests nothing) and while fewer
  than \<^verbatim>\<open>max_fds_\<close> are retired; \<^verbatim>\<open>add_event\<close> is not called with the descriptor \<^verbatim>\<open>max_fds_\<close>; a round
  returns when no descriptor was retired before it, one event makes its reactor retire at most one
  descriptor, and the due timers return. The system behaves as epoll documents.\<close>

theorem epoll_poller_safe:
  assumes new: "poller_new N timetick now tjunk junk os = Inr p0" and junk: "length junk = unat N" "unat N < 2 ^ 31"
    and os: "reg os = Map.empty" and laws: "epoll_laws N reg ctl wait close" and beh: "reactors_behave N prog"
    and run: "(epoll_step N ctl wait close cb prog)\<^sup>*\<^sup>* p0 p"
  shows "poller_ok p \<and> fp_max_fds p = N \<and>
    (\<forall>c. cmd_ok N c \<and> (is_close c \<longrightarrow> fp_retired_sz p < sint N) \<longrightarrow> (\<exists>p' n. run_cmd ctl c p = Inr (p', n))) \<and>
    (\<forall>now t hs. timer_routine cb now (fp_timer p) = Inr (t, hs) \<and> fp_retired_sz p = 0 \<longrightarrow>
      (\<exists>p'. poller_process (epoll_add_event ctl) (epoll_del_event ctl) (epoll_do_poll ctl wait (react ctl prog)) close cb now p
          = Inr (p', 0) \<and> fp_retired_sz p' = 0))"
proof -
  have "in_order N reg p0" using poller_newD(1,2,7) [OF new junk] os by (simp add: in_order_def reg_ok_def)
  then have io: "in_order N reg p" by (rule epoll_steps_keep [OF laws beh run])
  then have p: "poller_ok p" "fp_max_fds p = N" by (simp_all add: in_order_def)
  have "\<exists>p' n. run_cmd ctl c p = Inr (p', n)" if "cmd_ok N c" "is_close c \<longrightarrow> fp_retired_sz p < sint N" for c
    using run_cmd_returns [OF p(1), of c ctl] that p(2) by auto
  moreover have "\<exists>p'. poller_process (epoll_add_event ctl) (epoll_del_event ctl) (epoll_do_poll ctl wait (react ctl prog)) close cb now p
          = Inr (p', 0) \<and> fp_retired_sz p' = 0" if "timer_routine cb now (fp_timer p) = Inr (t, hs)" "fp_retired_sz p = 0" for now t hs
    using process_returns [OF laws beh io that] process_keeps(2) [OF laws beh io] by blast
  ultimately show ?thesis using p by blast
qed

definition tab_poller :: "(nat, unit, unit, (int \<times> u32) list) fd_poller" where
  "tab_poller =
    \<lparr>fp_entry = map (\<lambda>e. e\<lparr>pe_ev_mask := 0, pe_status := FDS_EMPTY\<rparr>) sim_junk, fp_pending_new = hmap_new 10,
     fp_retired = replicate 4 0, fp_retired_sz = 0, fp_timer = timer_new 10 5 [0, 0, 0],
     fp_timetick = 10, fp_max_fds = 4, fp_tm_last = 0, fp_os = []\<rparr>"

lemma tab_new: "poller_new 4 10 5 [0, 0, 0] sim_junk [] = Inr tab_poller"
  using poller_new_eq [of 10 sim_junk 4 5 "[0, 0, 0]" "[]"] sim_ok(3) by (simp add: tab_poller_def)

text \<open>For instance, descriptor 2 is added and the round that follows reports it: its reactor hangs up.\<close>

theorem epoll_poller_safe_witness:
  "\<exists>p p'. add_fd (epoll_add_event tab_ctl) 2 (Some 7) tab_poller = Inr (p, AX_RET_OK) \<and> map_of (fp_os p) 2 = Some EPOLLIN \<and>
     poller_process (epoll_add_event tab_ctl) (epoll_del_event tab_ctl) (epoll_do_poll tab_ctl tab_wait (react tab_ctl hang_up))
       tab_close (\<lambda>_ _ _. Inr) 0 p = Inr (p', 0)"
proof -
  define p where "p = tab_poller\<lparr>fp_entry := (fp_entry tab_poller)[2 := \<lparr>pe_ev_mask = 1, pe_status = FDS_ACTIVE, pe_reactor = Some 7\<rparr>],
    fp_os := [(2, EPOLLIN)]\<rparr>"
  have p: "add_fd (epoll_add_event tab_ctl) 2 (Some 7) tab_poller = Inr (p, AX_RET_OK)"
    by (simp add: p_def add_fd_def epoll_add_event_def epoll_request_def entry_upd_def entry_at_def fd_out_def tab_poller_def
        ev_defs sim_junk_def)
  have "epoll_step 4 tab_ctl tab_wait tab_close (\<lambda>_ _ _. Inr) hang_up tab_poller p"
    using p by (intro epoll_step.cmd [of 4 "Cmd_add_fd 2 7"]) simp_all
  then have "(epoll_step 4 tab_ctl tab_wait tab_close (\<lambda>_ _ _. Inr) hang_up)\<^sup>*\<^sup>* tab_poller p" by (rule r_into_rtranclp)
  note safe = epoll_poller_safe [OF tab_new sim_ok(3) _ _ tab_ok this]
  have "timer_routine (\<lambda>_ _ _. Inr) 0 (fp_timer p) = Inr (fp_timer p\<lparr>et_tm_now := 0\<rparr>, [])"
    by (simp add: timer_routine_def routine_loop.simps p_def tab_poller_def timer_new_def)
  moreover have "fp_retired_sz p = 0" by (simp add: p_def tab_poller_def)
  ultimately have "\<exists>p'. poller_process (epoll_add_event tab_ctl) (epoll_del_event tab_ctl) (epoll_do_poll tab_ctl tab_wait (react tab_ctl hang_up))
       tab_close (\<lambda>_ _ _. Inr) 0 p = Inr (p', 0)" using safe by simp blast
  moreover have "map_of (fp_os p) 2 = Some EPOLLIN" by (simp add: p_def)
  ultimately show ?thesis using p by blast
qed



section \<open>Registering for both directions\<close>

text \<open>\<^verbatim>\<open>epoll_ctl\<close> keeps one registration per descriptor: adding one that is registered fails with \<^verbatim>\<open>EEXIST\<close>,
  deleting one that is not fails with \<^verbatim>\<open>ENOENT\<close>, and a failing call changes nothing. \<open>reg\<close> reads the registered
  descriptors off the system state.\<close>

definition epoll_ctl_law :: "('k \<Rightarrow> int set) \<Rightarrow> (epoll_op \<Rightarrow> int \<Rightarrow> u32 \<Rightarrow> 'k \<Rightarrow> 'k \<times> int) \<Rightarrow> bool" where
  "epoll_ctl_law reg ctl \<longleftrightarrow>
     (\<forall>fd ev k.
        (if fd \<in> reg k then ctl EPOLL_CTL_ADD fd ev k = (k, - 1)
         else reg (fst (ctl EPOLL_CTL_ADD fd ev k)) = insert fd (reg k) \<and> snd (ctl EPOLL_CTL_ADD fd ev k) = 0) \<and>
        (if fd \<in> reg k then reg (fst (ctl EPOLL_CTL_DEL fd ev k)) = reg k - {fd} \<and> snd (ctl EPOLL_CTL_DEL fd ev k) = 0
         else ctl EPOLL_CTL_DEL fd ev k = (k, - 1)))"

lemma epoll_request_refused:
  assumes "ctl opn fd ev (fp_os p) = (fp_os p, - 1)"
  shows "epoll_request ctl opn ev f fd p = Inr (p, True)"
  using assms by (simp add: epoll_request_def)

lemma epoll_request_done:
  assumes "fd_ok p fd" and "snd (ctl opn fd ev (fp_os p)) = 0"
  shows "epoll_request ctl opn ev f fd p = Inr (p\<lparr>fp_os := fst (ctl opn fd ev (fp_os p)),
    fp_entry := (fp_entry p)[nat fd := (fp_entry p ! nat fd)\<lparr>pe_ev_mask := f (pe_ev_mask (fp_entry p ! nat fd))\<rparr>]\<rparr>, False)"
  using assms entry_upd_ok [of "p\<lparr>fp_os := fst (ctl opn fd ev (fp_os p))\<rparr>" fd]
  by (cases "ctl opn fd ev (fp_os p)") (simp add: epoll_request_def)

text \<open>Under that law the Linux driver cannot watch a descriptor for both directions. \<^verbatim>\<open>add_event\<close> of both on
  a fresh descriptor reports an error with only reading in the event mask; adding writing later is refused as
  well and changes nothing; and \<^verbatim>\<open>del_event\<close> of both takes the registration away but reports an error too.\<close>

lemma epoll_one_direction:
  assumes law: "epoll_ctl_law reg ctl" and ok: "poller_ok p" and fd: "fd_ok p fd" and fresh: "fd \<notin> reg (fp_os p)"
  shows "\<exists>p1 p2. epoll_add_event ctl fd (EV_READ OR EV_WRITE) p = Inr (p1, AX_RET_ERROR) \<and>
    pe_ev_mask (fp_entry p1 ! nat fd) = pe_ev_mask (fp_entry p ! nat fd) OR 1 \<and> fd \<in> reg (fp_os p1) \<and>
    epoll_add_event ctl fd EV_WRITE p1 = Inr (p1, AX_RET_ERROR) \<and>
    epoll_del_event ctl fd (EV_READ OR EV_WRITE) p1 = Inr (p2, AX_RET_ERROR) \<and> fd \<notin> reg (fp_os p2)"
proof -
  let ?es = "\<lambda>p f. (fp_entry p)[nat fd := (fp_entry p ! nat fd)\<lparr>pe_ev_mask := f (pe_ev_mask (fp_entry p ! nat fd))\<rparr>]"
  define p1 where "p1 = p\<lparr>fp_os := fst (ctl EPOLL_CTL_ADD fd EPOLLIN (fp_os p)), fp_entry := ?es p (\<lambda>m. m OR ucast EV_READ)\<rparr>"
  define p2 where "p2 = p1\<lparr>fp_os := fst (ctl EPOLL_CTL_DEL fd EPOLLIN (fp_os p1)), fp_entry := ?es p1 (\<lambda>m. m AND NOT (ucast EV_READ))\<rparr>"
  have n: "nat fd < length (fp_entry p)" using fd_ok_nat [OF fd] .
  have fd1: "fd_ok p1 fd" using fd by (simp add: fd_ok_def p1_def)
  have r1: "fd \<in> reg (fp_os p1)" using law fresh by (simp add: epoll_ctl_law_def p1_def)
  have r2: "fd \<notin> reg (fp_os p2)" using law r1 by (simp add: epoll_ctl_law_def p2_def)
  have out: "\<not> (fd < 0 \<or> fd > sint (fp_max_fds p))" "\<not> (fd < 0 \<or> fd \<ge> uint (fp_max_fds p))"
    using ok fd poller_max [OF ok] by (auto simp: fd_ok_def poller_ok_def)
  have m1: "fp_max_fds p1 = fp_max_fds p" by (simp add: p1_def)
  have a1: "epoll_request ctl EPOLL_CTL_ADD EPOLLIN (\<lambda>m. m OR ucast EV_READ) fd p = Inr (p1, False)"
    using epoll_request_done [OF fd, of ctl EPOLL_CTL_ADD EPOLLIN] law fresh by (simp add: epoll_ctl_law_def p1_def)
  have a2: "epoll_request ctl EPOLL_CTL_ADD EPOLLOUT (\<lambda>m. m OR ucast EV_WRITE) fd p1 = Inr (p1, True)"
    using law r1 by (intro epoll_request_refused) (simp add: epoll_ctl_law_def)
  have d1: "epoll_request ctl EPOLL_CTL_DEL EPOLLIN (\<lambda>m. m AND NOT (ucast EV_READ)) fd p1 = Inr (p2, False)"
    using epoll_request_done [OF fd1, of ctl EPOLL_CTL_DEL EPOLLIN] law r1 by (simp add: epoll_ctl_law_def p2_def)
  have d2: "epoll_request ctl EPOLL_CTL_DEL EPOLLOUT (\<lambda>m. m AND NOT (ucast EV_WRITE)) fd p2 = Inr (p2, True)"
    using law r2 by (intro epoll_request_refused) (simp add: epoll_ctl_law_def)
  have flags: "(EV_READ OR EV_WRITE) AND EV_READ \<noteq> 0" "(EV_READ OR EV_WRITE) AND EV_WRITE \<noteq> 0"
      "EV_WRITE AND EV_READ = 0" "EV_WRITE AND EV_WRITE \<noteq> 0" by (simp_all add: ev_defs)
  have "epoll_add_event ctl fd (EV_READ OR EV_WRITE) p = Inr (p1, AX_RET_ERROR)"
    using out(1) a1 a2 flags by (simp add: epoll_add_event_def)
  moreover have "epoll_add_event ctl fd EV_WRITE p1 = Inr (p1, AX_RET_ERROR)"
    using out(1) a2 flags m1 by (simp add: epoll_add_event_def)
  moreover have "epoll_del_event ctl fd (EV_READ OR EV_WRITE) p1 = Inr (p2, AX_RET_ERROR)"
    using out(2) d1 d2 flags m1 by (simp add: epoll_del_event_def)
  moreover have "pe_ev_mask (fp_entry p1 ! nat fd) = pe_ev_mask (fp_entry p ! nat fd) OR 1"
    using n by (simp add: p1_def ev_defs)
  ultimately show ?thesis using r1 r2 by blast
qed

text \<open>A read handler that gives up its descriptor with \<^verbatim>\<open>wait_close\<close> while the same event also reports writing
  leaves a null reactor behind, and the dispatcher calls through it.\<close>

lemma epoll_read_closes:
  assumes "poller_ok p" and "fd_ok p fd" and "pe_status (fp_entry p ! nat fd) = FDS_ACTIVE"
    and "ev AND EPOLLIN \<noteq> 0" and "ev AND EPOLLOUT \<noteq> 0"
    and "\<And>r. on_ev r False fd p = rbind (wait_close (epoll_del_event ctl) fd p) (\<lambda>(p, _). Inr p)"
  shows "epoll_loop ctl on_ev ((fd, ev) # evs) p = Inl Mem_error"
proof -
  obtain p' where p': "wait_close (epoll_del_event ctl) fd p = Inr (p', AX_RET_OK)" "poller_ok p'"
      "map pe_reactor (fp_entry p') = (map pe_reactor (fp_entry p))[nat fd := None]"
    using epoll.wait_close_ok [OF assms(1), of ctl fd] assms(2,3) by auto
  have n: "nat fd < length (fp_entry p)" by (rule fd_ok_nat [OF assms(2)])
  moreover have l: "length (fp_entry p') = length (fp_entry p)" using arg_cong [OF p'(3), of length] by simp
  ultimately have "pe_reactor (fp_entry p' ! nat fd) = None" using arg_cong [OF p'(3), of "\<lambda>l. l ! nat fd"] by simp
  moreover have "fd_ok p' fd" using assms(2) l by (simp add: fd_ok_def)
  moreover have "pe_reactor (fp_entry p ! nat fd) \<noteq> None"
    using poller_entries_ok [OF assms(1)] assms(3) n by (simp add: entries_ok_def)
  ultimately show ?thesis
    using assms p'(1) by (auto simp: entry_at_ok call_reactor_def)
qed

end
