(* ===== verification/Kqueue.thy ===== *)
theory Kqueue
  imports Epoll "HOL-Library.Signed_Division"
begin

text \<open>
  The FreeBSD driver \<^verbatim>\<open>KqueuePoller\<close> of \<^verbatim>\<open>src/core/kqueue.h\<close> and \<^verbatim>\<open>kqueue.cc\<close>. The system calls are arguments:
  \<open>kev filter action fd os\<close> is a \<^verbatim>\<open>kevent\<close> call with one change (its result is ignored by the code), \<open>wait ts os\<close>
  the call that collects events within the time \<open>ts\<close>.
\<close>

datatype kq_filter = EVFILT_READ | EVFILT_WRITE
datatype kq_action = EV_ADD | EV_DELETE

section \<open>Operations\<close>

definition kq_request :: "(kq_filter \<Rightarrow> kq_action \<Rightarrow> int \<Rightarrow> 'k \<Rightarrow> 'k) \<Rightarrow> kq_filter \<Rightarrow> kq_action \<Rightarrow> (u8 \<Rightarrow> u8) \<Rightarrow> int \<Rightarrow>
    ('r, 'c, 'd, 'k) fd_poller \<Rightarrow> ('r, 'c, 'd, 'k) fd_poller res" where
  "kq_request kev filt act f fd p =
     entry_upd fd (\<lambda>e. e\<lparr>pe_ev_mask := f (pe_ev_mask e)\<rparr>) (p\<lparr>fp_os := kev filt act fd (fp_os p)\<rparr>)"

definition kqueue_add_event :: "(kq_filter \<Rightarrow> kq_action \<Rightarrow> int \<Rightarrow> 'k \<Rightarrow> 'k) \<Rightarrow> int \<Rightarrow> u32 \<Rightarrow>
    ('r, 'c, 'd, 'k) fd_poller \<Rightarrow> (('r, 'c, 'd, 'k) fd_poller \<times> int) res" where
  "kqueue_add_event kev fd flag p =
     (if fd < 0 \<or> fd > sint (fp_max_fds p) then Inr (p, AX_RET_ERROR)
      else
        rbind (if flag AND EV_READ \<noteq> 0 then kq_request kev EVFILT_READ EV_ADD (\<lambda>m. m OR ucast EV_READ) fd p else Inr p) (\<lambda>p.
        rbind (if flag AND EV_WRITE \<noteq> 0 then kq_request kev EVFILT_WRITE EV_ADD (\<lambda>m. m OR ucast EV_WRITE) fd p else Inr p) (\<lambda>p.
          Inr (p, AX_RET_OK))))"

definition kqueue_del_event :: "(kq_filter \<Rightarrow> kq_action \<Rightarrow> int \<Rightarrow> 'k \<Rightarrow> 'k) \<Rightarrow> int \<Rightarrow> u32 \<Rightarrow>
    ('r, 'c, 'd, 'k) fd_poller \<Rightarrow> (('r, 'c, 'd, 'k) fd_poller \<times> int) res" where
  "kqueue_del_event kev fd flag p =
     (if fd < 0 \<or> fd > sint (fp_max_fds p) then Inr (p, AX_RET_ERROR)
      else
        rbind (if flag AND EV_READ \<noteq> 0 then kq_request kev EVFILT_READ EV_DELETE (\<lambda>m. m AND NOT (ucast EV_READ)) fd p else Inr p) (\<lambda>p.
        rbind (if flag AND EV_WRITE \<noteq> 0 then kq_request kev EVFILT_WRITE EV_DELETE (\<lambda>m. m AND NOT (ucast EV_WRITE)) fd p else Inr p) (\<lambda>p.
          Inr (p, 0))))"

fun kqueue_loop :: "(kq_filter \<Rightarrow> kq_action \<Rightarrow> int \<Rightarrow> 'k \<Rightarrow> 'k) \<Rightarrow>
    ('r \<Rightarrow> bool \<Rightarrow> int \<Rightarrow> ('r, 'c, 'd, 'k) fd_poller \<Rightarrow> ('r, 'c, 'd, 'k) fd_poller res) \<Rightarrow>
    (int \<times> kq_filter) list \<Rightarrow> ('r, 'c, 'd, 'k) fd_poller \<Rightarrow> ('r, 'c, 'd, 'k) fd_poller res" where
  "kqueue_loop kev on_ev [] p = Inr p"
| "kqueue_loop kev on_ev ((fd, filt) # evs) p =
     rbind (entry_at p fd) (\<lambda>pe.
     if pe_status pe \<noteq> FDS_ACTIVE then
       rbind (kqueue_del_event kev fd (EV_READ OR EV_WRITE) p) (\<lambda>(p, _). kqueue_loop kev on_ev evs p)
     else
       rbind (case filt of EVFILT_READ \<Rightarrow> call_reactor on_ev False fd p | EVFILT_WRITE \<Rightarrow> call_reactor on_ev True fd p) (\<lambda>p.
         kqueue_loop kev on_ev evs p))"

text \<open>The timeout as seconds and nanoseconds; C divides towards zero.\<close>

definition kqueue_do_poll :: "(kq_filter \<Rightarrow> kq_action \<Rightarrow> int \<Rightarrow> 'k \<Rightarrow> 'k) \<Rightarrow>
    (int \<times> int \<Rightarrow> 'k \<Rightarrow> 'k \<times> (int \<times> kq_filter) list option) \<Rightarrow>
    ('r \<Rightarrow> bool \<Rightarrow> int \<Rightarrow> ('r, 'c, 'd, 'k) fd_poller \<Rightarrow> ('r, 'c, 'd, 'k) fd_poller res) \<Rightarrow>
    ('r, 'c, 'd, 'k) fd_poller \<Rightarrow> (('r, 'c, 'd, 'k) fd_poller \<times> int) res" where
  "kqueue_do_poll kev wait on_ev p =
     (let (os, events) = wait (fp_timetick p sdiv 1000, fp_timetick p smod 1000 * 1000000) (fp_os p);
          p = p\<lparr>fp_os := os\<rparr> in
      case events of None \<Rightarrow> Inr (p, AX_RET_ERROR)
      | Some evs \<Rightarrow> rbind (kqueue_loop kev on_ev evs p) (\<lambda>p. Inr (p, int (length evs))))"

section \<open>The driver contract\<close>

lemma kq_optional_frame:
  assumes "fd_ok p fd"
  shows "\<exists>p'. (if c then kq_request kev filt act f fd p else Inr p) = Inr p' \<and> mask_frame fd p p'"
proof (cases c)
  case True
  let ?k = "kev filt act fd (fp_os p)"
  have "mask_frame fd p (p\<lparr>fp_os := ?k, fp_entry := (fp_entry p)[nat fd := (fp_entry p ! nat fd)\<lparr>pe_ev_mask := f (pe_ev_mask (fp_entry p ! nat fd))\<rparr>]\<rparr>)"
    unfolding mask_frame_def by (intro exI [of _ "f (pe_ev_mask (fp_entry p ! nat fd))"] exI [of _ ?k]) simp
  then show ?thesis using True assms entry_upd_ok [of "p\<lparr>fp_os := ?k\<rparr>" fd] by (simp add: kq_request_def)
qed (simp add: mask_frame_refl assms)

lemma kqueue_event_frame:
  assumes "poller_ok p" and "fd_ok p fd"
  shows "\<exists>p' r. kqueue_add_event kev fd f p = Inr (p', r) \<and> mask_frame fd p p'"
    and "\<exists>p' r. kqueue_del_event kev fd f p = Inr (p', r) \<and> mask_frame fd p p'"
proof -
  have twice: "\<exists>p' r. rbind (if c then kq_request kev fi act g fd p else Inr p) (\<lambda>p.
      rbind (if c' then kq_request kev fi' act g' fd p else Inr p) (\<lambda>p. Inr (p, r0))) = Inr (p', r) \<and> mask_frame fd p p'"
    for c c' fi fi' act g g' and r0 :: int
  proof -
    obtain p1 where 1: "(if c then kq_request kev fi act g fd p else Inr p) = Inr p1" "mask_frame fd p p1"
      using kq_optional_frame [OF assms(2)] by blast
    obtain p2 where 2: "(if c' then kq_request kev fi' act g' fd p1 else Inr p1) = Inr p2" "mask_frame fd p1 p2"
      using kq_optional_frame [of p1 fd] assms(2) mask_frame_fd_ok [OF 1(2)] by blast
    show ?thesis unfolding 1(1) rbind_simps 2(1) using mask_frame_trans [OF 1(2) 2(2) assms(2)] by auto
  qed
  have m: "\<not> (fd < 0 \<or> fd > sint (fp_max_fds p))" using assms poller_max [OF assms(1)] by (auto simp: fd_ok_def)
  show "\<exists>p' r. kqueue_add_event kev fd f p = Inr (p', r) \<and> mask_frame fd p p'"
    unfolding kqueue_add_event_def if_not_P [OF m] by (rule twice)
  show "\<exists>p' r. kqueue_del_event kev fd f p = Inr (p', r) \<and> mask_frame fd p p'"
    unfolding kqueue_del_event_def if_not_P [OF m] by (rule twice)
qed

interpretation kqueue: fd_driver "kqueue_add_event kev" "kqueue_del_event kev"
  for kev :: "kq_filter \<Rightarrow> kq_action \<Rightarrow> int \<Rightarrow> 'k \<Rightarrow> 'k"
  by unfold_locales (rule kqueue_event_frame; assumption)+

text \<open>Unlike the Linux driver, the entry's mask follows every request.\<close>

lemma kqueue_mask:
  assumes "poller_ok p" and "fd_ok p fd"
  shows "\<exists>p1 p2. kqueue_add_event kev fd (EV_READ OR EV_WRITE) p = Inr (p1, AX_RET_OK) \<and>
    pe_ev_mask (fp_entry p1 ! nat fd) = pe_ev_mask (fp_entry p ! nat fd) OR 3 \<and>
    kqueue_del_event kev fd (EV_READ OR EV_WRITE) p1 = Inr (p2, AX_RET_OK) \<and>
    pe_ev_mask (fp_entry p2 ! nat fd) = pe_ev_mask (fp_entry p ! nat fd) AND NOT 3"
proof -
  have m: "\<not> (fd < 0 \<or> fd > sint (fp_max_fds p))" using assms poller_max [OF assms(1)] by (auto simp: fd_ok_def)
  have three: "(1 :: u8) OR 2 = 3" by simp
  have or: "(x OR 1) OR 2 = x OR 3" for x :: u8 unfolding or.assoc three ..
  have "((x OR (a OR b)) AND NOT a) AND NOT b = x AND NOT (a OR b)" for x a b :: u8
    by (rule bit_word_eqI) (auto simp: bit_simps)
  note bits = or this [of _ 1 2, unfolded three, simplified]
  show ?thesis
    using assms(2) m fd_ok_nat [OF assms(2)]
    by (simp add: kqueue_add_event_def kqueue_del_event_def kq_request_def entry_upd_ok fd_ok_def ev_defs ax_ret_defs bits)
qed

text \<open>\<^verbatim>\<open>add_event\<close> of both drivers, and \<^verbatim>\<open>del_event\<close> of the FreeBSD one, accept the descriptor \<^verbatim>\<open>max_fds_\<close>, one past
  the last entry, and write outside the entry array (on Linux once the system has accepted the
  registration); all other operations reject it.\<close>

lemma driver_bound_off_by_one:
  assumes "poller_ok p" and "fd = sint (fp_max_fds p)" and "flag AND EV_READ \<noteq> 0"
    and "snd (ctl EPOLL_CTL_ADD fd EPOLLIN (fp_os p)) \<noteq> - 1"
  shows "epoll_add_event ctl fd flag p = Inl Mem_error \<and> kqueue_add_event kev fd flag p = Inl Mem_error \<and>
    kqueue_del_event kev fd flag p = Inl Mem_error \<and> epoll_del_event ctl fd flag p = Inr (p, AX_RET_ERROR) \<and>
    add_fd add_event fd r p = Inr (p, AX_RET_ERROR) \<and> wait_close del_event fd p = Inr (p, AX_RET_ERROR)"
proof -
  have fd: "fd = int (length (fp_entry p))" using assms(1,2) poller_max by metis
  have um: "uint (fp_max_fds p) = fd" using fd assms(1) by (simp add: poller_ok_def)
  have "entry_at q fd = Inl Mem_error" if "fp_entry q = fp_entry p" for q :: "('a, 'b, 'c, 'd) fd_poller"
    using fd that by (simp add: entry_at_def)
  then show ?thesis
    using assms fd um poller_max [OF assms(1)]
    by (auto simp: epoll_add_event_def epoll_request_def kqueue_add_event_def kqueue_del_event_def kq_request_def
        entry_upd_def epoll_del_event_def add_fd_def wait_close_def fd_out_def split: prod.splits)
qed

end
