(* ===== verification/Ax_Tpipe.thy ===== *)
theory Ax_Tpipe
  imports Ax_Buffer Proto_Msg Fd_Poller
begin

text \<open>
  The pipe between threads \<^verbatim>\<open>tpipe_t\<close> of \<^verbatim>\<open>src/core/ax_tpipe.h\<close> and \<^verbatim>\<open>ax_tpipe.cc\<close>: a socket pair, and for each
  side a read and a write buffer. What a \<^verbatim>\<open>read\<close> or \<^verbatim>\<open>write\<close> system call answered is an argument; the poller of
  a side is passed beside the pipe, with its methods as arguments. A message object is its size and its
  \<^verbatim>\<open>pack\<close> method. The callback of the receiver is the list of its calls.
\<close>

section \<open>Data\<close>

record tpipe_fd_info =
  pi_fd :: int
  pi_wbuf :: buffer_t
  pi_rbuf :: buffer_t
  pi_cb_read :: bool
  pi_poller :: bool

type_synonym tpipe = "tpipe_fd_info list"

definition init_buf_size :: u32 where "init_buf_size = 32000"

text \<open>What a system call answered: an error with \<^verbatim>\<open>EAGAIN\<close>, \<^verbatim>\<open>EINTR\<close> or \<^verbatim>\<open>EWOULDBLOCK\<close>, another error, or
  success.\<close>

datatype 'a io_result = Io_again | Io_error | Io_ok 'a

section \<open>Operations\<close>

text \<open>The constructor, with the answer of \<^verbatim>\<open>socketpair\<close>.\<close>

definition tpipe_new :: "(int \<times> int) option \<Rightarrow> tpipe res" where
  "tpipe_new sv =
     (case sv of None \<Rightarrow> Inl Assert_fail
      | Some (fd0, fd1) \<Rightarrow>
          Inr (map (\<lambda>fd. \<lparr>pi_fd = fd, pi_wbuf = buffer_new_n init_buf_size, pi_rbuf = buffer_new_n init_buf_size,
                 pi_cb_read = False, pi_poller = False\<rparr>) [fd0, fd1]))"

definition side_ok :: "int \<Rightarrow> bool" where
  "side_ok side \<longleftrightarrow> side = 0 \<or> side = 1"

definition tpipe_init :: "(int \<Rightarrow> 'p \<Rightarrow> ('p \<times> int) res) \<Rightarrow> int \<Rightarrow> bool \<Rightarrow> bool \<Rightarrow> tpipe \<times> 'p \<Rightarrow> (tpipe \<times> 'p) res" where
  "tpipe_init pl_add_fd side poller cb_read tp =
     (let (pinfo, p) = tp in
      rbind (rt_assert poller) (\<lambda>_.
      rbind (rt_assert (side_ok side)) (\<lambda>_.
      let i = pinfo ! nat side in
      rbind (pl_add_fd (pi_fd i) p) (\<lambda>(p, _).
        Inr (pinfo[nat side := i\<lparr>pi_poller := True, pi_cb_read := cb_read\<rparr>], p)))))"

definition tpipe_side :: "int \<Rightarrow> tpipe \<Rightarrow> nat option" where
  "tpipe_side fd pinfo = (if fd = pi_fd (pinfo ! 0) then Some 0 else if fd = pi_fd (pinfo ! 1) then Some 1 else None)"

text \<open>The bytes behind \<^verbatim>\<open>buf->data()\<close>, as the callback may read them.\<close>

definition data_bytes :: "buffer_t \<Rightarrow> nat \<Rightarrow> u8 list res" where
  "data_bytes buf n =
     (case buffer_data buf of None \<Rightarrow> if n = 0 then Inr [] else Inl Mem_error | Some p \<Rightarrow> buffer_fetch buf p n)"

text \<open>The loop that takes messages off the read buffer; it collects the calls of the callback.\<close>

fun read_loop :: "nat \<Rightarrow> int \<Rightarrow> buffer_t \<Rightarrow> (buffer_t \<times> (msg_header_t \<times> u8 list) list) res" where
  "read_loop n remain buf =
     (if remain > int MSG_HEADER_LEN then
        case n of 0 \<Rightarrow> Inl Diverge
        | Suc n \<Rightarrow>
            rbind (data_bytes buf MSG_HEADER_LEN) (\<lambda>hb.
            rbind (UNPACK_HEADER (map Some hb)) (\<lambda>header.
            if remain - int MSG_HEADER_LEN < int (unat (mh_pl_len header)) then Inr (buf, [])
            else
              rbind (buffer_pop (of_nat MSG_HEADER_LEN) buf) (\<lambda>(buf, _).
              rbind (data_bytes buf (unat (mh_pl_len header))) (\<lambda>data.
              rbind (buffer_pop (ucast (mh_pl_len header)) buf) (\<lambda>(buf, _).
              rbind (read_loop n (remain - int MSG_HEADER_LEN - int (unat (mh_pl_len header))) buf) (\<lambda>(buf, calls).
                Inr (buf, (header, data) # calls)))))))
      else Inr (buf, []))"

declare read_loop.simps [simp del]

text \<open>\<^verbatim>\<open>on_ev_read\<close>; \<open>ans\<close> is what \<^verbatim>\<open>read(fd, buf->tail(), MAX_PROTO_LEN)\<close> answered.\<close>

definition tpipe_on_ev_read :: "(int \<Rightarrow> 'p \<Rightarrow> ('p \<times> int) res) \<Rightarrow> int \<Rightarrow> u8 list io_result \<Rightarrow> tpipe \<times> 'p \<Rightarrow>
    ((tpipe \<times> 'p) \<times> (msg_header_t \<times> u8 list) list) res" where
  "tpipe_on_ev_read pl_wait_close fd ans tp =
     (let (pinfo, p) = tp in
      case tpipe_side fd pinfo of None \<Rightarrow> Inr (tp, [])
      | Some side \<Rightarrow>
          let i = pinfo ! side in
          rbind (buffer_prepare (of_nat MAX_PROTO_LEN) (pi_rbuf i)) (\<lambda>(buf, _).
          case ans of
            Io_again \<Rightarrow> Inr ((pinfo[side := i\<lparr>pi_rbuf := buf\<rparr>], p), [])
          | Io_error \<Rightarrow>
              if pi_poller i then
                rbind (pl_wait_close (pi_fd i) p) (\<lambda>(p, _). Inr ((pinfo[side := i\<lparr>pi_rbuf := buf\<rparr>], p), []))
              else Inl Mem_error
          | Io_ok bytes \<Rightarrow>
              rbind (deref (buffer_tail buf)) (\<lambda>ptr.
              rbind (buffer_store ptr (map Some bytes) buf) (\<lambda>buf.
              rbind (buffer_flush_push (of_nat (length bytes)) buf) (\<lambda>buf.
              if \<not> pi_cb_read i then
                rbind (buffer_pop (of_nat (length bytes)) buf) (\<lambda>(buf, _).
                  Inr ((pinfo[side := i\<lparr>pi_rbuf := buf\<rparr>], p), []))
              else
                rbind (read_loop (unat (bf_len buf)) (sint (bf_len buf)) buf) (\<lambda>(buf, calls).
                  Inr ((pinfo[side := i\<lparr>pi_rbuf := buf\<rparr>], p), calls)))))))"

text \<open>\<^verbatim>\<open>try_write\<close>; \<open>ans\<close> is what \<^verbatim>\<open>write(fd, buf->data(), buf->len())\<close> answered. The result has the
  bytes that went out. The pipe itself does not change.\<close>

definition tpipe_try_write :: "(int \<Rightarrow> u32 \<Rightarrow> 'p \<Rightarrow> ('p \<times> int) res) \<Rightarrow> (int \<Rightarrow> 'p \<Rightarrow> ('p \<times> int) res) \<Rightarrow>
    int \<Rightarrow> nat io_result \<Rightarrow> tpipe \<times> 'p \<Rightarrow> ((tpipe \<times> 'p) \<times> u8 list) res" where
  "tpipe_try_write pl_del_event pl_wait_close side ans tp =
     (let (pinfo, p) = tp in
      rbind (rt_assert (side_ok side)) (\<lambda>_.
      let i = pinfo ! nat side; buf = pi_wbuf i in
      rbind (data_bytes buf (unat (bf_len buf))) (\<lambda>bytes.
      case ans of
        Io_again \<Rightarrow> Inr (tp, [])
      | Io_error \<Rightarrow>
          if pi_poller i then rbind (pl_wait_close (pi_fd i) p) (\<lambda>(p, _). Inr ((pinfo, p), [])) else Inl Mem_error
      | Io_ok nbytes \<Rightarrow>
          if bf_len buf < 1 then
            if pi_poller i then rbind (pl_del_event (pi_fd i) EV_WRITE p) (\<lambda>(p, _). Inr ((pinfo, p), take nbytes bytes))
            else Inl Mem_error
          else Inr (tp, take nbytes bytes))))"

definition tpipe_on_ev_write :: "(int \<Rightarrow> u32 \<Rightarrow> 'p \<Rightarrow> ('p \<times> int) res) \<Rightarrow> (int \<Rightarrow> 'p \<Rightarrow> ('p \<times> int) res) \<Rightarrow>
    int \<Rightarrow> nat io_result \<Rightarrow> tpipe \<times> 'p \<Rightarrow> ((tpipe \<times> 'p) \<times> u8 list) res" where
  "tpipe_on_ev_write pl_del_event pl_wait_close fd ans tp =
     (case tpipe_side fd (fst tp) of None \<Rightarrow> Inr (tp, [])
      | Some side \<Rightarrow> tpipe_try_write pl_del_event pl_wait_close (int side) ans tp)"

text \<open>The part of \<^verbatim>\<open>write\<close> that fills the free space behind \<^verbatim>\<open>buf->tail()\<close>: header, wrapper and packet one after
  the other. The flag says whether both \<^verbatim>\<open>pack\<close> calls succeeded; what was written stays in any case.\<close>

definition write_region :: "msg_header_t \<Rightarrow> int \<Rightarrow> (block option \<Rightarrow> u32 \<Rightarrow> (block option \<times> int) res) \<Rightarrow>
    int \<Rightarrow> (block option \<Rightarrow> u32 \<Rightarrow> (block option \<times> int) res) \<Rightarrow> block \<Rightarrow> (block \<times> bool) res" where
  "write_region header wlen wpack plen ppack r =
     rbind (PACK_HEADER header r) (\<lambda>r.
     rbind (wpack (Some (drop MSG_HEADER_LEN r)) (word_of_int wlen)) (\<lambda>(w, ret).
     rbind (deref w) (\<lambda>w.
     let r = take MSG_HEADER_LEN r @ w in
     if ret < 0 then Inr (r, False)
     else
       rbind (ppack (Some (drop (nat wlen) w)) (word_of_int plen)) (\<lambda>(q, ret).
       rbind (deref q) (\<lambda>q.
         Inr (take MSG_HEADER_LEN r @ take (nat wlen) w @ q, \<not> ret < 0))))))"

definition tpipe_write :: "(int \<Rightarrow> u32 \<Rightarrow> 'p \<Rightarrow> ('p \<times> int) res) \<Rightarrow> (int \<Rightarrow> 'p \<Rightarrow> ('p \<times> int) res) \<Rightarrow> int \<Rightarrow> int \<Rightarrow>
    int \<times> (block option \<Rightarrow> u32 \<Rightarrow> (block option \<times> int) res) \<Rightarrow>
    int \<times> (block option \<Rightarrow> u32 \<Rightarrow> (block option \<times> int) res) \<Rightarrow> nat io_result \<Rightarrow> tpipe \<times> 'p \<Rightarrow>
    ((tpipe \<times> 'p) \<times> int \<times> u8 list) res" where
  "tpipe_write pl_del_event pl_wait_close side wrapper_type wrapper pkt ans tp =
     (let (pinfo, p) = tp; (wlen, wpack) = wrapper; (plen, ppack) = pkt in
      rbind (rt_assert (side_ok side)) (\<lambda>_.
      let i = pinfo ! nat side in
      if \<not> pi_poller i then Inr (tp, - 1, [])
      else
        let header = \<lparr>mh_proto = word_of_int wrapper_type, mh_pl_len = word_of_int (wlen + plen)\<rparr>;
            total = plen + wlen + int MSG_HEADER_LEN in
        rbind (buffer_prepare (word_of_int total) (pi_wbuf i)) (\<lambda>(buf, _).
        rbind (deref (bf_buf buf)) (\<lambda>blk.
        rbind (write_region header wlen wpack plen ppack (drop (unat (bf_end buf)) blk)) (\<lambda>(r, done).
        let buf = buf\<lparr>bf_buf := Some (take (unat (bf_end buf)) blk @ r)\<rparr> in
        if \<not> done then Inr ((pinfo[nat side := i\<lparr>pi_wbuf := buf\<rparr>], p), - 1, [])
        else
          rbind (buffer_flush_push (word_of_int total) buf) (\<lambda>buf.
          rbind (tpipe_try_write pl_del_event pl_wait_close side ans (pinfo[nat side := i\<lparr>pi_wbuf := buf\<rparr>], p)) (\<lambda>(tp, sent).
            Inr (tp, 0, sent)))))))) "

section \<open>Framing\<close>

text \<open>What the reader should do with the bytes it has: the messages at the front, and the incomplete rest. A
  message without payload waits for the byte after it, as the test of the loop says.\<close>

definition header_of :: "u8 list \<Rightarrow> msg_header_t" where
  "header_of bs = \<lparr>mh_proto = header_u16 (bs ! 0) (bs ! 1), mh_pl_len = header_u16 (bs ! 2) (bs ! 3)\<rparr>"

function split_msgs :: "u8 list \<Rightarrow> (msg_header_t \<times> u8 list) list \<times> u8 list" where
  "split_msgs bs =
     (let h = header_of bs; n = unat (mh_pl_len h) in
      if 4 < length bs \<and> 4 + n \<le> length bs then
        (let (ms, r) = split_msgs (drop (4 + n) bs) in ((h, take n (drop 4 bs)) # ms, r))
      else ([], bs))"
  by pat_completeness auto
termination by (relation "measure length") auto

declare split_msgs.simps [simp del]

lemma split_msgs_stop: "length bs \<le> 4 \<or> length bs < 4 + unat (mh_pl_len (header_of bs)) \<Longrightarrow> split_msgs bs = ([], bs)"
  by (auto simp: split_msgs.simps [of bs] Let_def)

lemma split_msgs_step:
  assumes "4 < length bs" and "4 + unat (mh_pl_len (header_of bs)) \<le> length bs"
  shows "split_msgs bs =
    ((header_of bs, take (unat (mh_pl_len (header_of bs))) (drop 4 bs)) #
       fst (split_msgs (drop (4 + unat (mh_pl_len (header_of bs))) bs)),
     snd (split_msgs (drop (4 + unat (mh_pl_len (header_of bs))) bs)))"
  using assms by (simp add: split_msgs.simps [of bs] Let_def split: prod.split)

lemma header_of_append: "4 \<le> length a \<Longrightarrow> header_of (a @ b) = header_of a"
  by (auto simp: header_of_def nth_append)

text \<open>The outcome does not depend on how the stream is cut.\<close>

lemma split_msgs_append:
  "split_msgs (a @ b) =
     (fst (split_msgs a) @ fst (split_msgs (snd (split_msgs a) @ b)), snd (split_msgs (snd (split_msgs a) @ b)))"
proof (induction a rule: split_msgs.induct)
  case (1 a)
  let ?n = "unat (mh_pl_len (header_of a))"
  show ?case
  proof (cases "4 < length a \<and> 4 + ?n \<le> length a")
    case True
    then have h: "header_of (a @ b) = header_of a" by (simp add: header_of_append)
    have "split_msgs (a @ b) =
      ((header_of a, take ?n (drop 4 a)) # fst (split_msgs (drop (4 + ?n) a @ b)), snd (split_msgs (drop (4 + ?n) a @ b)))"
      using True by (subst split_msgs_step) (simp_all add: h)
    moreover have "split_msgs (drop (4 + ?n) a @ b) =
        (fst (split_msgs (drop (4 + ?n) a)) @ fst (split_msgs (snd (split_msgs (drop (4 + ?n) a)) @ b)),
         snd (split_msgs (snd (split_msgs (drop (4 + ?n) a)) @ b)))"
      using 1 True by simp
    moreover have "split_msgs a =
        ((header_of a, take ?n (drop 4 a)) # fst (split_msgs (drop (4 + ?n) a)), snd (split_msgs (drop (4 + ?n) a)))"
      using True by (subst split_msgs_step) simp_all
    ultimately show ?thesis by simp
  next
    case False
    then have "split_msgs a = ([], a)" by (intro split_msgs_stop) auto
    then show ?thesis by simp
  qed
qed

lemma split_msgs_rest: "split_msgs (snd (split_msgs bs)) = ([], snd (split_msgs bs))"
  using split_msgs_append [of bs "[]"] by (simp add: prod_eq_iff)

lemma split_rest_short: "length (snd (split_msgs bs)) < 65540"
proof (induction bs rule: split_msgs.induct)
  case (1 bs)
  have "unat (mh_pl_len (header_of bs)) < 65536" using unsigned_less [of "mh_pl_len (header_of bs)", where ?'a = nat] by simp
  then show ?case
    using 1 split_msgs_step [of bs] split_msgs_stop [of bs]
    by (cases "4 < length bs \<and> 4 + unat (mh_pl_len (header_of bs)) \<le> length bs") auto
qed

text \<open>A message on the wire.\<close>

definition msg_bytes :: "msg_header_t \<times> u8 list \<Rightarrow> u8 list" where
  "msg_bytes m = [ucast (mh_proto (fst m)), ucast (drop_bit 8 (mh_proto (fst m))),
     ucast (mh_pl_len (fst m)), ucast (drop_bit 8 (mh_pl_len (fst m)))] @ snd m"

definition msg_plain :: "msg_header_t \<times> u8 list \<Rightarrow> bool" where
  "msg_plain m \<longleftrightarrow> snd m \<noteq> [] \<and> length (snd m) = unat (mh_pl_len (fst m)) \<and>
     \<not> bit (mh_proto (fst m)) 7 \<and> \<not> bit (mh_pl_len (fst m)) 7"

lemma header_of_msg_bytes:
  assumes "msg_plain m"
  shows "header_of (msg_bytes m @ r) = fst m"
  using assms header_u16_split [of "mh_proto (fst m)"] header_u16_split [of "mh_pl_len (fst m)"]
  by (simp add: msg_bytes_def header_of_def msg_plain_def)

lemma split_msg_bytes:
  "list_all msg_plain ms \<Longrightarrow> split_msgs (concat (map msg_bytes ms)) = (ms, [])"
proof (induction ms)
  case (Cons m ms)
  let ?r = "concat (map msg_bytes ms)"
  have m: "msg_plain m" and n: "unat (mh_pl_len (fst m)) = length (snd m)" "snd m \<noteq> []" and l: "length (msg_bytes m) = 4 + length (snd m)"
    using Cons.prems by (simp_all add: msg_plain_def msg_bytes_def)
  have h: "header_of (msg_bytes m @ ?r) = fst m" using header_of_msg_bytes [OF m] .
  have "take (length (snd m)) (drop 4 (msg_bytes m @ ?r)) = snd m" by (simp add: msg_bytes_def)
  then show ?case
    using split_msgs_step [of "msg_bytes m @ ?r"] Cons l n by (simp add: h)
qed (simp add: split_msgs_stop)

section \<open>The reader\<close>

lemma data_bytes_ok:
  assumes "buffer_ok b" and "buffer_content b = map Some (bs @ r)" and "length bs = n"
  shows "data_bytes b n = Inr bs"
proof (cases "bs = []")
  case True
  have "buffer_fetch b (bf_gen b, unat (bf_start b)) 0 = Inr []" if "bf_buf b \<noteq> None"
    using that by (auto simp: buffer_fetch_def blk_read_def)
  then show ?thesis using True assms(3) by (auto simp: data_bytes_def buffer_data_def)
next
  case False
  have "0 < unat (bf_len b)" using False length_buffer_content [OF assms(1)] assms(2) by (cases bs) auto
  then have "bf_len b \<noteq> 0" by auto
  moreover have "bf_buf b \<noteq> None" using assms(2) False by (auto simp: buffer_content_def split: option.splits)
  ultimately have "buffer_data b = Some (bf_gen b, unat (bf_start b))" by (simp add: buffer_data_def)
  then show ?thesis
    using buffer_fetch_content [OF assms(1), of bs "map Some r" n b] assms(2,3) False by (simp add: data_bytes_def)
qed

lemma unat_ucast_u16: "unat (ucast (x :: u16) :: u32) = unat x"
  using unsigned_less [of x, where ?'a = nat] by (simp add: unsigned_ucast_eq take_bit_nat_eq_self_iff)

lemma UNPACK_HEADER_of: "length hb = 4 \<Longrightarrow> UNPACK_HEADER (map Some (hb)) = Inr (header_of hb)"
  by (auto simp: numeral_eq_Suc length_Suc_conv UNPACK_HEADER_def get8_def blk_read_def header_of_def)

lemma header_of_take: "4 \<le> length bs \<Longrightarrow> header_of (take 4 bs) = header_of bs"
  by (simp add: header_of_def)

lemma read_loop_ok:
  assumes "buffer_ok b" and "bf_buf b \<noteq> None" and "buffer_content b = map Some bs" and "length bs \<le> n"
  shows "\<exists>b'. read_loop n (int (length bs)) b = Inr (b', fst (split_msgs bs)) \<and> buffer_ok b' \<and> bf_buf b' \<noteq> None \<and>
    buffer_content b' = map Some (snd (split_msgs bs)) \<and> buffer_size b' \<le> buffer_size b"
  using assms
proof (induction n arbitrary: b bs)
  case 0
  then have "bs = []" by simp
  then show ?case using 0 by (simp add: read_loop.simps split_msgs_stop)
next
  case (Suc n)
  let ?k = "unat (mh_pl_len (header_of bs))"
  show ?case
  proof (cases "4 < length bs")
    case False
    then show ?thesis using Suc.prems by (simp add: read_loop.simps [of "Suc n"] split_msgs_stop MSG_HEADER_LEN_def)
  next
    case long: True
    have hb: "data_bytes b 4 = Inr (take 4 bs)"
      using long Suc.prems(1,3) by (intro data_bytes_ok [of b _ "drop 4 bs"]) simp_all
    have un: "UNPACK_HEADER (map Some (take 4 bs)) = Inr (header_of bs)"
      using long UNPACK_HEADER_of [of "take 4 bs"] by (simp add: header_of_take)
    show ?thesis
    proof (cases "4 + ?k \<le> length bs")
      case False
      then have "int (length bs) - 4 < int ?k" by linarith
      then show ?thesis using False Suc.prems long hb un split_msgs_stop [of bs]
        by (simp add: read_loop.simps [of "Suc n"] MSG_HEADER_LEN_def)
    next
      case True
      then have ge: "\<not> int (length bs) - 4 < int ?k" by linarith
      obtain b1 r1 where b1: "buffer_pop 4 b = Inr (b1, r1)" "buffer_ok b1" "bf_buf b1 \<noteq> None"
          "buffer_content b1 = map Some (drop 4 bs)" "buffer_size b1 \<le> buffer_size b"
        using buffer_pop_ok [OF Suc.prems(1), of 4] Suc.prems(2,3) by (auto simp: drop_map)
      have d: "data_bytes b1 ?k = Inr (take ?k (drop 4 bs))"
        using data_bytes_ok [of b1 "take ?k (drop 4 bs)" "drop ?k (drop 4 bs)" ?k] True b1(2,4)
        unfolding append_take_drop_id by simp
      have uk: "unat (ucast (mh_pl_len (header_of bs)) :: u32) = ?k" by (rule unat_ucast_u16)
      obtain b2 r2 where b2: "buffer_pop (ucast (mh_pl_len (header_of bs))) b1 = Inr (b2, r2)" "buffer_ok b2" "bf_buf b2 \<noteq> None"
          "buffer_content b2 = map Some (drop (4 + ?k) bs)" "buffer_size b2 \<le> buffer_size b1"
        using buffer_pop_ok [OF b1(2), of "ucast (mh_pl_len (header_of bs))"] b1(3,4) uk by (auto simp: drop_map add.commute)
      have len: "int (length bs) - 4 - int ?k = int (length (drop (4 + ?k) bs))" using True by simp
      have le: "length (drop (4 + ?k) bs) \<le> n" using Suc.prems(4) long by simp
      obtain b' where b': "read_loop n (int (length (drop (4 + ?k) bs))) b2 = Inr (b', fst (split_msgs (drop (4 + ?k) bs)))"
          "buffer_ok b'" "bf_buf b' \<noteq> None" "buffer_content b' = map Some (snd (split_msgs (drop (4 + ?k) bs)))"
          "buffer_size b' \<le> buffer_size b2"
        using Suc.IH [OF b2(2-4) le] by blast
      show ?thesis
        using long ge hb un b1(1) d b2(1) b' len b1(5) b2(5) split_msgs_step [OF long True]
        by (simp add: read_loop.simps [of "Suc n"] MSG_HEADER_LEN_def del: of_nat_unat)
    qed
  qed
qed

text \<open>The capacity only grows when the unread bytes and the new ones need it.\<close>

lemma buffer_prepare_bound:
  assumes ok: "buffer_ok b" and room: "buffer_room b (unat n)" and run: "buffer_prepare n b = Inr (b', r)"
  shows "buffer_size b' \<le> max (buffer_size b) (unat (bf_len b) + unat n + 128)"
proof (cases "bf_end b + n > bf_alloc_size b")
  case False
  then show ?thesis using run by (auto simp: buffer_prepare_def Let_def)
next
  case True
  obtain b1 where b1: "buffer_shift b = Inr b1" "same_data b b1" "bf_end b1 = bf_len b" "buffer_size b1 \<le> buffer_size b"
    using buffer_shift_ok [OF ok] by (auto simp: buffer_size_def same_data_def)
  have ok1: "buffer_ok b1" using b1(2) by (simp add: same_data_def)
  have ia: "bf_init_alloc b1 = bf_init_alloc b" using b1(2) by (simp add: same_data_def)
  have "unat (bf_len b) \<le> unat (bf_alloc_size b)" using ok by (simp add: buffer_ok_def)
  then have need: "unat (bf_end b1 + n) = unat (bf_len b) + unat n" "unat (bf_len b) + unat n + 128 < 4294967296"
    using room b1(3) by (simp_all add: buffer_room_def unat_add_u32)
  have g: "unat (if bf_end b1 + n - bf_alloc_size b1 < 128 then bf_alloc_size b1 + 128 else bf_end b1 + n)
      \<le> unat (bf_len b) + unat n + 128" if gt: "bf_end b1 + n > bf_alloc_size b1"
  proof -
    have "unat (bf_alloc_size b1) < unat (bf_len b) + unat n" using gt need(1) by (simp add: word_nat)
    then show ?thesis using need unat_add_u32 [of "bf_alloc_size b1" 128] by auto
  qed
  show ?thesis
    using run True b1(1,4) g ia
    by (auto simp: buffer_prepare_def Let_def buffer_size_def realloc_assert_def ax_res split: if_splits)
qed

text \<open>A read buffer in order: never more than a message and a read's worth of space.\<close>

definition rbuf_ok :: "buffer_t \<Rightarrow> bool" where
  "rbuf_ok b \<longleftrightarrow> buffer_ok b \<and> bf_buf b \<noteq> None \<and> buffer_size b \<le> 100000"

lemma rbuf_new: "rbuf_ok (buffer_new_n init_buf_size)" "buffer_content (buffer_new_n init_buf_size) = []"
  using buffer_new_n_ok [of init_buf_size] buffer_size_new_n [of init_buf_size]
  by (simp_all add: rbuf_ok_def init_buf_size_def) (simp add: buffer_new_n_def buffer_alloc_def)

lemma tpipe_read_ok:
  assumes tp: "length pinfo = 2" "tpipe_side fd pinfo = Some side" "pi_cb_read (pinfo ! side)"
    and rb: "rbuf_ok (pi_rbuf (pinfo ! side))" "buffer_content (pi_rbuf (pinfo ! side)) = map Some bs" "length bs < 65540"
    and c: "length c \<le> MAX_PROTO_LEN"
  shows "\<exists>b'. tpipe_on_ev_read wc fd (Io_ok c) (pinfo, p) =
      Inr ((pinfo[side := (pinfo ! side)\<lparr>pi_rbuf := b'\<rparr>], p), fst (split_msgs (bs @ c))) \<and>
    rbuf_ok b' \<and> buffer_content b' = map Some (snd (split_msgs (bs @ c)))"
proof -
  define b where "b = pi_rbuf (pinfo ! side)"
  have ok: "buffer_ok b" "bf_buf b \<noteq> None" "buffer_size b \<le> 100000" using rb(1) by (simp_all add: rbuf_ok_def b_def)
  have cl: "length c \<le> 32000" using c by (simp add: MAX_PROTO_LEN_def)
  have len: "unat (bf_len b) = length bs" using length_buffer_content [OF ok(1)] rb(2) by (simp add: b_def)
  have un: "unat (32000 :: u32) = 32000" by simp
  have room: "buffer_room b (unat (32000 :: u32))" using ok(3) by (simp add: buffer_room_def buffer_size_def)
  have fill: "length (map Some c) \<le> unat (32000 :: u32)" using cl by simp
  obtain b1 where b1: "buffer_fill 32000 (map Some c) b = Inr b1" "buffer_ok b1" "bf_buf b1 \<noteq> None"
      "buffer_content b1 = map Some (bs @ c)"
    using buffer_fill_ok [OF ok(1) room fill] ok(2) rb(2) by (auto simp: b_def)
  obtain b0 r0 where b0: "buffer_prepare 32000 b = Inr (b0, r0)"
      "rbind (deref (buffer_tail b0)) (\<lambda>p. rbind (buffer_store p (map Some c) b0) (buffer_flush_push (of_nat (length c)))) = Inr b1"
    using b1(1) by (auto simp: buffer_fill_def ax_res)
  have "buffer_size b1 = buffer_size b0"
    using b0(2) by (auto simp: ax_res buffer_store_def buffer_flush_push_def buffer_size_def split: if_splits)
  also have "\<dots> \<le> 100000" using buffer_prepare_bound [OF ok(1) room b0(1)] ok(3) len rb(3) by simp
  finally have sz: "buffer_size b1 \<le> 100000" .
  have ln: "unat (bf_len b1) = length (bs @ c)" using length_buffer_content [OF b1(2)] b1(4) by simp
  have "length (bs @ c) < 2 ^ 31" using rb(3) cl by simp
  then have sl: "sint (bf_len b1) = int (length (bs @ c))" using sint_u32 [of "bf_len b1"] ln by simp
  obtain b' where b': "read_loop (length (bs @ c)) (int (length (bs @ c))) b1 = Inr (b', fst (split_msgs (bs @ c)))"
      "buffer_ok b'" "bf_buf b' \<noteq> None" "buffer_content b' = map Some (snd (split_msgs (bs @ c)))" "buffer_size b' \<le> buffer_size b1"
    using read_loop_ok [OF b1(2,3,4)] by blast
  have "tpipe_on_ev_read wc fd (Io_ok c) (pinfo, p) =
      Inr ((pinfo[side := (pinfo ! side)\<lparr>pi_rbuf := b'\<rparr>], p), fst (split_msgs (bs @ c)))"
    using tp b0 b'(1) ln sl
    by (auto simp: tpipe_on_ev_read_def b_def MAX_PROTO_LEN_def ax_res)
  then show ?thesis using b' sz by (auto simp: rbuf_ok_def)
qed

text \<open>The calls that a sequence of reads makes.\<close>

fun run_reads :: "(int \<Rightarrow> 'p \<Rightarrow> ('p \<times> int) res) \<Rightarrow> int \<Rightarrow> u8 list list \<Rightarrow> tpipe \<times> 'p \<Rightarrow>
    ((tpipe \<times> 'p) \<times> (msg_header_t \<times> u8 list) list) res" where
  "run_reads wc fd [] tp = Inr (tp, [])"
| "run_reads wc fd (c # cs) tp =
     rbind (tpipe_on_ev_read wc fd (Io_ok c) tp) (\<lambda>(tp, calls).
     rbind (run_reads wc fd cs tp) (\<lambda>(tp, calls'). Inr (tp, calls @ calls')))"

lemma run_reads_ok:
  assumes "length pinfo = 2" and "tpipe_side fd pinfo = Some side" and "pi_cb_read (pinfo ! side)"
    and "rbuf_ok (pi_rbuf (pinfo ! side))" and "buffer_content (pi_rbuf (pinfo ! side)) = map Some bs"
    and "bs = snd (split_msgs bs')" and "\<forall>c \<in> set cs. length c \<le> MAX_PROTO_LEN"
  shows "\<exists>b'. run_reads wc fd cs (pinfo, p) =
      Inr ((pinfo[side := (pinfo ! side)\<lparr>pi_rbuf := b'\<rparr>], p), fst (split_msgs (bs @ concat cs))) \<and>
    rbuf_ok b' \<and> buffer_content b' = map Some (snd (split_msgs (bs @ concat cs)))"
  using assms
proof (induction cs arbitrary: pinfo bs bs')
  case Nil
  have "split_msgs bs = ([], bs)" using split_msgs_rest Nil.prems(6) by simp
  then show ?case using Nil.prems by (intro exI [of _ "pi_rbuf (pinfo ! side)"]) simp
next
  case (Cons c cs)
  have side: "side < length pinfo" using Cons.prems(1,2) by (auto simp: tpipe_side_def split: if_splits)
  have short: "length bs < 65540" using split_rest_short [of bs'] Cons.prems(6) by simp
  obtain b1 where b1: "tpipe_on_ev_read wc fd (Io_ok c) (pinfo, p) =
      Inr ((pinfo[side := (pinfo ! side)\<lparr>pi_rbuf := b1\<rparr>], p), fst (split_msgs (bs @ c)))"
      "rbuf_ok b1" "buffer_content b1 = map Some (snd (split_msgs (bs @ c)))"
    using tpipe_read_ok [OF Cons.prems(1-5) short, of c wc p] Cons.prems(7) by auto
  let ?pi = "pinfo[side := (pinfo ! side)\<lparr>pi_rbuf := b1\<rparr>]"
  have "tpipe_side fd ?pi = Some side"
    using Cons.prems(1,2) side by (auto simp: tpipe_side_def nth_list_update split: if_splits)
  then obtain b' where b': "run_reads wc fd cs (?pi, p) =
      Inr ((?pi[side := (?pi ! side)\<lparr>pi_rbuf := b'\<rparr>], p), fst (split_msgs (snd (split_msgs (bs @ c)) @ concat cs)))"
      "rbuf_ok b'" "buffer_content b' = map Some (snd (split_msgs (snd (split_msgs (bs @ c)) @ concat cs)))"
    using Cons.IH [of ?pi "snd (split_msgs (bs @ c))" "bs @ c"] Cons.prems(1,3,7) b1 side by auto
  show ?case
    using b1(1) b' side split_msgs_append [of "bs @ c" "concat cs"] by (intro exI [of _ b']) simp
qed

section \<open>The writer\<close>

lemma PACK_HEADER_eq:
  assumes "4 \<le> length r"
  shows "PACK_HEADER h r = Inr (map Some (msg_bytes (h, [])) @ drop 4 r)"
proof -
  obtain b0 b1 b2 b3 r' where "r = b0 # b1 # b2 # b3 # r'"
    using assms by (auto simp: numeral_eq_Suc Suc_le_length_iff)
  then show ?thesis by (simp add: PACK_HEADER_def put8_Cons put_front msg_bytes_def)
qed

lemma write_region_eq:
  assumes w: "packs_as (wlen, wpack) wb" and q: "packs_as (plen, ppack) pb" and r: "4 + length wb + length pb \<le> length r"
  shows "write_region h wlen wpack plen ppack r =
    Inr (map Some (msg_bytes (h, wb @ pb)) @ drop (4 + length wb + length pb) r, True)"
proof -
  let ?hb = "map Some (msg_bytes (h, []))"
  have hb: "length ?hb = 4" by (simp add: msg_bytes_def)
  have p1: "PACK_HEADER h r = Inr (?hb @ drop 4 r)" using r by (intro PACK_HEADER_eq) simp
  have wl: "wlen = int (length wb)" and pl: "plen = int (length pb)" using w q by (simp_all add: packs_as_def)
  have w': "\<forall>b. length wb \<le> length b \<longrightarrow> wpack (Some b) (word_of_int wlen) = Inr (Some (map Some wb @ drop (length wb) b), wlen)"
    and q': "\<forall>b. length pb \<le> length b \<longrightarrow> ppack (Some b) (word_of_int plen) = Inr (Some (map Some pb @ drop (length pb) b), plen)"
    using w q unfolding packs_as_def fst_conv snd_conv by blast+
  have p2: "wpack (Some (drop 4 r)) (word_of_int wlen) = Inr (Some (map Some wb @ drop (length wb) (drop 4 r)), wlen)"
    using w' [rule_format, of "drop 4 r"] r by simp
  have p3: "ppack (Some (drop (4 + length wb) r)) (word_of_int plen) = Inr (Some (map Some pb @ drop (length pb) (drop (4 + length wb) r)), plen)"
    using q' [rule_format, of "drop (4 + length wb) r"] r by simp
  have mb: "map Some (msg_bytes (h, wb @ pb)) = ?hb @ map Some wb @ map Some pb" by (simp add: msg_bytes_def)
  show ?thesis
    unfolding write_region_def mb
    using p1 p2 p3 hb wl pl by (simp add: MSG_HEADER_LEN_def add.commute add.left_commute)
qed

lemma tpipe_write_ok:
  fixes pinfo :: tpipe and p :: 'p
  assumes w: "packs_as (wlen, wpack) wb" and q: "packs_as (plen, ppack) pb"
    and side: "side_ok side" "length pinfo = 2" "pi_poller (pinfo ! nat side)"
    and buf: "buffer_ok (pi_wbuf (pinfo ! nat side))" "buffer_content (pi_wbuf (pinfo ! nat side)) = map Some old"
    and room: "buffer_size (pi_wbuf (pinfo ! nat side)) + length wb + length pb + 132 < 2 ^ 32"
  shows "\<exists>b'. tpipe_write de wc side ty (wlen, wpack) (plen, ppack) (Io_ok n) (pinfo, p) =
      Inr ((pinfo[nat side := (pinfo ! nat side)\<lparr>pi_wbuf := b'\<rparr>], p), 0,
        take n (old @ msg_bytes (\<lparr>mh_proto = word_of_int ty, mh_pl_len = word_of_int (wlen + plen)\<rparr>, wb @ pb))) \<and>
    buffer_ok b' \<and> buffer_size b' \<le> buffer_size (pi_wbuf (pinfo ! nat side)) + length wb + length pb + 132 \<and>
    buffer_content b' = map Some (old @ msg_bytes (\<lparr>mh_proto = word_of_int ty, mh_pl_len = word_of_int (wlen + plen)\<rparr>, wb @ pb))"
proof -
  define h where "h = \<lparr>mh_proto = word_of_int ty, mh_pl_len = word_of_int (wlen + plen) :: u16\<rparr>"
  define i where "i = pinfo ! nat side"
  define fr where "fr = msg_bytes (h, wb @ pb)"
  define total where "total = plen + wlen + 4"
  have wl: "wlen = int (length wb)" "plen = int (length pb)" using w q by (simp_all add: packs_as_def)
  have fl: "length fr = 4 + length wb + length pb" by (simp add: fr_def msg_bytes_def)
  define N :: u32 where "N = of_nat (length fr)"
  have tot: "word_of_int total = N" by (simp add: total_def wl fl N_def)
  have un: "unat N = length fr"
    unfolding N_def using room fl by (intro unat_of_nat_u32) simp
  have rm: "buffer_room (pi_wbuf i) (unat N)"
    using room fl by (simp add: un i_def buffer_room_def buffer_size_def)
  have ne: "N \<noteq> 0" using un fl by auto
  obtain b' where b': "buffer_fill N (map Some fr) (pi_wbuf i) = Inr b'" "buffer_ok b'"
      "buffer_content b' = map Some (old @ fr)" "buffer_size b' \<le> buffer_size (pi_wbuf i) + length fr + 128"
    using buffer_fill_ok [OF buf(1) [folded i_def] rm, of "map Some fr"] un ne buf(2) by (auto simp: i_def)
  obtain b0 r0 where b0: "buffer_prepare N (pi_wbuf i) = Inr (b0, r0)"
      and st: "rbind (deref (buffer_tail b0)) (\<lambda>p. rbind (buffer_store p (map Some fr) b0) (buffer_flush_push N)) = Inr b'"
    using b'(1) by (auto simp: buffer_fill_def ax_res N_def)
  obtain blk where blk: "bf_buf b0 = Some blk" and fits: "unat (bf_end b0) + length fr \<le> length blk"
      and fl': "buffer_flush_push N (b0\<lparr>bf_buf := Some (take (unat (bf_end b0)) blk @ map Some fr @ drop (unat (bf_end b0) + length fr) blk)\<rparr>) = Inr b'"
    using st fl by (auto simp: ax_res buffer_tail_def buffer_store_def blk_write_def split: if_splits)
  have reg: "write_region h wlen wpack plen ppack (drop (unat (bf_end b0)) blk) = Inr (map Some fr @ drop (unat (bf_end b0) + length fr) blk, True)"
    using write_region_eq [OF w q, of "drop (unat (bf_end b0)) blk" h] fits fl by (simp add: fr_def [symmetric] add.commute add.left_commute)
  have len': "unat (bf_len b') = length (old @ fr)" using length_buffer_content [OF b'(2)] b'(3) by simp
  have db: "data_bytes b' (unat (bf_len b')) = Inr (old @ fr)"
    using b'(2,3) by (intro data_bytes_ok [of b' _ "[]"]) (simp_all add: len')
  have nl: "\<not> bf_len b' < 1" using len' fl by (simp add: word_less_nat_alt)
  have ns: "nat side < length pinfo" using side by (auto simp: side_ok_def)
  have "tpipe_write de wc side ty (wlen, wpack) (plen, ppack) (Io_ok n) (pinfo, p) =
      Inr ((pinfo[nat side := i\<lparr>pi_wbuf := b'\<rparr>], p), 0, take n (old @ fr))"
    using side ns b0 blk reg fl' db nl tot [unfolded total_def]
    by (simp add: tpipe_write_def tpipe_try_write_def MSG_HEADER_LEN_def h_def [symmetric] i_def [symmetric] del: of_int_add)
  then show ?thesis unfolding h_def [symmetric] i_def [symmetric] fr_def [symmetric]
    using b' fl by (intro exI [of _ b']) simp
qed

section \<open>Properties\<close>

text \<open>C23: A side of the pipe with a callback delivers every message exactly once and in order, however the
  stream of bytes is cut into reads of at most \<^verbatim>\<open>MAX_PROTO_LEN\<close>: when the bytes are those of a sequence of
  messages with non-empty payloads, whose type and length have bit 7 of the low byte clear (\<open>msg_plain\<close>), the
  callback is called with exactly these messages and the read buffer is left empty. With that bit set the
  header macros misread a message, so that for instance payloads of 128 to 255 bytes are excluded.\<close>

theorem tpipe_delivers:
  assumes "tpipe_new (Some (f0, f1)) = Inr pinfo0" and "side_ok side"
    and "tpipe_init add side True True (pinfo0, p0) = Inr (pinfo, p)" and "f0 \<noteq> f1"
    and "concat cs = concat (map msg_bytes ms)" and "list_all msg_plain ms"
    and "\<forall>c \<in> set cs. length c \<le> MAX_PROTO_LEN"
  shows "\<exists>pinfo'. run_reads wc (pi_fd (pinfo ! nat side)) cs (pinfo, p) = Inr ((pinfo', p), ms) \<and>
    buffer_content (pi_rbuf (pinfo' ! nat side)) = []"
proof -
  let ?i = "nat side"
  have i: "?i < 2" using assms(2) by (auto simp: side_ok_def)
  have new: "length pinfo0 = 2" "pi_fd (pinfo0 ! 0) = f0" "pi_fd (pinfo0 ! 1) = f1"
      "pi_rbuf (pinfo0 ! ?i) = buffer_new_n init_buf_size"
    using assms(1,2) by (auto simp: tpipe_new_def side_ok_def)
  have pinfo: "pinfo = pinfo0[?i := (pinfo0 ! ?i)\<lparr>pi_poller := True, pi_cb_read := True\<rparr>]"
    using assms(3) by (auto simp: tpipe_init_def ax_res Let_def)
  have t: "length pinfo = 2" "tpipe_side (pi_fd (pinfo ! ?i)) pinfo = Some ?i" "pi_cb_read (pinfo ! ?i)"
      "pi_rbuf (pinfo ! ?i) = buffer_new_n init_buf_size"
    using new assms(2,4) by (auto simp: pinfo tpipe_side_def side_ok_def)
  have nil: "split_msgs [] = ([], [])" by (simp add: split_msgs_stop)
  from run_reads_ok [OF t(1-3), of "[]" "[]" cs wc p] rbuf_new assms(7) nil
  obtain b' where b': "run_reads wc (pi_fd (pinfo ! ?i)) cs (pinfo, p) =
      Inr ((pinfo[?i := (pinfo ! ?i)\<lparr>pi_rbuf := b'\<rparr>], p), fst (split_msgs (concat cs)))"
      "buffer_content b' = map Some (snd (split_msgs (concat cs)))"
    by (auto simp: t(4))
  then show ?thesis using split_msg_bytes [OF assms(6)] assms(5) t(1) i by auto
qed

theorem tpipe_delivers_witness:
  "\<exists>pinfo'. run_reads (\<lambda>_ q. Inr (q, 0)) 8 [[4, 0], [2, 0, 65], [66, 5, 0, 1, 0, 67]]
     ([\<lparr>pi_fd = 8, pi_wbuf = buffer_new_n init_buf_size, pi_rbuf = buffer_new_n init_buf_size, pi_cb_read = True, pi_poller = True\<rparr>,
       \<lparr>pi_fd = 9, pi_wbuf = buffer_new_n init_buf_size, pi_rbuf = buffer_new_n init_buf_size, pi_cb_read = False, pi_poller = False\<rparr>], ()) =
     Inr ((pinfo', ()), [(\<lparr>mh_proto = 4, mh_pl_len = 2\<rparr>, [65, 66]), (\<lparr>mh_proto = 5, mh_pl_len = 1\<rparr>, [67])])"
proof -
  let ?ms = "[(\<lparr>mh_proto = 4, mh_pl_len = 2\<rparr>, [65, 66]), (\<lparr>mh_proto = 5, mh_pl_len = 1\<rparr>, [67])] :: (msg_header_t \<times> u8 list) list"
  have plain: "list_all msg_plain ?ms" by (simp add: msg_plain_def bit_numeral_rec)
  have conc: "concat [[4, 0], [2, 0, 65], [66, 5, 0, 1, 0, 67]] = concat (map msg_bytes ?ms)"
    by (simp add: msg_bytes_def drop_bit_eq_div)
  have new: "tpipe_new (Some (8, 9)) = Inr (map (\<lambda>fd. \<lparr>pi_fd = fd, pi_wbuf = buffer_new_n init_buf_size,
      pi_rbuf = buffer_new_n init_buf_size, pi_cb_read = False, pi_poller = False\<rparr>) [8, 9])" (is "_ = Inr ?pi")
    by (simp add: tpipe_new_def)
  have side: "side_ok 0" by (simp add: side_ok_def)
  have init: "tpipe_init (\<lambda>_ q. Inr (q, 0)) 0 True True (?pi, ()) = Inr
      ([\<lparr>pi_fd = 8, pi_wbuf = buffer_new_n init_buf_size, pi_rbuf = buffer_new_n init_buf_size, pi_cb_read = True, pi_poller = True\<rparr>,
       \<lparr>pi_fd = 9, pi_wbuf = buffer_new_n init_buf_size, pi_rbuf = buffer_new_n init_buf_size, pi_cb_read = False, pi_poller = False\<rparr>], ())"
    by (simp add: tpipe_init_def side_ok_def)
  have short: "\<forall>c \<in> set [[4, 0], [2, 0, 65], [66, 5, 0, 1, 0, 67 :: u8]]. length c \<le> MAX_PROTO_LEN"
    by (simp add: MAX_PROTO_LEN_def)
  have ne: "(8 :: int) \<noteq> 9" by simp
  from tpipe_delivers [OF new side init ne conc plain short, of "\<lambda>_ q. Inr (q, 0)"] show ?thesis by auto
qed

text \<open>\<^verbatim>\<open>write\<close> puts one whole message behind what the write buffer holds, header, wrapper and packet in
  this order, and offers the whole buffer to the system call. Nothing takes the bytes that went out off the
  buffer, so the next \<^verbatim>\<open>write\<close> sends the first message again before the second.\<close>

lemma tpipe_write_resends:
  assumes "packs_as (w1len, w1) wb1" and "packs_as (p1len, p1) pb1" and "packs_as (w2len, w2) wb2" and "packs_as (p2len, p2) pb2"
    and "side_ok side" and "length pinfo = 2" and "pi_poller (pinfo ! nat side)"
    and "pi_wbuf (pinfo ! nat side) = buffer_new_n init_buf_size"
    and "length wb1 + length pb1 + length wb2 + length pb2 < 100000"
    and "m1 = (\<lparr>mh_proto = word_of_int t1, mh_pl_len = word_of_int (w1len + p1len)\<rparr>, wb1 @ pb1)"
    and "m2 = (\<lparr>mh_proto = word_of_int t2, mh_pl_len = word_of_int (w2len + p2len)\<rparr>, wb2 @ pb2)"
  shows "\<exists>tp1 tp2.
    tpipe_write de wc side t1 (w1len, w1) (p1len, p1) (Io_ok (length (msg_bytes m1))) (pinfo, p) = Inr (tp1, 0, msg_bytes m1) \<and>
    tpipe_write de wc side t2 (w2len, w2) (p2len, p2) (Io_ok (length (msg_bytes m1 @ msg_bytes m2))) tp1 =
      Inr (tp2, 0, msg_bytes m1 @ msg_bytes m2)"
proof -
  have b0: "buffer_ok (pi_wbuf (pinfo ! nat side))" "buffer_content (pi_wbuf (pinfo ! nat side)) = map Some []"
      "buffer_size (pi_wbuf (pinfo ! nat side)) = 32000"
    using buffer_new_n_ok [of init_buf_size] buffer_size_new_n [of init_buf_size] assms(8) by (simp_all add: init_buf_size_def)
  have room: "buffer_size (pi_wbuf (pinfo ! nat side)) + length wb1 + length pb1 + 132 < 2 ^ 32" using b0(3) assms(9) by simp
  obtain b1 where b1: "tpipe_write de wc side t1 (w1len, w1) (p1len, p1) (Io_ok (length (msg_bytes m1))) (pinfo, p) =
      Inr ((pinfo[nat side := (pinfo ! nat side)\<lparr>pi_wbuf := b1\<rparr>], p), 0, msg_bytes m1)"
      "buffer_ok b1" "buffer_content b1 = map Some (msg_bytes m1)" "buffer_size b1 \<le> 32000 + length wb1 + length pb1 + 132"
    using tpipe_write_ok [OF assms(1,2,5-7) b0(1,2) room, of de wc t1 "length (msg_bytes m1)" p, folded assms(10)] b0(3)
    by auto
  let ?pi = "pinfo[nat side := (pinfo ! nat side)\<lparr>pi_wbuf := b1\<rparr>]"
  have ns: "nat side < length pinfo" using assms(5,6) by (auto simp: side_ok_def)
  have pi: "length ?pi = 2" "pi_poller (?pi ! nat side)" "buffer_ok (pi_wbuf (?pi ! nat side))"
      "buffer_content (pi_wbuf (?pi ! nat side)) = map Some (msg_bytes m1)"
      "buffer_size (pi_wbuf (?pi ! nat side)) + length wb2 + length pb2 + 132 < 2 ^ 32"
    using ns assms(6,7,9) b1(2-4) by simp_all
  from tpipe_write_ok [OF assms(3,4,5) pi, of de wc t2 "length (msg_bytes m1 @ msg_bytes m2)" p, folded assms(11)]
  show ?thesis using b1(1) by auto
qed

end
