(* ===== verification/Connect.thy ===== *)
theory Connect
  imports Ax_Buffer Fd_Poller
begin

text \<open>
  Connections of \<^verbatim>\<open>src/core/connect.h\<close> and \<^verbatim>\<open>connect.cc\<close>: the socket connection \<^verbatim>\<open>Connect\<close>, the preallocated
  table \<^verbatim>\<open>ConnectContainer\<close> with its stack of free slots and its list of connections in use, and the
  \<^verbatim>\<open>Listener\<close>. Pointers to connections of the table are their indices. What the system calls answered is an
  argument of the operations.
\<close>

section \<open>Connections\<close>

datatype conn_state = CONN_EMPTY | CONN_ACTIVE | CONN_WAIT_CLOSE

text \<open>\<open>co_mgr\<close> says whether \<^verbatim>\<open>mgr_\<close> is set; the only manager of a connection is the worker that owns it.\<close>

record connect =
  co_fd :: int
  co_index :: int
  co_hid :: u32
  co_status :: conn_state
  co_ident :: u8
  co_peer_ip :: u64
  co_peer_port :: u16
  co_rbuf :: "buffer_t option"
  co_wbuf :: "buffer_t option"
  co_mgr :: bool
  co_next :: "nat option"
  co_prev :: "nat option"

text \<open>The constructor leaves the peer address as the memory has it.\<close>

definition connect_new :: "u64 \<times> u16 \<Rightarrow> connect" where
  "connect_new junk =
     \<lparr>co_fd = - 1, co_index = - 1, co_hid = 0, co_status = CONN_EMPTY, co_ident = 0, co_peer_ip = fst junk,
      co_peer_port = snd junk, co_rbuf = None, co_wbuf = None, co_mgr = False, co_next = None, co_prev = None\<rparr>"

definition reset_or_new :: "int \<Rightarrow> buffer_t option \<Rightarrow> buffer_t res" where
  "reset_or_new sz b =
     (case b of Some b \<Rightarrow> buffer_reset (word_of_int sz) b | None \<Rightarrow> Inr (buffer_new_n (word_of_int sz)))"

definition connect_init :: "bool \<Rightarrow> int \<Rightarrow> int \<Rightarrow> int \<Rightarrow> connect \<Rightarrow> (connect \<times> int) res" where
  "connect_init m fd rsize wsize c =
     rbind (rt_assert m) (\<lambda>_.
     rbind (rt_assert (fd \<ge> 0 \<and> rsize > 0 \<and> wsize > 0)) (\<lambda>_.
     rbind (reset_or_new rsize (co_rbuf c)) (\<lambda>rb.
     rbind (reset_or_new wsize (co_wbuf c)) (\<lambda>wb.
       Inr (c\<lparr>co_mgr := True, co_fd := fd, co_peer_port := 0, co_peer_ip := 0, co_status := CONN_EMPTY,
              co_rbuf := Some rb, co_wbuf := Some wb\<rparr>, AX_RET_OK)))))"

definition connect_is_active :: "connect \<Rightarrow> bool" where
  "connect_is_active c \<longleftrightarrow> co_fd c > 0 \<and> co_mgr c \<and> co_peer_port c > 0"

definition connect_set_status :: "conn_state \<Rightarrow> connect \<Rightarrow> connect" where
  "connect_set_status st c = c\<lparr>co_status := st\<rparr>"

text \<open>\<^verbatim>\<open>read\<close>; \<open>ans\<close> is what \<^verbatim>\<open>read(fd_, rbuf_->tail(), 2048)\<close> answered: \<^const>\<open>None\<close> for \<open>- 1\<close>, or the bytes.\<close>

definition connect_read :: "u8 list option \<Rightarrow> connect \<Rightarrow> (connect \<times> int) res" where
  "connect_read ans c =
     rbind (case co_rbuf c of None \<Rightarrow> Inl Assert_fail | Some b \<Rightarrow> Inr b) (\<lambda>rb.
     if co_status c \<noteq> CONN_ACTIVE then Inr (c, - 1)
     else
       rbind (buffer_prepare 2048 rb) (\<lambda>(rb, _).
       case ans of None \<Rightarrow> Inr (c\<lparr>co_rbuf := Some rb\<rparr>, - 1)
       | Some bytes \<Rightarrow>
           if bytes = [] then Inr (c\<lparr>co_rbuf := Some rb\<rparr>, 0)
           else
             rbind (deref (buffer_tail rb)) (\<lambda>p.
             rbind (buffer_store p (map Some bytes) rb) (\<lambda>rb.
             rbind (buffer_flush_push (of_nat (length bytes)) rb) (\<lambda>rb.
               Inr (c\<lparr>co_rbuf := Some rb\<rparr>, int (length bytes)))))))"

text \<open>\<^verbatim>\<open>on_ev_read\<close> and \<^verbatim>\<open>on_ev_write\<close>: whether the event reaches the manager.\<close>

definition connect_on_ev :: "(connect \<Rightarrow> 's \<Rightarrow> 's res) \<Rightarrow> connect \<Rightarrow> 's \<Rightarrow> 's res" where
  "connect_on_ev handler c s = (if \<not> co_mgr c then Inr s else handler c s)"

section \<open>The container\<close>

record container =
  kc_rsize :: u32
  kc_wsize :: u32
  kc_count :: int
  kc_capacity :: int
  kc_connects :: "connect list"
  kc_head :: "nat option"
  kc_free_stack :: "int list"
  kc_stack_top :: int
  kc_mgr :: bool

definition container_new :: "u32 \<Rightarrow> bool \<Rightarrow> u32 \<Rightarrow> u32 \<Rightarrow> (nat \<Rightarrow> u64 \<times> u16) \<Rightarrow> container" where
  "container_new n mgr rbuf_size wbuf_size junk =
     \<lparr>kc_rsize = rbuf_size, kc_wsize = wbuf_size, kc_count = 0, kc_capacity = sint n,
      kc_connects = map (\<lambda>i. (connect_new (junk i))\<lparr>co_index := int i\<rparr>) [0..<unat n], kc_head = None,
      kc_free_stack = map int [0..<unat n], kc_stack_top = 0, kc_mgr = mgr\<rparr>"

text \<open>\<^verbatim>\<open>if (p) p->prev_ = x\<close> and \<^verbatim>\<open>if (p) p->next_ = x\<close>.\<close>

definition conn_set_prev :: "nat option \<Rightarrow> nat option \<Rightarrow> connect list \<Rightarrow> connect list" where
  "conn_set_prev p x cs = (case p of None \<Rightarrow> cs | Some a \<Rightarrow> cs[a := (cs ! a)\<lparr>co_prev := x\<rparr>])"

definition conn_set_next :: "nat option \<Rightarrow> nat option \<Rightarrow> connect list \<Rightarrow> connect list" where
  "conn_set_next p x cs = (case p of None \<Rightarrow> cs | Some a \<Rightarrow> cs[a := (cs ! a)\<lparr>co_next := x\<rparr>])"

definition alloc_connect :: "int \<Rightarrow> container \<Rightarrow> (container \<times> int) res" where
  "alloc_connect sockfd k =
     (if kc_count k \<ge> kc_capacity k then Inr (k, AX_RET_FULL)
      else
        rbind (rt_assert (kc_mgr k)) (\<lambda>_.
        rbind (if 0 \<le> kc_stack_top k \<and> nat (kc_stack_top k) < length (kc_free_stack k)
               then Inr (kc_free_stack k ! nat (kc_stack_top k)) else Inl Mem_error) (\<lambda>vfd.
        rbind (rt_assert (vfd \<ge> 0 \<and> vfd < kc_capacity k)) (\<lambda>_.
        let c = kc_connects k ! nat vfd in
        if co_status c \<noteq> CONN_EMPTY then Inr (k, AX_RET_ERROR)
        else
          rbind (connect_init (kc_mgr k) sockfd (sint (kc_rsize k)) (sint (kc_wsize k)) c) (\<lambda>(c, _).
          let cs = (kc_connects k)[nat vfd := c\<lparr>co_next := kc_head k, co_prev := None\<rparr>];
              cs = conn_set_prev (kc_head k) (Some (nat vfd)) cs in
          Inr (k\<lparr>kc_connects := cs, kc_head := Some (nat vfd), kc_stack_top := kc_stack_top k + 1,
                 kc_count := kc_count k + 1\<rparr>, vfd))))))"

definition free_connect :: "int \<Rightarrow> container \<Rightarrow> container res" where
  "free_connect vfd k =
     rbind (rt_assert (kc_stack_top k > 0 \<and> kc_count k > 0)) (\<lambda>_.
     rbind (rt_assert (vfd \<ge> 0 \<and> vfd < kc_capacity k)) (\<lambda>_.
     let cs = (kc_connects k)[nat vfd := (kc_connects k ! nat vfd)\<lparr>co_status := CONN_EMPTY\<rparr>];
         cs = conn_set_next (co_prev (cs ! nat vfd)) (co_next (cs ! nat vfd)) cs;
         cs = conn_set_prev (co_next (cs ! nat vfd)) (co_prev (cs ! nat vfd)) cs;
         top = kc_stack_top k - 1 in
     Inr (k\<lparr>kc_connects := cs, kc_count := kc_count k - 1, kc_stack_top := top,
            kc_free_stack := (kc_free_stack k)[nat top := vfd]\<rparr>)))"

definition container_get_connect :: "int \<Rightarrow> container \<Rightarrow> nat option" where
  "container_get_connect vfd k = (if vfd \<ge> kc_capacity k \<or> vfd < 0 then None else Some (nat vfd))"

section \<open>The listener\<close>

record listener =
  ls_backlog :: int
  ls_listening :: bool
  ls_fd :: int
  ls_port :: u16
  ls_ident :: u8
  ls_mgr :: bool

definition listener_new :: listener where
  "listener_new = \<lparr>ls_backlog = 0, ls_listening = False, ls_fd = - 1, ls_port = 0, ls_ident = 0, ls_mgr = False\<rparr>"

text \<open>\<open>sock\<close> is what \<^verbatim>\<open>socket\<close> answered, \<open>opt\<close> whether \<^verbatim>\<open>setsockopt\<close> succeeded.\<close>

definition listener_init :: "bool \<Rightarrow> u16 \<Rightarrow> int \<Rightarrow> int \<Rightarrow> bool \<Rightarrow> listener \<Rightarrow> (listener \<times> int) res" where
  "listener_init mgr port backlog sock opt l =
     rbind (rt_assert mgr) (\<lambda>_.
     rbind (rt_assert (port > 0 \<and> backlog > 0)) (\<lambda>_.
     if sock < 0 then Inr (l, AX_RET_ERROR)
     else if \<not> opt then Inr (l, AX_RET_ERROR)
     else Inr (l\<lparr>ls_fd := sock, ls_mgr := True, ls_port := port, ls_backlog := backlog\<rparr>, AX_RET_OK)))"

definition listener_on_ev_read :: "('s \<Rightarrow> 's res) \<Rightarrow> listener \<Rightarrow> 's \<Rightarrow> 's res" where
  "listener_on_ev_read on_listen_read l s = (if \<not> ls_mgr l \<or> \<not> ls_listening l then Inr s else on_listen_read s)"

text \<open>\<open>bound\<close> is whether \<^verbatim>\<open>bind\<close> succeeded, \<open>pl_add_fd\<close> the method of the poller.\<close>

definition listener_listen :: "(int \<Rightarrow> 'p \<Rightarrow> ('p \<times> int) res) \<Rightarrow> bool \<Rightarrow> listener \<Rightarrow> 'p \<Rightarrow> (listener \<times> 'p \<times> int) res" where
  "listener_listen pl_add_fd bound l p =
     (if ls_port l = 0 \<or> ls_fd l < 0 \<or> ls_backlog l < 1 then Inr (l, p, AX_RET_ERROR)
      else if \<not> ls_mgr l then Inr (l, p, AX_RET_ERROR)
      else if \<not> bound then Inr (l, p, AX_RET_ERROR)
      else rbind (pl_add_fd (ls_fd l) p) (\<lambda>(p, ret). Inr (l\<lparr>ls_listening := True\<rparr>, p, ret)))"

section \<open>Tables of slots\<close>

text \<open>What the users of a slot table rely on. \<open>ok m U\<close> says that the table \<open>m\<close> is in order and that \<open>U\<close> are the
  slots in use.\<close>

locale slot_pool =
  fixes ok :: "'m \<Rightarrow> nat set \<Rightarrow> bool"
    and cap :: "'m \<Rightarrow> nat"
    and good :: "'a \<Rightarrow> bool"
    and alloc :: "'a \<Rightarrow> 'm \<Rightarrow> ('m \<times> int) res"
    and release :: "int \<Rightarrow> 'm \<Rightarrow> 'm res"
  assumes alloc_law: "ok m U \<Longrightarrow> card U < cap m \<Longrightarrow> good a \<Longrightarrow>
      \<exists>m' v. alloc a m = Inr (m', int v) \<and> v \<notin> U \<and> v < cap m \<and> ok m' (insert v U) \<and> cap m' = cap m"
    and full_law: "ok m U \<Longrightarrow> card U = cap m \<Longrightarrow> alloc a m = Inr (m, AX_RET_FULL)"
    and bound_law: "ok m U \<Longrightarrow> finite U \<and> card U \<le> cap m"
    and release_law: "ok m U \<Longrightarrow> v \<in> U \<Longrightarrow> \<exists>m'. release (int v) m = Inr m' \<and> ok m' (U - {v}) \<and> cap m' = cap m"

datatype 'a slot_op = Alloc 'a | Free nat

text \<open>A program of allocations and releases, with the slots its owner believes to hold. \<^const>\<open>None\<close> marks a program
  that releases a slot it does not hold.\<close>

fun slot_run :: "('a \<Rightarrow> 'm \<Rightarrow> ('m \<times> int) res) \<Rightarrow> (int \<Rightarrow> 'm \<Rightarrow> 'm res) \<Rightarrow> 'a slot_op list \<Rightarrow> 'm \<Rightarrow> nat set \<Rightarrow>
    ('m \<times> nat set \<times> int list) res option" where
  "slot_run alloc release [] m U = Some (Inr (m, U, []))"
| "slot_run alloc release (Alloc a # ops) m U =
     (case alloc a m of Inl e \<Rightarrow> Some (Inl e)
      | Inr (m', v) \<Rightarrow>
          map_option (\<lambda>r. rbind r (\<lambda>(m, U, vs). Inr (m, U, v # vs)))
            (slot_run alloc release ops m' (if v < 0 then U else insert (nat v) U)))"
| "slot_run alloc release (Free v # ops) m U =
     (if v \<notin> U then None
      else case release (int v) m of Inl e \<Rightarrow> Some (Inl e) | Inr m' \<Rightarrow> slot_run alloc release ops m' (U - {v}))"

fun op_good :: "('a \<Rightarrow> bool) \<Rightarrow> 'a slot_op \<Rightarrow> bool" where
  "op_good good (Alloc a) = good a"
| "op_good good (Free v) = True"

context slot_pool
begin

lemma run_ok:
  assumes "ok m U" and "list_all (op_good good) ops"
  shows "slot_run alloc release ops m U = None \<or>
    (\<exists>m' U' vs. slot_run alloc release ops m U = Some (Inr (m', U', vs)) \<and> ok m' U' \<and> cap m' = cap m)"
  using assms
proof (induction ops arbitrary: m U)
  case (Cons x ops)
  show ?case
  proof (cases x)
    case (Alloc a)
    then have g: "good a" using Cons.prems(2) by simp
    show ?thesis
    proof (cases "card U < cap m")
      case True
      obtain m' v where "alloc a m = Inr (m', int v)" "ok m' (insert v U)" "cap m' = cap m"
        using alloc_law [OF Cons.prems(1) True g] by blast
      then show ?thesis using Cons.IH [of m' "insert v U"] Cons.prems(2) Alloc by auto
    next
      case False
      then have "alloc a m = Inr (m, AX_RET_FULL)" using full_law [OF Cons.prems(1)] bound_law [OF Cons.prems(1)] by simp
      then show ?thesis using Cons.IH [OF Cons.prems(1)] Cons.prems(2) Alloc by (auto simp: ax_ret_defs)
    qed
  next
    case (Free v)
    show ?thesis
    proof (cases "v \<in> U")
      case True
      then show ?thesis using release_law [OF Cons.prems(1) True] Cons.IH Cons.prems(2) Free by fastforce
    qed (simp add: Free)
  qed
qed (simp)

end

section \<open>The container is a table of slots\<close>

definition bufs_ok :: "connect \<Rightarrow> bool" where
  "bufs_ok c \<longleftrightarrow> (\<forall>b. co_rbuf c = Some b \<longrightarrow> buffer_ok b) \<and> (\<forall>b. co_wbuf c = Some b \<longrightarrow> buffer_ok b)"

definition links_ok :: "nat \<Rightarrow> connect \<Rightarrow> bool" where
  "links_ok n c \<longleftrightarrow> (\<forall>a. co_next c = Some a \<longrightarrow> a < n) \<and> (\<forall>a. co_prev c = Some a \<longrightarrow> a < n)"

definition container_ok :: "container \<Rightarrow> nat set \<Rightarrow> bool" where
  "container_ok k U \<longleftrightarrow>
     (let n = length (kc_connects k) in
      length (kc_free_stack k) = n \<and> kc_capacity k = int n \<and> U \<subseteq> {..<n} \<and>
      kc_count k = int (card U) \<and> kc_stack_top k = int (card U) \<and>
      distinct (drop (card U) (kc_free_stack k)) \<and> set (drop (card U) (kc_free_stack k)) = int ` ({..<n} - U) \<and>
      (\<forall>i < n. i \<notin> U \<longrightarrow> co_status (kc_connects k ! i) = CONN_EMPTY) \<and>
      (\<forall>c \<in> set (kc_connects k). bufs_ok c \<and> links_ok n c) \<and> (\<forall>h. kc_head k = Some h \<longrightarrow> h < n) \<and>
      0 < sint (kc_rsize k) \<and> 0 < sint (kc_wsize k) \<and> kc_mgr k)"

lemma buffer_reset_ok:
  assumes "buffer_ok b" and "sz \<noteq> 0"
  shows "\<exists>b'. buffer_reset sz b = Inr b' \<and> buffer_ok b'"
proof (cases "sz = bf_alloc_size b")
  case True
  then show ?thesis using assms buffer_clear_ok [OF assms(1)] by (simp add: buffer_reset_def)
next
  case False
  then show ?thesis using assms(2)
    by (simp add: buffer_reset_def realloc_assert_def buffer_ok_def buffer_clear_def)
qed

lemma reset_or_new_ok:
  assumes "0 < sz" and "sz < 2 ^ 31" and "\<forall>b. p = Some b \<longrightarrow> buffer_ok b"
  shows "\<exists>b'. reset_or_new sz p = Inr b' \<and> buffer_ok b'"
proof -
  have "sint (word_of_int sz :: u32) = sz" using assms(1,2) by (intro sint_int_of) simp_all
  then have "(word_of_int sz :: u32) \<noteq> 0" using assms(1) by (metis less_irrefl sint_0)
  then show ?thesis using assms(3) buffer_reset_ok buffer_new_n_ok(1)
    by (cases p) (auto simp: reset_or_new_def)
qed

lemma connect_init_ok:
  assumes "0 \<le> fd" and "0 < rs" and "0 < ws" and "rs < 2 ^ 31" and "ws < 2 ^ 31" and "bufs_ok c"
  shows "\<exists>rb wb. connect_init True fd rs ws c =
      Inr (c\<lparr>co_mgr := True, co_fd := fd, co_peer_port := 0, co_peer_ip := 0, co_status := CONN_EMPTY,
              co_rbuf := Some rb, co_wbuf := Some wb\<rparr>, AX_RET_OK) \<and> buffer_ok rb \<and> buffer_ok wb"
proof -
  obtain rb where rb: "reset_or_new rs (co_rbuf c) = Inr rb" "buffer_ok rb"
    using reset_or_new_ok [of rs "co_rbuf c"] assms by (auto simp: bufs_ok_def)
  obtain wb where wb: "reset_or_new ws (co_wbuf c) = Inr wb" "buffer_ok wb"
    using reset_or_new_ok [of ws "co_wbuf c"] assms by (auto simp: bufs_ok_def)
  show ?thesis using assms(1-3) rb wb by (auto simp: connect_init_def)
qed

lemma all_update:
  "(\<forall>c \<in> set cs. P c) \<Longrightarrow> P c \<Longrightarrow> \<forall>c \<in> set (cs[i := c]). P c"
  by (auto dest!: subsetD [OF set_update_subset_insert])

text \<open>One pointer update of the list of connections.\<close>

lemma link_update:
  assumes "\<forall>c \<in> set cs. bufs_ok c \<and> links_ok n c" and "length cs = n" and "\<forall>q. x = Some q \<longrightarrow> q < n"
    and "\<forall>a. p = Some a \<longrightarrow> a < n"
  shows "\<forall>c \<in> set (conn_set_prev p x cs). bufs_ok c \<and> links_ok n c"
    and "\<forall>c \<in> set (conn_set_next p x cs). bufs_ok c \<and> links_ok n c"
proof -
  have at: "bufs_ok (cs ! a) \<and> links_ok n (cs ! a)" if "p = Some a" for a using assms that by simp
  show "\<forall>c \<in> set (conn_set_prev p x cs). bufs_ok c \<and> links_ok n c"
  proof (cases p)
    case (Some a)
    show ?thesis unfolding Some conn_set_prev_def option.case
      using at [OF Some] assms(3) by (intro all_update assms(1)) (simp add: bufs_ok_def links_ok_def)
  qed (use assms(1) in \<open>simp add: conn_set_prev_def\<close>)
  show "\<forall>c \<in> set (conn_set_next p x cs). bufs_ok c \<and> links_ok n c"
  proof (cases p)
    case (Some a)
    show ?thesis unfolding Some conn_set_next_def option.case
      using at [OF Some] assms(3) by (intro all_update assms(1)) (simp add: bufs_ok_def links_ok_def)
  qed (use assms(1) in \<open>simp add: conn_set_next_def\<close>)
qed

lemma update_same: "f (g (cs ! a)) = f (cs ! a) \<Longrightarrow> f (cs[a := g (cs ! a)] ! i) = f (cs ! i)"
  by (cases "a < length cs"; cases "i = a") (simp_all add: list_update_beyond)

lemma link_status [simp]:
  "co_status (conn_set_prev p x cs ! i) = co_status (cs ! i)"
  "co_status (conn_set_next p x cs ! i) = co_status (cs ! i)"
  "co_fd (conn_set_prev p x cs ! i) = co_fd (cs ! i)"
  "co_next (conn_set_prev p x cs ! i) = co_next (cs ! i)"
  "length (conn_set_prev p x cs) = length cs"
  "length (conn_set_next p x cs) = length cs"
  by (cases p; simp add: conn_set_prev_def conn_set_next_def update_same)+

lemma container_ok_bound: "container_ok k U \<Longrightarrow> finite U \<and> card U \<le> length (kc_connects k)"
  using card_mono [of "{..<length (kc_connects k)}" U] finite_subset [of U "{..<length (kc_connects k)}"]
  by (auto simp: container_ok_def Let_def)

lemma alloc_connect_ok:
  assumes ok: "container_ok k U" and room: "card U < length (kc_connects k)" and fd: "0 \<le> fd"
  shows "\<exists>k' v. alloc_connect fd k = Inr (k', int v) \<and> v = nat (kc_free_stack k ! card U) \<and> v \<notin> U \<and>
    v < length (kc_connects k) \<and> container_ok k' (insert v U) \<and> length (kc_connects k') = length (kc_connects k) \<and>
    kc_head k' = Some v \<and> co_next (kc_connects k' ! v) = kc_head k \<and> co_fd (kc_connects k' ! v) = fd"
proof -
  let ?n = "length (kc_connects k)" and ?st = "kc_free_stack k"
  have st: "length ?st = ?n" "distinct (drop (card U) ?st)" "set (drop (card U) ?st) = int ` ({..<?n} - U)"
    "kc_capacity k = int ?n" "kc_count k = int (card U)" "kc_stack_top k = int (card U)" "kc_mgr k"
    "0 < sint (kc_rsize k)" "0 < sint (kc_wsize k)" and U: "U \<subseteq> {..<?n}"
    and all: "\<forall>c \<in> set (kc_connects k). bufs_ok c \<and> links_ok ?n c" and hd: "\<forall>h. kc_head k = Some h \<longrightarrow> h < ?n"
    and em: "\<forall>i < ?n. i \<notin> U \<longrightarrow> co_status (kc_connects k ! i) = CONN_EMPTY"
    using ok by (simp_all add: container_ok_def Let_def)
  have tl: "drop (card U) ?st = ?st ! card U # drop (Suc (card U)) ?st"
    using room st(1) by (simp add: Cons_nth_drop_Suc)
  then obtain v where v: "?st ! card U = int v" "v < ?n" "v \<notin> U" using st(3) by auto
  define c where "c = kc_connects k ! v"
  have cb: "bufs_ok c" using all v(2) by (simp add: c_def)
  obtain rb wb where init: "connect_init True fd (sint (kc_rsize k)) (sint (kc_wsize k)) c =
      Inr (c\<lparr>co_mgr := True, co_fd := fd, co_peer_port := 0, co_peer_ip := 0, co_status := CONN_EMPTY,
              co_rbuf := Some rb, co_wbuf := Some wb\<rparr>, AX_RET_OK)" and bf: "buffer_ok rb" "buffer_ok wb"
    using connect_init_ok [OF fd st(8,9) _ _ cb] sint_less [of "kc_rsize k"] sint_less [of "kc_wsize k"] by auto
  define c' where "c' = c\<lparr>co_mgr := True, co_fd := fd, co_peer_port := 0, co_peer_ip := 0, co_status := CONN_EMPTY,
              co_rbuf := Some rb, co_wbuf := Some wb, co_next := kc_head k, co_prev := None\<rparr>"
  define cs1 where "cs1 = (kc_connects k)[v := c']"
  define cs2 where "cs2 = conn_set_prev (kc_head k) (Some v) cs1"
  define k' where "k' = k\<lparr>kc_connects := cs2, kc_head := Some v, kc_stack_top := kc_stack_top k + 1, kc_count := kc_count k + 1\<rparr>"
  have run: "alloc_connect fd k = Inr (k', int v)"
    using room st v em init
    by (simp add: alloc_connect_def Let_def k'_def cs2_def cs1_def c'_def c_def)
  have l: "length cs1 = ?n" "length cs2 = ?n" by (simp_all add: cs1_def cs2_def)
  have "bufs_ok c' \<and> links_ok ?n c'" using bf hd by (simp add: bufs_ok_def links_ok_def c'_def)
  then have "\<forall>c \<in> set cs1. bufs_ok c \<and> links_ok ?n c" unfolding cs1_def by (intro all_update all)
  then have all2: "\<forall>c \<in> set cs2. bufs_ok c \<and> links_ok ?n c"
    unfolding cs2_def using l(1) v(2) hd by (intro link_update) auto
  have fin: "finite U" using finite_subset [OF U] by simp
  have cd: "card (insert v U) = Suc (card U)" using fin v(3) by simp
  have "distinct (drop (Suc (card U)) ?st)" using st(2) tl by simp
  moreover have "set (drop (Suc (card U)) ?st) = int ` ({..<?n} - insert v U)"
  proof -
    have "insert (int v) (set (drop (Suc (card U)) ?st)) = int ` ({..<?n} - U)" using st(3) tl v(1) by simp
    moreover have "int v \<notin> set (drop (Suc (card U)) ?st)" using st(2) tl v(1) by simp
    ultimately have "set (drop (Suc (card U)) ?st) = int ` ({..<?n} - U) - {int v}" by blast
    also have "\<dots> = int ` ({..<?n} - insert v U)" by auto
    finally show ?thesis .
  qed
  moreover have "co_status (cs2 ! i) = CONN_EMPTY" if "i < ?n" "i \<notin> insert v U" for i
    using that em by (simp add: cs2_def cs1_def)
  ultimately have "container_ok k' (insert v U)"
    using st U v(2) all2 l cd by (simp add: container_ok_def Let_def k'_def)
  moreover have "co_next (cs2 ! v) = kc_head k" "co_fd (cs2 ! v) = fd"
    using v(2) by (simp_all add: cs2_def cs1_def c'_def)
  ultimately show ?thesis using run v l by (intro exI [of _ k'] exI [of _ v]) (simp add: k'_def)
qed

lemma free_connect_ok:
  assumes ok: "container_ok k U" and v: "v \<in> U"
  shows "\<exists>k'. free_connect (int v) k = Inr k' \<and> container_ok k' (U - {v}) \<and> length (kc_connects k') = length (kc_connects k) \<and>
    kc_free_stack k' ! card (U - {v}) = int v \<and> kc_head k' = kc_head k"
proof -
  let ?n = "length (kc_connects k)" and ?st = "kc_free_stack k"
  have st: "length ?st = ?n" "distinct (drop (card U) ?st)" "set (drop (card U) ?st) = int ` ({..<?n} - U)"
    "kc_capacity k = int ?n" "kc_count k = int (card U)" "kc_stack_top k = int (card U)" "kc_mgr k"
    "0 < sint (kc_rsize k)" "0 < sint (kc_wsize k)" and U: "U \<subseteq> {..<?n}"
    and all: "\<forall>c \<in> set (kc_connects k). bufs_ok c \<and> links_ok ?n c" and hd: "\<forall>h. kc_head k = Some h \<longrightarrow> h < ?n"
    and em: "\<forall>i < ?n. i \<notin> U \<longrightarrow> co_status (kc_connects k ! i) = CONN_EMPTY"
    using ok by (simp_all add: container_ok_def Let_def)
  have vn: "v < ?n" using v U by auto
  have fin: "finite U" using finite_subset [OF U] by simp
  obtain m where m: "card U = Suc m" using v fin by (metis card_Suc_Diff1)
  have cm: "card (U - {v}) = m" using v fin m by simp
  have mn: "m < ?n" using container_ok_bound [OF ok] m by simp
  define cs1 where "cs1 = (kc_connects k)[v := (kc_connects k ! v)\<lparr>co_status := CONN_EMPTY\<rparr>]"
  define cs2 where "cs2 = conn_set_next (co_prev (cs1 ! v)) (co_next (cs1 ! v)) cs1"
  define cs3 where "cs3 = conn_set_prev (co_next (cs2 ! v)) (co_prev (cs2 ! v)) cs2"
  define k' where "k' = k\<lparr>kc_connects := cs3, kc_count := kc_count k - 1, kc_stack_top := int m, kc_free_stack := ?st[m := int v]\<rparr>"
  have run: "free_connect (int v) k = Inr k'"
    using st m vn by (simp add: free_connect_def Let_def k'_def cs3_def cs2_def cs1_def)
  have l: "length cs1 = ?n" "length cs2 = ?n" "length cs3 = ?n"
    by (simp_all add: cs1_def cs2_def cs3_def)
  have "bufs_ok (kc_connects k ! v) \<and> links_ok ?n (kc_connects k ! v)" using all vn by simp
  then have 1: "\<forall>c \<in> set cs1. bufs_ok c \<and> links_ok ?n c"
    unfolding cs1_def by (intro all_update all) (simp add: bufs_ok_def links_ok_def)
  then have n1: "links_ok ?n (cs1 ! v)" using l(1) vn by simp
  then have 2: "\<forall>c \<in> set cs2. bufs_ok c \<and> links_ok ?n c"
    unfolding cs2_def using l(1) 1 by (intro link_update(2)) (auto simp: links_ok_def)
  then have n2: "links_ok ?n (cs2 ! v)" using l(2) vn by simp
  then have 3: "\<forall>c \<in> set cs3. bufs_ok c \<and> links_ok ?n c"
    unfolding cs3_def using l(2) 2 by (intro link_update(1)) (auto simp: links_ok_def)
  have tl: "drop m (?st[m := int v]) = int v # drop (Suc m) ?st"
    using mn st(1) by (simp add: Cons_nth_drop_Suc [symmetric])
  have "distinct (drop m (?st[m := int v]))" using st(2,3) m v by (auto simp: tl)
  moreover have "set (drop m (?st[m := int v])) = int ` ({..<?n} - (U - {v}))"
    using st(3) m v vn by (auto simp: tl)
  moreover have "co_status (cs3 ! i) = CONN_EMPTY" if "i < ?n" "i \<notin> U - {v}" for i
    using that em vn by (auto simp: cs3_def cs2_def cs1_def nth_list_update)
  ultimately have "container_ok k' (U - {v})"
    using st U m cm 3 l hd unfolding container_ok_def Let_def k'_def by auto
  then show ?thesis using run l mn st(1) cm by (intro exI [of _ k']) (simp add: k'_def)
qed

interpretation connects: slot_pool container_ok "\<lambda>k. length (kc_connects k)" "\<lambda>fd. 0 \<le> fd" alloc_connect free_connect
proof unfold_locales
  show "\<exists>k' v. alloc_connect fd k = Inr (k', int v) \<and> v \<notin> U \<and> v < length (kc_connects k) \<and> container_ok k' (insert v U) \<and>
      length (kc_connects k') = length (kc_connects k)"
    if "container_ok k U" "card U < length (kc_connects k)" "0 \<le> fd" for k U fd
    using alloc_connect_ok [OF that] by blast
  show "alloc_connect fd k = Inr (k, AX_RET_FULL)" if "container_ok k U" "card U = length (kc_connects k)" for k U fd
    using that by (simp add: alloc_connect_def container_ok_def Let_def)
  show "\<exists>k'. free_connect (int v) k = Inr k' \<and> container_ok k' (U - {v}) \<and> length (kc_connects k') = length (kc_connects k)"
    if "container_ok k U" "v \<in> U" for k U v
    using free_connect_ok [OF that] by blast
qed (rule container_ok_bound)

lemma container_new_ok:
  assumes "unat n < 2 ^ 31" and "0 < sint rs" and "0 < sint ws"
  shows "container_ok (container_new n True rs ws junk) {}" and "length (kc_connects (container_new n True rs ws junk)) = unat n"
proof -
  have "sint n = int (unat n)" using assms(1) by (rule sint_u32)
  then show "container_ok (container_new n True rs ws junk) {}"
    unfolding container_ok_def Let_def using assms(2,3)
    by (auto simp: container_new_def connect_new_def bufs_ok_def links_ok_def distinct_map atLeast0LessThan simp del: of_nat_unat)
  show "length (kc_connects (container_new n True rs ws junk)) = unat n" by (simp add: container_new_def)
qed

section \<open>Properties\<close>

text \<open>C24: A container never hands out a connection twice. After any sequence of allocations and of releases of
  connections that are held, starting from a new container, an allocation gives a connection nobody holds
  while there is one, and reports \<^verbatim>\<open>AX_RET_FULL\<close> otherwise; no step fails.\<close>

theorem container_slots:
  assumes "unat n < 2 ^ 31" and "0 < sint rs" and "0 < sint ws" and "list_all (op_good (\<lambda>fd. 0 \<le> fd)) ops"
    and "slot_run alloc_connect free_connect ops (container_new n True rs ws junk) {} = Some r"
  shows "\<exists>k U vs. r = Inr (k, U, vs) \<and> U \<subseteq> {..<unat n} \<and> kc_count k = int (card U) \<and>
    (\<forall>fd \<ge> 0. if card U < unat n then \<exists>k' v. alloc_connect fd k = Inr (k', int v) \<and> v < unat n \<and> v \<notin> U
       else alloc_connect fd k = Inr (k, AX_RET_FULL)) \<and>
    (\<forall>v \<in> U. \<exists>k'. free_connect (int v) k = Inr k' \<and> kc_count k' = kc_count k - 1)"
proof -
  note new = container_new_ok [OF assms(1-3), of junk]
  obtain k U vs where r: "r = Inr (k, U, vs)" and ok: "container_ok k U" and n: "length (kc_connects k) = unat n"
    using connects.run_ok [OF new(1) assms(4)] new(2) assms(5) by auto
  have U: "U \<subseteq> {..<unat n}" "kc_count k = int (card U)" using ok n by (simp_all add: container_ok_def Let_def)
  have "if card U < unat n then \<exists>k' v. alloc_connect fd k = Inr (k', int v) \<and> v < unat n \<and> v \<notin> U
       else alloc_connect fd k = Inr (k, AX_RET_FULL)" if "fd \<ge> 0" for fd
    using connects.alloc_law [OF ok _ that] connects.full_law [OF ok] connects.bound_law [OF ok] n
    by (cases "card U < unat n") auto
  moreover have "\<exists>k'. free_connect (int v) k = Inr k' \<and> kc_count k' = kc_count k - 1" if v: "v \<in> U" for v
  proof -
    obtain k' where k': "free_connect (int v) k = Inr k'" "container_ok k' (U - {v})" using connects.release_law [OF ok v] by blast
    have "0 < card U" using v connects.bound_law [OF ok] card_gt_0_iff by blast
    then have "kc_count k' = kc_count k - 1"
      using k'(2) U(2) v connects.bound_law [OF ok] by (simp add: container_ok_def Let_def of_nat_diff)
    then show ?thesis using k'(1) by blast
  qed
  ultimately show ?thesis using r U by blast
qed

theorem container_slots_witness:
  "\<exists>k U vs. slot_run alloc_connect free_connect [Alloc 5, Alloc 6, Free 0] (container_new 3 True 1024 256 (\<lambda>_. (0, 0))) {} =
     Some (Inr (k, U, vs)) \<and> kc_count k = int (card U)"
proof -
  have pre: "unat (3 :: u32) < 2 ^ 31" "0 < sint (1024 :: u32)" "0 < sint (256 :: u32)" by simp_all
  have g: "list_all (op_good (\<lambda>fd :: int. 0 \<le> fd)) [Alloc 5, Alloc 6, Free 0]" by simp
  have "slot_run alloc_connect free_connect [Alloc 5, Alloc 6, Free 0] (container_new 3 True 1024 256 (\<lambda>_. (0, 0))) {} \<noteq> None"
    by (simp add: container_new_def alloc_connect_def connect_init_def reset_or_new_def connect_new_def numeral_eq_Suc
        conn_set_prev_def free_connect_def conn_set_next_def split: sum.splits)
  then obtain r where r: "slot_run alloc_connect free_connect [Alloc 5, Alloc 6, Free 0] (container_new 3 True 1024 256 (\<lambda>_. (0, 0))) {} = Some r"
    by blast
  from container_slots [OF pre g r] r show ?thesis by blast
qed

text \<open>The list of connections in use is not maintained: \<^verbatim>\<open>free_connect\<close> leaves \<^verbatim>\<open>head_\<close> on the connection it frees
  when that is the first of the list, and the next allocation, which takes the same connection again, links it to
  itself, so that following \<^verbatim>\<open>next_\<close> from \<^verbatim>\<open>head_\<close> never ends.\<close>

lemma container_list_cycle:
  assumes ok: "container_ok k U" and room: "card U < length (kc_connects k)" and fd: "0 \<le> fd" "0 \<le> fd'"
  shows "\<exists>k1 v k2 k3. alloc_connect fd k = Inr (k1, int v) \<and> free_connect (int v) k1 = Inr k2 \<and>
    v \<notin> U \<and> kc_head k2 = Some v \<and>
    alloc_connect fd' k2 = Inr (k3, int v) \<and> kc_head k3 = Some v \<and> co_next (kc_connects k3 ! v) = Some v"
proof -
  obtain k1 v where k1: "alloc_connect fd k = Inr (k1, int v)" "v \<notin> U" "container_ok k1 (insert v U)"
      "length (kc_connects k1) = length (kc_connects k)" "kc_head k1 = Some v"
    using alloc_connect_ok [OF ok room fd(1)] by blast
  have e: "insert v U - {v} = U" using k1(2) by auto
  obtain k2 where k2: "free_connect (int v) k1 = Inr k2" "container_ok k2 U" "length (kc_connects k2) = length (kc_connects k1)"
      "kc_free_stack k2 ! card U = int v" "kc_head k2 = kc_head k1"
    using free_connect_ok [OF k1(3), of v] unfolding e by blast
  have room2: "card U < length (kc_connects k2)" using room k1(4) k2(3) by simp
  obtain k3 w where k3: "alloc_connect fd' k2 = Inr (k3, int w)" "w = nat (kc_free_stack k2 ! card U)"
      "kc_head k3 = Some w" "co_next (kc_connects k3 ! w) = kc_head k2"
    using alloc_connect_ok [OF k2(2) room2 fd(2)] by blast
  have "w = v" using k3(2) k2(4) by simp
  then show ?thesis using k1 k2 k3 by (intro exI [of _ k1] exI [of _ v] exI [of _ k2] exI [of _ k3]) simp
qed

end
