(* ===== verification/Connect_Worker.thy ===== *)
theory Connect_Worker
  imports Connect Ax_Tpipe Epoll
begin

text \<open>
  The worker of the client gateway: \<^verbatim>\<open>ConnectWorker\<close> of \<^verbatim>\<open>src/cgate_mt/connect_worker.h\<close> and
  \<^verbatim>\<open>connect_worker.cc\<close>, which owns a poller, a container of connections and side 1 of the mailbox to the main
  thread. The event requests \<open>ae\<close> and \<open>de\<close> of the poller's driver and what the system calls answered are arguments.
\<close>

section \<open>Data\<close>

text \<open>\<open>| thread no 6bit | 26bit auto increment |\<close>\<close>

definition HID_THR_BITS :: nat where "HID_THR_BITS = 26"
definition HID_THR_MASK :: u32 where "HID_THR_MASK = 0x3F"

text \<open>The handle is a signed \<^verbatim>\<open>int\<close> where it is taken apart, so the shift keeps its sign.\<close>

definition THR_IDX_FROM_HID :: "u32 \<Rightarrow> u32" where
  "THR_IDX_FROM_HID h = signed_drop_bit HID_THR_BITS h AND HID_THR_MASK"

definition PT_CGATE_CTRL :: u16 where "PT_CGATE_CTRL = 1"
definition PT_CLIENT_REQ :: u16 where "PT_CLIENT_REQ = 2"
definition PT_CGATE_NEWCONN :: u16 where "PT_CGATE_NEWCONN = 1"
definition PT_WORKER_NOTIFY :: u16 where "PT_WORKER_NOTIFY = 3"
definition PT_CONN_NOTIFY :: u16 where "PT_CONN_NOTIFY = 4"
definition PT_CONN_CTRL :: u16 where "PT_CONN_CTRL = 5"

lemmas pt_defs = PT_CGATE_CTRL_def PT_CLIENT_REQ_def PT_CGATE_NEWCONN_def PT_WORKER_NOTIFY_def PT_CONN_NOTIFY_def PT_CONN_CTRL_def

datatype worker_state = S_INVALID | S_READY | S_ACTIVE | S_TO_CLOSE

datatype worker_reactor = R_conn nat | R_mailbox

type_synonym ('c, 'd, 'k) wpoller = "(worker_reactor, 'c, 'd, 'k) fd_poller"

record ('c, 'd, 'k) connect_worker =
  cw_idx :: int
  cw_poller :: "('c, 'd, 'k) wpoller"
  cw_container :: container
  cw_rbuf_size :: u32
  cw_wbuf_size :: u32
  cw_max_connect :: u32
  cw_state :: worker_state
  cw_mailbox :: "tpipe option"

section \<open>Operations\<close>

text \<open>The constructor, with the new poller.\<close>

definition worker_new :: "u32 \<Rightarrow> u32 \<Rightarrow> u32 \<Rightarrow> (nat \<Rightarrow> u64 \<times> u16) \<Rightarrow> ('c, 'd, 'k) wpoller \<Rightarrow> ('c, 'd, 'k) connect_worker" where
  "worker_new max_connect rsize wsize junk poller =
     \<lparr>cw_idx = - 1, cw_poller = poller, cw_container = container_new max_connect True rsize wsize junk,
      cw_rbuf_size = rsize, cw_wbuf_size = wsize, cw_max_connect = max_connect, cw_state = S_INVALID,
      cw_mailbox = None\<rparr>"

definition send_worker_command :: "(int \<Rightarrow> u32 \<Rightarrow> ('c, 'd, 'k) wpoller \<Rightarrow> (('c, 'd, 'k) wpoller \<times> int) res) \<Rightarrow> u16 \<Rightarrow>
    int \<times> (block option \<Rightarrow> u32 \<Rightarrow> (block option \<times> int) res) \<Rightarrow> nat io_result \<Rightarrow>
    ('c, 'd, 'k) connect_worker \<Rightarrow> ('c, 'd, 'k) connect_worker res" where
  "send_worker_command de cmd msg ans w =
     (let ctrl = pb_cgate_ctrl_init\<lparr>ct_cmd := cmd\<rparr> in
      rbind (deref (cw_mailbox w)) (\<lambda>mb.
      rbind (tpipe_write de (wait_close de) 1 (sint PT_CGATE_CTRL) (pb_cgate_ctrl_cal_size ctrl, pb_cgate_ctrl_pack ctrl)
               msg ans (mb, cw_poller w)) (\<lambda>((mb, p), _).
        Inr (w\<lparr>cw_mailbox := Some mb, cw_poller := p\<rparr>))))"

definition worker_get_connect :: "int \<Rightarrow> u32 \<Rightarrow> ('c, 'd, 'k) connect_worker \<Rightarrow> nat option" where
  "worker_get_connect vfd hid w =
     (case container_get_connect vfd (cw_container w) of None \<Rightarrow> None
      | Some c \<Rightarrow> if co_hid (kc_connects (cw_container w) ! c) \<noteq> hid then None else Some c)"

definition worker_wait_close :: "(int \<Rightarrow> u32 \<Rightarrow> ('c, 'd, 'k) wpoller \<Rightarrow> (('c, 'd, 'k) wpoller \<times> int) res) \<Rightarrow> nat \<Rightarrow> nat io_result \<Rightarrow>
    ('c, 'd, 'k) connect_worker \<Rightarrow> ('c, 'd, 'k) connect_worker res" where
  "worker_wait_close de i ans w =
     (let c = kc_connects (cw_container w) ! i in
      rbind (wait_close de (co_fd c) (cw_poller w)) (\<lambda>(p, _).
      let msg = pb_conn_notify_init\<lparr>cn_fd := word_of_int (co_fd c), cn_hid := co_hid c, cn_action := PEER_CLOSE\<rparr> in
      send_worker_command de PT_CONN_NOTIFY (pb_conn_notify_cal_size msg, pb_conn_notify_pack msg) ans (w\<lparr>cw_poller := p\<rparr>)))"

definition worker_close_connect :: "int \<Rightarrow> u32 \<Rightarrow> ('c, 'd, 'k) connect_worker \<Rightarrow> ('c, 'd, 'k) connect_worker res" where
  "worker_close_connect vfd hid w =
     (case container_get_connect vfd (cw_container w) of None \<Rightarrow> Inr w
      | Some c \<Rightarrow>
          if co_hid (kc_connects (cw_container w) ! c) \<noteq> hid then Inr w
          else
            rbind (close_fd (co_fd (kc_connects (cw_container w) ! c)) (cw_poller w)) (\<lambda>(p, _).
            rbind (free_connect vfd (cw_container w)) (\<lambda>k.
              Inr (w\<lparr>cw_poller := p, cw_container := k\<rparr>))))"

definition new_connect :: "(int \<Rightarrow> u32 \<Rightarrow> ('c, 'd, 'k) wpoller \<Rightarrow> (('c, 'd, 'k) wpoller \<times> int) res) \<Rightarrow>
    int \<Rightarrow> u32 \<Rightarrow> u64 \<Rightarrow> u16 \<Rightarrow> ('c, 'd, 'k) connect_worker \<Rightarrow> (('c, 'd, 'k) connect_worker \<times> nat option) res" where
  "new_connect ae fd hid peer_ip peer_port w =
     rbind (alloc_connect fd (cw_container w)) (\<lambda>(k, vfd).
     let w = w\<lparr>cw_container := k\<rparr> in
     if vfd < 0 then Inr (w, None)
     else
       rbind (case container_get_connect vfd k of None \<Rightarrow> Inl Assert_fail | Some i \<Rightarrow> Inr i) (\<lambda>i.
       rbind (connect_init True fd (sint (cw_rbuf_size w)) (sint (cw_wbuf_size w)) (kc_connects k ! i)) (\<lambda>(c, ret).
       if ret < 0 then Inr (w, None)
       else
         let c = connect_set_status CONN_ACTIVE
               (c\<lparr>co_index := vfd, co_hid := hid, co_peer_port := peer_port, co_peer_ip := peer_ip\<rparr>) in
         rbind (add_fd ae fd (Some (R_conn i)) (cw_poller w)) (\<lambda>(p, _).
           Inr (w\<lparr>cw_container := k\<lparr>kc_connects := (kc_connects k)[i := c]\<rparr>, cw_poller := p\<rparr>, Some i)))))"

text \<open>\<^verbatim>\<open>process_data\<close>: the bytes are offered to \<^verbatim>\<open>write\<close>, whose answer the code ignores (\<open>n\<close> bytes are taken), and
  all of them leave the buffer. The second component is what went out.\<close>

definition worker_process_data :: "nat \<Rightarrow> nat \<Rightarrow> ('c, 'd, 'k) connect_worker \<Rightarrow> (('c, 'd, 'k) connect_worker \<times> u8 list) res" where
  "worker_process_data n i w =
     (let k = cw_container w; c = kc_connects k ! i in
      rbind (deref (co_rbuf c)) (\<lambda>rb.
      rbind (data_bytes rb (unat (bf_len rb))) (\<lambda>bytes.
      rbind (buffer_pop (bf_len rb) rb) (\<lambda>(rb, _).
        Inr (w\<lparr>cw_container := k\<lparr>kc_connects := (kc_connects k)[i := c\<lparr>co_rbuf := Some rb\<rparr>]\<rparr>\<rparr>, take n bytes)))))"

text \<open>\<^verbatim>\<open>on_read\<close>; \<open>again\<close> is whether \<^verbatim>\<open>errno\<close> is \<^verbatim>\<open>EINTR\<close> or \<^verbatim>\<open>EAGAIN\<close>.\<close>

definition worker_on_read :: "(int \<Rightarrow> u32 \<Rightarrow> ('c, 'd, 'k) wpoller \<Rightarrow> (('c, 'd, 'k) wpoller \<times> int) res) \<Rightarrow>
    u8 list option \<Rightarrow> bool \<Rightarrow> nat \<Rightarrow> nat io_result \<Rightarrow> nat \<Rightarrow> ('c, 'd, 'k) connect_worker \<Rightarrow>
    (('c, 'd, 'k) connect_worker \<times> u8 list) res" where
  "worker_on_read de ans again n mans i w =
     (let k = cw_container w in
      rbind (connect_read ans (kc_connects k ! i)) (\<lambda>(c, ret).
      let w = w\<lparr>cw_container := k\<lparr>kc_connects := (kc_connects k)[i := c]\<rparr>\<rparr> in
      if ret < 0 \<and> again then Inr (w, [])
      else if ret = 0 then Inr (w, [])
      else if ret < 0 then
        rbind (worker_wait_close de i mans w) (\<lambda>w.
        rbind (worker_close_connect (co_index c) (co_hid c) w) (\<lambda>w. Inr (w, [])))
      else worker_process_data n i w))"

text \<open>\<^verbatim>\<open>process_conn_ctrl\<close> decodes its packet and does nothing with it; \<^verbatim>\<open>process_worker_command\<close> does nothing.\<close>

definition worker_process_conn_ctrl :: "block option \<Rightarrow> u32 \<Rightarrow> ('c, 'd, 'k) connect_worker \<Rightarrow> ('c, 'd, 'k) connect_worker res" where
  "worker_process_conn_ctrl p remain w = rbind (pb_conn_ctrl_unpack p remain pb_conn_ctrl_init) (\<lambda>_. Inr w)"

definition worker_process_command :: "u16 \<Rightarrow> block option \<Rightarrow> u32 \<Rightarrow> ('c, 'd, 'k) connect_worker \<Rightarrow> ('c, 'd, 'k) connect_worker res" where
  "worker_process_command proto p remain w = Inr w"

text \<open>The callback of the mailbox; \<open>p\<close> is the memory the message starts at.\<close>

definition worker_on_mailbox_read :: "(int \<Rightarrow> u32 \<Rightarrow> ('c, 'd, 'k) wpoller \<Rightarrow> (('c, 'd, 'k) wpoller \<times> int) res) \<Rightarrow>
    msg_header_t \<Rightarrow> block \<Rightarrow> ('c, 'd, 'k) connect_worker \<Rightarrow> ('c, 'd, 'k) connect_worker res" where
  "worker_on_mailbox_read ae header p w =
     (if mh_proto header = PT_CGATE_CTRL then
        rbind (pb_cgate_ctrl_unpack (Some p) (ucast (mh_pl_len header)) pb_cgate_ctrl_init) (\<lambda>(ctrl, ret).
        if ret < 0 then Inr w
        else
          let p = drop (nat ret) p; remain = ucast (mh_pl_len header) - word_of_int ret in
          if ct_cmd ctrl = PT_CGATE_NEWCONN then
            rbind (pb_cgate_newconn_unpack (Some p) remain pb_cgate_newconn_init) (\<lambda>(pkt, ret).
            if ret < 0 then Inr w
            else rbind (new_connect ae (sint (nc_fd pkt)) (nc_hid pkt) (nc_ip pkt) (nc_port pkt) w) (\<lambda>(w, _). Inr w))
          else if ct_cmd ctrl = PT_CONN_CTRL then worker_process_conn_ctrl (Some (drop (nat ret) p)) remain w
          else worker_process_command (ct_cmd ctrl) (Some (drop (nat ret) p)) remain w)
      else Inr w)"

text \<open>\<^verbatim>\<open>start_loop\<close> up to its loop, which only runs \<^verbatim>\<open>poller_->process()\<close>.\<close>

definition worker_start :: "(int \<Rightarrow> u32 \<Rightarrow> ('c, 'd, 'k) wpoller \<Rightarrow> (('c, 'd, 'k) wpoller \<times> int) res) \<Rightarrow> nat io_result \<Rightarrow>
    ('c, 'd, 'k) connect_worker \<Rightarrow> ('c, 'd, 'k) connect_worker res" where
  "worker_start de ans w =
     (let msg = pb_worker_notify_init\<lparr>wn_cmd := WORKER_START_OK, wn_lparam := word_of_int (cw_idx w)\<rparr> in
      send_worker_command de PT_WORKER_NOTIFY (pb_worker_notify_cal_size msg, pb_worker_notify_pack msg) ans
        (w\<lparr>cw_state := S_ACTIVE\<rparr>))"

text \<open>\<^verbatim>\<open>thread_worker_fn\<close>: a new worker takes side 1 of the mailbox and starts.\<close>

definition thread_worker_fn :: "(int \<Rightarrow> u32 \<Rightarrow> ('c, 'd, 'k) wpoller \<Rightarrow> (('c, 'd, 'k) wpoller \<times> int) res) \<Rightarrow>
    (int \<Rightarrow> u32 \<Rightarrow> ('c, 'd, 'k) wpoller \<Rightarrow> (('c, 'd, 'k) wpoller \<times> int) res) \<Rightarrow> u32 \<Rightarrow> int \<Rightarrow> int \<Rightarrow> tpipe \<Rightarrow>
    (nat \<Rightarrow> u64 \<times> u16) \<Rightarrow> ('c, 'd, 'k) wpoller \<Rightarrow> nat io_result \<Rightarrow> ('c, 'd, 'k) connect_worker res" where
  "thread_worker_fn ae de max_conn idx client_rbuf_size mailbox junk poller ans =
     (let w = (worker_new max_conn (word_of_int client_rbuf_size) 256 junk poller)\<lparr>cw_idx := idx\<rparr> in
      rbind (tpipe_init (\<lambda>fd. add_fd ae fd (Some R_mailbox)) 1 True True (mailbox, cw_poller w)) (\<lambda>(mb, p).
        worker_start de ans (w\<lparr>cw_mailbox := Some mb, cw_poller := p\<rparr>)))"

section \<open>The life of a connection\<close>

text \<open>Changing a connection that is in use, but not its links, keeps the container in order.\<close>

lemma container_ok_conn:
  assumes "container_ok k U" and "v \<in> U" and "bufs_ok c" and "co_next c = co_next (kc_connects k ! v)"
    and "co_prev c = co_prev (kc_connects k ! v)"
  shows "container_ok (k\<lparr>kc_connects := (kc_connects k)[v := c]\<rparr>) U"
proof -
  let ?n = "length (kc_connects k)"
  have v: "v < ?n" and all: "\<forall>c \<in> set (kc_connects k). bufs_ok c \<and> links_ok ?n c"
    using assms(1,2) by (auto simp: container_ok_def Let_def)
  then have "links_ok ?n (kc_connects k ! v)" by simp
  then have "links_ok ?n c" using assms(4,5) by (simp add: links_ok_def)
  then have "\<forall>c \<in> set ((kc_connects k)[v := c]). bufs_ok c \<and> links_ok ?n c" using assms(3) by (intro all_update all) simp
  moreover have "\<forall>i < ?n. i \<notin> U \<longrightarrow> co_status ((kc_connects k)[v := c] ! i) = CONN_EMPTY"
    using assms(1,2) by (auto simp: container_ok_def Let_def nth_list_update)
  ultimately show ?thesis using assms(1) by (simp add: container_ok_def Let_def)
qed

definition worker_ok :: "('c, 'd, 'k) connect_worker \<Rightarrow> nat set \<Rightarrow> bool" where
  "worker_ok w U \<longleftrightarrow> container_ok (cw_container w) U \<and> poller_ok (cw_poller w) \<and>
     0 < sint (cw_rbuf_size w) \<and> 0 < sint (cw_wbuf_size w)"

lemma new_connect_ok:
  assumes ok: "worker_ok w U" and room: "card U < length (kc_connects (cw_container w))" and fd: "0 \<le> fd"
  shows "\<exists>w' v p' r. new_connect (epoll_add_event ctl) fd hid ip port w = Inr (w', Some v) \<and> v \<notin> U \<and> worker_ok w' (insert v U) \<and>
    v < length (kc_connects (cw_container w)) \<and> length (kc_connects (cw_container w')) = length (kc_connects (cw_container w)) \<and>
    add_fd (epoll_add_event ctl) fd (Some (R_conn v)) (cw_poller w) = Inr (p', r) \<and> cw_poller w' = p' \<and>
    co_fd (kc_connects (cw_container w') ! v) = fd \<and> co_hid (kc_connects (cw_container w') ! v) = hid \<and>
    co_peer_ip (kc_connects (cw_container w') ! v) = ip \<and> co_peer_port (kc_connects (cw_container w') ! v) = port \<and>
    co_status (kc_connects (cw_container w') ! v) = CONN_ACTIVE \<and> co_index (kc_connects (cw_container w') ! v) = int v \<and>
    kc_capacity (cw_container w') = kc_capacity (cw_container w)"
proof -
  have kok: "container_ok (cw_container w) U" and pok: "poller_ok (cw_poller w)"
    and sz: "0 < sint (cw_rbuf_size w)" "0 < sint (cw_wbuf_size w)" using ok by (simp_all add: worker_ok_def)
  obtain k v where al: "alloc_connect fd (cw_container w) = Inr (k, int v)" "v \<notin> U" "v < length (kc_connects (cw_container w))"
      "container_ok k (insert v U)" "length (kc_connects k) = length (kc_connects (cw_container w))"
    using alloc_connect_ok [OF kok room fd] by blast
  have cap: "kc_capacity k = int (length (kc_connects k))" using al(4) by (simp add: container_ok_def Let_def)
  have vk: "v < length (kc_connects k)" using al(3,5) by simp
  have "bufs_ok (kc_connects k ! v)" using al(4) vk by (simp add: container_ok_def Let_def)
  from connect_init_ok [OF fd sz _ _ this] sint_less [of "cw_rbuf_size w"] sint_less [of "cw_wbuf_size w"] obtain rb wb
    where init: "connect_init True fd (sint (cw_rbuf_size w)) (sint (cw_wbuf_size w)) (kc_connects k ! v) =
      Inr ((kc_connects k ! v)\<lparr>co_mgr := True, co_fd := fd, co_peer_port := 0, co_peer_ip := 0, co_status := CONN_EMPTY,
              co_rbuf := Some rb, co_wbuf := Some wb\<rparr>, AX_RET_OK)" and bf: "buffer_ok rb" "buffer_ok wb" by auto
  obtain p' r where p': "add_fd (epoll_add_event ctl) fd (Some (R_conn v)) (cw_poller w) = Inr (p', r)" "poller_ok p'"
    using epoll.add_fd_ok [OF pok, of "Some (R_conn v)" ctl fd] by auto
  define c where "c = (kc_connects k ! v)\<lparr>co_mgr := True, co_fd := fd, co_rbuf := Some rb, co_wbuf := Some wb,
      co_index := int v, co_hid := hid, co_peer_port := port, co_peer_ip := ip, co_status := CONN_ACTIVE\<rparr>"
  define w' where "w' = w\<lparr>cw_container := k\<lparr>kc_connects := (kc_connects k)[v := c]\<rparr>, cw_poller := p'\<rparr>"
  have run: "new_connect (epoll_add_event ctl) fd hid ip port w = Inr (w', Some v)"
    using al(1) vk cap init p'(1)
    by (simp add: new_connect_def container_get_connect_def connect_set_status_def ax_ret_defs w'_def c_def)
  have "container_ok (k\<lparr>kc_connects := (kc_connects k)[v := c]\<rparr>) (insert v U)"
    using bf by (intro container_ok_conn al(4)) (simp_all add: c_def bufs_ok_def)
  then have "worker_ok w' (insert v U)" using p'(2) sz by (simp add: worker_ok_def w'_def)
  moreover have "kc_capacity k = kc_capacity (cw_container w)"
    using al(4,5) kok by (simp add: container_ok_def Let_def)
  ultimately show ?thesis using run al p'(1) vk
    by (intro exI [of _ w'] exI [of _ v] exI [of _ p'] exI [of _ r]) (simp add: w'_def c_def)
qed

lemma close_connect_ok:
  assumes ok: "worker_ok w U" and v: "v \<in> U" and hid: "co_hid (kc_connects (cw_container w) ! v) = hid"
    and fd: "fd_ok (cw_poller w) (co_fd (kc_connects (cw_container w) ! v))"
    and room: "fp_retired_sz (cw_poller w) < sint (fp_max_fds (cw_poller w))"
  shows "\<exists>w'. worker_close_connect (int v) hid w = Inr w' \<and> worker_ok w' (U - {v}) \<and>
    take (nat (fp_retired_sz (cw_poller w'))) (fp_retired (cw_poller w')) =
      take (nat (fp_retired_sz (cw_poller w))) (fp_retired (cw_poller w)) @ [co_fd (kc_connects (cw_container w) ! v)]"
proof -
  have kok: "container_ok (cw_container w) U" and pok: "poller_ok (cw_poller w)" using ok by (simp_all add: worker_ok_def)
  have vn: "v < length (kc_connects (cw_container w))" and cap: "kc_capacity (cw_container w) = int (length (kc_connects (cw_container w)))"
    using kok v by (auto simp: container_ok_def Let_def)
  obtain p' where p': "close_fd (co_fd (kc_connects (cw_container w) ! v)) (cw_poller w) = Inr (p', 0)" "poller_ok p'"
      "take (nat (fp_retired_sz p')) (fp_retired p') =
        take (nat (fp_retired_sz (cw_poller w))) (fp_retired (cw_poller w)) @ [co_fd (kc_connects (cw_container w) ! v)]"
    using epoll.close_fd_ok [OF pok fd room] by blast
  obtain k' where k': "free_connect (int v) (cw_container w) = Inr k'" "container_ok k' (U - {v})"
    using free_connect_ok [OF kok v] by blast
  have "worker_close_connect (int v) hid w = Inr (w\<lparr>cw_poller := p', cw_container := k'\<rparr>)"
    using vn cap hid p'(1) k'(1) by (simp add: worker_close_connect_def container_get_connect_def)
  then show ?thesis using p' k' ok by (simp add: worker_ok_def)
qed

text \<open>C25: The life of a client connection in a worker. A new connection gets a slot nobody holds, is active with
  the handle, address and port it came with, and is registered with the poller under its own reactor. It is found
  under its slot and handle only: with any other handle the look-up fails and closing does nothing. Closing it
  with its handle gives the slot back and retires its descriptor.\<close>

theorem worker_connection_life:
  assumes ok: "worker_ok w U" and room: "card U < length (kc_connects (cw_container w))"
    and fd: "fd_ok (cw_poller w) fd" "pe_status (fp_entry (cw_poller w) ! nat fd) = FDS_EMPTY"
    and rt: "fp_retired_sz (cw_poller w) = 0"
  shows "\<exists>w1 v w2. new_connect (epoll_add_event ctl) fd hid ip port w = Inr (w1, Some v) \<and> v \<notin> U \<and> worker_ok w1 (insert v U) \<and>
    pe_status (fp_entry (cw_poller w1) ! nat fd) = FDS_ACTIVE \<and> pe_reactor (fp_entry (cw_poller w1) ! nat fd) = Some (R_conn v) \<and>
    co_peer_ip (kc_connects (cw_container w1) ! v) = ip \<and> co_peer_port (kc_connects (cw_container w1) ! v) = port \<and>
    co_status (kc_connects (cw_container w1) ! v) = CONN_ACTIVE \<and>
    worker_get_connect (int v) hid w1 = Some v \<and>
    (\<forall>hid'. hid' \<noteq> hid \<longrightarrow> worker_get_connect (int v) hid' w1 = None \<and> worker_close_connect (int v) hid' w1 = Inr w1) \<and>
    worker_close_connect (int v) hid w1 = Inr w2 \<and> worker_ok w2 U \<and>
    take (nat (fp_retired_sz (cw_poller w2))) (fp_retired (cw_poller w2)) = [fd]"
proof -
  have pok: "poller_ok (cw_poller w)" using ok by (simp add: worker_ok_def)
  have fd0: "0 \<le> fd" using fd(1) by (simp add: fd_ok_def)
  obtain w1 v p' r where n: "new_connect (epoll_add_event ctl) fd hid ip port w = Inr (w1, Some v)" "v \<notin> U" "worker_ok w1 (insert v U)"
    "v < length (kc_connects (cw_container w))" "length (kc_connects (cw_container w1)) = length (kc_connects (cw_container w))"
    and p: "add_fd (epoll_add_event ctl) fd (Some (R_conn v)) (cw_poller w) = Inr (p', r)" "cw_poller w1 = p'"
    and c: "co_fd (kc_connects (cw_container w1) ! v) = fd" "co_hid (kc_connects (cw_container w1) ! v) = hid"
    "co_peer_ip (kc_connects (cw_container w1) ! v) = ip" "co_peer_port (kc_connects (cw_container w1) ! v) = port"
    "co_status (kc_connects (cw_container w1) ! v) = CONN_ACTIVE"
    using new_connect_ok [OF ok room fd0, of ctl hid ip port] by blast
  have nf: "nat fd < length (fp_entry (cw_poller w))" by (rule fd_ok_nat [OF fd(1)])
  have a: "map pe_status (fp_entry p') = (map pe_status (fp_entry (cw_poller w)))[nat fd := FDS_ACTIVE]"
      "map pe_reactor (fp_entry p') = (map pe_reactor (fp_entry (cw_poller w)))[nat fd := Some (R_conn v)]"
      "fp_max_fds p' = fp_max_fds (cw_poller w)"
    using epoll.add_fd_ok [OF pok, of "Some (R_conn v)" ctl fd] fd p(1) by auto
  have len: "length (fp_entry p') = length (fp_entry (cw_poller w))" using arg_cong [OF a(1), of length] by simp
  have st: "pe_status (fp_entry p' ! nat fd) = FDS_ACTIVE" "pe_reactor (fp_entry p' ! nat fd) = Some (R_conn v)"
    using arg_cong [OF a(1), of "\<lambda>l. l ! nat fd"] arg_cong [OF a(2), of "\<lambda>l. l ! nat fd"] nf len by simp_all
  have rt1: "fp_retired_sz p' = 0"
    using p(1) fd pok rt by (auto simp: add_fd_def fd_out_iff entry_at_ok entry_upd_ok ax_res split: prod.splits
        dest!: epoll_add_retired)
  have cap: "kc_capacity (cw_container w1) = int (length (kc_connects (cw_container w1)))"
    using n(3) by (simp add: worker_ok_def container_ok_def Let_def)
  have get: "container_get_connect (int v) (cw_container w1) = Some v" using n(4,5) cap by (simp add: container_get_connect_def)
  have fd1: "fd_ok (cw_poller w1) fd" using fd(1) len p(2) by (simp add: fd_ok_def)
  have pos: "0 < sint (fp_max_fds p')" using a(3) poller_max [OF pok] nf by auto
  obtain w2 where w2: "worker_close_connect (int v) hid w1 = Inr w2" "worker_ok w2 (insert v U - {v})"
      "take (nat (fp_retired_sz (cw_poller w2))) (fp_retired (cw_poller w2)) = [fd]"
    using close_connect_ok [OF n(3), of v hid] c(1,2) fd1 rt1 pos p(2) by auto
  have "insert v U - {v} = U" using n(2) by auto
  then show ?thesis
    using n c st p(2) get w2
    by (intro exI [of _ w1] exI [of _ v] exI [of _ w2]) (simp add: worker_get_connect_def worker_close_connect_def)
qed

text \<open>A worker for the examples.\<close>

definition sim_wpoller :: "(unit, unit, int list) wpoller" where
  "sim_wpoller =
    \<lparr>fp_entry = replicate 8 \<lparr>pe_ev_mask = 0, pe_status = FDS_EMPTY, pe_reactor = None\<rparr>, fp_pending_new = hmap_new 10,
     fp_retired = replicate 8 0, fp_retired_sz = 0, fp_timer = timer_new 10 5 [0, 0, 0],
     fp_timetick = 10, fp_max_fds = 8, fp_tm_last = 0, fp_os = []\<rparr>"

lemma sim_wpoller_ok: "poller_ok sim_wpoller"
proof -
  let ?junk = "replicate 8 \<lparr>pe_ev_mask = 0, pe_status = FDS_EMPTY, pe_reactor = None\<rparr> :: worker_reactor poller_entry list"
  have l: "length ?junk = unat (8 :: u32)" "unat (8 :: u32) < 2 ^ 31" by simp_all
  have "poller_new 8 10 5 [0, 0, 0] ?junk [] = Inr sim_wpoller"
    using poller_new_eq [OF _ l, of 10 5 "[0, 0, 0]" "[]"] by (simp add: sim_wpoller_def)
  from poller_newD(1) [OF this l] show ?thesis .
qed

definition sim_worker :: "(unit, unit, int list) connect_worker" where
  "sim_worker = worker_new 3 1024 256 (\<lambda>_. (0, 0)) sim_wpoller"

lemma sim_worker_ok: "worker_ok sim_worker {}" "length (kc_connects (cw_container sim_worker)) = 3"
proof -
  have pre: "unat (3 :: u32) < 2 ^ 31" "0 < sint (1024 :: u32)" "0 < sint (256 :: u32)" by simp_all
  show "worker_ok sim_worker {}"
    using container_new_ok(1) [OF pre] sim_wpoller_ok by (simp add: worker_ok_def sim_worker_def worker_new_def)
  show "length (kc_connects (cw_container sim_worker)) = 3"
    using container_new_ok(2) [OF pre] by (simp add: sim_worker_def worker_new_def)
qed

theorem worker_connection_life_witness:
  "\<exists>w1 v w2. new_connect (epoll_add_event sim_ctl) 6 99 0x7F000001 80 sim_worker = Inr (w1, Some v) \<and>
     worker_get_connect (int v) 99 w1 = Some v \<and> worker_get_connect (int v) 98 w1 = None \<and>
     worker_close_connect (int v) 99 w1 = Inr w2"
proof -
  have "card {} < length (kc_connects (cw_container sim_worker))" using sim_worker_ok(2) by simp
  moreover have "fd_ok (cw_poller sim_worker) 6" "pe_status (fp_entry (cw_poller sim_worker) ! nat 6) = FDS_EMPTY"
      "fp_retired_sz (cw_poller sim_worker) = 0"
    by (simp_all add: sim_worker_def worker_new_def sim_wpoller_def fd_ok_def)
  ultimately obtain w1 v w2 where "new_connect (epoll_add_event sim_ctl) 6 99 0x7F000001 80 sim_worker = Inr (w1, Some v)"
      "worker_get_connect (int v) 99 w1 = Some v" "worker_close_connect (int v) 99 w1 = Inr w2"
      "\<forall>hid'. hid' \<noteq> 99 \<longrightarrow> worker_get_connect (int v) hid' w1 = None \<and> worker_close_connect (int v) hid' w1 = Inr w1"
    using worker_connection_life [OF sim_worker_ok(1), of 6 sim_ctl 99 "0x7F000001" 80] by blast
  then show ?thesis by (intro exI [of _ w1] exI [of _ v] exI [of _ w2]) simp
qed

text \<open>The handle stays in the slot after the connection is closed, so a stale pair of slot and handle still passes
  the identity check.\<close>

lemma link_hid [simp]:
  "co_hid (conn_set_prev p x cs ! i) = co_hid (cs ! i)"
  "co_hid (conn_set_next p x cs ! i) = co_hid (cs ! i)"
  by (cases p; simp add: conn_set_prev_def conn_set_next_def update_same)+

lemma closed_connection_found:
  assumes "worker_ok w U" and "worker_close_connect (int v) hid w = Inr w'" and "worker_get_connect (int v) hid w = Some v"
  shows "worker_get_connect (int v) hid w' = Some v"
proof -
  have v: "v < length (kc_connects (cw_container w))"
    using assms(1,3) by (auto simp: worker_ok_def container_ok_def Let_def worker_get_connect_def container_get_connect_def split: if_splits)
  obtain p where "free_connect (int v) (cw_container w) = Inr (cw_container w')"
    using assms(2,3) by (auto simp: worker_close_connect_def worker_get_connect_def ax_res split: option.splits if_splits)
  then have "kc_capacity (cw_container w') = kc_capacity (cw_container w)"
      "co_hid (kc_connects (cw_container w') ! v) = co_hid (kc_connects (cw_container w) ! v)"
    using v by (auto simp: free_connect_def Let_def ax_res dest!: sym [of _ "cw_container w'"])
  then show ?thesis using assms(3) by (simp add: worker_get_connect_def container_get_connect_def split: if_splits)
qed

text \<open>A short \<^verbatim>\<open>write\<close> in \<^verbatim>\<open>process_data\<close> loses the bytes it did not take.\<close>

lemma process_data_loses:
  assumes "co_rbuf (kc_connects (cw_container w) ! i) = Some rb" and "buffer_ok rb" and "buffer_content rb = map Some bs"
    and "i < length (kc_connects (cw_container w))"
  shows "\<exists>w' rb'. worker_process_data n i w = Inr (w', take n bs) \<and>
    co_rbuf (kc_connects (cw_container w') ! i) = Some rb' \<and> buffer_content rb' = []"
proof -
  have l: "unat (bf_len rb) = length bs" using length_buffer_content [OF assms(2)] assms(3) by simp
  have d: "data_bytes rb (unat (bf_len rb)) = Inr bs" using data_bytes_ok [OF assms(2), of bs "[]"] assms(3) l by simp
  obtain rb' r where "buffer_pop (bf_len rb) rb = Inr (rb', r)" "buffer_content rb' = []"
    using buffer_pop_ok [OF assms(2), of "bf_len rb"] assms(3) l by auto
  then show ?thesis using assms(1,4) d by (simp add: worker_process_data_def Let_def)
qed

end
