(* ===== verification/Client_Mgr.thy ===== *)
theory Client_Mgr
  imports Connect_Worker Ax_Hashmap "HOL-Library.Signed_Division"
begin

text \<open>
  The main thread of the client gateway: \<^verbatim>\<open>ClientMgr\<close> of \<^verbatim>\<open>src/cgate_mt/client_mgr.h\<close> and \<^verbatim>\<open>client_mgr.cc\<close>. It
  owns the main poller, the listener, the table of handles and side 0 of the mailbox of every worker. The event
  requests \<open>ae\<close> and \<open>de\<close> of the poller's driver and what the system calls answered are arguments; a null
  \<^verbatim>\<open>workers_\<close> is the empty array.
\<close>

section \<open>Data\<close>

definition WRK_NULL :: u8 where "WRK_NULL = 0"
definition WRK_START :: u8 where "WRK_START = 1"
definition WRK_ACTIVE :: u8 where "WRK_ACTIVE = 2"

lemmas wrk_defs = WRK_NULL_def WRK_START_def WRK_ACTIVE_def

record worker_init_t =
  wi_idx :: int
  wi_max_conn :: u32

record thread_worker =
  tw_active_conn :: int
  tw_max_conn :: int
  tw_status :: u8
  tw_mailbox :: tpipe
  tw_info :: worker_init_t

datatype mgr_reactor = M_mailbox nat | M_listener

type_synonym ('c, 'd, 'k) mpoller = "(mgr_reactor, 'c, 'd, 'k) fd_poller"

record ('c, 'd, 'k, 'v) client_mgr =
  cm_worker_num :: int
  cm_inited :: int
  cm_hid :: u32
  cm_workers :: "thread_worker list"
  cm_poller :: "('c, 'd, 'k) mpoller"
  cm_listener :: "listener option"
  cm_active_hids :: "(u32, 'v) hmap_t option"

type_synonym ('c, 'd, 'k) ev_request =
  "int \<Rightarrow> u32 \<Rightarrow> ('c, 'd, 'k) mpoller \<Rightarrow> (('c, 'd, 'k) mpoller \<times> int) res"

section \<open>Operations\<close>

text \<open>An access to \<^verbatim>\<open>workers_[i]\<close>.\<close>

definition worker_at :: "int \<Rightarrow> ('c, 'd, 'k, 'v) client_mgr \<Rightarrow> thread_worker res" where
  "worker_at i m = (if 0 \<le> i \<and> nat i < length (cm_workers m) then Inr (cm_workers m ! nat i) else Inl Mem_error)"

definition worker_set :: "int \<Rightarrow> thread_worker \<Rightarrow> ('c, 'd, 'k, 'v) client_mgr \<Rightarrow> ('c, 'd, 'k, 'v) client_mgr" where
  "worker_set i w m = m\<lparr>cm_workers := (cm_workers m)[nat i := w]\<rparr>"

text \<open>The constructor; it leaves \<^verbatim>\<open>worker_num_\<close> as it was.\<close>

definition client_mgr_new :: "int \<Rightarrow> ('c, 'd, 'k) mpoller \<Rightarrow> ('c, 'd, 'k, 'v) client_mgr" where
  "client_mgr_new junk poller =
     \<lparr>cm_worker_num = junk, cm_inited = 0, cm_hid = 1, cm_workers = [], cm_poller = poller, cm_listener = None,
      cm_active_hids = None\<rparr>"

text \<open>\<^verbatim>\<open>new thread_worker_t[n]\<close>: every mailbox is constructed with the answer of its \<^verbatim>\<open>socketpair\<close>, the other
  members keep what the memory held.\<close>

fun new_workers :: "(nat \<Rightarrow> (int \<times> int) option) \<Rightarrow> (nat \<Rightarrow> thread_worker) \<Rightarrow> nat list \<Rightarrow> thread_worker list res" where
  "new_workers svs junk [] = Inr []"
| "new_workers svs junk (i # is) =
     rbind (tpipe_new (svs i)) (\<lambda>mb.
     rbind (new_workers svs junk is) (\<lambda>ws. Inr ((junk i)\<lparr>tw_mailbox := mb\<rparr> # ws)))"

text \<open>\<^verbatim>\<open>init\<close>; \<open>max_connect\<close> is \<^verbatim>\<open>NodeConf::max_connect\<close>, \<open>sock\<close> and \<open>opt\<close> are the answers \<^verbatim>\<open>Listener::init\<close>
  gets.\<close>

definition client_mgr_init :: "int \<Rightarrow> int \<Rightarrow> bool \<Rightarrow> (nat \<Rightarrow> (int \<times> int) option) \<Rightarrow> (nat \<Rightarrow> thread_worker) \<Rightarrow>
    u16 \<Rightarrow> u16 \<Rightarrow> int \<Rightarrow> ('c, 'd, 'k, 'v) client_mgr \<Rightarrow> ('c, 'd, 'k, 'v) client_mgr res" where
  "client_mgr_init max_connect sock opt svs junk client_port backlog worker_num m =
     rbind (c_int (max_connect * 2)) (\<lambda>twice.
      let hids = hmap_new (word_of_int (twice sdiv 3)) in
      rbind (listener_init True client_port (int (unat backlog)) sock opt listener_new) (\<lambda>(ls, _).
      rbind (rt_assert (worker_num > 0)) (\<lambda>_.
      let worker_num = (if worker_num > 32 then 32 else worker_num) in
      rbind (new_workers svs junk [0..<nat worker_num]) (\<lambda>ws.
        Inr (m\<lparr>cm_active_hids := Some hids, cm_listener := Some ls, cm_worker_num := worker_num,
          cm_workers := ws, cm_inited := 1\<rparr>)))))"

text \<open>\<^verbatim>\<open>notify_workers\<close> only looks at the status of every worker.\<close>

fun notify_loop :: "int list \<Rightarrow> ('c, 'd, 'k, 'v) client_mgr \<Rightarrow> unit res" where
  "notify_loop [] m = Inr ()"
| "notify_loop (i # is) m = rbind (worker_at i m) (\<lambda>w. if tw_status w < 1 then notify_loop is m else notify_loop is m)"

definition notify_workers :: "('c, 'd, 'k, 'v) client_mgr \<Rightarrow> int res" where
  "notify_workers m = rbind (notify_loop [0..cm_worker_num m - 1] m) (\<lambda>_. Inr 0)"

text \<open>One round of \<^verbatim>\<open>start_worker\<close>; \<open>started\<close> is what \<^verbatim>\<open>pthread_create\<close> answered.\<close>

definition start_one :: "('c, 'd, 'k) ev_request \<Rightarrow> int \<Rightarrow> int \<Rightarrow> int \<Rightarrow> ('c, 'd, 'k, 'v) client_mgr \<Rightarrow> ('c, 'd, 'k, 'v) client_mgr res" where
  "start_one ae max_connect started i m =
     rbind (worker_at i m) (\<lambda>w.
     rbind (tpipe_init (\<lambda>fd. add_fd ae fd (Some (M_mailbox (nat i)))) 0 True True (tw_mailbox w, cm_poller m)) (\<lambda>(mb, p).
     rbind (if cm_worker_num m = 0 then Inl Div_zero else c_int (max_connect sdiv cm_worker_num m)) (\<lambda>share.
     rbind (c_int (share + 100)) (\<lambda>mx.
     let w = w\<lparr>tw_mailbox := mb, tw_status := WRK_NULL, tw_active_conn := 0, tw_max_conn := mx,
               tw_info := \<lparr>wi_idx = i, wi_max_conn = word_of_int mx\<rparr>\<rparr>;
         w = (if started = 0 then w\<lparr>tw_status := WRK_START\<rparr> else w) in
     Inr (worker_set i w (m\<lparr>cm_poller := p\<rparr>))))))"

fun start_loop :: "('c, 'd, 'k) ev_request \<Rightarrow> int \<Rightarrow> (int \<Rightarrow> int) \<Rightarrow> int list \<Rightarrow> ('c, 'd, 'k, 'v) client_mgr \<Rightarrow> ('c, 'd, 'k, 'v) client_mgr res" where
  "start_loop ae max_connect started [] m = Inr m"
| "start_loop ae max_connect started (i # is) m =
     rbind (start_one ae max_connect (started i) i m) (start_loop ae max_connect started is)"

definition start_worker :: "('c, 'd, 'k) ev_request \<Rightarrow> int \<Rightarrow> (int \<Rightarrow> int) \<Rightarrow> ('c, 'd, 'k, 'v) client_mgr \<Rightarrow>
    (('c, 'd, 'k, 'v) client_mgr \<times> int) res" where
  "start_worker ae max_connect started m =
     (if cm_inited m = 0 then Inr (m, AX_RET_ERROR)
      else rbind (start_loop ae max_connect started [0..cm_worker_num m - 1] m) (\<lambda>m. Inr (m, 0)))"

text \<open>\<^verbatim>\<open>listen\<close>; \<open>bound\<close> is whether \<^verbatim>\<open>bind\<close> succeeded.\<close>

definition mgr_listen :: "('c, 'd, 'k) ev_request \<Rightarrow> bool \<Rightarrow> ('c, 'd, 'k, 'v) client_mgr \<Rightarrow> (('c, 'd, 'k, 'v) client_mgr \<times> int) res" where
  "mgr_listen ae bound m =
     (if cm_inited m = 0 then Inr (m, AX_RET_ERROR)
      else
        rbind (deref (cm_listener m)) (\<lambda>ls.
        rbind (listener_listen (\<lambda>fd. add_fd ae fd (Some M_listener)) bound ls (cm_poller m)) (\<lambda>(ls, p, ret).
        let m = m\<lparr>cm_listener := Some ls, cm_poller := p\<rparr> in
        if ret = AX_RET_ERROR then Inr (m, AX_RET_ERROR) else Inr (m, AX_RET_OK))))"

text \<open>The loop of \<^verbatim>\<open>process_worker_command\<close> that asks whether every worker is active.\<close>

fun all_active :: "int list \<Rightarrow> ('c, 'd, 'k, 'v) client_mgr \<Rightarrow> bool res" where
  "all_active [] m = Inr True"
| "all_active (i # is) m = rbind (worker_at i m) (\<lambda>w. if tw_status w \<noteq> WRK_ACTIVE then Inr False else all_active is m)"

definition mgr_process_worker_command :: "('c, 'd, 'k) ev_request \<Rightarrow> bool \<Rightarrow> block option \<Rightarrow> u32 \<Rightarrow> ('c, 'd, 'k, 'v) client_mgr \<Rightarrow>
    ('c, 'd, 'k, 'v) client_mgr res" where
  "mgr_process_worker_command ae bound p remain m =
     rbind (pb_worker_notify_unpack p remain pb_worker_notify_init) (\<lambda>(pkt, ret).
     if ret < 0 then Inr m
     else if wn_cmd pkt = WORKER_START_OK then
       rbind (worker_at (sint (wn_lparam pkt)) m) (\<lambda>w.
       let m = worker_set (sint (wn_lparam pkt)) (w\<lparr>tw_status := WRK_ACTIVE\<rparr>) m in
       rbind (all_active [0..cm_worker_num m - 1] m) (\<lambda>ready.
       if \<not> ready then Inr m else rbind (mgr_listen ae bound m) (\<lambda>(m, _). Inr m)))
     else Inr m)"

definition send_worker_ctrl :: "('c, 'd, 'k) ev_request \<Rightarrow> u16 \<Rightarrow> int \<Rightarrow> int \<times> (block option \<Rightarrow> u32 \<Rightarrow> (block option \<times> int) res) \<Rightarrow>
    nat io_result \<Rightarrow> ('c, 'd, 'k, 'v) client_mgr \<Rightarrow> ('c, 'd, 'k, 'v) client_mgr res" where
  "send_worker_ctrl de cmd idx msg ans m =
     (let ctrl = pb_cgate_ctrl_init\<lparr>ct_cmd := cmd\<rparr> in
      rbind (rt_assert (idx \<ge> 0 \<and> idx < cm_worker_num m)) (\<lambda>_.
      rbind (worker_at idx m) (\<lambda>w.
      rbind (tpipe_write de (wait_close de) 0 (sint PT_CGATE_CTRL) (pb_cgate_ctrl_cal_size ctrl, pb_cgate_ctrl_pack ctrl)
               msg ans (tw_mailbox w, cm_poller m)) (\<lambda>((mb, p), _).
        Inr (worker_set idx (w\<lparr>tw_mailbox := mb\<rparr>) (m\<lparr>cm_poller := p\<rparr>))))))"

definition process_conn_notify :: "('c, 'd, 'k) ev_request \<Rightarrow> nat io_result \<Rightarrow> block option \<Rightarrow> u32 \<Rightarrow> ('c, 'd, 'k, 'v) client_mgr \<Rightarrow>
    ('c, 'd, 'k, 'v) client_mgr res" where
  "process_conn_notify de ans p remain m =
     rbind (pb_conn_notify_unpack p remain pb_conn_notify_init) (\<lambda>(pkt, ret).
     if ret < 0 then Inr m
     else if cn_action pkt = PEER_CLOSE then
       let resp = pb_conn_ctrl_init\<lparr>cc_fd := cn_fd pkt, cc_hid := cn_hid pkt, cc_action := DO_CLOSE\<rparr>;
           idx = sint (THR_IDX_FROM_HID (cn_hid pkt)) in
       send_worker_ctrl de PT_CONN_CTRL idx (pb_conn_ctrl_cal_size resp, pb_conn_ctrl_pack resp) ans m
     else Inr m)"

text \<open>The callback of the mailboxes.\<close>

definition mgr_on_mailbox_read :: "('c, 'd, 'k) ev_request \<Rightarrow> ('c, 'd, 'k) ev_request \<Rightarrow> bool \<Rightarrow> nat io_result \<Rightarrow> msg_header_t \<Rightarrow>
    block \<Rightarrow> ('c, 'd, 'k, 'v) client_mgr \<Rightarrow> ('c, 'd, 'k, 'v) client_mgr res" where
  "mgr_on_mailbox_read ae de bound ans header p m =
     (let remain = ucast (mh_pl_len header) in
      if mh_proto header = PT_CGATE_CTRL then
        rbind (pb_cgate_ctrl_unpack (Some p) remain pb_cgate_ctrl_init) (\<lambda>(ctrl, ret).
        if ret < 0 then Inr m
        else if ct_cmd ctrl = PT_WORKER_NOTIFY then
          mgr_process_worker_command ae bound (Some (drop (nat ret) p)) (remain - word_of_int ret) m
        else if ct_cmd ctrl = PT_CONN_NOTIFY then
          process_conn_notify de ans (Some (drop (nat ret) p)) (remain - word_of_int ret) m
        else Inr m)
      else if mh_proto header = PT_CLIENT_REQ then
        rbind (pb_client_req_unpack (Some p) remain pb_client_req_init) (\<lambda>_. Inr m)
      else Inr m)"

text \<open>The loop that looks for the worker with the least load: it compares with \<^verbatim>\<open>workers_[1]\<close> in every round.\<close>

fun select_loop :: "int list \<Rightarrow> int \<Rightarrow> int \<Rightarrow> ('c, 'd, 'k, 'v) client_mgr \<Rightarrow> int res" where
  "select_loop [] load select m = Inr select"
| "select_loop (i # is) load select m =
     rbind (worker_at 1 m) (\<lambda>w.
     if load > tw_active_conn w then select_loop is (tw_active_conn w) i m else select_loop is load select m)"

definition on_accept_new_connect :: "('c, 'd, 'k) ev_request \<Rightarrow> nat io_result \<Rightarrow> int \<Rightarrow> u64 \<Rightarrow> u16 \<Rightarrow> ('c, 'd, 'k, 'v) client_mgr \<Rightarrow>
    (('c, 'd, 'k, 'v) client_mgr \<times> int) res" where
  "on_accept_new_connect de ans sockfd ip port m =
     rbind (rt_assert (cm_inited m \<noteq> 0)) (\<lambda>_.
     let hid = (cm_hid m + 1) AND NOT (push_bit HID_THR_BITS HID_THR_MASK); m = m\<lparr>cm_hid := hid\<rparr> in
     rbind (worker_at 0 m) (\<lambda>w0.
     rbind (select_loop [1..cm_worker_num m - 1] (tw_active_conn w0) 0 m) (\<lambda>select.
     rbind (worker_at select m) (\<lambda>w.
     let conn = pb_cgate_newconn_init\<lparr>nc_fd := word_of_int sockfd, nc_hid := push_bit HID_THR_BITS (word_of_int select) OR hid,
                  nc_ip := ip, nc_port := port\<rparr>;
         ctrl = pb_cgate_ctrl_init\<lparr>ct_cmd := PT_CGATE_NEWCONN\<rparr> in
     rbind (tpipe_write de (wait_close de) 0 (sint PT_CGATE_CTRL) (pb_cgate_ctrl_cal_size ctrl, pb_cgate_ctrl_pack ctrl)
              (pb_cgate_newconn_cal_size conn, pb_cgate_newconn_pack conn) ans (tw_mailbox w, cm_poller m)) (\<lambda>((mb, p), _).
       Inr (worker_set select (w\<lparr>tw_mailbox := mb\<rparr>) (m\<lparr>cm_poller := p\<rparr>), AX_RET_OK))))))"

text \<open>The loop of \<^verbatim>\<open>on_listen_read\<close>: for each call, what \<^verbatim>\<open>accept\<close> answered (the descriptor, and the address and
  port in the order the code hands them on) and what the \<^verbatim>\<open>write\<close> to the mailbox will answer. After the last
  answer the call would block.\<close>

fun accept_loop :: "('c, 'd, 'k) ev_request \<Rightarrow> nat \<Rightarrow> (int \<times> u64 \<times> u16 \<times> nat io_result) list \<Rightarrow> ('c, 'd, 'k, 'v) client_mgr \<Rightarrow>
    ('c, 'd, 'k, 'v) client_mgr res" where
  "accept_loop de accept_once [] m = Inr m"
| "accept_loop de accept_once ((client_fd, ip, port, ans) # as) m =
     (if accept_once < 100 then
        if client_fd < 0 then Inr m
        else rbind (on_accept_new_connect de ans client_fd ip port m) (\<lambda>(m, _). accept_loop de (accept_once + 1) as m)
      else Inr m)"

definition on_listen_read :: "('c, 'd, 'k) ev_request \<Rightarrow> (int \<times> u64 \<times> u16 \<times> nat io_result) list \<Rightarrow> ('c, 'd, 'k, 'v) client_mgr \<Rightarrow>
    ('c, 'd, 'k, 'v) client_mgr res" where
  "on_listen_read de accs m = accept_loop de 0 accs m"

text \<open>\<^verbatim>\<open>process\<close> after its loop over \<^verbatim>\<open>main_poller_->process()\<close>: the threads are joined.\<close>

definition stop_one :: "thread_worker \<Rightarrow> thread_worker" where
  "stop_one w = (if tw_status w \<noteq> WRK_NULL then w\<lparr>tw_status := WRK_NULL\<rparr> else w)"

fun stop_loop :: "int list \<Rightarrow> ('c, 'd, 'k, 'v) client_mgr \<Rightarrow> ('c, 'd, 'k, 'v) client_mgr res" where
  "stop_loop [] m = Inr m"
| "stop_loop (i # is) m = rbind (worker_at i m) (\<lambda>w. stop_loop is (worker_set i (stop_one w) m))"

definition stop_workers :: "('c, 'd, 'k, 'v) client_mgr \<Rightarrow> (('c, 'd, 'k, 'v) client_mgr \<times> int) res" where
  "stop_workers m = rbind (stop_loop [0..cm_worker_num m - 1] m) (\<lambda>m. Inr (m, AX_RET_OK))"

definition on_peer_close :: "int \<Rightarrow> u32 \<Rightarrow> ('c, 'd, 'k, 'v) client_mgr \<Rightarrow> ('c, 'd, 'k, 'v) client_mgr res" where
  "on_peer_close fd hid m =
     rbind (deref (cm_active_hids m)) (\<lambda>h.
     rbind (hmap_remove_get do_hash_uint hid h) (\<lambda>(h, _). Inr (m\<lparr>cm_active_hids := Some h\<rparr>)))"

definition mgr_close_connect :: "u32 \<Rightarrow> ('c, 'd, 'k, 'v) client_mgr \<Rightarrow> ('c, 'd, 'k, 'v) client_mgr \<times> int" where
  "mgr_close_connect hid m = (let vfd = THR_IDX_FROM_HID hid in (m, AX_RET_OK))"

section \<open>Handles\<close>

lemma thr_idx_of_handle:
  assumes "0 \<le> s" and "s < 64" and "h < 2 ^ 26"
  shows "THR_IDX_FROM_HID (push_bit HID_THR_BITS (word_of_int s) OR h) = word_of_int s"
proof (rule bit_word_eqI)
  fix n assume n: "n < LENGTH(32)"
  have hb: "\<not> bit h k" if "26 \<le> k" for k
  proof -
    have "take_bit 26 h = h" using assms(3)
      by (simp add: word_unat_eq_iff unsigned_take_bit_eq take_bit_nat_eq_self_iff word_less_nat_alt)
    then show ?thesis using that bit_take_bit_iff [of 26 h k] by (metis leD)
  qed
  have sb: "\<not> bit s k" if "6 \<le> k" for k
  proof -
    have "take_bit 6 s = s" using assms(1,2) by (simp add: take_bit_int_eq_self)
    then show ?thesis using that bit_take_bit_iff [of 6 s k] by (metis leD)
  qed
  have m: "HID_THR_MASK = mask 6" by (simp add: HID_THR_MASK_def mask_eq_exp_minus_1)
  show "bit (THR_IDX_FROM_HID (push_bit HID_THR_BITS (word_of_int s) OR h)) n = bit (word_of_int s :: u32) n"
    using n hb [of "26 + n"] hb [of 31] sb [of n]
    by (auto simp: THR_IDX_FROM_HID_def m HID_THR_BITS_def bit_simps)
qed

lemma hid_take_bit: "(h AND NOT (push_bit HID_THR_BITS HID_THR_MASK)) = take_bit 26 h"
proof (rule bit_word_eqI)
  fix n assume "n < LENGTH(32)"
  then have "bit (push_bit HID_THR_BITS HID_THR_MASK :: u32) n \<longleftrightarrow> 26 \<le> n"
    by (auto simp: HID_THR_MASK_def HID_THR_BITS_def bit_simps numeral_eq_Suc less_Suc_eq)
  then show "bit (h AND NOT (push_bit HID_THR_BITS HID_THR_MASK)) n = bit (take_bit 26 h) n"
    using \<open>n < LENGTH(32)\<close> by (auto simp: bit_simps)
qed

lemma hid_masked: "(h AND NOT (push_bit HID_THR_BITS HID_THR_MASK)) < 2 ^ 26"
  unfolding hid_take_bit using word_mod_less_divisor [of "2 ^ 26" h] by (simp add: take_bit_eq_mod)

section \<open>Accepting\<close>

text \<open>A mailbox the manager may write to; \<open>old\<close> is what its write buffer still holds, \<open>sz\<close> bounds its size.\<close>

definition mailbox_ok :: "tpipe \<Rightarrow> u8 list \<Rightarrow> nat \<Rightarrow> bool" where
  "mailbox_ok mb old sz \<longleftrightarrow> length mb = 2 \<and> pi_poller (mb ! 0) \<and> buffer_ok (pi_wbuf (mb ! 0)) \<and>
     buffer_content (pi_wbuf (mb ! 0)) = map Some old \<and> buffer_size (pi_wbuf (mb ! 0)) \<le> sz"

lemma select_range:
  "select_loop is load s m = Inr s' \<Longrightarrow> s' = s \<or> s' \<in> set is"
  by (induction "is" load s m rule: select_loop.induct) (auto simp: ax_res split: if_splits)

lemma select_first:
  "tw_active_conn (cm_workers m ! 1) \<ge> load \<Longrightarrow> (is \<noteq> [] \<Longrightarrow> 1 < length (cm_workers m)) \<Longrightarrow>
     select_loop is load s m = Inr s"
  by (induction "is") (auto simp: worker_at_def)

lemma worker_set_nth:
  "i < length (cm_workers m) \<Longrightarrow> cm_workers (worker_set (int i) w m) = (cm_workers m)[i := w]"
  by (simp add: worker_set_def)

text \<open>The message a new connection is announced with.\<close>

definition newconn_msg :: "int \<Rightarrow> u32 \<Rightarrow> u64 \<Rightarrow> u16 \<Rightarrow> msg_header_t \<times> u8 list" where
  "newconn_msg fd hid ip port = (\<lparr>mh_proto = 1, mh_pl_len = 20\<rparr>,
     pb_cgate_ctrl_bytes \<lparr>ct_cmd = 1\<rparr> @
     pb_cgate_newconn_bytes \<lparr>nc_fd = word_of_int fd, nc_hid = hid, nc_ip = ip, nc_port = port\<rparr>)"

lemma newconn_msg_plain: "msg_plain (newconn_msg fd hid ip port)"
  by (simp add: newconn_msg_def msg_plain_def pb_cgate_ctrl_bytes_def pb_cgate_newconn_bytes_def bit_numeral_rec)

lemma init_fields:
  "pb_cgate_newconn_init\<lparr>nc_fd := a, nc_hid := b, nc_ip := c, nc_port := d\<rparr> = \<lparr>nc_fd = a, nc_hid = b, nc_ip = c, nc_port = d\<rparr>"
  "pb_cgate_ctrl_init\<lparr>ct_cmd := e\<rparr> = \<lparr>ct_cmd = e\<rparr>"
  by (simp_all add: pb_cgate_newconn_init_def pb_cgate_ctrl_init_def)

text \<open>An accepted connection is announced behind what the mailbox of the selected worker holds.\<close>

lemma accept_at:
  assumes "cm_inited m \<noteq> 0" and "worker_at 0 m = Inr w0" and "0 \<le> s" and "nat s < length (cm_workers m)" and "w = cm_workers m ! nat s"
    and hid: "hid = (cm_hid m + 1) AND NOT (push_bit HID_THR_BITS HID_THR_MASK)"
    and sel: "select_loop [1..cm_worker_num m - 1] (tw_active_conn w0) 0 (m\<lparr>cm_hid := hid\<rparr>) = Inr s"
    and mb0: "mailbox_ok (tw_mailbox w) old sz" and sz: "sz + 200 < 2 ^ 32"
    and h: "h = push_bit HID_THR_BITS (word_of_int s) OR hid"
  shows "\<exists>mb'. on_accept_new_connect de (Io_ok n) fd ip port m =
      Inr (m\<lparr>cm_hid := hid, cm_workers := (cm_workers m)[nat s := w\<lparr>tw_mailbox := mb'\<rparr>]\<rparr>, AX_RET_OK) \<and>
    mailbox_ok mb' (old @ msg_bytes (newconn_msg fd h ip port)) (sz + 200)"
proof -
  let ?m = "m\<lparr>cm_hid := hid\<rparr>"
  define conn where "conn = \<lparr>nc_fd = word_of_int fd, nc_hid = h, nc_ip = ip, nc_port = port\<rparr>"
  have w0: "worker_at 0 ?m = Inr w0" "worker_at s ?m = Inr w" using assms(2-5) by (auto simp: worker_at_def split: if_splits)
  have pc: "packs_as (pb_cgate_ctrl_cal_size \<lparr>ct_cmd = PT_CGATE_NEWCONN\<rparr>, pb_cgate_ctrl_pack \<lparr>ct_cmd = PT_CGATE_NEWCONN\<rparr>)
      (pb_cgate_ctrl_bytes \<lparr>ct_cmd = PT_CGATE_NEWCONN\<rparr>)"
    by (rule cgate_ctrl.packs_as) (simp add: pb_cgate_ctrl_bytes_def)
  have pn: "packs_as (pb_cgate_newconn_cal_size conn, pb_cgate_newconn_pack conn) (pb_cgate_newconn_bytes conn)"
    by (rule cgate_newconn.packs_as) (simp add: pb_cgate_newconn_bytes_def)
  have l: "length (pb_cgate_ctrl_bytes \<lparr>ct_cmd = PT_CGATE_NEWCONN\<rparr>) = 2" "length (pb_cgate_newconn_bytes conn) = 18"
    by (simp_all add: pb_cgate_ctrl_bytes_def pb_cgate_newconn_bytes_def)
  have mb: "side_ok 0" "length (tw_mailbox w) = 2" "pi_poller (tw_mailbox w ! nat 0)" "buffer_ok (pi_wbuf (tw_mailbox w ! nat 0))"
      "buffer_content (pi_wbuf (tw_mailbox w ! nat 0)) = map Some old"
      "buffer_size (pi_wbuf (tw_mailbox w ! nat 0)) + length (pb_cgate_ctrl_bytes \<lparr>ct_cmd = PT_CGATE_NEWCONN\<rparr>) +
         length (pb_cgate_newconn_bytes conn) + 132 < 2 ^ 32"
    using mb0 sz by (simp_all add: mailbox_ok_def side_ok_def l)
  have msg: "(\<lparr>mh_proto = word_of_int (sint PT_CGATE_CTRL), mh_pl_len = word_of_int (pb_cgate_ctrl_cal_size \<lparr>ct_cmd = PT_CGATE_NEWCONN\<rparr> +
        pb_cgate_newconn_cal_size conn)\<rparr>,
      pb_cgate_ctrl_bytes \<lparr>ct_cmd = PT_CGATE_NEWCONN\<rparr> @ pb_cgate_newconn_bytes conn) = newconn_msg fd h ip port"
    by (simp add: newconn_msg_def conn_def pt_defs pb_cgate_ctrl_cal_size_def pb_cgate_newconn_cal_size_def)
  obtain b' where b': "tpipe_write de (wait_close de) 0 (sint PT_CGATE_CTRL)
      (pb_cgate_ctrl_cal_size \<lparr>ct_cmd = PT_CGATE_NEWCONN\<rparr>, pb_cgate_ctrl_pack \<lparr>ct_cmd = PT_CGATE_NEWCONN\<rparr>)
      (pb_cgate_newconn_cal_size conn, pb_cgate_newconn_pack conn) (Io_ok n) (tw_mailbox w, cm_poller m) =
      Inr (((tw_mailbox w)[nat 0 := (tw_mailbox w ! nat 0)\<lparr>pi_wbuf := b'\<rparr>], cm_poller m), 0,
        take n (old @ msg_bytes (newconn_msg fd h ip port)))"
      "buffer_ok b'" "buffer_content b' = map Some (old @ msg_bytes (newconn_msg fd h ip port))"
      "buffer_size b' \<le> buffer_size (pi_wbuf (tw_mailbox w ! nat 0)) + length (pb_cgate_ctrl_bytes \<lparr>ct_cmd = PT_CGATE_NEWCONN\<rparr>) +
         length (pb_cgate_newconn_bytes conn) + 132"
    using tpipe_write_ok [OF pc pn mb, of de "wait_close de" "sint PT_CGATE_CTRL" n "cm_poller m", unfolded msg] by blast
  define mb' where "mb' = (tw_mailbox w)[0 := (tw_mailbox w ! 0)\<lparr>pi_wbuf := b'\<rparr>]"
  have "mailbox_ok mb' (old @ msg_bytes (newconn_msg fd h ip port)) (sz + 200)"
    using mb0 b'(2-4) by (simp add: mailbox_ok_def mb'_def l)
  moreover have "on_accept_new_connect de (Io_ok n) fd ip port m =
      Inr (m\<lparr>cm_hid := hid, cm_workers := (cm_workers m)[nat s := w\<lparr>tw_mailbox := mb'\<rparr>]\<rparr>, AX_RET_OK)"
    using assms(1) w0 sel b'(1) hid [symmetric] h [symmetric]
    by (simp add: on_accept_new_connect_def Let_def init_fields conn_def worker_set_def mb'_def)
  ultimately show ?thesis by blast
qed

text \<open>What the worker does with that message.\<close>

lemma newconn_msg_read:
  assumes "0 \<le> fd" and "fd < 2 ^ 31"
  shows "worker_on_mailbox_read ae (fst (newconn_msg fd hid ip port)) (map Some (snd (newconn_msg fd hid ip port))) w =
    rbind (new_connect ae fd hid (decoded_ip ip) port w) (\<lambda>(w, _). Inr w)"
proof -
  define conn where "conn = \<lparr>nc_fd = word_of_int fd, nc_hid = hid, nc_ip = ip, nc_port = port\<rparr>"
  let ?cb = "pb_cgate_ctrl_bytes \<lparr>ct_cmd = 1\<rparr>" and ?nb = "pb_cgate_newconn_bytes conn"
  have c: "pb_cgate_ctrl_unpack (Some (map Some ?cb @ map Some ?nb)) 20 pb_cgate_ctrl_init = Inr (\<lparr>ct_cmd = 1\<rparr>, 2)"
    using cgate_ctrl.unpack_law [of "\<lparr>ct_cmd = 1\<rparr>" 20 "map Some ?nb" pb_cgate_ctrl_init]
    by (simp add: pb_cgate_ctrl_bytes_def pb_cgate_ctrl_cal_size_def)
  have n: "pb_cgate_newconn_unpack (Some (map Some ?nb)) 18 pb_cgate_newconn_init = Inr (conn\<lparr>nc_ip := decoded_ip ip\<rparr>, 18)"
    using newconn_unpack_any [of 18 conn "[]" pb_cgate_newconn_init] by (simp add: conn_def)
  have l: "length ?cb = 2" by (simp add: pb_cgate_ctrl_bytes_def)
  have fd: "sint (word_of_int fd :: u32) = fd" using assms(1,2) by (intro sint_int_of) simp_all
  show ?thesis using c n l fd
    by (simp add: worker_on_mailbox_read_def newconn_msg_def conn_def [symmetric] pt_defs Let_def)
       (simp add: conn_def)
qed

section \<open>Starting\<close>

text \<open>The manager after \<^verbatim>\<open>init\<close>, with the condition \<open>P\<close> on every worker.\<close>

definition mgr_base :: "listener \<Rightarrow> (nat \<Rightarrow> thread_worker \<Rightarrow> bool) \<Rightarrow> ('c, 'd, 'k, 'v) client_mgr \<Rightarrow> bool" where
  "mgr_base ls P m \<longleftrightarrow> cm_inited m = 1 \<and> cm_worker_num m = int (length (cm_workers m)) \<and> 0 < length (cm_workers m) \<and>
     length (cm_workers m) \<le> 32 \<and> cm_listener m = Some ls \<and> poller_ok (cm_poller m) \<and>
     (\<forall>i < length (cm_workers m). P i (cm_workers m ! i))"

definition fresh_worker :: "thread_worker \<Rightarrow> bool" where
  "fresh_worker w \<longleftrightarrow> (\<exists>sv. tpipe_new (Some sv) = Inr (tw_mailbox w))"

definition started_worker :: "thread_worker \<Rightarrow> bool" where
  "started_worker w \<longleftrightarrow> tw_status w = WRK_START \<and> tw_active_conn w = 0 \<and> mailbox_ok (tw_mailbox w) [] (unat init_buf_size)"

definition listener_ready :: "listener \<Rightarrow> bool" where
  "listener_ready ls \<longleftrightarrow> ls_port ls \<noteq> 0 \<and> 0 \<le> ls_fd ls \<and> 1 \<le> ls_backlog ls \<and> ls_mgr ls"

lemma new_workers_ok:
  assumes "\<forall>i. svs i \<noteq> None"
  shows "\<exists>ws. new_workers svs junk is = Inr ws \<and> length ws = length is \<and> (\<forall>w \<in> set ws. fresh_worker w)"
proof (induction "is")
  case (Cons i "is")
  obtain sv where "svs i = Some sv" using assms by (meson not_None_eq)
  moreover obtain mb where "tpipe_new (Some sv) = Inr mb" by (cases sv) (simp add: tpipe_new_def)
  moreover from this have "fresh_worker ((junk i)\<lparr>tw_mailbox := mb\<rparr>)"
    unfolding fresh_worker_def by (intro exI [of _ sv]) simp
  ultimately show ?case using Cons by auto
qed simp

lemma init_ok:
  assumes "\<forall>i. svs i \<noteq> None" and "client_port > 0" and "backlog > 0" and "0 \<le> sock" and "opt" and "0 < worker_num"
    and "poller_ok poller" and "0 \<le> max_connect" and "max_connect < 2 ^ 30"
  shows "\<exists>ls m. client_mgr_init max_connect sock opt svs junk client_port backlog worker_num (client_mgr_new j poller) = Inr m \<and>
    mgr_base ls (\<lambda>_. fresh_worker) m \<and> listener_ready ls \<and> \<not> ls_listening ls \<and> ls_port ls = client_port \<and> ls_backlog ls = int (unat backlog) \<and> cm_hid m = 1 \<and>
    length (cm_workers m) = nat (min 32 worker_num)"
proof -
  let ?n = "if worker_num > 32 then 32 else worker_num"
  obtain ws where ws: "new_workers svs junk [0..<nat ?n] = Inr ws" "length ws = nat ?n" "\<forall>w \<in> set ws. fresh_worker w"
    using new_workers_ok [OF assms(1), of junk "[0..<nat ?n]"] by auto
  have bl: "0 < unat backlog" using assms(3) by (simp add: word_less_nat_alt)
  have bl': "backlog \<noteq> 0" using assms(3) by auto
  have ls: "listener_init True client_port (int (unat backlog)) sock opt listener_new =
      Inr (listener_new\<lparr>ls_fd := sock, ls_mgr := True, ls_port := client_port, ls_backlog := int (unat backlog)\<rparr>, AX_RET_OK)"
    using assms bl bl' by (simp add: listener_init_def del: of_nat_unat)
  have n: "int (length ws) = ?n" "0 < length ws" "length ws \<le> 32" "length ws = nat (min 32 worker_num)"
    using ws(2) assms(6) by (auto simp: min_def)
  have mx: "c_int (max_connect * 2) = Inr (max_connect * 2)" using assms(8,9) by (intro c_int_nonneg) simp_all
  show ?thesis
    unfolding client_mgr_init_def Let_def ls mx using assms(1-7) ws(1,3) n bl
    by (intro exI [of _ "listener_new\<lparr>ls_fd := sock, ls_mgr := True, ls_port := client_port, ls_backlog := int (unat backlog)\<rparr>"])
       (auto simp: mgr_base_def client_mgr_new_def listener_ready_def listener_new_def ax_res simp del: of_nat_unat)
qed

lemma tpipe_init_fresh:
  assumes "fresh_worker w" and "poller_ok p"
  shows "\<exists>mb p'. tpipe_init (\<lambda>fd. add_fd (epoll_add_event ctl) fd (Some r)) 0 True True (tw_mailbox w, p) = Inr (mb, p') \<and>
    poller_ok p' \<and> mailbox_ok mb [] (unat init_buf_size)"
proof -
  let ?i = "tw_mailbox w ! 0"
  have f: "length (tw_mailbox w) = 2" "pi_wbuf ?i = buffer_new_n init_buf_size"
    using assms(1) by (auto simp: fresh_worker_def tpipe_new_def dest!: sym [of _ "tw_mailbox w"])
  obtain p' n where p': "add_fd (epoll_add_event ctl) (pi_fd ?i) (Some r) p = Inr (p', n)" "poller_ok p'"
    using epoll.add_fd_ok [OF assms(2), of "Some r" ctl "pi_fd ?i"] by auto
  have "mailbox_ok ((tw_mailbox w)[0 := ?i\<lparr>pi_poller := True, pi_cb_read := True\<rparr>]) [] (unat init_buf_size)"
    using f buffer_new_n_ok [of init_buf_size] buffer_size_new_n [of init_buf_size]
    by (simp add: mailbox_ok_def init_buf_size_def)
  then show ?thesis using p' by (simp add: tpipe_init_def side_ok_def Let_def)
qed

lemma start_one_ok:
  assumes "mgr_base ls P m" and "i < length (cm_workers m)" and "fresh_worker (cm_workers m ! i)"
    and mc: "0 \<le> mc" "mc < 2 ^ 30"
  shows "\<exists>m'. start_one (epoll_add_event ctl) mc 0 (int i) m = Inr m' \<and> cm_hid m' = cm_hid m \<and>
    length (cm_workers m') = length (cm_workers m) \<and>
    mgr_base ls (\<lambda>j w. if j = i then started_worker w else P j w) m'"
proof -
  obtain mb p' where p': "tpipe_init (\<lambda>fd. add_fd (epoll_add_event ctl) fd (Some (M_mailbox i))) 0 True True
      (tw_mailbox (cm_workers m ! i), cm_poller m) = Inr (mb, p')" "poller_ok p'" "mailbox_ok mb [] (unat init_buf_size)"
    using tpipe_init_fresh [OF assms(3), of "cm_poller m" ctl "M_mailbox i"] assms(1) by (auto simp: mgr_base_def)
  have n: "0 < cm_worker_num m" using assms(1) by (simp add: mgr_base_def)
  then have q: "mc sdiv cm_worker_num m = mc div cm_worker_num m" "0 \<le> mc div cm_worker_num m" "mc div cm_worker_num m \<le> mc"
    using mc zdiv_mono2 [of mc 1 "cm_worker_num m"] by (cases "mc = 0"; simp add: signed_divide_int_def pos_imp_zdiv_nonneg_iff)+
  then have "c_int (mc sdiv cm_worker_num m) = Inr (mc div cm_worker_num m)"
      "c_int (mc div cm_worker_num m + 100) = Inr (mc div cm_worker_num m + 100)"
    using mc by (auto intro!: c_int_nonneg)
  then show ?thesis using assms(1,2) p' n
    by (auto simp: start_one_def worker_at_def worker_set_def Let_def mgr_base_def started_worker_def nth_list_update)
qed

lemma start_loop_ok:
  assumes "mgr_base ls (\<lambda>j w. if j < k then started_worker w else fresh_worker w) m" and "k + d = length (cm_workers m)"
    and "\<forall>i. started i = 0" and mc: "0 \<le> mc" "mc < 2 ^ 30"
  shows "\<exists>m'. start_loop (epoll_add_event ctl) mc started [int k..int (k + d) - 1] m = Inr m' \<and> cm_hid m' = cm_hid m \<and>
    length (cm_workers m') = length (cm_workers m) \<and> mgr_base ls (\<lambda>_. started_worker) m'"
  using assms(1-3)
proof (induction d arbitrary: k m)
  case 0
  then show ?case by (simp add: mgr_base_def)
next
  case (Suc d)
  have up: "[int k..int (k + Suc d) - 1] = int k # [int (Suc k)..int (Suc k + d) - 1]"
    by (subst upto_rec1) (simp_all add: add.commute)
  obtain m1 where m1: "start_one (epoll_add_event ctl) mc 0 (int k) m = Inr m1" "cm_hid m1 = cm_hid m"
      "length (cm_workers m1) = length (cm_workers m)"
      "mgr_base ls (\<lambda>j w. if j = k then started_worker w else if j < k then started_worker w else fresh_worker w) m1"
    using start_one_ok [OF Suc.prems(1) _ _ mc, of k ctl] Suc.prems(1,2) by (auto simp: mgr_base_def)
  have "mgr_base ls (\<lambda>j w. if j < Suc k then started_worker w else fresh_worker w) m1"
    using m1(4) by (auto simp: mgr_base_def less_Suc_eq)
  from Suc.IH [OF this _ Suc.prems(3)] Suc.prems(2) m1(3) obtain m' where
    "start_loop (epoll_add_event ctl) mc started [int (Suc k)..int (Suc k + d) - 1] m1 = Inr m'" "cm_hid m' = cm_hid m1"
    "length (cm_workers m') = length (cm_workers m1)" "mgr_base ls (\<lambda>_. started_worker) m'" by (metis add_Suc_shift)
  moreover have "started (int k) = 0" using Suc.prems(3) by blast
  ultimately show ?case unfolding up using m1(1-3) by simp
qed

lemma start_worker_ok:
  assumes "mgr_base ls (\<lambda>_. fresh_worker) m" and "\<forall>i. started i = 0" and "0 \<le> mc" and "mc < 2 ^ 30"
  shows "\<exists>m'. start_worker (epoll_add_event ctl) mc started m = Inr (m', 0) \<and> cm_hid m' = cm_hid m \<and>
    length (cm_workers m') = length (cm_workers m) \<and> mgr_base ls (\<lambda>_. started_worker) m'"
  using start_loop_ok [of ls 0 m "length (cm_workers m)" started mc ctl] assms
  by (auto simp: start_worker_def mgr_base_def)

section \<open>The workers report\<close>

text \<open>The message a worker sends when it starts, and what the manager does with a sequence of them. With every
  report comes the answer that \<^verbatim>\<open>bind\<close> gives in case the report makes the manager call \<^verbatim>\<open>listen\<close>; a report that
  comes again makes it call \<^verbatim>\<open>listen\<close> again, and then the system refuses a bound socket.\<close>

definition start_ok_msg :: "nat \<Rightarrow> msg_header_t \<times> u8 list" where
  "start_ok_msg i = (\<lparr>mh_proto = 1, mh_pl_len = 10\<rparr>,
     pb_cgate_ctrl_bytes \<lparr>ct_cmd = 3\<rparr> @ pb_worker_notify_bytes \<lparr>wn_cmd = 1, wn_lparam = of_nat i, wn_wparam = 0\<rparr>)"

fun notify_run :: "('c, 'd, 'k) ev_request \<Rightarrow> ('c, 'd, 'k) ev_request \<Rightarrow> (nat \<times> bool) list \<Rightarrow> ('c, 'd, 'k, 'v) client_mgr \<Rightarrow>
    ('c, 'd, 'k, 'v) client_mgr res" where
  "notify_run ae de [] m = Inr m"
| "notify_run ae de ((i, bound) # rs) m =
     rbind (mgr_on_mailbox_read ae de bound Io_again (fst (start_ok_msg i)) (map Some (snd (start_ok_msg i))) m)
       (notify_run ae de rs)"

text \<open>Some report after which all \<open>n\<close> workers have reported found \<^verbatim>\<open>bind\<close> succeeding.\<close>

definition bound_when_complete :: "nat \<Rightarrow> (nat \<times> bool) list \<Rightarrow> bool" where
  "bound_when_complete n rs \<longleftrightarrow> (\<exists>us i vs. rs = us @ (i, True) # vs \<and> {..<n} \<subseteq> insert i (fst ` set us))"

lemma all_active_iff:
  assumes "\<forall>i \<in> set is. 0 \<le> i \<and> nat i < length (cm_workers m)"
  shows "all_active is m = Inr (\<forall>i \<in> set is. tw_status (cm_workers m ! nat i) = WRK_ACTIVE)"
  using assms by (induction "is") (auto simp: worker_at_def)

lemma all_active_workers:
  assumes "cm_worker_num m = int (length (cm_workers m))"
  shows "all_active [0..cm_worker_num m - 1] m = Inr (\<forall>i < length (cm_workers m). tw_status (cm_workers m ! i) = WRK_ACTIVE)"
proof -
  have "all_active [0..cm_worker_num m - 1] m =
      Inr (\<forall>i \<in> set [0..cm_worker_num m - 1]. tw_status (cm_workers m ! nat i) = WRK_ACTIVE)"
    using assms by (intro all_active_iff) auto
  moreover have "nat ` set [0..cm_worker_num m - 1] = {..<length (cm_workers m)}"
    using assms by (auto simp: image_iff intro!: bexI [of _ "int _"])
  then have "(\<forall>i \<in> set [0..cm_worker_num m - 1]. Q (nat i)) \<longleftrightarrow> (\<forall>i < length (cm_workers m). Q i)" for Q
    by (metis (no_types, lifting) imageE imageI lessThan_iff)
  ultimately show ?thesis by simp
qed

text \<open>The workers in \<open>S\<close> have reported, and \<open>L\<close> says whether the manager listens.\<close>

definition reported :: "nat set \<Rightarrow> bool \<Rightarrow> ('c, 'd, 'k, 'v) client_mgr \<Rightarrow> bool" where
  "reported S L m \<longleftrightarrow> (\<exists>ls. mgr_base ls (\<lambda>i w. (tw_status w = WRK_ACTIVE \<longleftrightarrow> i \<in> S) \<and> tw_active_conn w = 0 \<and>
       mailbox_ok (tw_mailbox w) [] (unat init_buf_size)) m \<and> listener_ready ls \<and> (ls_listening ls \<longleftrightarrow> L))"

lemma start_ok_read:
  assumes "i < length (cm_workers m)" and "length (cm_workers m) \<le> 32"
  shows "mgr_on_mailbox_read ae de bound ans (fst (start_ok_msg i)) (map Some (snd (start_ok_msg i))) m =
    (let m1 = worker_set (int i) ((cm_workers m ! i)\<lparr>tw_status := WRK_ACTIVE\<rparr>) m in
     rbind (all_active [0..cm_worker_num m1 - 1] m1) (\<lambda>ready.
     if \<not> ready then Inr m1 else rbind (mgr_listen ae bound m1) (\<lambda>(m, _). Inr m)))"
proof -
  define n where "n = \<lparr>wn_cmd = 1, wn_lparam = of_nat i, wn_wparam = 0\<rparr>"
  let ?cb = "pb_cgate_ctrl_bytes \<lparr>ct_cmd = 3\<rparr>" and ?nb = "pb_worker_notify_bytes n"
  have c: "pb_cgate_ctrl_unpack (Some (map Some ?cb @ map Some ?nb)) 10 pb_cgate_ctrl_init = Inr (\<lparr>ct_cmd = 3\<rparr>, 2)"
    using cgate_ctrl.unpack_law [of "\<lparr>ct_cmd = 3\<rparr>" 10 "map Some ?nb" pb_cgate_ctrl_init]
    by (simp add: pb_cgate_ctrl_bytes_def pb_cgate_ctrl_cal_size_def)
  have w: "pb_worker_notify_unpack (Some (map Some ?nb)) 8 pb_worker_notify_init = Inr (n, 8)"
    using worker_notify.unpack_law [of n 8 "[]" pb_worker_notify_init]
    by (simp add: pb_worker_notify_bytes_def pb_worker_notify_cal_size_def)
  have l: "length ?cb = 2" by (simp add: pb_cgate_ctrl_bytes_def)
  have i: "sint (wn_lparam n) = int i"
    using assms sint_int_of [of "int i"] by (simp add: n_def)
  have at: "worker_at (int i) m = Inr (cm_workers m ! i)" using assms(1) by (simp add: worker_at_def)
  have nc: "wn_cmd n = 1" by (simp add: n_def)
  show ?thesis
    unfolding mgr_on_mailbox_read_def start_ok_msg_def n_def [symmetric]
    using c w l i at nc by (simp add: mgr_process_worker_command_def pt_defs Let_def WORKER_START_OK_def)
qed

lemma reported_step:
  assumes "reported S L m" and "i < length (cm_workers m)"
  shows "\<exists>m'. mgr_on_mailbox_read (epoll_add_event ctl) de bound ans (fst (start_ok_msg i)) (map Some (snd (start_ok_msg i))) m = Inr m' \<and>
    reported (insert i S) (L \<or> bound \<and> {..<length (cm_workers m)} \<subseteq> insert i S) m' \<and>
    length (cm_workers m') = length (cm_workers m)"
proof -
  obtain ls where base: "mgr_base ls (\<lambda>i w. (tw_status w = WRK_ACTIVE \<longleftrightarrow> i \<in> S) \<and> tw_active_conn w = 0 \<and>
        mailbox_ok (tw_mailbox w) [] (unat init_buf_size)) m" and lr: "listener_ready ls" and lis: "ls_listening ls \<longleftrightarrow> L"
    using assms(1) by (auto simp: reported_def)
  define m1 where "m1 = worker_set (int i) ((cm_workers m ! i)\<lparr>tw_status := WRK_ACTIVE\<rparr>) m"
  have len: "length (cm_workers m1) = length (cm_workers m)" by (simp add: m1_def worker_set_def)
  have base1: "mgr_base ls (\<lambda>j w. (tw_status w = WRK_ACTIVE \<longleftrightarrow> j \<in> insert i S) \<and> tw_active_conn w = 0 \<and>
      mailbox_ok (tw_mailbox w) [] (unat init_buf_size)) m1"
    using base assms(2) by (auto simp: mgr_base_def m1_def worker_set_def nth_list_update)
  have act: "all_active [0..cm_worker_num m1 - 1] m1 = Inr ({..<length (cm_workers m1)} \<subseteq> insert i S)"
    using all_active_workers [of m1] base1 by (auto simp: mgr_base_def)
  have run: "mgr_on_mailbox_read (epoll_add_event ctl) de bound ans (fst (start_ok_msg i)) (map Some (snd (start_ok_msg i))) m =
     (if \<not> {..<length (cm_workers m1)} \<subseteq> insert i S then Inr m1
      else rbind (mgr_listen (epoll_add_event ctl) bound m1) (\<lambda>(m, _). Inr m))"
    using start_ok_read [of i m "epoll_add_event ctl" de bound ans] act assms(2) base
    by (simp add: m1_def [symmetric] Let_def mgr_base_def)
  have same: "reported (insert i S) L m1" using base1 lr lis unfolding reported_def by blast
  show ?thesis
  proof (cases "bound \<and> {..<length (cm_workers m1)} \<subseteq> insert i S")
    case False
    moreover have "mgr_listen (epoll_add_event ctl) False m1 = Inr (m1, AX_RET_ERROR)"
      using base1 lr by (auto simp: mgr_listen_def mgr_base_def listener_listen_def listener_ready_def)
    ultimately show ?thesis using run len same by auto
  next
    case True
    have pok: "poller_ok (cm_poller m1)" using base1 by (simp add: mgr_base_def)
    obtain p' n where p': "add_fd (epoll_add_event ctl) (ls_fd ls) (Some M_listener) (cm_poller m1) = Inr (p', n)" "poller_ok p'"
      using epoll.add_fd_ok [OF pok, of "Some M_listener" ctl "ls_fd ls"] by auto
    define m2 where "m2 = m1\<lparr>cm_listener := Some (ls\<lparr>ls_listening := True\<rparr>), cm_poller := p'\<rparr>"
    have "\<exists>r. mgr_listen (epoll_add_event ctl) bound m1 = Inr (m2, r)"
      using base1 lr p'(1) True by (auto simp: mgr_listen_def mgr_base_def listener_listen_def listener_ready_def m2_def Let_def)
    then have r2: "mgr_on_mailbox_read (epoll_add_event ctl) de bound ans (fst (start_ok_msg i)) (map Some (snd (start_ok_msg i))) m = Inr m2"
      using run True by auto
    have "reported (insert i S) True m2"
      unfolding reported_def using base1 lr p'(2)
      by (intro exI [of _ "ls\<lparr>ls_listening := True\<rparr>"]) (simp add: mgr_base_def m2_def listener_ready_def)
    then show ?thesis using r2 len True by (simp add: m2_def)
  qed
qed

lemma bound_Cons:
  "(\<exists>us j vs. (i, b) # rs = us @ (j, True) # vs \<and> A \<subseteq> S \<union> insert j (fst ` set us)) \<longleftrightarrow>
     b \<and> A \<subseteq> insert i S \<or> (\<exists>us j vs. rs = us @ (j, True) # vs \<and> A \<subseteq> insert i S \<union> insert j (fst ` set us))"
  (is "?L \<longleftrightarrow> ?R")
proof
  assume ?L
  then obtain us j vs where u: "(i, b) # rs = us @ (j, True) # vs" "A \<subseteq> S \<union> insert j (fst ` set us)" by blast
  then show ?R by (cases us) auto
next
  assume ?R
  then show ?L
  proof
    assume "b \<and> A \<subseteq> insert i S"
    then have "(i, b) # rs = [] @ (i, True) # rs \<and> A \<subseteq> S \<union> insert i (fst ` set [])" by auto
    then show ?L by blast
  next
    assume "\<exists>us j vs. rs = us @ (j, True) # vs \<and> A \<subseteq> insert i S \<union> insert j (fst ` set us)"
    then obtain us j vs where "(i, b) # rs = ((i, b) # us) @ (j, True) # vs \<and> A \<subseteq> S \<union> insert j (fst ` set ((i, b) # us))" by auto
    then show ?L by blast
  qed
qed

lemma notify_run_ok:
  assumes "reported S L m" and "fst ` set rs \<subseteq> {..<n}" and "length (cm_workers m) = n"
  shows "\<exists>m'. notify_run (epoll_add_event ctl) de rs m = Inr m' \<and>
    reported (S \<union> fst ` set rs) (L \<or> (\<exists>us j vs. rs = us @ (j, True) # vs \<and> {..<n} \<subseteq> S \<union> insert j (fst ` set us))) m' \<and>
    length (cm_workers m') = n"
  using assms
proof (induction rs arbitrary: S L m)
  case (Cons r rs)
  obtain i b where r: "r = (i, b)" by force
  have "i < length (cm_workers m)" using Cons.prems(2,3) r by auto
  then obtain m1 where m1: "mgr_on_mailbox_read (epoll_add_event ctl) de b Io_again (fst (start_ok_msg i)) (map Some (snd (start_ok_msg i))) m = Inr m1"
      "reported (insert i S) (L \<or> b \<and> {..<n} \<subseteq> insert i S) m1" "length (cm_workers m1) = n"
    using reported_step [OF Cons.prems(1), of i ctl de b Io_again] Cons.prems(3) by auto
  from Cons.IH [OF m1(2) _ m1(3)] Cons.prems(2) obtain m' where
    "notify_run (epoll_add_event ctl) de rs m1 = Inr m'" "length (cm_workers m') = n"
    "reported (insert i S \<union> fst ` set rs) ((L \<or> b \<and> {..<n} \<subseteq> insert i S) \<or>
       (\<exists>us j vs. rs = us @ (j, True) # vs \<and> {..<n} \<subseteq> insert i S \<union> insert j (fst ` set us))) m'" by auto
  then show ?case unfolding r bound_Cons using m1(1) by (simp add: disj_assoc)
qed simp

lemma start_reported:
  fixes m0 :: "('c, 'd, 'k, 'v) client_mgr"
  assumes "m0 = client_mgr_new j poller" and "\<forall>i. svs i \<noteq> None" and "client_port > 0" and "backlog > 0" and "0 \<le> sock" and "0 < worker_num"
    and "poller_ok poller" and "\<forall>i. started i = 0" and "n = nat (min 32 worker_num)" and "0 \<le> max_connect" and "max_connect < 2 ^ 30"
  shows "\<exists>m1 m. client_mgr_init max_connect sock True svs junk client_port backlog worker_num m0 = Inr m1 \<and>
    start_worker (epoll_add_event ctl) max_connect started m1 = Inr (m, 0) \<and> length (cm_workers m) = n \<and> reported {} False m"
proof -
  obtain ls and m1 :: "('c, 'd, 'k, 'v) client_mgr" where m1: "client_mgr_init max_connect sock True svs junk client_port backlog worker_num m0 = Inr m1"
      "mgr_base ls (\<lambda>_. fresh_worker) m1" "listener_ready ls" "\<not> ls_listening ls" "length (cm_workers m1) = n"
    using init_ok [OF assms(2-5) _ assms(6,7,10,11), of True junk j] unfolding assms(1,9) by blast
  obtain m where m: "start_worker (epoll_add_event ctl) max_connect started m1 = Inr (m, 0)"
      "length (cm_workers m) = n" "mgr_base ls (\<lambda>_. started_worker) m"
    using start_worker_ok [OF m1(2) assms(8,10,11), of ctl] m1(5) by auto
  have "reported {} False m"
    unfolding reported_def using m m1(3,4)
    by (intro exI [of _ ls]) (auto simp: mgr_base_def started_worker_def wrk_defs)
  then show ?thesis using m1(1) m(1,2) by blast
qed

text \<open>A gateway that accepts connections: every worker is active and the listener listens. \<open>old\<close> are the messages
  that the write buffer of the first worker's mailbox holds.\<close>

definition accepting :: "(msg_header_t \<times> u8 list) list \<Rightarrow> nat \<Rightarrow> ('c, 'd, 'k, 'v) client_mgr \<Rightarrow> bool" where
  "accepting old sz m \<longleftrightarrow> (\<exists>ls. mgr_base ls (\<lambda>i w. tw_status w = WRK_ACTIVE \<and> tw_active_conn w = 0 \<and>
       (i = 0 \<longrightarrow> mailbox_ok (tw_mailbox w) (concat (map msg_bytes old)) sz)) m \<and> listener_ready ls \<and> ls_listening ls)"

lemma reported_accepting:
  assumes "reported S True m" and "{..<length (cm_workers m)} \<subseteq> S"
  shows "accepting [] (unat init_buf_size) m"
  using assms unfolding reported_def accepting_def by (fastforce simp: mgr_base_def)

text \<open>The manager accepts in such a state and the state stays one; its load is never counted, so the first worker
  is always selected.\<close>

lemma accepting_accept:
  assumes "accepting old sz m" and "sz + 200 < 2 ^ 32"
    and hid: "hid = (cm_hid m + 1) AND NOT (push_bit HID_THR_BITS HID_THR_MASK)"
  shows "\<exists>m'. on_accept_new_connect de (Io_ok n) fd ip port m = Inr (m', AX_RET_OK) \<and> cm_hid m' = hid \<and>
    accepting (old @ [newconn_msg fd hid ip port]) (sz + 200) m'"
proof -
  obtain ls where base: "mgr_base ls (\<lambda>i w. tw_status w = WRK_ACTIVE \<and> tw_active_conn w = 0 \<and>
       (i = 0 \<longrightarrow> mailbox_ok (tw_mailbox w) (concat (map msg_bytes old)) sz)) m" and ls: "listener_ready ls" "ls_listening ls"
    using assms(1) by (auto simp: accepting_def)
  let ?w = "cm_workers m ! 0"
  have w: "0 < length (cm_workers m)" "mailbox_ok (tw_mailbox ?w) (concat (map msg_bytes old)) sz" "cm_inited m \<noteq> 0"
      "tw_active_conn ?w = 0" "cm_worker_num m = int (length (cm_workers m))"
    and act: "1 < length (cm_workers m) \<Longrightarrow> tw_active_conn (cm_workers m ! 1) = 0" using base by (auto simp: mgr_base_def)
  have sel: "select_loop [1..cm_worker_num m - 1] (tw_active_conn ?w) 0 (m\<lparr>cm_hid := hid\<rparr>) = Inr 0"
  proof (cases "1 < length (cm_workers m)")
    case True
    then show ?thesis using act w(4) by (intro select_first) simp_all
  next
    case False
    then have "[1..cm_worker_num m - 1] = []" using w(5) by simp
    then show ?thesis by simp
  qed
  have w0: "worker_at 0 m = Inr ?w" "nat 0 < length (cm_workers m)" "?w = cm_workers m ! nat 0" using w(1) by (simp_all add: worker_at_def)
  obtain mb' where mb': "on_accept_new_connect de (Io_ok n) fd ip port m =
      Inr (m\<lparr>cm_hid := hid, cm_workers := (cm_workers m)[nat 0 := ?w\<lparr>tw_mailbox := mb'\<rparr>]\<rparr>, AX_RET_OK)"
      "mailbox_ok mb' (concat (map msg_bytes old) @ msg_bytes (newconn_msg fd hid ip port)) (sz + 200)"
    using accept_at [OF w(3) w0(1) _ w0(2,3) hid sel w(2) assms(2), of hid de n fd ip port] by auto
  let ?m = "m\<lparr>cm_hid := hid, cm_workers := (cm_workers m)[nat 0 := ?w\<lparr>tw_mailbox := mb'\<rparr>]\<rparr>"
  have "accepting (old @ [newconn_msg fd hid ip port]) (sz + 200) ?m"
    unfolding accepting_def using base mb'(2) ls
    by (intro exI [of _ ls]) (auto simp: mgr_base_def nth_list_update)
  then show ?thesis using mb'(1) by (intro exI [of _ ?m]) simp
qed

section \<open>Properties\<close>

text \<open>C9: The gateway starts to listen exactly when all its workers have reported and \<^verbatim>\<open>bind\<close> succeeds. After
  construction, \<^verbatim>\<open>init\<close> and \<^verbatim>\<open>start_worker\<close> no step fails and there is one worker for each one asked for, 32 at most;
  then the manager handles the start messages of the workers in whatever order and however often they come. Its
  listener is listening exactly when, at some report after which all workers have reported, \<^verbatim>\<open>bind\<close> succeeded; what
  \<^verbatim>\<open>bind\<close> answers at any other report does not matter, in particular its refusal of a socket that is already bound.
  Sockets and threads are created, and \<^verbatim>\<open>max_connect\<close> is below \<open>2 ^ 30\<close>, so that twice its value is an \<^verbatim>\<open>int\<close>.\<close>

theorem gateway_startup:
  fixes m0 :: "('c, 'd, 'k, 'v) client_mgr"
  assumes "m0 = client_mgr_new j poller" and "\<forall>i. svs i \<noteq> None" and "client_port > 0" and "backlog > 0" and "0 \<le> sock" and "0 < worker_num"
    and "poller_ok poller" and "\<forall>i. started i = 0" and "n = nat (min 32 worker_num)" and "0 \<le> max_connect" and "max_connect < 2 ^ 30"
  shows "\<exists>m1 m. client_mgr_init max_connect sock True svs junk client_port backlog worker_num m0 = Inr m1 \<and>
    start_worker (epoll_add_event ctl) max_connect started m1 = Inr (m, 0) \<and> length (cm_workers m) = n \<and>
    (\<forall>rs. fst ` set rs \<subseteq> {..<n} \<longrightarrow> (\<exists>m' ls. notify_run (epoll_add_event ctl) de rs m = Inr m' \<and> cm_listener m' = Some ls \<and>
       (ls_listening ls \<longleftrightarrow> bound_when_complete n rs)))"
proof -
  obtain m1 m where m: "client_mgr_init max_connect sock True svs junk client_port backlog worker_num m0 = Inr m1"
      "start_worker (epoll_add_event ctl) max_connect started m1 = Inr (m, 0)" "length (cm_workers m) = n" "reported {} False m"
    using start_reported [OF assms] by blast
  have "\<exists>m' ls. notify_run (epoll_add_event ctl) de rs m = Inr m' \<and> cm_listener m' = Some ls \<and>
      (ls_listening ls \<longleftrightarrow> bound_when_complete n rs)" if "fst ` set rs \<subseteq> {..<n}" for rs
    using notify_run_ok [OF m(4) that m(3), of ctl de] unfolding bound_when_complete_def
    by (fastforce simp: reported_def mgr_base_def)
  then show ?thesis using m(1-3) by (intro exI [of _ m1] exI [of _ m]) simp
qed

definition sim_mpoller :: "(unit, unit, int list) mpoller" where
  "sim_mpoller =
    \<lparr>fp_entry = replicate 8 \<lparr>pe_ev_mask = 0, pe_status = FDS_EMPTY, pe_reactor = None\<rparr>, fp_pending_new = hmap_new 10,
     fp_retired = replicate 8 0, fp_retired_sz = 0, fp_timer = timer_new 10 5 [0, 0, 0],
     fp_timetick = 10, fp_max_fds = 8, fp_tm_last = 0, fp_os = []\<rparr>"

lemma sim_mpoller_ok: "poller_ok sim_mpoller"
proof -
  let ?junk = "replicate 8 \<lparr>pe_ev_mask = 0, pe_status = FDS_EMPTY, pe_reactor = None\<rparr> :: mgr_reactor poller_entry list"
  have l: "length ?junk = unat (8 :: u32)" "unat (8 :: u32) < 2 ^ 31" by simp_all
  have "poller_new 8 10 5 [0, 0, 0] ?junk [] = Inr sim_mpoller"
    using poller_new_eq [OF _ l, of 10 5 "[0, 0, 0]" "[]"] by (simp add: sim_mpoller_def)
  from poller_newD(1) [OF this l] show ?thesis .
qed

definition sim_mgr :: "(unit, unit, int list, unit) client_mgr" where
  "sim_mgr = client_mgr_new 0 sim_mpoller"

definition sim_tworker :: thread_worker where
  "sim_tworker = \<lparr>tw_active_conn = 7, tw_max_conn = 7, tw_status = 7, tw_mailbox = [], tw_info = \<lparr>wi_idx = 7, wi_max_conn = 7\<rparr>\<rparr>"

text \<open>Two workers: two reports of one of them do not start the listener; when both have reported it starts, and a
  later report finds the socket bound.\<close>

theorem gateway_startup_witness:
  "\<exists>m1 m m' ls m'' ls''. client_mgr_init 1000 3 True (\<lambda>i. Some (2 * int i + 4, 2 * int i + 5)) (\<lambda>_. sim_tworker) 1234 10 2 sim_mgr = Inr m1 \<and>
     start_worker (epoll_add_event sim_ctl) 1000 (\<lambda>_. 0) m1 = Inr (m, 0) \<and>
     notify_run (epoll_add_event sim_ctl) (epoll_del_event sim_ctl) [(1, True), (1, True)] m = Inr m' \<and> cm_listener m' = Some ls \<and> \<not> ls_listening ls \<and>
     notify_run (epoll_add_event sim_ctl) (epoll_del_event sim_ctl) [(1, True), (0, True), (1, False)] m = Inr m'' \<and>
     cm_listener m'' = Some ls'' \<and> ls_listening ls''"
proof -
  have "2 = nat (min 32 2)" by simp
  from gateway_startup [OF sim_mgr_def _ _ _ _ _ sim_mpoller_ok _ this, of "\<lambda>i. Some (2 * int i + 4, 2 * int i + 5)" 1234 10 3
      "\<lambda>_. 0" 1000 "\<lambda>_. sim_tworker" sim_ctl "epoll_del_event sim_ctl"]
  obtain m1 m where m: "client_mgr_init 1000 3 True (\<lambda>i. Some (2 * int i + 4, 2 * int i + 5)) (\<lambda>_. sim_tworker) 1234 10 2 sim_mgr = Inr m1"
      "start_worker (epoll_add_event sim_ctl) 1000 (\<lambda>_. 0) m1 = Inr (m, 0)"
    and run: "\<And>rs. fst ` set rs \<subseteq> {..<2} \<Longrightarrow> \<exists>m' ls. notify_run (epoll_add_event sim_ctl) (epoll_del_event sim_ctl) rs m = Inr m' \<and>
      cm_listener m' = Some ls \<and> (ls_listening ls \<longleftrightarrow> bound_when_complete 2 rs)"
    by (auto simp: word_less_nat_alt)
  have "\<not> {..<2} \<subseteq> {1 :: nat}" "{..<2} \<subseteq> {0, 1 :: nat}" by (simp_all add: numeral_2_eq_2 lessThan_Suc)
  then have "\<not> bound_when_complete 2 [(1, True), (1, True)]"
      "[(1, True), (0, True), (1, False)] = [(1, True)] @ (0, True) # [(1, False)] \<and> {..<2} \<subseteq> insert 0 (fst ` set [(1 :: nat, True)])"
    by (auto simp: bound_when_complete_def Cons_eq_append_conv)
  then have "\<not> bound_when_complete 2 [(1, True), (1, True)]" "bound_when_complete 2 [(1, True), (0, True), (1, False)]"
    unfolding bound_when_complete_def by blast+
  then show ?thesis using m run [of "[(1, True), (1, True)]"] run [of "[(1, True), (0, True), (1, False)]"] by auto
qed

text \<open>The announcement of a connection to a worker: the call of \<^verbatim>\<open>write\<close> on its mailbox.\<close>

definition announce :: "('c, 'd, 'k) ev_request \<Rightarrow> nat io_result \<Rightarrow> pb_cgate_newconn \<Rightarrow> thread_worker \<Rightarrow> ('c, 'd, 'k) mpoller \<Rightarrow>
    ((tpipe \<times> ('c, 'd, 'k) mpoller) \<times> int \<times> u8 list) res" where
  "announce de ans conn w p =
     tpipe_write de (wait_close de) 0 (sint PT_CGATE_CTRL)
       (pb_cgate_ctrl_cal_size \<lparr>ct_cmd = PT_CGATE_NEWCONN\<rparr>, pb_cgate_ctrl_pack \<lparr>ct_cmd = PT_CGATE_NEWCONN\<rparr>)
       (pb_cgate_newconn_cal_size conn, pb_cgate_newconn_pack conn) ans (tw_mailbox w, p)"

lemma accept_announces:
  assumes "on_accept_new_connect de ans fd ip port m = Inr (m', r)" and "cm_worker_num m \<le> 64"
  shows "\<exists>s w mb p sent. 0 \<le> s \<and> s < 64 \<and> worker_at s m = Inr w \<and>
    announce de ans \<lparr>nc_fd = word_of_int fd, nc_hid = push_bit HID_THR_BITS (word_of_int s) OR cm_hid m', nc_ip = ip, nc_port = port\<rparr>
      w (cm_poller m) = Inr ((mb, p), sent) \<and>
    m' = worker_set s (w\<lparr>tw_mailbox := mb\<rparr>) (m\<lparr>cm_hid := (cm_hid m + 1) AND NOT (push_bit HID_THR_BITS HID_THR_MASK), cm_poller := p\<rparr>)"
proof -
  define hid where "hid = (cm_hid m + 1) AND NOT (push_bit HID_THR_BITS HID_THR_MASK)"
  have hid': "cm_hid m' = hid" using assms(1) by (auto simp: on_accept_new_connect_def ax_res Let_def worker_set_def hid_def)
  let ?conn = "\<lambda>s. \<lparr>nc_fd = word_of_int fd, nc_hid = push_bit HID_THR_BITS (word_of_int s) OR hid, nc_ip = ip, nc_port = port\<rparr>"
  have "\<exists>(w0 :: thread_worker) s w mb p n out. select_loop [1..cm_worker_num m - 1] (tw_active_conn w0) 0 (m\<lparr>cm_hid := hid\<rparr>) = Inr s \<and>
      worker_at s (m\<lparr>cm_hid := hid\<rparr>) = Inr w \<and> announce de ans (?conn s) w (cm_poller m) = Inr ((mb, p), n, out) \<and>
      m' = worker_set s (w\<lparr>tw_mailbox := mb\<rparr>) (m\<lparr>cm_hid := hid, cm_poller := p\<rparr>)"
    using assms(1) unfolding on_accept_new_connect_def Let_def hid_def [symmetric] init_fields announce_def
    by (simp add: ax_res case_prod_beta split_paired_Ex) blast
  then obtain w0 :: thread_worker and s w mb p n out where sel: "select_loop [1..cm_worker_num m - 1] (tw_active_conn w0) 0 (m\<lparr>cm_hid := hid\<rparr>) = Inr s"
    and w: "worker_at s (m\<lparr>cm_hid := hid\<rparr>) = Inr w" and wr: "announce de ans (?conn s) w (cm_poller m) = Inr ((mb, p), n, out)"
    and m': "m' = worker_set s (w\<lparr>tw_mailbox := mb\<rparr>) (m\<lparr>cm_hid := hid, cm_poller := p\<rparr>)" by blast
  have "0 \<le> s" "s < 64" using select_range [OF sel] assms(2) by auto
  moreover have "worker_at s m = Inr w" using w by (simp add: worker_at_def split: if_splits)
  ultimately show ?thesis unfolding hid' using wr m' unfolding hid_def by blast
qed

lemma close_goes_to:
  assumes "sint (THR_IDX_FROM_HID h) = s"
  shows "process_conn_notify de ans (Some (map Some (pb_conn_notify_bytes \<lparr>cn_fd = f, cn_hid = h, cn_action = PEER_CLOSE\<rparr>))) 9 m =
      send_worker_ctrl de PT_CONN_CTRL s (pb_conn_ctrl_cal_size \<lparr>cc_fd = f, cc_hid = h, cc_action = DO_CLOSE\<rparr>,
        pb_conn_ctrl_pack \<lparr>cc_fd = f, cc_hid = h, cc_action = DO_CLOSE\<rparr>) ans m"
proof -
  let ?n = "\<lparr>cn_fd = f, cn_hid = h, cn_action = PEER_CLOSE\<rparr>"
  have "pb_conn_notify_unpack (Some (map Some (pb_conn_notify_bytes ?n))) 9 pb_conn_notify_init = Inr (?n, 9)"
    using conn_notify.unpack_law [of ?n 9 "[]" pb_conn_notify_init]
    by (simp add: pb_conn_notify_bytes_def pb_conn_notify_cal_size_def)
  then show ?thesis using assms by (simp add: process_conn_notify_def pb_conn_ctrl_init_def Let_def)
qed

text \<open>C26: The handle of a connection names its worker. Whenever \<^verbatim>\<open>on_accept_new_connect\<close> returns, with at most 64
  workers and whatever their loads are, there is a worker \<open>s\<close> to whose mailbox it has written the announcement of
  the accepted descriptor, address and port with a handle \<open>h\<close>, and all other workers are unchanged. The thread number of \<open>h\<close> is
  \<open>s\<close>, its low 26 bits are the counter, which goes from \<open>2 ^ 26 - 1\<close> back to 0, and a notification of the peer's close with
  this handle is answered to the mailbox of this very worker.\<close>

theorem handle_names_worker:
  assumes "on_accept_new_connect de ans fd ip port m = Inr (m', r)" and "cm_worker_num m \<le> 64"
  shows "\<exists>s h w mb p sent. worker_at s m = Inr w \<and>
    announce de ans \<lparr>nc_fd = word_of_int fd, nc_hid = h, nc_ip = ip, nc_port = port\<rparr> w (cm_poller m) = Inr ((mb, p), sent) \<and>
    cm_workers m' = (cm_workers m)[nat s := w\<lparr>tw_mailbox := mb\<rparr>] \<and> cm_poller m' = p \<and>
    sint (THR_IDX_FROM_HID h) = s \<and> take_bit 26 h = cm_hid m' \<and> cm_hid m' = take_bit 26 (cm_hid m + 1) \<and>
    (\<forall>f ans2 m2. process_conn_notify de ans2 (Some (map Some (pb_conn_notify_bytes \<lparr>cn_fd = f, cn_hid = h, cn_action = PEER_CLOSE\<rparr>))) 9 m2 =
      send_worker_ctrl de PT_CONN_CTRL s (pb_conn_ctrl_cal_size \<lparr>cc_fd = f, cc_hid = h, cc_action = DO_CLOSE\<rparr>,
        pb_conn_ctrl_pack \<lparr>cc_fd = f, cc_hid = h, cc_action = DO_CLOSE\<rparr>) ans2 m2)"
proof -
  obtain s w mb p sent where s: "0 \<le> s" "s < 64" and w: "worker_at s m = Inr w"
    and an: "announce de ans \<lparr>nc_fd = word_of_int fd, nc_hid = push_bit HID_THR_BITS (word_of_int s) OR cm_hid m', nc_ip = ip, nc_port = port\<rparr>
      w (cm_poller m) = Inr ((mb, p), sent)"
    and m': "m' = worker_set s (w\<lparr>tw_mailbox := mb\<rparr>) (m\<lparr>cm_hid := (cm_hid m + 1) AND NOT (push_bit HID_THR_BITS HID_THR_MASK), cm_poller := p\<rparr>)"
    using accept_announces [OF assms] by blast
  define h where "h = push_bit HID_THR_BITS (word_of_int s) OR cm_hid m'"
  have hid: "cm_hid m' = take_bit 26 (cm_hid m + 1)" by (simp add: m' worker_set_def hid_take_bit)
  have lt: "cm_hid m' < 2 ^ 26" using hid_masked [of "cm_hid m + 1"] by (simp add: m' worker_set_def)
  have "sint (word_of_int s :: u32) = s" using s by (intro sint_int_of) simp_all
  then have idx: "sint (THR_IDX_FROM_HID h) = s" using thr_idx_of_handle [OF s lt] by (simp add: h_def)
  have low: "take_bit 26 h = cm_hid m'" by (simp add: h_def HID_THR_BITS_def take_bit_push_bit hid)
  have fr: "cm_workers m' = (cm_workers m)[nat s := w\<lparr>tw_mailbox := mb\<rparr>]" "cm_poller m' = p" by (simp_all add: m' worker_set_def)
  show ?thesis using w an [folded h_def] fr idx low hid close_goes_to [OF idx] by blast
qed

text \<open>For instance, the second of two workers is chosen when the first has more connections.\<close>

lemma sim_accepting:
  "\<exists>m1 m m' :: (unit, unit, int list, unit) client_mgr.
     client_mgr_init 1000 3 True (\<lambda>i. Some (2 * int i + 4, 2 * int i + 5)) (\<lambda>_. sim_tworker) 1234 10 2 sim_mgr = Inr m1 \<and>
     start_worker (epoll_add_event sim_ctl) 1000 (\<lambda>_. 0) m1 = Inr (m, 0) \<and>
     notify_run (epoll_add_event sim_ctl) (epoll_del_event sim_ctl) [(1, True), (0, True)] m = Inr m' \<and>
     accepting [] (unat init_buf_size) m' \<and> length (cm_workers m') = 2 \<and> reported {0, 1} True m'"
proof -
  have n: "2 = nat (min 32 2)" by simp
  obtain m1 m where m: "client_mgr_init 1000 3 True (\<lambda>i. Some (2 * int i + 4, 2 * int i + 5)) (\<lambda>_. sim_tworker) 1234 10 2 sim_mgr = Inr m1"
      "start_worker (epoll_add_event sim_ctl) 1000 (\<lambda>_. 0) m1 = Inr (m, 0)" "length (cm_workers m) = 2" "reported {} False m"
    using start_reported [OF sim_mgr_def _ _ _ _ _ sim_mpoller_ok _ n, of "\<lambda>i. Some (2 * int i + 4, 2 * int i + 5)" 1234 10 3
      "\<lambda>_. 0" 1000 "\<lambda>_. sim_tworker" sim_ctl] by (auto simp: word_less_nat_alt)
  have two: "{..<2} = {0, 1 :: nat}" by auto
  have sub: "fst ` set [(1 :: nat, True), (0, True)] \<subseteq> {..<2}" by simp
  have "[(1 :: nat, True), (0, True)] = [(1, True)] @ (0, True) # [] \<and> {..<2} \<subseteq> {} \<union> insert 0 (fst ` set [(1 :: nat, True)])" by (simp add: two)
  then have "(False \<or> (\<exists>us j vs. [(1 :: nat, True), (0, True)] = us @ (j, True) # vs \<and> {..<2} \<subseteq> {} \<union> insert j (fst ` set us))) = True" by blast
  from notify_run_ok [OF m(4) sub m(3), of sim_ctl "epoll_del_event sim_ctl", unfolded this]
  obtain m' where m': "notify_run (epoll_add_event sim_ctl) (epoll_del_event sim_ctl) [(1, True), (0, True)] m = Inr m'"
      "reported {0, 1} True m'" "length (cm_workers m') = 2" by (auto simp: insert_commute)
  then show ?thesis using m reported_accepting [OF m'(2)] by (auto simp: two)
qed

theorem handle_names_worker_witness:
  "\<exists>(m :: (unit, unit, int list, unit) client_mgr) m' h w mb p sent. tw_active_conn (cm_workers m ! 0) = 3 \<and>
      on_accept_new_connect (epoll_del_event sim_ctl) (Io_ok 24) 6 0x7F000001 80 m = Inr (m', AX_RET_OK) \<and>
      announce (epoll_del_event sim_ctl) (Io_ok 24) \<lparr>nc_fd = 6, nc_hid = h, nc_ip = 0x7F000001, nc_port = 80\<rparr> w (cm_poller m) = Inr ((mb, p), sent) \<and>
      w = cm_workers m ! 1 \<and> cm_workers m' = (cm_workers m)[1 := w\<lparr>tw_mailbox := mb\<rparr>] \<and> sint (THR_IDX_FROM_HID h) = 1"
proof -
  obtain m0 :: "(unit, unit, int list, unit) client_mgr" where m0: "reported {0, 1} True m0" "length (cm_workers m0) = 2"
    using sim_accepting by blast
  define w0 w1 where "w0 = (cm_workers m0 ! 0)\<lparr>tw_active_conn := 3\<rparr>" and "w1 = cm_workers m0 ! 1"
  define m where "m = m0\<lparr>cm_workers := [w0, w1]\<rparr>"
  define hid where "hid = (cm_hid m + 1) AND NOT (push_bit HID_THR_BITS HID_THR_MASK)"
  have b: "cm_inited m \<noteq> 0" "cm_worker_num m = 2" "tw_active_conn w1 = 0" "mailbox_ok (tw_mailbox w1) [] (unat init_buf_size)"
    using m0 by (auto simp: reported_def mgr_base_def m_def w1_def)
  have sel: "select_loop [1..cm_worker_num m - 1] (tw_active_conn w0) 0 (m\<lparr>cm_hid := hid\<rparr>) = Inr 1"
    unfolding b(2) using b(3) by (simp add: worker_at_def m_def w0_def)
  have at: "worker_at 0 m = Inr w0" "nat 1 < length (cm_workers m)" "w1 = cm_workers m ! nat 1" by (simp_all add: worker_at_def m_def)
  define h where "h = push_bit HID_THR_BITS (word_of_int 1) OR hid"
  obtain mb' where acc: "on_accept_new_connect (epoll_del_event sim_ctl) (Io_ok 24) 6 0x7F000001 80 m =
      Inr (m\<lparr>cm_hid := hid, cm_workers := (cm_workers m)[nat 1 := w1\<lparr>tw_mailbox := mb'\<rparr>]\<rparr>, AX_RET_OK)"
    and mb': "mailbox_ok mb' ([] @ msg_bytes (newconn_msg 6 h 0x7F000001 80)) (unat init_buf_size + 200)"
    using accept_at [OF b(1) at(1) _ at(2,3) hid_def sel b(4) _ h_def, of "epoll_del_event sim_ctl" 24 6 "0x7F000001" 80]
    by (auto simp: init_buf_size_def)
  have ne: "tw_mailbox w1 \<noteq> mb'" using mb' b(4) by (auto simp: mailbox_ok_def msg_bytes_def)
  from handle_names_worker [OF acc] b(2) obtain s hd w mb p sent where r: "worker_at s m = Inr w"
      "announce (epoll_del_event sim_ctl) (Io_ok 24) \<lparr>nc_fd = word_of_int 6, nc_hid = hd, nc_ip = 0x7F000001, nc_port = 80\<rparr> w (cm_poller m) = Inr ((mb, p), sent)"
      "(cm_workers m)[nat 1 := w1\<lparr>tw_mailbox := mb'\<rparr>] = (cm_workers m)[nat s := w\<lparr>tw_mailbox := mb\<rparr>]" "sint (THR_IDX_FROM_HID hd) = s"
    by auto
  have "s = 0 \<or> s = 1" using r(1) by (auto simp: worker_at_def m_def split: if_splits)
  moreover have "s \<noteq> 0"
  proof
    assume "s = 0"
    then have "w1\<lparr>tw_mailbox := mb'\<rparr> = w1" using r(3) by (simp add: m_def)
    then have "tw_mailbox (w1\<lparr>tw_mailbox := mb'\<rparr>) = tw_mailbox w1" by simp
    then show False using ne by simp
  qed
  ultimately have s: "s = 1" by simp
  then have w: "w = cm_workers m ! 1" using r(1) by (simp add: worker_at_def m_def)
  have "tw_active_conn (cm_workers m ! 0) = 3" by (simp add: m_def w0_def)
  then show ?thesis using acc r(2-4) w s
    by (intro exI [of _ m] exI [of _ "m\<lparr>cm_hid := hid, cm_workers := (cm_workers m)[nat 1 := w1\<lparr>tw_mailbox := mb'\<rparr>]\<rparr>"]
        exI [of _ hd] exI [of _ w] exI [of _ mb] exI [of _ p] exI [of _ sent]) simp
qed

end
