(* ===== verification/Ax_Debug.thy ===== *)
theory Ax_Debug
  imports Ax_String
begin

text \<open>
  Tools around the core: the raw logger of \<^verbatim>\<open>src/core/ax_debug.h\<close> and \<^verbatim>\<open>ax_debug.cc\<close>, the registry of unit tests of
  \<^verbatim>\<open>utest.h\<close> and \<^verbatim>\<open>utest.cc\<close>, the thread wrapper of \<^verbatim>\<open>ax_thread.h\<close> and \<^verbatim>\<open>ax_thread.cc\<close>, and \<^verbatim>\<open>os_misc.cc\<close>. The file system
  is a map from paths to contents; a message is passed as the text the format gives, the time as what \<^verbatim>\<open>strftime\<close> made.
\<close>

section \<open>The raw logger\<close>

definition MAX_PATH_LEN :: nat where "MAX_PATH_LEN = 512"
definition MAX_FILENAME_LEN :: nat where "MAX_FILENAME_LEN = 256"

lemmas log_len_defs = MAX_PATH_LEN_def MAX_FILENAME_LEN_def

record raw_logger =
  rl_path :: block
  rl_file :: block
  rl_console :: bool

type_synonym files = "u8 list \<rightharpoonup> u8 list"

record log_world =
  lw_files :: files
  lw_console :: "u8 list"
  lw_path_root :: block

text \<open>The world when the program starts: the shared path root is \<^verbatim>\<open>"."\<close>.\<close>

definition log_world_init :: "files \<Rightarrow> log_world" where
  "log_world_init files = \<lparr>lw_files = files, lw_console = [], lw_path_root = Some 46 # replicate (MAX_PATH_LEN - 1) (Some 0)\<rparr>"

definition logger_new :: "raw_logger res" where
  "logger_new =
     rbind (c_strcpy (replicate MAX_PATH_LEN (Some 0)) (c_lit ''.'')) (\<lambda>p.
     rbind (c_strcpy (replicate MAX_FILENAME_LEN (Some 0)) (c_lit ''debug.log'')) (\<lambda>f.
       Inr \<lparr>rl_path = p, rl_file = f, rl_console = False\<rparr>))"

text \<open>The constructor with a file name, which it does not use.\<close>

definition logger_new_file :: "u8 list \<Rightarrow> raw_logger res" where
  "logger_new_file file =
     rbind (c_strcpy (replicate MAX_PATH_LEN (Some 0)) (c_lit ''.'')) (\<lambda>p.
     rbind (c_strcpy (replicate MAX_FILENAME_LEN (Some 0)) (c_lit ''debug.log'')) (\<lambda>f.
       Inr \<lparr>rl_path = p, rl_file = f, rl_console = False\<rparr>))"

definition set_pathroot :: "u8 list \<Rightarrow> log_world \<Rightarrow> log_world res" where
  "set_pathroot p w = rbind (c_strncpy (lw_path_root w) p (MAX_PATH_LEN - 1)) (\<lambda>b. Inr (w\<lparr>lw_path_root := b\<rparr>))"

definition set_path :: "u8 list \<Rightarrow> raw_logger \<Rightarrow> raw_logger res" where
  "set_path p l = rbind (c_strncpy (rl_path l) p (MAX_PATH_LEN - 1)) (\<lambda>b. Inr (l\<lparr>rl_path := b\<rparr>))"

definition set_logfile :: "u8 list \<Rightarrow> raw_logger \<Rightarrow> raw_logger res" where
  "set_logfile p l = rbind (c_strncpy (rl_file l) p (MAX_FILENAME_LEN - 1)) (\<lambda>b. Inr (l\<lparr>rl_file := b\<rparr>))"

definition enable_console :: "bool \<Rightarrow> raw_logger \<Rightarrow> raw_logger" where
  "enable_console s l = l\<lparr>rl_console := s\<rparr>"

text \<open>\<^verbatim>\<open>fmt_time\<close> fills at most \<open>n\<close> bytes; a longer text leaves the buffer unspecified.\<close>

definition fmt_time :: "u8 list \<Rightarrow> nat \<Rightarrow> u8 list option" where
  "fmt_time now n = (if length now < n then Some now else None)"

text \<open>\<^verbatim>\<open>vlog\<close>: the path is cut at the size of its buffer; \<open>opened\<close> says which paths \<^verbatim>\<open>fopen\<close> can open.\<close>

definition vlog :: "(u8 list \<Rightarrow> bool) \<Rightarrow> u8 list \<Rightarrow> u8 list \<Rightarrow> raw_logger \<Rightarrow> log_world \<Rightarrow> log_world res" where
  "vlog opened now text l w =
     rbind (c_string (lw_path_root w)) (\<lambda>root.
     rbind (c_string (rl_path l)) (\<lambda>path.
     rbind (c_string (rl_file l)) (\<lambda>file.
     let path_buf = take (MAX_PATH_LEN * 2 - 1) (root @ c_lit ''/'' @ path @ c_lit ''/'' @ file) in
     if \<not> opened path_buf then Inl Assert_fail
     else
       rbind (deref (fmt_time now 64)) (\<lambda>timebuf.
       let line = timebuf @ c_lit '' '' @ text @ [10];
           w = (if rl_console l then w\<lparr>lw_console := lw_console w @ line\<rparr> else w);
           old = (case lw_files w path_buf of None \<Rightarrow> [] | Some c \<Rightarrow> c) in
       Inr (w\<lparr>lw_files := (lw_files w)(path_buf \<mapsto> old @ line)\<rparr>)))))"

definition logger_log :: "(u8 list \<Rightarrow> bool) \<Rightarrow> u8 list \<Rightarrow> u8 list \<Rightarrow> raw_logger \<Rightarrow> log_world \<Rightarrow> log_world res" where
  "logger_log opened now text l w = vlog opened now text l w"

text \<open>\<^verbatim>\<open>debug_log\<close>, \<^verbatim>\<open>debug_watch\<close> and \<^verbatim>\<open>ax_assert\<close>, with the static loggers they use.\<close>

definition debug_log :: "(u8 list \<Rightarrow> bool) \<Rightarrow> u8 list \<Rightarrow> u8 list \<Rightarrow> log_world \<Rightarrow> log_world res" where
  "debug_log opened now text w = rbind (logger_new_file (c_lit ''debug.log'')) (\<lambda>l. vlog opened now text l w)"

definition debug_watch :: "(u8 list \<Rightarrow> bool) \<Rightarrow> u8 list \<Rightarrow> u8 list \<Rightarrow> raw_logger \<times> log_world \<Rightarrow> (raw_logger \<times> log_world) res" where
  "debug_watch opened now text lw =
     (let (l, w) = lw in
      rbind (set_logfile (take (MAX_FILENAME_LEN - 1) (c_lit ''watch.log'')) l) (\<lambda>l.
      rbind (vlog opened now text l w) (\<lambda>w. Inr (l, w))))"

definition ax_assert :: "(u8 list \<Rightarrow> bool) \<Rightarrow> u8 list \<Rightarrow> u8 list \<Rightarrow> log_world \<Rightarrow> log_world res" where
  "ax_assert opened now text w = rbind (debug_log opened now text w) (\<lambda>_. Inl Assert_fail)"

section \<open>The registry of unit tests\<close>

record utest =
  ut_name :: "u8 list"
  ut_next :: "nat option"
  ut_enable :: int

record utests =
  us_objs :: "utest list"
  us_head :: "nat option"
  us_count :: u32

text \<open>Before any test is constructed.\<close>

definition utests_none :: utests where
  "utests_none = \<lparr>us_objs = [], us_head = None, us_count = 0\<rparr>"

text \<open>The constructor of a test; the test with number \<open>i\<close> is the \<open>i\<close>-th constructed.\<close>

definition utest_new :: "u8 list \<Rightarrow> utests \<Rightarrow> utests" where
  "utest_new name u =
     u\<lparr>us_objs := us_objs u @ [\<lparr>ut_name = name, ut_next = us_head u, ut_enable = 1\<rparr>], us_head := Some (length (us_objs u)),
       us_count := us_count u + 1\<rparr>"

definition test_count :: "utests \<Rightarrow> u32" where
  "test_count u = us_count u"

text \<open>The loop of \<^verbatim>\<open>start_test\<close> collects the names of the tests it runs.\<close>

fun test_loop :: "utests \<Rightarrow> nat \<Rightarrow> nat option \<Rightarrow> u8 list list res" where
  "test_loop u n None = Inr []"
| "test_loop u 0 (Some i) = Inl Diverge"
| "test_loop u (Suc n) (Some i) =
     (if i < length (us_objs u) then
        let t = us_objs u ! i in
        rbind (test_loop u n (ut_next t)) (\<lambda>names. Inr (if ut_enable t \<noteq> 0 then ut_name t # names else names))
      else Inl Mem_error)"

definition start_test :: "utests \<Rightarrow> (u8 list list \<times> int) res" where
  "start_test u = rbind (test_loop u (length (us_objs u)) (us_head u)) (\<lambda>names. Inr (names, int (length names)))"

text \<open>\<^verbatim>\<open>utest_log\<close> puts its prefix before the text; \<^verbatim>\<open>ut_assert\<close> only logs.\<close>

definition utest_log :: "(u8 list \<Rightarrow> bool) \<Rightarrow> u8 list \<Rightarrow> u8 list \<Rightarrow> u8 list \<Rightarrow> log_world \<Rightarrow> log_world res" where
  "utest_log opened now name text w =
     rbind (logger_new_file (c_lit ''utest.log'')) (\<lambda>l.
       vlog opened now (take 2047 (c_lit ''UTEST--'' @ name @ c_lit '' '' @ text)) l w)"

definition ut_assert :: "(u8 list \<Rightarrow> bool) \<Rightarrow> u8 list \<Rightarrow> u8 list \<Rightarrow> u8 list \<Rightarrow> log_world \<Rightarrow> log_world res" where
  "ut_assert opened now name text w = utest_log opened now name text w"

section \<open>Threads and the system\<close>

record 'a ax_thread =
  at_wfn :: "nat option"
  at_arg :: "'a option"

definition ax_thread_new :: "'a ax_thread" where
  "ax_thread_new = \<lparr>at_wfn = None, at_arg = None\<rparr>"

text \<open>\<open>ret\<close> is what \<^verbatim>\<open>pthread_create\<close>, \<open>join\<close> what \<^verbatim>\<open>pthread_join\<close> answered.\<close>

definition ax_thread_start :: "int \<Rightarrow> nat \<Rightarrow> 'a \<Rightarrow> 'a ax_thread \<Rightarrow> 'a ax_thread \<times> int" where
  "ax_thread_start ret wfn arg t = (t\<lparr>at_wfn := Some wfn, at_arg := Some arg\<rparr>, ret)"

definition ax_thread_stop :: "int \<Rightarrow> 'a ax_thread \<Rightarrow> 'a ax_thread \<times> int" where
  "ax_thread_stop join t = (t, join)"

text \<open>What a new thread runs.\<close>

definition thread_routine :: "(nat \<Rightarrow> 'a \<Rightarrow> 's \<Rightarrow> 's res) \<Rightarrow> 'a ax_thread \<Rightarrow> 's \<Rightarrow> 's res" where
  "thread_routine code t s = rbind (deref (at_wfn t)) (\<lambda>f. rbind (deref (at_arg t)) (\<lambda>a. code f a s))"

text \<open>\<^verbatim>\<open>ax_get_shell_result\<close>; \<open>out\<close> is what the command would print (None when \<^verbatim>\<open>popen\<close> fails).\<close>

definition ax_get_shell_result :: "u8 list option \<Rightarrow> u8 list option \<Rightarrow> block \<Rightarrow> nat \<Rightarrow> (block \<times> int) res" where
  "ax_get_shell_result cmd out output maxn =
     (case cmd of None \<Rightarrow> Inr (output, - 1)
      | Some _ \<Rightarrow>
          (case out of None \<Rightarrow> Inr (output, - 1)
           | Some bytes \<Rightarrow>
               let got = take maxn bytes; ret = length got in
               rbind (blk_write output 0 (map Some got)) (\<lambda>output.
               rbind (if ret = maxn then blk_write output (ret - 1) [Some 0] else Inr output) (\<lambda>output.
                 Inr (output, int ret)))))"

definition ax_get_physical_mem :: "u64 \<Rightarrow> u64 \<Rightarrow> int" where
  "ax_get_physical_mem pages pagesize = sint (ucast (pages * pagesize) :: u32)"

section \<open>Lemmas\<close>

text \<open>Whatever file the second constructor is given, the logger writes to the same one.\<close>

lemma logger_ignores_file: "logger_new_file file = logger_new"
  by (simp add: logger_new_file_def logger_new_def)

text \<open>A shorter name leaves nothing of a longer one behind, since \<^verbatim>\<open>strncpy\<close> fills up with zeros.\<close>

lemma c_strncpy_string:
  assumes "length dst = Suc n" and "dst ! n = Some 0" and "length s \<le> n" and "0 \<notin> set s"
  shows "\<exists>b. c_strncpy dst s n = Inr b \<and> c_string b = Inr s \<and> length b = Suc n \<and> b ! n = Some 0"
proof -
  have d: "drop n dst = [Some 0]" using assms(1,2) by (metis Cons_nth_drop_Suc drop_all le_refl lessI)
  let ?b = "map Some (s @ replicate (n - length s) 0) @ [Some 0]"
  have run: "c_strncpy dst s n = Inr ?b"
    using assms(1,3) d by (auto simp: c_strncpy_def blk_write_def)
  have "\<exists>r. ?b = map Some s @ Some 0 # r" by (cases "n - length s") auto
  then have "c_string ?b = Inr s" using c_string_prefix [OF assms(4)] by auto
  then show ?thesis using run assms(1,3) by (intro exI [of _ ?b]) (auto simp: nth_append)
qed

text \<open>The default logger writes behind what the file under the path root holds.\<close>

lemma c_string_pad: "0 \<notin> set s \<Longrightarrow> 0 < n \<Longrightarrow> c_string (map Some s @ replicate n (Some 0)) = Inr s"
  using c_string_prefix [of s "replicate (n - 1) (Some 0)"] by (cases n) simp_all

lemma logger_new_eq:
  "logger_new = Inr \<lparr>rl_path = map Some (c_lit ''.'') @ replicate 511 (Some 0),
     rl_file = map Some (c_lit ''debug.log'') @ replicate 247 (Some 0), rl_console = False\<rparr>"
  by (simp add: logger_new_def c_strcpy_def blk_write_def log_len_defs c_lit_def numeral_eq_Suc)

lemma vlog_ok:
  assumes "c_string (lw_path_root w) = Inr root" and "c_string (rl_path l) = Inr path" and "c_string (rl_file l) = Inr file"
    and "\<not> rl_console l" and "length (root @ c_lit ''/'' @ path @ c_lit ''/'' @ file) < 1024"
    and "opened (root @ c_lit ''/'' @ path @ c_lit ''/'' @ file)" and "length now < 64"
  shows "\<exists>w'. vlog opened now msg l w = Inr w' \<and> lw_path_root w' = lw_path_root w"
  using assms by (simp add: vlog_def Let_def fmt_time_def log_len_defs)

lemma debug_log_ok:
  assumes "c_string (lw_path_root w) = Inr root" and "length root \<le> 511" and "opened (root @ c_lit ''/./debug.log'')" and "length now < 64"
  shows "\<exists>w'. debug_log opened now msg w = Inr w' \<and> lw_path_root w' = lw_path_root w"
proof -
  have path: "root @ c_lit ''/'' @ c_lit ''.'' @ c_lit ''/'' @ c_lit ''debug.log'' = root @ c_lit ''/./debug.log''" by (simp add: c_lit_def)
  have s: "c_string (map Some (c_lit ''.'') @ replicate 511 (Some 0)) = Inr (c_lit ''.'')"
      "c_string (map Some (c_lit ''debug.log'') @ replicate 247 (Some 0)) = Inr (c_lit ''debug.log'')"
    by (rule c_string_pad; simp add: c_lit_def)+
  show ?thesis
    using vlog_ok [OF assms(1), of "\<lparr>rl_path = map Some (c_lit ''.'') @ replicate 511 (Some 0),
        rl_file = map Some (c_lit ''debug.log'') @ replicate 247 (Some 0), rl_console = False\<rparr>" "c_lit ''.''" "c_lit ''debug.log''" opened now msg]
      s assms(2-4) by (simp add: debug_log_def logger_ignores_file logger_new_eq path c_lit_def)
qed

lemma debug_watch_ok:
  assumes "c_string (lw_path_root w) = Inr root" and "length root \<le> 511" and "opened (root @ c_lit ''/./watch.log'')" and "length now < 64"
    and "logger_new = Inr l"
  shows "\<exists>l' w'. debug_watch opened now msg (l, w) = Inr (l', w') \<and> lw_path_root w' = lw_path_root w"
proof -
  have l: "l = \<lparr>rl_path = map Some (c_lit ''.'') @ replicate 511 (Some 0),
      rl_file = map Some (c_lit ''debug.log'') @ replicate 247 (Some 0), rl_console = False\<rparr>" using assms(5) by (simp add: logger_new_eq)
  have path: "root @ c_lit ''/'' @ c_lit ''.'' @ c_lit ''/'' @ c_lit ''watch.log'' = root @ c_lit ''/./watch.log''" by (simp add: c_lit_def)
  have s: "c_string (map Some (c_lit ''.'') @ replicate 511 (Some 0)) = Inr (c_lit ''.'')"
    by (rule c_string_pad; simp add: c_lit_def)
  have "length (rl_file l) = Suc 255" "rl_file l ! 255 = Some 0" by (simp_all add: l c_lit_def nth_append)
  then obtain b where b: "c_strncpy (rl_file l) (c_lit ''watch.log'') 255 = Inr b" "c_string b = Inr (c_lit ''watch.log'')"
    using c_strncpy_string [of "rl_file l" 255 "c_lit ''watch.log''"] by (auto simp: c_lit_def)
  have "take 255 (c_lit ''watch.log'') = c_lit ''watch.log''" by (simp add: c_lit_def)
  then have "set_logfile (take (MAX_FILENAME_LEN - 1) (c_lit ''watch.log'')) l = Inr (l\<lparr>rl_file := b\<rparr>)"
    using b(1) by (simp add: set_logfile_def log_len_defs)
  moreover obtain w' where "vlog opened now msg (l\<lparr>rl_file := b\<rparr>) w = Inr w'" "lw_path_root w' = lw_path_root w"
    using vlog_ok [OF assms(1), of "l\<lparr>rl_file := b\<rparr>" "c_lit ''.''" "c_lit ''watch.log''" opened now msg] s b(2) assms(2-4)
    by (auto simp: l path c_lit_def)
  ultimately show ?thesis by (simp add: debug_watch_def)
qed

text \<open>The path root a program starts with, and the one it sets.\<close>

lemma log_world_init_root: "c_string (lw_path_root (log_world_init files)) = Inr (c_lit ''.'')"
  using c_string_pad [of "c_lit ''.''" 511] by (simp add: log_world_init_def log_len_defs c_lit_def)

lemma set_pathroot_ok:
  assumes "lw_path_root w = lw_path_root (log_world_init files)" and "length p \<le> 511" and "0 \<notin> set p"
  shows "\<exists>w'. set_pathroot p w = Inr w' \<and> c_string (lw_path_root w') = Inr p"
proof -
  have "length (lw_path_root w) = Suc 511" "lw_path_root w ! 511 = Some 0"
    by (simp_all add: assms(1) log_world_init_def log_len_defs)
  then show ?thesis using c_strncpy_string [of "lw_path_root w" 511 p] assms(2,3) by (auto simp: set_pathroot_def log_len_defs)
qed

text \<open>The chain of the tests constructed so far, last first.\<close>

lemma test_loop_chain:
  assumes "k \<le> length (us_objs u)" and "k \<le> n"
    and "\<forall>i < length (us_objs u). ut_next (us_objs u ! i) = (if i = 0 then None else Some (i - 1)) \<and> ut_enable (us_objs u ! i) = 1"
  shows "test_loop u n (if k = 0 then None else Some (k - 1)) = Inr (map ut_name (rev (take k (us_objs u))))"
  using assms
proof (induction k arbitrary: n)
  case (Suc k)
  then obtain n' where n': "n = Suc n'" by (cases n) auto
  have k: "k < length (us_objs u)" using Suc.prems(1) by simp
  have "test_loop u n' (ut_next (us_objs u ! k)) = Inr (map ut_name (rev (take k (us_objs u))))"
    using Suc.IH [of n'] Suc.prems n' k by simp
  then show ?case using Suc.prems(3) k n' by (simp add: take_Suc_conv_app_nth)
qed simp

definition utests_ok :: "u8 list list \<Rightarrow> utests \<Rightarrow> bool" where
  "utests_ok names u \<longleftrightarrow> map ut_name (us_objs u) = names \<and> us_count u = of_nat (length names) \<and>
     us_head u = (if names = [] then None else Some (length names - 1)) \<and>
     (\<forall>i < length (us_objs u). ut_next (us_objs u ! i) = (if i = 0 then None else Some (i - 1)) \<and> ut_enable (us_objs u ! i) = 1)"

lemma utest_new_ok: "utests_ok names u \<Longrightarrow> utests_ok (names @ [n]) (utest_new n u)"
  by (auto simp: utests_ok_def utest_new_def nth_append less_Suc_eq)

lemma register_ok: "utests_ok ns u \<Longrightarrow> utests_ok (ns @ names) (fold utest_new names u)"
proof (induction names arbitrary: ns u)
  case (Cons a names)
  from Cons.IH [OF utest_new_ok [OF Cons.prems, of a]] show ?case by simp
qed simp

text \<open>\<^verbatim>\<open>start_test\<close> runs every registered test exactly once, the last one registered first, and reports their number;
  the loop over the linked list ends.\<close>

lemma utests_run_once:
  "start_test (fold utest_new names utests_none) = Inr (rev names, int (length names)) \<and>
   test_count (fold utest_new names utests_none) = of_nat (length names)"
proof -
  define u where "u = fold utest_new names utests_none"
  have ok: "utests_ok names u"
    using register_ok [of "[]" utests_none names] by (simp add: u_def utests_ok_def utests_none_def)
  have len: "length (us_objs u) = length names" using ok by (auto simp: utests_ok_def dest: arg_cong [of _ _ length])
  have "test_loop u (length names) (if length names = 0 then None else Some (length names - 1)) =
      Inr (map ut_name (rev (take (length names) (us_objs u))))"
    using ok len by (intro test_loop_chain) (auto simp: utests_ok_def)
  then have "start_test (fold utest_new names utests_none) = Inr (rev names, int (length names))"
    using ok len by (simp add: u_def [symmetric] start_test_def utests_ok_def rev_map [symmetric])
  then show ?thesis
    using ok by (simp add: u_def [symmetric] test_count_def utests_ok_def)
qed

end
