(* ===== verification/Node_Conf.thy ===== *)
theory Node_Conf
  imports Client_Mgr Ax_Debug
begin

text \<open>
  Configuration and life of a node: \<^verbatim>\<open>NodeConf\<close> of \<^verbatim>\<open>src/cgate_mt/node_init.h\<close> and \<^verbatim>\<open>node_init.cc\<close>, the globals and
  \<^verbatim>\<open>main\<close> of \<^verbatim>\<open>main.cc\<close>, and the base class \<^verbatim>\<open>NodeBase\<close> of \<^verbatim>\<open>src/core/node_base.h\<close>, \<^verbatim>\<open>node_base.cc\<close> and
  \<^verbatim>\<open>node_common.h\<close>. The methods of \<^verbatim>\<open>Json::Value\<close> the code calls are a record of functions that the definitions take
  as an argument; an exception of theirs, which nobody catches, ends the process. What the parser made of the
  configuration file is an argument too.
\<close>

section \<open>The JSON library\<close>

record 'j json_api =
  js_get :: "'j \<Rightarrow> string \<Rightarrow> 'j \<Rightarrow> 'j res"
  js_of_int :: "int \<Rightarrow> 'j"
  js_of_str :: "u8 list \<Rightarrow> 'j"
  js_asInt :: "'j \<Rightarrow> int res"
  js_asString :: "'j \<Rightarrow> u8 list res"
  js_isObject :: "'j \<Rightarrow> bool"

text \<open>The idioms \<^verbatim>\<open>get(key, default).asInt()\<close> and \<^verbatim>\<open>get(key, default).asString()\<close>.\<close>

definition conf_int :: "'j json_api \<Rightarrow> 'j \<Rightarrow> string \<Rightarrow> int \<Rightarrow> int res" where
  "conf_int api v key d = rbind (js_get api v key (js_of_int api d)) (js_asInt api)"

definition conf_str :: "'j json_api \<Rightarrow> 'j \<Rightarrow> string \<Rightarrow> string \<Rightarrow> u8 list res" where
  "conf_str api v key d = rbind (js_get api v key (js_of_str api (c_lit d))) (js_asString api)"

section \<open>The gateway's configuration\<close>

record ('c, 'd, 'k, 'v) node_state =
  nf_name :: string_t
  nf_hostnum :: int
  nf_logpath :: string_t
  nf_workdir :: string_t
  nf_timetick :: int
  nf_client_rbuf_size :: int
  nf_worker_num :: int
  nf_max_connect :: int
  nf_conf_file :: block
  g_main_poller :: "('c, 'd, 'k) mpoller option"
  g_client_mgr :: "('c, 'd, 'k, 'v) client_mgr option"
  g_node_state :: int

definition NODE_INIT :: int where "NODE_INIT = 0"
definition NODE_RUNNING :: int where "NODE_RUNNING = 1"
definition NODE_BEING_CLOSE :: int where "NODE_BEING_CLOSE = 2"

text \<open>The values of the statics when the program starts.\<close>

definition node_state_init :: "('c, 'd, 'k, 'v) node_state" where
  "node_state_init =
     \<lparr>nf_name = string_new, nf_hostnum = 10, nf_logpath = string_new, nf_workdir = string_new, nf_timetick = 100,
      nf_client_rbuf_size = 1024, nf_worker_num = 2, nf_max_connect = 1000,
      nf_conf_file = map Some (c_lit ''cgate.conf'' @ replicate 502 0), g_main_poller = None, g_client_mgr = None,
      g_node_state = 0\<rparr>"

definition set_node_config_file :: "u8 list \<Rightarrow> ('c, 'd, 'k, 'v) node_state \<Rightarrow> ('c, 'd, 'k, 'v) node_state res" where
  "set_node_config_file file g =
     rbind (c_strncpy (replicate (length (nf_conf_file g)) (Some 0)) file (length (nf_conf_file g) - 1)) (\<lambda>b.
       Inr (g\<lparr>nf_conf_file := b\<rparr>))"

text \<open>What the constructors of the poller and the manager get from the system: the time, the content of new memory,
  the addresses of string memory, and the answers of \<^verbatim>\<open>socket\<close>, \<^verbatim>\<open>setsockopt\<close> and \<^verbatim>\<open>socketpair\<close>.\<close>

record 'k node_env =
  ne_now :: u64
  ne_tjunk :: "u32 list"
  ne_entries :: "nat \<Rightarrow> mgr_reactor poller_entry list"
  ne_os :: 'k
  ne_adr :: "nat \<Rightarrow> u64"
  ne_sock :: int
  ne_opt :: bool
  ne_svs :: "nat \<Rightarrow> (int \<times> int) option"
  ne_wjunk :: "nat \<Rightarrow> thread_worker"
  ne_junk :: int

definition init_node_conf :: "'j json_api \<Rightarrow> 'k node_env \<Rightarrow> 'j option \<Rightarrow> ('c, 'd, 'k, 'v) node_state \<Rightarrow>
    (('c, 'd, 'k, 'v) node_state \<times> int) res" where
  "init_node_conf api env root g =
     (case root of None \<Rightarrow> Inr (g, AX_RET_ERROR)
      | Some root \<Rightarrow>
          rbind (rbind (conf_str api root ''name'' ''unknown'') (\<lambda>s. string_assign (ne_adr env 0) s (nf_name g))) (\<lambda>name.
          rbind (conf_int api root ''hostnum'' 89) (\<lambda>hostnum.
          rbind (conf_int api root ''timetick'' 100) (\<lambda>timetick.
          rbind (js_get api root ''net'' (js_of_int api 0)) (\<lambda>net.
          let g = g\<lparr>nf_name := name, nf_hostnum := hostnum, nf_timetick := timetick\<rparr> in
          if \<not> js_isObject api net then Inr (g, AX_RET_ERROR)
          else
            rbind (conf_int api net ''client_port'' 1234) (\<lambda>port.
            rbind (conf_int api net ''backlog'' 10) (\<lambda>backlog.
            rbind (conf_int api net ''max_connect'' 1000) (\<lambda>max_connect.
            rbind (conf_int api net ''client_rbuf'' 1024) (\<lambda>client_rbuf.
            rbind (conf_int api net ''worker_num'' 2) (\<lambda>worker_num.
            rbind (rbind (c_int (worker_num * 2)) (\<lambda>d. c_int (100 + d))) (\<lambda>sz.
            let maxn = word_of_int sz in
            rbind (poller_new maxn timetick (ne_now env) (ne_tjunk env) (ne_entries env (unat maxn)) (ne_os env)) (\<lambda>poller.
            rbind (client_mgr_init max_connect (ne_sock env) (ne_opt env) (ne_svs env) (ne_wjunk env)
                     (word_of_int port) (word_of_int backlog) worker_num (client_mgr_new (ne_junk env) poller)) (\<lambda>mgr.
            rbind (rbind (conf_str api root ''logpath'' ''./'') (\<lambda>s. string_assign (ne_adr env 1) s (nf_logpath g))) (\<lambda>logpath.
            rbind (rbind (conf_str api root ''workdir'' ''./'') (\<lambda>s. string_assign (ne_adr env 2) s (nf_workdir g))) (\<lambda>workdir.
              Inr (g\<lparr>nf_max_connect := max_connect, nf_client_rbuf_size := client_rbuf, nf_worker_num := worker_num,
                g_main_poller := Some poller, g_client_mgr := Some mgr, nf_logpath := logpath, nf_workdir := workdir\<rparr>,
                AX_RET_OK))))))))))))))))"

definition reload_node_conf :: "'j option \<Rightarrow> ('c, 'd, 'k, 'v) node_state \<Rightarrow> ('c, 'd, 'k, 'v) node_state" where
  "reload_node_conf root g = g"

text \<open>\<^verbatim>\<open>load_node_conf\<close>; \<open>parsed\<close> is what \<^verbatim>\<open>Json::Reader::parse\<close> made of the file.\<close>

definition load_node_conf :: "'j json_api \<Rightarrow> 'k node_env \<Rightarrow> 'j option \<Rightarrow> int \<Rightarrow> ('c, 'd, 'k, 'v) node_state \<Rightarrow>
    (('c, 'd, 'k, 'v) node_state \<times> int) res" where
  "load_node_conf api env parsed is_reload g =
     (case parsed of None \<Rightarrow> Inr (g, - 1)
      | Some root \<Rightarrow>
          if is_reload = 0 then init_node_conf api env (Some root) g
          else Inr (reload_node_conf (Some root) g, 0))"

text \<open>\<^verbatim>\<open>main\<close> up to the loop of \<^verbatim>\<open>process\<close>; the flag says whether the node got there. The log is written before and
  after the configuration sets its path: \<open>opened\<close> says which files \<^verbatim>\<open>fopen\<close> can open (a log function aborts on the others),
  \<open>clk i\<close> is the time text of the \<open>i\<close>-th line. The flags of the build define \<^verbatim>\<open>RUN_INTERNAL\<close>, so \<^verbatim>\<open>DBG_WATCH\<close> at the start of
  \<^verbatim>\<open>process\<close> is \<^verbatim>\<open>debug_watch\<close>, on the static logger \<^verbatim>\<open>g_watch_logger\<close>.\<close>

definition cgate_main :: "(u8 list \<Rightarrow> bool) \<Rightarrow> (nat \<Rightarrow> u8 list) \<Rightarrow> 'j json_api \<Rightarrow> 'k node_env \<Rightarrow> 'j option \<Rightarrow> ('c, 'd, 'k) ev_request \<Rightarrow>
    (int \<Rightarrow> int) \<Rightarrow> ('c, 'd, 'k, 'v) node_state \<times> log_world \<Rightarrow> (('c, 'd, 'k, 'v) node_state \<times> log_world \<times> bool) res" where
  "cgate_main opened clk api env parsed ae started gw =
     (let (g, w) = gw in
      rbind logger_new (\<lambda>watch.
      rbind (debug_log opened (clk 0) (c_lit ''[INFO] node process started'') w) (\<lambda>w.
      rbind (set_node_config_file (c_lit ''cgate.conf'') g) (\<lambda>g.
      rbind (load_node_conf api env parsed 0 g) (\<lambda>(g, ret).
      if ret = AX_RET_ERROR then
        rbind (debug_log opened (clk 1) (c_lit ''[ERROR] failed to load config file.'') w) (\<lambda>w. Inr (g, w, False))
      else
        rbind (rbind (string_c_str (nf_logpath g)) (\<lambda>p. set_pathroot p w)) (\<lambda>w.
        rbind (deref (g_client_mgr g)) (\<lambda>mgr.
        rbind (start_worker ae (nf_max_connect g) started mgr) (\<lambda>(mgr, ret).
        let g = g\<lparr>g_client_mgr := Some mgr\<rparr> in
        if ret = AX_RET_ERROR then
          rbind (debug_log opened (clk 1) (c_lit ''[ERROR] fail to start worker'') w) (\<lambda>w. Inr (g, w, False))
        else
          let g = g\<lparr>g_node_state := NODE_RUNNING\<rparr> in
          rbind (debug_watch opened (clk 1) (c_lit ''client_mgr:: process'') (watch, w)) (\<lambda>(_, w).
            Inr (g, w, True))))))))))"

section \<open>The base class of nodes\<close>

definition INTERNAL_HOSTNUM :: int where "INTERNAL_HOSTNUM = 89"
definition MAX_NODE_CNT :: int where "MAX_NODE_CNT = 100"

definition ST_CREATE :: int where "ST_CREATE = 1"
definition ST_CONF_LOADED :: int where "ST_CONF_LOADED = 2"
definition ST_RUNNING :: int where "ST_RUNNING = 2"

record ('c, 'd, 'k) node_base =
  nb_type :: int
  nb_state :: int
  nb_poller :: "('c, 'd, 'k) mpoller option"
  nb_name :: "u8 list"
  nb_nodenum :: int
  nb_hostnum :: int
  nb_logpath :: "u8 list"
  nb_timetick :: int
  nb_max_poller_fd :: int
  nb_inner_port :: int

text \<open>The constructor; \<open>junk\<close> is what the members it does not set hold.\<close>

definition node_base_new :: "int \<Rightarrow> int \<Rightarrow> ('c, 'd, 'k) node_base" where
  "node_base_new junk nodetype =
     \<lparr>nb_type = nodetype, nb_state = ST_CREATE, nb_poller = None, nb_name = [], nb_nodenum = junk, nb_hostnum = junk,
      nb_logpath = [], nb_timetick = 100, nb_max_poller_fd = MAX_NODE_CNT + 2, nb_inner_port = junk\<rparr>"

definition init_basic :: "'j json_api \<Rightarrow> 'j \<Rightarrow> ('c, 'd, 'k) node_base \<Rightarrow> (('c, 'd, 'k) node_base \<times> int) res" where
  "init_basic api root n =
     rbind (conf_str api root ''name'' ''unknown'') (\<lambda>name.
     rbind (conf_int api root ''hostnum'' INTERNAL_HOSTNUM) (\<lambda>hostnum.
     rbind (conf_str api root ''logpath'' ''./'') (\<lambda>logpath.
     rbind (conf_int api root ''timetick'' 100) (\<lambda>timetick.
     rbind (conf_int api root ''nodenum'' 2) (\<lambda>nodenum.
       Inr (n\<lparr>nb_name := name, nb_hostnum := hostnum, nb_logpath := logpath, nb_timetick := timetick,
         nb_nodenum := nodenum\<rparr>, AX_RET_OK))))))"

definition init_inner_net_conf :: "'j json_api \<Rightarrow> 'j \<Rightarrow> ('c, 'd, 'k) node_base \<Rightarrow> (('c, 'd, 'k) node_base \<times> int) res" where
  "init_inner_net_conf api root n =
     rbind (js_get api root ''net'' (js_of_int api 0)) (\<lambda>net.
     if \<not> js_isObject api net then Inr (n, AX_RET_ERROR)
     else rbind (conf_int api root ''inner_port'' 8883) (\<lambda>port. Inr (n\<lparr>nb_inner_port := port\<rparr>, AX_RET_OK)))"

definition init_outer_net_conf :: "'j \<Rightarrow> ('c, 'd, 'k) node_base \<Rightarrow> ('c, 'd, 'k) node_base \<times> int" where
  "init_outer_net_conf root n = (n, AX_RET_OK)"

definition init_config :: "'j json_api \<Rightarrow> 'k node_env \<Rightarrow> 'j \<Rightarrow> ('c, 'd, 'k) node_base \<Rightarrow> (('c, 'd, 'k) node_base \<times> int) res" where
  "init_config api env root n =
     rbind (init_basic api root n) (\<lambda>(n, ret).
     if ret = AX_RET_ERROR then Inr (n, ret)
     else
       rbind (init_inner_net_conf api root n) (\<lambda>(n, ret).
       if ret = AX_RET_ERROR then Inr (n, ret)
       else
         let (n, ret) = init_outer_net_conf root n in
         if ret = AX_RET_ERROR then Inr (n, ret)
         else
           let maxn = word_of_int (nb_max_poller_fd n) in
           rbind (poller_new maxn (nb_timetick n) (ne_now env) (ne_tjunk env) (ne_entries env (unat maxn)) (ne_os env)) (\<lambda>p.
             Inr (n\<lparr>nb_poller := Some p\<rparr>, ret))))"

definition reload_config :: "'j \<Rightarrow> ('c, 'd, 'k) node_base \<Rightarrow> ('c, 'd, 'k) node_base \<times> int" where
  "reload_config root n = (n, AX_RET_OK)"

text \<open>\<^verbatim>\<open>load_node_config\<close>, with the two branches in the order of the code.\<close>

definition load_node_config :: "'j json_api \<Rightarrow> 'k node_env \<Rightarrow> 'j option \<Rightarrow> bool \<Rightarrow> ('c, 'd, 'k) node_base \<Rightarrow>
    (('c, 'd, 'k) node_base \<times> int) res" where
  "load_node_config api env parsed is_reload n =
     (case parsed of None \<Rightarrow> Inr (n, AX_RET_ERROR)
      | Some root \<Rightarrow> if is_reload then init_config api env root n else Inr (reload_config root n))"

text \<open>The argument loop of \<^verbatim>\<open>CommonArgHandler\<close>: for each option \<^verbatim>\<open>getopt\<close> found, its letter and what the parser made of
  the file its argument names.\<close>

fun common_arg_handler :: "'j json_api \<Rightarrow> 'k node_env \<Rightarrow> (char \<times> 'j option) list \<Rightarrow> int \<Rightarrow> ('c, 'd, 'k) node_base \<Rightarrow>
    (('c, 'd, 'k) node_base \<times> int) res" where
  "common_arg_handler api env [] err n = Inr (n, err)"
| "common_arg_handler api env ((ch, parsed) # opts) err n =
     (if ch = CHR ''c'' then
        rbind (load_node_config api env parsed False n) (\<lambda>(n, err). common_arg_handler api env opts err n)
      else common_arg_handler api env opts err n)"

definition node_run :: "('c, 'd, 'k) node_base \<Rightarrow> int" where
  "node_run n = 0"

definition node_terminate :: "('c, 'd, 'k) node_base \<Rightarrow> int res" where
  "node_terminate n = Inl Assert_fail"

text \<open>\<open>_ax_node_main\<close>; the signal handler it registers does nothing.\<close>

definition ax_node_main :: "'j json_api \<Rightarrow> 'k node_env \<Rightarrow> (char \<times> 'j option) list \<Rightarrow> ('c, 'd, 'k) node_base \<Rightarrow>
    (('c, 'd, 'k) node_base \<times> int) res" where
  "ax_node_main api env opts n =
     rbind (common_arg_handler api env opts AX_RET_OK n) (\<lambda>(n, ret).
     if ret = AX_RET_ERROR then Inr (n, - 1) else Inr (n, node_run n))"

section \<open>Properties\<close>

lemma strncpy_conf_file:
  assumes "length file \<le> 511" and "length (nf_conf_file g) = 512"
  shows "\<exists>b. set_node_config_file file g = Inr (g\<lparr>nf_conf_file := b\<rparr>)"
  using assms by (auto simp: set_node_config_file_def c_strncpy_def blk_write_def)

lemma c_lit_length: "length (c_lit s) = length s"
  by (simp add: c_lit_def)

lemma word_of_int_u16_back: "0 \<le> x \<Longrightarrow> x < 65536 \<Longrightarrow> int (unat (word_of_int x :: u16)) = x"
  by (simp add: uint_word_of_int)

lemma word_of_int_u16_pos:
  assumes "0 < x" and "x < 65536"
  shows "(word_of_int x :: u16) > 0"
  using assms by (simp add: word_less_def uint_word_of_int)

text \<open>C7: A gateway that finds its configuration comes up as configured. When the parsed file has an object \<^verbatim>\<open>net\<close>, the
  members read from it (or their defaults) are in range, the system grants sockets and threads, and the log files \<^verbatim>\<open>debug.log\<close> in
  the working directory and \<^verbatim>\<open>watch.log\<close> under the configured log path can be opened, \<^verbatim>\<open>main\<close> gets to its loop: name, paths and
  limits are those of the file, the log goes to the configured path, and the manager has one started worker with an
  open mailbox for each worker asked for, 32 at most, and a listener for the configured port and backlog that does not listen yet.\<close>

theorem gateway_configured:
  fixes g0 :: "('c, 'd, 'k, 'v) node_state"
  assumes "g0 = node_state_init" and "js_get api root ''net'' (js_of_int api 0) = Inr net" and "js_isObject api net"
    and "conf_str api root ''name'' ''unknown'' = Inr name" and "conf_str api root ''logpath'' ''./'' = Inr logpath"
    and "conf_str api root ''workdir'' ''./'' = Inr workdir"
    and "list_all (\<lambda>s. 0 \<notin> set s \<and> length s \<le> 511) [name, logpath, workdir]"
    and "conf_int api root ''hostnum'' 89 = Inr hostnum" and "conf_int api root ''timetick'' 100 = Inr timetick"
    and "conf_int api net ''client_port'' 1234 = Inr port" and "conf_int api net ''backlog'' 10 = Inr backlog"
    and "conf_int api net ''max_connect'' 1000 = Inr max_connect" and "conf_int api net ''client_rbuf'' 1024 = Inr rbuf"
    and "conf_int api net ''worker_num'' 2 = Inr worker_num"
    and "0 < timetick" and "0 < port" and "port < 65536" and "0 < backlog" and "backlog < 65536"
    and "0 < worker_num" and "worker_num < 1000000"
    and "\<forall>n. length (ne_entries env n) = n" and "0 \<le> ne_sock env" and "ne_opt env" and "\<forall>i. ne_svs env i \<noteq> None"
    and "\<forall>i. started i = 0" and "0 \<le> max_connect" and "max_connect < 2 ^ 30"
    and "opened (c_lit ''././debug.log'')" and "opened (logpath @ c_lit ''/./watch.log'')" and "\<forall>i. length (clk i) < 64"
  shows "\<exists>g w mgr ls. cgate_main opened clk api env (Some root) (epoll_add_event ctl) started (g0, log_world_init files) = Inr (g, w, True) \<and>
    g_node_state g = NODE_RUNNING \<and> g_client_mgr g = Some mgr \<and> c_string (lw_path_root w) = Inr logpath \<and>
    mgr_base ls (\<lambda>_. started_worker) mgr \<and> length (cm_workers mgr) = nat (min 32 worker_num) \<and>
    listener_ready ls \<and> \<not> ls_listening ls \<and> int (unat (ls_port ls)) = port \<and> ls_backlog ls = backlog \<and>
    string_c_str (nf_name g) = Inr name \<and> string_c_str (nf_logpath g) = Inr logpath \<and> string_c_str (nf_workdir g) = Inr workdir \<and>
    nf_hostnum g = hostnum \<and> nf_max_connect g = max_connect \<and> nf_client_rbuf_size g = rbuf \<and> nf_worker_num g = worker_num"
proof -
  define maxn :: u32 where "maxn = word_of_int (100 + worker_num * 2)"
  have mx: "unat maxn < 2 ^ 31"
    using assms(20,21) by (simp add: maxn_def unat_eq_nat_uint uint_word_of_int nat_less_iff del: of_int_add)
  have sz: "c_int (worker_num * 2) = Inr (worker_num * 2)" "c_int (100 + worker_num * 2) = Inr (100 + worker_num * 2)"
    using assms(20,21) by (auto intro!: c_int_nonneg)
  have len: "length (ne_entries env (unat maxn)) = unat maxn" using assms(22) by blast
  obtain poller :: "('c, 'd, 'k) mpoller" where poller:
      "poller_new maxn timetick (ne_now env) (ne_tjunk env) (ne_entries env (unat maxn)) (ne_os env) = Inr poller"
    using poller_new_eq [OF assms(15) len mx, of "ne_now env" "ne_tjunk env" "ne_os env"] by blast
  have pok: "poller_ok poller" by (rule poller_newD(1) [OF poller len mx])
  obtain ls and mgr1 :: "('c, 'd, 'k, 'v) client_mgr" where mgr1:
      "client_mgr_init max_connect (ne_sock env) (ne_opt env) (ne_svs env) (ne_wjunk env) (word_of_int port) (word_of_int backlog)
         worker_num (client_mgr_new (ne_junk env) poller) = Inr mgr1"
      "mgr_base ls (\<lambda>_. fresh_worker) mgr1" "listener_ready ls" "length (cm_workers mgr1) = nat (min 32 worker_num)"
      "\<not> ls_listening ls" "ls_port ls = word_of_int port" "ls_backlog ls = int (unat (word_of_int backlog :: u16))"
    using init_ok [OF assms(25) word_of_int_u16_pos [OF assms(16,17)] word_of_int_u16_pos [OF assms(18,19)] assms(23,24,20) pok assms(27,28),
        of "ne_wjunk env" "ne_junk env"] by blast
  have pb: "int (unat (ls_port ls)) = port" "ls_backlog ls = backlog"
    using mgr1(6,7) word_of_int_u16_back [of port] word_of_int_u16_back [of backlog] assms(16-19) by simp_all
  obtain mgr where mgr: "start_worker (epoll_add_event ctl) max_connect started mgr1 = Inr (mgr, 0)"
      "length (cm_workers mgr) = nat (min 32 worker_num)" "mgr_base ls (\<lambda>_. started_worker) mgr"
    using start_worker_ok [OF mgr1(2) assms(26-28), of ctl] mgr1(4) by auto
  have rep: "string_rep [] string_new" using string_new_rep by (simp add: string_rep_def)
  have asg: "\<exists>t. string_assign a s string_new = Inr t \<and> string_c_str t = Inr s" if "s \<in> {name, logpath, workdir}" for a s
  proof -
    have "0 \<notin> set s" "length s + 1 < 2 ^ 32" using that assms(7) by auto
    then show ?thesis using string_assign_ok [OF rep, of s a] string_rep_c_str by blast
  qed
  obtain t1 t2 t3 where t: "string_assign (ne_adr env 0) name string_new = Inr t1" "string_c_str t1 = Inr name"
      "string_assign (ne_adr env 1) logpath string_new = Inr t2" "string_c_str t2 = Inr logpath"
      "string_assign (ne_adr env 2) workdir string_new = Inr t3" "string_c_str t3 = Inr workdir"
    using asg [of name "ne_adr env 0"] asg [of logpath "ne_adr env 1"] asg [of workdir "ne_adr env 2"] by blast
  have g0: "nf_name g0 = string_new" "nf_logpath g0 = string_new" "nf_workdir g0 = string_new" "length (nf_conf_file g0) = 512"
    by (simp_all add: assms(1) node_state_init_def c_lit_length)
  obtain b where b: "set_node_config_file (c_lit ''cgate.conf'') g0 = Inr (g0\<lparr>nf_conf_file := b\<rparr>)"
    using strncpy_conf_file [of "c_lit ''cgate.conf''" g0] g0(4) by (auto simp: c_lit_length)
  have "\<exists>g. init_node_conf api env (Some root) (g0\<lparr>nf_conf_file := b\<rparr>) = Inr (g, AX_RET_OK) \<and> g_client_mgr g = Some mgr1 \<and>
      nf_name g = t1 \<and> nf_logpath g = t2 \<and> nf_workdir g = t3 \<and> nf_hostnum g = hostnum \<and> nf_max_connect g = max_connect \<and>
      nf_client_rbuf_size g = rbuf \<and> nf_worker_num g = worker_num"
    using assms(2-6,8-14) t(1,3,5) g0(1-3) poller [unfolded maxn_def] mgr1(1) sz
    by (simp add: init_node_conf_def Let_def del: of_int_add of_int_mult)
  then obtain g where g: "init_node_conf api env (Some root) (g0\<lparr>nf_conf_file := b\<rparr>) = Inr (g, AX_RET_OK)" "g_client_mgr g = Some mgr1"
      "nf_name g = t1" "nf_logpath g = t2" "nf_workdir g = t3" "nf_hostnum g = hostnum" "nf_max_connect g = max_connect"
      "nf_client_rbuf_size g = rbuf" "nf_worker_num g = worker_num" by blast
  have lp: "0 \<notin> set logpath" "length logpath \<le> 511" using assms(7) by simp_all
  obtain watch where watch: "logger_new = Inr watch" using logger_new_eq by blast
  have "opened (c_lit ''.'' @ c_lit ''/./debug.log'')" using assms(29) by (simp add: c_lit_def)
  then obtain w1 where w1: "debug_log opened (clk 0) (c_lit ''[INFO] node process started'') (log_world_init files) = Inr w1"
      "lw_path_root w1 = lw_path_root (log_world_init files)"
    using debug_log_ok [OF log_world_init_root, of opened "clk 0" "c_lit ''[INFO] node process started''" files] assms(31) by (auto simp: c_lit_length)
  obtain w2 where w2: "set_pathroot logpath w1 = Inr w2" "c_string (lw_path_root w2) = Inr logpath"
    using set_pathroot_ok [OF w1(2) lp(2,1)] by blast
  obtain l w where w: "debug_watch opened (clk 1) (c_lit ''client_mgr:: process'') (watch, w2) = Inr (l, w)" "lw_path_root w = lw_path_root w2"
    using debug_watch_ok [OF w2(2) lp(2), of opened "clk 1" watch "c_lit ''client_mgr:: process''"] assms(30,31) watch by auto
  have c: "string_c_str (nf_logpath g) = Inr logpath" using g(4) t(4) by simp
  have "cgate_main opened clk api env (Some root) (epoll_add_event ctl) started (g0, log_world_init files) =
      Inr (g\<lparr>g_client_mgr := Some mgr, g_node_state := NODE_RUNNING\<rparr>, w, True)"
    unfolding cgate_main_def watch using w1(1) w2(1) w(1) b g(1,2,7) mgr(1) c by (simp add: load_node_conf_def ax_ret_defs)
  then show ?thesis using g(3-9) mgr(2,3) mgr1(3,5) pb t(2,4,6) w(2) w2(2)
    by (intro exI [of _ "g\<lparr>g_client_mgr := Some mgr, g_node_state := NODE_RUNNING\<rparr>"] exI [of _ w] exI [of _ mgr] exI [of _ ls]) simp
qed

text \<open>A JSON library for the witnesses, and a configuration that leaves most members to their defaults.\<close>

datatype sim_json = SJ_int int | SJ_str "u8 list" | SJ_obj "(string \<times> sim_json) list"

definition sim_api :: "sim_json json_api" where
  "sim_api =
     \<lparr>js_get = (\<lambda>v k d. case v of SJ_obj m \<Rightarrow> Inr (case map_of m k of None \<Rightarrow> d | Some x \<Rightarrow> x) | _ \<Rightarrow> Inl Assert_fail),
      js_of_int = SJ_int, js_of_str = SJ_str,
      js_asInt = (\<lambda>v. case v of SJ_int n \<Rightarrow> Inr n | _ \<Rightarrow> Inl Assert_fail),
      js_asString = (\<lambda>v. case v of SJ_str s \<Rightarrow> Inr s | _ \<Rightarrow> Inl Assert_fail),
      js_isObject = (\<lambda>v. case v of SJ_obj _ \<Rightarrow> True | _ \<Rightarrow> False)\<rparr>"

definition sim_conf :: sim_json where
  "sim_conf = SJ_obj [(''name'', SJ_str (c_lit ''cgate'')), (''net'', SJ_obj [(''client_port'', SJ_int 1234), (''worker_num'', SJ_int 3)])]"

definition sim_env :: "int list node_env" where
  "sim_env =
     \<lparr>ne_now = 5, ne_tjunk = [0, 0, 0],
      ne_entries = (\<lambda>n. replicate n \<lparr>pe_ev_mask = 0, pe_status = FDS_EMPTY, pe_reactor = None\<rparr>), ne_os = [],
      ne_adr = (\<lambda>n. 4096), ne_sock = 3, ne_opt = True, ne_svs = (\<lambda>i. Some (2 * int i + 4, 2 * int i + 5)),
      ne_wjunk = (\<lambda>_. sim_tworker), ne_junk = 7\<rparr>"

theorem gateway_configured_witness:
  "\<exists>g w mgr ls. cgate_main (\<lambda>_. True) (\<lambda>_. c_lit ''2011/01/01-00:00:00'') sim_api sim_env (Some sim_conf) (epoll_add_event sim_ctl) (\<lambda>_. 0)
       (node_state_init :: (unit, unit, int list, unit) node_state, log_world_init Map.empty) = Inr (g, w, True) \<and>
     g_client_mgr g = Some mgr \<and> length (cm_workers mgr) = 3 \<and> cm_listener mgr = Some ls \<and> int (unat (ls_port ls)) = 1234 \<and>
     string_c_str (nf_name g) = Inr (c_lit ''cgate'') \<and> c_string (lw_path_root w) = Inr (c_lit ''./'') \<and>
     nf_max_connect g = 1000 \<and> nf_client_rbuf_size g = 1024"
proof -
  let ?net = "SJ_obj [(''client_port'', SJ_int 1234), (''worker_num'', SJ_int 3)]"
  have conf: "js_get sim_api sim_conf ''net'' (js_of_int sim_api 0) = Inr ?net" "js_isObject sim_api ?net"
      "conf_str sim_api sim_conf ''name'' ''unknown'' = Inr (c_lit ''cgate'')" "conf_str sim_api sim_conf ''logpath'' ''./'' = Inr (c_lit ''./'')"
      "conf_str sim_api sim_conf ''workdir'' ''./'' = Inr (c_lit ''./'')"
      "list_all (\<lambda>s. 0 \<notin> set s \<and> length s \<le> 511) [c_lit ''cgate'', c_lit ''./'', c_lit ''./'']"
      "conf_int sim_api sim_conf ''hostnum'' 89 = Inr 89" "conf_int sim_api sim_conf ''timetick'' 100 = Inr 100"
      "conf_int sim_api ?net ''client_port'' 1234 = Inr 1234" "conf_int sim_api ?net ''backlog'' 10 = Inr 10"
      "conf_int sim_api ?net ''max_connect'' 1000 = Inr 1000" "conf_int sim_api ?net ''client_rbuf'' 1024 = Inr 1024"
      "conf_int sim_api ?net ''worker_num'' 2 = Inr 3"
    by (simp_all add: sim_api_def sim_conf_def conf_int_def conf_str_def c_lit_def)
  from gateway_configured [OF refl conf, of sim_env "\<lambda>_. 0" "\<lambda>_. True" "\<lambda>_. c_lit ''2011/01/01-00:00:00''" sim_ctl Map.empty] show ?thesis
    by (auto simp: sim_env_def c_lit_length mgr_base_def)
qed

lemma arg_handler_ignores:
  assumes "\<forall>(ch, parsed) \<in> set opts. ch = CHR ''c'' \<longrightarrow> parsed \<noteq> None"
  shows "common_arg_handler api env opts AX_RET_OK n = Inr (n, AX_RET_OK)"
  using assms by (induction opts) (auto simp: load_node_config_def reload_config_def split: option.splits)

text \<open>A node started through \<open>_ax_node_main\<close> never reads its configuration: the argument handler asks
  \<^verbatim>\<open>load_node_config\<close> for a first load, and that branch calls \<^verbatim>\<open>reload_config\<close>, which does nothing. Whatever files the
  options name, the node runs without a poller as its constructor left it.\<close>

lemma node_main_ignores_config:
  assumes "\<forall>(ch, parsed) \<in> set opts. ch = CHR ''c'' \<longrightarrow> parsed \<noteq> None"
  shows "ax_node_main api env opts (node_base_new junk t) = Inr (node_base_new junk t, 0)"
  by (simp add: ax_node_main_def node_run_def arg_handler_ignores [OF assms]) (simp add: ax_ret_defs)

end
