(* ===== verification/Lua_Opcodes.thy ===== *)
theory Lua_Opcodes
  imports Ax_Prelude
begin

text \<open>
  The instruction format of the Lua virtual machine shipped with the engine: \<^verbatim>\<open>lopcodes.h\<close> and \<^verbatim>\<open>lopcodes.c\<close> under
  \<^verbatim>\<open>depends/lua/src\<close>. An instruction is a 32-bit word with an opcode of 6 bits and the arguments \<open>A\<close> (8 bits), \<open>B\<close> and
  \<open>C\<close> (9 bits each) or \<open>Bx\<close> (18 bits, also read as a signed number in excess notation). Every macro of the header is a
  function; the table of properties of the opcodes is the list of its bytes.
\<close>

section \<open>Fields\<close>

type_synonym instruction = u32

definition SIZE_C :: nat where "SIZE_C = 9"
definition SIZE_B :: nat where "SIZE_B = 9"
definition SIZE_Bx :: nat where "SIZE_Bx = SIZE_C + SIZE_B"
definition SIZE_A :: nat where "SIZE_A = 8"
definition SIZE_OP :: nat where "SIZE_OP = 6"
definition POS_OP :: nat where "POS_OP = 0"
definition POS_A :: nat where "POS_A = POS_OP + SIZE_OP"
definition POS_C :: nat where "POS_C = POS_A + SIZE_A"
definition POS_B :: nat where "POS_B = POS_C + SIZE_C"
definition POS_Bx :: nat where "POS_Bx = POS_C"

lemmas field_sizes = SIZE_C_def SIZE_B_def SIZE_Bx_def SIZE_A_def SIZE_OP_def POS_OP_def POS_A_def POS_C_def POS_B_def POS_Bx_def

definition MAXARG_Bx :: int where "MAXARG_Bx = 2 ^ SIZE_Bx - 1"
definition MAXARG_sBx :: int where "MAXARG_sBx = drop_bit 1 MAXARG_Bx"
definition MAXARG_A :: int where "MAXARG_A = 2 ^ SIZE_A - 1"
definition MAXARG_B :: int where "MAXARG_B = 2 ^ SIZE_B - 1"
definition MAXARG_C :: int where "MAXARG_C = 2 ^ SIZE_C - 1"

definition MASK1 :: "nat \<Rightarrow> nat \<Rightarrow> instruction" where
  "MASK1 n p = push_bit p (NOT (push_bit n (NOT 0)))"

definition MASK0 :: "nat \<Rightarrow> nat \<Rightarrow> instruction" where
  "MASK0 n p = NOT (MASK1 n p)"

definition GET_OPCODE :: "instruction \<Rightarrow> u32" where
  "GET_OPCODE i = drop_bit POS_OP i AND MASK1 SIZE_OP 0"

definition SET_OPCODE :: "instruction \<Rightarrow> u32 \<Rightarrow> instruction" where
  "SET_OPCODE i w = (i AND MASK0 SIZE_OP POS_OP) OR (push_bit POS_OP w AND MASK1 SIZE_OP POS_OP)"

definition GETARG_A :: "instruction \<Rightarrow> u32" where
  "GETARG_A i = drop_bit POS_A i AND MASK1 SIZE_A 0"

definition SETARG_A :: "instruction \<Rightarrow> u32 \<Rightarrow> instruction" where
  "SETARG_A i u = (i AND MASK0 SIZE_A POS_A) OR (push_bit POS_A u AND MASK1 SIZE_A POS_A)"

definition GETARG_B :: "instruction \<Rightarrow> u32" where
  "GETARG_B i = drop_bit POS_B i AND MASK1 SIZE_B 0"

definition SETARG_B :: "instruction \<Rightarrow> u32 \<Rightarrow> instruction" where
  "SETARG_B i u = (i AND MASK0 SIZE_B POS_B) OR (push_bit POS_B u AND MASK1 SIZE_B POS_B)"

definition GETARG_C :: "instruction \<Rightarrow> u32" where
  "GETARG_C i = drop_bit POS_C i AND MASK1 SIZE_C 0"

definition SETARG_C :: "instruction \<Rightarrow> u32 \<Rightarrow> instruction" where
  "SETARG_C i u = (i AND MASK0 SIZE_C POS_C) OR (push_bit POS_C u AND MASK1 SIZE_C POS_C)"

definition GETARG_Bx :: "instruction \<Rightarrow> u32" where
  "GETARG_Bx i = drop_bit POS_Bx i AND MASK1 SIZE_Bx 0"

definition SETARG_Bx :: "instruction \<Rightarrow> u32 \<Rightarrow> instruction" where
  "SETARG_Bx i u = (i AND MASK0 SIZE_Bx POS_Bx) OR (push_bit POS_Bx u AND MASK1 SIZE_Bx POS_Bx)"

definition GETARG_sBx :: "instruction \<Rightarrow> int" where
  "GETARG_sBx i = sint (GETARG_Bx i) - MAXARG_sBx"

definition SETARG_sBx :: "instruction \<Rightarrow> int \<Rightarrow> instruction" where
  "SETARG_sBx i b = SETARG_Bx i (word_of_int (b + MAXARG_sBx))"

definition CREATE_ABC :: "u32 \<Rightarrow> u32 \<Rightarrow> u32 \<Rightarrow> u32 \<Rightarrow> instruction" where
  "CREATE_ABC op a b c = push_bit POS_OP op OR push_bit POS_A a OR push_bit POS_B b OR push_bit POS_C c"

definition CREATE_ABx :: "u32 \<Rightarrow> u32 \<Rightarrow> u32 \<Rightarrow> instruction" where
  "CREATE_ABx op a bc = push_bit POS_OP op OR push_bit POS_A a OR push_bit POS_Bx bc"

text \<open>Register or constant.\<close>

definition BITRK :: u32 where "BITRK = push_bit (SIZE_B - 1) 1"
definition ISK :: "u32 \<Rightarrow> bool" where "ISK x \<longleftrightarrow> x AND BITRK \<noteq> 0"
definition INDEXK :: "u32 \<Rightarrow> u32" where "INDEXK r = r AND NOT BITRK"
definition MAXINDEXRK :: u32 where "MAXINDEXRK = BITRK - 1"
definition RKASK :: "u32 \<Rightarrow> u32" where "RKASK x = x OR BITRK"
definition NO_REG :: int where "NO_REG = MAXARG_A"

section \<open>Opcodes\<close>

datatype OpMode = iABC | iABx | iAsBx

datatype OpArgMask = OpArgN | OpArgU | OpArgR | OpArgK

datatype OpCode =
    OP_MOVE | OP_LOADK | OP_LOADBOOL | OP_LOADNIL | OP_GETUPVAL | OP_GETGLOBAL | OP_GETTABLE | OP_SETGLOBAL |
    OP_SETUPVAL | OP_SETTABLE | OP_NEWTABLE | OP_SELF | OP_ADD | OP_SUB | OP_MUL | OP_DIV |
    OP_MOD | OP_POW | OP_UNM | OP_NOT | OP_LEN | OP_CONCAT | OP_JMP | OP_EQ |
    OP_LT | OP_LE | OP_TEST | OP_TESTSET | OP_CALL | OP_TAILCALL | OP_RETURN | OP_FORLOOP |
    OP_FORPREP | OP_TFORLOOP | OP_SETLIST | OP_CLOSE | OP_CLOSURE | OP_VARARG

text \<open>The enumeration in the order of the source; the number of an opcode is its position.\<close>

definition op_list :: "OpCode list" where
  "op_list =
     [OP_MOVE, OP_LOADK, OP_LOADBOOL, OP_LOADNIL, OP_GETUPVAL, OP_GETGLOBAL, OP_GETTABLE, OP_SETGLOBAL,
      OP_SETUPVAL, OP_SETTABLE, OP_NEWTABLE, OP_SELF, OP_ADD, OP_SUB, OP_MUL, OP_DIV,
      OP_MOD, OP_POW, OP_UNM, OP_NOT, OP_LEN, OP_CONCAT, OP_JMP, OP_EQ,
      OP_LT, OP_LE, OP_TEST, OP_TESTSET, OP_CALL, OP_TAILCALL, OP_RETURN, OP_FORLOOP,
      OP_FORPREP, OP_TFORLOOP, OP_SETLIST, OP_CLOSE, OP_CLOSURE, OP_VARARG]"

definition op_num :: "OpCode \<Rightarrow> nat" where
  "op_num p = length (takeWhile (\<lambda>q. q \<noteq> p) op_list)"

definition NUM_OPCODES :: nat where "NUM_OPCODES = op_num OP_VARARG + 1"

definition LFIELDS_PER_FLUSH :: int where "LFIELDS_PER_FLUSH = 50"

text \<open>The values of the two enumerations of modes.\<close>

fun mode_num :: "OpMode \<Rightarrow> u8" where
  "mode_num iABC = 0"
| "mode_num iABx = 1"
| "mode_num iAsBx = 2"

fun arg_num :: "OpArgMask \<Rightarrow> u8" where
  "arg_num OpArgN = 0"
| "arg_num OpArgU = 1"
| "arg_num OpArgR = 2"
| "arg_num OpArgK = 3"

definition opmode :: "u8 \<Rightarrow> u8 \<Rightarrow> OpArgMask \<Rightarrow> OpArgMask \<Rightarrow> OpMode \<Rightarrow> u8" where
  "opmode t a b c m = push_bit 7 t OR push_bit 6 a OR push_bit 4 (arg_num b) OR push_bit 2 (arg_num c) OR mode_num m"

definition luaP_opnames :: "string option list" where
  "luaP_opnames = map Some
     [''MOVE'', ''LOADK'', ''LOADBOOL'', ''LOADNIL'', ''GETUPVAL'', ''GETGLOBAL'', ''GETTABLE'', ''SETGLOBAL'',
      ''SETUPVAL'', ''SETTABLE'', ''NEWTABLE'', ''SELF'', ''ADD'', ''SUB'', ''MUL'', ''DIV'',
      ''MOD'', ''POW'', ''UNM'', ''NOT'', ''LEN'', ''CONCAT'', ''JMP'', ''EQ'',
      ''LT'', ''LE'', ''TEST'', ''TESTSET'', ''CALL'', ''TAILCALL'', ''RETURN'', ''FORLOOP'',
      ''FORPREP'', ''TFORLOOP'', ''SETLIST'', ''CLOSE'', ''CLOSURE'', ''VARARG''] @ [None]"

definition luaP_opmodes :: "u8 list" where
  "luaP_opmodes =
     [opmode 0 1 OpArgR OpArgN iABC, opmode 0 1 OpArgK OpArgN iABx, opmode 0 1 OpArgU OpArgU iABC,
      opmode 0 1 OpArgR OpArgN iABC, opmode 0 1 OpArgU OpArgN iABC, opmode 0 1 OpArgK OpArgN iABx,
      opmode 0 1 OpArgR OpArgK iABC, opmode 0 0 OpArgK OpArgN iABx, opmode 0 0 OpArgU OpArgN iABC,
      opmode 0 0 OpArgK OpArgK iABC, opmode 0 1 OpArgU OpArgU iABC, opmode 0 1 OpArgR OpArgK iABC,
      opmode 0 1 OpArgK OpArgK iABC, opmode 0 1 OpArgK OpArgK iABC, opmode 0 1 OpArgK OpArgK iABC,
      opmode 0 1 OpArgK OpArgK iABC, opmode 0 1 OpArgK OpArgK iABC, opmode 0 1 OpArgK OpArgK iABC,
      opmode 0 1 OpArgR OpArgN iABC, opmode 0 1 OpArgR OpArgN iABC, opmode 0 1 OpArgR OpArgN iABC,
      opmode 0 1 OpArgR OpArgR iABC, opmode 0 0 OpArgR OpArgN iAsBx, opmode 1 0 OpArgK OpArgK iABC,
      opmode 1 0 OpArgK OpArgK iABC, opmode 1 0 OpArgK OpArgK iABC, opmode 1 1 OpArgR OpArgU iABC,
      opmode 1 1 OpArgR OpArgU iABC, opmode 0 1 OpArgU OpArgU iABC, opmode 0 1 OpArgU OpArgU iABC,
      opmode 0 0 OpArgU OpArgN iABC, opmode 0 1 OpArgR OpArgN iAsBx, opmode 0 1 OpArgR OpArgN iAsBx,
      opmode 1 0 OpArgN OpArgU iABC, opmode 0 0 OpArgU OpArgU iABC, opmode 0 0 OpArgN OpArgN iABC,
      opmode 0 1 OpArgU OpArgN iABx, opmode 0 1 OpArgU OpArgN iABC]"

text \<open>The macros that take the table apart; a value that is no member of its enumeration is the last resort of the cast.\<close>

definition getOpMode :: "nat \<Rightarrow> u8" where
  "getOpMode m = luaP_opmodes ! m AND 3"

definition getBMode :: "nat \<Rightarrow> u8" where
  "getBMode m = drop_bit 4 (luaP_opmodes ! m) AND 3"

definition getCMode :: "nat \<Rightarrow> u8" where
  "getCMode m = drop_bit 2 (luaP_opmodes ! m) AND 3"

definition testAMode :: "nat \<Rightarrow> bool" where
  "testAMode m \<longleftrightarrow> luaP_opmodes ! m AND push_bit 6 1 \<noteq> 0"

definition testTMode :: "nat \<Rightarrow> bool" where
  "testTMode m \<longleftrightarrow> luaP_opmodes ! m AND push_bit 7 1 \<noteq> 0"

section \<open>Fields of a word\<close>

text \<open>What all accessors share: a field of \<open>n\<close> bits at position \<open>p\<close>.\<close>

definition get_field :: "nat \<Rightarrow> nat \<Rightarrow> u32 \<Rightarrow> u32" where
  "get_field n p i = drop_bit p i AND MASK1 n 0"

definition set_field :: "nat \<Rightarrow> nat \<Rightarrow> u32 \<Rightarrow> u32 \<Rightarrow> u32" where
  "set_field n p i u = (i AND MASK0 n p) OR (push_bit p u AND MASK1 n p)"

lemma bit_MASK1: "bit (MASK1 n p) k \<longleftrightarrow> p \<le> k \<and> k < p + n \<and> k < 32"
  by (auto simp: MASK1_def bit_simps)

lemma bit_MASK0: "bit (MASK0 n p) k \<longleftrightarrow> k < 32 \<and> \<not> (p \<le> k \<and> k < p + n)"
  by (auto simp: MASK0_def bit_simps bit_MASK1)

lemma bit_get_field: "bit (get_field n p i) k \<longleftrightarrow> k < n \<and> bit i (p + k)"
  by (auto simp: get_field_def bit_MASK1 bit_simps dest: bit_imp_le_length)

lemma bit_set_field:
  "bit (set_field n p i u) k \<longleftrightarrow> (if p \<le> k \<and> k < p + n then k < 32 \<and> bit u (k - p) else bit i k)"
  by (auto simp: set_field_def bit_MASK1 bit_MASK0 bit_simps dest: bit_imp_le_length)

lemma get_set_same: "p + n \<le> 32 \<Longrightarrow> get_field n p (set_field n p i u) = take_bit n u"
  by (rule bit_word_eqI) (auto simp: bit_get_field bit_set_field bit_simps)

lemma get_set_other: "p + n \<le> q \<or> q + m \<le> p \<Longrightarrow> get_field n p (set_field m q i u) = get_field n p i"
  by (rule bit_word_eqI) (auto simp: bit_get_field bit_set_field)

lemma get_or: "get_field n p (x OR y) = get_field n p x OR get_field n p y"
  by (rule bit_word_eqI) (auto simp: bit_get_field bit_simps)

lemma get_push: "p + n \<le> 32 \<Longrightarrow> get_field n p (push_bit p x) = take_bit n x"
  by (rule bit_word_eqI) (auto simp: bit_get_field bit_simps)

lemma get_push_low: "p + n \<le> q \<Longrightarrow> get_field n p (push_bit q x) = 0"
  by (rule bit_word_eqI) (auto simp: bit_get_field bit_simps)

lemma take_bit_above: "take_bit m x = x \<Longrightarrow> m \<le> k \<Longrightarrow> \<not> bit x k" for x :: u32
  by (metis bit_take_bit_iff leD)

lemma get_push_high:
  assumes "q + m \<le> p" and "take_bit m x = x"
  shows "get_field n p (push_bit q x) = 0"
proof (rule bit_word_eqI)
  fix k
  have "\<not> bit x (p + k - q)" using assms by (intro take_bit_above [of m]) simp_all
  then show "bit (get_field n p (push_bit q x)) k = bit 0 k" by (simp add: bit_get_field bit_simps)
qed

lemma get_low: "get_field n 0 x = take_bit n x"
  by (rule bit_word_eqI) (auto simp: bit_get_field bit_simps)

lemma get_field_below: "n < 32 \<Longrightarrow> unat (get_field n p i) < 2 ^ n"
proof -
  assume "n < 32"
  have "take_bit n (get_field n p i) = get_field n p i"
    by (rule bit_word_eqI) (auto simp: bit_get_field bit_simps)
  then show ?thesis by (metis unsigned_take_bit_eq take_bit_nat_less_exp)
qed

lemma take_bit_small: "unat x < 2 ^ m \<Longrightarrow> take_bit m x = x" for x :: u32
  by (simp add: word_unat_eq_iff unsigned_take_bit_eq take_bit_nat_eq_self_iff)

lemmas accessor_fields =
  GET_OPCODE_def [folded get_field_def] GETARG_A_def [folded get_field_def] GETARG_B_def [folded get_field_def]
  GETARG_C_def [folded get_field_def] GETARG_Bx_def [folded get_field_def]
  SET_OPCODE_def [folded set_field_def] SETARG_A_def [folded set_field_def] SETARG_B_def [folded set_field_def]
  SETARG_C_def [folded set_field_def] SETARG_Bx_def [folded set_field_def]

section \<open>Properties\<close>

text \<open>C34: The instruction codec. An instruction put together from an opcode and arguments that fit their fields gives
  every one of them back, in both formats; setting a field of any instruction stores the low bits of the value there and
  leaves all other fields as they were; a signed argument within its range comes back, and every signed argument lies
  in that range; an index marked as a constant is recognised as one and gives the index back, a register index is not.\<close>

theorem instruction_codec:
  "(\<forall>op a b c bx. op < 64 \<and> a < 256 \<and> b < 512 \<and> c < 512 \<and> bx < 2 ^ 18 \<longrightarrow>
      (GET_OPCODE (CREATE_ABC op a b c) = op \<and> GETARG_A (CREATE_ABC op a b c) = a \<and>
       GETARG_B (CREATE_ABC op a b c) = b \<and> GETARG_C (CREATE_ABC op a b c) = c \<and>
       GET_OPCODE (CREATE_ABx op a bx) = op \<and> GETARG_A (CREATE_ABx op a bx) = a \<and> GETARG_Bx (CREATE_ABx op a bx) = bx)) \<and>
   (\<forall>i u. GET_OPCODE (SET_OPCODE i u) = take_bit 6 u \<and> GETARG_A (SET_OPCODE i u) = GETARG_A i \<and>
       GETARG_Bx (SET_OPCODE i u) = GETARG_Bx i \<and>
       GETARG_A (SETARG_A i u) = take_bit 8 u \<and> GET_OPCODE (SETARG_A i u) = GET_OPCODE i \<and> GETARG_Bx (SETARG_A i u) = GETARG_Bx i \<and>
       GETARG_B (SETARG_B i u) = take_bit 9 u \<and> GETARG_C (SETARG_B i u) = GETARG_C i \<and> GETARG_A (SETARG_B i u) = GETARG_A i \<and>
       GET_OPCODE (SETARG_B i u) = GET_OPCODE i \<and> GET_OPCODE (SETARG_C i u) = GET_OPCODE i \<and>
       GETARG_C (SETARG_C i u) = take_bit 9 u \<and> GETARG_B (SETARG_C i u) = GETARG_B i \<and> GETARG_A (SETARG_C i u) = GETARG_A i \<and>
       GETARG_Bx (SETARG_Bx i u) = take_bit 18 u \<and> GETARG_A (SETARG_Bx i u) = GETARG_A i \<and>
       GET_OPCODE (SETARG_Bx i u) = GET_OPCODE i) \<and>
   (\<forall>i s. - MAXARG_sBx \<le> GETARG_sBx i \<and> GETARG_sBx i \<le> MAXARG_sBx + 1 \<and>
       (- MAXARG_sBx \<le> s \<and> s \<le> MAXARG_sBx + 1 \<longrightarrow> GETARG_sBx (SETARG_sBx i s) = s)) \<and>
   (\<forall>x. x \<le> MAXINDEXRK \<longrightarrow> ISK (RKASK x) \<and> INDEXK (RKASK x) = x \<and> \<not> ISK x)"
  (is "?create \<and> ?set \<and> ?signed \<and> ?rk")
proof (intro conjI)
  show ?create
  proof (intro allI impI)
    fix op a b c bx :: u32
    assume "op < 64 \<and> a < 256 \<and> b < 512 \<and> c < 512 \<and> bx < 2 ^ 18"
    then have fit: "take_bit 6 op = op" "take_bit 8 a = a" "take_bit 9 b = b" "take_bit 9 c = c" "take_bit 18 bx = bx"
      by (simp_all add: take_bit_small word_less_nat_alt)
    have high: "p \<ge> 6 \<Longrightarrow> get_field n p op = 0" "p \<ge> 14 \<Longrightarrow> get_field n p (push_bit 6 a) = 0"
        "p \<ge> 23 \<Longrightarrow> get_field n p (push_bit 14 c) = 0" for n p
      using get_push_high [of 0 6 p op n] get_push_high [of 6 8 p a n] get_push_high [of 14 9 p c n] fit by simp_all
    have low: "get_field 6 0 op = op" using fit(1) get_low [of 6 op] by simp
    show "GET_OPCODE (CREATE_ABC op a b c) = op \<and> GETARG_A (CREATE_ABC op a b c) = a \<and>
       GETARG_B (CREATE_ABC op a b c) = b \<and> GETARG_C (CREATE_ABC op a b c) = c \<and>
       GET_OPCODE (CREATE_ABx op a bx) = op \<and> GETARG_A (CREATE_ABx op a bx) = a \<and> GETARG_Bx (CREATE_ABx op a bx) = bx"
      by (simp add: accessor_fields CREATE_ABC_def CREATE_ABx_def field_sizes get_or get_push get_push_low fit high low)
  qed
  show ?set by (simp add: accessor_fields field_sizes get_set_same get_set_other)
  have mx: "MAXARG_sBx = 131071" by (simp add: MAXARG_sBx_def MAXARG_Bx_def field_sizes drop_bit_eq_div)
  show ?signed
  proof (intro allI conjI impI)
    fix i :: u32 and s :: int
    have lt: "unat (GETARG_Bx i) < 2 ^ 18"
      using get_field_below [of 18 14 i] by (simp add: accessor_fields field_sizes)
    then have si: "sint (GETARG_Bx i) = int (unat (GETARG_Bx i))" by (intro sint_u32) simp
    show "- MAXARG_sBx \<le> GETARG_sBx i" "GETARG_sBx i \<le> MAXARG_sBx + 1"
      using lt unfolding GETARG_sBx_def si mx by (simp_all del: of_nat_unat)
    assume s: "- MAXARG_sBx \<le> s \<and> s \<le> MAXARG_sBx + 1"
    have "GETARG_Bx (SETARG_Bx i (word_of_int (s + MAXARG_sBx))) = take_bit 18 (word_of_int (s + MAXARG_sBx))"
      by (simp add: accessor_fields field_sizes get_set_same del: of_int_add)
    also have "\<dots> = word_of_int (s + MAXARG_sBx)"
      using s mx by (intro take_bit_small) (simp add: unat_eq_nat_uint uint_word_of_int nat_less_iff del: of_int_add)
    finally show "GETARG_sBx (SETARG_sBx i s) = s"
      using s mx sint_int_of [of "s + MAXARG_sBx"] by (simp add: GETARG_sBx_def SETARG_sBx_def del: of_int_add)
  qed
  show ?rk
  proof (intro allI impI)
    fix x :: u32
    assume "x \<le> MAXINDEXRK"
    then have "take_bit 8 x = x"
      by (intro take_bit_small) (simp add: MAXINDEXRK_def BITRK_def field_sizes word_le_nat_alt)
    then have nb: "\<not> bit x 8" using take_bit_above [of 8 x 8] by simp
    have b8: "BITRK = 2 ^ 8" by (simp add: BITRK_def field_sizes)
    have rk: "bit BITRK k \<longleftrightarrow> k = 8" for k unfolding b8 bit_exp_iff by auto
    have "bit (RKASK x AND BITRK) 8" by (simp add: RKASK_def rk bit_simps)
    then have "ISK (RKASK x)" by (auto simp: ISK_def)
    moreover have "INDEXK (RKASK x) = x"
      by (rule bit_word_eqI) (use nb in \<open>auto simp: INDEXK_def RKASK_def rk bit_simps\<close>)
    moreover have "x AND BITRK = 0" by (rule bit_word_eqI) (use nb in \<open>auto simp: rk bit_simps\<close>)
    ultimately show "ISK (RKASK x) \<and> INDEXK (RKASK x) = x \<and> \<not> ISK x" by (simp add: ISK_def)
  qed
qed

theorem instruction_codec_witness:
  "GETARG_B (CREATE_ABC 12 3 256 511) = 256 \<and> GETARG_C (CREATE_ABC 12 3 256 511) = 511 \<and> GETARG_Bx (CREATE_ABx 1 3 200000) = 200000 \<and>
   GETARG_sBx (SETARG_sBx (CREATE_ABx 22 0 0) (- 5)) = - 5 \<and> INDEXK (RKASK 255) = 255"
proof -
  have c: "\<forall>op a b c bx. op < 64 \<and> a < 256 \<and> b < 512 \<and> c < 512 \<and> bx < 2 ^ 18 \<longrightarrow>
      GETARG_B (CREATE_ABC op a b c) = b \<and> GETARG_C (CREATE_ABC op a b c) = c \<and> GETARG_Bx (CREATE_ABx op a bx) = bx"
    using instruction_codec by blast
  have s: "GETARG_sBx (SETARG_sBx i s) = s" if "- MAXARG_sBx \<le> s \<and> s \<le> MAXARG_sBx + 1" for i s
    using instruction_codec that by blast
  have r: "INDEXK (RKASK x) = x" if "x \<le> MAXINDEXRK" for x using instruction_codec that by blast
  have "- MAXARG_sBx \<le> - 5 \<and> - 5 \<le> MAXARG_sBx + 1" by (simp add: MAXARG_sBx_def MAXARG_Bx_def field_sizes drop_bit_eq_div)
  moreover have "255 \<le> MAXINDEXRK" by (simp add: MAXINDEXRK_def BITRK_def field_sizes)
  ultimately show ?thesis
    using c [rule_format, of 12 3 256 511 0] c [rule_format, of 1 3 0 0 200000] s r by simp
qed

lemma op_num_list: "op_num p < 38 \<and> op_list ! op_num p = p"
  by (cases p; simp add: op_num_def op_list_def)

text \<open>What the table has to say about each opcode number below \<open>NUM_OPCODES\<close>.\<close>

definition opmode_ok :: "nat \<Rightarrow> bool" where
  "opmode_ok m \<longleftrightarrow> getOpMode m \<in> {0, 1, 2} \<and>
     (getOpMode m \<noteq> mode_num iABC \<longrightarrow> getCMode m = arg_num OpArgN \<and> getBMode m \<noteq> arg_num OpArgN) \<and>
     (testTMode m \<longrightarrow> getOpMode m = mode_num iABC \<and> getCMode m \<noteq> arg_num OpArgN)"

lemma luaP_opmodes_eq: "luaP_opmodes =
    [96, 113, 84, 96, 80, 113, 108, 49, 16, 60, 84, 108, 124,
     124, 124, 124, 124, 124, 96, 96, 96, 104, 34, 188, 188, 188,
     228, 228, 84, 84, 16, 98, 98, 132, 20, 0, 81, 80]"
  by (simp add: luaP_opmodes_def opmode_def)

lemma opmodes_ok: "list_all opmode_ok [0..<38]"
  by (simp add: upt_rec opmode_ok_def getOpMode_def getBMode_def getCMode_def testTMode_def luaP_opmodes_eq drop_bit_eq_div)

text \<open>The property table fits the enumeration of opcodes. It has one entry and one name for every opcode, the number of an
  opcode identifies it, and each entry is a valid description: its format is one of the three, an instruction with the
  wide argument uses \<open>B\<close> and not \<open>C\<close>, and a test has the three-argument format and uses \<open>C\<close>.\<close>

lemma opcode_table_typed:
  "op_num p < NUM_OPCODES \<and> op_list ! op_num p = p \<and> length luaP_opmodes = NUM_OPCODES \<and> length luaP_opnames = NUM_OPCODES + 1 \<and>
   distinct luaP_opnames \<and> (\<exists>m. getOpMode (op_num p) = mode_num m) \<and> opmode_ok (op_num p)"
proof -
  have n: "NUM_OPCODES = 38" by (simp add: NUM_OPCODES_def op_num_def op_list_def)
  have ok: "opmode_ok (op_num p)" using opmodes_ok op_num_list [of p] by (simp add: list_all_iff)
  then have "getOpMode (op_num p) \<in> {mode_num iABC, mode_num iABx, mode_num iAsBx}" by (simp add: opmode_ok_def)
  moreover have "length luaP_opmodes = 38" "length luaP_opnames = 39" "distinct luaP_opnames"
    by (simp_all add: luaP_opmodes_def luaP_opnames_def)
  moreover have "(39 :: nat) = 38 + 1" by simp
  ultimately show ?thesis using op_num_list [of p] ok unfolding n by (metis insertE singletonD)
qed

end
