(* ===== verification/Lua_Object.thy ===== *)
theory Lua_Object
  imports Ax_String Lua_Opcodes "HOL-Library.Log_Nat"
begin

text \<open>
  Generic functions over Lua objects: \<^verbatim>\<open>lobject.c\<close> under \<^verbatim>\<open>depends/lua/src\<close>. Machine integers are 32-bit words; a number is
  the 64-bit pattern of its double, on which the code relies only through the comparison and the conversions of the C
  library, which are arguments.
\<close>

section \<open>Sizes as floating point bytes\<close>

lemma unat_drop_bit: "unat (drop_bit n x) = unat x div 2 ^ n" for x :: u32
  using unat_u32_bound [of x] unfolding unsigned_drop_bit_eq by (simp add: drop_bit_eq_div take_bit_nat_eq_self)

function int2fb_loop :: "u32 \<Rightarrow> u32 \<Rightarrow> u32 \<times> u32" where
  "int2fb_loop x e = (if x \<ge> 16 then int2fb_loop (drop_bit 1 (x + 1)) (e + 1) else (x, e))"
  by pat_completeness auto
termination
proof (relation "measure (\<lambda>(x, e). unat x)")
  fix x e :: u32
  assume x: "x \<ge> 16"
  have "unat (drop_bit 1 (x + 1)) = unat (x + 1) div 2" by (simp only: unat_drop_bit power_one_right)
  also have "\<dots> \<le> (unat x + 1) div 2" using unat_plus_simple [of x 1] by (cases "x \<le> x + 1") (auto simp: unat_word_ariths intro!: div_le_mono mod_less_eq_dividend)
  also have "\<dots> < unat x" using x by (simp add: word_le_nat_alt)
  finally show "((drop_bit 1 (x + 1), e + 1), x, e) \<in> measure (\<lambda>(x, e). unat x)" by simp
qed simp

declare int2fb_loop.simps [simp del]

definition luaO_int2fb :: "u32 \<Rightarrow> u32" where
  "luaO_int2fb x =
     (let (x, e) = int2fb_loop x 0 in
      if x < 8 then x else push_bit 3 (e + 1) OR (x - 8))"

definition luaO_fb2int :: "u32 \<Rightarrow> u32" where
  "luaO_fb2int x =
     (let e = drop_bit 3 x AND 31 in
      if e = 0 then x else push_bit (unat (e - 1)) ((x AND 7) + 8))"

section \<open>Binary logarithm\<close>

definition log_2 :: "nat list" where
  "log_2 = [0, 1, 2, 2] @ replicate 4 3 @ replicate 8 4 @ replicate 16 5 @ replicate 32 6 @ replicate 64 7 @ replicate 128 8"

function log2_loop :: "u32 \<Rightarrow> int \<Rightarrow> u32 \<times> int" where
  "log2_loop x l = (if x \<ge> 256 then log2_loop (drop_bit 8 x) (l + 8) else (x, l))"
  by pat_completeness auto
termination
  by (relation "measure (\<lambda>(x, l). unat x)") (auto simp: unat_drop_bit word_le_nat_alt)

declare log2_loop.simps [simp del]

definition luaO_log2 :: "u32 \<Rightarrow> int" where
  "luaO_log2 x = (let (x, l) = log2_loop x (- 1) in l + int (log_2 ! unat x))"

section \<open>Values\<close>

text \<open>A boolean is the integer the value holds; a collectable value is its type and its address.\<close>

datatype TValue = V_nil | V_boolean int | V_lightuserdata u64 | V_number u64 | V_gc u8 nat

fun ttype :: "TValue \<Rightarrow> u8" where
  "ttype V_nil = 0"
| "ttype (V_boolean b) = 1"
| "ttype (V_lightuserdata p) = 2"
| "ttype (V_number n) = 3"
| "ttype (V_gc t a) = t"

text \<open>\<open>numeq\<close> compares two doubles.\<close>

definition luaO_rawequalObj :: "(u64 \<Rightarrow> u64 \<Rightarrow> bool) \<Rightarrow> TValue \<Rightarrow> TValue \<Rightarrow> bool" where
  "luaO_rawequalObj numeq t1 t2 =
     (if ttype t1 \<noteq> ttype t2 then False
      else case (t1, t2) of
          (V_nil, V_nil) \<Rightarrow> True
        | (V_number a, V_number b) \<Rightarrow> numeq a b
        | (V_boolean a, V_boolean b) \<Rightarrow> a = b
        | (V_lightuserdata a, V_lightuserdata b) \<Rightarrow> a = b
        | (V_gc _ a, V_gc _ b) \<Rightarrow> a = b
        | _ \<Rightarrow> False)"

text \<open>\<^verbatim>\<open>luaO_str2d\<close>: \<open>strtod\<close> and \<open>strtoul\<close> give the number and how many characters they read; the string ends where its
  list ends.\<close>

definition isspace :: "u8 \<Rightarrow> bool" where
  "isspace c \<longleftrightarrow> c = 32 \<or> (9 \<le> c \<and> c \<le> 13)"

definition luaO_str2d :: "(u8 list \<Rightarrow> u64 \<times> nat) \<Rightarrow> (u8 list \<Rightarrow> u64 \<times> nat) \<Rightarrow> u8 list \<Rightarrow> bool \<times> u64" where
  "luaO_str2d strtod strtoul s =
     (let (result, endptr) = strtod s in
      if endptr = 0 then (False, result)
      else
        let (result, endptr) = (if endptr < length s \<and> (s ! endptr = 120 \<or> s ! endptr = 88) then strtoul s else (result, endptr)) in
        if endptr = length s then (True, result)
        else
          let rest = dropWhile isspace (drop endptr s) in
          if rest \<noteq> [] then (False, result) else (True, result))"

section \<open>Names of chunks\<close>

text \<open>\<^verbatim>\<open>strncat\<close> appends at most \<open>n\<close> characters.\<close>

definition c_strncat :: "block \<Rightarrow> u8 list \<Rightarrow> nat \<Rightarrow> block res" where
  "c_strncat dst s n = c_strcat dst (take n s)"

text \<open>Subtraction of \<^verbatim>\<open>size_t\<close> values.\<close>

definition size_minus :: "nat \<Rightarrow> nat \<Rightarrow> nat" where
  "size_minus a b = (if b \<le> a then a - b else a + 2 ^ 64 - b)"

definition luaO_chunkid :: "block \<Rightarrow> u8 list \<Rightarrow> nat \<Rightarrow> block res" where
  "luaO_chunkid out source bufflen =
     (if source \<noteq> [] \<and> hd source = 61 then
        rbind (c_strncpy out (tl source) bufflen) (\<lambda>out.
          blk_write out (size_minus bufflen 1) [Some 0])
      else if source \<noteq> [] \<and> hd source = 64 then
        let source = tl source; bufflen = size_minus bufflen 8; l = length source in
        rbind (c_strcpy out []) (\<lambda>out.
        rbind (if l > bufflen then c_strcat out (c_lit ''...'') else Inr out) (\<lambda>out.
          c_strcat out (if l > bufflen then drop (l - bufflen) source else source)))
      else
        let len = length (takeWhile (\<lambda>c. c \<noteq> 10 \<and> c \<noteq> 13) source); bufflen = size_minus bufflen 17;
            len = (if len > bufflen then bufflen else len) in
        rbind (c_strcpy out (c_lit ''[string '' @ [34])) (\<lambda>out.
        rbind (if len < length source then
                 rbind (c_strncat out source len) (\<lambda>out. c_strcat out (c_lit ''...''))
               else c_strcat out source) (\<lambda>out.
          c_strcat out ([34] @ c_lit '']''))))"

section \<open>Lemmas\<close>

lemma int2fb_loop_ok:
  assumes "unat x < 2 ^ 31"
  shows "\<exists>y k. int2fb_loop x e = (y, e + of_nat k) \<and> unat y < 16 \<and> (if k = 0 then y = x else 8 \<le> unat y) \<and>
    unat x \<le> unat y * 2 ^ k \<and> unat y * 2 ^ k < unat x + 2 ^ k"
  using assms
proof (induction x e rule: int2fb_loop.induct)
  case (1 x e)
  show ?case
  proof (cases "x \<ge> 16")
    case True
    define x' where "x' = drop_bit 1 (x + 1)"
    have "unat (x + 1) = unat x + 1" using 1(2) by (subst unat_add_u32) simp_all
    then have x': "unat x' = (unat x + 1) div 2" unfolding x'_def unat_drop_bit by simp
    have lt: "unat x' < 2 ^ 31" using x' 1(2) by simp
    have ge: "16 \<le> unat x" using True by (simp add: word_le_nat_alt)
    obtain y k where yk: "int2fb_loop x' (e + 1) = (y, e + 1 + of_nat k)" "unat y < 16" "if k = 0 then y = x' else 8 \<le> unat y"
        "unat x' \<le> unat y * 2 ^ k" "unat y * 2 ^ k < unat x' + 2 ^ k"
      using 1(1) [OF True, folded x'_def, OF lt] by (elim exE conjE) (rule that; assumption)
    have "int2fb_loop x e = (y, e + of_nat (Suc k))" using yk(1) True by (subst int2fb_loop.simps) (simp add: x'_def)
    moreover have "8 \<le> unat y" using yk(3) x' ge by (auto split: if_splits)
    moreover have "unat x \<le> unat y * 2 ^ Suc k \<and> unat y * 2 ^ Suc k < unat x + 2 ^ Suc k"
    proof -
      define Y K where "Y = unat y * 2 ^ k" and "K = (2 :: nat) ^ k"
      have e: "unat y * 2 ^ Suc k = 2 * Y" "(2 :: nat) ^ Suc k = 2 * K" by (simp_all add: Y_def K_def)
      have "(unat x + 1) div 2 \<le> Y" "Y < (unat x + 1) div 2 + K" using yk(4,5) x' by (simp_all add: Y_def K_def)
      then have "unat x \<le> 2 * Y \<and> 2 * Y < unat x + 2 * K" by linarith
      then show ?thesis unfolding e(1) unfolding e(2) .
    qed
    ultimately show ?thesis using yk(2) by (intro exI [of _ y] exI [of _ "Suc k"]) simp
  next
    case False
    then show ?thesis
      by (intro exI [of _ x] exI [of _ 0]) (simp add: int2fb_loop.simps word_le_nat_alt)
  qed
qed

lemma fb_fields:
  fixes d z :: u32
  assumes d: "take_bit 5 d = d" and z: "take_bit 3 z = z"
  shows "drop_bit 3 (push_bit 3 d OR z) AND 31 = d" and "(push_bit 3 d OR z) AND 7 = z"
    and "unat (push_bit 3 d OR z) = 8 * unat d + unat z"
proof -
  have m: "(31 :: u32) = mask 5" "(7 :: u32) = mask 3" by (simp_all add: mask_eq_exp_minus_1)
  have bd: "bit d n \<Longrightarrow> n < 5" and bz: "bit z n \<Longrightarrow> n < 3" for n
    using take_bit_above [OF d] take_bit_above [OF z] by (meson not_le)+
  show "drop_bit 3 (push_bit 3 d OR z) AND 31 = d"
    unfolding m by (rule bit_word_eqI) (auto simp: bit_simps dest: bd bz)
  show "(push_bit 3 d OR z) AND 7 = z"
    unfolding m by (rule bit_word_eqI) (auto simp: bit_simps dest: bd bz)
  have "push_bit 3 d AND z = 0" by (rule bit_word_eqI) (auto simp: bit_simps dest: bz)
  then have "push_bit 3 d OR z = push_bit 3 d + z" by (simp add: disjunctive_add_eq_or)
  also have "\<dots> = 8 * d + z" by (simp add: push_bit_eq_mult mult.commute)
  finally have eq: "push_bit 3 d OR z = 8 * d + z" .
  have "take_bit 5 (unat d) = unat d" "take_bit 3 (unat z) = unat z"
    using arg_cong [OF d, of unat] arg_cong [OF z, of unat] by (simp_all add: unsigned_take_bit_eq)
  then have "unat d < 32" "unat z < 8" by (simp_all add: take_bit_nat_eq_self_iff)
  then show "unat (push_bit 3 d OR z) = 8 * unat d + unat z" unfolding eq by (simp add: unat_word_ariths)
qed

lemma log2_loop_ok:
  "\<exists>y j. log2_loop x l = (y, l + 8 * int j) \<and> unat y < 256 \<and> unat y = unat x div 2 ^ (8 * j) \<and> (unat y = 0 \<longrightarrow> x = 0 \<and> j = 0)"
proof (induction x l rule: log2_loop.induct)
  case (1 x l)
  show ?case
  proof (cases "x \<ge> 256")
    case True
    obtain y j where yj: "log2_loop (drop_bit 8 x) (l + 8) = (y, l + 8 + 8 * int j)" "unat y < 256"
        "unat y = unat (drop_bit 8 x) div 2 ^ (8 * j)" "unat y = 0 \<longrightarrow> drop_bit 8 x = 0 \<and> j = 0"
      using 1 [OF True] by (elim exE conjE) (rule that; assumption)
    have "log2_loop x l = (y, l + 8 * int (Suc j))" using yj(1) True by (subst log2_loop.simps) simp
    moreover have "unat y = unat x div 2 ^ (8 * Suc j)"
    proof -
      have "(2 :: nat) ^ (8 * Suc j) = 2 ^ 8 * 2 ^ (8 * j)" by (simp add: power_add)
      then show ?thesis using yj(3) by (simp only: unat_drop_bit div_mult2_eq)
    qed
    moreover have "unat (drop_bit 8 x) \<noteq> 0" using True unfolding unat_drop_bit by (simp add: word_le_nat_alt)
    then have "unat y \<noteq> 0" using yj(4) by (metis unsigned_0)
    ultimately show ?thesis using yj(2) by (intro exI [of _ y] exI [of _ "Suc j"]) (simp only: simp_thms)
  next
    case False
    then show ?thesis
      by (intro exI [of _ x] exI [of _ 0]) (simp add: log2_loop.simps word_le_nat_alt unat_eq_0)
  qed
qed

lemma log_2_table:
  assumes "0 < y" and "y < 256"
  shows "2 ^ (log_2 ! y - 1) \<le> y \<and> y < 2 ^ (log_2 ! y) \<and> 0 < log_2 ! y"
proof -
  consider "y = 1" | "y = 2 \<or> y = 3" | "4 \<le> y" "y < 8" | "8 \<le> y" "y < 16" | "16 \<le> y" "y < 32" | "32 \<le> y" "y < 64"
    | "64 \<le> y" "y < 128" | "128 \<le> y" using assms by linarith
  then show ?thesis using assms(2) by cases (auto simp: log_2_def nth_append nth_Cons')
qed

section \<open>Properties\<close>

text \<open>Encoding a size as a floating point byte rounds up, and by less than an eighth. For a size of at most
  \<open>7 * 2 ^ 28\<close> the loop ends, the code fits a byte, decoding it gives a number that is not smaller than the size, exceeds it
  by at most an eighth of itself, is exact below 16, and still fits a signed integer.\<close>

lemma fb_rounds_up:
  assumes "unat x \<le> 7 * 2 ^ 28"
  shows "unat (luaO_int2fb x) < 256 \<and> unat x \<le> unat (luaO_fb2int (luaO_int2fb x)) \<and>
    8 * (unat (luaO_fb2int (luaO_int2fb x)) - unat x) \<le> unat (luaO_fb2int (luaO_int2fb x)) \<and>
    (unat x < 16 \<longrightarrow> luaO_fb2int (luaO_int2fb x) = x) \<and> unat (luaO_fb2int (luaO_int2fb x)) < 2 ^ 31"
proof -
  have lt: "unat x < 2 ^ 31" using assms by simp
  obtain y k where yk: "int2fb_loop x 0 = (y, 0 + of_nat k)" "unat y < 16" "if k = 0 then y = x else 8 \<le> unat y"
      "unat x \<le> unat y * 2 ^ k" "unat y * 2 ^ k < unat x + 2 ^ k"
    using int2fb_loop_ok [of x 0, OF lt] by (elim exE conjE) (rule that; assumption)
  show ?thesis
  proof (cases "unat y < 8")
    case True
    then have k: "k = 0" "y = x" using yk(3) by (auto split: if_splits)
    then have "drop_bit 3 x = 0" using True by (simp add: word_unat_eq_iff unat_drop_bit)
    then have "luaO_int2fb x = x" "luaO_fb2int x = x"
      using yk(1) k True by (simp_all add: luaO_int2fb_def luaO_fb2int_def word_less_nat_alt)
    then show ?thesis using True k by simp
  next
    case False
    then have y8: "8 \<le> unat y" by simp
    have "8 * 2 ^ k \<le> unat y * 2 ^ k" using y8 by (rule mult_le_mono1)
    then have "7 * 2 ^ k < (7 :: nat) * 2 ^ 28" using yk(5) assms by linarith
    then have "(2 :: nat) ^ k < 2 ^ 28" by simp
    then have k: "k < 28" by (rule power_less_imp_less_exp [rotated]) simp
    let ?d = "of_nat k + 1 :: u32" and ?z = "y - 8"
    have ud: "unat ?d = k + 1" using k by (simp add: unat_word_ariths unat_of_nat)
    have uz: "unat ?z = unat y - 8" using y8 by (simp add: unat_sub_u32)
    have d: "take_bit 5 ?d = ?d" using k by (intro take_bit_small) (simp only: ud; simp)
    have z: "take_bit 3 ?z = ?z" using yk(2) by (intro take_bit_small) (simp only: uz; simp)
    note ff = fb_fields [OF d z]
    have enc: "luaO_int2fb x = push_bit 3 ?d OR ?z"
      using yk(1) False by (simp add: luaO_int2fb_def word_less_nat_alt)
    have "?d \<noteq> 0" using ud by auto
    then have dec: "luaO_fb2int (luaO_int2fb x) = push_bit k y"
      using ff(1,2) ud k unat_of_nat_u32 [of k] by (simp add: enc luaO_fb2int_def)
    have "(2 :: nat) ^ k \<le> 2 ^ 27" using k by (intro power_increasing) simp_all
    then have "unat y * 2 ^ k \<le> 15 * 2 ^ 27" using yk(2) by (intro mult_le_mono) simp_all
    then have v: "unat (luaO_fb2int (luaO_int2fb x)) = unat y * 2 ^ k"
      unfolding dec unsigned_push_bit_eq by (simp add: push_bit_eq_mult take_bit_nat_eq_self)
    have "unat x < 16 \<Longrightarrow> k = 0"
    proof -
      assume "unat x < 16"
      then have "int2fb_loop x 0 = (x, 0)" by (simp add: int2fb_loop.simps word_le_nat_alt)
      then show "k = 0" using yk(1) k by (simp add: word_unat_eq_iff unat_of_nat)
    qed
    then have "unat x < 16 \<longrightarrow> luaO_fb2int (luaO_int2fb x) = x" using yk(3) dec by auto
    moreover have "8 * (unat y * 2 ^ k - unat x) \<le> unat y * 2 ^ k" using yk(5) \<open>8 * 2 ^ k \<le> unat y * 2 ^ k\<close> by linarith
    moreover have "unat (luaO_int2fb x) < 256" using ff(3) ud uz k yk(2) by (simp add: enc)
    ultimately show ?thesis using yk(4) \<open>unat y * 2 ^ k \<le> 15 * 2 ^ 27\<close> by (simp add: v)
  qed
qed

text \<open>\<^verbatim>\<open>luaO_log2\<close> is the binary logarithm of the library, rounded down, for every 32-bit number; zero has the logarithm
  \<open>- 1\<close>.\<close>

lemma log2_floorlog: "luaO_log2 x = int (floorlog 2 (unat x)) - 1"
proof -
  obtain y j where yj: "log2_loop x (- 1) = (y, - 1 + 8 * int j)" "unat y < 256" "unat y = unat x div 2 ^ (8 * j)"
      "unat y = 0 \<longrightarrow> x = 0 \<and> j = 0"
    using log2_loop_ok [of x "- 1"] by (elim exE conjE) (rule that; assumption)
  have run: "luaO_log2 x = - 1 + 8 * int j + int (log_2 ! unat y)" using yj(1) by (simp add: luaO_log2_def)
  show ?thesis
  proof (cases "unat y = 0")
    case True
    then show ?thesis using yj(4) run by (simp add: floorlog_def log_2_def)
  next
    case False
    define t where "t = log_2 ! unat y"
    have t: "2 ^ (t - 1) \<le> unat y" "unat y < 2 ^ t" "0 < t"
      using log_2_table [of "unat y"] False yj(2) by (simp_all add: t_def)
    have "2 ^ (8 * j) * 2 ^ (t - 1) \<le> 2 ^ (8 * j) * unat y" using t(1) by simp
    also have "\<dots> \<le> unat x" using yj(3) by simp
    finally have "2 ^ (t + 8 * j - 1) \<le> unat x" using t(3) by (simp add: power_add [symmetric] add.commute)
    moreover have "unat x < 2 ^ (t + 8 * j)"
      using t(2) yj(3) by (simp add: power_add div_less_iff_less_mult)
    ultimately have "floorlog 2 (unat x) = t + 8 * j"
      by (intro antisym floorlog_leI floorlog_geI) simp_all
    then show ?thesis using run by (simp add: t_def)
  qed
qed

text \<open>A block that holds a text.\<close>

definition c_text :: "block \<Rightarrow> u8 list \<Rightarrow> bool" where
  "c_text b cs \<longleftrightarrow> 0 \<notin> set cs \<and> (\<exists>r. b = map Some cs @ Some 0 # r)"

lemma c_text_string: "c_text b cs \<Longrightarrow> c_string b = Inr cs"
  by (auto simp: c_text_def c_string_prefix)

lemma c_strcpy_text:
  assumes "length s < length b" and "0 \<notin> set s"
  shows "\<exists>b'. c_strcpy b s = Inr b' \<and> c_text b' s \<and> length b' = length b \<and> (\<forall>n > length s. drop n b' = drop n b)"
  using assms by (auto simp: c_strcpy_def blk_write_def c_text_def drop_Cons')

lemma c_strcat_text:
  assumes "c_text b cs" and "length cs + length s < length b" and "0 \<notin> set s"
  shows "\<exists>b'. c_strcat b s = Inr b' \<and> c_text b' (cs @ s) \<and> length b' = length b \<and>
    (\<forall>n > length cs + length s. drop n b' = drop n b)"
proof -
  obtain r where r: "b = map Some cs @ Some 0 # r" and z: "0 \<notin> set cs" using assms(1) by (auto simp: c_text_def)
  show ?thesis
    using assms(2,3) z unfolding r
    by (auto simp: c_strcat_def c_strlen_prefix blk_write_def c_text_def drop_Cons')
qed

text \<open>The name of a chunk as a text: the rest of a literal name, the end of a file name, or the first line of a string.\<close>

definition chunk_name :: "u8 list \<Rightarrow> nat \<Rightarrow> u8 list" where
  "chunk_name source n =
     (if source \<noteq> [] \<and> hd source = 61 then take (n - 1) (tl source)
      else if source \<noteq> [] \<and> hd source = 64 then
        (if length (tl source) \<le> n - 8 then tl source else c_lit ''...'' @ drop (length (tl source) - (n - 8)) (tl source))
      else
        let line = take (n - 17) (takeWhile (\<lambda>c. c \<noteq> 10 \<and> c \<noteq> 13) source) in
        c_lit ''[string '' @ [34] @ (if line = source then source else line @ c_lit ''...'') @ [34] @ c_lit '']'')"

lemma chunkid_literal:
  assumes "0 \<notin> set t" and "0 < n" and "n \<le> length out"
  shows "\<exists>out'. rbind (c_strncpy out t n) (\<lambda>out. blk_write out (n - 1) [Some 0]) = Inr out' \<and> c_text out' (take (n - 1) t) \<and>
    length out' = length out \<and> drop n out' = drop n out"
proof -
  define k where "k = n - 1 - length t"
  have mn: "min (length t) n + (n - length t) = n" by simp
  let ?b = "map Some (take n t) @ replicate (n - length t) (Some 0) @ drop n out"
  have cpy: "c_strncpy out t n = Inr ?b"
    using assms(3) mn by (auto simp: c_strncpy_def blk_write_def)
  have l: "length ?b = length out" using assms(3) by simp
  have tk: "take (n - 1) ?b = map Some (take (n - 1) t) @ replicate k (Some 0)"
  proof (cases "length t < n")
    case True
    then have "n - length t = Suc k" "n - 1 - length t = k" by (simp_all add: k_def)
    then show ?thesis using True by (simp add: take_map min_def del: replicate_Suc)
  qed (simp add: k_def take_map min_def)
  have wr: "blk_write ?b (n - 1) [Some 0] = Inr (take (n - 1) ?b @ Some 0 # drop n ?b)"
    using assms(2,3) l by (simp add: blk_write_def del: append_assoc map_append)
  have dr: "drop n ?b = drop n out" using assms(3) by simp
  have "\<exists>r. take (n - 1) ?b @ Some 0 # drop n ?b = map Some (take (n - 1) t) @ Some 0 # r"
    unfolding tk by (cases k) (auto simp: replicate_append_same)
  moreover have "0 \<notin> set (take (n - 1) t)" using assms(1) by (meson in_set_takeD)
  ultimately have "c_text (take (n - 1) ?b @ Some 0 # drop n ?b) (take (n - 1) t)" by (simp add: c_text_def)
  moreover have lt: "length (take (n - 1) ?b) = n - 1" using assms(2,3) by (simp only: length_take l)
  then have "length (take (n - 1) ?b @ Some 0 # drop n ?b) = length out"
    using assms(2,3) unfolding dr by (simp only: length_append lt) simp
  moreover have "drop n (take (n - 1) ?b @ Some 0 # drop n ?b) = drop n out"
    using assms(2) unfolding dr drop_append lt by (simp add: drop_Cons' l del: append_assoc map_append)
  ultimately show ?thesis unfolding cpy rbind_simps wr by blast
qed

lemma chunkid_file:
  assumes "0 \<notin> set t" and "18 \<le> n" and "n \<le> length out" and "m = n - 8" and "l = length t"
  shows "\<exists>out'. rbind (c_strcpy out []) (\<lambda>out.
      rbind (if l > m then c_strcat out (c_lit ''...'') else Inr out) (\<lambda>out.
        c_strcat out (if l > m then drop (l - m) t else t))) = Inr out' \<and>
    c_text out' (if l \<le> m then t else c_lit ''...'' @ drop (l - m) t) \<and> length out' = length out \<and> drop n out' = drop n out"
proof -
  have dots: "0 \<notin> set (c_lit ''...'')" "length (c_lit ''...'') = 3" by (simp_all add: c_lit_def)
  have ne: "out \<noteq> []" using assms(2,3) by auto
  obtain b0 where b0: "c_strcpy out [] = Inr b0" "c_text b0 []" "length b0 = length out" "\<forall>k > 0. drop k b0 = drop k out"
    using c_strcpy_text [of "[]" out] ne by auto
  show ?thesis
  proof (cases "l > m")
    case True
    obtain b1 where b1: "c_strcat b0 (c_lit ''...'') = Inr b1" "c_text b1 (c_lit ''...'')" "length b1 = length out"
        "\<forall>k > 3. drop k b1 = drop k b0"
      using c_strcat_text [OF b0(2), of "c_lit ''...''"] dots assms(2,3) b0(3) by auto
    have zd: "0 \<notin> set (drop (l - m) t)" using assms(1) by (meson in_set_dropD)
    have ld: "length (drop (l - m) t) = m" using True assms(5) by simp
    have r1: "length (c_lit ''...'') + length (drop (l - m) t) < length b1" using ld dots(2) assms(2-4) b1(3) by simp
    obtain b2 where b2: "c_strcat b1 (drop (l - m) t) = Inr b2" "c_text b2 (c_lit ''...'' @ drop (l - m) t)"
        "length b2 = length out" "\<forall>k > 3 + m. drop k b2 = drop k b1"
      using c_strcat_text [OF b1(2) r1 zd] dots(2) b1(3) unfolding ld by auto
    have "drop n b2 = drop n out" using b0(4) b1(4) b2(4) assms(2,4) by simp
    then show ?thesis using b0(1) b1(1) b2 True by simp
  next
    case False
    have r: "length ([] :: u8 list) + length t < length b0" using assms(2-5) b0(3) False by simp
    obtain b1 where b1: "c_strcat b0 t = Inr b1" "c_text b1 t" "length b1 = length out" "\<forall>k > l. drop k b1 = drop k b0"
      using c_strcat_text [OF b0(2) r assms(1)] assms(5) b0(3) by auto
    have "drop n b1 = drop n out" using b0(4) b1(4) assms(2,4) False by simp
    then show ?thesis using b0(1) b1 False by simp
  qed
qed

lemma chunkid_string:
  assumes "0 \<notin> set t" and "18 \<le> n" and "n \<le> length out" and "len \<le> length t" and "len \<le> n - 17"
  shows "\<exists>out'. rbind (c_strcpy out (c_lit ''[string '' @ [34])) (\<lambda>out.
      rbind (if len < length t then rbind (c_strncat out t len) (\<lambda>out. c_strcat out (c_lit ''...'')) else c_strcat out t) (\<lambda>out.
        c_strcat out ([34] @ c_lit '']''))) = Inr out' \<and>
    c_text out' ((c_lit ''[string '' @ [34]) @ (if len < length t then take len t @ c_lit ''...'' else t) @ [34] @ c_lit '']'') \<and>
    length out' = length out \<and> drop n out' = drop n out"
proof -
  let ?a = "c_lit ''[string '' @ [34]" and ?z = "[34] @ c_lit '']''"
  define mid where "mid = (if len < length t then take len t @ c_lit ''...'' else t)"
  have lit: "0 \<notin> set ?a" "length ?a = 9" "0 \<notin> set ?z" "length ?z = 2" "0 \<notin> set (c_lit ''...'')" "length (c_lit ''...'') = 3"
    by (simp_all add: c_lit_def)
  have zt: "0 \<notin> set (take len t)" using assms(1) by (meson in_set_takeD)
  have ml: "length mid \<le> n - 14" using assms(2,4,5) lit(6) by (auto simp: mid_def)
  obtain b0 where b0: "c_strcpy out ?a = Inr b0" "c_text b0 ?a" "length b0 = length out" "\<forall>k > 9. drop k b0 = drop k out"
    using c_strcpy_text [of ?a out] lit(1,2) assms(2,3) by auto
  have "\<exists>b1. (if len < length t then rbind (c_strncat b0 t len) (\<lambda>out. c_strcat out (c_lit ''...'')) else c_strcat b0 t) = Inr b1 \<and>
      c_text b1 (?a @ mid) \<and> length b1 = length out \<and> (\<forall>k > 9 + length mid. drop k b1 = drop k b0)"
  proof (cases "len < length t")
    case True
    have r0: "length ?a + length (take len t) < length b0" using lit(2) assms(2,3,5) b0(3) True by simp
    obtain c where c: "c_strcat b0 (take len t) = Inr c" "c_text c (?a @ take len t)" "length c = length out"
        "\<forall>k > 9 + len. drop k c = drop k b0"
      using c_strcat_text [OF b0(2) r0 zt] lit(2) b0(3) True by auto
    have r1: "length (?a @ take len t) + length (c_lit ''...'') < length c" using lit(2,6) assms(2,3,5) c(3) True by simp
    obtain b1 where "c_strcat c (c_lit ''...'') = Inr b1" "c_text b1 ((?a @ take len t) @ c_lit ''...'')" "length b1 = length out"
        "\<forall>k > 9 + len + 3. drop k b1 = drop k c"
      using c_strcat_text [OF c(2) r1 lit(5)] lit(2,6) c(3) True by auto
    then show ?thesis using c True lit(6) by (auto simp: mid_def c_strncat_def)
  next
    case False
    then have r: "length ?a + length t < length b0" using lit(2) assms(2-5) b0(3) by simp
    show ?thesis using c_strcat_text [OF b0(2) r assms(1)] lit(2) b0(3) False by (auto simp: mid_def)
  qed
  then obtain b1 where b1: "(if len < length t then rbind (c_strncat b0 t len) (\<lambda>out. c_strcat out (c_lit ''...'')) else c_strcat b0 t) = Inr b1"
      "c_text b1 (?a @ mid)" "length b1 = length out" "\<forall>k > 9 + length mid. drop k b1 = drop k b0" by blast
  have r2: "length (?a @ mid) + length ?z < length b1" using lit(2,4) ml assms(2,3) b1(3) by simp
  obtain b2 where b2: "c_strcat b1 ?z = Inr b2" "c_text b2 ((?a @ mid) @ ?z)" "length b2 = length out"
      "\<forall>k > 9 + length mid + 2. drop k b2 = drop k b1"
    using c_strcat_text [OF b1(2) r2 lit(3)] lit(2,4) b1(3) by auto
  have "drop n b2 = drop n out" using b0(4) b1(4) b2(4) ml assms(2) by simp
  then show ?thesis using b0(1) b1(1) b2(1-3) by (simp add: mid_def)
qed

lemma take_min_takeWhile: "take (min a (length (takeWhile P s))) s = take a (takeWhile P s)"
proof (induction s arbitrary: a)
  case (Cons x s)
  then show ?case by (cases a) simp_all
qed simp

lemma chunk_line_whole:
  assumes "line = take m (takeWhile P s)"
  shows "line = s \<longleftrightarrow> \<not> min m (length (takeWhile P s)) < length s"
proof
  assume "line = s"
  then have "length s = min m (length (takeWhile P s))" using assms by (metis length_take min.commute)
  then show "\<not> min m (length (takeWhile P s)) < length s" by simp
next
  assume a: "\<not> min m (length (takeWhile P s)) < length s"
  then have "length s \<le> length (takeWhile P s)" "length s \<le> m" by simp_all
  moreover from this have "takeWhile P s = s" by (metis length_takeWhile_le le_antisym takeWhile_eq_take take_all_iff)
  ultimately show "line = s" unfolding assms by (simp only: take_all_iff)
qed

text \<open>C38: Naming a chunk never writes past the buffer. For a source without a null byte and a buffer of at least 18 bytes
  (callers pass \<^verbatim>\<open>LUA_IDSIZE\<close>, 60), \<^verbatim>\<open>luaO_chunkid\<close> leaves a terminated string that is the name of the chunk, shorter than the
  buffer length, and no byte from the buffer length on changes.\<close>

theorem chunkid_fits:
  assumes "0 \<notin> set source" and "18 \<le> bufflen" and "bufflen \<le> length out"
  shows "\<exists>out'. luaO_chunkid out source bufflen = Inr out' \<and> c_string out' = Inr (chunk_name source bufflen) \<and>
    length (chunk_name source bufflen) < bufflen \<and> length out' = length out \<and> drop bufflen out' = drop bufflen out"
proof -
  have lits: "length (c_lit ''...'') = 3" "length (c_lit ''[string '') = 8" "length (c_lit '']'') = 1"
    by (simp_all add: c_lit_def)
  have m: "size_minus bufflen 1 = bufflen - 1" "size_minus bufflen 8 = bufflen - 8" "size_minus bufflen 17 = bufflen - 17"
    using assms(2) by (simp_all add: size_minus_def)
  have zt: "0 \<notin> set (tl source)" using assms(1) by (cases source) auto
  consider (lit) "source \<noteq> [] \<and> hd source = 61" | (fname) "source \<noteq> [] \<and> hd source = 64"
    | (line) "\<not> (source \<noteq> [] \<and> hd source = 61)" "\<not> (source \<noteq> [] \<and> hd source = 64)" by blast
  then show ?thesis
  proof cases
    case lit
    then have "0 < bufflen" using assms(2) by simp
    moreover have "luaO_chunkid out source bufflen =
        rbind (c_strncpy out (tl source) bufflen) (\<lambda>out. blk_write out (bufflen - 1) [Some 0])"
      using lit by (simp only: luaO_chunkid_def m) simp
    moreover have "chunk_name source bufflen = take (bufflen - 1) (tl source)" using lit by (simp add: chunk_name_def)
    ultimately show ?thesis using chunkid_literal [OF zt _ assms(3)] by (auto dest: c_text_string)
  next
    case fname
    then have ns: "\<not> (source \<noteq> [] \<and> hd source = 61)" by simp
    have chunk: "chunk_name source bufflen = (if length (tl source) \<le> bufflen - 8 then tl source
        else c_lit ''...'' @ drop (length (tl source) - (bufflen - 8)) (tl source))"
      using fname ns by (simp only: chunk_name_def if_False) simp
    have "luaO_chunkid out source bufflen = rbind (c_strcpy out []) (\<lambda>out.
        rbind (if bufflen - 8 < length (tl source) then c_strcat out (c_lit ''...'') else Inr out) (\<lambda>out.
          c_strcat out (if bufflen - 8 < length (tl source) then drop (length (tl source) - (bufflen - 8)) (tl source) else tl source)))"
      using fname ns by (simp only: luaO_chunkid_def m Let_def if_False) simp
    moreover have "length (chunk_name source bufflen) < bufflen" using assms(2) unfolding chunk by (auto simp: lits)
    ultimately show ?thesis using chunkid_file [OF zt assms(2,3) refl refl, folded chunk] by (auto dest: c_text_string)
  next
    case line
    let ?l = "takeWhile (\<lambda>c. c \<noteq> 10 \<and> c \<noteq> 13) source"
    define ln where "ln = take (bufflen - 17) ?l"
    define len where "len = length ln"
    have pre: "take len source = ln"
      unfolding len_def ln_def length_take min.commute [of "length ?l"] by (rule take_min_takeWhile)
    have len: "len \<le> length source" "len \<le> bufflen - 17"
      using length_takeWhile_le [of "\<lambda>c. c \<noteq> 10 \<and> c \<noteq> 13" source] by (simp_all add: len_def ln_def)
    have whole: "ln = source \<longleftrightarrow> \<not> len < length source"
      using chunk_line_whole [OF ln_def] by (simp add: len_def ln_def min.commute)
    have chunk: "chunk_name source bufflen = (c_lit ''[string '' @ [34]) @
        (if len < length source then take len source @ c_lit ''...'' else source) @ [34] @ c_lit '']''"
      using line whole pre by (simp only: chunk_name_def ln_def [symmetric] Let_def if_False append_assoc) simp
    have "(if length ?l > bufflen - 17 then bufflen - 17 else length ?l) = len" by (simp add: len_def ln_def min_def)
    then have "luaO_chunkid out source bufflen = rbind (c_strcpy out (c_lit ''[string '' @ [34])) (\<lambda>out.
        rbind (if len < length source then rbind (c_strncat out source len) (\<lambda>out. c_strcat out (c_lit ''...'')) else c_strcat out source)
          (\<lambda>out. c_strcat out ([34] @ c_lit '']'')))"
      using line by (simp only: luaO_chunkid_def m Let_def if_False)
    moreover have "length (chunk_name source bufflen) < bufflen"
      using len(1,2) assms(2) unfolding chunk by (auto simp: lits)
    ultimately show ?thesis using chunkid_string [OF assms(1-3) len(1,2), folded chunk] by (auto dest: c_text_string)
  qed
qed

theorem chunkid_fits_witness:
  "\<exists>out'. luaO_chunkid (replicate 20 None) (64 # c_lit ''/usr/share/init.lua'') 20 = Inr out' \<and>
     c_string out' = Inr (c_lit ''...are/init.lua'') \<and> length out' = 20"
proof -
  have n: "chunk_name (64 # c_lit ''/usr/share/init.lua'') 20 = c_lit ''...are/init.lua''"
    by (simp add: chunk_name_def c_lit_def)
  show ?thesis
    using chunkid_fits [of "64 # c_lit ''/usr/share/init.lua''" 20 "replicate 20 None"] n
    by (auto simp: c_lit_def)
qed

end
