(* ===== verification/Lua_Check.thy ===== *)
theory Lua_Check
  imports Lua_Opcodes
begin

text \<open>
  Function prototypes of the Lua virtual machine and the checker of their code: the structures of \<^verbatim>\<open>lobject.h\<close> and the section
  "Symbolic Execution and code checker" of \<^verbatim>\<open>ldebug.c\<close>, with the way the interpreter loop of \<^verbatim>\<open>lvm.c\<close> moves its program counter.
  A C \<open>int\<close> that counts instructions, registers or constants is an \<open>int\<close>: such numbers stay below \<open>2 ^ 31\<close> for code of fewer
  than \<open>2 ^ 30\<close> instructions. Reading outside an array is \<open>Mem_error\<close>. A failed \<^verbatim>\<open>check\<close> leaves the function with 0, which is
  \<open>None\<close> until \<^verbatim>\<open>symbexec\<close> returns.
\<close>

section \<open>Prototypes\<close>

text \<open>A string is its bytes and \<open>None\<close> the null pointer: equal strings are the same object in Lua. \<open>K_other\<close> is a value whose
  type no constant should have.\<close>

type_synonym tstring = "u8 list option"

datatype konst = K_nil | K_boolean int | K_number u64 | K_string tstring | K_other u8

record LocVar =
  varname :: tstring
  startpc :: u32
  endpc :: u32

datatype Proto =
  Proto (p_source: tstring) (linedefined: u32) (lastlinedefined: u32) (nups: u8) (numparams: u8) (is_vararg: u8)
    (maxstacksize: u8) (p_code: "instruction list") (p_k: "konst list") (p_p: "Proto list") (lineinfo: "u32 list")
    (locvars: "LocVar list") (upvalues: "tstring list")

definition VARARG_HASARG :: u8 where "VARARG_HASARG = 1"
definition VARARG_ISVARARG :: u8 where "VARARG_ISVARARG = 2"
definition VARARG_NEEDSARG :: u8 where "VARARG_NEEDSARG = 4"
definition MAXSTACK :: int where "MAXSTACK = 250"
definition LUA_MULTRET :: int where "LUA_MULTRET = - 1"
definition EXTRA_STACK :: int where "EXTRA_STACK = 5"

abbreviation sizecode :: "Proto \<Rightarrow> int" where "sizecode pt \<equiv> int (length (p_code pt))"
abbreviation sizek :: "Proto \<Rightarrow> int" where "sizek pt \<equiv> int (length (p_k pt))"
abbreviation sizep :: "Proto \<Rightarrow> int" where "sizep pt \<equiv> int (length (p_p pt))"

fun ttisstring :: "konst \<Rightarrow> bool" where
  "ttisstring (K_string s) = True"
| "ttisstring _ = False"

section \<open>Reading arrays and failing checks\<close>

definition rd :: "'a list \<Rightarrow> int \<Rightarrow> 'a res" where
  "rd xs i = (if 0 \<le> i \<and> i < int (length xs) then Inr (xs ! nat i) else Inl Mem_error)"

definition cbind :: "'a option res \<Rightarrow> ('a \<Rightarrow> 'b option res) \<Rightarrow> 'b option res" where
  "cbind m f = rbind m (\<lambda>r. case r of None \<Rightarrow> Inr None | Some x \<Rightarrow> f x)"

definition check :: "bool \<Rightarrow> 'a option res \<Rightarrow> 'a option res" where
  "check x k = (if x then k else Inr None)"

abbreviation opcode :: "instruction \<Rightarrow> nat" where "opcode i \<equiv> unat (GET_OPCODE i)"

text \<open>The argument of an instruction as an \<open>int\<close>.\<close>

abbreviation arg :: "u32 \<Rightarrow> int" where "arg w \<equiv> int (unat w)"

section \<open>The checker\<close>

definition checkreg :: "Proto \<Rightarrow> int \<Rightarrow> bool" where
  "checkreg pt reg \<longleftrightarrow> reg < int (unat (maxstacksize pt))"

definition precheck :: "Proto \<Rightarrow> bool res" where
  "precheck pt =
     (if \<not> (int (unat (maxstacksize pt)) \<le> MAXSTACK) then Inr False
      else if \<not> (int (unat (numparams pt)) + int (unat (is_vararg pt AND VARARG_HASARG)) \<le> int (unat (maxstacksize pt))) then Inr False
      else if \<not> (is_vararg pt AND VARARG_NEEDSARG = 0 \<or> is_vararg pt AND VARARG_HASARG \<noteq> 0) then Inr False
      else if \<not> (length (upvalues pt) \<le> unat (nups pt)) then Inr False
      else if \<not> (length (lineinfo pt) = length (p_code pt) \<or> length (lineinfo pt) = 0) then Inr False
      else if \<not> (sizecode pt > 0) then Inr False
      else rbind (rd (p_code pt) (sizecode pt - 1)) (\<lambda>i. Inr (opcode i = op_num OP_RETURN)))"

definition luaG_checkopenop :: "instruction \<Rightarrow> bool" where
  "luaG_checkopenop i =
     (if opcode i \<in> {op_num OP_CALL, op_num OP_TAILCALL, op_num OP_RETURN, op_num OP_SETLIST} then GETARG_B i = 0 else False)"

definition checkArgMode :: "Proto \<Rightarrow> u32 \<Rightarrow> u8 \<Rightarrow> bool" where
  "checkArgMode pt r mode =
     (if mode = arg_num OpArgN then r = 0
      else if mode = arg_num OpArgU then True
      else if mode = arg_num OpArgR then checkreg pt (arg r)
      else if ISK r then arg (INDEXK r) < sizek pt else arg r < int (unat (maxstacksize pt)))"

text \<open>A \<open>SETLIST\<close> whose count is the next word of the code.\<close>

definition setlist0 :: "instruction \<Rightarrow> bool" where
  "setlist0 d \<longleftrightarrow> opcode d = op_num OP_SETLIST \<and> GETARG_C d = 0"

text \<open>The loop that goes back over the words before a jump target that look like such a \<open>SETLIST\<close>.\<close>

function setlist_run :: "instruction list \<Rightarrow> int \<Rightarrow> int \<Rightarrow> int res" where
  "setlist_run cs dest j =
     (if j < dest then rbind (rd cs (dest - 1 - j)) (\<lambda>d. if setlist0 d then setlist_run cs dest (j + 1) else Inr j)
      else Inr j)"
  by pat_completeness auto
termination
  by (relation "measure (\<lambda>(cs, dest, j). nat (dest - j))") auto

declare setlist_run.simps [simp del]

text \<open>The operands by the format of the instruction.\<close>

definition symb_args :: "Proto \<Rightarrow> int \<Rightarrow> instruction \<Rightarrow> nat \<Rightarrow> (int \<times> int) option res" where
  "symb_args pt pc i op =
     (if getOpMode op = mode_num iABC then
        check (checkArgMode pt (GETARG_B i) (getBMode op)) (
        check (checkArgMode pt (GETARG_C i) (getCMode op)) (
          Inr (Some (arg (GETARG_B i), arg (GETARG_C i)))))
      else if getOpMode op = mode_num iABx then
        check (getBMode op = arg_num OpArgK \<longrightarrow> arg (GETARG_Bx i) < sizek pt) (Inr (Some (arg (GETARG_Bx i), 0)))
      else if getOpMode op = mode_num iAsBx then
        let b = GETARG_sBx i; dest = pc + 1 + b in
        if getBMode op = arg_num OpArgR then
          check (0 \<le> dest \<and> dest < sizecode pt) (
            if dest > 0 then rbind (setlist_run (p_code pt) dest 0) (\<lambda>j. check (j mod 2 = 0) (Inr (Some (b, 0))))
            else Inr (Some (b, 0)))
        else Inr (Some (b, 0))
      else Inr (Some (0, 0)))"

text \<open>A test instruction is followed by a jump.\<close>

definition symb_test :: "Proto \<Rightarrow> int \<Rightarrow> nat \<Rightarrow> unit option res" where
  "symb_test pt pc op =
     (if testTMode op then
        check (pc + 2 < sizecode pt) (
        rbind (rd (p_code pt) (pc + 1)) (\<lambda>d. check (opcode d = op_num OP_JMP) (Inr (Some ()))))
      else Inr (Some ()))"

text \<open>The pseudo-instructions after a \<open>CLOSURE\<close>, from \<open>j\<close> on, \<open>m\<close> of them.\<close>

fun closure_args :: "Proto \<Rightarrow> int \<Rightarrow> int \<Rightarrow> nat \<Rightarrow> unit option res" where
  "closure_args pt pc j 0 = Inr (Some ())"
| "closure_args pt pc j (Suc m) =
     rbind (rd (p_code pt) (pc + j)) (\<lambda>d.
       check (opcode d = op_num OP_GETUPVAL \<or> opcode d = op_num OP_MOVE) (closure_args pt pc (j + 1) m))"

definition checkopenop :: "Proto \<Rightarrow> int \<Rightarrow> (unit \<Rightarrow> 'a option res) \<Rightarrow> 'a option res" where
  "checkopenop pt pc k = rbind (rd (p_code pt) (pc + 1)) (\<lambda>d. check (luaG_checkopenop d) (k ()))"

text \<open>The jump of \<open>JMP\<close>, \<open>FORLOOP\<close> and \<open>FORPREP\<close> when the execution of a register is traced.\<close>

definition symb_jump :: "int \<Rightarrow> int \<Rightarrow> int \<Rightarrow> int \<Rightarrow> int \<Rightarrow> (int \<times> int) option res" where
  "symb_jump lastpc reg pc lst b =
     (let dest = pc + 1 + b in
      if reg \<noteq> NO_REG \<and> pc < dest \<and> dest \<le> lastpc then Inr (Some (pc + b, lst)) else Inr (Some (pc, lst)))"

definition symb_call :: "Proto \<Rightarrow> int \<Rightarrow> int \<Rightarrow> int \<Rightarrow> int \<Rightarrow> int \<Rightarrow> int \<Rightarrow> (int \<times> int) option res" where
  "symb_call pt reg pc lst a b c =
     check (b \<noteq> 0 \<longrightarrow> checkreg pt (a + b - 1)) (
       let c = c - 1; lst' = (if reg \<ge> a then pc else lst) in
       if c = LUA_MULTRET then checkopenop pt pc (\<lambda>_. Inr (Some (pc, lst')))
       else check (c \<noteq> 0 \<longrightarrow> checkreg pt (a + c - 1)) (Inr (Some (pc, lst'))))"

definition symb_closure :: "Proto \<Rightarrow> int \<Rightarrow> int \<Rightarrow> int \<Rightarrow> int \<Rightarrow> (int \<times> int) option res" where
  "symb_closure pt reg pc lst b =
     check (b < sizep pt) (
       rbind (rd (p_p pt) b) (\<lambda>f.
         let nup = unat (nups f) in
         check (pc + int nup < sizecode pt) (
           cbind (closure_args pt pc 1 nup) (\<lambda>_.
             if reg \<noteq> NO_REG then Inr (Some (pc + int nup, lst)) else Inr (Some (pc, lst))))))"

text \<open>The switch over the opcode: the program counter and the last change of the register after it.\<close>

definition symb_op :: "Proto \<Rightarrow> int \<Rightarrow> int \<Rightarrow> int \<Rightarrow> int \<Rightarrow> OpCode \<Rightarrow> int \<Rightarrow> int \<Rightarrow> int \<Rightarrow> (int \<times> int) option res" where
  "symb_op pt lastpc reg pc lst op a b c =
     (case op of
        OP_LOADBOOL \<Rightarrow>
          if c = 1 then
            check (pc + 2 < sizecode pt) (
              rbind (rd (p_code pt) (pc + 1)) (\<lambda>d. check (\<not> setlist0 d) (Inr (Some (pc, lst)))))
          else Inr (Some (pc, lst))
      | OP_LOADNIL \<Rightarrow> Inr (Some (pc, if a \<le> reg \<and> reg \<le> b then pc else lst))
      | OP_GETUPVAL \<Rightarrow> check (b < int (unat (nups pt))) (Inr (Some (pc, lst)))
      | OP_SETUPVAL \<Rightarrow> check (b < int (unat (nups pt))) (Inr (Some (pc, lst)))
      | OP_GETGLOBAL \<Rightarrow> rbind (rd (p_k pt) b) (\<lambda>v. check (ttisstring v) (Inr (Some (pc, lst))))
      | OP_SETGLOBAL \<Rightarrow> rbind (rd (p_k pt) b) (\<lambda>v. check (ttisstring v) (Inr (Some (pc, lst))))
      | OP_SELF \<Rightarrow> check (checkreg pt (a + 1)) (Inr (Some (pc, if reg = a + 1 then pc else lst)))
      | OP_CONCAT \<Rightarrow> check (b < c) (Inr (Some (pc, lst)))
      | OP_TFORLOOP \<Rightarrow>
          check (c \<ge> 1) (check (checkreg pt (a + 2 + c)) (Inr (Some (pc, if reg \<ge> a + 2 then pc else lst))))
      | OP_FORLOOP \<Rightarrow> check (checkreg pt (a + 3)) (symb_jump lastpc reg pc lst b)
      | OP_FORPREP \<Rightarrow> check (checkreg pt (a + 3)) (symb_jump lastpc reg pc lst b)
      | OP_JMP \<Rightarrow> symb_jump lastpc reg pc lst b
      | OP_CALL \<Rightarrow> symb_call pt reg pc lst a b c
      | OP_TAILCALL \<Rightarrow> symb_call pt reg pc lst a b c
      | OP_RETURN \<Rightarrow> check (b - 1 > 0 \<longrightarrow> checkreg pt (a + (b - 1) - 1)) (Inr (Some (pc, lst)))
      | OP_SETLIST \<Rightarrow>
          check (b > 0 \<longrightarrow> checkreg pt (a + b)) (
            if c = 0 then check (pc + 1 < sizecode pt - 1) (Inr (Some (pc + 1, lst))) else Inr (Some (pc, lst)))
      | OP_CLOSURE \<Rightarrow> symb_closure pt reg pc lst b
      | OP_VARARG \<Rightarrow>
          check (is_vararg pt AND VARARG_ISVARARG \<noteq> 0 \<and> is_vararg pt AND VARARG_NEEDSARG = 0) (
            let b = b - 1; k = (\<lambda>_. check (checkreg pt (a + b - 1)) (Inr (Some (pc, lst)))) in
            if b = LUA_MULTRET then checkopenop pt pc k else k ())
      | _ \<Rightarrow> Inr (Some (pc, lst)))"

text \<open>The body of the loop.\<close>

definition symb_step :: "Proto \<Rightarrow> int \<Rightarrow> int \<Rightarrow> int \<Rightarrow> int \<Rightarrow> (int \<times> int) option res" where
  "symb_step pt lastpc reg pc lst =
     rbind (rd (p_code pt) pc) (\<lambda>i.
       let op = opcode i; a = arg (GETARG_A i) in
       check (op < NUM_OPCODES) (
       check (checkreg pt a) (
         cbind (symb_args pt pc i op) (\<lambda>(b, c).
           let lst' = (if testAMode op \<and> a = reg then pc else lst) in
           cbind (symb_test pt pc op) (\<lambda>_. symb_op pt lastpc reg pc lst' (op_list ! op) a b c)))))"

lemma cbind_Some_iff [ax_res]: "cbind m f = Inr (Some y) \<longleftrightarrow> (\<exists>x. m = Inr (Some x) \<and> f x = Inr (Some y))"
  by (auto simp: cbind_def ax_res split: option.splits)

lemma check_Some_iff [ax_res]: "check b k = Inr (Some y) \<longleftrightarrow> b \<and> k = Inr (Some y)"
  by (simp add: check_def)

lemma rd_Inr_iff [ax_res]: "rd xs i = Inr x \<longleftrightarrow> 0 \<le> i \<and> i < int (length xs) \<and> x = xs ! nat i"
  by (auto simp: rd_def)

lemmas symb_defs = symb_op_def symb_jump_def symb_call_def symb_closure_def checkopenop_def

lemma symb_op_forward:
  "symb_op pt lastpc reg pc lst op a b c = Inr (Some (pc', lst')) \<Longrightarrow> pc \<le> pc' \<and> (lst' = lst \<or> lst' = pc)"
  by (cases op) (auto simp: symb_defs Let_def ax_res split: if_splits)

lemma symb_step_forward:
  "symb_step pt lastpc reg pc lst = Inr (Some (pc', lst')) \<Longrightarrow> pc \<le> pc' \<and> (lst' = lst \<or> lst' = pc)"
  by (fastforce simp: symb_step_def Let_def ax_res dest!: symb_op_forward split: if_splits)

function symb_loop :: "Proto \<Rightarrow> int \<Rightarrow> int \<Rightarrow> int \<Rightarrow> int \<Rightarrow> int option res" where
  "symb_loop pt lastpc reg pc lst =
     (if pc < lastpc then
        rbind (symb_step pt lastpc reg pc lst) (\<lambda>r. case r of
            None \<Rightarrow> Inr None
          | Some (pc', lst') \<Rightarrow> symb_loop pt lastpc reg (pc' + 1) lst')
      else Inr (Some lst))"
  by pat_completeness auto
termination
  by (relation "measure (\<lambda>(pt, lastpc, reg, pc, lst). nat (lastpc - pc))") (auto dest: symb_step_forward)

declare symb_loop.simps [simp del]

definition symbexec :: "Proto \<Rightarrow> int \<Rightarrow> int \<Rightarrow> instruction res" where
  "symbexec pt lastpc reg =
     rbind (precheck pt) (\<lambda>ok.
       if \<not> ok then Inr 0
       else rbind (symb_loop pt lastpc reg 0 (sizecode pt - 1)) (\<lambda>r. case r of
           None \<Rightarrow> Inr 0
         | Some lst \<Rightarrow> rd (p_code pt) lst))"

definition luaG_checkcode :: "Proto \<Rightarrow> bool res" where
  "luaG_checkcode pt = rbind (symbexec pt (sizecode pt) NO_REG) (\<lambda>i. Inr (i \<noteq> 0))"

section \<open>Results that are never undefined\<close>

definition defined :: "'a res \<Rightarrow> bool" where
  "defined m \<longleftrightarrow> (\<exists>r. m = Inr r)"

named_theorems total_intros \<open>rules that show a computation defined\<close>

lemma defined_Inr [total_intros]: "defined (Inr r)"
  by (simp add: defined_def)

lemma defined_rbind [total_intros]: "defined m \<Longrightarrow> (\<And>x. m = Inr x \<Longrightarrow> defined (f x)) \<Longrightarrow> defined (rbind m f)"
  by (auto simp: defined_def)

lemma defined_cbind [total_intros]: "defined m \<Longrightarrow> (\<And>x. m = Inr (Some x) \<Longrightarrow> defined (f x)) \<Longrightarrow> defined (cbind m f)"
  by (force simp: defined_def cbind_def split: option.splits)

lemma defined_check [total_intros]: "(b \<Longrightarrow> defined k) \<Longrightarrow> defined (check b k)"
  by (auto simp: defined_def check_def)

lemma defined_rd [total_intros]: "0 \<le> i \<Longrightarrow> i < int (length xs) \<Longrightarrow> defined (rd xs i)"
  by (auto simp: defined_def rd_def)

section \<open>Opcodes and their modes\<close>

lemma num_opcodes: "NUM_OPCODES = 38"
  by (simp add: NUM_OPCODES_def op_num_def op_list_def)

lemma op_num_at: "n < 38 \<Longrightarrow> op_num (op_list ! n) = n"
proof -
  assume "n < 38"
  moreover have "list_all (\<lambda>n. op_num (op_list ! n) = n) [0..<38]" by (simp add: upt_rec op_num_def op_list_def)
  ultimately show ?thesis by (simp add: list_all_iff)
qed

lemma opcode_cases:
  assumes "n < NUM_OPCODES"
  obtains p where "n = op_num p"
  using op_num_at assms by (metis num_opcodes)

lemma op_num_inj [simp]: "op_num p = op_num q \<longleftrightarrow> p = q"
  by (metis op_num_list)

lemma op_at [simp]: "op_list ! op_num p = p"
  by (simp add: op_num_list)

text \<open>The table, opcode by opcode.\<close>

fun op_mode :: "OpCode \<Rightarrow> OpMode" where
  "op_mode OP_LOADK = iABx"
| "op_mode OP_GETGLOBAL = iABx"
| "op_mode OP_SETGLOBAL = iABx"
| "op_mode OP_CLOSURE = iABx"
| "op_mode OP_JMP = iAsBx"
| "op_mode OP_FORLOOP = iAsBx"
| "op_mode OP_FORPREP = iAsBx"
| "op_mode _ = iABC"

fun op_bmode :: "OpCode \<Rightarrow> OpArgMask" where
  "op_bmode p =
     (if p \<in> {OP_LOADK, OP_GETGLOBAL, OP_SETGLOBAL, OP_SETTABLE, OP_ADD, OP_SUB, OP_MUL, OP_DIV, OP_MOD, OP_POW, OP_EQ, OP_LT, OP_LE} then OpArgK
      else if p \<in> {OP_LOADBOOL, OP_GETUPVAL, OP_SETUPVAL, OP_NEWTABLE, OP_CALL, OP_TAILCALL, OP_RETURN, OP_SETLIST, OP_CLOSURE, OP_VARARG} then OpArgU
      else if p \<in> {OP_TFORLOOP, OP_CLOSE} then OpArgN else OpArgR)"

fun op_cmode :: "OpCode \<Rightarrow> OpArgMask" where
  "op_cmode p =
     (if p \<in> {OP_GETTABLE, OP_SETTABLE, OP_SELF, OP_ADD, OP_SUB, OP_MUL, OP_DIV, OP_MOD, OP_POW, OP_EQ, OP_LT, OP_LE} then OpArgK
      else if p \<in> {OP_LOADBOOL, OP_NEWTABLE, OP_TEST, OP_TESTSET, OP_CALL, OP_TAILCALL, OP_TFORLOOP, OP_SETLIST} then OpArgU
      else if p = OP_CONCAT then OpArgR else OpArgN)"

lemma mode_num_inj [simp]: "mode_num m = mode_num n \<longleftrightarrow> m = n"
  by (cases m; cases n) simp_all

lemma arg_num_inj [simp]: "arg_num m = arg_num n \<longleftrightarrow> m = n"
  by (cases m; cases n) simp_all

lemma get_modes [simp]:
  "getOpMode (op_num p) = mode_num (op_mode p)"
  "getBMode (op_num p) = arg_num (op_bmode p)"
  "getCMode (op_num p) = arg_num (op_cmode p)"
  by (cases p; simp add: getOpMode_def getBMode_def getCMode_def luaP_opmodes_eq op_num_def op_list_def drop_bit_eq_div)+

lemma test_mode [simp]:
  "testTMode (op_num p) \<longleftrightarrow> p \<in> {OP_EQ, OP_LT, OP_LE, OP_TEST, OP_TESTSET, OP_TFORLOOP}"
  by (cases p; simp add: testTMode_def luaP_opmodes_eq op_num_def op_list_def)

declare op_bmode.simps [simp del] op_cmode.simps [simp del] arg_num.simps [simp del] mode_num.simps [simp del]

section \<open>The checker reads only its arrays\<close>

lemma setlist_run_ok:
  assumes "0 \<le> j" and "j \<le> dest" and "dest \<le> int (length cs)"
  shows "\<exists>k. setlist_run cs dest j = Inr k \<and> j \<le> k \<and> k \<le> dest \<and> (\<forall>m. j \<le> m \<and> m < k \<longrightarrow> setlist0 (cs ! nat (dest - 1 - m))) \<and>
    (k < dest \<longrightarrow> \<not> setlist0 (cs ! nat (dest - 1 - k)))"
  using assms
proof (induction cs dest j rule: setlist_run.induct)
  case (1 cs dest j)
  show ?case
  proof (cases "j < dest \<and> setlist0 (cs ! nat (dest - 1 - j))")
    case True
    then have r: "rd cs (dest - 1 - j) = Inr (cs ! nat (dest - 1 - j))" using 1(2-4) by (simp add: rd_def)
    from 1(1) [OF _ r] True 1(2-4) obtain k where k: "setlist_run cs dest (j + 1) = Inr k" "j + 1 \<le> k" "k \<le> dest"
        "\<forall>m. j + 1 \<le> m \<and> m < k \<longrightarrow> setlist0 (cs ! nat (dest - 1 - m))" "k < dest \<longrightarrow> \<not> setlist0 (cs ! nat (dest - 1 - k))" by force
    have "\<forall>m. j \<le> m \<and> m < k \<longrightarrow> setlist0 (cs ! nat (dest - 1 - m))" using k(4) True by (metis zless_add1_eq linorder_not_less order_le_less)
    then show ?thesis using k True r by (subst setlist_run.simps) auto
  next
    case False
    then have "setlist_run cs dest j = Inr j" using 1(2-4) by (subst setlist_run.simps) (auto simp: rd_def)
    then show ?thesis using False 1(3) by auto
  qed
qed

lemma setlist_run_defined: "0 \<le> dest \<Longrightarrow> dest \<le> int (length cs) \<Longrightarrow> defined (setlist_run cs dest 0)"
  using setlist_run_ok [of 0 dest cs] by (auto simp: defined_def)

lemma closure_args_defined: "0 \<le> pc + j \<Longrightarrow> pc + j + int m \<le> sizecode pt \<Longrightarrow> defined (closure_args pt pc j m)"
  by (induction pt pc j m rule: closure_args.induct) (auto intro!: total_intros)

text \<open>Code whose last instruction is a return.\<close>

definition ends_in_return :: "Proto \<Rightarrow> bool" where
  "ends_in_return pt \<longleftrightarrow> p_code pt \<noteq> [] \<and> opcode (p_code pt ! (length (p_code pt) - 1)) = op_num OP_RETURN"

lemma before_return:
  assumes "ends_in_return pt" and "0 \<le> pc" and "pc < sizecode pt" and "opcode (p_code pt ! nat pc) \<noteq> op_num OP_RETURN"
  shows "pc + 1 < sizecode pt"
proof (rule ccontr)
  assume "\<not> pc + 1 < sizecode pt"
  then have "nat pc = length (p_code pt) - 1" using assms(2,3) by linarith
  then show False using assms(1,4) by (simp add: ends_in_return_def)
qed

lemma symb_args_defined:
  "0 \<le> pc \<Longrightarrow> pc < sizecode pt \<Longrightarrow> defined (symb_args pt pc i op)"
  by (auto simp: symb_args_def Let_def intro!: total_intros setlist_run_defined)

lemma symb_args_global:
  "symb_args pt pc i (op_num p) = Inr (Some (b, c)) \<Longrightarrow> p = OP_GETGLOBAL \<or> p = OP_SETGLOBAL \<Longrightarrow> 0 \<le> b \<and> b < sizek pt"
  by (auto simp: symb_args_def op_bmode.simps ax_res)

lemma symb_args_closure:
  "symb_args pt pc i (op_num OP_CLOSURE) = Inr (Some (b, c)) \<Longrightarrow> 0 \<le> b"
  by (auto simp: symb_args_def op_bmode.simps ax_res)

lemma symb_op_defined:
  assumes "symb_args pt pc i (op_num p) = Inr (Some (b, c))" and "0 \<le> pc" and "pc < sizecode pt" and "p \<noteq> OP_RETURN \<Longrightarrow> pc + 1 < sizecode pt"
  shows "defined (symb_op pt lastpc reg pc lst p a b c)"
  using symb_args_global [OF assms(1)] symb_args_closure assms
  by (cases p) (auto simp: symb_defs Let_def intro!: total_intros closure_args_defined)

lemma symb_step_defined:
  assumes "ends_in_return pt" and "0 \<le> pc" and "pc < sizecode pt"
  shows "defined (symb_step pt lastpc reg pc lst)"
proof -
  define i where "i = p_code pt ! nat pc"
  have r: "rd (p_code pt) pc = Inr i" using assms by (simp add: rd_def i_def)
  show ?thesis
  proof (cases "opcode i < NUM_OPCODES")
    case True
    then obtain p where p: "opcode i = op_num p" by (rule opcode_cases)
    have nr: "p \<noteq> OP_RETURN \<Longrightarrow> pc + 1 < sizecode pt" using before_return [OF assms] p by (simp add: i_def)
    have "defined (symb_test pt pc (opcode i))"
      using assms(2) by (auto simp: symb_test_def intro!: total_intros)
    then show ?thesis
      using assms p nr by (auto simp: symb_step_def Let_def r intro!: total_intros symb_args_defined symb_op_defined)
  next
    case False
    then show ?thesis by (simp add: symb_step_def Let_def r check_def total_intros)
  qed
qed

lemma symb_loop_defined:
  assumes "ends_in_return pt" and "0 \<le> pc" and "lastpc \<le> sizecode pt" and "0 \<le> lst" and "lst < sizecode pt"
  shows "\<exists>r. symb_loop pt lastpc reg pc lst = Inr r \<and> (\<forall>l. r = Some l \<longrightarrow> 0 \<le> l \<and> l < sizecode pt)"
  using assms
proof (induction pt lastpc reg pc lst rule: symb_loop.induct)
  case (1 pt lastpc reg pc lst)
  show ?case
  proof (cases "pc < lastpc")
    case True
    then have lt: "pc < sizecode pt" using 1(4) by simp
    obtain r where r: "symb_step pt lastpc reg pc lst = Inr r"
      using symb_step_defined [OF 1(2,3) lt, of lastpc reg lst] by (auto simp: defined_def)
    show ?thesis
    proof (cases r)
      case None
      then show ?thesis using r True by (subst symb_loop.simps) simp
    next
      case (Some q)
      obtain pc' lst' where q: "q = (pc', lst')" by (cases q)
      have fw: "pc \<le> pc'" "lst' = lst \<or> lst' = pc" using symb_step_forward r unfolding Some q by blast+
      have "\<exists>r. symb_loop pt lastpc reg (pc' + 1) lst' = Inr r \<and> (\<forall>l. r = Some l \<longrightarrow> 0 \<le> l \<and> l < sizecode pt)"
        using 1(1) [OF True r Some q [symmetric] 1(2) _ 1(4)] fw 1(3,5,6) lt by auto
      then show ?thesis using r True unfolding Some q by (subst symb_loop.simps) simp
    qed
  next
    case False
    then show ?thesis using 1(5,6) by (subst symb_loop.simps) simp
  qed
qed

lemma precheck_iff:
  "\<exists>ok. precheck pt = Inr ok \<and> (ok \<longrightarrow> ends_in_return pt \<and> int (unat (maxstacksize pt)) \<le> MAXSTACK)"
proof -
  have "nat (sizecode pt - 1) = length (p_code pt) - 1" by linarith
  then show ?thesis by (auto simp: precheck_def rd_def ends_in_return_def)
qed

section \<open>How the interpreter moves\<close>

text \<open>The loop of \<^verbatim>\<open>luaV_execute\<close> reduced to its program counter: the words an instruction at \<open>pc\<close> reads and the positions
  execution may continue at. Which of them depends on values; a call continues after it, a return leaves the function.\<close>

fun read_words :: "instruction list \<Rightarrow> int \<Rightarrow> nat \<Rightarrow> unit res" where
  "read_words cs pc 0 = Inr ()"
| "read_words cs pc (Suc m) = rbind (rd cs pc) (\<lambda>_. read_words cs (pc + 1) m)"

definition vm_next :: "Proto \<Rightarrow> int \<Rightarrow> int list res" where
  "vm_next pt pc =
     rbind (rd (p_code pt) pc) (\<lambda>i.
       let test = rbind (rd (p_code pt) (pc + 1)) (\<lambda>d. Inr [pc + 1 + GETARG_sBx d + 1, pc + 2]) in
       case op_list ! opcode i of
         OP_LOADBOOL \<Rightarrow> Inr [if GETARG_C i \<noteq> 0 then pc + 2 else pc + 1]
       | OP_JMP \<Rightarrow> Inr [pc + 1 + GETARG_sBx i]
       | OP_EQ \<Rightarrow> test
       | OP_LT \<Rightarrow> test
       | OP_LE \<Rightarrow> test
       | OP_TEST \<Rightarrow> test
       | OP_TESTSET \<Rightarrow> test
       | OP_TFORLOOP \<Rightarrow> test
       | OP_RETURN \<Rightarrow> Inr []
       | OP_FORLOOP \<Rightarrow> Inr [pc + 1 + GETARG_sBx i, pc + 1]
       | OP_FORPREP \<Rightarrow> Inr [pc + 1 + GETARG_sBx i]
       | OP_SETLIST \<Rightarrow> if GETARG_C i = 0 then rbind (rd (p_code pt) (pc + 1)) (\<lambda>_. Inr [pc + 2]) else Inr [pc + 1]
       | OP_CLOSURE \<Rightarrow>
           rbind (rd (p_p pt) (arg (GETARG_Bx i))) (\<lambda>f.
           rbind (read_words (p_code pt) (pc + 1) (unat (nups f))) (\<lambda>_. Inr [pc + 1 + int (unat (nups f))]))
       | _ \<Rightarrow> Inr [pc + 1])"

inductive vm_reach :: "Proto \<Rightarrow> int \<Rightarrow> bool" where
  entry: "vm_reach pt 0"
| step: "vm_reach pt pc \<Longrightarrow> vm_next pt pc = Inr ss \<Longrightarrow> q \<in> set ss \<Longrightarrow> vm_reach pt q"

text \<open>The registers, constants, upvalues and functions an instruction names, as \<^verbatim>\<open>luaV_execute\<close> uses them and the table of
  instructions in \<^verbatim>\<open>lopcodes.h\<close> lists them; of a range of registers the last one. \<open>TFORLOOP\<close> copies its three values to
  the registers from \<open>A + 3\<close> to \<open>A + 5\<close> before it calls, whatever \<open>C\<close> is.\<close>

definition rk_reg :: "u32 \<Rightarrow> int list" where "rk_reg x = (if ISK x then [] else [arg x])"
definition rk_const :: "u32 \<Rightarrow> int list" where "rk_const x = (if ISK x then [arg (INDEXK x)] else [])"

definition vm_regs :: "instruction \<Rightarrow> int list" where
  "vm_regs i =
     (let a = arg (GETARG_A i); b = arg (GETARG_B i); c = arg (GETARG_C i); rkb = rk_reg (GETARG_B i); rkc = rk_reg (GETARG_C i);
          arith = a # rkb @ rkc in
      case op_list ! opcode i of
        OP_MOVE \<Rightarrow> [a, b] | OP_LOADNIL \<Rightarrow> [a, b] | OP_UNM \<Rightarrow> [a, b] | OP_NOT \<Rightarrow> [a, b] | OP_LEN \<Rightarrow> [a, b] | OP_TESTSET \<Rightarrow> [a, b]
      | OP_GETTABLE \<Rightarrow> [a, b] @ rkc
      | OP_SELF \<Rightarrow> [a + 1, b] @ rkc
      | OP_SETTABLE \<Rightarrow> arith | OP_ADD \<Rightarrow> arith | OP_SUB \<Rightarrow> arith | OP_MUL \<Rightarrow> arith | OP_DIV \<Rightarrow> arith | OP_MOD \<Rightarrow> arith | OP_POW \<Rightarrow> arith
      | OP_EQ \<Rightarrow> rkb @ rkc | OP_LT \<Rightarrow> rkb @ rkc | OP_LE \<Rightarrow> rkb @ rkc
      | OP_CONCAT \<Rightarrow> [a, b, c]
      | OP_CALL \<Rightarrow> [a] @ (if b = 0 then [] else [a + b - 1]) @ (if c \<le> 1 then [] else [a + c - 2])
      | OP_TAILCALL \<Rightarrow> [a] @ (if b = 0 then [] else [a + b - 1])
      | OP_RETURN \<Rightarrow> [a] @ (if b \<le> 1 then [] else [a + b - 2])
      | OP_FORLOOP \<Rightarrow> [a + 3] | OP_FORPREP \<Rightarrow> [a + 3]
      | OP_TFORLOOP \<Rightarrow> [a + 5, a + 2 + c]
      | OP_SETLIST \<Rightarrow> [a, a + b]
      | OP_VARARG \<Rightarrow> [a] @ (if b \<le> 1 then [] else [a + b - 2])
      | OP_JMP \<Rightarrow> []
      | _ \<Rightarrow> [a])"

definition vm_consts :: "instruction \<Rightarrow> int list" where
  "vm_consts i =
     (let kb = rk_const (GETARG_B i); kc = rk_const (GETARG_C i); kx = [arg (GETARG_Bx i)] in
      case op_list ! opcode i of
        OP_LOADK \<Rightarrow> kx | OP_GETGLOBAL \<Rightarrow> kx | OP_SETGLOBAL \<Rightarrow> kx
      | OP_GETTABLE \<Rightarrow> kc | OP_SELF \<Rightarrow> kc
      | OP_SETTABLE \<Rightarrow> kb @ kc | OP_ADD \<Rightarrow> kb @ kc | OP_SUB \<Rightarrow> kb @ kc | OP_MUL \<Rightarrow> kb @ kc | OP_DIV \<Rightarrow> kb @ kc
      | OP_MOD \<Rightarrow> kb @ kc | OP_POW \<Rightarrow> kb @ kc | OP_EQ \<Rightarrow> kb @ kc | OP_LT \<Rightarrow> kb @ kc | OP_LE \<Rightarrow> kb @ kc
      | _ \<Rightarrow> [])"

text \<open>The operands an instruction by itself names exist. The two upper registers of the call that \<open>TFORLOOP\<close> builds may
  be above the frame of the function, but only in the slots the stack has in reserve.\<close>

definition instr_ok :: "Proto \<Rightarrow> instruction \<Rightarrow> bool" where
  "instr_ok pt i \<longleftrightarrow>
     opcode i < NUM_OPCODES \<and>
     (if op_list ! opcode i = OP_TFORLOOP
      then arg (GETARG_A i) + 2 + arg (GETARG_C i) < int (unat (maxstacksize pt)) \<and>
        (\<forall>r \<in> set (vm_regs i). r < int (unat (maxstacksize pt)) + 2) \<and> 2 < EXTRA_STACK
      else \<forall>r \<in> set (vm_regs i). r < int (unat (maxstacksize pt))) \<and>
     (\<forall>k \<in> set (vm_consts i). k < sizek pt) \<and>
     (op_list ! opcode i \<in> {OP_GETGLOBAL, OP_SETGLOBAL} \<longrightarrow> ttisstring (p_k pt ! unat (GETARG_Bx i))) \<and>
     (op_list ! opcode i \<in> {OP_GETUPVAL, OP_SETUPVAL} \<longrightarrow> arg (GETARG_B i) < int (unat (nups pt))) \<and>
     (op_list ! opcode i = OP_CLOSURE \<longrightarrow> arg (GETARG_Bx i) < sizep pt)"

text \<open>The words behind a \<open>CLOSURE\<close>, one for each upvalue of the new function: each names an upvalue of the running function
  or a register.\<close>

definition captures_ok :: "Proto \<Rightarrow> int \<Rightarrow> bool" where
  "captures_ok pt pc \<longleftrightarrow>
     (\<forall>n < unat (nups (p_p pt ! unat (GETARG_Bx (p_code pt ! nat pc)))).
        let j = p_code pt ! nat (pc + 1 + int n) in
        if opcode j = op_num OP_GETUPVAL then arg (GETARG_B j) < int (unat (nups pt))
        else opcode j = op_num OP_MOVE \<and> arg (GETARG_B j) < int (unat (maxstacksize pt)))"

definition operands_ok :: "Proto \<Rightarrow> int \<Rightarrow> bool" where
  "operands_ok pt pc \<longleftrightarrow> instr_ok pt (p_code pt ! nat pc) \<and>
     (opcode (p_code pt ! nat pc) = op_num OP_CLOSURE \<longrightarrow> captures_ok pt pc)"

section \<open>Starts of instructions\<close>

text \<open>The words of the code that begin an instruction: all but the counts of the \<open>SETLIST\<close>s that keep them in the next word.\<close>

inductive word_next :: "instruction list \<Rightarrow> int \<Rightarrow> int \<Rightarrow> bool" for cs where
  word_next: "0 \<le> p \<Longrightarrow> p < int (length cs) \<Longrightarrow> word_next cs p (if setlist0 (cs ! nat p) then p + 2 else p + 1)"

abbreviation starts_from :: "instruction list \<Rightarrow> int \<Rightarrow> int \<Rightarrow> bool" where "starts_from cs \<equiv> (word_next cs)\<^sup>*\<^sup>*"
abbreviation instr_start :: "instruction list \<Rightarrow> int \<Rightarrow> bool" where "instr_start cs \<equiv> starts_from cs 0"

inductive_simps word_next_iff: "word_next cs p q"

lemma word_next_at:
  "instr_start cs p \<Longrightarrow> 0 \<le> p \<Longrightarrow> p < int (length cs) \<Longrightarrow> setlist0 (cs ! nat p) \<Longrightarrow> instr_start cs (p + 2)"
  "instr_start cs p \<Longrightarrow> 0 \<le> p \<Longrightarrow> p < int (length cs) \<Longrightarrow> \<not> setlist0 (cs ! nat p) \<Longrightarrow> instr_start cs (p + 1)"
  using word_next [of p cs] by (simp_all add: rtranclp.rtrancl_into_rtrancl)

lemma instr_start_ge: "starts_from cs p q \<Longrightarrow> p \<le> q"
  by (induction rule: rtranclp_induct) (auto simp: word_next_iff)

text \<open>A word starts an instruction or is the count of the one before it.\<close>

lemma start_or_count:
  "int q \<le> int (length cs) \<Longrightarrow> instr_start cs (int q) \<or> (0 < q \<and> instr_start cs (int q - 1) \<and> setlist0 (cs ! (q - 1)))"
proof (induction q)
  case (Suc q)
  then have q: "int q < int (length cs)" by simp
  from Suc consider "instr_start cs (int q)" | "0 < q" "instr_start cs (int q - 1)" "setlist0 (cs ! (q - 1))" by force
  then show ?case
  proof cases
    case 1
    then show ?thesis using word_next_at [OF 1] q by (cases "setlist0 (cs ! q)") (auto simp: add.commute)
  next
    case 2
    then show ?thesis using word_next_at(1) [OF 2(2)] q by (simp add: nat_diff_distrib add.commute)
  qed
qed simp

lemma start_after:
  assumes "0 \<le> p" and "p < int (length cs)" and "\<not> setlist0 (cs ! nat p)"
  shows "instr_start cs (p + 1)"
proof -
  obtain q where q: "p = int q" using assms(1) nonneg_int_cases by blast
  from start_or_count [of q cs] assms(2) q consider "instr_start cs p" | "0 < q" "instr_start cs (p - 1)" "setlist0 (cs ! (q - 1))" by force
  then show ?thesis
  proof cases
    case 1
    then show ?thesis using word_next_at(2) assms by blast
  next
    case 2
    then show ?thesis using word_next_at(1) [OF 2(2)] assms(2) q by (simp add: nat_diff_distrib add.commute)
  qed
qed

lemma start_pairs:
  assumes "instr_start cs p" and "0 \<le> p" and "p + 2 * int m \<le> int (length cs)" and "\<And>r. p \<le> r \<Longrightarrow> r < p + 2 * int m \<Longrightarrow> setlist0 (cs ! nat r)"
  shows "instr_start cs (p + 2 * int m)"
  using assms
proof (induction m)
  case (Suc m)
  have "instr_start cs (p + 2 * int m)" using Suc by simp
  then have "instr_start cs (p + 2 * int m + 2)" using Suc(3-5) by (intro word_next_at(1)) simp_all
  then show ?case by (simp add: algebra_simps)
qed simp

text \<open>The test of the checker on a jump target: an even number of words before it that look like such a \<open>SETLIST\<close>.\<close>

lemma jump_target_start:
  assumes "0 \<le> dest" and "dest \<le> int (length cs)" and "setlist_run cs dest 0 = Inr j" and "j mod 2 = 0"
  shows "instr_start cs dest"
proof -
  have j: "0 \<le> j" "j \<le> dest" "\<And>m. 0 \<le> m \<Longrightarrow> m < j \<Longrightarrow> setlist0 (cs ! nat (dest - 1 - m))"
      "j < dest \<Longrightarrow> \<not> setlist0 (cs ! nat (dest - 1 - j))"
    using setlist_run_ok [of 0 dest cs] assms(1-3) by auto
  define m where "m = nat (j div 2)"
  have m: "j = 2 * int m" using assms(4) j(1) by (simp add: m_def) presburger
  have s: "instr_start cs (dest - j)"
  proof (cases "j < dest")
    case True
    then show ?thesis using start_after [of "dest - 1 - j" cs] j(1,4) assms(2) by simp
  qed (use j(2) in simp)
  have "setlist0 (cs ! nat r)" if "dest - j \<le> r" "r < dest - j + 2 * int m" for r
    using j(3) [of "dest - 1 - r"] that m by simp
  then have "instr_start cs (dest - j + 2 * int m)" using s j(2) assms(2) m by (intro start_pairs) simp_all
  then show ?thesis using m by simp
qed

section \<open>What a full check establishes\<close>

lemma symb_step_Some:
  assumes "symb_step pt lastpc reg pc lst = Inr (Some r)"
  obtains p b c lst' where "0 \<le> pc" "pc < sizecode pt" "opcode (p_code pt ! nat pc) = op_num p"
    "checkreg pt (arg (GETARG_A (p_code pt ! nat pc)))" "symb_args pt pc (p_code pt ! nat pc) (op_num p) = Inr (Some (b, c))"
    "symb_test pt pc (op_num p) = Inr (Some ())"
    "symb_op pt lastpc reg pc lst' p (arg (GETARG_A (p_code pt ! nat pc))) b c = Inr (Some r)"
proof -
  have lt: "opcode (p_code pt ! nat pc) < NUM_OPCODES" using assms by (auto simp: symb_step_def Let_def ax_res)
  then obtain p where p: "opcode (p_code pt ! nat pc) = op_num p" by (rule opcode_cases)
  show thesis using assms p that by (auto simp: symb_step_def Let_def ax_res)
qed

lemma symb_op_next:
  "symb_op pt lastpc NO_REG pc lst p a b c = Inr (Some (pc', lst')) \<Longrightarrow> pc' = (if p = OP_SETLIST \<and> c = 0 then pc + 1 else pc)"
  by (cases p) (auto simp: symb_defs Let_def ax_res split: if_splits)

lemma symb_args_C: "symb_args pt pc i (op_num OP_SETLIST) = Inr (Some (b, c)) \<Longrightarrow> c = arg (GETARG_C i)"
  by (auto simp: symb_args_def ax_res)

lemma symb_step_next:
  assumes "symb_step pt lastpc NO_REG pc lst = Inr (Some (pc', lst'))"
  shows "word_next (p_code pt) pc (pc' + 1)"
  using assms
proof (rule symb_step_Some)
  fix p b c l
  assume a: "0 \<le> pc" "pc < sizecode pt" "opcode (p_code pt ! nat pc) = op_num p"
    "symb_args pt pc (p_code pt ! nat pc) (op_num p) = Inr (Some (b, c))"
    "symb_op pt lastpc NO_REG pc l p (arg (GETARG_A (p_code pt ! nat pc))) b c = Inr (Some (pc', lst'))"
  have "p = OP_SETLIST \<and> c = 0 \<longleftrightarrow> setlist0 (p_code pt ! nat pc)"
    using a(3,4) symb_args_C [of pt pc "p_code pt ! nat pc" b c] by (auto simp: setlist0_def unat_eq_0 simp del: of_nat_unat)
  then show ?thesis using symb_op_next [OF a(5)] a(1,2) by (auto simp: word_next_iff)
qed

definition checked_at :: "Proto \<Rightarrow> int \<Rightarrow> bool" where
  "checked_at pt pc \<longleftrightarrow> (\<exists>lst r. symb_step pt (sizecode pt) NO_REG pc lst = Inr (Some r))"

lemma symb_loop_visits:
  assumes "symb_loop pt (sizecode pt) NO_REG pc lst = Inr (Some l)" and "starts_from (p_code pt) pc q" and "q < sizecode pt"
  shows "checked_at pt q"
  using assms
proof (induction pt "sizecode pt" "NO_REG" pc lst rule: symb_loop.induct)
  case (1 pt pc lst)
  have "pc < sizecode pt" using instr_start_ge [OF 1(3)] 1(4) by simp
  with 1(2) obtain pc' lst' where s: "symb_step pt (sizecode pt) NO_REG pc lst = Inr (Some (pc', lst'))"
      and l: "symb_loop pt (sizecode pt) NO_REG (pc' + 1) lst' = Inr (Some l)"
    by (subst (asm) symb_loop.simps) (auto simp: ax_res split: option.splits)
  from 1(3) show ?case
  proof (cases rule: converse_rtranclpE)
    case base
    then show ?thesis using s by (auto simp: checked_at_def)
  next
    case (step p)
    then have "p = pc' + 1" using symb_step_next [OF s] by (auto simp: word_next_iff)
    then show ?thesis using 1(1) [OF \<open>pc < sizecode pt\<close> s refl refl l _ 1(4)] step by simp
  qed
qed

text \<open>Code in which every instruction passed.\<close>

definition all_checked :: "Proto \<Rightarrow> bool" where
  "all_checked pt \<longleftrightarrow> ends_in_return pt \<and> (\<forall>q. instr_start (p_code pt) q \<longrightarrow> q < sizecode pt \<longrightarrow> checked_at pt q)"

lemma checkcode_all:
  assumes "luaG_checkcode pt = Inr True"
  shows "all_checked pt"
proof -
  obtain ok where ok: "precheck pt = Inr ok" "ok \<longrightarrow> ends_in_return pt" using precheck_iff [of pt] by blast
  have "ok" using assms ok(1) by (cases ok) (auto simp: luaG_checkcode_def symbexec_def)
  moreover obtain l where "symb_loop pt (sizecode pt) NO_REG 0 (sizecode pt - 1) = Inr (Some l)"
    using assms ok(1) calculation by (auto simp: luaG_checkcode_def symbexec_def ax_res split: option.splits)
  ultimately show ?thesis using ok(2) symb_loop_visits by (auto simp: all_checked_def)
qed

lemma checkArgMode_simps [simp]:
  "checkArgMode pt r (arg_num OpArgN) \<longleftrightarrow> r = 0"
  "checkArgMode pt r (arg_num OpArgU)"
  "checkArgMode pt r (arg_num OpArgR) \<longleftrightarrow> arg r < int (unat (maxstacksize pt))"
  "checkArgMode pt r (arg_num OpArgK) \<longleftrightarrow> (\<forall>x \<in> set (rk_reg r). x < int (unat (maxstacksize pt))) \<and> (\<forall>x \<in> set (rk_const r). x < sizek pt)"
  by (auto simp: checkArgMode_def checkreg_def rk_reg_def rk_const_def)

lemma checked_operands:
  assumes "checked_at pt pc"
  shows "instr_ok pt (p_code pt ! nat pc)"
proof -
  obtain lst r where "symb_step pt (sizecode pt) NO_REG pc lst = Inr (Some r)" using assms by (auto simp: checked_at_def)
  then show ?thesis
  proof (rule symb_step_Some)
    fix p b c l
    assume "0 \<le> pc" "pc < sizecode pt" "opcode (p_code pt ! nat pc) = op_num p" "checkreg pt (arg (GETARG_A (p_code pt ! nat pc)))"
      "symb_args pt pc (p_code pt ! nat pc) (op_num p) = Inr (Some (b, c))"
      "symb_op pt (sizecode pt) NO_REG pc l p (arg (GETARG_A (p_code pt ! nat pc))) b c = Inr (Some r)"
    moreover have "op_num p < NUM_OPCODES" using op_num_list [of p] by (simp add: num_opcodes)
    ultimately show ?thesis
      by (cases p) (auto simp: instr_ok_def EXTRA_STACK_def vm_regs_def vm_consts_def symb_args_def op_bmode.simps op_cmode.simps symb_defs
        Let_def ax_res checkreg_def LUA_MULTRET_def split: if_splits simp del: of_nat_unat)
  qed
qed

section \<open>Execution stays inside checked code\<close>

text \<open>A position where an instruction may be fetched.\<close>

definition good_pc :: "Proto \<Rightarrow> int \<Rightarrow> bool" where
  "good_pc pt q \<longleftrightarrow> 0 \<le> q \<and> q < sizecode pt \<and> instr_start (p_code pt) q"

text \<open>Every \<open>LOADBOOL\<close> that skips says so with \<open>C = 1\<close>, as the compiler writes it.\<close>

definition loadbool_ok :: "Proto \<Rightarrow> bool" where
  "loadbool_ok pt \<longleftrightarrow> list_all (\<lambda>i. opcode i = op_num OP_LOADBOOL \<longrightarrow> GETARG_C i \<le> 1) (p_code pt)"

lemma checked_cases:
  assumes "checked_at pt pc"
  obtains p b c l r where "0 \<le> pc" "pc < sizecode pt" "opcode (p_code pt ! nat pc) = op_num p"
    "symb_args pt pc (p_code pt ! nat pc) (op_num p) = Inr (Some (b, c))" "symb_test pt pc (op_num p) = Inr (Some ())"
    "symb_op pt (sizecode pt) NO_REG pc l p (arg (GETARG_A (p_code pt ! nat pc))) b c = Inr (Some r)"
  using assms unfolding checked_at_def by (blast elim: symb_step_Some)

lemma checked_jump:
  assumes "checked_at pt pc" and "opcode (p_code pt ! nat pc) = op_num p" and "op_mode p = iAsBx"
  shows "good_pc pt (pc + 1 + GETARG_sBx (p_code pt ! nat pc))"
  using assms(1)
proof (rule checked_cases)
  fix q b c
  assume a: "opcode (p_code pt ! nat pc) = op_num q" "symb_args pt pc (p_code pt ! nat pc) (op_num q) = Inr (Some (b, c))"
  let ?dest = "pc + 1 + GETARG_sBx (p_code pt ! nat pc)"
  have "q = p" using a(1) assms(2) by simp
  then have d: "0 \<le> ?dest" "?dest < sizecode pt"
      "?dest > 0 \<longrightarrow> (\<exists>j. setlist_run (p_code pt) ?dest 0 = Inr j \<and> j mod 2 = 0)"
    using a(2) assms(3) by (cases p; auto simp: symb_args_def op_bmode.simps Let_def ax_res split: if_splits)+
  then show ?thesis using jump_target_start [of ?dest "p_code pt"] by (cases "?dest = 0") (auto simp: good_pc_def)
qed

lemma next_start:
  assumes "ends_in_return pt" and "good_pc pt pc" and "opcode (p_code pt ! nat pc) \<noteq> op_num OP_RETURN" and "\<not> setlist0 (p_code pt ! nat pc)"
  shows "good_pc pt (pc + 1)"
  using before_return [OF assms(1) _ _ assms(3)] word_next_at(2) [OF _ _ _ assms(4)] assms(2) by (auto simp: good_pc_def)

lemma checked_test:
  assumes "all_checked pt" and "good_pc pt pc" and "opcode (p_code pt ! nat pc) = op_num p" and "testTMode (op_num p)"
  shows "pc + 1 < sizecode pt \<and> good_pc pt (pc + 1 + GETARG_sBx (p_code pt ! nat (pc + 1)) + 1) \<and> good_pc pt (pc + 2)"
proof -
  have c: "checked_at pt pc" and e: "ends_in_return pt" using assms(1,2) by (auto simp: all_checked_def good_pc_def)
  from c obtain b where t: "symb_test pt pc (op_num p) = Inr (Some ())"
    by (rule checked_cases) (use assms(3) in simp)
  then have j: "opcode (p_code pt ! nat (pc + 1)) = op_num OP_JMP" "pc + 2 < sizecode pt"
    using assms(4) by (auto simp: symb_test_def ax_res)
  have g: "good_pc pt (pc + 1)"
    using assms(3,4) by (intro next_start [OF e assms(2)]) (auto simp: setlist0_def)
  then have "checked_at pt (pc + 1)" using assms(1) by (auto simp: all_checked_def good_pc_def)
  from checked_jump [OF this j(1)] have "good_pc pt (pc + 1 + 1 + GETARG_sBx (p_code pt ! nat (pc + 1)))" by simp
  moreover have "good_pc pt (pc + 1 + 1)" using j by (intro next_start [OF e g]) (auto simp: setlist0_def)
  ultimately show ?thesis using j(2) by (simp add: algebra_simps)
qed

lemma closure_args_ok:
  "closure_args pt pc j m = Inr (Some ()) \<Longrightarrow> n < m \<Longrightarrow>
     0 \<le> pc + j + int n \<and> pc + j + int n < sizecode pt \<and> opcode (p_code pt ! nat (pc + j + int n)) \<in> {op_num OP_GETUPVAL, op_num OP_MOVE}"
proof (induction pt pc j m arbitrary: n rule: closure_args.induct)
  case (2 pt pc j m)
  show ?case
  proof (cases n)
    case 0
    then show ?thesis using 2(2) by (auto simp: ax_res)
  next
    case (Suc n')
    then show ?thesis using 2(1) [of "p_code pt ! nat (pc + j)" n'] 2(2,3) by (auto simp: ax_res algebra_simps)
  qed
qed simp

lemma read_words_ok: "0 \<le> pc \<Longrightarrow> pc + int m \<le> int (length cs) \<Longrightarrow> read_words cs pc m = Inr ()"
  by (induction cs pc m rule: read_words.induct) (auto simp: rd_def)

lemma closure_starts:
  assumes "ends_in_return pt" and "good_pc pt pc" and "opcode (p_code pt ! nat pc) = op_num OP_CLOSURE" and "closure_args pt pc 1 m = Inr (Some ())" and "n \<le> m"
  shows "good_pc pt (pc + 1 + int n)"
  using assms(5)
proof (induction n)
  case 0
  then show ?case using assms(3) by (auto intro!: next_start [OF assms(1,2)] simp: setlist0_def)
next
  case (Suc n)
  then have "good_pc pt (pc + 1 + int n)" by simp
  moreover have "opcode (p_code pt ! nat (pc + 1 + int n)) \<in> {op_num OP_GETUPVAL, op_num OP_MOVE}"
    using closure_args_ok [OF assms(4)] Suc(2) by simp
  ultimately have "good_pc pt (pc + 1 + int n + 1)" by (intro next_start [OF assms(1)]) (auto simp: setlist0_def)
  then show ?case by (simp add: algebra_simps)
qed

lemma checked_captures:
  assumes "all_checked pt" and "good_pc pt pc" and "opcode (p_code pt ! nat pc) = op_num OP_CLOSURE"
  shows "captures_ok pt pc"
proof -
  define i where "i = p_code pt ! nat pc"
  have c: "checked_at pt pc" and e: "ends_in_return pt" using assms(1,2) by (auto simp: all_checked_def good_pc_def)
  obtain b d l res where a: "symb_args pt pc i (op_num OP_CLOSURE) = Inr (Some (b, d))"
      "symb_op pt (sizecode pt) NO_REG pc l OP_CLOSURE (arg (GETARG_A i)) b d = Inr (Some res)"
    using c by (rule checked_cases) (use assms(3) in \<open>auto simp: i_def\<close>)
  have b: "b = arg (GETARG_Bx i)" using a(1) by (auto simp: symb_args_def ax_res)
  obtain f where f: "rd (p_p pt) b = Inr f" "closure_args pt pc 1 (unat (nups f)) = Inr (Some ())"
    using a(2) by (auto simp: symb_op_def symb_closure_def Let_def ax_res)
  have pf: "p_p pt ! unat (GETARG_Bx i) = f" using f(1) by (auto simp: b rd_def split: if_splits)
  show ?thesis unfolding captures_ok_def i_def [symmetric] pf Let_def
  proof (intro allI impI)
    fix n assume n: "n < unat (nups f)"
    let ?q = "pc + 1 + int n" and ?j = "p_code pt ! nat (pc + 1 + int n)"
    have "good_pc pt ?q" using closure_starts [OF e assms(2,3) f(2)] n by simp
    then have "instr_ok pt ?j" using assms(1) checked_operands by (auto simp: all_checked_def good_pc_def)
    moreover have "opcode ?j \<in> {op_num OP_GETUPVAL, op_num OP_MOVE}" using closure_args_ok [OF f(2) n] by simp
    ultimately show "if opcode ?j = op_num OP_GETUPVAL then arg (GETARG_B ?j) < int (unat (nups pt))
        else opcode ?j = op_num OP_MOVE \<and> arg (GETARG_B ?j) < int (unat (maxstacksize pt))"
      by (auto simp: instr_ok_def vm_regs_def Let_def simp del: of_nat_unat)
  qed
qed

lemma vm_next_good:
  assumes "all_checked pt" and "loadbool_ok pt" and "good_pc pt pc"
  shows "\<exists>ss. vm_next pt pc = Inr ss \<and> (\<forall>q \<in> set ss. good_pc pt q)"
proof -
  define i where "i = p_code pt ! nat pc"
  have c: "checked_at pt pc" and e: "ends_in_return pt" using assms(1,3) by (auto simp: all_checked_def good_pc_def)
  have r: "rd (p_code pt) pc = Inr i" using assms(3) by (simp add: rd_def good_pc_def i_def)
  from c show ?thesis
  proof (rule checked_cases)
    fix p b d l res
    assume a: "opcode (p_code pt ! nat pc) = op_num p" "symb_args pt pc (p_code pt ! nat pc) (op_num p) = Inr (Some (b, d))"
      "symb_op pt (sizecode pt) NO_REG pc l p (arg (GETARG_A (p_code pt ! nat pc))) b d = Inr (Some res)"
    have plain: "good_pc pt (pc + 1)" if "p \<noteq> OP_RETURN" "\<not> setlist0 i"
      using next_start [OF e assms(3)] a(1) that by (simp add: i_def)
    have jump: "op_mode p = iAsBx \<Longrightarrow> good_pc pt (pc + 1 + GETARG_sBx i)" using checked_jump [OF c a(1)] by (simp add: i_def)
    have test: ?thesis if "p \<in> {OP_EQ, OP_LT, OP_LE, OP_TEST, OP_TESTSET, OP_TFORLOOP}"
    proof -
      have "rd (p_code pt) (pc + 1) = Inr (p_code pt ! nat (pc + 1))"
        using checked_test [OF assms(1,3) a(1)] that assms(3) by (simp add: rd_def good_pc_def)
      then show ?thesis using checked_test [OF assms(1,3) a(1)] that by (auto simp: vm_next_def r i_def a(1) Let_def)
    qed
    have bool: ?thesis if p: "p = OP_LOADBOOL"
    proof -
      have "i \<in> set (p_code pt)" using assms(3) by (auto simp: i_def good_pc_def)
      then have "GETARG_C i \<le> 1" using assms(2) a(1) p by (auto simp: loadbool_ok_def list_all_iff i_def)
      then have "unat (GETARG_C i) \<le> 1" by (simp add: word_le_nat_alt)
      then consider "GETARG_C i = 0" | "unat (GETARG_C i) = 1" "GETARG_C i \<noteq> 0" by (cases "GETARG_C i = 0") (auto simp: unat_eq_0 [symmetric])
      moreover have "good_pc pt (pc + 1)" using plain a(1) p by (simp add: setlist0_def i_def)
      moreover have "good_pc pt (pc + 2)" if "unat (GETARG_C i) = 1"
      proof -
        have "d = 1" using a(2) p that by (auto simp: symb_args_def ax_res i_def simp del: of_nat_unat)
        then have "pc + 2 < sizecode pt" "\<not> setlist0 (p_code pt ! nat (pc + 1))" using a(3) p by (auto simp: symb_op_def ax_res)
        then show ?thesis using word_next_at(2) [of "p_code pt" "pc + 1"] \<open>good_pc pt (pc + 1)\<close> by (simp add: good_pc_def add.commute)
      qed
      ultimately show ?thesis using a(1) p by cases (auto simp: vm_next_def r i_def)
    qed
    have setl: ?thesis if p: "p = OP_SETLIST"
    proof (cases "GETARG_C i = 0")
      case True
      then have "d = 0" using a(2) p by (auto simp: symb_args_def ax_res i_def)
      then have "pc + 1 < sizecode pt - 1" using a(3) p by (auto simp: symb_op_def ax_res)
      moreover from this have "good_pc pt (pc + 2)"
        using word_next_at(1) [of "p_code pt" pc] True a(1) p assms(3) by (simp add: good_pc_def setlist0_def i_def)
      ultimately show ?thesis using True a(1) p assms(3) by (auto simp: vm_next_def r i_def rd_def good_pc_def)
    next
      case False
      then have "good_pc pt (pc + 1)" using plain p by (simp add: setlist0_def)
      then show ?thesis using False a(1) p by (auto simp: vm_next_def r i_def)
    qed
    have clos: ?thesis if p: "p = OP_CLOSURE"
    proof -
      have b: "b = arg (GETARG_Bx i)" using a(2) p by (auto simp: symb_args_def ax_res i_def)
      obtain f where f: "rd (p_p pt) b = Inr f" "pc + int (unat (nups f)) < sizecode pt" "closure_args pt pc 1 (unat (nups f)) = Inr (Some ())"
        using a(3) p by (auto simp: symb_op_def symb_closure_def Let_def ax_res)
      have "read_words (p_code pt) (pc + 1) (unat (nups f)) = Inr ()" using f(2) assms(3) by (intro read_words_ok) (simp_all add: good_pc_def)
      moreover have "good_pc pt (pc + 1 + int (unat (nups f)))" using closure_starts [OF e assms(3) _ f(3)] a(1) p by (simp del: of_nat_unat)
      ultimately show ?thesis using f(1) a(1) p by (auto simp: vm_next_def r i_def b simp del: of_nat_unat)
    qed
    show ?thesis
      using test bool setl clos plain jump a(1)
      by (cases p) (auto simp: vm_next_def r i_def setlist0_def)
  qed
qed

section \<open>What the check depends on\<close>

text \<open>Two prototypes the checker treats alike: they may differ in their source, their debug information and the bodies of
  their nested functions.\<close>

definition same_code :: "Proto \<Rightarrow> Proto \<Rightarrow> bool" where
  "same_code f g \<longleftrightarrow> p_code g = p_code f \<and> p_k g = p_k f \<and> maxstacksize g = maxstacksize f \<and> numparams g = numparams f \<and>
     is_vararg g = is_vararg f \<and> nups g = nups f \<and> map nups (p_p g) = map nups (p_p f)"

lemma closure_args_same: "p_code g = p_code f \<Longrightarrow> closure_args g pc j m = closure_args f pc j m"
  by (induction m arbitrary: j) simp_all

lemma symb_closure_same:
  assumes "same_code f g"
  shows "symb_closure g reg pc lst b = symb_closure f reg pc lst b"
proof -
  have l: "length (p_p g) = length (p_p f)" using assms unfolding same_code_def by (metis length_map)
  have c: "p_code g = p_code f" using assms by (simp add: same_code_def)
  show ?thesis
  proof (cases "0 \<le> b \<and> b < sizep f")
    case True
    then have n: "nat b < length (p_p f)" by linarith
    have "map nups (p_p g) ! nat b = map nups (p_p f) ! nat b" using assms by (simp add: same_code_def)
    then have "nups (p_p g ! nat b) = nups (p_p f ! nat b)" using n l by simp
    then show ?thesis using True l c by (simp add: symb_closure_def check_def rd_def closure_args_same [OF c] Let_def)
  next
    case False
    then show ?thesis using l by (auto simp: symb_closure_def check_def rd_def)
  qed
qed

lemma checks_same:
  assumes "same_code f g"
  shows "checkreg g = checkreg f" "checkArgMode g = checkArgMode f" "symb_args g = symb_args f" "symb_test g = symb_test f"
    "checkopenop g pc k = checkopenop f pc k" "symb_call g = symb_call f"
proof -
  have e: "p_code g = p_code f" "p_k g = p_k f" "maxstacksize g = maxstacksize f" using assms by (simp_all add: same_code_def)
  show r: "checkreg g = checkreg f" by (rule ext) (simp add: checkreg_def e)
  show m: "checkArgMode g = checkArgMode f" by (intro ext) (simp add: checkArgMode_def e r)
  show "symb_args g = symb_args f" by (intro ext) (simp add: symb_args_def Let_def e m)
  show "symb_test g = symb_test f" by (intro ext) (simp add: symb_test_def e)
  show o: "checkopenop g pc k = checkopenop f pc k" for pc and k :: "unit \<Rightarrow> 'a option res" by (simp add: checkopenop_def e)
  show "symb_call g = symb_call f" by (intro ext) (simp add: symb_call_def checkopenop_def Let_def e r)
qed

lemma symb_op_same:
  assumes "same_code f g"
  shows "symb_op g lastpc reg pc lst p a b c = symb_op f lastpc reg pc lst p a b c"
proof -
  have e: "p_code g = p_code f" "p_k g = p_k f" "is_vararg g = is_vararg f" "nups g = nups f" using assms by (simp_all add: same_code_def)
  show ?thesis by (cases p) (simp_all add: symb_op_def Let_def e checks_same [OF assms] symb_closure_same [OF assms])
qed

lemma symb_step_same: "same_code f g \<Longrightarrow> symb_step g lastpc reg pc lst = symb_step f lastpc reg pc lst"
  by (simp add: symb_step_def Let_def checks_same symb_op_same) (simp add: same_code_def)

lemma symb_loop_same: "same_code f g \<Longrightarrow> symb_loop g lastpc reg pc lst = symb_loop f lastpc reg pc lst"
proof (induction f lastpc reg pc lst rule: symb_loop.induct)
  case (1 f lastpc reg pc lst)
  show ?case
    using 1 by (subst (1 2) symb_loop.simps) (auto simp: symb_step_same intro!: rbind_cong split: option.splits prod.splits)
qed

lemma checkcode_same:
  assumes "luaG_checkcode f = Inr True" and "same_code f g" and "lineinfo g = lineinfo f \<or> lineinfo g = []" and "upvalues g = upvalues f \<or> upvalues g = []"
  shows "luaG_checkcode g = Inr True"
proof -
  have pf: "precheck f = Inr True"
    using assms(1) precheck_iff [of f] by (cases "precheck f = Inr False") (auto simp: luaG_checkcode_def symbexec_def)
  then have "precheck g = Inr True"
    using assms(2-4) by (auto simp: precheck_def same_code_def split: if_splits)
  then show ?thesis
    using assms(1,2) pf by (simp add: luaG_checkcode_def symbexec_def symb_loop_same) (simp add: same_code_def)
qed

lemma symbexec_defined:
  assumes le: "lastpc \<le> sizecode pt"
  shows "\<exists>i. symbexec pt lastpc reg = Inr i"
proof -
  obtain ok where ok: "precheck pt = Inr ok" "ok \<longrightarrow> ends_in_return pt" using precheck_iff [of pt] by blast
  show ?thesis
  proof (cases ok)
    case True
    then have e: "ends_in_return pt" using ok(2) by simp
    then have "0 < sizecode pt" by (simp add: ends_in_return_def)
    then obtain r where "symb_loop pt lastpc reg 0 (sizecode pt - 1) = Inr r" "\<forall>l. r = Some l \<longrightarrow> 0 \<le> l \<and> l < sizecode pt"
      using symb_loop_defined [OF e _ le, of 0 "sizecode pt - 1" reg] by auto
    then show ?thesis using ok(1) True by (cases r) (auto simp: symbexec_def rd_def)
  qed (simp add: symbexec_def ok(1))
qed

lemma checkcode_defined: "\<exists>ok. luaG_checkcode pt = Inr ok"
  using symbexec_defined [of "sizecode pt" pt NO_REG] by (auto simp: luaG_checkcode_def)

lemma checked_contained:
  assumes "luaG_checkcode pt = Inr True" and "loadbool_ok pt" and "vm_reach pt pc"
  shows "good_pc pt pc \<and> (\<exists>ss. vm_next pt pc = Inr ss) \<and> operands_ok pt pc"
proof -
  have all: "all_checked pt" using checkcode_all [OF assms(1)] .
  have good: "good_pc pt pc" using assms(3,2) all
  proof (induction rule: vm_reach.induct)
    case (entry pt)
    then show ?case by (auto simp: good_pc_def all_checked_def ends_in_return_def)
  next
    case (step pt pc ss q)
    then show ?case using vm_next_good [of pt pc] by auto
  qed
  moreover have "\<exists>ss. vm_next pt pc = Inr ss" using vm_next_good [OF all assms(2) good] by blast
  moreover have "instr_ok pt (p_code pt ! nat pc)" using good all checked_operands by (auto simp: good_pc_def all_checked_def)
  ultimately show ?thesis using checked_captures [OF all good] by (auto simp: operands_ok_def)
qed

section \<open>Examples\<close>

text \<open>Two small functions: \<open>LOADBOOL 0 1 1; JMP -2; RETURN 0 1\<close>, in which a \<open>LOADBOOL\<close> skips a jump back, and
  \<open>LOADBOOL 0 1 2; RETURN 0 1\<close>, in which it skips the return.\<close>

definition loop_proto :: Proto where
  "loop_proto = Proto None 0 0 0 0 2 2 [0x804002, 0x7FFF4016, 0x80001E] [] [] [] [] []"

definition skip_proto :: Proto where
  "skip_proto = Proto None 0 0 0 0 2 2 [0x808002, 0x80001E] [] [] [] [] []"

text \<open>And \<open>TFORLOOP 0 1; JMP 0; RETURN 0 1\<close> with four registers.\<close>

definition tfor_proto :: Proto where
  "tfor_proto = Proto None 0 0 0 0 2 4 [0x4021, 0x7FFFC016, 0x80001E] [] [] [] [] []"

lemma example_ops: "op_num OP_TFORLOOP = 33" "op_num OP_LOADBOOL = 2" "op_num OP_JMP = 22" "op_num OP_RETURN = 30" "op_num OP_SETLIST = 34"
  by (simp_all add: op_num_def op_list_def)

lemma example_fields:
  "GET_OPCODE 0x804002 = 2" "GETARG_A 0x804002 = 0" "GETARG_B 0x804002 = 1" "GETARG_C 0x804002 = 1"
  "GET_OPCODE 0x808002 = 2" "GETARG_A 0x808002 = 0" "GETARG_B 0x808002 = 1" "GETARG_C 0x808002 = 2"
  "GET_OPCODE 0x7FFF4016 = 22" "GETARG_A 0x7FFF4016 = 0" "GETARG_sBx 0x7FFF4016 = - 2"
  "GET_OPCODE 0x80001E = 30" "GETARG_A 0x80001E = 0" "GETARG_B 0x80001E = 1" "GETARG_C 0x80001E = 0"
  "GET_OPCODE 0x4021 = 33" "GETARG_A 0x4021 = 0" "GETARG_B 0x4021 = 0" "GETARG_C 0x4021 = 1"
  "GET_OPCODE 0x7FFFC016 = 22" "GETARG_A 0x7FFFC016 = 0" "GETARG_sBx 0x7FFFC016 = 0"
  by code_simp+

lemma example_opcodes:
  "opcode 0x804002 = op_num OP_LOADBOOL" "opcode 0x808002 = op_num OP_LOADBOOL" "opcode 0x7FFF4016 = op_num OP_JMP"
  "opcode 0x80001E = op_num OP_RETURN" "opcode 0x4021 = op_num OP_TFORLOOP" "opcode 0x7FFFC016 = op_num OP_JMP"
  by (simp_all add: example_ops example_fields)

lemma example_precheck: "precheck loop_proto = Inr True" "precheck skip_proto = Inr True" "precheck tfor_proto = Inr True"
  by (simp_all add: precheck_def loop_proto_def skip_proto_def tfor_proto_def MAXSTACK_def VARARG_HASARG_def VARARG_NEEDSARG_def rd_def example_opcodes
    nth_Cons')

lemma op_num_below: "op_num p < NUM_OPCODES"
  using op_num_list [of p] by (simp add: num_opcodes)

lemma no_reg: "NO_REG = 255"
  by (simp add: NO_REG_def MAXARG_A_def field_sizes)

lemmas example_eval = symb_step_def Let_def symb_args_def symb_test_def symb_op_def symb_jump_def check_def cbind_def checkreg_def rd_def
  example_opcodes op_num_below no_reg nth_Cons' op_bmode.simps op_cmode.simps setlist0_def example_fields(2-4,6-8,10,11,13-15,17-19,21,22) setlist_run.simps

lemma example_steps:
  "symb_step loop_proto 3 NO_REG 0 2 = Inr (Some (0, 2))"
  "symb_step loop_proto 3 NO_REG 1 2 = Inr (Some (1, 2))"
  "symb_step loop_proto 3 NO_REG 2 2 = Inr (Some (2, 2))"
  "symb_step skip_proto 2 NO_REG 0 1 = Inr (Some (0, 1))"
  "symb_step skip_proto 2 NO_REG 1 1 = Inr (Some (1, 1))"
  "symb_step tfor_proto 3 NO_REG 0 2 = Inr (Some (0, 0))"
  "symb_step tfor_proto 3 NO_REG 1 0 = Inr (Some (1, 0))"
  "symb_step tfor_proto 3 NO_REG 2 0 = Inr (Some (2, 0))"
  by (simp_all add: loop_proto_def skip_proto_def tfor_proto_def example_eval)

lemma example_checked: "luaG_checkcode loop_proto = Inr True" "luaG_checkcode skip_proto = Inr True" "luaG_checkcode tfor_proto = Inr True"
proof -
  have "symb_loop loop_proto 3 NO_REG 0 2 = Inr (Some 2)"
    by (subst symb_loop.simps, simp add: example_steps)+
  then show "luaG_checkcode loop_proto = Inr True"
    by (simp add: luaG_checkcode_def symbexec_def example_precheck) (simp add: loop_proto_def rd_def)
  have "symb_loop skip_proto 2 NO_REG 0 1 = Inr (Some 1)"
    by (subst symb_loop.simps, simp add: example_steps)+
  then show "luaG_checkcode skip_proto = Inr True"
    by (simp add: luaG_checkcode_def symbexec_def example_precheck) (simp add: skip_proto_def rd_def)
  have "symb_loop tfor_proto 3 NO_REG 0 2 = Inr (Some 0)"
    by (subst symb_loop.simps, simp add: example_steps)+
  then show "luaG_checkcode tfor_proto = Inr True"
    by (simp add: luaG_checkcode_def symbexec_def example_precheck) (simp add: tfor_proto_def rd_def)
qed

section \<open>Properties\<close>

text \<open>C14: Execution of accepted code never leaves it. When \<^verbatim>\<open>luaG_checkcode\<close> accepts a prototype in which no \<open>LOADBOOL\<close> has
  \<open>C > 1\<close>, then at every position the interpreter can reach from the entry there is a word of the code that begins an
  instruction, in particular not the count of a \<open>SETLIST\<close>, every further word the instruction reads is inside the code,
  and the constants, upvalues, functions and registers it names exist, also those that the words behind a \<open>CLOSURE\<close> name. The
  registers are inside the frame of the function, except that \<open>TFORLOOP\<close> may use up to two slots above it, where the stack
  has \<^verbatim>\<open>EXTRA_STACK\<close> slots in reserve.\<close>

theorem checked_code_contained:
  assumes "luaG_checkcode pt = Inr True" and "loadbool_ok pt" and "vm_reach pt pc"
  shows "0 \<le> pc \<and> pc < sizecode pt \<and> instr_start (p_code pt) pc \<and> (\<exists>ss. vm_next pt pc = Inr ss) \<and> operands_ok pt pc"
  using checked_contained [OF assms] by (simp add: good_pc_def)

theorem checked_code_contained_witness:
  "luaG_checkcode loop_proto = Inr True \<and> loadbool_ok loop_proto \<and> vm_reach loop_proto 2 \<and> instr_start (p_code loop_proto) 2 \<and>
   operands_ok loop_proto 2 \<and> vm_reach tfor_proto 0 \<and> operands_ok tfor_proto 0"
proof -
  have ok: "loadbool_ok loop_proto" "loadbool_ok tfor_proto"
    by (simp_all add: loadbool_ok_def loop_proto_def tfor_proto_def example_ops example_fields)
  have "vm_next loop_proto 0 = Inr [2]" by (simp add: vm_next_def loop_proto_def rd_def example_opcodes example_fields(4) Let_def)
  then have "vm_reach loop_proto 2" using vm_reach.step [OF vm_reach.entry, of loop_proto "[2]" 2] by simp
  then show ?thesis
    using checked_code_contained [OF example_checked(1) ok(1), of 2] checked_code_contained [OF example_checked(3) ok(2) vm_reach.entry]
      example_checked(1) ok(1) vm_reach.entry by auto
qed

text \<open>The checker lets \<open>TFORLOOP\<close> write above the frame: for \<open>TFORLOOP 0 1\<close> in a function with four registers it only asks for
  register 3, while the interpreter writes the registers 4 and 5, which the function has not.\<close>

lemma checker_misses_tforloop:
  "luaG_checkcode tfor_proto = Inr True \<and> maxstacksize tfor_proto = 4 \<and> 5 \<in> set (vm_regs (p_code tfor_proto ! 0))"
  using example_checked(3) by (simp add: tfor_proto_def vm_regs_def example_opcodes example_fields(17-19) Let_def)

text \<open>The checker accepts code that runs off its end. It tests the skip of a \<open>LOADBOOL\<close> only when \<open>C\<close> is 1, while the
  interpreter skips whenever \<open>C\<close> is not 0: \<open>LOADBOOL 0 1 2; RETURN 0 1\<close> passes the full check, and the interpreter then
  fetches the word after the last one.\<close>

lemma checker_misses_skip:
  "luaG_checkcode skip_proto = Inr True \<and> vm_reach skip_proto 2 \<and> sizecode skip_proto = 2 \<and> vm_next skip_proto 2 = Inl Mem_error"
proof -
  have "vm_next skip_proto 0 = Inr [2]" by (simp add: vm_next_def skip_proto_def rd_def example_opcodes example_fields(8) Let_def)
  then have "vm_reach skip_proto 2" using vm_reach.step [OF vm_reach.entry, of skip_proto "[2]" 2] by simp
  moreover have "vm_next skip_proto 2 = Inl Mem_error" by (simp add: vm_next_def skip_proto_def rd_def)
  ultimately show ?thesis using example_checked(2) by (simp add: skip_proto_def)
qed

lemma setarg_fields [simp]:
  "GET_OPCODE (SETARG_B i x) = GET_OPCODE i" "GETARG_A (SETARG_B i x) = GETARG_A i" "GETARG_C (SETARG_B i x) = GETARG_C i"
  "GET_OPCODE (SETARG_C i x) = GET_OPCODE i" "GETARG_A (SETARG_C i x) = GETARG_A i" "GETARG_B (SETARG_C i x) = GETARG_B i"
  by (simp_all add: accessor_fields field_sizes get_set_other)

text \<open>C40: The property table says what the interpreter does. For an instruction \<open>i\<close> with opcode \<open>p\<close>: an argument the table calls a
  register is one the interpreter uses (but for \<open>TEST\<close>, whose \<open>B\<close> it ignores), one called a register or constant is used as
  the one or the other, one called unused can be changed without an effect on the operands, and constants are
  only used where the table says so; an instruction that sets a register uses one from \<open>A\<close> on. And for the way execution goes on: the
  opcodes marked as tests are those that continue with the jump in the next word or behind it, those in the signed
  format jump by their argument, and the others of the three-argument format go to the next word (\<open>LOADBOOL\<close>, \<open>SETLIST\<close>
  and \<open>RETURN\<close> apart).\<close>

theorem opcode_table_agrees:
  assumes "opcode i = op_num p" and "0 \<le> pc" and "pc < sizecode pt" and "p_code pt ! nat pc = i"
  shows "(getOpMode (opcode i) = mode_num iABC \<longrightarrow>
      (getBMode (opcode i) = arg_num OpArgR \<and> p \<noteq> OP_TEST \<longrightarrow> arg (GETARG_B i) \<in> set (vm_regs i)) \<and>
      (getCMode (opcode i) = arg_num OpArgR \<longrightarrow> arg (GETARG_C i) \<in> set (vm_regs i)) \<and>
      (getBMode (opcode i) = arg_num OpArgK \<longrightarrow> set (rk_reg (GETARG_B i)) \<subseteq> set (vm_regs i) \<and> set (rk_const (GETARG_B i)) \<subseteq> set (vm_consts i)) \<and>
      (getCMode (opcode i) = arg_num OpArgK \<longrightarrow> set (rk_reg (GETARG_C i)) \<subseteq> set (vm_regs i) \<and> set (rk_const (GETARG_C i)) \<subseteq> set (vm_consts i)) \<and>
      (getBMode (opcode i) = arg_num OpArgN \<longrightarrow> (\<forall>x. vm_regs (SETARG_B i x) = vm_regs i \<and> vm_consts (SETARG_B i x) = vm_consts i)) \<and>
      (getCMode (opcode i) = arg_num OpArgN \<longrightarrow> (\<forall>x. vm_regs (SETARG_C i x) = vm_regs i \<and> vm_consts (SETARG_C i x) = vm_consts i)) \<and>
      (\<not> testTMode (opcode i) \<and> p \<notin> {OP_LOADBOOL, OP_RETURN, OP_SETLIST} \<longrightarrow> vm_next pt pc = Inr [pc + 1])) \<and>
    (getOpMode (opcode i) = mode_num iABx \<and> getBMode (opcode i) = arg_num OpArgK \<longrightarrow> vm_consts i = [arg (GETARG_Bx i)]) \<and>
    (vm_consts i \<noteq> [] \<longrightarrow> arg_num OpArgK \<in> {getBMode (opcode i), getCMode (opcode i)}) \<and>
    (testAMode (opcode i) \<longrightarrow> (\<exists>r \<in> set (vm_regs i). arg (GETARG_A i) \<le> r)) \<and>
    (testTMode (opcode i) \<longrightarrow> vm_next pt pc = rbind (rd (p_code pt) (pc + 1)) (\<lambda>d. Inr [pc + 1 + GETARG_sBx d + 1, pc + 2])) \<and>
    (getOpMode (opcode i) = mode_num iAsBx \<longrightarrow> (\<exists>ss. vm_next pt pc = Inr ss \<and> pc + 1 + GETARG_sBx i \<in> set ss))"
proof -
  have r: "rd (p_code pt) pc = Inr i" using assms(2-4) by (simp add: rd_def)
  have a: "testAMode (op_num p) \<Longrightarrow> p \<notin> {OP_EQ, OP_LT, OP_LE, OP_JMP}"
    by (cases p; simp add: testAMode_def luaP_opmodes_eq op_num_def op_list_def)
  show ?thesis unfolding assms(1) get_modes arg_num_inj mode_num_inj test_mode
    using a assms(1) r by (cases p; auto simp: vm_regs_def vm_consts_def vm_next_def Let_def op_bmode.simps op_cmode.simps)
qed

text \<open>For instance \<open>JMP 0\<close>, and \<open>TFORLOOP 0 1\<close> before it.\<close>

theorem opcode_table_agrees_witness:
  "vm_regs (SETARG_B 0x4021 7) = vm_regs 0x4021 \<and> (\<exists>ss. vm_next tfor_proto 1 = Inr ss \<and> 2 \<in> set ss) \<and>
   vm_next tfor_proto 0 = Inr [2, 2]"
proof -
  have z: "opcode 0x4021 = op_num OP_TFORLOOP" "opcode 0x7FFFC016 = op_num OP_JMP" by (rule example_opcodes)+
  have c: "sizecode tfor_proto = 3" "p_code tfor_proto ! nat 0 = 0x4021" "p_code tfor_proto ! nat 1 = 0x7FFFC016" by (simp_all add: tfor_proto_def)
  have t: "getOpMode (opcode 0x4021) = mode_num iABC" "getBMode (opcode 0x4021) = arg_num OpArgN" "testTMode (opcode 0x4021)"
      "getOpMode (opcode 0x7FFFC016) = mode_num iAsBx"
    by (simp_all only: z get_modes op_mode.simps test_mode) (simp_all add: op_bmode.simps)
  have d: "rd (p_code tfor_proto) (0 + 1) = Inr 0x7FFFC016" by (simp add: rd_def tfor_proto_def)
  note t0 = opcode_table_agrees [OF z(1) _ _ c(2), simplified c(1)] and t1 = opcode_table_agrees [OF z(2) _ _ c(3), simplified c(1)]
  have "vm_regs (SETARG_B 0x4021 7) = vm_regs 0x4021" using t0 t(1,2) by simp
  moreover have "vm_next tfor_proto 0 = Inr [2, 2]" using t0 t(3) d example_fields(22) by simp
  moreover have "\<exists>ss. vm_next tfor_proto 1 = Inr ss \<and> 2 \<in> set ss" using t1 t(4) example_fields(22) by simp
  ultimately show ?thesis by blast
qed

end
