(* ===== verification/Lua_Zio.thy ===== *)
theory Lua_Zio
  imports Ax_Prelude
begin

text \<open>
  The buffered input stream of Lua: \<^verbatim>\<open>lzio.h\<close> and \<^verbatim>\<open>lzio.c\<close>. A stream owns the block the reader returned last, the position of the
  next byte in it and the number of bytes still unread. The reader is code of the host program: a function from its data to
  a block (\<open>None\<close> is the null pointer) and its next data. The number of unread bytes is a \<^verbatim>\<open>size_t\<close>; it wraps where the code
  decrements it at zero.
\<close>

section \<open>Streams\<close>

type_synonym 'r reader = "'r \<Rightarrow> u8 list option \<times> 'r"

record 'r ZIO =
  zn :: nat
  zbuf :: "u8 list"
  zp :: nat
  zdata :: 'r

definition EOZ :: int where "EOZ = - 1"

definition char2int :: "u8 \<Rightarrow> int" where
  "char2int c = int (unat c)"

text \<open>The byte at a position of the block.\<close>

definition z_at :: "'r ZIO \<Rightarrow> u8 res" where
  "z_at z = (if zp z < length (zbuf z) then Inr (zbuf z ! zp z) else Inl Mem_error)"

definition luaZ_fill :: "'r reader \<Rightarrow> 'r ZIO \<Rightarrow> (int \<times> 'r ZIO) res" where
  "luaZ_fill rdr z =
     (case rdr (zdata z) of
        (None, d) \<Rightarrow> Inr (EOZ, z\<lparr>zdata := d\<rparr>)
      | (Some buff, d) \<Rightarrow>
          let z = z\<lparr>zdata := d\<rparr> in
          if length buff = 0 then Inr (EOZ, z)
          else let z = z\<lparr>zn := length buff - 1, zbuf := buff, zp := 0\<rparr> in
               rbind (z_at z) (\<lambda>c. Inr (char2int c, z\<lparr>zp := zp z + 1\<rparr>)))"

definition luaZ_lookahead :: "'r reader \<Rightarrow> 'r ZIO \<Rightarrow> (int \<times> 'r ZIO) res" where
  "luaZ_lookahead rdr z =
     (if zn z = 0 then
        rbind (luaZ_fill rdr z) (\<lambda>(c, z).
          if c = EOZ then Inr (EOZ, z)
          else let z = z\<lparr>zn := zn z + 1, zp := zp z - 1\<rparr> in
               rbind (z_at z) (\<lambda>c. Inr (char2int c, z)))
      else rbind (z_at z) (\<lambda>c. Inr (char2int c, z)))"

definition zgetc :: "'r reader \<Rightarrow> 'r ZIO \<Rightarrow> (int \<times> 'r ZIO) res" where
  "zgetc rdr z =
     (if zn z > 0 then rbind (z_at z) (\<lambda>c. Inr (char2int c, z\<lparr>zn := zn z - 1, zp := zp z + 1\<rparr>))
      else luaZ_fill rdr (z\<lparr>zn := 2 ^ 64 - 1\<rparr>))"

definition luaZ_init :: "'r \<Rightarrow> 'r ZIO" where
  "luaZ_init data = \<lparr>zn = 0, zbuf = [], zp = 0, zdata = data\<rparr>"

text \<open>\<^verbatim>\<open>memcpy\<close> from the block.\<close>

definition z_copy :: "'r ZIO \<Rightarrow> nat \<Rightarrow> u8 list res" where
  "z_copy z m = (if zp z + m \<le> length (zbuf z) then Inr (take m (drop (zp z) (zbuf z))) else Inl Mem_error)"

lemma lookahead_has_bytes: "luaZ_lookahead rdr z = Inr (c, z') \<Longrightarrow> c \<noteq> EOZ \<Longrightarrow> 0 < zn z'"
  by (auto simp: luaZ_lookahead_def ax_res Let_def split: if_splits)

text \<open>The bytes copied and the number of bytes missing.\<close>

function luaZ_read :: "'r reader \<Rightarrow> 'r ZIO \<Rightarrow> nat \<Rightarrow> (u8 list \<times> nat \<times> 'r ZIO) res" where
  "luaZ_read rdr z n =
     (if n = 0 then Inr ([], 0, z)
      else rbind (luaZ_lookahead rdr z) (\<lambda>(c, z).
        if c = EOZ then Inr ([], n, z)
        else let m = (if n \<le> zn z then n else zn z) in
          rbind (z_copy z m) (\<lambda>bs.
          rbind (luaZ_read rdr (z\<lparr>zn := zn z - m, zp := zp z + m\<rparr>) (n - m)) (\<lambda>(rest, r, z). Inr (bs @ rest, r, z)))))"
  by pat_completeness auto
termination
  by (relation "measure (\<lambda>(rdr, z, n). n)") (auto dest: lookahead_has_bytes)

declare luaZ_read.simps [simp del]

section \<open>The token buffer\<close>

record Mbuffer =
  buffer :: block
  mb_n :: nat
  buffsize :: nat

definition luaZ_initbuffer :: "Mbuffer \<Rightarrow> Mbuffer" where
  "luaZ_initbuffer buff = buff\<lparr>buffer := [], buffsize := 0\<rparr>"

definition luaZ_resetbuffer :: "Mbuffer \<Rightarrow> Mbuffer" where
  "luaZ_resetbuffer buff = buff\<lparr>mb_n := 0\<rparr>"

definition luaZ_resizebuffer :: "Mbuffer \<Rightarrow> nat \<Rightarrow> Mbuffer" where
  "luaZ_resizebuffer buff newsize = buff\<lparr>buffer := realloc_blk (Some (buffer buff)) newsize, buffsize := newsize\<rparr>"

definition luaZ_freebuffer :: "Mbuffer \<Rightarrow> Mbuffer" where
  "luaZ_freebuffer buff = luaZ_resizebuffer buff 0"

definition LUA_MINBUFFER :: nat where "LUA_MINBUFFER = 32"

definition luaZ_openspace :: "Mbuffer \<Rightarrow> nat \<Rightarrow> Mbuffer" where
  "luaZ_openspace buff n =
     (if n > buffsize buff then luaZ_resizebuffer buff (if n < LUA_MINBUFFER then LUA_MINBUFFER else n) else buff)"

definition mbuffer_ok :: "Mbuffer \<Rightarrow> bool" where
  "mbuffer_ok buff \<longleftrightarrow> length (buffer buff) = buffsize buff"

lemma openspace_ok: "mbuffer_ok buff \<Longrightarrow> mbuffer_ok (luaZ_openspace buff n) \<and> n \<le> length (buffer (luaZ_openspace buff n))"
  by (auto simp: mbuffer_ok_def luaZ_openspace_def luaZ_resizebuffer_def)

section \<open>What a stream holds\<close>

text \<open>The bytes a reader delivers before its first null or empty block.\<close>

inductive yields :: "'r reader \<Rightarrow> 'r \<Rightarrow> u8 list \<Rightarrow> bool" for rdr where
  stop: "rdr d = (r, d') \<Longrightarrow> r = None \<or> r = Some [] \<Longrightarrow> yields rdr d []"
| more: "rdr d = (Some buff, d') \<Longrightarrow> buff \<noteq> [] \<Longrightarrow> yields rdr d' bs \<Longrightarrow> yields rdr d (buff @ bs)"

inductive_cases yields_cases: "yields rdr d bs"

definition zstream :: "'r reader \<Rightarrow> 'r ZIO \<Rightarrow> u8 list \<Rightarrow> bool" where
  "zstream rdr z bs \<longleftrightarrow> zp z + zn z = length (zbuf z) \<and> (\<exists>rest. bs = drop (zp z) (zbuf z) @ rest \<and> yields rdr (zdata z) rest)"

lemma zstream_init: "yields rdr d bs \<Longrightarrow> zstream rdr (luaZ_init d) bs"
  by (simp add: zstream_def luaZ_init_def)

lemma fill_stream:
  assumes "yields rdr (zdata z) bs"
  shows "(bs = [] \<and> (\<exists>z'. luaZ_fill rdr z = Inr (EOZ, z') \<and> zn z' = zn z \<and> zbuf z' = zbuf z \<and> zp z' = zp z)) \<or>
    (\<exists>buff d' rest. buff \<noteq> [] \<and> bs = buff @ rest \<and> yields rdr d' rest \<and>
       luaZ_fill rdr z = Inr (char2int (hd buff), z\<lparr>zdata := d', zn := length buff - 1, zbuf := buff, zp := 1\<rparr>))"
  using assms
proof (cases rule: yields.cases)
  case (stop r d')
  then show ?thesis by (auto simp: luaZ_fill_def)
next
  case (more buff d' bs')
  then show ?thesis
    by (intro disjI2 exI [of _ buff] exI [of _ d'] exI [of _ bs']) (simp add: luaZ_fill_def z_at_def hd_conv_nth)
qed

lemma char2int_not_EOZ [simp]: "char2int c \<noteq> EOZ"
  by (simp add: char2int_def EOZ_def del: of_nat_unat)

lemma lookahead_stream:
  assumes "zstream rdr z bs"
  shows "case bs of
      [] \<Rightarrow> \<exists>z'. luaZ_lookahead rdr z = Inr (EOZ, z')
    | b # _ \<Rightarrow> \<exists>z'. luaZ_lookahead rdr z = Inr (char2int b, z') \<and> zstream rdr z' bs \<and> 0 < zn z'"
proof -
  obtain rest where z: "zp z + zn z = length (zbuf z)" "bs = drop (zp z) (zbuf z) @ rest" "yields rdr (zdata z) rest"
    using assms by (auto simp: zstream_def)
  show ?thesis
  proof (cases "zn z = 0")
    case True
    then have bs: "bs = rest" using z by simp
    from fill_stream [OF z(3)] show ?thesis
    proof (elim disjE exE conjE)
      fix z'
      assume "rest = []" "luaZ_fill rdr z = Inr (EOZ, z')"
      then show ?thesis using True bs by (simp add: luaZ_lookahead_def)
    next
      fix buff d' rest'
      assume a: "buff \<noteq> []" "rest = buff @ rest'" "yields rdr d' rest'"
        "luaZ_fill rdr z = Inr (char2int (hd buff), z\<lparr>zdata := d', zn := length buff - 1, zbuf := buff, zp := 1\<rparr>)"
      then show ?thesis using True bs
        by (cases buff) (auto simp: luaZ_lookahead_def z_at_def zstream_def)
    qed
  next
    case False
    then have lt: "zp z < length (zbuf z)" using z(1) by simp
    then have "drop (zp z) (zbuf z) = zbuf z ! zp z # drop (Suc (zp z)) (zbuf z)" by (simp add: Cons_nth_drop_Suc)
    then show ?thesis using False lt z assms by (simp add: luaZ_lookahead_def z_at_def)
  qed
qed

lemma read_stream:
  assumes "zstream rdr z bs"
  shows "if n \<le> length bs then \<exists>z'. luaZ_read rdr z n = Inr (take n bs, 0, z') \<and> zstream rdr z' (drop n bs)
    else \<exists>z'. luaZ_read rdr z n = Inr (bs, n - length bs, z')"
  using assms
proof (induction n arbitrary: z bs rule: less_induct)
  case (less n)
  note la = lookahead_stream [OF less(2)]
  show ?case
  proof (cases "n = 0 \<or> bs = []")
    case True
    then show ?thesis using la less(2) by (subst (1 2) luaZ_read.simps) auto
  next
    case False
    then obtain b bs' where bs: "bs = b # bs'" by (cases bs) auto
    obtain z' where z': "luaZ_lookahead rdr z = Inr (char2int b, z')" "zstream rdr z' bs" "0 < zn z'" using la bs by auto
    define m where "m = (if n \<le> zn z' then n else zn z')"
    define z2 where "z2 = z'\<lparr>zn := zn z' - m, zp := zp z' + m\<rparr>"
    have m: "0 < m" "m \<le> n" "m \<le> zn z'" using False z'(3) by (auto simp: m_def)
    obtain rest where r: "zp z' + zn z' = length (zbuf z')" "bs = drop (zp z') (zbuf z') @ rest" "yields rdr (zdata z') rest"
      using z'(2) by (auto simp: zstream_def)
    have len: "m \<le> length bs" using r m(3) by simp
    have cp: "z_copy z' m = Inr (take m bs)" using r m(3) by (simp add: z_copy_def)
    have st: "zstream rdr z2 (drop m bs)" using r m(3) by (auto simp: zstream_def z2_def add.commute)
    have unf: "luaZ_read rdr z n = rbind (luaZ_read rdr z2 (n - m)) (\<lambda>(rest, r, z). Inr (take m bs @ rest, r, z))"
      using False z'(1) cp by (subst luaZ_read.simps) (simp add: m_def [symmetric] z2_def [symmetric])
    note ih = less(1) [OF _ st, of "n - m"]
    show ?thesis
    proof (cases "n \<le> length bs")
      case True
      then have "n - m \<le> length (drop m bs)" by simp
      then obtain z3 where "luaZ_read rdr z2 (n - m) = Inr (take (n - m) (drop m bs), 0, z3)" "zstream rdr z3 (drop (n - m) (drop m bs))"
        using ih m(1,2) by auto
      moreover have "take m bs @ take (n - m) (drop m bs) = take n bs" using m(2) by (metis le_add_diff_inverse take_add)
      moreover have "drop (n - m) (drop m bs) = drop n bs" using m(2) by simp
      ultimately show ?thesis using unf True by auto
    next
      case False
      then have "\<not> n - m \<le> length (drop m bs)" using len m(2) by simp
      then obtain z3 where "luaZ_read rdr z2 (n - m) = Inr (drop m bs, n - m - length (drop m bs), z3)"
        using ih m(1,2) by auto
      moreover have "n - m - length (drop m bs) = n - length bs" using len by simp
      ultimately show ?thesis using unf False by auto
    qed
  qed
qed

lemma zgetc_stream:
  assumes "zstream rdr z bs"
  shows "case bs of
      [] \<Rightarrow> \<exists>z'. zgetc rdr z = Inr (EOZ, z') \<and> zn z' = 2 ^ 64 - 1
    | b # bs' \<Rightarrow> \<exists>z'. zgetc rdr z = Inr (char2int b, z') \<and> zstream rdr z' bs'"
proof -
  obtain rest where z: "zp z + zn z = length (zbuf z)" "bs = drop (zp z) (zbuf z) @ rest" "yields rdr (zdata z) rest"
    using assms by (auto simp: zstream_def)
  show ?thesis
  proof (cases "zn z = 0")
    case True
    then have bs: "bs = rest" using z by simp
    have y: "yields rdr (zdata (z\<lparr>zn := 2 ^ 64 - 1\<rparr>)) rest" using z(3) by simp
    from fill_stream [OF y] show ?thesis
    proof (elim disjE exE conjE)
      fix z'
      assume "rest = []" "luaZ_fill rdr (z\<lparr>zn := 2 ^ 64 - 1\<rparr>) = Inr (EOZ, z')" "zn z' = zn (z\<lparr>zn := 2 ^ 64 - 1\<rparr>)"
      then show ?thesis using True bs by (simp add: zgetc_def)
    next
      fix buff d' rest'
      assume "buff \<noteq> []" "rest = buff @ rest'" "yields rdr d' rest'"
        "luaZ_fill rdr (z\<lparr>zn := 2 ^ 64 - 1\<rparr>) =
           Inr (char2int (hd buff), z\<lparr>zn := 2 ^ 64 - 1, zdata := d', zn := length buff - 1, zbuf := buff, zp := 1\<rparr>)"
      then show ?thesis using True bs by (cases buff) (auto simp: zgetc_def zstream_def)
    qed
  next
    case False
    then have lt: "zp z < length (zbuf z)" using z(1) by simp
    then have "drop (zp z) (zbuf z) = zbuf z ! zp z # drop (Suc (zp z)) (zbuf z)" by (simp add: Cons_nth_drop_Suc)
    then show ?thesis using False lt z by (auto simp: zgetc_def z_at_def zstream_def)
  qed
qed

section \<open>Properties\<close>

text \<open>C29: A stream is the concatenation of the blocks of its reader, however they are cut. Reading \<open>n\<close> bytes gives the next
  \<open>n\<close> of them, across block boundaries, or all that are left and the number of bytes missing; looking ahead shows the next
  byte and keeps it, and getting a character removes it; at the end both answer \<^verbatim>\<open>EOZ\<close>. No byte outside a block of the
  reader is read.\<close>

theorem stream_refines_bytes:
  assumes "zstream rdr z bs"
  shows "(\<exists>z'. luaZ_read rdr z n = Inr (take n bs, n - length bs, z') \<and> (n \<le> length bs \<longrightarrow> zstream rdr z' (drop n bs))) \<and>
    (\<exists>z'. luaZ_lookahead rdr z = Inr (if bs = [] then EOZ else char2int (hd bs), z') \<and> (bs \<noteq> [] \<longrightarrow> zstream rdr z' bs)) \<and>
    (\<exists>z'. zgetc rdr z = Inr (if bs = [] then EOZ else char2int (hd bs), z') \<and> (bs \<noteq> [] \<longrightarrow> zstream rdr z' (tl bs)))"
proof (intro conjI)
  show "\<exists>z'. luaZ_read rdr z n = Inr (take n bs, n - length bs, z') \<and> (n \<le> length bs \<longrightarrow> zstream rdr z' (drop n bs))"
    using read_stream [OF assms, of n] by (auto split: if_splits)
  show "\<exists>z'. luaZ_lookahead rdr z = Inr (if bs = [] then EOZ else char2int (hd bs), z') \<and> (bs \<noteq> [] \<longrightarrow> zstream rdr z' bs)"
    using lookahead_stream [OF assms] by (cases bs) auto
  show "\<exists>z'. zgetc rdr z = Inr (if bs = [] then EOZ else char2int (hd bs), z') \<and> (bs \<noteq> [] \<longrightarrow> zstream rdr z' (tl bs))"
    using zgetc_stream [OF assms] by (cases bs) auto
qed

text \<open>A reader over a list of blocks.\<close>

fun list_reader :: "u8 list list reader" where
  "list_reader [] = (None, [])"
| "list_reader (b # bs) = (Some b, bs)"

lemma list_reader_yields: "[] \<notin> set bs \<Longrightarrow> yields list_reader bs (concat bs)"
proof (induction bs)
  case (Cons b bs)
  then show ?case using yields.more [of list_reader "b # bs" b bs "concat bs"] by auto
qed (simp add: yields.stop)

theorem stream_refines_bytes_witness:
  "\<exists>z'. luaZ_read list_reader (luaZ_init [[1, 2], [3], [4, 5]]) 4 = Inr ([1, 2, 3, 4], 0, z') \<and> zstream list_reader z' [5]"
proof -
  have "zstream list_reader (luaZ_init [[1, 2], [3], [4, 5]]) [1, 2, 3, 4, 5]"
    using zstream_init [OF list_reader_yields [of "[[1, 2], [3], [4, 5]]"]] by simp
  from stream_refines_bytes [OF this, of 4] show ?thesis by simp
qed

end

