(* ===== verification/Lua_Chunk.thy ===== *)
theory Lua_Chunk
  imports Lua_Check Lua_Zio Ax_String
begin

text \<open>
  Precompiled chunks: \<^verbatim>\<open>ldump.c\<close> writes a function prototype through a writer of the host program, \<^verbatim>\<open>lundump.c\<close> reads it back from
  a stream. The machine is little-endian with 4-byte \<open>int\<close>s and instructions and 8-byte \<^verbatim>\<open>size_t\<close>s and numbers. Allocation
  succeeds; the Lua stack, on which the loader only anchors the new prototype, is not modelled. The depth \<^verbatim>\<open>nCcalls\<close> is raised on entry to
  \<^verbatim>\<open>LoadFunction\<close> and lowered on return, so it is an argument here.
\<close>

section \<open>Writing\<close>

text \<open>The writer takes its data and a block; a status other than 0 stops the dump.\<close>

type_synonym 'w writer = "'w \<Rightarrow> u8 list \<Rightarrow> int \<times> 'w"

record 'w DumpState =
  ds_writer :: "'w writer"
  ds_data :: 'w
  ds_strip :: bool
  ds_status :: int

definition DumpBlock :: "u8 list \<Rightarrow> 'w DumpState \<Rightarrow> 'w DumpState" where
  "DumpBlock b D =
     (if ds_status D = 0 then
        let (st, d) = ds_writer D (ds_data D) b in D\<lparr>ds_status := st, ds_data := d\<rparr>
      else D)"

definition DumpChar :: "int \<Rightarrow> 'w DumpState \<Rightarrow> 'w DumpState" where
  "DumpChar y D = DumpBlock [word_of_int y] D"

definition DumpInt :: "u32 \<Rightarrow> 'w DumpState \<Rightarrow> 'w DumpState" where
  "DumpInt x D = DumpBlock (le32 x) D"

definition DumpNumber :: "u64 \<Rightarrow> 'w DumpState \<Rightarrow> 'w DumpState" where
  "DumpNumber x D = DumpBlock (le64 x) D"

definition DumpVector :: "u32 list \<Rightarrow> nat \<Rightarrow> 'w DumpState \<Rightarrow> 'w DumpState" where
  "DumpVector b n D = DumpBlock (concat (map le32 (take n b))) (DumpInt (of_nat n) D)"

definition DumpString :: "tstring \<Rightarrow> 'w DumpState \<Rightarrow> 'w DumpState" where
  "DumpString s D = (case s of
       None \<Rightarrow> DumpBlock (le64 0) D
     | Some cs \<Rightarrow> DumpBlock (cs @ [0]) (DumpBlock (le64 (of_nat (length cs + 1))) D))"

text \<open>The loops over the constants, the local variables and the upvalue names.\<close>

definition LUA_TNIL :: int where "LUA_TNIL = 0"
definition LUA_TBOOLEAN :: int where "LUA_TBOOLEAN = 1"
definition LUA_TNUMBER :: int where "LUA_TNUMBER = 3"
definition LUA_TSTRING :: int where "LUA_TSTRING = 4"

fun DumpConstant :: "konst \<Rightarrow> 'w DumpState \<Rightarrow> 'w DumpState" where
  "DumpConstant K_nil D = DumpChar LUA_TNIL D"
| "DumpConstant (K_boolean b) D = DumpChar b (DumpChar LUA_TBOOLEAN D)"
| "DumpConstant (K_number x) D = DumpNumber x (DumpChar LUA_TNUMBER D)"
| "DumpConstant (K_string s) D = DumpString s (DumpChar LUA_TSTRING D)"
| "DumpConstant (K_other t) D = DumpChar (int (unat t)) D"

definition DumpLocVar :: "LocVar \<Rightarrow> 'w DumpState \<Rightarrow> 'w DumpState" where
  "DumpLocVar v D = DumpInt (endpc v) (DumpInt (startpc v) (DumpString (varname v) D))"

definition DumpDebug :: "Proto \<Rightarrow> 'w DumpState \<Rightarrow> 'w DumpState" where
  "DumpDebug f D =
     (let n = (if ds_strip D then 0 else length (lineinfo f));
          D = DumpVector (lineinfo f) n D;
          n = (if ds_strip D then 0 else length (locvars f));
          D = fold DumpLocVar (take n (locvars f)) (DumpInt (of_nat n) D);
          n = (if ds_strip D then 0 else length (upvalues f)) in
      fold DumpString (take n (upvalues f)) (DumpInt (of_nat n) D))"

text \<open>The constants of a function and the functions it contains; these are written by \<open>DumpFunction\<close> in turn.\<close>

fun DumpFunction :: "Proto \<Rightarrow> tstring \<Rightarrow> 'w DumpState \<Rightarrow> 'w DumpState"
  and DumpFunctions :: "Proto list \<Rightarrow> tstring \<Rightarrow> 'w DumpState \<Rightarrow> 'w DumpState" where
  "DumpFunction (Proto src ld lld nu np va ms code k ps li lv uv) p D =
     (let f = Proto src ld lld nu np va ms code k ps li lv uv;
          D = DumpString (if src = p \<or> ds_strip D then None else src) D;
          D = DumpInt ld D;
          D = DumpInt lld D;
          D = DumpChar (int (unat nu)) D;
          D = DumpChar (int (unat np)) D;
          D = DumpChar (int (unat va)) D;
          D = DumpChar (int (unat ms)) D;
          D = DumpVector code (length code) D;
          D = fold DumpConstant k (DumpInt (of_nat (length k)) D);
          D = DumpFunctions ps src (DumpInt (of_nat (length ps)) D) in
      DumpDebug f D)"
| "DumpFunctions [] p D = D"
| "DumpFunctions (f # fs) p D = DumpFunctions fs p (DumpFunction f p D)"

definition LUAC_HEADERSIZE :: nat where "LUAC_HEADERSIZE = 12"

definition luaU_header :: "u8 list" where
  "luaU_header = [0x1B] @ c_lit ''Lua'' @ [0x51, 0, 1, 4, 8, 4, 8, 0]"

definition DumpHeader :: "'w DumpState \<Rightarrow> 'w DumpState" where
  "DumpHeader D = DumpBlock luaU_header D"

definition luaU_dump :: "Proto \<Rightarrow> 'w writer \<Rightarrow> 'w \<Rightarrow> bool \<Rightarrow> int \<times> 'w" where
  "luaU_dump f w data strip =
     (let D = \<lparr>ds_writer = w, ds_data = data, ds_strip = strip, ds_status = 0\<rparr>;
          D = DumpHeader D;
          D = DumpFunction f None D in
      (ds_status D, ds_data D))"

section \<open>Reading\<close>

text \<open>An error of the loader is a Lua error with its message; undefined behaviour is kept apart.\<close>

datatype lua_err = Lua_error "u8 list" | Lua_undef ax_err

record 'r LoadState =
  ls_reader :: "'r reader"
  ls_Z :: "'r ZIO"
  ls_b :: Mbuffer
  ls_name :: "u8 list"

type_synonym ('r, 'a) loader = "'r LoadState \<Rightarrow> lua_err + 'a \<times> 'r LoadState"

definition lret :: "'a \<Rightarrow> ('r, 'a) loader" where
  "lret x S = Inr (x, S)"

definition lbind :: "('r, 'a) loader \<Rightarrow> ('a \<Rightarrow> ('r, 'b) loader) \<Rightarrow> ('r, 'b) loader" where
  "lbind m f S = (case m S of Inl e \<Rightarrow> Inl e | Inr (x, S) \<Rightarrow> f x S)"

definition lift_res :: "'a res \<Rightarrow> ('r, 'a) loader" where
  "lift_res m S = (case m of Inl e \<Rightarrow> Inl (Lua_undef e) | Inr x \<Rightarrow> Inr (x, S))"

definition load_error :: "string \<Rightarrow> ('r, 'a) loader" where
  "load_error why S = Inl (Lua_error (ls_name S @ c_lit '': '' @ c_lit why @ c_lit '' in precompiled chunk''))"

definition load_if :: "bool \<Rightarrow> string \<Rightarrow> ('r, unit) loader" where
  "load_if c why = (if c then load_error why else lret ())"

definition LoadBlock :: "nat \<Rightarrow> ('r, u8 list) loader" where
  "LoadBlock n S = (case luaZ_read (ls_reader S) (ls_Z S) n of
       Inl e \<Rightarrow> Inl (Lua_undef e)
     | Inr (bs, r, z) \<Rightarrow> lbind (load_if (r \<noteq> 0) ''unexpected end'') (\<lambda>_. lret bs) (S\<lparr>ls_Z := z\<rparr>))"

definition LoadChar :: "('r, int) loader" where
  "LoadChar = lbind (LoadBlock 1) (\<lambda>bs. lret (sint (hd bs)))"

definition LoadByte :: "('r, u8) loader" where
  "LoadByte = lbind LoadChar (\<lambda>x. lret (word_of_int x))"

definition LoadInt :: "('r, u32) loader" where
  "LoadInt = lbind (LoadBlock 4) (\<lambda>bs.
     let x = un_le32 bs in lbind (load_if (sint x < 0) ''bad integer'') (\<lambda>_. lret x))"

definition LoadNumber :: "('r, u64) loader" where
  "LoadNumber = lbind (LoadBlock 8) (\<lambda>bs. lret (un_le64 bs))"

text \<open>A string is read into the buffer of the loader, which \<^verbatim>\<open>luaZ_openspace\<close> makes large enough, and made from all
  bytes but the last.\<close>

definition load_chars :: "nat \<Rightarrow> ('r, tstring) loader" where
  "load_chars n S =
     lbind (LoadBlock n) (\<lambda>bs S.
       lbind (lift_res (blk_write (buffer (ls_b S)) 0 (map Some bs))) (\<lambda>blk S.
         lbind (lift_res (rbind (blk_read blk 0 (n - 1)) cells_bytes)) (\<lambda>cs. lret (Some cs))
           (S\<lparr>ls_b := (ls_b S)\<lparr>buffer := blk\<rparr>\<rparr>)) S)
       (S\<lparr>ls_b := luaZ_openspace (ls_b S) n\<rparr>)"

definition LoadString :: "('r, tstring) loader" where
  "LoadString = lbind (LoadBlock 8) (\<lambda>bs. let n = unat (un_le64 bs) in if n = 0 then lret None else load_chars n)"

text \<open>A loop that loads \<open>n\<close> items.\<close>

primrec load_n :: "nat \<Rightarrow> ('r, 'a) loader \<Rightarrow> ('r, 'a list) loader" where
  "load_n 0 m = lret []"
| "load_n (Suc n) m = lbind m (\<lambda>x. lbind (load_n n m) (\<lambda>xs. lret (x # xs)))"

text \<open>An array of \<open>n\<close> words of 4 bytes.\<close>

fun words_of :: "u8 list \<Rightarrow> u32 list" where
  "words_of (a # b # c # d # bs) = un_le32 [a, b, c, d] # words_of bs"
| "words_of _ = []"

definition LoadVector :: "nat \<Rightarrow> ('r, u32 list) loader" where
  "LoadVector n = lbind (LoadBlock (n * 4)) (\<lambda>bs. lret (words_of bs))"

definition LoadCode :: "('r, u32 list) loader" where
  "LoadCode = lbind LoadInt (\<lambda>n. LoadVector (unat n))"

text \<open>A constant of type \<open>t\<close>.\<close>

definition load_typed :: "int \<Rightarrow> ('r, konst) loader" where
  "load_typed t =
     (if t = LUA_TNIL then lret K_nil
     else if t = LUA_TBOOLEAN then lbind LoadChar (\<lambda>b. lret (K_boolean (if b \<noteq> 0 then 1 else 0)))
     else if t = LUA_TNUMBER then lbind LoadNumber (\<lambda>x. lret (K_number x))
     else if t = LUA_TSTRING then lbind LoadString (\<lambda>s. lret (K_string s))
     else load_error ''bad constant'')"

definition LoadConstant :: "('r, konst) loader" where
  "LoadConstant = lbind LoadChar load_typed"

definition LoadConstants :: "('r, konst list) loader" where
  "LoadConstants = lbind LoadInt (\<lambda>n. load_n (unat n) LoadConstant)"

definition LoadLocVar :: "('r, LocVar) loader" where
  "LoadLocVar = lbind LoadString (\<lambda>s. lbind LoadInt (\<lambda>a. lbind LoadInt (\<lambda>b. lret \<lparr>varname = s, startpc = a, endpc = b\<rparr>)))"

definition LoadDebug :: "('r, u32 list \<times> LocVar list \<times> tstring list) loader" where
  "LoadDebug = lbind LoadInt (\<lambda>n. lbind (LoadVector (unat n)) (\<lambda>li.
     lbind LoadInt (\<lambda>n. lbind (load_n (unat n) LoadLocVar) (\<lambda>lv.
     lbind LoadInt (\<lambda>n. lbind (load_n (unat n) LoadString) (\<lambda>uv. lret (li, lv, uv)))))))"

definition LUAI_MAXCCALLS :: nat where "LUAI_MAXCCALLS = 200"

function LoadFunction :: "nat \<Rightarrow> tstring \<Rightarrow> ('r, Proto) loader" where
  "LoadFunction nCcalls p =
     (if nCcalls + 1 > LUAI_MAXCCALLS then load_error ''code too deep''
      else
        lbind LoadString (\<lambda>s. let src = (if s = None then p else s) in
        lbind LoadInt (\<lambda>ld. lbind LoadInt (\<lambda>lld.
        lbind LoadByte (\<lambda>nu. lbind LoadByte (\<lambda>np. lbind LoadByte (\<lambda>va. lbind LoadByte (\<lambda>ms.
        lbind LoadCode (\<lambda>code.
        lbind LoadConstants (\<lambda>k.
        lbind LoadInt (\<lambda>n. lbind (load_n (unat n) (LoadFunction (nCcalls + 1) src)) (\<lambda>ps.
        lbind LoadDebug (\<lambda>(li, lv, uv).
          let f = Proto src ld lld nu np va ms code k ps li lv uv in
          lbind (lift_res (luaG_checkcode f)) (\<lambda>ok.
          lbind (load_if (\<not> ok) ''bad code'') (\<lambda>_. lret f)))))))))))))))"
  by pat_completeness auto
termination
  by (relation "measure (\<lambda>(n, p). LUAI_MAXCCALLS - n)") auto

declare LoadFunction.simps [simp del]

definition LoadHeader :: "('r, unit) loader" where
  "LoadHeader = lbind (LoadBlock LUAC_HEADERSIZE) (\<lambda>s. load_if (s \<noteq> luaU_header) ''bad header'')"

text \<open>The name of the chunk in messages.\<close>

definition load_name :: "u8 list \<Rightarrow> u8 list" where
  "load_name nm =
     (if nm \<noteq> [] \<and> (hd nm = 64 \<or> hd nm = 61) then tl nm
      else if nm \<noteq> [] \<and> hd nm = 0x1B then c_lit ''binary string'' else nm)"

definition luaU_undump :: "'r reader \<Rightarrow> 'r ZIO \<Rightarrow> Mbuffer \<Rightarrow> nat \<Rightarrow> u8 list \<Rightarrow> lua_err + Proto \<times> 'r LoadState" where
  "luaU_undump rdr Z buff nCcalls nm =
     lbind LoadHeader (\<lambda>_. LoadFunction nCcalls (Some (c_lit ''=?'')))
       \<lparr>ls_reader = rdr, ls_Z = Z, ls_b = buff, ls_name = load_name nm\<rparr>"

section \<open>The format of a chunk\<close>

lemma words_of_concat [simp]: "words_of (concat (map le32 ws)) = ws"
proof (induction ws)
  case (Cons w ws)
  have "un_le32 [ucast w, ucast (drop_bit 8 w), ucast (drop_bit 16 w), ucast (drop_bit 24 w)] = w"
    using un_le32_le32 [of w] by (simp only: le32_def)
  then show ?case using Cons by (simp add: le32_def)
qed simp

definition enc_str :: "tstring \<Rightarrow> u8 list" where
  "enc_str s = (case s of None \<Rightarrow> le64 0 | Some cs \<Rightarrow> le64 (of_nat (length cs + 1)) @ cs @ [0])"

fun enc_konst :: "konst \<Rightarrow> u8 list" where
  "enc_konst K_nil = [0]"
| "enc_konst (K_boolean b) = [1, word_of_int b]"
| "enc_konst (K_number x) = 3 # le64 x"
| "enc_konst (K_string s) = 4 # enc_str s"
| "enc_konst (K_other t) = [t]"

definition enc_words :: "u32 list \<Rightarrow> u8 list" where
  "enc_words ws = le32 (of_nat (length ws)) @ concat (map le32 ws)"

definition enc_list :: "('a \<Rightarrow> u8 list) \<Rightarrow> 'a list \<Rightarrow> u8 list" where
  "enc_list e xs = le32 (of_nat (length xs)) @ concat (map e xs)"

definition enc_locvar :: "LocVar \<Rightarrow> u8 list" where
  "enc_locvar v = enc_str (varname v) @ le32 (startpc v) @ le32 (endpc v)"

definition enc_debug :: "bool \<Rightarrow> u32 list \<Rightarrow> LocVar list \<Rightarrow> tstring list \<Rightarrow> u8 list" where
  "enc_debug strip li lv uv = (if strip then enc_words [] @ enc_list enc_locvar [] @ enc_list enc_str []
     else enc_words li @ enc_list enc_locvar lv @ enc_list enc_str uv)"

fun enc_fun :: "bool \<Rightarrow> tstring \<Rightarrow> Proto \<Rightarrow> u8 list" where
  "enc_fun strip q (Proto src ld lld nu np va ms code k ps li lv uv) =
     enc_str (if src = q \<or> strip then None else src) @ le32 ld @ le32 lld @ [nu] @ [np] @ [va] @ [ms] @ enc_words code @ enc_list enc_konst k @
     (le32 (of_nat (length ps)) @ concat (map (enc_fun strip src) ps)) @ enc_debug strip li lv uv"

section \<open>What the writer gets\<close>

text \<open>A writer that appends and never fails.\<close>

definition append_writer :: "u8 list writer" where
  "append_writer d b = (0, d @ b)"

definition appender :: "u8 list DumpState \<Rightarrow> bool" where
  "appender D \<longleftrightarrow> ds_writer D = append_writer \<and> ds_status D = 0"

definition app :: "u8 list DumpState \<Rightarrow> u8 list \<Rightarrow> u8 list DumpState" where
  "app D bs = D\<lparr>ds_data := ds_data D @ bs\<rparr>"

lemma app_simps [simp]:
  "app (app D a) b = app D (a @ b)" "app D [] = D" "appender (app D a) = appender D" "ds_strip (app D a) = ds_strip D"
  "ds_data (app D a) = ds_data D @ a"
  by (simp_all add: app_def appender_def)

lemma dump_basic [simp]:
  assumes "appender D"
  shows "DumpBlock bs D = app D bs" "DumpChar y D = app D [word_of_int y]" "DumpInt x D = app D (le32 x)"
    "DumpNumber z D = app D (le64 z)" "DumpString s D = app D (enc_str s)"
proof -
  show b: "DumpBlock bs D = app D bs" for bs
    using assms by (simp add: DumpBlock_def appender_def append_writer_def app_def)
  have b': "DumpBlock b (app D a) = app D (a @ b)" for a b
    using assms by (simp add: DumpBlock_def appender_def append_writer_def app_def)
  show "DumpChar y D = app D [word_of_int y]" "DumpInt x D = app D (le32 x)" "DumpNumber z D = app D (le64 z)"
    by (simp_all add: DumpChar_def DumpInt_def DumpNumber_def b)
  show "DumpString s D = app D (enc_str s)"
    by (cases s) (simp_all add: DumpString_def enc_str_def b b')
qed

lemma dump_vector [simp]: "appender D \<Longrightarrow> DumpVector ws (length ws) D = app D (enc_words ws)"
  by (simp add: DumpVector_def enc_words_def)

lemma dump_vector_0 [simp]: "appender D \<Longrightarrow> DumpVector ws 0 D = app D (enc_words [])"
  by (simp add: DumpVector_def enc_words_def)

lemma dump_konst [simp]: "appender D \<Longrightarrow> DumpConstant c D = app D (enc_konst c)"
  by (cases c) (simp_all add: LUA_TNIL_def LUA_TBOOLEAN_def LUA_TNUMBER_def LUA_TSTRING_def)

lemma dump_locvar [simp]: "appender D \<Longrightarrow> DumpLocVar v D = app D (enc_locvar v)"
  by (simp add: DumpLocVar_def enc_locvar_def)

lemma dump_fold:
  assumes "\<And>x D. appender D \<Longrightarrow> f x D = app D (e x)" and "appender D"
  shows "fold f xs D = app D (concat (map e xs))"
  using assms(2) by (induction xs arbitrary: D) (simp_all add: assms(1))

lemma dump_debug:
  "appender D \<Longrightarrow> DumpDebug f D = app D (enc_debug (ds_strip D) (lineinfo f) (locvars f) (upvalues f))"
  by (simp add: DumpDebug_def enc_debug_def enc_list_def dump_fold [where e = enc_locvar] dump_fold [where e = enc_str] Let_def)

lemma dump_functions:
  assumes "\<And>g D. g \<in> set fs \<Longrightarrow> appender D \<Longrightarrow> DumpFunction g q D = app D (enc_fun (ds_strip D) q g)" and "appender D"
  shows "DumpFunctions fs q D = app D (concat (map (enc_fun (ds_strip D) q) fs))"
  using assms by (induction fs arbitrary: D) simp_all

lemma dump_function: "appender D \<Longrightarrow> DumpFunction f q D = app D (enc_fun (ds_strip D) q f)"
proof (induction f arbitrary: q D)
  case (Proto src ld lld nu np va ms code k ps li lv uv)
  have k: "fold DumpConstant k D' = app D' (concat (map enc_konst k))" if "appender D'" for D'
    by (rule dump_fold [of DumpConstant enc_konst, OF dump_konst that])
  have ps: "DumpFunctions ps src D' = app D' (concat (map (enc_fun (ds_strip D') src) ps))" if "appender D'" for D'
    using Proto(1) that by (rule dump_functions)
  show ?case using Proto(2) by (simp add: Let_def k ps enc_list_def dump_debug)
qed

section \<open>Reading what was written\<close>

text \<open>The loader is at the start of the bytes \<open>bs\<close>, and they are all that is left.\<close>

definition ready :: "'r LoadState \<Rightarrow> u8 list \<Rightarrow> bool" where
  "ready S bs \<longleftrightarrow> zstream (ls_reader S) (ls_Z S) bs \<and> mbuffer_ok (ls_b S)"

abbreviation truncated :: "'r LoadState \<Rightarrow> lua_err" where
  "truncated S \<equiv> Lua_error (ls_name S @ c_lit '': '' @ c_lit ''unexpected end'' @ c_lit '' in precompiled chunk'')"

text \<open>A loader consumes exactly the bytes \<open>bs\<close> and returns \<open>x\<close>; on a shorter input it reports an unexpected end.\<close>

definition loads :: "('r, 'a) loader \<Rightarrow> u8 list \<Rightarrow> 'a \<Rightarrow> bool" where
  "loads m bs x \<longleftrightarrow>
     (\<forall>S rest. ready S (bs @ rest) \<longrightarrow> (\<exists>S'. m S = Inr (x, S') \<and> ready S' rest \<and> ls_name S' = ls_name S)) \<and>
     (\<forall>S n. n < length bs \<longrightarrow> ready S (take n bs) \<longrightarrow> m S = Inl (truncated S))"

lemma loads_run: "loads m bs x \<Longrightarrow> ready S (bs @ rest) \<Longrightarrow> \<exists>S'. m S = Inr (x, S') \<and> ready S' rest \<and> ls_name S' = ls_name S"
  unfolding loads_def by blast

lemma loads_short: "loads m bs x \<Longrightarrow> n < length bs \<Longrightarrow> ready S (take n bs) \<Longrightarrow> m S = Inl (truncated S)"
  unfolding loads_def by blast

named_theorems load_rules \<open>what the loaders consume\<close>

lemma loads_ret [load_rules]: "loads (lret x) [] x"
  by (simp add: loads_def lret_def)

lemma loads_bind:
  fixes m :: "('r, 'a) loader"
  assumes "loads m a x" and "loads (f x) b y"
  shows "loads (lbind m f) (a @ b) y"
  unfolding loads_def
proof (intro conjI allI impI)
  fix S :: "'r LoadState" and rest
  assume "ready S ((a @ b) @ rest)"
  then obtain S1 where S1: "m S = Inr (x, S1)" "ready S1 (b @ rest)" "ls_name S1 = ls_name S"
    using assms(1) unfolding loads_def append_assoc by blast
  then obtain S2 where "f x S1 = Inr (y, S2)" "ready S2 rest" "ls_name S2 = ls_name S1" using assms(2) unfolding loads_def by blast
  then show "\<exists>S'. lbind m f S = Inr (y, S') \<and> ready S' rest \<and> ls_name S' = ls_name S" using S1 by (simp add: lbind_def)
next
  fix S :: "'r LoadState" and n
  assume n: "n < length (a @ b)" and r: "ready S (take n (a @ b))"
  show "lbind m f S = Inl (truncated S)"
  proof (cases "n < length a")
    case True
    then have "m S = Inl (truncated S)" using assms(1) r unfolding loads_def by simp
    then show ?thesis by (simp add: lbind_def)
  next
    case False
    then have "ready S (a @ take (n - length a) b)" using r by simp
    then obtain S1 where S1: "m S = Inr (x, S1)" "ready S1 (take (n - length a) b)" "ls_name S1 = ls_name S"
      using assms(1) unfolding loads_def by blast
    moreover have "n - length a < length b" using n False by simp
    ultimately have "f x S1 = Inl (truncated S1)" using assms(2) unfolding loads_def by blast
    then show ?thesis using S1 by (simp add: lbind_def)
  qed
qed

text \<open>The last step of a loader that reads nothing more.\<close>

lemma loads_then: "loads m bs x \<Longrightarrow> loads (f x) [] y \<Longrightarrow> loads (lbind m f) bs y"
  using loads_bind [of m bs x f "[]" y] by simp

lemma loads_block [load_rules]: "length bs = n \<Longrightarrow> loads (LoadBlock n :: ('r, u8 list) loader) bs bs"
  unfolding loads_def
proof (intro conjI allI impI)
  fix S :: "'r LoadState" and rest
  assume n: "length bs = n" and r: "ready S (bs @ rest)"
  from r have z: "zstream (ls_reader S) (ls_Z S) (bs @ rest)" by (simp add: ready_def)
  show "\<exists>S'. LoadBlock n S = Inr (bs, S') \<and> ready S' rest \<and> ls_name S' = ls_name S"
    using read_stream [OF z, of n] n r by (auto simp: LoadBlock_def lbind_def load_if_def lret_def ready_def)
next
  fix S :: "'r LoadState" and k
  assume n: "length bs = n" and k: "k < length bs" and r: "ready S (take k bs)"
  from r have z: "zstream (ls_reader S) (ls_Z S) (take k bs)" by (simp add: ready_def)
  show "LoadBlock n S = Inl (truncated S)"
    using read_stream [OF z, of n] n k by (auto simp: LoadBlock_def lbind_def load_if_def load_error_def)
qed

lemma loads_byte [load_rules]: "loads LoadByte [b] b"
proof -
  have "loads LoadChar [b] (sint b)"
    unfolding LoadChar_def by (rule loads_then [OF loads_block]) (simp_all add: loads_ret)
  then show ?thesis unfolding LoadByte_def by (rule loads_then) (simp add: loads_ret)
qed

lemma loads_char [load_rules]: "loads LoadChar [b] (sint b)"
  unfolding LoadChar_def by (rule loads_then [OF loads_block]) (simp_all add: loads_ret)

lemma loads_int [load_rules]: "0 \<le> sint x \<Longrightarrow> loads LoadInt (le32 x) x"
  unfolding LoadInt_def
  by (rule loads_then [OF loads_block]) (auto simp: load_if_def intro!: loads_then [OF loads_ret] loads_ret)

lemma loads_number [load_rules]: "loads LoadNumber (le64 x) x"
  unfolding LoadNumber_def by (rule loads_then [OF loads_block]) (simp_all add: loads_ret)

lemma LoadBlock_buffer: "LoadBlock n S = Inr (bs, S') \<Longrightarrow> ls_b S' = ls_b S"
  by (auto simp: LoadBlock_def lbind_def load_if_def lret_def load_error_def split: sum.splits if_splits)

lemma openspace_ready: "ready S bs \<Longrightarrow> ready (S\<lparr>ls_b := luaZ_openspace (ls_b S) n\<rparr>) bs"
  by (simp add: ready_def openspace_ok)

lemma chars_through_buffer:
  assumes "length bs = n" and "n \<le> length (buffer (ls_b S))" and "ready S rest"
  shows "\<exists>S'. lbind (lift_res (blk_write (buffer (ls_b S)) 0 (map Some bs))) (\<lambda>blk S.
      lbind (lift_res (rbind (blk_read blk 0 (n - 1)) cells_bytes)) (\<lambda>cs. lret (Some cs)) (S\<lparr>ls_b := (ls_b S)\<lparr>buffer := blk\<rparr>\<rparr>)) S
    = Inr (Some (take (n - 1) bs), S') \<and> ready S' rest \<and> ls_name S' = ls_name S"
proof -
  let ?blk = "map Some bs @ drop n (buffer (ls_b S))"
  have w: "blk_write (buffer (ls_b S)) 0 (map Some bs) = Inr ?blk" using assms(1,2) by (simp add: blk_write_ok)
  have l: "length ?blk = length (buffer (ls_b S))" using assms(1,2) by simp
  have "take (n - 1) ?blk = map Some (take (n - 1) bs)" using assms(1) by (simp add: take_map)
  then have "rbind (blk_read ?blk 0 (n - 1)) cells_bytes = Inr (take (n - 1) bs)"
    using assms(1,2) l by (simp add: blk_read_ok)
  then show ?thesis
    using w l assms(3) by (simp add: lbind_def lift_res_def lret_def ready_def mbuffer_ok_def)
qed

lemma loads_chars: "length bs = n \<Longrightarrow> loads (load_chars n :: ('r, tstring) loader) bs (Some (take (n - 1) bs))"
  unfolding loads_def
proof (intro conjI allI impI)
  fix S :: "'r LoadState" and rest
  let ?S = "S\<lparr>ls_b := luaZ_openspace (ls_b S) n\<rparr>"
  assume n: "length bs = n" and r: "ready S (bs @ rest)"
  obtain S1 where S1: "LoadBlock n ?S = Inr (bs, S1)" "ready S1 rest" "ls_name S1 = ls_name S"
    using loads_run [OF loads_block [OF n] openspace_ready [OF r, of n]] by auto
  have "n \<le> length (buffer (ls_b S1))" using LoadBlock_buffer [OF S1(1)] openspace_ok r by (simp add: ready_def)
  from chars_through_buffer [OF n this S1(2)] show "\<exists>S'. load_chars n S = Inr (Some (take (n - 1) bs), S') \<and> ready S' rest \<and> ls_name S' = ls_name S"
    unfolding load_chars_def lbind_def [of "LoadBlock n"] S1(1) sum.case prod.case S1(3) .
next
  fix S :: "'r LoadState" and k
  let ?S = "S\<lparr>ls_b := luaZ_openspace (ls_b S) n\<rparr>"
  assume n: "length bs = n" and k: "k < length bs" and r: "ready S (take k bs)"
  have "LoadBlock n ?S = Inl (truncated ?S)"
    by (rule loads_short [OF loads_block [OF n] k openspace_ready [OF r]])
  then show "load_chars n S = Inl (truncated S)" by (simp add: load_chars_def lbind_def)
qed

definition str_ok :: "tstring \<Rightarrow> bool" where
  "str_ok s \<longleftrightarrow> (case s of None \<Rightarrow> True | Some cs \<Rightarrow> length cs + 1 < 2 ^ 64)"

lemma loads_string [load_rules]:
  assumes "str_ok s"
  shows "loads LoadString (enc_str s) s"
proof (cases s)
  case None
  then show ?thesis unfolding LoadString_def by (auto simp: enc_str_def intro!: loads_then [OF loads_block] loads_ret)
next
  case (Some cs)
  have u: "unat (of_nat (length cs + 1) :: u64) = length cs + 1" using assms Some by (simp add: str_ok_def unat_of_nat del: of_nat_add of_nat_Suc)
  have "loads (load_chars (length cs + 1)) (cs @ [0]) (Some cs)" using loads_chars [of "cs @ [0]" "length cs + 1"] by simp
  then show ?thesis unfolding LoadString_def
    using u by (auto simp: enc_str_def Some simp del: of_nat_add of_nat_Suc intro!: loads_bind [OF loads_block])
qed

lemma loads_n:
  "\<forall>x \<in> set xs. loads m (e x) (g x) \<Longrightarrow> loads (load_n (length xs) m) (concat (map e xs)) (map g xs)"
proof (induction xs)
  case (Cons x xs)
  then have "loads (load_n (length xs) m) (concat (map e xs)) (map g xs)" by simp
  then have "loads (lbind (load_n (length xs) m) (\<lambda>ys. lret (g x # ys))) (concat (map e xs)) (g x # map g xs)"
    by (rule loads_then) (rule loads_ret)
  then show ?case using Cons(2) loads_bind [of m "e x" "g x"] by simp
qed (simp add: loads_ret)

lemma count_word:
  assumes "n < 2 ^ 31"
  shows "unat (of_nat n :: u32) = n" "0 \<le> sint (of_nat n :: u32)"
proof -
  show "unat (of_nat n :: u32) = n" using assms by (simp add: unat_of_nat_u32)
  then show "0 \<le> sint (of_nat n :: u32)" using sint_u32 [of "of_nat n"] assms by simp
qed

lemma loads_counted:
  assumes "\<forall>x \<in> set xs. loads m (e x) (g x)" and "length xs < 2 ^ 31"
  shows "loads (lbind LoadInt (\<lambda>n. load_n (unat n) m)) (le32 (of_nat (length xs)) @ concat (map e xs)) (map g xs)"
  using loads_bind [OF loads_int [OF count_word(2) [OF assms(2)]], of "\<lambda>n. load_n (unat n) m"] loads_n [OF assms(1)]
    count_word(1) [OF assms(2)] by simp

lemma loads_list:
  assumes "\<forall>x \<in> set xs. loads m (e x) x" and "length xs < 2 ^ 31"
  shows "loads (lbind LoadInt (\<lambda>n. load_n (unat n) m)) (enc_list e xs) xs"
  using loads_counted [of xs m e "\<lambda>x. x"] assms by (simp add: enc_list_def)

lemma loads_words:
  assumes "length ws < 2 ^ 31"
  shows "loads (lbind LoadInt (\<lambda>n. LoadVector (unat n))) (enc_words ws) ws"
proof -
  have "length (concat (map le32 ws)) = length ws * 4" by (induction ws) simp_all
  then have "loads (LoadVector (length ws)) (concat (map le32 ws)) ws"
    unfolding LoadVector_def by (rule loads_then [OF loads_block]) (simp add: loads_ret)
  then show ?thesis unfolding enc_words_def
    using count_word [OF assms] by (intro loads_bind [OF loads_int]) simp_all
qed

section \<open>Functions that can be written and read back\<close>

fun konst_ok :: "konst \<Rightarrow> bool" where
  "konst_ok K_nil = True"
| "konst_ok (K_boolean b) = (b = 0 \<or> b = 1)"
| "konst_ok (K_number x) = True"
| "konst_ok (K_string s) = str_ok s"
| "konst_ok (K_other t) = False"

definition locvar_ok :: "LocVar \<Rightarrow> bool" where
  "locvar_ok v \<longleftrightarrow> str_ok (varname v) \<and> 0 \<le> sint (startpc v) \<and> 0 \<le> sint (endpc v)"

text \<open>A prototype of nesting at most \<open>d\<close>: its numbers are not negative, its arrays are shorter than \<open>2 ^ 31\<close>, its constants are
  nil, booleans, numbers or strings, and the checker accepts its code and that of the functions inside it.\<close>

fun proto_ok :: "nat \<Rightarrow> Proto \<Rightarrow> bool" where
  "proto_ok 0 f = False"
| "proto_ok (Suc d) f \<longleftrightarrow>
     str_ok (p_source f) \<and> 0 \<le> sint (linedefined f) \<and> 0 \<le> sint (lastlinedefined f) \<and>
     length (p_code f) < 2 ^ 31 \<and> length (p_k f) < 2 ^ 31 \<and> length (p_p f) < 2 ^ 31 \<and> length (lineinfo f) < 2 ^ 31 \<and>
     length (locvars f) < 2 ^ 31 \<and> length (upvalues f) < 2 ^ 31 \<and> list_all konst_ok (p_k f) \<and> list_all locvar_ok (locvars f) \<and>
     list_all str_ok (upvalues f) \<and> luaG_checkcode f = Inr True \<and> list_all (proto_ok d) (p_p f)"

text \<open>The prototype that comes back: a source that was not written is that of the enclosing function as loaded, and a
  stripped function has no debug information. \<open>q\<close> is the source of the enclosing function, \<open>p\<close> its source after loading.\<close>

fun restored :: "bool \<Rightarrow> tstring \<Rightarrow> tstring \<Rightarrow> Proto \<Rightarrow> Proto" where
  "restored strip q p (Proto src ld lld nu np va ms code k ps li lv uv) =
     (let src' = (if src = q \<or> strip \<or> src = None then p else src) in
      Proto src' ld lld nu np va ms code k (map (restored strip src src') ps)
        (if strip then [] else li) (if strip then [] else lv) (if strip then [] else uv))"

lemma restored_nups [simp]: "nups (restored strip q p f) = nups f"
  by (cases f) (simp add: Let_def)

lemma loads_konst:
  assumes "konst_ok c"
  shows "loads (LoadConstant :: ('r, konst) loader) (enc_konst c) c"
proof -
  note t = load_typed_def LUA_TNIL_def LUA_TBOOLEAN_def LUA_TNUMBER_def LUA_TSTRING_def
  have l: "loads (LoadConstant :: ('r, konst) loader) ([w] @ bs) c" if "loads (load_typed (sint w) :: ('r, konst) loader) bs c" for w bs
    unfolding LoadConstant_def by (rule loads_bind [where f = load_typed, OF loads_char that])
  show ?thesis
  proof (cases c)
    case K_nil
    then show ?thesis using l [of 0 "[]"] by (simp add: t loads_ret)
  next
    case (K_boolean b)
    then have "loads (lbind LoadChar (\<lambda>b. lret (K_boolean (if b \<noteq> 0 then 1 else 0))) :: ('r, konst) loader) [word_of_int b] c"
      using assms by (intro loads_then [OF loads_char]) (auto simp: loads_ret)
    then show ?thesis using l [of 1 "[word_of_int b]"] K_boolean by (simp add: t)
  next
    case (K_number x)
    then have "loads (lbind LoadNumber (\<lambda>x. lret (K_number x)) :: ('r, konst) loader) (le64 x) c" by (intro loads_then [OF loads_number]) (simp add: loads_ret)
    then show ?thesis using l [of 3 "le64 x"] K_number by (simp add: t)
  next
    case (K_string s)
    then have "loads (lbind LoadString (\<lambda>s. lret (K_string s)) :: ('r, konst) loader) (enc_str s) c"
      using assms by (intro loads_then [OF loads_string]) (simp_all add: loads_ret)
    then show ?thesis using l [of 4 "enc_str s"] K_string by (simp add: t)
  qed (use assms in simp)
qed

lemma loads_locvar: "locvar_ok v \<Longrightarrow> loads LoadLocVar (enc_locvar v) v"
  unfolding LoadLocVar_def enc_locvar_def locvar_ok_def
  by (cases v, intro loads_bind [OF loads_string] loads_bind [OF loads_int] loads_then [OF loads_int]) (simp_all add: loads_ret)

lemma loads_debug:
  assumes "length li < 2 ^ 31" "length lv < 2 ^ 31" "length uv < 2 ^ 31" "list_all locvar_ok lv" "list_all str_ok uv"
  shows "loads (LoadDebug :: ('r, _) loader) (enc_debug strip li lv uv) (if strip then [] else li, if strip then [] else lv, if strip then [] else uv)"
proof -
  have reassoc: "(LoadDebug :: ('r, _) loader) = lbind (lbind LoadInt (\<lambda>n. LoadVector (unat n))) (\<lambda>li.
      lbind (lbind LoadInt (\<lambda>n. load_n (unat n) LoadLocVar)) (\<lambda>lv.
      lbind (lbind LoadInt (\<lambda>n. load_n (unat n) LoadString)) (\<lambda>uv. lret (li, lv, uv))))"
    by (rule ext) (auto simp: LoadDebug_def lbind_def split: sum.splits prod.splits)
  have "loads (LoadDebug :: ('r, _) loader) (enc_words li' @ enc_list enc_locvar lv' @ enc_list enc_str uv') (li', lv', uv')"
    if "length li' < 2 ^ 31" "length lv' < 2 ^ 31" "length uv' < 2 ^ 31" "list_all locvar_ok lv'" "list_all str_ok uv'" for li' lv' uv'
    unfolding reassoc using that
    by (intro loads_bind [OF loads_words] loads_bind [OF loads_list] loads_then [OF loads_list] loads_ret)
      (auto simp: list_all_iff loads_locvar loads_string)
  from this [of li lv uv] this [of "[]" "[]" "[]"] show ?thesis using assms by (simp add: enc_debug_def)
qed

lemma loads_lift: "m = Inr x \<Longrightarrow> loads (lift_res m) [] x"
  by (simp add: loads_def lift_res_def)

lemma loads_function:
  "proto_ok d f \<Longrightarrow> d + nc \<le> LUAI_MAXCCALLS \<Longrightarrow>
   loads (LoadFunction nc p :: ('r, Proto) loader) (enc_fun strip q f) (restored strip q p f)"
proof (induction d arbitrary: f nc p q)
  case (Suc d)
  obtain src ld lld nu np va ms code k ps li lv uv where f: "f = Proto src ld lld nu np va ms code k ps li lv uv" by (cases f)
  define s where "s = (if src = q \<or> strip then None else src)"
  define src' where "src' = (if src = q \<or> strip \<or> src = None then p else src)"
  define g where "g = restored strip q p f"
  define ps' where "ps' = map (restored strip src src') ps"
  define dbg where "dbg = (if strip then [] else li, if strip then [] else lv, if strip then [] else uv)"
  have g: "g = Proto src' ld lld nu np va ms code k ps' (fst dbg) (fst (snd dbg)) (snd (snd dbg))"
    by (simp add: g_def f src'_def ps'_def dbg_def Let_def)
  have src': "(if s = None then p else s) = src'" by (auto simp: s_def src'_def)
  have ok: "str_ok s" "0 \<le> sint ld" "0 \<le> sint lld" "length code < 2 ^ 31" "length k < 2 ^ 31" "length ps < 2 ^ 31" "length li < 2 ^ 31"
      "length lv < 2 ^ 31" "length uv < 2 ^ 31" "list_all konst_ok k" "list_all locvar_ok lv" "list_all str_ok uv" "list_all (proto_ok d) ps"
    using Suc(2) by (simp_all add: f s_def str_ok_def)
  have chk: "luaG_checkcode g = Inr True"
  proof (rule checkcode_same)
    show "luaG_checkcode f = Inr True" using Suc(2) by simp
    show "same_code f g" by (simp add: same_code_def g f ps'_def comp_def)
  qed (simp_all add: g f dbg_def)
  have nested: "loads (load_n (length ps) (LoadFunction (nc + 1) src' :: ('r, Proto) loader)) (concat (map (enc_fun strip src) ps)) ps'"
    unfolding ps'_def using ok(13) Suc(3) by (intro loads_n ballI Suc(1)) (auto simp: list_all_iff)
  have kons: "loads (LoadConstants :: ('r, konst list) loader) (enc_list enc_konst k) k"
    unfolding LoadConstants_def using ok(5,10) by (intro loads_list) (auto simp: list_all_iff loads_konst)
  have debug: "loads (LoadDebug :: ('r, _) loader) (enc_debug strip li lv uv) dbg"
    unfolding dbg_def using ok by (intro loads_debug) auto
  have code: "loads (LoadCode :: ('r, u32 list) loader) (enc_words code) code" unfolding LoadCode_def by (rule loads_words [OF ok(4)])
  have last: "loads ((case dbg of (li, lv, uv) \<Rightarrow> let f = Proto src' ld lld nu np va ms code k ps' li lv uv in
      lbind (lift_res (luaG_checkcode f)) (\<lambda>ok. lbind (load_if (\<not> ok) ''bad code'') (\<lambda>_. lret f))) :: ('r, Proto) loader) [] g"
    unfolding Let_def case_prod_beta g [symmetric] using chk
    by (intro loads_then [OF loads_lift]) (auto simp: load_if_def intro: loads_ret loads_then [OF loads_ret])
  have bytes: "enc_fun strip q f = enc_str s @ le32 ld @ le32 lld @ [nu] @ [np] @ [va] @ [ms] @ enc_words code @ enc_list enc_konst k @
      le32 (of_nat (length ps)) @ concat (map (enc_fun strip src) ps) @ enc_debug strip li lv uv"
    by (simp add: f s_def)
  have "\<not> nc + 1 > LUAI_MAXCCALLS" using Suc(3) by simp
  then show ?case
    unfolding g_def [symmetric] bytes
    apply (subst LoadFunction.simps)
    apply (simp only: if_False)
    apply (rule loads_bind [OF loads_string [OF ok(1)]])
    apply (simp only: Let_def src')
    apply (rule loads_bind [OF loads_int [OF ok(2)]])
    apply (rule loads_bind [OF loads_int [OF ok(3)]])
    apply (rule loads_bind [OF loads_byte])+
    apply (rule loads_bind [OF code])
    apply (rule loads_bind [OF kons])
    apply (rule loads_bind [OF loads_int [OF count_word(2) [OF ok(6)]]])
    apply (simp only: count_word(1) [OF ok(6)])
    apply (rule loads_bind [OF nested])
    apply (rule loads_then [OF debug])
    apply (rule last [unfolded Let_def])
    done
qed simp

text \<open>Every function has a source, as the compiler leaves them.\<close>

fun sourced :: "Proto \<Rightarrow> bool" where
  "sourced (Proto src ld lld nu np va ms code k ps li lv uv) \<longleftrightarrow> src \<noteq> None \<and> list_all sourced ps"

lemma restored_same: "sourced f \<Longrightarrow> q = p \<or> q = None \<Longrightarrow> restored False q p f = f"
proof (induction f arbitrary: q p)
  case (Proto src ld lld nu np va ms code k ps li lv uv)
  have s: "src \<noteq> None" "list_all sourced ps" using Proto(2) by auto
  have "(if src = q \<or> False \<or> src = None then p else src) = src" using s(1) Proto(3) by auto
  moreover have "map (restored False src src) ps = ps"
    using Proto(1) s(2) by (intro map_idI) (simp add: list_all_iff)
  ultimately show ?case by (simp add: Let_def)
qed

lemma loads_header: "loads LoadHeader luaU_header ()"
  unfolding LoadHeader_def
  by (rule loads_then [OF loads_block]) (simp_all add: load_if_def loads_ret LUAC_HEADERSIZE_def luaU_header_def c_lit_def)

lemma dump_bytes: "luaU_dump f append_writer [] strip = (0, luaU_header @ enc_fun strip None f)"
proof -
  let ?D = "\<lparr>ds_writer = append_writer, ds_data = [], ds_strip = strip, ds_status = 0\<rparr>"
  have "appender ?D" by (simp add: appender_def)
  then have "DumpFunction f None (DumpHeader ?D) = app ?D (luaU_header @ enc_fun strip None f)"
    by (simp add: DumpHeader_def dump_function)
  then show ?thesis by (simp add: luaU_dump_def app_def)
qed

lemma loads_chunk:
  assumes "proto_ok d f" and "d + nc \<le> LUAI_MAXCCALLS"
  shows "loads (lbind LoadHeader (\<lambda>_. LoadFunction nc p)) (luaU_header @ enc_fun strip q f) (restored strip q p f)"
  by (rule loads_bind [OF loads_header loads_function [OF assms]])

section \<open>Loading arbitrary input\<close>

text \<open>A loader that meets no undefined behaviour, on any input, and whose results satisfy \<open>Q\<close>.\<close>

definition safe :: "('r, 'a) loader \<Rightarrow> ('a \<Rightarrow> bool) \<Rightarrow> bool" where
  "safe m Q \<longleftrightarrow> (\<forall>S bs. ready S bs \<longrightarrow> (case m S of
       Inl (Lua_error _) \<Rightarrow> True
     | Inl (Lua_undef _) \<Rightarrow> False
     | Inr (x, S') \<Rightarrow> Q x \<and> (\<exists>bs'. ready S' bs')))"

lemma safe_ret: "Q x \<Longrightarrow> safe (lret x) Q"
  by (auto simp: safe_def lret_def)

lemma safe_error: "safe (load_error why) Q"
  by (simp add: safe_def load_error_def)

lemma safe_if: "(\<not> c \<Longrightarrow> Q ()) \<Longrightarrow> safe (load_if c why) Q"
  by (simp add: load_if_def safe_error safe_ret)

lemma safe_bind:
  fixes m :: "('r, 'a) loader"
  assumes "safe m P" and "\<And>x. P x \<Longrightarrow> safe (f x) Q"
  shows "safe (lbind m f) Q"
  unfolding safe_def
proof (intro allI impI)
  fix S :: "'r LoadState" and bs
  assume "ready S bs"
  with assms(1) have m: "case m S of Inl (Lua_error _) \<Rightarrow> True | Inl (Lua_undef _) \<Rightarrow> False | Inr (x, S') \<Rightarrow> P x \<and> (\<exists>bs'. ready S' bs')"
    unfolding safe_def by blast
  show "case lbind m f S of Inl (Lua_error _) \<Rightarrow> True | Inl (Lua_undef _) \<Rightarrow> False | Inr (x, S') \<Rightarrow> Q x \<and> (\<exists>bs'. ready S' bs')"
  proof (cases "m S")
    case (Inr r)
    obtain x S1 where r: "r = (x, S1)" by (cases r)
    then obtain bs' where "P x" "ready S1 bs'" using m Inr by auto
    with assms(2) show ?thesis unfolding safe_def lbind_def Inr r by auto
  qed (use m in \<open>simp add: lbind_def split: lua_err.splits\<close>)
qed

lemma safe_block: "safe (LoadBlock n :: ('r, u8 list) loader) (\<lambda>bs. length bs = n)"
  unfolding safe_def
proof (intro allI impI)
  fix S :: "'r LoadState" and bs
  assume r: "ready S bs"
  then have z: "zstream (ls_reader S) (ls_Z S) bs" by (simp add: ready_def)
  show "case LoadBlock n S of Inl (Lua_error _) \<Rightarrow> True | Inl (Lua_undef _) \<Rightarrow> False | Inr (x, S') \<Rightarrow> length x = n \<and> (\<exists>bs'. ready S' bs')"
    using read_stream [OF z, of n] r
    by (cases "n \<le> length bs") (auto simp: LoadBlock_def lbind_def load_if_def lret_def load_error_def ready_def [abs_def])
qed

lemma safe_weaken: "safe m P \<Longrightarrow> (\<And>x. P x \<Longrightarrow> Q x) \<Longrightarrow> safe m Q"
  unfolding safe_def by (fastforce split: sum.splits lua_err.splits)

named_theorems safe_rules \<open>loaders that are safe on any input\<close>

abbreviation (input) always :: "'a \<Rightarrow> bool" where "always \<equiv> \<lambda>_. True"

lemma safe_then: "safe m P \<Longrightarrow> (\<And>x. safe (f x) Q) \<Longrightarrow> safe (lbind m f) Q"
  by (rule safe_bind)

lemma safe_basic [safe_rules]:
  "safe LoadChar always" "safe LoadByte always" "safe LoadInt always" "safe LoadNumber always" "safe (LoadVector n) always"
  unfolding LoadByte_def LoadChar_def LoadInt_def LoadNumber_def LoadVector_def Let_def
  by (intro safe_then [OF safe_block] safe_ret TrueI | (rule safe_then [where P = always], rule safe_then [OF safe_block] safe_if) | rule safe_then [where P = always] safe_if)+

lemma safe_chars [safe_rules]: "safe (load_chars n :: ('r, tstring) loader) always"
  unfolding safe_def
proof (intro allI impI)
  fix S :: "'r LoadState" and bs
  let ?S = "S\<lparr>ls_b := luaZ_openspace (ls_b S) n\<rparr>"
  assume r: "ready S bs"
  have b: "case LoadBlock n ?S of Inl (Lua_error _) \<Rightarrow> True | Inl (Lua_undef _) \<Rightarrow> False | Inr (x, S') \<Rightarrow> length x = n \<and> (\<exists>bs'. ready S' bs')"
    using safe_block openspace_ready [OF r] unfolding safe_def by blast
  show "case load_chars n S of Inl (Lua_error _) \<Rightarrow> True | Inl (Lua_undef _) \<Rightarrow> False | Inr (x, S') \<Rightarrow> always x \<and> (\<exists>bs'. ready S' bs')"
  proof (cases "LoadBlock n ?S")
    case (Inl e)
    then show ?thesis using b by (cases e) (simp_all add: load_chars_def lbind_def)
  next
    case (Inr a)
    obtain x S1 where a: "a = (x, S1)" by (cases a)
    obtain bs' where x: "length x = n" "ready S1 bs'" using b Inr a by auto
    have "n \<le> length (buffer (ls_b S1))" using LoadBlock_buffer [of n ?S x S1] Inr a openspace_ok r by (simp add: ready_def)
    from chars_through_buffer [OF x(1) this x(2)] obtain S2 where "load_chars n S = Inr (Some (take (n - 1) x), S2)" "ready S2 bs'"
      unfolding load_chars_def lbind_def [of "LoadBlock n"] Inr a sum.case prod.case by blast
    then show ?thesis by auto
  qed
qed

lemma safe_string [safe_rules]: "safe LoadString always"
  unfolding LoadString_def Let_def
  by (intro safe_then [OF safe_block]) (auto intro: safe_ret safe_chars)

lemma safe_n: "safe m Q \<Longrightarrow> safe (load_n n m) (\<lambda>xs. list_all Q xs)"
proof (induction n)
  case (Suc n)
  show ?case
    unfolding load_n.simps by (rule safe_bind [OF Suc(2)], rule safe_bind [OF Suc(1) [OF Suc(2)]]) (simp add: safe_ret)
qed (simp add: safe_ret)

lemma safe_constant [safe_rules]: "safe LoadConstant always"
  unfolding LoadConstant_def load_typed_def [abs_def]
  by (intro safe_then [OF safe_basic(1)])
    (auto intro!: safe_ret safe_error safe_then [OF safe_basic(1)] safe_then [OF safe_basic(4)] safe_then [OF safe_string])

lemma safe_locvar [safe_rules]: "safe LoadLocVar always"
  unfolding LoadLocVar_def by (intro safe_then [OF safe_string] safe_then [OF safe_basic(3)] safe_ret TrueI)

lemma safe_parts [safe_rules]: "safe LoadCode always" "safe LoadConstants always" "safe LoadDebug always"
proof -
  show "safe LoadCode always" unfolding LoadCode_def by (intro safe_then [OF safe_basic(3)] safe_basic)
  show "safe LoadConstants always"
    unfolding LoadConstants_def by (intro safe_then [OF safe_basic(3)] safe_weaken [OF safe_n [OF safe_constant]] TrueI)
  show "safe LoadDebug always"
    unfolding LoadDebug_def
    by (intro safe_then [OF safe_basic(3)] safe_then [OF safe_basic(5)] safe_then [OF safe_n [OF safe_locvar]]
      safe_then [OF safe_n [OF safe_string]] safe_ret TrueI)
qed

text \<open>Code the checker accepted, at every level.\<close>

fun accepted :: "Proto \<Rightarrow> bool" where
  "accepted (Proto src ld lld nu np va ms code k ps li lv uv) \<longleftrightarrow>
     luaG_checkcode (Proto src ld lld nu np va ms code k ps li lv uv) = Inr True \<and> list_all accepted ps"

lemma safe_check: "safe (lift_res (luaG_checkcode f)) (\<lambda>ok. luaG_checkcode f = Inr ok)"
  using checkcode_defined [of f] by (auto simp: safe_def lift_res_def)

lemma safe_accept:
  assumes "list_all accepted (p_p f)"
  shows "safe (lbind (lift_res (luaG_checkcode f)) (\<lambda>ok. lbind (load_if (\<not> ok) ''bad code'') (\<lambda>_. lret f))) accepted"
proof (rule safe_bind [OF safe_check])
  fix ok
  assume c: "luaG_checkcode f = Inr ok"
  have i: "safe (load_if (\<not> ok) ''bad code'') (\<lambda>_. ok)" by (rule safe_if) simp
  show "safe (lbind (load_if (\<not> ok) ''bad code'') (\<lambda>_. lret f)) accepted"
    using c assms by (intro safe_bind [OF i] safe_ret) (cases f, simp)
qed

lemma safe_function: "safe (LoadFunction nc p :: ('r, Proto) loader) accepted"
proof (induction "LUAI_MAXCCALLS - nc" arbitrary: nc p rule: less_induct)
  case less
  show ?case
  proof (cases "nc + 1 > LUAI_MAXCCALLS")
    case True
    then show ?thesis by (subst LoadFunction.simps) (simp add: safe_error)
  next
    case False
    have nested: "safe (LoadFunction (nc + 1) src :: ('r, Proto) loader) accepted" for src
      using False by (intro less) simp
    show ?thesis
      apply (subst LoadFunction.simps)
      apply (simp only: False if_False Let_def)
      apply (rule safe_then [OF safe_string])
      apply (rule safe_then [OF safe_basic(3)])+
      apply (rule safe_then [OF safe_basic(2)])+
      apply (rule safe_then [OF safe_parts(1)])
      apply (rule safe_then [OF safe_parts(2)])
      apply (rule safe_then [OF safe_basic(3)])
      apply (rule safe_bind [OF safe_n [OF nested]])
      apply (rule safe_then [OF safe_parts(3)])
      apply (auto split: prod.split intro!: safe_accept)
      done
  qed
qed

lemma safe_undump: "safe (lbind LoadHeader (\<lambda>_. LoadFunction nc p)) accepted"
  unfolding LoadHeader_def
  by (rule safe_then [OF safe_then [OF safe_block safe_if [where Q = always]] safe_function]) simp

text \<open>The functions inside a function.\<close>

inductive subfun :: "Proto \<Rightarrow> Proto \<Rightarrow> bool" for f where
  self: "subfun f f"
| inner: "subfun f g \<Longrightarrow> h \<in> set (p_p g) \<Longrightarrow> subfun f h"

lemma accepted_inner: "accepted f \<Longrightarrow> h \<in> set (p_p f) \<Longrightarrow> accepted h"
  by (cases f) (auto simp: list_all_iff)

lemma accepted_sub: "subfun f g \<Longrightarrow> accepted f \<Longrightarrow> accepted g"
  by (induction rule: subfun.induct) (auto dest: accepted_inner)

lemma accepted_check: "accepted f \<Longrightarrow> luaG_checkcode f = Inr True"
  by (cases f) simp

lemma undump_ready: "yields rdr dt bs \<Longrightarrow> mbuffer_ok buff \<Longrightarrow>
    ready \<lparr>ls_reader = rdr, ls_Z = luaZ_init dt, ls_b = buff, ls_name = load_name nm\<rparr> bs"
  by (simp add: ready_def zstream_init)

section \<open>An example\<close>

definition chunk_proto :: Proto where
  "chunk_proto = Proto (Some [61, 120]) 0 0 0 0 2 2 (p_code loop_proto) [K_boolean 1, K_string (Some [104, 105])] [] [1, 1, 2] [] []"

definition empty_buffer :: Mbuffer where
  "empty_buffer = \<lparr>buffer = [], mb_n = 0, buffsize = 0\<rparr>"

lemma chunk_proto_checked: "luaG_checkcode chunk_proto = Inr True"
proof -
  have "precheck chunk_proto = Inr True"
    by (simp add: precheck_def chunk_proto_def loop_proto_def MAXSTACK_def VARARG_HASARG_def VARARG_NEEDSARG_def rd_def example_opcodes nth_Cons')
  moreover have "symb_step chunk_proto 3 NO_REG 0 2 = Inr (Some (0, 2))" "symb_step chunk_proto 3 NO_REG 1 2 = Inr (Some (1, 2))"
      "symb_step chunk_proto 3 NO_REG 2 2 = Inr (Some (2, 2))"
    by (simp_all add: chunk_proto_def loop_proto_def example_eval)
  then have "symb_loop chunk_proto 3 NO_REG 0 2 = Inr (Some 2)" by (subst symb_loop.simps, simp)+
  ultimately show ?thesis
    by (simp add: luaG_checkcode_def symbexec_def chunk_proto_def) (simp add: loop_proto_def rd_def)
qed

lemma chunk_proto_ok: "proto_ok 1 chunk_proto" "sourced chunk_proto" "mbuffer_ok empty_buffer"
  using chunk_proto_checked
  by (simp_all add: chunk_proto_def loop_proto_def str_ok_def locvar_ok_def mbuffer_ok_def empty_buffer_def)

lemma dump_not_empty: "snd (luaU_dump f append_writer [] strip) \<noteq> []"
  by (simp add: dump_bytes luaU_header_def)

section \<open>Properties\<close>

text \<open>C10: A precompiled chunk survives the round trip. For a function the checker accepts, nested at most as deep as the C
  stack allows, the dump succeeds; loading its bytes, whatever the blocks the reader delivers them in, gives back the
  function: with debug information exactly the one written, and stripped the same code without debug information and with
  the default source.\<close>

theorem undump_dump:
  assumes "proto_ok d f" and "d + nCcalls \<le> LUAI_MAXCCALLS" and "mbuffer_ok buff"
    and "luaU_dump f append_writer [] strip = (ret, chunk)" and "yields rdr dt chunk"
  shows "ret = 0 \<and>
    (\<exists>S. luaU_undump rdr (luaZ_init dt) buff nCcalls nm = Inr (restored strip None (Some (c_lit ''=?'')) f, S)) \<and>
    (\<not> strip \<and> sourced f \<longrightarrow> restored strip None (Some (c_lit ''=?'')) f = f)"
proof (intro conjI)
  have d: "ret = 0" "chunk = luaU_header @ enc_fun strip None f" using assms(4) by (simp_all add: dump_bytes)
  then show "ret = 0" by simp
  have "ready \<lparr>ls_reader = rdr, ls_Z = luaZ_init dt, ls_b = buff, ls_name = load_name nm\<rparr> ((luaU_header @ enc_fun strip None f) @ [])"
    using undump_ready [OF assms(5,3)] d(2) by simp
  from loads_run [OF loads_chunk [OF assms(1,2)] this]
  show "\<exists>S. luaU_undump rdr (luaZ_init dt) buff nCcalls nm = Inr (restored strip None (Some (c_lit ''=?'')) f, S)"
    unfolding luaU_undump_def by blast
  show "\<not> strip \<and> sourced f \<longrightarrow> restored strip None (Some (c_lit ''=?'')) f = f" using restored_same [of f None] by simp
qed

text \<open>C13: Loading is safe on every input. Whatever bytes the reader delivers, \<^verbatim>\<open>luaU_undump\<close> returns a function or raises an error
  with a message; it reads and writes only inside its buffers. A function it returns, and every function inside that, has
  passed the code checker, so that as long as no \<open>LOADBOOL\<close> of it has \<open>C > 1\<close> execution stays inside its code and uses only
  constants, upvalues, functions and registers it has (\<open>TFORLOOP\<close> also slots the stack has in reserve).\<close>

theorem undump_safe:
  assumes "yields rdr dt bs" and "mbuffer_ok buff"
  shows "case luaU_undump rdr (luaZ_init dt) buff nCcalls nm of
      Inl (Lua_error msg) \<Rightarrow> True
    | Inl (Lua_undef e) \<Rightarrow> False
    | Inr (f, S) \<Rightarrow> \<forall>g. subfun f g \<longrightarrow> luaG_checkcode g = Inr True \<and>
        (loadbool_ok g \<longrightarrow> (\<forall>pc. vm_reach g pc \<longrightarrow>
           0 \<le> pc \<and> pc < sizecode g \<and> (\<exists>ss. vm_next g pc = Inr ss) \<and> operands_ok g pc))"
proof -
  have "case luaU_undump rdr (luaZ_init dt) buff nCcalls nm of
      Inl (Lua_error _) \<Rightarrow> True | Inl (Lua_undef _) \<Rightarrow> False | Inr (f, S) \<Rightarrow> accepted f \<and> (\<exists>bs'. ready S bs')"
    using safe_undump undump_ready [OF assms] unfolding luaU_undump_def safe_def by blast
  moreover have "luaG_checkcode g = Inr True \<and> (loadbool_ok g \<longrightarrow> (\<forall>pc. vm_reach g pc \<longrightarrow>
       0 \<le> pc \<and> pc < sizecode g \<and> (\<exists>ss. vm_next g pc = Inr ss) \<and> operands_ok g pc))" if "accepted f" "subfun f g" for f g
    using accepted_check [OF accepted_sub [OF that(2,1)]] checked_contained by (auto simp: good_pc_def)
  ultimately show ?thesis by (auto split: sum.splits lua_err.splits prod.splits)
qed

text \<open>C39: A truncated chunk is rejected. When the input is a proper prefix of the dump of a function, of any length, loading
  raises the error that names the chunk and says that the precompiled chunk ended unexpectedly.\<close>

theorem undump_truncated:
  assumes "proto_ok d f" and "d + nCcalls \<le> LUAI_MAXCCALLS" and "mbuffer_ok buff"
    and "luaU_dump f append_writer [] strip = (ret, chunk)" and "n < length chunk" and "yields rdr dt (take n chunk)"
  shows "luaU_undump rdr (luaZ_init dt) buff nCcalls nm =
    Inl (Lua_error (load_name nm @ c_lit '': unexpected end in precompiled chunk''))"
proof -
  let ?S = "\<lparr>ls_reader = rdr, ls_Z = luaZ_init dt, ls_b = buff, ls_name = load_name nm\<rparr>"
  have c: "chunk = luaU_header @ enc_fun strip None f" using assms(4) by (simp add: dump_bytes)
  have "lbind LoadHeader (\<lambda>_. LoadFunction nCcalls (Some (c_lit ''=?''))) ?S = Inl (truncated ?S)"
    using loads_short [OF loads_chunk [OF assms(1,2)]] undump_ready [OF assms(6,3)] assms(5) unfolding c by blast
  then show ?thesis by (simp add: luaU_undump_def c_lit_def)
qed

text \<open>Witnesses: a chunk delivered as one block, cut in two, and cut short.\<close>

theorem undump_dump_witness:
  "\<exists>S. luaU_undump list_reader (luaZ_init [snd (luaU_dump chunk_proto append_writer [] False)]) empty_buffer 0 [64, 120] = Inr (chunk_proto, S)"
proof -
  let ?c = "snd (luaU_dump chunk_proto append_writer [] False)"
  have y: "yields list_reader [?c] ?c" using list_reader_yields [of "[?c]"] dump_not_empty [of chunk_proto False] by simp
  have "1 + 0 \<le> LUAI_MAXCCALLS" by (simp add: LUAI_MAXCCALLS_def)
  from undump_dump [OF chunk_proto_ok(1) this chunk_proto_ok(3) prod.collapse [symmetric] y, of "[64, 120]"] chunk_proto_ok(2)
  show ?thesis by auto
qed

theorem undump_safe_witness:
  "case luaU_undump list_reader (luaZ_init [[0x1B, 0x4C], [0x75]]) empty_buffer 0 [] of
      Inl (Lua_error msg) \<Rightarrow> True | Inl (Lua_undef e) \<Rightarrow> False | Inr (f, S) \<Rightarrow> luaG_checkcode f = Inr True"
proof -
  have "yields list_reader [[0x1B, 0x4C], [0x75]] [0x1B, 0x4C, 0x75]" using list_reader_yields [of "[[0x1B, 0x4C], [0x75]]"] by simp
  from undump_safe [OF this chunk_proto_ok(3), of 0 "[]"] show ?thesis
    by (auto split: sum.splits lua_err.splits prod.splits intro: subfun.self)
qed

theorem undump_truncated_witness:
  "luaU_undump list_reader (luaZ_init [take 5 (snd (luaU_dump chunk_proto append_writer [] True))]) empty_buffer 0 [64, 120] =
     Inl (Lua_error ([120] @ c_lit '': unexpected end in precompiled chunk''))"
proof -
  let ?c = "snd (luaU_dump chunk_proto append_writer [] True)"
  have l: "5 < length ?c" by (simp add: dump_bytes luaU_header_def c_lit_def)
  then have "take 5 ?c \<noteq> []" by auto
  then have y: "yields list_reader [take 5 ?c] (take 5 ?c)" using list_reader_yields [of "[take 5 ?c]"] by simp
  have "1 + 0 \<le> LUAI_MAXCCALLS" by (simp add: LUAI_MAXCCALLS_def)
  from undump_truncated [OF chunk_proto_ok(1) this chunk_proto_ok(3) prod.collapse [symmetric] l y, of "[64, 120]"]
  show ?thesis by (simp add: load_name_def)
qed

end

