(* ===== verification/Lua_Tablib.thy ===== *)
theory Lua_Tablib
  imports Ax_Prelude "HOL-Library.Multiset"
begin

text \<open>
  The table library of Lua: \<^verbatim>\<open>ltablib.c\<close>. The array part of a table, as \<^verbatim>\<open>lua_rawgeti\<close> and \<^verbatim>\<open>lua_rawseti\<close> see it, is a function from
  integer keys to values, \<open>None\<close> for nil; what the code keeps on the Lua stack between two of these calls is a variable.
  The length of the table and the comparison are arguments: the length is the answer of \<^verbatim>\<open>lua_objlen\<close>, the
  comparison that of \<^verbatim>\<open>lua_lessthan\<close> or of the function the script passed. Values with text are strings of bytes.
  Indices, \<^verbatim>\<open>int\<close> in the code, are integers without a bound: \<^verbatim>\<open>ltable.c\<close> limits either part of a table to \<open>2\<^sup>2\<^sup>6\<close> entries
  (\<^verbatim>\<open>MAXBITS\<close>), so the length of a table without holes, the sum \<^verbatim>\<open>l+u\<close> of the quicksort and the position behind the last
  element stay far below \<open>2\<^sup>3\<^sup>1\<close>.
\<close>

section \<open>Tables\<close>

type_synonym 'v tab = "int \<Rightarrow> 'v option"

datatype tab_err = Sort_invalid | Wrong_arguments | Not_a_string int

section \<open>Insertion and removal\<close>

text \<open>The loops that move elements up and down.\<close>

function move_up :: "'v tab \<Rightarrow> int \<Rightarrow> int \<Rightarrow> 'v tab" where
  "move_up t i pos = (if i > pos then move_up (t(i := t (i - 1))) (i - 1) pos else t)"
  by pat_completeness auto
termination
  by (relation "measure (\<lambda>(t, i, pos). nat (i - pos))") auto

function move_down :: "'v tab \<Rightarrow> int \<Rightarrow> int \<Rightarrow> 'v tab" where
  "move_down t pos e = (if pos < e then move_down (t(pos := t (pos + 1))) (pos + 1) e else t)"
  by pat_completeness auto
termination
  by (relation "measure (\<lambda>(t, pos, e). nat (e - pos))") auto

declare move_up.simps [simp del] move_down.simps [simp del]

text \<open>\<^verbatim>\<open>table.insert\<close> of a table of length \<open>n\<close>, by the arguments after the table.\<close>

datatype 'v insert_args = Insert_end "'v option" | Insert_at int "'v option" | Insert_wrong

definition tinsert :: "'v tab \<Rightarrow> int \<Rightarrow> 'v insert_args \<Rightarrow> tab_err + 'v tab" where
  "tinsert t n args =
     (let e = n + 1 in
      case args of
        Insert_end v \<Rightarrow> Inr (t(e := v))
      | Insert_at pos v \<Rightarrow>
          let e = (if pos > e then pos else e) in Inr ((move_up t e pos)(pos := v))
      | Insert_wrong \<Rightarrow> Inl Wrong_arguments)"

text \<open>\<^verbatim>\<open>table.remove\<close>: the table after it and the value returned, if any; the position defaults to the length.\<close>

definition tremove :: "'v tab \<Rightarrow> int \<Rightarrow> int option \<Rightarrow> 'v tab \<times> 'v option option" where
  "tremove t e opos =
     (let pos = (case opos of None \<Rightarrow> e | Some p \<Rightarrow> p) in
      if \<not> (1 \<le> pos \<and> pos \<le> e) then (t, None)
      else ((move_down t pos e)(e := None), Some (t pos)))"

section \<open>Concatenation\<close>

definition addfield :: "u8 list tab \<Rightarrow> int \<Rightarrow> tab_err + u8 list" where
  "addfield t i = (case t i of None \<Rightarrow> Inl (Not_a_string i) | Some s \<Rightarrow> Inr s)"

function concat_loop :: "u8 list tab \<Rightarrow> u8 list \<Rightarrow> int \<Rightarrow> int \<Rightarrow> u8 list \<Rightarrow> tab_err + int \<times> u8 list" where
  "concat_loop t sep i lst b =
     (if i < lst then (case addfield t i of Inl e \<Rightarrow> Inl e | Inr s \<Rightarrow> concat_loop t sep (i + 1) lst (b @ s @ sep)) else Inr (i, b))"
  by pat_completeness auto
termination
  by (relation "measure (\<lambda>(t, sep, i, lst, b). nat (lst - i))") auto

declare concat_loop.simps [simp del]

definition tconcat :: "u8 list tab \<Rightarrow> int \<Rightarrow> u8 list option \<Rightarrow> int option \<Rightarrow> int option \<Rightarrow> tab_err + u8 list" where
  "tconcat t n osep oi olast =
     (let sep = (case osep of None \<Rightarrow> [] | Some s \<Rightarrow> s);
          i = (case oi of None \<Rightarrow> 1 | Some i \<Rightarrow> i);
          lst = (case olast of None \<Rightarrow> n | Some l \<Rightarrow> l) in
      case concat_loop t sep i lst [] of
        Inl e \<Rightarrow> Inl e
      | Inr (i, b) \<Rightarrow> if i = lst then (case addfield t i of Inl e \<Rightarrow> Inl e | Inr s \<Rightarrow> Inr (b @ s)) else Inr b)"

section \<open>Sorting\<close>

text \<open>\<^verbatim>\<open>set2\<close> on the two values the code read at \<open>i\<close> and \<open>j\<close> exchanges them.\<close>

definition set2 :: "'v tab \<Rightarrow> int \<Rightarrow> int \<Rightarrow> 'v tab" where
  "set2 a i j = a(i := a j, j := a i)"

text \<open>The comparison; without a function of the script it is that of the interpreter.\<close>

definition sort_comp :: "('v option \<Rightarrow> 'v option \<Rightarrow> bool) \<Rightarrow> ('v option \<Rightarrow> 'v option \<Rightarrow> bool) option \<Rightarrow> 'v option \<Rightarrow> 'v option \<Rightarrow> bool" where
  "sort_comp lessthan f a b = (case f of Some g \<Rightarrow> g a b | None \<Rightarrow> lessthan a b)"

text \<open>The order of the first, the middle and the last element.\<close>

definition sort_ends :: "('v option \<Rightarrow> 'v option \<Rightarrow> bool) \<Rightarrow> 'v tab \<Rightarrow> int \<Rightarrow> int \<Rightarrow> 'v tab" where
  "sort_ends lt a l u = (if lt (a u) (a l) then set2 a l u else a)"

definition sort_middle :: "('v option \<Rightarrow> 'v option \<Rightarrow> bool) \<Rightarrow> 'v tab \<Rightarrow> int \<Rightarrow> int \<Rightarrow> int \<Rightarrow> 'v tab" where
  "sort_middle lt a l i u =
     (if lt (a i) (a l) then set2 a i l
      else if lt (a u) (a i) then set2 a i u else a)"

text \<open>Repeat \<open>++i\<close> until \<open>a[i] >= P\<close>, and \<open>--j\<close> until \<open>a[j] <= P\<close>.\<close>

function sort_up :: "('v option \<Rightarrow> 'v option \<Rightarrow> bool) \<Rightarrow> 'v tab \<Rightarrow> 'v option \<Rightarrow> int \<Rightarrow> int \<Rightarrow> tab_err + int" where
  "sort_up lt a P u i =
     (let i = i + 1 in
      if lt (a i) P then (if i > u then Inl Sort_invalid else sort_up lt a P u i) else Inr i)"
  by pat_completeness auto
termination
  by (relation "measure (\<lambda>(lt, a, P, u, i). nat (u + 1 - i))") auto

function sort_down :: "('v option \<Rightarrow> 'v option \<Rightarrow> bool) \<Rightarrow> 'v tab \<Rightarrow> 'v option \<Rightarrow> int \<Rightarrow> int \<Rightarrow> tab_err + int" where
  "sort_down lt a P l j =
     (let j = j - 1 in
      if lt P (a j) then (if j < l then Inl Sort_invalid else sort_down lt a P l j) else Inr j)"
  by pat_completeness auto
termination
  by (relation "measure (\<lambda>(lt, a, P, l, j). nat (j - l + 1))") auto

declare sort_up.simps [simp del] sort_down.simps [simp del]

lemma sort_up_gt: "sort_up lt a P u i = Inr i' \<Longrightarrow> i < i'"
proof (induction lt a P u i rule: sort_up.induct)
  case (1 lt a P u i)
  show ?case using 1(2) 1(1) [OF refl] by (subst (asm) sort_up.simps) (force simp: Let_def split: if_splits)
qed

lemma sort_down_lt: "sort_down lt a P l j = Inr j' \<Longrightarrow> j' < j"
proof (induction lt a P l j rule: sort_down.induct)
  case (1 lt a P l j)
  show ?case using 1(2) 1(1) [OF refl] by (subst (asm) sort_down.simps) (force simp: Let_def split: if_splits)
qed

text \<open>The partition loop: the array after it and the place of the pivot.\<close>

function sort_part :: "('v option \<Rightarrow> 'v option \<Rightarrow> bool) \<Rightarrow> 'v option \<Rightarrow> int \<Rightarrow> int \<Rightarrow> 'v tab \<Rightarrow> int \<Rightarrow> int \<Rightarrow> tab_err + 'v tab \<times> int" where
  "sort_part lt P l u a i j =
     (case sort_up lt a P u i of
        Inl e \<Rightarrow> Inl e
      | Inr i' \<Rightarrow> (case sort_down lt a P l j of
            Inl e \<Rightarrow> Inl e
          | Inr j' \<Rightarrow> if j' < i' then Inr (a, i') else sort_part lt P l u (set2 a i' j') i' j'))"
  by pat_completeness auto
termination
  by (relation "measure (\<lambda>(lt, P, l, u, a, i, j). nat (j - i))") (auto dest!: sort_up_gt sort_down_lt)

declare sort_part.simps [simp del]

text \<open>One round on at least four elements: the pivot is put before the last element, the rest is partitioned, and the
  pivot goes to its place.\<close>

definition sort_round :: "('v option \<Rightarrow> 'v option \<Rightarrow> bool) \<Rightarrow> 'v tab \<Rightarrow> int \<Rightarrow> int \<Rightarrow> int \<Rightarrow> tab_err + 'v tab \<times> int" where
  "sort_round lt a l m u =
     (let P = a m; a = set2 a m (u - 1) in
      case sort_part lt P l u a l (u - 1) of
        Inl e \<Rightarrow> Inl e
      | Inr (a, i) \<Rightarrow> Inr (set2 a (u - 1) i, i))"

text \<open>\<^verbatim>\<open>auxsort\<close> calls itself for the smaller part and repeats its loop for the larger one; that it does not return is \<open>None\<close>.\<close>

partial_function (option) auxsort ::
  "('v option \<Rightarrow> 'v option \<Rightarrow> bool) \<Rightarrow> 'v tab \<Rightarrow> int \<Rightarrow> int \<Rightarrow> (tab_err + 'v tab) option" where
  "auxsort lt a l u =
     (if \<not> l < u then Some (Inr a)
      else
        let a = sort_ends lt a l u in
        if u - l = 1 then Some (Inr a)
        else
          let i = (l + u) div 2; a = sort_middle lt a l i u in
          if u - l = 2 then Some (Inr a)
          else (case sort_round lt a l i u of
              Inl e \<Rightarrow> Some (Inl e)
            | Inr (a, i) \<Rightarrow>
                if i - l < u - i then
                  Option.bind (auxsort lt a l (i - 1)) (\<lambda>r. case r of Inl e \<Rightarrow> Some (Inl e) | Inr a \<Rightarrow> auxsort lt a (i + 1) u)
                else
                  Option.bind (auxsort lt a (i + 1) u) (\<lambda>r. case r of Inl e \<Rightarrow> Some (Inl e) | Inr a \<Rightarrow> auxsort lt a l (i - 1))))"

text \<open>\<^verbatim>\<open>table.sort\<close> of a table of length \<open>n\<close>.\<close>

definition tsort :: "('v option \<Rightarrow> 'v option \<Rightarrow> bool) \<Rightarrow> ('v option \<Rightarrow> 'v option \<Rightarrow> bool) option \<Rightarrow> 'v tab \<Rightarrow> int \<Rightarrow> (tab_err + 'v tab) option" where
  "tsort lessthan f t n = auxsort (sort_comp lessthan f) t 1 n"

section \<open>Moving elements\<close>

lemma move_up_eq: "move_up t i pos = (\<lambda>k. if pos < k \<and> k \<le> i then t (k - 1) else t k)"
proof (induction t i pos rule: move_up.induct)
  case (1 t i pos)
  show ?case
  proof (cases "i > pos")
    case True
    then have "move_up t i pos = (\<lambda>k. if pos < k \<and> k \<le> i - 1 then (t(i := t (i - 1))) (k - 1) else (t(i := t (i - 1))) k)" by (subst move_up.simps) (simp only: if_True 1 [OF True])
    then show ?thesis using True by (auto simp: fun_eq_iff)
  qed (auto simp: move_up.simps fun_eq_iff)
qed

lemma move_down_eq: "move_down t pos e = (\<lambda>k. if pos \<le> k \<and> k < e then t (k + 1) else t k)"
proof (induction t pos e rule: move_down.induct)
  case (1 t pos e)
  show ?case
  proof (cases "pos < e")
    case True
    then have "move_down t pos e = (\<lambda>k. if pos + 1 \<le> k \<and> k < e then (t(pos := t (pos + 1))) (k + 1) else (t(pos := t (pos + 1))) k)" by (subst move_down.simps) (simp only: if_True 1 [OF True])
    then show ?thesis using True by (auto simp: fun_eq_iff)
  qed (auto simp: move_down.simps fun_eq_iff)
qed

text \<open>The elements \<open>1\<close> to \<open>n\<close>.\<close>

definition tab_list :: "'v tab \<Rightarrow> int \<Rightarrow> 'v option list" where
  "tab_list t n = map (\<lambda>k. t (int k + 1)) [0..<nat n]"

lemma tab_list_nth [simp]: "length (tab_list t n) = nat n" "k < nat n \<Longrightarrow> tab_list t n ! k = t (int k + 1)"
  by (simp_all add: tab_list_def)

lemma tinsert_list:
  assumes "1 \<le> pos" and "pos \<le> n + 1" and "tinsert t n (Insert_at pos v) = Inr t'"
  shows "tab_list t' (n + 1) = take (nat pos - 1) (tab_list t n) @ v # drop (nat pos - 1) (tab_list t n)"
proof (rule nth_equalityI)
  have n: "0 \<le> n" using assms(1,2) by simp
  have t': "t' = (\<lambda>k. if k = pos then v else if pos < k \<and> k \<le> n + 1 then t (k - 1) else t k)"
    using assms by (auto simp: tinsert_def Let_def move_up_eq fun_eq_iff)
  show "length (tab_list t' (n + 1)) = length (take (nat pos - 1) (tab_list t n) @ v # drop (nat pos - 1) (tab_list t n))"
    using assms(1,2) n by (simp add: nat_add_distrib)
  fix k
  assume "k < length (tab_list t' (n + 1))"
  then have k: "k < nat (n + 1)" by simp
  have prev: "t (int k) = tab_list t n ! (k - 1)" if "0 < k" "int k \<le> n"
    using tab_list_nth(2) [of "k - 1" n t] that by (simp add: of_nat_diff)
  consider "int k + 1 < pos" | "int k + 1 = pos" | "pos < int k + 1" by linarith
  then show "tab_list t' (n + 1) ! k = (take (nat pos - 1) (tab_list t n) @ v # drop (nat pos - 1) (tab_list t n)) ! k"
  proof cases
    case 3
    then have e: "tab_list t n ! (k - Suc 0) = t (int k)" using prev k assms(1) by simp
    have "int k \<le> n" using k by linarith
    then have "tab_list t' (n + 1) ! k = t (int k)" using 3 k by (simp add: t')
    moreover have "min (nat n) (nat pos - 1) = nat pos - 1" "nat pos - 1 < k" using 3 k assms(1) by auto
    then have "(take (nat pos - 1) (tab_list t n) @ v # drop (nat pos - 1) (tab_list t n)) ! k = tab_list t n ! (k - Suc 0)"
      using k by (simp add: nth_append nth_Cons' del: tab_list_nth(2))
    ultimately show ?thesis using e by simp
  qed (use k assms(1,2) n in \<open>auto simp: t' nth_append min_def nth_Cons'\<close>)
qed

section \<open>Orders and permutations\<close>

text \<open>A strict weak order on a set of values: what a valid comparison has to be on the elements.\<close>

definition order_on :: "'v set \<Rightarrow> ('v \<Rightarrow> 'v \<Rightarrow> bool) \<Rightarrow> bool" where
  "order_on S lt \<longleftrightarrow> (\<forall>x \<in> S. \<forall>y \<in> S. lt x y \<longrightarrow> \<not> lt y x) \<and> (\<forall>x \<in> S. \<forall>y \<in> S. \<forall>z \<in> S. lt x z \<longrightarrow> lt x y \<or> lt y z)"

lemma order_asym: "order_on S lt \<Longrightarrow> x \<in> S \<Longrightarrow> y \<in> S \<Longrightarrow> lt x y \<Longrightarrow> \<not> lt y x"
  by (auto simp: order_on_def)

lemma order_on_subset:
  assumes "S \<subseteq> T" and "order_on T lt"
  shows "order_on S lt"
proof -
  have i: "x \<in> T" if "x \<in> S" for x using assms(1) that by blast
  have "lt x y \<longrightarrow> \<not> lt y x" if "x \<in> S" "y \<in> S" for x y
    using assms(2) i [OF that(1)] i [OF that(2)] by (simp add: order_on_def)
  moreover have "lt x z \<longrightarrow> lt x y \<or> lt y z" if "x \<in> S" "y \<in> S" "z \<in> S" for x y z
    using assms(2) i [OF that(1)] i [OF that(2)] i [OF that(3)] unfolding order_on_def by blast
  ultimately show ?thesis by (simp add: order_on_def)
qed

lemma order_trans_le: "order_on S lt \<Longrightarrow> x \<in> S \<Longrightarrow> y \<in> S \<Longrightarrow> z \<in> S \<Longrightarrow> \<not> lt y x \<Longrightarrow> \<not> lt z y \<Longrightarrow> \<not> lt z x"
  unfolding order_on_def by blast

definition smset :: "'v tab \<Rightarrow> int \<Rightarrow> int \<Rightarrow> 'v option multiset" where
  "smset a l u = image_mset a (mset_set {l..u})"

text \<open>The elements outside \<open>[l..u]\<close> are as before and those inside permuted.\<close>

definition permuted :: "'v tab \<Rightarrow> 'v tab \<Rightarrow> int \<Rightarrow> int \<Rightarrow> bool" where
  "permuted a a' l u \<longleftrightarrow> smset a' l u = smset a l u \<and> (\<forall>k. k < l \<or> u < k \<longrightarrow> a' k = a k)"

lemma permuted_refl [simp]: "permuted a a l u"
  by (simp add: permuted_def)

lemma permuted_trans: "permuted a b l u \<Longrightarrow> permuted b c l u \<Longrightarrow> permuted a c l u"
  by (simp add: permuted_def)

lemma permuted_image: "permuted a a' l u \<Longrightarrow> a' ` {l..u} = a ` {l..u}"
  unfolding permuted_def smset_def by (metis finite_atLeastAtMost_int finite_set_mset_mset_set set_image_mset)

lemma permuted_set2:
  assumes "l \<le> i" "i \<le> u" "l \<le> j" "j \<le> u"
  shows "permuted a (set2 a i j) l u"
proof (cases "i = j")
  case False
  have s: "{l..u} = insert i (insert j ({l..u} - {i, j}))" using assms by auto
  have "image_mset f (mset_set {l..u}) = add_mset (f i) (add_mset (f j) (image_mset f (mset_set ({l..u} - {i, j}))))" for f :: "int \<Rightarrow> 'a option"
    by (subst s) (simp add: False)
  moreover have "image_mset (set2 a i j) (mset_set ({l..u} - {i, j})) = image_mset a (mset_set ({l..u} - {i, j}))"
    by (intro image_mset_cong) (auto simp: set2_def)
  ultimately have "smset (set2 a i j) l u = smset a l u" using False by (simp add: smset_def set2_def add_mset_commute)
  then show ?thesis using assms by (auto simp: permuted_def set2_def)
qed (simp add: set2_def)

lemma permuted_inner:
  assumes "permuted a a' l' u'" and "l \<le> l'" and "u' \<le> u"
  shows "permuted a a' l u"
proof -
  have s: "{l..u} = {l'..u'} \<union> ({l..u} - {l'..u'})" using assms(2,3) by auto
  have "image_mset f (mset_set {l..u}) = image_mset f (mset_set {l'..u'}) + image_mset f (mset_set ({l..u} - {l'..u'}))" for f :: "int \<Rightarrow> 'a option"
    by (subst s, subst mset_set_Union) auto
  moreover have "image_mset a' (mset_set ({l..u} - {l'..u'})) = image_mset a (mset_set ({l..u} - {l'..u'}))"
    using assms(1) by (intro image_mset_cong) (auto simp: permuted_def)
  ultimately show ?thesis using assms by (auto simp: permuted_def smset_def)
qed

section \<open>Partition\<close>

lemma sort_up_ok:
  assumes "i < m" and "m \<le> u" and "\<not> lt (a m) P"
  shows "\<exists>i'. sort_up lt a P u i = Inr i' \<and> i < i' \<and> i' \<le> m \<and> \<not> lt (a i') P \<and> (\<forall>k. i < k \<and> k < i' \<longrightarrow> lt (a k) P)"
  using assms
proof (induction lt a P u i rule: sort_up.induct)
  case (1 lt a P u i)
  show ?case
  proof (cases "lt (a (i + 1)) P")
    case True
    then have ne: "i + 1 < m" using 1(2,4) by (cases "i + 1 = m") auto
    then have nu: "\<not> i + 1 > u" using 1(3) by simp
    obtain i' where i': "sort_up lt a P u (i + 1) = Inr i'" "i + 1 < i'" "i' \<le> m" "\<not> lt (a i') P" "\<forall>k. i + 1 < k \<and> k < i' \<longrightarrow> lt (a k) P"
      using 1(1) [OF refl True nu ne 1(3,4)] by blast
    have "\<forall>k. i < k \<and> k < i' \<longrightarrow> lt (a k) P" using i'(5) True by (metis zless_add1_eq linorder_not_less add1_zle_eq order_le_less)
    then show ?thesis using i' True nu by (subst sort_up.simps) (auto simp: Let_def)
  next
    case False
    then show ?thesis using 1(2) by (subst sort_up.simps) (auto simp: Let_def)
  qed
qed

lemma sort_down_ok:
  assumes "m < j" and "l \<le> m" and "\<not> lt P (a m)"
  shows "\<exists>j'. sort_down lt a P l j = Inr j' \<and> j' < j \<and> m \<le> j' \<and> \<not> lt P (a j') \<and> (\<forall>k. j' < k \<and> k < j \<longrightarrow> lt P (a k))"
  using assms
proof (induction lt a P l j rule: sort_down.induct)
  case (1 lt a P l j)
  show ?case
  proof (cases "lt P (a (j - 1))")
    case True
    then have ne: "m < j - 1" using 1(2,4) by (cases "j - 1 = m") auto
    then have nl: "\<not> j - 1 < l" using 1(3) by simp
    obtain j' where j': "sort_down lt a P l (j - 1) = Inr j'" "j' < j - 1" "m \<le> j'" "\<not> lt P (a j')" "\<forall>k. j' < k \<and> k < j - 1 \<longrightarrow> lt P (a k)"
      using 1(1) [OF refl True nl ne 1(3,4)] by blast
    have "\<forall>k. j' < k \<and> k < j \<longrightarrow> lt P (a k)"
    proof (intro allI impI)
      fix k
      assume "j' < k \<and> k < j"
      then show "lt P (a k)" using j'(5) True by (cases "k = j - 1") auto
    qed
    then show ?thesis using j' True nl by (subst sort_down.simps) (auto simp: Let_def)
  next
    case False
    then show ?thesis using 1(2) by (subst sort_down.simps) (auto simp: Let_def)
  qed
qed

text \<open>The invariant of the partition loop: \<open>a[l..i] <= P <= a[j..u]\<close>, with the pivot before the last element.\<close>

definition part_inv :: "('v option \<Rightarrow> 'v option \<Rightarrow> bool) \<Rightarrow> 'v option \<Rightarrow> int \<Rightarrow> int \<Rightarrow> 'v tab \<Rightarrow> int \<Rightarrow> int \<Rightarrow> bool" where
  "part_inv lt P l u a i j \<longleftrightarrow> l \<le> i \<and> i \<le> j \<and> j \<le> u - 1 \<and> (i = j \<longrightarrow> l < i \<and> j < u - 1) \<and> a (u - 1) = P \<and>
     order_on (a ` {l..u}) lt \<and> (\<forall>k. l \<le> k \<and> k \<le> i \<longrightarrow> \<not> lt P (a k)) \<and> (\<forall>k. j \<le> k \<and> k \<le> u \<longrightarrow> \<not> lt (a k) P)"

lemma sort_part_ok:
  assumes "part_inv lt P l u a i j"
  shows "\<exists>a' i'. sort_part lt P l u a i j = Inr (a', i') \<and> permuted a a' l u \<and> a' (u - 1) = P \<and> l < i' \<and> i' \<le> u - 1 \<and>
    (\<forall>k. l \<le> k \<and> k < i' \<longrightarrow> \<not> lt P (a' k)) \<and> (\<forall>k. i' \<le> k \<and> k \<le> u \<longrightarrow> \<not> lt (a' k) P)"
  using assms
proof (induction lt P l u a i j rule: sort_part.induct)
  case (1 lt P l u a i j)
  note inv = 1(2) [unfolded part_inv_def]
  have inS: "l \<le> k \<Longrightarrow> k \<le> u \<Longrightarrow> a k \<in> a ` {l..u}" for k by simp
  have lu: "l < u - 1" "i < u - 1" "l < j" using inv by auto
  have ord: "order_on (a ` {l..u}) lt" using inv by simp
  have PS: "P \<in> a ` {l..u}" using inv inS [of "u - 1"] lu by auto
  have irr: "\<not> lt (a (u - 1)) P" using inv PS order_asym [OF ord, of P P] by auto
  obtain i' where i': "sort_up lt a P u i = Inr i'" "i < i'" "i' \<le> u - 1" "\<not> lt (a i') P" "\<forall>k. i < k \<and> k < i' \<longrightarrow> lt (a k) P"
    using sort_up_ok [of i "u - 1" u lt a P] lu irr by auto
  have "\<not> lt P (a l)" using inv by simp
  then obtain j' where j': "sort_down lt a P l j = Inr j'" "j' < j" "l \<le> j'" "\<not> lt P (a j')" "\<forall>k. j' < k \<and> k < j \<longrightarrow> lt P (a k)"
    using sort_down_ok [of l j l lt P a] lu by auto
  have low: "\<not> lt P (a k)" if "l \<le> k" "k < i'" for k
  proof (cases "k \<le> i")
    case False
    then have "lt (a k) P" using i'(5) that by simp
    then show ?thesis using order_asym [OF ord inS PS] that i'(3) by auto
  qed (use inv that in simp)
  have high: "\<not> lt (a k) P" if "j' < k" "k \<le> u" for k
  proof (cases "j \<le> k")
    case False
    then have "lt P (a k)" using j'(5) that by simp
    then show ?thesis using order_asym [OF ord PS inS] that j'(3) by auto
  qed (use inv that in simp)
  show ?case
  proof (cases "j' < i'")
    case True
    then show ?thesis using i' j' low high inv by (subst sort_part.simps) auto
  next
    case False
    define b where "b = set2 a i' j'"
    have bk: "b k = (if k = j' then a i' else if k = i' then a j' else a k)" for k by (simp add: b_def set2_def)
    have perm: "permuted a b l u" unfolding b_def using inv i' j' by (intro permuted_set2) auto
    have "part_inv lt P l u b i' j'"
      unfolding part_inv_def permuted_image [OF perm]
      using False inv i' j' low high by (auto simp: bk)
    then obtain a' i'' where a': "sort_part lt P l u b i' j' = Inr (a', i'')" "permuted b a' l u" "a' (u - 1) = P" "l < i''" "i'' \<le> u - 1"
        "\<forall>k. l \<le> k \<and> k < i'' \<longrightarrow> \<not> lt P (a' k)" "\<forall>k. i'' \<le> k \<and> k \<le> u \<longrightarrow> \<not> lt (a' k) P"
      using 1(1) [OF i'(1) j'(1) False, folded b_def] by blast
    then show ?thesis using i'(1) j'(1) False permuted_trans [OF perm a'(2)] by (subst sort_part.simps) (auto simp: b_def)
  qed
qed

section \<open>Sorting\<close>

definition sorted_seg :: "('v option \<Rightarrow> 'v option \<Rightarrow> bool) \<Rightarrow> 'v tab \<Rightarrow> int \<Rightarrow> int \<Rightarrow> bool" where
  "sorted_seg lt a l u \<longleftrightarrow> (\<forall>i j. l \<le> i \<and> i < j \<and> j \<le> u \<longrightarrow> \<not> lt (a j) (a i))"

lemma set2_at [simp]: "set2 a i j i = a j" "set2 a i j j = a i" "k \<noteq> i \<Longrightarrow> k \<noteq> j \<Longrightarrow> set2 a i j k = a k"
  by (simp_all add: set2_def)

lemma sort_ends_ok:
  assumes "order_on (a ` {l..u}) lt" and "l < u"
  shows "permuted a (sort_ends lt a l u) l u \<and> \<not> lt (sort_ends lt a l u u) (sort_ends lt a l u l)"
proof -
  have "lt (a u) (a l) \<Longrightarrow> \<not> lt (a l) (a u)" using order_asym [OF assms(1), of "a u" "a l"] assms(2) by simp
  then show ?thesis using assms(2) by (auto simp: sort_ends_def intro: permuted_set2)
qed

lemma sort_middle_ok:
  assumes ord: "order_on (a ` {l..u}) lt" and "l < i" and "i < u" and le: "\<not> lt (a u) (a l)" and b: "b = sort_middle lt a l i u"
  shows "permuted a b l u \<and> \<not> lt (b i) (b l) \<and> \<not> lt (b u) (b i)"
proof -
  have S: "a l \<in> a ` {l..u}" "a i \<in> a ` {l..u}" "a u \<in> a ` {l..u}" using assms(2,3) by auto
  have x: "lt (a i) (a l) \<Longrightarrow> \<not> lt (a l) (a i)" "lt (a u) (a i) \<Longrightarrow> \<not> lt (a i) (a u)"
    using order_asym [OF ord S(2,1)] order_asym [OF ord S(3,2)] by auto
  have p: "permuted a (set2 a i l) l u" "permuted a (set2 a i u) l u" using assms(2,3) by (auto intro: permuted_set2)
  show ?thesis
    unfolding b sort_middle_def using assms(2,3) le x p by auto
qed

lemma sort_round_ok:
  assumes ord: "order_on (a ` {l..u}) lt" and "l < m" and "m < u - 1" and le: "\<not> lt (a m) (a l)" "\<not> lt (a u) (a m)"
  shows "\<exists>b i. sort_round lt a l m u = Inr (b, i) \<and> permuted a b l u \<and> l < i \<and> i < u \<and>
    (\<forall>k. l \<le> k \<and> k < i \<longrightarrow> \<not> lt (b i) (b k)) \<and> (\<forall>k. i < k \<and> k \<le> u \<longrightarrow> \<not> lt (b k) (b i))"
proof -
  define a1 where "a1 = set2 a m (u - 1)"
  have p1: "permuted a a1 l u" unfolding a1_def using assms(2,3) by (intro permuted_set2) auto
  have k1: "a1 l = a l" "a1 u = a u" "a1 (u - 1) = a m" using assms(2,3) by (auto simp: a1_def)
  have irr: "\<not> lt (a m) (a m)" using order_asym [OF ord, of "a m" "a m"] assms(2,3) by auto
  have "part_inv lt (a m) l u a1 l (u - 1)"
    unfolding part_inv_def permuted_image [OF p1]
  proof (intro conjI allI impI)
    fix k
    assume "u - 1 \<le> k \<and> k \<le> u"
    then have "k = u - 1 \<or> k = u" by auto
    then show "\<not> lt (a1 k) (a m)" using k1 le(2) irr by auto
  qed (use assms k1 in auto)
  then obtain a2 i where a2: "sort_part lt (a m) l u a1 l (u - 1) = Inr (a2, i)" "permuted a1 a2 l u" "a2 (u - 1) = a m" "l < i" "i \<le> u - 1"
      "\<forall>k. l \<le> k \<and> k < i \<longrightarrow> \<not> lt (a m) (a2 k)" "\<forall>k. i \<le> k \<and> k \<le> u \<longrightarrow> \<not> lt (a2 k) (a m)"
    using sort_part_ok by blast
  define b where "b = set2 a2 (u - 1) i"
  have bk: "b k = (if k = i then a m else if k = u - 1 then a2 i else a2 k)" for k using a2(3) by (simp add: b_def set2_def)
  have "permuted a2 b l u" unfolding b_def using a2(4,5) by (intro permuted_set2) auto
  then have "permuted a b l u" using permuted_trans [OF permuted_trans [OF p1 a2(2)]] by blast
  moreover have "sort_round lt a l m u = Inr (b, i)" using a2(1) by (simp add: sort_round_def a1_def b_def)
  moreover have "\<forall>k. l \<le> k \<and> k < i \<longrightarrow> \<not> lt (b i) (b k)" "\<forall>k. i < k \<and> k \<le> u \<longrightarrow> \<not> lt (b k) (b i)"
    using a2(4-7) by (auto simp: bk)
  ultimately show ?thesis using a2(4,5) by (intro exI [of _ b] exI [of _ i]) simp
qed

text \<open>Two sorted parts around a pivot.\<close>

lemma sorted_join:
  assumes ord: "order_on (b ` {l..u}) lt" and "l < i" "i < u"
    and low: "\<forall>k. l \<le> k \<and> k < i \<longrightarrow> \<not> lt (b i) (b k)" and high: "\<forall>k. i < k \<and> k \<le> u \<longrightarrow> \<not> lt (b k) (b i)"
    and p: "permuted b c l (i - 1)" "permuted c d (i + 1) u" and s: "sorted_seg lt c l (i - 1)" "sorted_seg lt d (i + 1) u"
  shows "permuted b d l u \<and> sorted_seg lt d l u"
proof
  show perm: "permuted b d l u"
    using permuted_inner [OF p(1), of l u] permuted_inner [OF p(2), of l u] assms(2,3) permuted_trans by fastforce
  have di: "d i = b i" using p assms(2,3) by (simp add: permuted_def)
  have dl: "d k = c k" if "k \<le> i" for k using p(2) that by (simp add: permuted_def)
  have "c ` {l..i - 1} = b ` {l..i - 1}" using permuted_image [OF p(1)] .
  then have L: "\<not> lt (d i) (d k)" if "l \<le> k" "k < i" for k
  proof -
    have "c k \<in> c ` {l..i - 1}" using that by simp
    then obtain k' where "l \<le> k'" "k' < i" "c k = b k'" using \<open>c ` {l..i - 1} = b ` {l..i - 1}\<close> by auto
    then show ?thesis using low di dl [of k] that by simp
  qed
  have "d ` {i + 1..u} = b ` {i + 1..u}"
  proof -
    have "c ` {i + 1..u} = b ` {i + 1..u}" using p(1) by (intro image_cong) (auto simp: permuted_def)
    then show ?thesis using permuted_image [OF p(2)] by simp
  qed
  then have H: "\<not> lt (d k) (d i)" if "i < k" "k \<le> u" for k
  proof -
    have "d k \<in> d ` {i + 1..u}" using that by simp
    then obtain k' where "k' \<in> {i + 1..u}" "d k = b k'" using \<open>d ` {i + 1..u} = b ` {i + 1..u}\<close> by (metis imageE)
    then show ?thesis using high di by simp
  qed
  have ordd: "order_on (d ` {l..u}) lt" using ord permuted_image [OF perm] by simp
  show "sorted_seg lt d l u"
    unfolding sorted_seg_def
  proof (intro allI impI)
    fix x y
    assume xy: "l \<le> x \<and> x < y \<and> y \<le> u"
    consider "y < i" | "i < x" | "x \<le> i" "i \<le> y" by linarith
    then show "\<not> lt (d y) (d x)"
    proof cases
      case 1
      then show ?thesis using s(1) xy dl by (simp add: sorted_seg_def)
    next
      case 2
      then show ?thesis using s(2) xy by (simp add: sorted_seg_def)
    next
      case 3
      have "\<not> lt (d i) (d x)" if "x \<noteq> i" using L [of x] that 3 xy by simp
      moreover have "\<not> lt (d y) (d i)" if "y \<noteq> i" using H [of y] that 3 xy by simp
      moreover have "d x \<in> d ` {l..u}" "d y \<in> d ` {l..u}" "d i \<in> d ` {l..u}" using xy assms(2,3) by auto
      ultimately show ?thesis using order_trans_le [OF ordd, of "d x" "d i" "d y"] xy by (cases "x = i"; cases "y = i") auto
    qed
  qed
qed

lemma sorted_parts:
  assumes "order_on (b ` {l..u}) lt" and "l < i" "i < u"
    and "\<forall>k. l \<le> k \<and> k < i \<longrightarrow> \<not> lt (b i) (b k)" and "\<forall>k. i < k \<and> k \<le> u \<longrightarrow> \<not> lt (b k) (b i)"
    and m: "smset d l (i - 1) = smset b l (i - 1)" "smset d (i + 1) u = smset b (i + 1) u" and o: "\<forall>k. k < l \<or> u < k \<or> k = i \<longrightarrow> d k = b k"
    and s: "sorted_seg lt d l (i - 1)" "sorted_seg lt d (i + 1) u"
  shows "permuted b d l u \<and> sorted_seg lt d l u"
proof -
  define c where "c = (\<lambda>k. if k \<le> i then d k else b k)"
  have "smset c l (i - 1) = smset d l (i - 1)" "smset c (i + 1) u = smset b (i + 1) u"
    unfolding smset_def by (intro image_mset_cong; auto simp: c_def)+
  moreover have "c k = b k" if "k < l \<or> i - 1 < k" for k using o that assms(2) by (cases "k = i") (auto simp: c_def)
  moreover have "d k = c k" if "k < i + 1 \<or> u < k" for k using o that assms(3) by (auto simp: c_def)
  ultimately have "permuted b c l (i - 1)" "permuted c d (i + 1) u" using m by (simp_all add: permuted_def)
  moreover have "sorted_seg lt c l (i - 1)" using s(1) by (simp add: sorted_seg_def c_def)
  ultimately show ?thesis using sorted_join [OF assms(1-5)] s(2) by blast
qed

lemma sorted_two: "\<not> lt (a (l + 1)) (a l) \<Longrightarrow> sorted_seg lt a l (l + 1)"
proof -
  assume h: "\<not> lt (a (l + 1)) (a l)"
  have "i = l \<and> j = l + 1" if "l \<le> i \<and> i < j \<and> j \<le> l + 1" for i j using that by linarith
  then show ?thesis using h unfolding sorted_seg_def by blast
qed

lemma sorted_three:
  assumes "\<not> lt (a (l + 1)) (a l)" "\<not> lt (a (l + 2)) (a (l + 1))" "\<not> lt (a (l + 2)) (a l)"
  shows "sorted_seg lt a l (l + 2)"
proof -
  have "i = l \<and> j = l + 1 \<or> i = l \<and> j = l + 2 \<or> i = l + 1 \<and> j = l + 2" if "l \<le> i \<and> i < j \<and> j \<le> l + 2" for i j using that by linarith
  then show ?thesis using assms unfolding sorted_seg_def by blast
qed

lemma auxsort_ok:
  "order_on (a ` {l..u}) lt \<Longrightarrow> \<exists>b. auxsort lt a l u = Some (Inr b) \<and> permuted a b l u \<and> sorted_seg lt b l u"
proof (induction "nat (u - l)" arbitrary: a l u rule: less_induct)
  case less
  note ord = less(2)
  show ?case
  proof (cases "l < u")
    case False
    then show ?thesis by (subst auxsort.simps) (auto simp: sorted_seg_def)
  next
    case lu: True
    define a1 where "a1 = sort_ends lt a l u"
    have a1: "permuted a a1 l u" "\<not> lt (a1 u) (a1 l)" using sort_ends_ok [OF ord lu] by (simp_all add: a1_def)
    show ?thesis
    proof (cases "u - l = 1")
      case True
      then have u: "u = l + 1" by simp
      have "sorted_seg lt a1 l u" using a1(2) unfolding u by (rule sorted_two)
      then show ?thesis using lu True a1(1) by (subst auxsort.simps) (auto simp: Let_def a1_def)
    next
      case n1: False
      define m where "m = (l + u) div 2"
      have m: "l < m" "m < u" using lu n1 by (auto simp: m_def)
      define a2 where "a2 = sort_middle lt a1 l m u"
      have ord1: "order_on (a1 ` {l..u}) lt" using ord permuted_image [OF a1(1)] by simp
      have a2: "permuted a1 a2 l u" "\<not> lt (a2 m) (a2 l)" "\<not> lt (a2 u) (a2 m)" using sort_middle_ok [OF ord1 m a1(2) a2_def] by auto
      have p2: "permuted a a2 l u" using permuted_trans [OF a1(1) a2(1)] .
      have ord2: "order_on (a2 ` {l..u}) lt" using ord permuted_image [OF p2] by simp
      show ?thesis
      proof (cases "u - l = 2")
        case True
        then have e: "m = l + 1" "u = l + 2" by (auto simp: m_def)
        have "\<not> lt (a2 u) (a2 l)" using order_trans_le [OF ord2, of "a2 l" "a2 m" "a2 u"] a2(2,3) m by auto
        then have "sorted_seg lt a2 l u" using a2(2,3) unfolding e by (intro sorted_three)
        then show ?thesis using lu n1 True p2 by (subst auxsort.simps) (auto simp: Let_def a1_def a2_def m_def)
      next
        case n2: False
        have mu: "m < u - 1" using lu n1 n2 by (auto simp: m_def)
        obtain b i where b: "sort_round lt a2 l m u = Inr (b, i)" "permuted a2 b l u" "l < i" "i < u"
            "\<forall>k. l \<le> k \<and> k < i \<longrightarrow> \<not> lt (b i) (b k)" "\<forall>k. i < k \<and> k \<le> u \<longrightarrow> \<not> lt (b k) (b i)"
          using sort_round_ok [OF ord2 m(1) mu a2(2,3)] by blast
        have pb: "permuted a b l u" using permuted_trans [OF p2 b(2)] .
        have ordb: "order_on (b ` {l..u}) lt" using ord permuted_image [OF pb] by simp
        have sub: "order_on (c ` {x..y}) lt" if "permuted b c l u" "l \<le> x" "y \<le> u" for c x y
        proof -
          have "c ` {x..y} \<subseteq> b ` {l..u}" using permuted_image [OF that(1)] that(2,3) by (metis atLeastatMost_subset_iff image_mono)
          then show ?thesis using ordb by (rule order_on_subset)
        qed
        have unf: "auxsort lt a l u = (if i - l < u - i
            then Option.bind (auxsort lt b l (i - 1)) (\<lambda>r. case r of Inl e \<Rightarrow> Some (Inl e) | Inr a \<Rightarrow> auxsort lt a (i + 1) u)
            else Option.bind (auxsort lt b (i + 1) u) (\<lambda>r. case r of Inl e \<Rightarrow> Some (Inl e) | Inr a \<Rightarrow> auxsort lt a l (i - 1)))"
          using lu n1 n2 b(1) by (subst auxsort.simps) (simp add: Let_def a1_def a2_def m_def)
        have n: "nat (i - 1 - l) < nat (u - l)" "nat (u - (i + 1)) < nat (u - l)" and le: "i - 1 \<le> u" "l \<le> i + 1" using b(3,4) by auto
        show ?thesis
        proof (cases "i - l < u - i")
          case True
          obtain c where c: "auxsort lt b l (i - 1) = Some (Inr c)" "permuted b c l (i - 1)" "sorted_seg lt c l (i - 1)"
            using less(1) [OF n(1) sub [OF permuted_refl order_refl le(1)]] by blast
          have bc: "permuted b c l u" using permuted_inner [OF c(2)] b(4) by simp
          obtain d where d: "auxsort lt c (i + 1) u = Some (Inr d)" "permuted c d (i + 1) u" "sorted_seg lt d (i + 1) u"
            using less(1) [OF n(2) sub [OF bc le(2) order_refl]] by blast
          have "permuted b d l u \<and> sorted_seg lt d l u"
            using sorted_join [OF ordb b(3-6) c(2) d(2) c(3) d(3)] .
          then show ?thesis using unf True c(1) d(1) permuted_trans [OF pb] by auto
        next
          case False
          obtain c where c: "auxsort lt b (i + 1) u = Some (Inr c)" "permuted b c (i + 1) u" "sorted_seg lt c (i + 1) u"
            using less(1) [OF n(2) sub [OF permuted_refl le(2) order_refl]] by blast
          have bc: "permuted b c l u" using permuted_inner [OF c(2)] b(3) by simp
          obtain d where d: "auxsort lt c l (i - 1) = Some (Inr d)" "permuted c d l (i - 1)" "sorted_seg lt d l (i - 1)"
            using less(1) [OF n(1) sub [OF bc order_refl le(1)]] by blast
          have "smset c l (i - 1) = smset b l (i - 1)" "smset d (i + 1) u = smset c (i + 1) u"
            unfolding smset_def using c(2) d(2) by (intro image_mset_cong; auto simp: permuted_def)+
          then have "permuted b d l u \<and> sorted_seg lt d l u"
            using c d b(3,4) by (intro sorted_parts [OF ordb b(3-6)]) (auto simp: permuted_def sorted_seg_def)
          then show ?thesis using unf False c(1) d(1) permuted_trans [OF pb] by auto
        qed
      qed
    qed
  qed
qed

lemma smset_list: "mset (tab_list t n) = smset t 1 n"
proof -
  have inj: "inj_on (\<lambda>k. int k + 1) {0..<nat n}" by (simp add: inj_on_def)
  have "(\<lambda>k. int k + 1) ` {0..<nat n} = {1..n}"
  proof
    show "{1..n} \<subseteq> (\<lambda>k. int k + 1) ` {0..<nat n}"
      by (rule subsetI, rule image_eqI [where x = "nat (_ - 1)"]) auto
  qed auto
  then have "mset_set {1..n} = image_mset (\<lambda>k. int k + 1) (mset_set {0..<nat n})"
    using image_mset_mset_set [OF inj] by simp
  moreover have "mset [0..<nat n] = mset_set {0..<nat n}" by (metis atLeastLessThan_upt distinct_upt mset_set_set)
  ultimately show ?thesis by (simp add: smset_def tab_list_def image_mset.compositionality comp_def mset_map)
qed

lemma sorted_seg_list: "sorted_seg lt t 1 n \<Longrightarrow> sorted_wrt (\<lambda>x y. \<not> lt y x) (tab_list t n)"
  by (auto simp: sorted_wrt_iff_nth_less sorted_seg_def)

section \<open>Concatenated strings\<close>

text \<open>The strings with the separator between them.\<close>

fun join :: "u8 list \<Rightarrow> u8 list list \<Rightarrow> u8 list" where
  "join sep [] = []"
| "join sep [s] = s"
| "join sep (s # ss) = s @ sep @ join sep ss"

lemma join_Cons: "ss \<noteq> [] \<Longrightarrow> join sep (s # ss) = s @ sep @ join sep ss"
  by (cases ss) simp_all

lemma concat_loop_ok:
  assumes "\<And>k. i \<le> k \<Longrightarrow> k < lst \<Longrightarrow> t k = Some (f k)" and "i \<le> lst"
  shows "concat_loop t sep i lst b = Inr (lst, b @ concat (map (\<lambda>k. f (i + int k) @ sep) [0..<nat (lst - i)]))"
  using assms
proof (induction t sep i lst b rule: concat_loop.induct)
  case (1 t sep i lst b)
  show ?case
  proof (cases "i < lst")
    case True
    then have a: "addfield t i = Inr (f i)" using 1(2) [of i] by (simp add: addfield_def)
    have n: "nat (lst - i) = Suc (nat (lst - (i + 1)))" using True by simp
    have "concat_loop t sep (i + 1) lst (b @ f i @ sep) =
        Inr (lst, (b @ f i @ sep) @ concat (map (\<lambda>k. f (i + 1 + int k) @ sep) [0..<nat (lst - (i + 1))]))"
      using 1(2) True by (intro 1(1) [OF True a]) auto
    moreover have "map (\<lambda>k. f (i + int k) @ sep) [0..<nat (lst - i)] =
        (f i @ sep) # map (\<lambda>k. f (i + 1 + int k) @ sep) [0..<nat (lst - (i + 1))]"
      unfolding n by (simp add: upt_conv_Cons map_Suc_upt [symmetric] comp_def del: upt_Suc) (simp add: algebra_simps)
    ultimately show ?thesis using True a by (subst concat_loop.simps) simp
  next
    case False
    then show ?thesis using 1(3) by (subst concat_loop.simps) simp
  qed
qed

lemma join_map: "0 < n \<Longrightarrow> join sep (map g [0..<n]) = concat (map (\<lambda>k. g k @ sep) [0..<n - 1]) @ g (n - 1)"
proof (induction n arbitrary: g)
  case (Suc n)
  show ?case
  proof (cases n)
    case (Suc m)
    have e: "[0..<Suc n] = 0 # map Suc [0..<n]" by (simp add: upt_conv_Cons map_Suc_upt del: upt_Suc)
    have e': "[0..<n] = 0 # map Suc [0..<m]" unfolding Suc by (simp add: upt_conv_Cons map_Suc_upt del: upt_Suc)
    have "join sep (map g [0..<Suc n]) = g 0 @ sep @ join sep (map (\<lambda>k. g (Suc k)) [0..<n])"
      unfolding e using Suc by (simp add: comp_def join_Cons del: upt_Suc)
    also have "\<dots> = g 0 @ sep @ concat (map (\<lambda>k. g (Suc k) @ sep) [0..<n - 1]) @ g (Suc (n - 1))"
      using Suc.IH [of "\<lambda>k. g (Suc k)"] Suc by simp
    also have "\<dots> = concat (map (\<lambda>k. g k @ sep) [0..<n]) @ g n"
      using Suc by (subst e') (simp add: comp_def)
    finally show ?thesis by simp
  qed simp
qed simp

section \<open>Properties\<close>

text \<open>C19: \<^verbatim>\<open>table.sort\<close> sorts. When the comparison, that of the script or of the interpreter, is a strict weak order on the
  elements, sorting a table of any length returns; the elements \<open>1\<close> to \<open>n\<close> are permuted so that no later one is less
  than an earlier one, and no other key changes.\<close>

theorem sort_sorts:
  assumes "order_on (t ` {1..n}) (sort_comp lessthan f)"
  shows "\<exists>t'. tsort lessthan f t n = Some (Inr t') \<and> mset (tab_list t' n) = mset (tab_list t n) \<and>
    sorted_wrt (\<lambda>x y. \<not> sort_comp lessthan f y x) (tab_list t' n) \<and> (\<forall>k. k < 1 \<or> n < k \<longrightarrow> t' k = t k)"
proof -
  obtain b where b: "auxsort (sort_comp lessthan f) t 1 n = Some (Inr b)" "permuted t b 1 n" "sorted_seg (sort_comp lessthan f) b 1 n"
    using auxsort_ok [OF assms] by blast
  then show ?thesis using sorted_seg_list [OF b(3)] by (auto simp: tsort_def smset_list permuted_def)
qed

text \<open>A table of five numbers.\<close>

definition five :: "int tab" where
  "five k = (if k = 1 then Some 3 else if k = 2 then Some 1 else if k = 3 then Some 2 else if k = 4 then Some 5 else if k = 5 then Some 4 else None)"

definition num_less :: "int option \<Rightarrow> int option \<Rightarrow> bool" where
  "num_less a b = (case (a, b) of (Some x, Some y) \<Rightarrow> x < y | _ \<Rightarrow> False)"

theorem sort_sorts_witness:
  "\<exists>t'. tsort num_less None five 5 = Some (Inr t') \<and> mset (tab_list t' 5) = {#Some 3, Some 1, Some 2, Some 5, Some 4#}"
proof -
  have "order_on (five ` {1..5}) (sort_comp num_less None)"
    by (auto simp: order_on_def sort_comp_def num_less_def five_def split: option.splits if_splits)
  moreover have "mset (tab_list five 5) = {#Some 3, Some 1, Some 2, Some 5, Some 4#}"
    by (simp add: tab_list_def five_def upt_rec)
  ultimately show ?thesis using sort_sorts [of five 5 num_less None] by auto
qed

text \<open>C36: Insertion, removal and concatenation are the list operations. Inserting at a position from \<open>1\<close> to \<open>n + 1\<close> gives the
  list of elements with the value put there, and removing at the same position gives the value and the table back, when
  the table ends at \<open>n\<close>; concatenating a table of strings gives them with the separator between them.\<close>

theorem table_edits:
  assumes "1 \<le> pos" and "pos \<le> n + 1" and "t (n + 1) = None"
  shows "(\<exists>t'. tinsert t n (Insert_at pos v) = Inr t' \<and>
      tab_list t' (n + 1) = take (nat pos - 1) (tab_list t n) @ v # drop (nat pos - 1) (tab_list t n) \<and>
      tremove t' (n + 1) (Some pos) = (t, Some v)) \<and>
    (\<forall>strs sep. tab_list st n = map Some strs \<longrightarrow> tconcat st n (Some sep) None None = Inr (join sep strs))"
proof (intro conjI allI impI)
  have "\<exists>t'. tinsert t n (Insert_at pos v) = Inr t'" by (simp add: tinsert_def Let_def)
  then obtain t' where t': "tinsert t n (Insert_at pos v) = Inr t'" by blast
  have "t' = (\<lambda>k. if k = pos then v else if pos < k \<and> k \<le> n + 1 then t (k - 1) else t k)"
    using assms t' by (auto simp: tinsert_def Let_def move_up_eq fun_eq_iff)
  then have "tremove t' (n + 1) (Some pos) = (t, Some v)"
    using assms by (auto simp: tremove_def move_down_eq fun_eq_iff)
  then show "\<exists>t'. tinsert t n (Insert_at pos v) = Inr t' \<and>
      tab_list t' (n + 1) = take (nat pos - 1) (tab_list t n) @ v # drop (nat pos - 1) (tab_list t n) \<and>
      tremove t' (n + 1) (Some pos) = (t, Some v)"
    using t' tinsert_list [OF assms(1,2) t'] by blast
  fix strs sep
  assume l: "tab_list st n = map Some strs"
  have len: "length strs = nat n" using arg_cong [OF l, of length] by simp
  have at: "st (int k + 1) = Some (strs ! k)" if "k < nat n" for k
    using tab_list_nth(2) [OF that, of st] len that by (simp add: l)
  have n: "0 \<le> n" using assms(1,2) by simp
  show "tconcat st n (Some sep) None None = Inr (join sep strs)"
  proof (cases "n = 0")
    case True
    then show ?thesis using len by (simp add: tconcat_def concat_loop.simps)
  next
    case False
    define f where "f k = strs ! nat (k - 1)" for k
    have f: "st k = Some (f k)" if "1 \<le> k" "k \<le> n" for k using at [of "nat (k - 1)"] that by (simp add: f_def nat_less_iff)
    have "concat_loop st sep 1 n [] = Inr (n, concat (map (\<lambda>k. f (1 + int k) @ sep) [0..<nat (n - 1)]))"
      using concat_loop_ok [of 1 n st f sep "[]"] f False n by simp
    then have "tconcat st n (Some sep) None None = Inr (concat (map (\<lambda>k. strs ! k @ sep) [0..<nat n - 1]) @ strs ! (nat n - 1))"
      using f [of n] False n by (simp add: tconcat_def addfield_def f_def nat_diff_distrib)
    also have "\<dots> = Inr (join sep (map ((!) strs) [0..<nat n]))" using join_map [of "nat n" sep "(!) strs"] False n by simp
    also have "map ((!) strs) [0..<nat n] = strs" using len map_nth [of strs] by simp
    finally show ?thesis .
  qed
qed

theorem table_edits_witness:
  "\<exists>t'. tinsert five 5 (Insert_at 2 (Some 9)) = Inr t' \<and> tab_list t' 6 = [Some 3, Some 9, Some 1, Some 2, Some 5, Some 4] \<and>
     tremove t' 6 (Some 2) = (five, Some (Some 9))"
proof -
  have "tab_list five 5 = [Some 3, Some 1, Some 2, Some 5, Some 4]" by (simp add: tab_list_def five_def upt_rec)
  then show ?thesis using table_edits [of 2 5 five "Some 9"] by (auto simp: five_def numeral_eq_Suc)
qed

end

