(* ===== verification/Lua_Pattern.thy ===== *)
theory Lua_Pattern
  imports Ax_Prelude
begin

text \<open>
  The pattern matcher of Lua's string library: the section PATTERN MATCHING of \<^verbatim>\<open>lstrlib.c\<close> up to \<^verbatim>\<open>match\<close>.
  Subject and pattern are lists of bytes; a pointer into one of them is its offset, and a Lua string has a zero
  byte behind its last one (\<open>at_char\<close>). Reading further is an error of the model, like the overflow of an \<^verbatim>\<open>int\<close>;
  every \<^verbatim>\<open>luaL_error\<close>, which does not return, is an error value of its own.

  The second half gives patterns a meaning that mentions no pointers: a parser into items and, for a list of items,
  the list of all ways to match it in the order of preference the manual describes (greedy repetitions longest
  first, lazy ones shortest first). The matcher, which backtracks over the text of the pattern with a mutable array
  of captures, returns the first of them.
\<close>

section \<open>Errors\<close>

datatype str_err = Ends_with_percent | Missing_bracket | Missing_frontier_set | Unbalanced_pattern
  | Invalid_pattern_capture | Invalid_capture_index | Too_many_captures | Unfinished_capture
  | Repeated_flags | Width_too_long | No_value | Wrong_type | Invalid_option | Slice_too_long | Invalid_value | Stack_overflow | Invalid_replacement | Callee_error | Out_of_bounds | Int_overflow

definition pbind :: "'e + 'a \<Rightarrow> ('a \<Rightarrow> 'e + 'b) \<Rightarrow> 'e + 'b" where
  "pbind m f = (case m of Inl e \<Rightarrow> Inl e | Inr x \<Rightarrow> f x)"

lemma pbind_simps [simp]:
  "pbind (Inl e) f = Inl e"
  "pbind (Inr x) f = f x"
  by (simp_all add: pbind_def)

lemma pbind_cong [fundef_cong]:
  "m = m' \<Longrightarrow> (\<And>x. m' = Inr x \<Longrightarrow> f x = f' x) \<Longrightarrow> pbind m f = pbind m' f'"
  by (cases m') simp_all

lemma pbind_Inr_iff: "pbind m f = Inr y \<longleftrightarrow> (\<exists>x. m = Inr x \<and> f x = Inr y)"
  by (cases m) simp_all

section \<open>Bytes and character classes\<close>

abbreviation (input) uchar :: "char \<Rightarrow> u8" where
  "uchar c \<equiv> of_char c"

definition at_char :: "u8 list \<Rightarrow> nat \<Rightarrow> str_err + u8" where
  "at_char bs i = (if i < length bs then Inr (bs ! i) else if i = length bs then Inr 0 else Inl Out_of_bounds)"

text \<open>A run of bytes, as \<^verbatim>\<open>memcmp\<close> and \<^verbatim>\<open>memchr\<close> read it.\<close>

definition mem_range :: "u8 list \<Rightarrow> nat \<Rightarrow> nat \<Rightarrow> str_err + u8 list" where
  "mem_range bs i n = (if i + n \<le> length bs then Inr (take n (drop i bs)) else Inl Out_of_bounds)"

text \<open>\<^verbatim>\<open>ctype.h\<close> in the C locale.\<close>

definition isupper :: "u8 \<Rightarrow> bool" where "isupper c \<longleftrightarrow> 65 \<le> c \<and> c \<le> 90"
definition islower :: "u8 \<Rightarrow> bool" where "islower c \<longleftrightarrow> 97 \<le> c \<and> c \<le> 122"
definition isalpha :: "u8 \<Rightarrow> bool" where "isalpha c \<longleftrightarrow> isupper c \<or> islower c"
definition isdigit :: "u8 \<Rightarrow> bool" where "isdigit c \<longleftrightarrow> 48 \<le> c \<and> c \<le> 57"
definition isalnum :: "u8 \<Rightarrow> bool" where "isalnum c \<longleftrightarrow> isalpha c \<or> isdigit c"
definition iscntrl :: "u8 \<Rightarrow> bool" where "iscntrl c \<longleftrightarrow> c < 32 \<or> c = 127"
definition isspace :: "u8 \<Rightarrow> bool" where "isspace c \<longleftrightarrow> c = 32 \<or> (9 \<le> c \<and> c \<le> 13)"
definition ispunct :: "u8 \<Rightarrow> bool" where "ispunct c \<longleftrightarrow> 33 \<le> c \<and> c \<le> 126 \<and> \<not> isalnum c"
definition isxdigit :: "u8 \<Rightarrow> bool" where
  "isxdigit c \<longleftrightarrow> isdigit c \<or> (65 \<le> c \<and> c \<le> 70) \<or> (97 \<le> c \<and> c \<le> 102)"
definition tolower :: "u8 \<Rightarrow> u8" where "tolower c = (if isupper c then c + 32 else c)"
definition toupper :: "u8 \<Rightarrow> u8" where "toupper c = (if islower c then c - 32 else c)"

lemmas ctype_defs = isupper_def islower_def isalpha_def isdigit_def isalnum_def iscntrl_def isspace_def ispunct_def
  isxdigit_def tolower_def toupper_def

definition L_ESC :: u8 where
  [simp]: "L_ESC = uchar CHR ''%''"

text \<open>\<^verbatim>\<open>match_class\<close>: does \<open>c\<close> belong to the class the letter \<open>cl\<close> names? A capital letter is the complement.\<close>

definition match_class :: "u8 \<Rightarrow> u8 \<Rightarrow> bool" where
  "match_class c cl =
     (let l = tolower cl; signed = (\<lambda>r. if islower cl then r else \<not> r) in
      if l = uchar CHR ''a'' then signed (isalpha c)
      else if l = uchar CHR ''c'' then signed (iscntrl c)
      else if l = uchar CHR ''d'' then signed (isdigit c)
      else if l = uchar CHR ''l'' then signed (islower c)
      else if l = uchar CHR ''p'' then signed (ispunct c)
      else if l = uchar CHR ''s'' then signed (isspace c)
      else if l = uchar CHR ''u'' then signed (isupper c)
      else if l = uchar CHR ''w'' then signed (isalnum c)
      else if l = uchar CHR ''x'' then signed (isxdigit c)
      else if l = uchar CHR ''z'' then signed (c = 0)
      else cl = c)"

section \<open>Pattern items\<close>

text \<open>The search of \<^verbatim>\<open>classend\<close> for the closing bracket, from the first byte behind \<^verbatim>\<open>[\<close> or \<^verbatim>\<open>[^\<close>.\<close>

function bracket_end :: "u8 list \<Rightarrow> nat \<Rightarrow> str_err + nat" where
  "bracket_end ps p =
     pbind (at_char ps p) (\<lambda>c.
     if c = 0 then Inl Missing_bracket
     else pbind (if c = L_ESC then pbind (at_char ps (p + 1)) (\<lambda>d. Inr (if d \<noteq> 0 then p + 2 else p + 1)) else Inr (p + 1)) (\<lambda>p'.
       pbind (at_char ps p') (\<lambda>c'. if c' \<noteq> uchar CHR '']'' then bracket_end ps p' else Inr (p' + 1))))"
  by pat_completeness auto
termination
  by (relation "measure (\<lambda>(ps, p). length ps + 1 - p)") (auto simp: at_char_def pbind_Inr_iff split: if_splits)

definition classend :: "u8 list \<Rightarrow> nat \<Rightarrow> str_err + nat" where
  "classend ps p =
     pbind (at_char ps p) (\<lambda>c.
     if c = L_ESC then pbind (at_char ps (p + 1)) (\<lambda>d. if d = 0 then Inl Ends_with_percent else Inr (p + 2))
     else if c = uchar CHR ''['' then
       pbind (at_char ps (p + 1)) (\<lambda>d. bracket_end ps (if d = uchar CHR ''^'' then p + 2 else p + 1))
     else Inr (p + 1))"

function bracket_loop :: "u8 list \<Rightarrow> u8 \<Rightarrow> bool \<Rightarrow> nat \<Rightarrow> nat \<Rightarrow> str_err + bool" where
  "bracket_loop ps c sig p ec =
     (if p < ec then
        pbind (at_char ps p) (\<lambda>x.
        if x = L_ESC then
          pbind (at_char ps (p + 1)) (\<lambda>y. if match_class c y then Inr sig else bracket_loop ps c sig (p + 2) ec)
        else pbind (at_char ps (p + 1)) (\<lambda>y.
          if y = uchar CHR ''-'' \<and> p + 2 < ec then
            pbind (at_char ps (p + 2)) (\<lambda>z. if x \<le> c \<and> c \<le> z then Inr sig else bracket_loop ps c sig (p + 3) ec)
          else if x = c then Inr sig
          else bracket_loop ps c sig (p + 1) ec))
      else Inr (\<not> sig))"
  by pat_completeness auto
termination
  by (relation "measure (\<lambda>(ps, c, sig, p, ec). ec - p)") auto

declare bracket_end.simps [simp del] bracket_loop.simps [simp del]

definition matchbracketclass :: "u8 list \<Rightarrow> u8 \<Rightarrow> nat \<Rightarrow> nat \<Rightarrow> str_err + bool" where
  "matchbracketclass ps c p ec =
     pbind (at_char ps (p + 1)) (\<lambda>x.
     if x = uchar CHR ''^'' then bracket_loop ps c False (p + 2) ec else bracket_loop ps c True (p + 1) ec)"

definition singlematch :: "u8 list \<Rightarrow> u8 \<Rightarrow> nat \<Rightarrow> nat \<Rightarrow> str_err + bool" where
  "singlematch ps c p ep =
     pbind (at_char ps p) (\<lambda>x.
     if x = uchar CHR ''.'' then Inr True
     else if x = L_ESC then pbind (at_char ps (p + 1)) (\<lambda>y. Inr (match_class c y))
     else if x = uchar CHR ''['' then matchbracketclass ps c p (ep - 1)
     else Inr (x = c))"

text \<open>\<^verbatim>\<open>matchbalance\<close>: the loop counts in an \<^verbatim>\<open>int\<close>.\<close>

function balance_loop :: "u8 list \<Rightarrow> u8 \<Rightarrow> u8 \<Rightarrow> int \<Rightarrow> nat \<Rightarrow> str_err + nat option" where
  "balance_loop src b e cont s =
     (if s < length src then
        pbind (at_char src s) (\<lambda>x.
        if x = e then if cont - 1 = 0 then Inr (Some (s + 1)) else balance_loop src b e (cont - 1) (s + 1)
        else if x = b then
          if cont + 1 < 2 ^ 31 then balance_loop src b e (cont + 1) (s + 1) else Inl Int_overflow
        else balance_loop src b e cont (s + 1))
      else Inr None)"
  by pat_completeness auto
termination
  by (relation "measure (\<lambda>(src, b, e, cont, s). length src - s)") auto

declare balance_loop.simps [simp del]

definition matchbalance :: "u8 list \<Rightarrow> u8 list \<Rightarrow> nat \<Rightarrow> nat \<Rightarrow> str_err + nat option" where
  "matchbalance src ps s p =
     pbind (at_char ps p) (\<lambda>b. if b = 0 then Inl Unbalanced_pattern
     else pbind (at_char ps (p + 1)) (\<lambda>e. if e = 0 then Inl Unbalanced_pattern
     else pbind (at_char src s) (\<lambda>x. if x \<noteq> b then Inr None else balance_loop src b e 1 (s + 1))))"

section \<open>Captures\<close>

text \<open>
  A capture is its start and its length, which for a capture not closed yet and for a position capture is a
  negative mark. The array \<^verbatim>\<open>capture\<close> of a \<^verbatim>\<open>MatchState\<close> is the list of its first \<^verbatim>\<open>level\<close> elements; the others
  are never read.
\<close>

record capture =
  init :: nat
  len :: int

type_synonym captures = "capture list"

definition CAP_UNFINISHED :: int where [simp]: "CAP_UNFINISHED = - 1"
definition CAP_POSITION :: int where [simp]: "CAP_POSITION = - 2"
definition LUA_MAXCAPTURES :: nat where [simp]: "LUA_MAXCAPTURES = 32"

definition check_capture :: "captures \<Rightarrow> u8 \<Rightarrow> str_err + nat" where
  "check_capture cs d =
     (let l = uint d - uint (uchar CHR ''1'') in
      if l < 0 \<or> l \<ge> int (length cs) \<or> len (cs ! nat l) = CAP_UNFINISHED then Inl Invalid_capture_index
      else Inr (nat l))"

fun close_loop :: "captures \<Rightarrow> nat \<Rightarrow> str_err + nat" where
  "close_loop cs 0 = Inl Invalid_pattern_capture"
| "close_loop cs (Suc l) = (if len (cs ! l) = CAP_UNFINISHED then Inr l else close_loop cs l)"

definition capture_to_close :: "captures \<Rightarrow> str_err + nat" where
  "capture_to_close cs = close_loop cs (length cs)"

text \<open>\<^verbatim>\<open>match_capture\<close> compares the length as a \<^verbatim>\<open>size_t\<close>: that of a position capture is huge.\<close>

definition match_capture :: "u8 list \<Rightarrow> captures \<Rightarrow> nat \<Rightarrow> u8 \<Rightarrow> str_err + nat option" where
  "match_capture src cs s d =
     pbind (check_capture cs d) (\<lambda>l.
     let n = nat (len (cs ! l) mod 2 ^ 64) in
     if length src - s \<ge> n then
       pbind (mem_range src (init (cs ! l)) n) (\<lambda>xs. pbind (mem_range src s n) (\<lambda>ys.
         Inr (if xs = ys then Some (s + n) else None)))
     else Inr None)"

section \<open>The matcher\<close>

text \<open>
  A matcher gets a position in the subject and the captures, and answers with the end of the match, \<open>None\<close> for
  \<^verbatim>\<open>NULL\<close>, and the captures it leaves. The functions \<^verbatim>\<open>match\<close> calls with a position in the pattern to go on from
  get that call as a matcher.
\<close>

type_synonym matched = "nat option \<times> captures"
type_synonym matcher = "nat \<Rightarrow> captures \<Rightarrow> str_err + matched"

definition start_capture :: "matcher \<Rightarrow> nat \<Rightarrow> captures \<Rightarrow> int \<Rightarrow> str_err + matched" where
  "start_capture m s cs what =
     (if length cs \<ge> LUA_MAXCAPTURES then Inl Too_many_captures
      else pbind (m s (cs @ [\<lparr>init = s, len = what\<rparr>])) (\<lambda>(r, cs).
        Inr (r, if r = None then take (length cs - 1) cs else cs)))"

definition end_capture :: "matcher \<Rightarrow> nat \<Rightarrow> captures \<Rightarrow> str_err + matched" where
  "end_capture m s cs =
     pbind (capture_to_close cs) (\<lambda>l.
     pbind (m s (cs[l := (cs ! l)\<lparr>len := int s - int (init (cs ! l))\<rparr>])) (\<lambda>(r, cs).
       Inr (r, if r = None then cs[l := (cs ! l)\<lparr>len := CAP_UNFINISHED\<rparr>] else cs)))"

function expand_count :: "u8 list \<Rightarrow> u8 list \<Rightarrow> nat \<Rightarrow> nat \<Rightarrow> nat \<Rightarrow> nat \<Rightarrow> str_err + nat" where
  "expand_count src ps s p ep i =
     (if s + i < length src then
        pbind (at_char src (s + i)) (\<lambda>c. pbind (singlematch ps c p ep) (\<lambda>b.
          if b then expand_count src ps s p ep (i + 1) else Inr i))
      else Inr i)"
  by pat_completeness auto
termination
  by (relation "measure (\<lambda>(src, ps, s, p, ep, i). length src - (s + i))") auto

fun expand_back :: "matcher \<Rightarrow> nat \<Rightarrow> nat \<Rightarrow> captures \<Rightarrow> str_err + matched" where
  "expand_back m s i cs =
     pbind (m (s + i) cs) (\<lambda>(r, cs).
     if r \<noteq> None then Inr (r, cs)
     else case i of 0 \<Rightarrow> Inr (None, cs) | Suc j \<Rightarrow> expand_back m s j cs)"

definition max_expand :: "u8 list \<Rightarrow> u8 list \<Rightarrow> matcher \<Rightarrow> nat \<Rightarrow> nat \<Rightarrow> nat \<Rightarrow> captures \<Rightarrow> str_err + matched" where
  "max_expand src ps m s p ep cs = pbind (expand_count src ps s p ep 0) (\<lambda>i. expand_back m s i cs)"

function min_expand :: "u8 list \<Rightarrow> u8 list \<Rightarrow> matcher \<Rightarrow> nat \<Rightarrow> nat \<Rightarrow> nat \<Rightarrow> captures \<Rightarrow> str_err + matched" where
  "min_expand src ps m s p ep cs =
     pbind (m s cs) (\<lambda>(r, cs).
     if r \<noteq> None then Inr (r, cs)
     else if s < length src then
       pbind (at_char src s) (\<lambda>c. pbind (singlematch ps c p ep) (\<lambda>b.
         if b then min_expand src ps m (s + 1) p ep cs else Inr (None, cs)))
     else Inr (None, cs))"
  by pat_completeness auto
termination
  by (relation "measure (\<lambda>(src, ps, m, s, p, ep, cs). length src - s)") auto

declare expand_count.simps [simp del] expand_back.simps [simp del] min_expand.simps [simp del]

text \<open>
  The label \<^verbatim>\<open>dflt\<close> of \<^verbatim>\<open>match\<close>: a single-character class and its suffix. The matcher here also gets the position in the
  pattern, which is always a later one; the two lemmas let the recursion of \<^verbatim>\<open>match\<close> go through it.
\<close>

definition match_dflt :: "u8 list \<Rightarrow> u8 list \<Rightarrow> (nat \<Rightarrow> matcher) \<Rightarrow> nat \<Rightarrow> nat \<Rightarrow> captures \<Rightarrow> str_err + matched" where
  "match_dflt src ps mt s p cs =
     pbind (classend ps p) (\<lambda>ep.
     pbind (if s < length src then pbind (at_char src s) (\<lambda>c. singlematch ps c p ep) else Inr False) (\<lambda>m.
     pbind (at_char ps ep) (\<lambda>q.
     if q = uchar CHR ''?'' then
       if m then pbind (mt (ep + 1) (s + 1) cs) (\<lambda>(r, cs). if r \<noteq> None then Inr (r, cs) else mt (ep + 1) s cs)
       else mt (ep + 1) s cs
     else if q = uchar CHR ''*'' then max_expand src ps (mt (ep + 1)) s p ep cs
     else if q = uchar CHR ''+'' then
       if m then max_expand src ps (mt (ep + 1)) (s + 1) p ep cs else Inr (None, cs)
     else if q = uchar CHR ''-'' then min_expand src ps (mt (ep + 1)) s p ep cs
     else if \<not> m then Inr (None, cs)
     else mt ep (s + 1) cs)))"

lemma at_char_le: "at_char bs i = Inr c \<Longrightarrow> i \<le> length bs"
  by (simp add: at_char_def split: if_splits)

lemma at_char_ex: "i \<le> length bs \<Longrightarrow> \<exists>c. at_char bs i = Inr c"
  by (simp add: at_char_def)

lemma bracket_end_gt: "bracket_end ps p = Inr ep \<Longrightarrow> p < ep \<and> ep \<le> length ps"
proof (induction ps p arbitrary: ep rule: bracket_end.induct)
  case (1 ps p)
  note ih = "1.IH"
  obtain c where c: "at_char ps p = Inr c" "c \<noteq> 0"
    using "1.prems" by (subst (asm) bracket_end.simps) (auto simp: pbind_Inr_iff split: if_splits)
  obtain p' where p': "(if c = L_ESC then pbind (at_char ps (p + 1)) (\<lambda>d. Inr (if d \<noteq> 0 then p + 2 else p + 1)) else Inr (p + 1)) = (Inr p' :: str_err + nat)"
    using "1.prems" c by (subst (asm) bracket_end.simps) (auto simp: pbind_Inr_iff simp del: L_ESC_def split: if_splits)
  obtain c' where c': "at_char ps p' = Inr c'"
    using "1.prems" c p' by (subst (asm) bracket_end.simps) (auto simp: pbind_Inr_iff simp del: L_ESC_def)
  have "p < p'" using p' by (auto simp: pbind_Inr_iff split: if_splits)
  moreover have "c' \<noteq> 0 \<Longrightarrow> p' < length ps" using c' by (auto simp: at_char_def split: if_splits)
  ultimately show ?case
    using "1.prems" c c' p' ih [OF c(1) c(2) p' c']
    by (subst (asm) bracket_end.simps) (auto simp del: L_ESC_def split: if_splits)
qed

lemma classend_gt: "classend ps p = Inr ep \<Longrightarrow> p < ep"
  unfolding classend_def by (auto simp: pbind_Inr_iff split: if_splits dest: bracket_end_gt)

lemma match_dflt_cong [fundef_cong]:
  assumes "src = src'" "ps = ps'" "s = s'" "p = p'" "cs = cs'"
    and "\<And>q s cs. p' < q \<Longrightarrow> mt q s cs = mt' q s cs"
  shows "match_dflt src ps mt s p cs = match_dflt src' ps' mt' s' p' cs'"
proof -
  have "classend ps p = Inr ep \<Longrightarrow> mt ep = mt' ep \<and> mt (ep + 1) = mt' (ep + 1)" for ep
    using assms(4,6) by (auto dest!: classend_gt intro!: ext)
  then show ?thesis unfolding match_dflt_def assms(1-5) by (intro pbind_cong refl) (simp only: assms(2,4))
qed

lemma start_capture_cong [fundef_cong]:
  "(\<And>s cs. m s cs = m' s cs) \<Longrightarrow> s = s' \<Longrightarrow> cs = cs' \<Longrightarrow> what = what' \<Longrightarrow>
    start_capture m s cs what = start_capture m' s' cs' what'"
  by (simp add: start_capture_def)

lemma end_capture_cong [fundef_cong]:
  "(\<And>s cs. m s cs = m' s cs) \<Longrightarrow> s = s' \<Longrightarrow> cs = cs' \<Longrightarrow> end_capture m s cs = end_capture m' s' cs'"
  by (simp add: end_capture_def)

text \<open>The frontier test \<^verbatim>\<open>%f[set]\<close> of \<^verbatim>\<open>match\<close>, with \<open>p\<close> behind the letter: the end of the set when the test holds.\<close>

definition match_frontier :: "u8 list \<Rightarrow> u8 list \<Rightarrow> nat \<Rightarrow> nat \<Rightarrow> str_err + nat option" where
  "match_frontier src ps s p =
     pbind (at_char ps p) (\<lambda>x.
     if x \<noteq> uchar CHR ''['' then Inl Missing_frontier_set
     else pbind (classend ps p) (\<lambda>ep.
       pbind (if s = 0 then Inr 0 else at_char src (s - 1)) (\<lambda>previous.
       pbind (matchbracketclass ps previous p (ep - 1)) (\<lambda>was.
       if was then Inr None
       else pbind (at_char src s) (\<lambda>c.
         pbind (matchbracketclass ps c p (ep - 1)) (\<lambda>now. Inr (if now then Some ep else None)))))))"

lemma match_frontier_gt: "match_frontier src ps s p = Inr (Some ep) \<Longrightarrow> p < ep"
  unfolding match_frontier_def by (auto simp: pbind_Inr_iff split: if_splits dest: classend_gt)

function match :: "u8 list \<Rightarrow> u8 list \<Rightarrow> nat \<Rightarrow> matcher" where
  "match src ps p s cs =
     pbind (at_char ps p) (\<lambda>c.
     if c = uchar CHR ''('' then
       pbind (at_char ps (p + 1)) (\<lambda>d.
         if d = uchar CHR '')'' then start_capture (\<lambda>s cs. match src ps (p + 2) s cs) s cs CAP_POSITION
         else start_capture (\<lambda>s cs. match src ps (p + 1) s cs) s cs CAP_UNFINISHED)
     else if c = uchar CHR '')'' then end_capture (\<lambda>s cs. match src ps (p + 1) s cs) s cs
     else if c = L_ESC then
       pbind (at_char ps (p + 1)) (\<lambda>d.
         if d = uchar CHR ''b'' then
           pbind (matchbalance src ps s (p + 2)) (\<lambda>r.
             case r of None \<Rightarrow> Inr (None, cs) | Some s \<Rightarrow> match src ps (p + 4) s cs)
         else if d = uchar CHR ''f'' then
           pbind (match_frontier src ps s (p + 2)) (\<lambda>r.
             case r of None \<Rightarrow> Inr (None, cs) | Some ep \<Rightarrow> match src ps ep s cs)
         else if isdigit d then
           pbind (match_capture src cs s d) (\<lambda>r.
             case r of None \<Rightarrow> Inr (None, cs) | Some s \<Rightarrow> match src ps (p + 2) s cs)
         else match_dflt src ps (\<lambda>q s cs. match src ps q s cs) s p cs)
     else if c = 0 then Inr (Some s, cs)
     else if c = uchar CHR ''$'' then
       pbind (at_char ps (p + 1)) (\<lambda>d.
         if d = 0 then Inr (if s = length src then Some s else None, cs)
         else match_dflt src ps (\<lambda>q s cs. match src ps q s cs) s p cs)
     else match_dflt src ps (\<lambda>q s cs. match src ps q s cs) s p cs)"
  by pat_completeness auto
termination
  by (relation "measure (\<lambda>(src, ps, p, s, cs). length ps + 1 - p)") (auto dest!: at_char_le match_frontier_gt)

declare match.simps [simp del]

section \<open>Memory safety of the matcher\<close>

text \<open>An error value that stands for \<^verbatim>\<open>luaL_error\<close> is an answer; one that stands for undefined behaviour is not.\<close>

definition no_undef :: "str_err + 'a \<Rightarrow> bool" where
  "no_undef r \<longleftrightarrow> r \<noteq> Inl Out_of_bounds \<and> r \<noteq> Inl Int_overflow"

lemma no_undef_simps [simp]:
  "no_undef (Inr x)"
  "no_undef (Inl e) \<longleftrightarrow> e \<noteq> Out_of_bounds \<and> e \<noteq> Int_overflow"
  by (simp_all add: no_undef_def)

lemma no_undef_bind [intro]:
  "no_undef m \<Longrightarrow> (\<And>x. m = Inr x \<Longrightarrow> no_undef (f x)) \<Longrightarrow> no_undef (pbind m f)"
  by (cases m) (auto simp: no_undef_def)

lemma no_undef_at [simp]: "no_undef (at_char bs i) \<longleftrightarrow> i \<le> length bs"
  by (auto simp: at_char_def)

lemma no_undef_range [simp]: "no_undef (mem_range bs i n) \<longleftrightarrow> i + n \<le> length bs"
  by (auto simp: mem_range_def)

lemma at_char_nonzero: "at_char bs i = Inr c \<Longrightarrow> c \<noteq> 0 \<Longrightarrow> i < length bs"
  by (simp add: at_char_def split: if_splits)

lemma bracket_end_safe: "p \<le> length ps \<Longrightarrow> no_undef (bracket_end ps p)"
proof (induction ps p rule: bracket_end.induct)
  case (1 ps p)
  note ih = "1.IH"
  show ?case
  proof (subst bracket_end.simps, intro no_undef_bind)
    show "no_undef (at_char ps p)" using "1.prems" by simp
    fix c assume c: "at_char ps p = Inr c"
    show "no_undef (if c = 0 then Inl Missing_bracket
      else pbind (if c = L_ESC then pbind (at_char ps (p + 1)) (\<lambda>d. Inr (if d \<noteq> 0 then p + 2 else p + 1)) else Inr (p + 1)) (\<lambda>p'.
        pbind (at_char ps p') (\<lambda>c'. if c' \<noteq> uchar CHR '']'' then bracket_end ps p' else Inr (p' + 1))))"
    proof (cases "c = 0")
      case False
      have p: "p < length ps" using at_char_nonzero [OF c False] .
      let ?m = "if c = L_ESC then pbind (at_char ps (p + 1)) (\<lambda>d. Inr (if d \<noteq> 0 then p + 2 else p + 1)) else Inr (p + 1)"
      have "no_undef ?m" using p by auto
      moreover {
        fix p' assume m: "?m = Inr p'"
        have p': "p' \<le> length ps"
          using m p by (auto simp: pbind_Inr_iff dest: at_char_nonzero split: if_splits)
        have "no_undef (pbind (at_char ps p') (\<lambda>c'. if c' \<noteq> uchar CHR '']'' then bracket_end ps p' else Inr (p' + 1)))"
          using p' ih [OF c False m] by auto
      }
      ultimately show ?thesis using False by (auto simp del: L_ESC_def)
    qed simp
  qed
qed

lemma classend_safe:
  assumes "at_char ps p = Inr c" and "c \<noteq> 0"
  shows "no_undef (classend ps p) \<and> (\<forall>ep. classend ps p = Inr ep \<longrightarrow> p < ep \<and> ep \<le> length ps)"
proof -
  have p: "p < length ps" using at_char_nonzero [OF assms] .
  have "no_undef (classend ps p)"
    unfolding classend_def assms(1) using p
    by (auto intro!: no_undef_bind bracket_end_safe dest: at_char_nonzero)
  moreover have "p < ep \<and> ep \<le> length ps" if "classend ps p = Inr ep" for ep
    using that p unfolding classend_def assms(1)
    by (auto simp: pbind_Inr_iff split: if_splits dest: bracket_end_gt at_char_nonzero)
  ultimately show ?thesis by blast
qed

lemma bracket_loop_safe:
  assumes "ec \<le> length ps"
  shows "no_undef (bracket_loop ps c sig p ec)"
proof (induction "ec - p" arbitrary: p rule: less_induct)
  case less
  show ?case
  proof (cases "p < ec")
    case True
    then have "no_undef (bracket_loop ps c sig q ec)" if "p < q" for q using that by (intro less) simp
    then show ?thesis using True assms by (subst bracket_loop.simps) (auto intro!: no_undef_bind)
  qed (subst bracket_loop.simps, simp)
qed

lemma singlematch_safe:
  assumes "at_char ps p = Inr c" and "c \<noteq> 0" and "classend ps p = Inr ep"
  shows "no_undef (singlematch ps x p ep)"
proof -
  have "p < length ps" "ep \<le> length ps" using classend_safe [OF assms(1,2)] at_char_nonzero [OF assms(1,2)] assms(3) by auto
  then have "p < length ps" "ep - 1 \<le> length ps" by simp_all
  then show ?thesis unfolding singlematch_def matchbracketclass_def
    by (auto intro!: no_undef_bind bracket_loop_safe)
qed

lemma matchbracketclass_safe: "p < length ps \<Longrightarrow> ec \<le> length ps \<Longrightarrow> no_undef (matchbracketclass ps c p ec)"
  unfolding matchbracketclass_def by (auto intro!: no_undef_bind bracket_loop_safe)

lemma match_frontier_safe:
  assumes s: "s \<le> length src" and p: "p \<le> length ps"
  shows "no_undef (match_frontier src ps s p) \<and> (\<forall>ep. match_frontier src ps s p = Inr (Some ep) \<longrightarrow> p < ep \<and> ep \<le> length ps)"
proof (cases "at_char ps p = Inr (uchar CHR ''['')")
  case True
  then have x: "at_char ps p = Inr 91" by simp
  have p: "p < length ps" using at_char_nonzero [OF x] by simp
  have ep: "no_undef (classend ps p)" "\<And>ep. classend ps p = Inr ep \<Longrightarrow> p < ep \<and> ep \<le> length ps"
    using classend_safe [OF x] by (simp, force)
  have "no_undef (matchbracketclass ps y p (ep - 1))" if "classend ps p = Inr ep" for y ep
    using ep(2) [OF that] by (intro matchbracketclass_safe [OF p]) linarith
  then show ?thesis using ep s unfolding match_frontier_def True
    by (auto intro!: no_undef_bind simp: pbind_Inr_iff split: if_splits)
qed (use p in \<open>auto simp: match_frontier_def at_char_def\<close>)

lemma balance_loop_safe:
  assumes "length src < 2 ^ 31" and "0 < cont" and "cont \<le> int s"
  shows "no_undef (balance_loop src b e cont s) \<and>
    (\<forall>r. balance_loop src b e cont s = Inr (Some r) \<longrightarrow> s < r \<and> r \<le> length src)"
  using assms
proof (induction src b e cont s rule: balance_loop.induct)
  case (1 src b e cont s)
  show ?case
  proof (cases "s < length src")
    case True
    define x where "x = src ! s"
    have x: "at_char src s = Inr x" using True by (simp add: at_char_def x_def)
    have small: "cont + 1 < 2 ^ 31" using "1.prems" True by simp
    consider (close) "x = e" | (opens) "x \<noteq> e" "x = b" | (other) "x \<noteq> e" "x \<noteq> b" by blast
    then show ?thesis
    proof cases
      case close
      then show ?thesis
        using True x "1.prems" "1.IH"(1) [OF True x close]
        by (subst (1 2) balance_loop.simps) auto
    next
      case opens
      then show ?thesis
        using True x small "1.prems" "1.IH"(2) [OF True x opens small]
        by (subst (1 2) balance_loop.simps) auto
    next
      case other
      then show ?thesis
        using True x "1.prems" "1.IH"(3) [OF True x other]
        by (subst (1 2) balance_loop.simps) auto
    qed
  qed (subst (1 2) balance_loop.simps, simp)
qed

lemma matchbalance_safe:
  assumes "length src < 2 ^ 31" and "s \<le> length src" and "p \<le> length ps"
  shows "no_undef (matchbalance src ps s p) \<and> (\<forall>r. matchbalance src ps s p = Inr r \<longrightarrow> p + 2 \<le> length ps) \<and>
    (\<forall>r. matchbalance src ps s p = Inr (Some r) \<longrightarrow> s < r \<and> r \<le> length src)"
proof -
  have loop: "no_undef (balance_loop src b e 1 (s + 1)) \<and>
    (\<forall>r. balance_loop src b e 1 (s + 1) = Inr (Some r) \<longrightarrow> s < r \<and> r \<le> length src)" for b e
    using balance_loop_safe [OF assms(1), of 1 "s + 1" b e] by auto
  show ?thesis unfolding matchbalance_def using assms loop at_char_nonzero [of ps p] at_char_nonzero [of ps "p + 1"]
    by (auto intro!: no_undef_bind simp: pbind_Inr_iff Suc_le_eq split: if_splits)
qed

text \<open>
  A capture inside a subject of length \<open>n\<close>; an open one starts at the current position \<open>s\<close> or before it. What an
  answer of the matcher promises: the captures are as they were when it fails, and inside the subject when it succeeds.
\<close>

definition cap_in :: "nat \<Rightarrow> nat \<Rightarrow> capture \<Rightarrow> bool" where
  "cap_in n s c \<longleftrightarrow> init c \<le> n \<and> (len c = CAP_UNFINISHED \<and> init c \<le> s \<or> len c = CAP_POSITION \<or>
     0 \<le> len c \<and> int (init c) + len c \<le> int n)"

definition caps_in :: "nat \<Rightarrow> nat \<Rightarrow> captures \<Rightarrow> bool" where
  "caps_in n s cs \<longleftrightarrow> length cs \<le> LUA_MAXCAPTURES \<and> (\<forall>c \<in> set cs. cap_in n s c)"

definition answer_in :: "nat \<Rightarrow> nat \<Rightarrow> captures \<Rightarrow> str_err + matched \<Rightarrow> bool" where
  "answer_in n s cs r \<longleftrightarrow> no_undef r \<and> (\<forall>cs'. r = Inr (None, cs') \<longrightarrow> cs' = cs) \<and>
     (\<forall>e cs'. r = Inr (Some e, cs') \<longrightarrow> s \<le> e \<and> e \<le> n \<and> caps_in n e cs')"

definition matcher_in :: "nat \<Rightarrow> matcher \<Rightarrow> bool" where
  "matcher_in n m \<longleftrightarrow> (\<forall>s cs. s \<le> n \<longrightarrow> caps_in n s cs \<longrightarrow> answer_in n s cs (m s cs))"

lemma cap_in_mono: "cap_in n s c \<Longrightarrow> s \<le> t \<Longrightarrow> cap_in n t c"
  by (auto simp: cap_in_def)

lemma caps_in_mono: "caps_in n s cs \<Longrightarrow> s \<le> t \<Longrightarrow> caps_in n t cs"
  by (auto simp: caps_in_def intro: cap_in_mono)

lemma caps_in_Nil [simp]: "caps_in n s []"
  by (simp add: caps_in_def)

lemma matcher_inD: "matcher_in n m \<Longrightarrow> s \<le> n \<Longrightarrow> caps_in n s cs \<Longrightarrow> answer_in n s cs (m s cs)"
  by (simp add: matcher_in_def)

lemma answer_in_mono: "answer_in n t cs r \<Longrightarrow> s \<le> t \<Longrightarrow> answer_in n s cs r"
  by (auto simp: answer_in_def)

lemma answer_in_simps [simp]:
  "answer_in n s cs (Inl e) \<longleftrightarrow> e \<noteq> Out_of_bounds \<and> e \<noteq> Int_overflow"
  "answer_in n s cs (Inr (None, cs')) \<longleftrightarrow> cs' = cs"
  "answer_in n s cs (Inr (Some t, cs')) \<longleftrightarrow> s \<le> t \<and> t \<le> n \<and> caps_in n t cs'"
  by (auto simp: answer_in_def)

lemma answer_in_bind:
  "no_undef m \<Longrightarrow> (\<And>x. m = Inr x \<Longrightarrow> answer_in n s cs (f x)) \<Longrightarrow> answer_in n s cs (pbind m f)"
  by (cases m) auto

text \<open>Trying a second matcher after a first one that failed.\<close>

lemma answer_in_else:
  assumes "answer_in n s cs r" and "answer_in n s cs (f cs)"
  shows "answer_in n s cs (pbind r (\<lambda>(r, cs). if r \<noteq> None then Inr (r, cs) else f cs))"
  using assms by (cases r) (auto split: option.splits if_splits)

lemma caps_in_push:
  "caps_in n s cs \<Longrightarrow> s \<le> n \<Longrightarrow> length cs < LUA_MAXCAPTURES \<Longrightarrow> what = CAP_UNFINISHED \<or> what = CAP_POSITION \<Longrightarrow>
    caps_in n s (cs @ [\<lparr>init = s, len = what\<rparr>])"
  by (auto simp: caps_in_def cap_in_def)

lemma start_capture_in:
  assumes "matcher_in n m" "s \<le> n" "caps_in n s cs" "what = CAP_UNFINISHED \<or> what = CAP_POSITION"
  shows "answer_in n s cs (start_capture m s cs what)"
proof (cases "length cs < LUA_MAXCAPTURES")
  case True
  let ?cs = "cs @ [\<lparr>init = s, len = what\<rparr>]"
  have "answer_in n s ?cs (m s ?cs)" using caps_in_push [OF assms(3,2) True assms(4)] assms(1,2) by (rule_tac matcher_inD)
  then show ?thesis using True unfolding start_capture_def by (cases "m s ?cs") (auto simp: answer_in_def)
qed (simp add: start_capture_def)

lemma close_loop_cases:
  "l \<le> length cs \<Longrightarrow> close_loop cs l = Inl Invalid_pattern_capture \<or>
    (\<exists>k < l. close_loop cs l = Inr k \<and> len (cs ! k) = CAP_UNFINISHED)"
  by (induction l) (auto simp: less_Suc_eq)

lemma end_capture_in:
  assumes "matcher_in n m" "s \<le> n" "caps_in n s cs"
  shows "answer_in n s cs (end_capture m s cs)"
proof -
  consider (none) "capture_to_close cs = Inl Invalid_pattern_capture"
    | (one) k where "k < length cs" "capture_to_close cs = Inr k" "len (cs ! k) = CAP_UNFINISHED"
    unfolding capture_to_close_def using close_loop_cases [OF order_refl, of cs] by blast
  then show ?thesis
  proof cases
    case none
    then show ?thesis by (simp add: end_capture_def)
  next
    case k: one
    let ?cs = "cs[k := (cs ! k)\<lparr>len := int s - int (init (cs ! k))\<rparr>]"
    have "cap_in n s (cs ! k)" using assms(3) k(1) by (simp add: caps_in_def)
    then have "cap_in n s ((cs ! k)\<lparr>len := int s - int (init (cs ! k))\<rparr>)"
      using k(3) assms(2) by (auto simp: cap_in_def)
    then have "caps_in n s ?cs"
      using assms(3) unfolding caps_in_def by (auto dest!: set_update_subset_insert [THEN subsetD])
    then have a: "answer_in n s ?cs (m s ?cs)" using assms(1,2) by (rule_tac matcher_inD)
    have undo: "?cs[k := (?cs ! k)\<lparr>len := CAP_UNFINISHED\<rparr>] = cs"
      using k by (cases "cs ! k") (auto intro: list_update_same_conv [THEN iffD2])
    show ?thesis using a undo unfolding end_capture_def k(2) by (cases "m s ?cs") (auto simp: answer_in_def)
  qed
qed

lemma match_capture_in:
  assumes "length src < 2 ^ 31" "s \<le> length src" "caps_in (length src) s cs"
  shows "no_undef (match_capture src cs s d) \<and>
    (\<forall>r. match_capture src cs s d = Inr (Some r) \<longrightarrow> s \<le> r \<and> r \<le> length src)"
proof (cases "check_capture cs d")
  case (Inr l)
  then have l: "l < length cs" "len (cs ! l) \<noteq> CAP_UNFINISHED"
    by (auto simp: check_capture_def Let_def split: if_splits)
  then have "cap_in (length src) s (cs ! l)" using assms(3) by (simp add: caps_in_def)
  then consider "len (cs ! l) = - 2" | "0 \<le> len (cs ! l)" "int (init (cs ! l)) + len (cs ! l) \<le> int (length src)"
    using l(2) by (auto simp: cap_in_def)
  then show ?thesis
  proof cases
    case 1
    then show ?thesis using assms(1) Inr by (auto simp: match_capture_def)
  next
    case 2
    then have "len (cs ! l) mod 2 ^ 64 = len (cs ! l)" using assms(1) by simp
    then show ?thesis using 2 Inr assms(2) unfolding match_capture_def
      by (auto simp: Let_def pbind_Inr_iff intro!: no_undef_bind split: if_splits)
  qed
qed (auto simp: match_capture_def check_capture_def Let_def split: if_splits)

lemma expand_back_simps:
  "expand_back m s 0 cs = pbind (m s cs) (\<lambda>(r, cs). if r \<noteq> None then Inr (r, cs) else Inr (None, cs))"
  "expand_back m s (Suc i) cs = pbind (m (s + Suc i) cs) (\<lambda>(r, cs). if r \<noteq> None then Inr (r, cs) else expand_back m s i cs)"
  by (subst expand_back.simps, simp only: nat.case add_0_right)+

lemma expand_back_in:
  assumes "matcher_in n m" "s + i \<le> n" "caps_in n s cs"
  shows "answer_in n s cs (expand_back m s i cs)"
  using assms(2)
proof (induction i)
  case 0
  then show ?case
    using matcher_inD [OF assms(1), of s cs] assms(3) unfolding expand_back_simps by (intro answer_in_else) simp_all
next
  case (Suc i)
  have "answer_in n s cs (m (s + Suc i) cs)"
    using Suc.prems assms by (intro answer_in_mono [OF matcher_inD]) (auto intro: caps_in_mono)
  then show ?case using Suc unfolding expand_back_simps by (intro answer_in_else) simp_all
qed

lemma expand_count_safe:
  assumes "\<And>c. no_undef (singlematch ps c p ep)" and "s + i \<le> length src"
  shows "no_undef (expand_count src ps s p ep i) \<and> (\<forall>j. expand_count src ps s p ep i = Inr j \<longrightarrow> s + j \<le> length src)"
  using assms(2)
proof (induction "length src - (s + i)" arbitrary: i rule: less_induct)
  case less
  show ?case
  proof (cases "s + i < length src")
    case True
    have "no_undef (expand_count src ps s p ep (i + 1)) \<and> (\<forall>j. expand_count src ps s p ep (i + 1) = Inr j \<longrightarrow> s + j \<le> length src)"
      using True by (intro less) auto
    then show ?thesis using True assms(1)
      by (subst (1 2) expand_count.simps) (auto intro!: no_undef_bind simp: pbind_Inr_iff split: if_splits)
  qed (use less.prems in \<open>subst (1 2) expand_count.simps, simp\<close>)
qed

lemma max_expand_in:
  assumes "\<And>c. no_undef (singlematch ps c p ep)" "matcher_in (length src) m" "s \<le> length src" "caps_in (length src) s cs"
  shows "answer_in (length src) s cs (max_expand src ps m s p ep cs)"
  unfolding max_expand_def
  using expand_count_safe [OF assms(1), of s 0 src] assms
  by (intro answer_in_bind expand_back_in) auto

lemma min_expand_in:
  assumes "\<And>c. no_undef (singlematch ps c p ep)" "matcher_in (length src) m" "s \<le> length src" "caps_in (length src) s cs"
  shows "answer_in (length src) s cs (min_expand src ps m s p ep cs)"
  using assms(3,4)
proof (induction "length src - s" arbitrary: s rule: less_induct)
  case less
  let ?next = "\<lambda>cs. if s < length src then
       pbind (at_char src s) (\<lambda>c. pbind (singlematch ps c p ep) (\<lambda>b.
         if b then min_expand src ps m (s + 1) p ep cs else Inr (None, cs)))
     else Inr (None, cs)"
  have "answer_in (length src) s cs (min_expand src ps m (s + 1) p ep cs)" if "s < length src"
    using that less.prems by (intro answer_in_mono [OF less.hyps]) (auto intro: caps_in_mono)
  then have "answer_in (length src) s cs (?next cs)"
    using assms(1) less.prems by (auto intro!: answer_in_bind)
  moreover have "answer_in (length src) s cs (m s cs)" using assms(2) less.prems by (rule matcher_inD)
  ultimately show ?case by (subst min_expand.simps) (rule answer_in_else)
qed

lemma match_dflt_in:
  assumes c: "at_char ps p = Inr c" "c \<noteq> 0"
    and mt: "\<And>q. p < q \<Longrightarrow> q \<le> length ps \<Longrightarrow> matcher_in (length src) (mt q)"
    and s: "s \<le> length src" "caps_in (length src) s cs"
  shows "answer_in (length src) s cs (match_dflt src ps mt s p cs)"
proof (cases "classend ps p")
  case (Inl e)
  then show ?thesis using classend_safe [OF c] by (simp add: match_dflt_def)
next
  case (Inr ep)
  have ep: "p < ep" "ep \<le> length ps" using classend_safe [OF c] Inr by auto
  have one: "no_undef (singlematch ps x p ep)" for x using singlematch_safe [OF c Inr] .
  let ?m = "if s < length src then pbind (at_char src s) (\<lambda>c. singlematch ps c p ep) else Inr False"
  have m: "no_undef ?m" using one s by auto
  have ms: "s < length src" if "?m = Inr True" using that by (auto split: if_splits)
  have later: "matcher_in (length src) (mt (ep + 1))" if "at_char ps ep = Inr q" "q \<noteq> 0" for q
    using mt [of "ep + 1"] ep at_char_nonzero [OF that] by simp
  have step: "caps_in (length src) (s + 1) cs" using s by (auto intro: caps_in_mono)
  show ?thesis unfolding match_dflt_def Inr pbind_simps
  proof (intro answer_in_bind m)
    fix b q assume b: "?m = Inr b" and q: "at_char ps ep = Inr q"
    have next_in: "answer_in (length src) s cs (m' (s + 1) cs)" if "matcher_in (length src) m'" b for m'
      using that b ms step by (intro answer_in_mono [OF matcher_inD]) auto
    have max_in: "answer_in (length src) s cs (max_expand src ps m' (s + 1) p ep cs)" if "matcher_in (length src) m'" b for m'
      using that b ms step one by (intro answer_in_mono [OF max_expand_in]) auto
    consider "q = 63" | "q = 42" | "q = 43" | "q = 45" | "q \<noteq> 63" "q \<noteq> 42" "q \<noteq> 43" "q \<noteq> 45" by blast
    then show "answer_in (length src) s cs (if q = uchar CHR ''?'' then
       if b then pbind (mt (ep + 1) (s + 1) cs) (\<lambda>(r, cs). if r \<noteq> None then Inr (r, cs) else mt (ep + 1) s cs)
       else mt (ep + 1) s cs
     else if q = uchar CHR ''*'' then max_expand src ps (mt (ep + 1)) s p ep cs
     else if q = uchar CHR ''+'' then
       if b then max_expand src ps (mt (ep + 1)) (s + 1) p ep cs else Inr (None, cs)
     else if q = uchar CHR ''-'' then min_expand src ps (mt (ep + 1)) s p ep cs
     else if \<not> b then Inr (None, cs)
     else mt ep (s + 1) cs)"
    proof cases
      case 1
      then have l: "matcher_in (length src) (mt (ep + 1))" using later [OF q] by simp
      have "answer_in (length src) s cs (pbind (mt (ep + 1) (s + 1) cs) (\<lambda>(r, cs). if r \<noteq> None then Inr (r, cs) else mt (ep + 1) s cs))"
        if b using next_in [OF l that] matcher_inD [OF l s] by (rule answer_in_else)
      then show ?thesis using 1 matcher_inD [OF l s] by simp
    next
      case 2
      then show ?thesis using max_expand_in [OF one later s] q by simp
    next
      case 3
      then show ?thesis using max_in later q by simp
    next
      case 4
      then show ?thesis using min_expand_in [OF one later s] q by simp
    next
      case 5
      then show ?thesis using next_in [OF mt, of ep] ep by simp
    qed
  qed (use ep in simp)
qed

lemma isdigit_nonzero: "isdigit d \<Longrightarrow> d \<noteq> 0"
  by (auto simp: isdigit_def)

text \<open>The escapes, and then all cases, assuming that every later position of the pattern is safe.\<close>

lemma match_esc_in:
  assumes n: "length src < 2 ^ 31" and c: "at_char ps p = Inr 37"
    and mt: "\<And>q. p < q \<Longrightarrow> q \<le> length ps \<Longrightarrow> matcher_in (length src) (match src ps q)"
    and s: "s \<le> length src" and cs: "caps_in (length src) s cs"
  shows "answer_in (length src) s cs (match src ps p s cs)"
proof -
  let ?ok = "\<lambda>r. answer_in (length src) s cs r"
  have p: "p < length ps" using at_char_nonzero [OF c] by simp
  obtain d where d: "at_char ps (p + 1) = Inr d" using at_char_ex [of "p + 1" ps] p by auto
  have p2: "p + 2 \<le> length ps" if "d \<noteq> 0" using at_char_nonzero [OF d that] by simp
  have go: "?ok (match src ps q t cs)" if "p < q" "q \<le> length ps" "s \<le> t" "t \<le> length src" for q t
    using that cs by (intro answer_in_mono [OF matcher_inD [OF mt]]) (auto intro: caps_in_mono)
  consider (bal) "d = 98" | (front) "d = 102" | (digit) "isdigit d" "d \<noteq> 98" "d \<noteq> 102"
    | (plain) "\<not> isdigit d" "d \<noteq> 98" "d \<noteq> 102" by blast
  then show ?thesis
  proof cases
    case plain
    have "?ok (match_dflt src ps (match src ps) s p cs)" using mt by (intro match_dflt_in [OF c _ _ s cs]) simp_all
    then show ?thesis using plain c d by (subst match.simps) simp
  next
    case digit
    have "?ok (pbind (match_capture src cs s d) (\<lambda>r. case r of None \<Rightarrow> Inr (None, cs) | Some s \<Rightarrow> match src ps (Suc (Suc p)) s cs))"
      using match_capture_in [OF n s cs, of d] p2 [OF isdigit_nonzero [OF digit(1)]]
      by (intro answer_in_bind) (auto intro!: go split: option.split)
    then show ?thesis using c d digit by (subst match.simps) simp
  next
    case bal
    then have "?ok (pbind (matchbalance src ps s (p + 2)) (\<lambda>r. case r of None \<Rightarrow> Inr (None, cs) | Some s \<Rightarrow> match src ps (p + 4) s cs))"
      using matchbalance_safe [OF n s, of "p + 2" ps] p2
      by (intro answer_in_bind) (auto intro!: go split: option.split)
    then show ?thesis using c d bal by (subst match.simps) simp
  next
    case front
    then have "?ok (pbind (match_frontier src ps s (p + 2)) (\<lambda>r. case r of None \<Rightarrow> Inr (None, cs) | Some ep \<Rightarrow> match src ps ep s cs))"
      using match_frontier_safe [OF s, of "p + 2" ps] p2 s
      by (intro answer_in_bind) (auto intro!: go split: option.split)
    then show ?thesis using c d front by (subst match.simps) simp
  qed
qed

lemma match_step_in:
  assumes n: "length src < 2 ^ 31" and c: "at_char ps p = Inr c"
    and mt: "\<And>q. p < q \<Longrightarrow> q \<le> length ps \<Longrightarrow> matcher_in (length src) (match src ps q)"
    and s: "s \<le> length src" and cs: "caps_in (length src) s cs"
  shows "answer_in (length src) s cs (match src ps p s cs)"
proof (cases "c = 0")
  case True
  then show ?thesis using c s cs by (subst match.simps) simp
next
  case nz: False
  let ?ok = "\<lambda>r. answer_in (length src) s cs r"
  have p: "p < length ps" using at_char_nonzero [OF c nz] .
  obtain d where d: "at_char ps (p + 1) = Inr d" using at_char_ex [of "p + 1" ps] p by auto
  have p2: "p + 2 \<le> length ps" if "d \<noteq> 0" using at_char_nonzero [OF d that] by simp
  consider (opens) "c = 40" | (closes) "c = 41" | (esc) "c = 37" | (fin) "c = 36" "d = 0"
    | (other) "c \<noteq> 40" "c \<noteq> 41" "c \<noteq> 37" "c = 36 \<Longrightarrow> d \<noteq> 0" by blast
  then show ?thesis
  proof cases
    case opens
    have 1: "?ok (start_capture (match src ps (p + 1)) s cs CAP_UNFINISHED)"
      using mt p s cs by (intro start_capture_in) auto
    have 2: "?ok (start_capture (match src ps (p + 2)) s cs CAP_POSITION)" if "d \<noteq> 0"
      using mt p2 that s cs by (intro start_capture_in) auto
    show ?thesis using opens c d 1 2 by (subst match.simps) simp
  next
    case closes
    have "?ok (end_capture (match src ps (p + 1)) s cs)" using mt p s cs by (intro end_capture_in) auto
    then show ?thesis using closes c by (subst match.simps) simp
  next
    case fin
    then show ?thesis using c d s cs by (subst match.simps) auto
  next
    case other
    have "?ok (match_dflt src ps (match src ps) s p cs)" using mt by (intro match_dflt_in [OF c nz _ s cs]) simp
    then show ?thesis using other c d nz by (subst match.simps) simp
  next
    case esc
    then show ?thesis using match_esc_in [OF n _ mt s cs] c by simp
  qed
qed

lemma match_in:
  assumes n: "length src < 2 ^ 31" and "p \<le> length ps"
  shows "matcher_in (length src) (match src ps p)"
  using assms(2)
proof (induction "length ps - p" arbitrary: p rule: less_induct)
  case less
  obtain c where c: "at_char ps p = Inr c" using at_char_ex [OF less.prems] by blast
  have mt: "matcher_in (length src) (match src ps q)" if "p < q" "q \<le> length ps" for q
    using that less.hyps [of q] by simp
  show ?case using match_step_in [OF n c mt] by (simp add: matcher_in_def)
qed

end
