(* ===== verification/Lua_Pattern_Spec.thy ===== *)
theory Lua_Pattern_Spec
  imports Lua_Pattern
begin

text \<open>
  What a pattern means, without pointers: a parser from its text to a list of items, and the list of all matches of a
  list of items at a position of the subject, the preferred one first. The matcher of \<^verbatim>\<open>lstrlib.c\<close> interprets the text
  of the pattern while it matches; for a pattern that parses and whose captures are used correctly it raises no error
  and answers with the head of that list.
\<close>

section \<open>Syntax\<close>

datatype set_item = Class u8 | Range u8 u8 | Byte u8

datatype single = Any | Letter u8 | Set bool "set_item list" | Literal u8

datatype item = Open | Open_position | Close | Balance u8 u8 | Frontier bool "set_item list" | Backref u8 | At_end
  | Once single | Optional single | Star single | Plus single | Lazy single

text \<open>The text of a set up to its closing bracket, and what follows. The first character may itself be a bracket.\<close>

function set_split :: "u8 list \<Rightarrow> (u8 list \<times> u8 list) option" where
  "set_split [] = None"
| "set_split (x # xs) =
     (let (tok, ys) = (if x = L_ESC \<and> xs \<noteq> [] then ([x, hd xs], tl xs) else ([x], xs)) in
      if ys \<noteq> [] \<and> hd ys = uchar CHR '']'' then Some (tok, tl ys)
      else map_option (\<lambda>(b, r). (tok @ b, r)) (set_split ys))"
  by pat_completeness auto
termination
  by (relation "measure length") (auto split: if_splits)

text \<open>
  The members of a set. An escape at the very end of the text, which only a range ending in an escape can leave behind
  as in \<^verbatim>\<open>[a-%%]\<close>, takes the closing bracket as its letter; the manual gives such sets no meaning.
\<close>

fun set_items :: "u8 list \<Rightarrow> set_item list" where
  "set_items [] = []"
| "set_items [x] = [if x = L_ESC then Class (uchar CHR '']'') else Byte x]"
| "set_items [x, y] = (if x = L_ESC then [Class y] else Byte x # set_items [y])"
| "set_items (x # y # z # zs) =
     (if x = L_ESC then Class y # set_items (z # zs)
      else if y = uchar CHR ''-'' then Range x z # set_items zs
      else Byte x # set_items (y # z # zs))"

definition parse_set :: "u8 list \<Rightarrow> ((bool \<times> set_item list) \<times> u8 list) option" where
  "parse_set xs =
     (let neg = (xs \<noteq> [] \<and> hd xs = uchar CHR ''^'') in
      map_option (\<lambda>(b, r). ((neg, set_items b), r)) (set_split (if neg then tl xs else xs)))"

fun parse_single :: "u8 list \<Rightarrow> (single \<times> u8 list) option" where
  "parse_single [] = None"
| "parse_single (x # xs) =
     (if x = L_ESC then (case xs of [] \<Rightarrow> None | y # ys \<Rightarrow> Some (Letter y, ys))
      else if x = uchar CHR ''['' then map_option (\<lambda>((neg, its), r). (Set neg its, r)) (parse_set xs)
      else Some (if x = uchar CHR ''.'' then Any else Literal x, xs))"

text \<open>A single-character class with its suffix.\<close>

definition suffixed :: "single \<Rightarrow> u8 list \<Rightarrow> item \<times> u8 list" where
  "suffixed sg xs =
     (case xs of [] \<Rightarrow> (Once sg, xs)
      | x # ys \<Rightarrow>
          if x = uchar CHR ''?'' then (Optional sg, ys)
          else if x = uchar CHR ''*'' then (Star sg, ys)
          else if x = uchar CHR ''+'' then (Plus sg, ys)
          else if x = uchar CHR ''-'' then (Lazy sg, ys)
          else (Once sg, xs))"

definition parse_plain :: "u8 list \<Rightarrow> (item \<times> u8 list) option" where
  "parse_plain xs = map_option (\<lambda>(sg, r). suffixed sg r) (parse_single xs)"

definition parse_escape :: "u8 list \<Rightarrow> (item \<times> u8 list) option" where
  "parse_escape xs =
     (case xs of [] \<Rightarrow> None
      | d # ys \<Rightarrow>
          if d = uchar CHR ''b'' then (case ys of b # e # zs \<Rightarrow> Some (Balance b e, zs) | _ \<Rightarrow> None)
          else if d = uchar CHR ''f'' then
            (case ys of [] \<Rightarrow> None
             | x # zs \<Rightarrow> if x = uchar CHR ''['' then map_option (\<lambda>((neg, its), r). (Frontier neg its, r)) (parse_set zs) else None)
          else if isdigit d then Some (Backref d, ys)
          else parse_plain (L_ESC # xs))"

definition parse_item :: "u8 list \<Rightarrow> (item \<times> u8 list) option" where
  "parse_item xs =
     (case xs of [] \<Rightarrow> None
      | x # ys \<Rightarrow>
          if x = uchar CHR ''('' then
            if ys \<noteq> [] \<and> hd ys = uchar CHR '')'' then Some (Open_position, tl ys) else Some (Open, ys)
          else if x = uchar CHR '')'' then Some (Close, ys)
          else if x = L_ESC then parse_escape ys
          else if x = uchar CHR ''$'' \<and> ys = [] then Some (At_end, [])
          else parse_plain xs)"

lemma set_split_shorter: "set_split xs = Some (b, r) \<Longrightarrow> length r < length xs"
  by (induction xs arbitrary: b r rule: set_split.induct)
    (fastforce simp: Let_def split: if_splits prod.splits)+

lemma parse_set_shorter: "parse_set xs = Some (x, r) \<Longrightarrow> length r < length xs"
  by (auto simp: parse_set_def Let_def dest!: set_split_shorter split: if_splits)

lemma parse_single_shorter: "parse_single xs = Some (sg, r) \<Longrightarrow> length r < length xs"
  by (cases xs) (auto dest!: parse_set_shorter split: if_splits list.splits)

lemma suffixed_shorter: "length (snd (suffixed sg xs)) \<le> length xs"
  by (auto simp: suffixed_def split: list.splits)

lemma parse_plain_shorter: "parse_plain xs = Some (it, r) \<Longrightarrow> length r < length xs"
proof -
  assume "parse_plain xs = Some (it, r)"
  then obtain sg ys where "parse_single xs = Some (sg, ys)" "suffixed sg ys = (it, r)" by (auto simp: parse_plain_def)
  then show ?thesis using parse_single_shorter suffixed_shorter [of sg ys] by fastforce
qed

lemma parse_item_shorter: "parse_item xs = Some (it, r) \<Longrightarrow> length r < length xs"
  by (auto simp: parse_item_def parse_escape_def dest!: parse_set_shorter parse_plain_shorter split: if_splits list.splits)

function parse :: "u8 list \<Rightarrow> item list option" where
  "parse xs =
     (if xs = [] then Some []
      else case parse_item xs of None \<Rightarrow> None
        | Some (it, r) \<Rightarrow> map_option (\<lambda>its. it # its) (parse r))"
  by pat_completeness auto
termination
  by (relation "measure length") (auto dest: parse_item_shorter)

declare parse.simps [simp del]

section \<open>Matches\<close>

fun item_has :: "u8 \<Rightarrow> set_item \<Rightarrow> bool" where
  "item_has c (Class cl) = match_class c cl"
| "item_has c (Range x z) = (x \<le> c \<and> c \<le> z)"
| "item_has c (Byte x) = (x = c)"

definition set_has :: "bool \<Rightarrow> set_item list \<Rightarrow> u8 \<Rightarrow> bool" where
  "set_has neg its c = (neg \<noteq> list_ex (item_has c) its)"

fun sat :: "single \<Rightarrow> u8 \<Rightarrow> bool" where
  "sat Any c = True"
| "sat (Letter cl) c = match_class c cl"
| "sat (Set neg its) c = set_has neg its c"
| "sat (Literal x) c = (x = c)"

text \<open>The end of the shortest balanced text that starts at \<open>s\<close>; with two equal delimiters, the next one closes it.\<close>

definition balanced :: "u8 \<Rightarrow> u8 \<Rightarrow> u8 list \<Rightarrow> bool" where
  "balanced b e xs \<longleftrightarrow> count_list xs e = (if b = e then 2 else count_list xs b)"

definition balance_ends :: "u8 list \<Rightarrow> u8 \<Rightarrow> u8 \<Rightarrow> nat \<Rightarrow> nat option" where
  "balance_ends src b e s =
     (if s < length src \<and> src ! s = b then find (\<lambda>t. balanced b e (take (t - s) (drop s src))) [s + 1..<length src + 1] else None)"

text \<open>How often a class matches in a row.\<close>

definition run_length :: "u8 list \<Rightarrow> single \<Rightarrow> nat \<Rightarrow> nat" where
  "run_length src sg s = length (takeWhile (sat sg) (drop s src))"

definition last_open :: "captures \<Rightarrow> nat" where
  "last_open cs = last (filter (\<lambda>l. len (cs ! l) = CAP_UNFINISHED) [0..<length cs])"

text \<open>The byte before and the byte at a position, zero outside the subject.\<close>

definition byte_at :: "u8 list \<Rightarrow> nat \<Rightarrow> u8" where
  "byte_at src i = (if i < length src then src ! i else 0)"

definition backref_end :: "u8 list \<Rightarrow> capture \<Rightarrow> nat \<Rightarrow> nat option" where
  "backref_end src c s =
     (let n = nat (len c) in
      if len c \<noteq> CAP_POSITION \<and> s + n \<le> length src \<and> take n (drop (init c) src) = take n (drop s src) then Some (s + n) else None)"

fun item_ends :: "u8 list \<Rightarrow> item \<Rightarrow> nat \<Rightarrow> captures \<Rightarrow> (nat \<times> captures) list" where
  "item_ends src Open s cs = [(s, cs @ [\<lparr>init = s, len = CAP_UNFINISHED\<rparr>])]"
| "item_ends src Open_position s cs = [(s, cs @ [\<lparr>init = s, len = CAP_POSITION\<rparr>])]"
| "item_ends src Close s cs =
     (let l = last_open cs in [(s, cs[l := (cs ! l)\<lparr>len := int (s - init (cs ! l))\<rparr>])])"
| "item_ends src (Balance b e) s cs = (case balance_ends src b e s of None \<Rightarrow> [] | Some t \<Rightarrow> [(t, cs)])"
| "item_ends src (Frontier neg its) s cs =
     (if \<not> set_has neg its (if s = 0 then 0 else byte_at src (s - 1)) \<and> set_has neg its (byte_at src s) then [(s, cs)] else [])"
| "item_ends src (Backref d) s cs =
     (case backref_end src (cs ! nat (uint d - 49)) s of None \<Rightarrow> [] | Some t \<Rightarrow> [(t, cs)])"
| "item_ends src At_end s cs = (if s = length src then [(s, cs)] else [])"
| "item_ends src (Once sg) s cs = (if s < length src \<and> sat sg (src ! s) then [(s + 1, cs)] else [])"
| "item_ends src (Optional sg) s cs = (if s < length src \<and> sat sg (src ! s) then [(s + 1, cs), (s, cs)] else [(s, cs)])"
| "item_ends src (Star sg) s cs = map (\<lambda>i. (s + i, cs)) (rev [0..<run_length src sg s + 1])"
| "item_ends src (Plus sg) s cs = map (\<lambda>i. (s + i, cs)) (rev [1..<run_length src sg s + 1])"
| "item_ends src (Lazy sg) s cs = map (\<lambda>i. (s + i, cs)) [0..<run_length src sg s + 1]"

text \<open>All ways to match the items one after the other.\<close>

fun matches :: "u8 list \<Rightarrow> item list \<Rightarrow> nat \<Rightarrow> captures \<Rightarrow> (nat \<times> captures) list" where
  "matches src [] s cs = [(s, cs)]"
| "matches src (it # its) s cs = concat (map (\<lambda>(t, cs). matches src its t cs) (item_ends src it s cs))"

text \<open>The answer that takes the preferred one.\<close>

definition first_of :: "captures \<Rightarrow> (nat \<times> captures) list \<Rightarrow> matched" where
  "first_of cs ms = (case ms of [] \<Rightarrow> (None, cs) | (e, cs') # _ \<Rightarrow> (Some e, cs'))"

text \<open>
  Captures used correctly, with the captures so far given by whether each is closed: at most 32 of them, no closing
  parenthesis without an open one, and references to closed captures only.
\<close>

definition close_last :: "bool list \<Rightarrow> bool list" where
  "close_last fs = fs[last (filter (\<lambda>l. \<not> fs ! l) [0..<length fs]) := True]"

fun caps_valid :: "item list \<Rightarrow> bool list \<Rightarrow> bool" where
  "caps_valid [] fs = True"
| "caps_valid (Open # its) fs = (length fs < LUA_MAXCAPTURES \<and> caps_valid its (fs @ [False]))"
| "caps_valid (Open_position # its) fs = (length fs < LUA_MAXCAPTURES \<and> caps_valid its (fs @ [True]))"
| "caps_valid (Close # its) fs = (False \<in> set fs \<and> caps_valid its (close_last fs))"
| "caps_valid (Backref d # its) fs =
     (49 \<le> uint d \<and> uint d - 49 < int (length fs) \<and> fs ! nat (uint d - 49) \<and> caps_valid its fs)"
| "caps_valid (_ # its) fs = caps_valid its fs"

section \<open>The text of a pattern at a position\<close>

definition text_at :: "u8 list \<Rightarrow> nat \<Rightarrow> u8 list \<Rightarrow> bool" where
  "text_at ps p xs \<longleftrightarrow> p \<le> length ps \<and> takeWhile (\<lambda>x. x \<noteq> 0) (drop p ps) = xs"

lemma text_at_Nil: "text_at ps p [] \<Longrightarrow> at_char ps p = Inr 0"
  by (auto simp: text_at_def at_char_def takeWhile_eq_Nil_iff hd_drop_conv_nth)

lemma text_at_Cons:
  assumes "text_at ps p (x # xs)"
  shows "at_char ps p = Inr x" "x \<noteq> 0" "text_at ps (p + 1) xs"
proof -
  have p: "p < length ps" using assms by (cases "p < length ps") (auto simp: text_at_def)
  then have "drop p ps = ps ! p # drop (p + 1) ps" by (simp add: Cons_nth_drop_Suc)
  then have "ps ! p = x" "x \<noteq> 0" "takeWhile (\<lambda>x. x \<noteq> 0) (drop (p + 1) ps) = xs"
    using assms unfolding text_at_def by (auto split: if_splits)
  then show "at_char ps p = Inr x" "x \<noteq> 0" "text_at ps (p + 1) xs"
    using p by (auto simp: at_char_def text_at_def)
qed

lemma text_at_append: "text_at ps p (xs @ ys) \<Longrightarrow> text_at ps (p + length xs) ys"
proof (induction xs arbitrary: p)
  case (Cons x xs)
  then show ?case using Cons.IH [of "p + 1"] text_at_Cons(3) [of ps p x "xs @ ys"] by simp
qed simp

lemma text_at_next: "text_at ps p xs \<Longrightarrow> at_char ps p = Inr (if xs = [] then 0 else hd xs)"
  using text_at_Nil text_at_Cons(1) by (cases xs) auto

lemma text_at_le: "text_at ps p xs \<Longrightarrow> p + length xs \<le> length ps"
  using text_at_append [of ps p xs "[]"] by (simp add: text_at_def)

section \<open>Sets and single characters\<close>

lemma set_split_eq: "set_split xs = Some (b, r) \<Longrightarrow> xs = b @ uchar CHR '']'' # r"
proof (induction xs arbitrary: b r rule: set_split.induct)
  case (2 x xs)
  define ty where "ty = (if x = L_ESC \<and> xs \<noteq> [] then ([x, hd xs], tl xs) else ([x], xs))"
  obtain tok ys where ty: "ty = (tok, ys)" by fastforce
  have all: "x # xs = tok @ ys" using ty by (auto simp: ty_def split: if_splits)
  show ?case
  proof (cases "ys \<noteq> [] \<and> hd ys = uchar CHR '']''")
    case True
    then show ?thesis using 2 all ty unfolding set_split.simps ty_def [symmetric] by (auto simp: neq_Nil_conv)
  next
    case False
    then obtain b' where "set_split ys = Some (b', r)" "b = tok @ b'"
      using "2.prems" ty unfolding set_split.simps ty_def [symmetric] by auto
    then show ?thesis using "2.IH" [OF ty_def ty [symmetric] False] all by simp
  qed
qed simp

lemma bracket_end_text:
  "set_split xs = Some (b, r) \<Longrightarrow> text_at ps p xs \<Longrightarrow> bracket_end ps p = Inr (p + length b + 1)"
proof (induction xs arbitrary: b r p rule: set_split.induct)
  case (2 x xs)
  define ty where "ty = (if x = L_ESC \<and> xs \<noteq> [] then ([x, hd xs], tl xs) else ([x], xs))"
  obtain tok ys where ty: "ty = (tok, ys)" by fastforce
  note x = text_at_Cons [OF "2.prems"(2)]
  have all: "x # xs = tok @ ys" using ty by (auto simp: ty_def split: if_splits)
  have ys: "text_at ps (p + length tok) ys" using "2.prems"(2) unfolding all by (rule text_at_append)
  have d: "at_char ps (p + 1) = Inr (if xs = [] then 0 else hd xs)" using text_at_next [OF x(3)] .
  have "xs \<noteq> [] \<Longrightarrow> hd xs \<noteq> 0" using x(3) text_at_Cons(2) by (cases xs) auto
  then have tok: "(if x = L_ESC then pbind (at_char ps (p + 1)) (\<lambda>d. Inr (if d \<noteq> 0 then p + 2 else p + 1)) else Inr (p + 1))
      = (Inr (p + length tok) :: str_err + nat)"
    using ty d by (auto simp: ty_def split: if_splits)
  show ?case
  proof (cases "ys \<noteq> [] \<and> hd ys = uchar CHR '']''")
    case True
    then have "b = tok" using "2.prems" ty unfolding set_split.simps ty_def [symmetric] by auto
    then show ?thesis
      using x tok text_at_next [OF ys] True by (subst bracket_end.simps) (simp del: L_ESC_def)
  next
    case False
    then obtain b' where b': "set_split ys = Some (b', r)" "b = tok @ b'"
      using "2.prems" ty unfolding set_split.simps ty_def [symmetric] by auto
    have "bracket_end ps (p + length tok) = Inr (p + length tok + length b' + 1)"
      using "2.IH" [OF ty_def ty [symmetric] False b'(1) ys] .
    then show ?thesis
      using x tok text_at_next [OF ys] False b'(2) by (subst bracket_end.simps) (auto simp del: L_ESC_def)
  qed
qed simp

lemma bracket_loop_end [simp]: "ec \<le> p \<Longrightarrow> bracket_loop ps c sig p ec = Inr (\<not> sig)"
  by (subst bracket_loop.simps) simp

lemma bracket_loop_text:
  "text_at ps p (b @ uchar CHR '']'' # r) \<Longrightarrow>
    bracket_loop ps c sig p (p + length b) = Inr (sig = list_ex (item_has c) (set_items b))"
proof (induction b arbitrary: p rule: set_items.induct)
  case 1
  then show ?case by (subst bracket_loop.simps) simp
next
  case (2 x)
  then have "at_char ps p = Inr x" "at_char ps (p + 1) = Inr 93"
    using text_at_Cons [of ps p x "[93] @ r"] text_at_Cons(1) [of ps "p + 1" 93 r] by auto
  then show ?case by (subst bracket_loop.simps) simp
next
  case (3 x y)
  then have t: "text_at ps (p + 1) ([y] @ uchar CHR '']'' # r)" using text_at_Cons(3) [of ps p x] by simp
  have "at_char ps p = Inr x" "at_char ps (p + 1) = Inr y"
    using "3.prems" text_at_Cons(1) [OF t [simplified]] text_at_Cons(1) [of ps p x] by auto
  then show ?case using "3.IH" [OF _ t]
    by (subst bracket_loop.simps) simp
next
  case (4 x y z zs)
  have ty: "text_at ps (p + 1) (y # z # zs @ uchar CHR '']'' # r)" using "4.prems" text_at_Cons(3) [of ps p x] by simp
  have tz: "text_at ps (p + 2) (z # zs @ uchar CHR '']'' # r)" using text_at_Cons(3) [OF ty] by simp
  have tr: "text_at ps (p + 3) (zs @ uchar CHR '']'' # r)" using text_at_Cons(3) [OF tz] by (simp add: numeral_3_eq_3)
  have at: "at_char ps p = Inr x" "at_char ps (p + 1) = Inr y" "at_char ps (p + 2) = Inr z"
    using "4.prems" text_at_Cons(1) [OF ty] text_at_Cons(1) [OF tz] text_at_Cons(1) [of ps p x] by auto
  consider "x = L_ESC" | "x \<noteq> L_ESC" "y = uchar CHR ''-''" | "x \<noteq> L_ESC" "y \<noteq> uchar CHR ''-''" by blast
  then show ?case
  proof cases
    case 1
    have "bracket_loop ps c sig (p + 2) (p + 2 + length (z # zs)) = Inr (sig = list_ex (item_has c) (set_items (z # zs)))"
      using 1 tz by (intro "4.IH"(1)) simp_all
    then show ?thesis using 1 at by (subst bracket_loop.simps) auto
  next
    case 2
    have "bracket_loop ps c sig (p + 3) (p + 3 + length zs) = Inr (sig = list_ex (item_has c) (set_items zs))"
      using 2 tr by (intro "4.IH"(2))
    then show ?thesis using 2 at by (subst bracket_loop.simps) (auto simp: numeral_3_eq_3)
  next
    case 3
    have "bracket_loop ps c sig (p + 1) (p + 1 + length (y # z # zs)) = Inr (sig = list_ex (item_has c) (set_items (y # z # zs)))"
      using 3 ty by (intro "4.IH"(3)) simp_all
    then show ?thesis using 3 at by (subst bracket_loop.simps) auto
  qed
qed

lemma set_text:
  assumes "parse_set xs = Some ((neg, its), r)" and "text_at ps p (uchar CHR ''['' # xs)"
  shows "\<exists>ep. classend ps p = Inr ep \<and> text_at ps ep r \<and> (\<forall>c. matchbracketclass ps c p (ep - 1) = Inr (set_has neg its c))"
proof -
  define q where "q = (if neg then p + 2 else p + 1)"
  note x = text_at_Cons [OF assms(2)]
  obtain b where b: "set_split (if neg then tl xs else xs) = Some (b, r)" "its = set_items b"
    and neg: "neg \<longleftrightarrow> xs \<noteq> [] \<and> hd xs = uchar CHR ''^''"
    using assms(1) by (auto simp: parse_set_def Let_def)
  have t: "text_at ps q (if neg then tl xs else xs)"
    using x(3) neg text_at_Cons(3) by (cases xs) (auto simp: q_def)
  have t': "text_at ps q (b @ uchar CHR '']'' # r)" using t unfolding set_split_eq [OF b(1)] .
  have d: "at_char ps (p + 1) = Inr (if xs = [] then 0 else hd xs)" using text_at_next [OF x(3)] .
  have "classend ps p = Inr (q + length b + 1)"
    using x(1) d neg bracket_end_text [OF b(1) t] by (auto simp: classend_def q_def)
  moreover have "text_at ps (q + length b + 1) r" using text_at_Cons(3) [OF text_at_append [OF t']] .
  moreover have "matchbracketclass ps c p (q + length b + 1 - 1) = Inr (set_has neg its c)" for c
    using bracket_loop_text [OF t', of c "\<not> neg"] d neg b(2)
    by (auto simp: matchbracketclass_def q_def set_has_def)
  ultimately show ?thesis by blast
qed

lemma single_text:
  assumes "parse_single xs = Some (sg, r)" and "text_at ps p xs"
  shows "\<exists>ep. classend ps p = Inr ep \<and> text_at ps ep r \<and> (\<forall>c. singlematch ps c p ep = Inr (sat sg c))"
proof (cases xs)
  case (Cons x ys)
  note x = text_at_Cons [OF assms(2) [unfolded Cons]]
  consider (esc) "x = L_ESC" | (set) "x = uchar CHR ''[''" | (any) "x = uchar CHR ''.''"
    | (lit) "x \<noteq> L_ESC" "x \<noteq> uchar CHR ''[''" "x \<noteq> uchar CHR ''.''" by blast
  then show ?thesis
  proof cases
    case esc
    then obtain d where d: "ys = d # r" "sg = Letter d" using assms(1) Cons by (auto split: list.splits)
    show ?thesis using esc x d text_at_Cons [OF x(3) [unfolded d]] by (auto simp: classend_def singlematch_def)
  next
    case set
    then obtain neg its where p: "parse_set ys = Some ((neg, its), r)" "sg = Set neg its"
      using assms(1) Cons by auto
    show ?thesis using set_text [OF p(1), of ps p] assms(2) Cons set x p(2) by (auto simp: singlematch_def)
  next
    case any
    then show ?thesis using assms(1) Cons x by (auto simp: classend_def singlematch_def)
  next
    case lit
    then show ?thesis using assms(1) Cons x by (auto simp: classend_def singlematch_def)
  qed
qed (use assms in simp)

section \<open>Balanced text\<close>

text \<open>How many closing delimiters are missing.\<close>

definition missing :: "u8 \<Rightarrow> u8 \<Rightarrow> u8 list \<Rightarrow> int" where
  "missing b e xs = int (if b = e then 2 else count_list xs b) - int (count_list xs e)"

lemma balanced_missing: "balanced b e xs \<longleftrightarrow> missing b e xs = 0"
  by (auto simp: balanced_def missing_def)

lemma missing_snoc:
  "missing b e (xs @ [x]) = (if x = e then missing b e xs - 1 else if x = b then missing b e xs + 1 else missing b e xs)"
  by (auto simp: missing_def)

lemma balance_loop_text:
  assumes "length src < 2 ^ 31" and "s < t" and "t \<le> length src" and "0 < missing b e (take (t - s) (drop s src))"
  shows "balance_loop src b e (missing b e (take (t - s) (drop s src))) t =
    Inr (find (\<lambda>u. balanced b e (take (u - s) (drop s src))) [t + 1..<length src + 1])"
  using assms(2-)
proof (induction "length src - t" arbitrary: t rule: less_induct)
  case less
  let ?seg = "\<lambda>t. take (t - s) (drop s src)"
  show ?case
  proof (cases "t < length src")
    case True
    have seg: "?seg (t + 1) = ?seg t @ [src ! t]" using True less.prems
      by (simp add: Suc_diff_le take_Suc_conv_app_nth)
    have up: "[t + 1..<length src + 1] = (t + 1) # [t + 1 + 1..<length src + 1]" using True by (simp add: upt_conv_Cons)
    have "count_list (?seg t) b \<le> length (?seg t)" by (rule count_le_length)
    then have small: "missing b e (?seg t) + 1 < 2 ^ 31" using assms(1) True less.prems by (auto simp: missing_def)
    have ih: "balance_loop src b e (missing b e (?seg (t + 1))) (t + 1) =
        Inr (find (\<lambda>u. balanced b e (?seg u)) [t + 1 + 1..<length src + 1])" if "0 < missing b e (?seg (t + 1))"
      using that True less.prems by (intro less.hyps) auto
    have at: "at_char src t = Inr (src ! t)" using True by (simp add: at_char_def)
    have nb: "missing b e (?seg (t + 1)) = (if src ! t = e then missing b e (?seg t) - 1
        else if src ! t = b then missing b e (?seg t) + 1 else missing b e (?seg t))"
      unfolding seg by (rule missing_snoc)
    define k k' where k: "k = missing b e (?seg t)" and k': "k' = missing b e (?seg (t + 1))"
    have step: "balance_loop src b e k t = (if k' = 0 then Inr (Some (t + 1)) else balance_loop src b e k' (t + 1))"
      using nb small less.prems(3) unfolding k [symmetric] k' [symmetric]
      by (subst balance_loop.simps) (simp add: True at)
    have "0 \<le> k'" using nb less.prems(3) unfolding k [symmetric] k' [symmetric] by (auto split: if_splits)
    then show ?thesis unfolding up find.simps balanced_missing k [symmetric] k' [symmetric] step
      using ih unfolding balanced_missing k' [symmetric] by simp
  qed (use less.prems in \<open>subst balance_loop.simps, simp\<close>)
qed

lemma balance_text:
  assumes "length src < 2 ^ 31" and s: "s \<le> length src" and t: "text_at ps p (b # e # zs)"
  shows "matchbalance src ps s p = Inr (balance_ends src b e s)"
proof -
  note b = text_at_Cons [OF t] and e = text_at_Cons [OF text_at_Cons(3) [OF t]]
  show ?thesis
  proof (cases "s < length src \<and> src ! s = b")
    case True
    have "take (s + 1 - s) (drop s src) = [b]" using True by (simp add: take_Suc_conv_app_nth)
    moreover have "missing b e [b] = 1" by (simp add: missing_def)
    ultimately have "balance_loop src b e 1 (s + 1) =
        Inr (find (\<lambda>u. balanced b e (take (u - s) (drop s src))) [s + 1 + 1..<length src + 1])"
      using balance_loop_text [OF assms(1), of s "s + 1" b e] True by simp
    moreover have "find (\<lambda>u. balanced b e (take (u - s) (drop s src))) [s + 1..<length src + 1] =
        find (\<lambda>u. balanced b e (take (u - s) (drop s src))) [s + 1 + 1..<length src + 1]"
    proof -
      have up: "[s + 1..<length src + 1] = (s + 1) # [s + 1 + 1..<length src + 1]" using True by (simp add: upt_conv_Cons)
      show ?thesis unfolding up find.simps balanced_missing
        using \<open>missing b e [b] = 1\<close> \<open>take (s + 1 - s) (drop s src) = [b]\<close> by simp
    qed
    moreover have "at_char src s = Inr b" using True by (simp add: at_char_def)
    ultimately show ?thesis using True b e by (simp add: matchbalance_def balance_ends_def)
  next
    case False
    then have "at_char src s = Inr (if s < length src then src ! s else 0)" using s by (simp add: at_char_def)
    then show ?thesis using False b e by (auto simp: matchbalance_def balance_ends_def)
  qed
qed

section \<open>Captures\<close>

abbreviation closed :: "captures \<Rightarrow> bool list" where
  "closed cs \<equiv> map (\<lambda>c. len c \<noteq> CAP_UNFINISHED) cs"

lemma close_loop_text:
  "close_loop cs n = (let ls = filter (\<lambda>l. len (cs ! l) = CAP_UNFINISHED) [0..<n] in
    if ls = [] then Inl Invalid_pattern_capture else Inr (last ls))"
  by (induction n) (auto simp: Let_def)

lemma capture_to_close_text: "False \<in> set (closed cs) \<Longrightarrow> capture_to_close cs = Inr (last_open cs)"
  by (auto simp: capture_to_close_def close_loop_text last_open_def Let_def filter_empty_conv in_set_conv_nth)

lemma last_open_ok:
  assumes "False \<in> set (closed cs)"
  shows "last_open cs < length cs" and "len (cs ! last_open cs) = CAP_UNFINISHED"
  using close_loop_cases [OF order_refl, of cs] capture_to_close_text [OF assms] by (auto simp: capture_to_close_def)

lemma close_last_closed:
  assumes "False \<in> set (closed cs)" and "0 \<le> v"
  shows "closed (cs[last_open cs := (cs ! last_open cs)\<lparr>len := v\<rparr>]) = close_last (closed cs)"
proof -
  have "filter (\<lambda>l. \<not> closed cs ! l) [0..<length cs] = filter (\<lambda>l. len (cs ! l) = CAP_UNFINISHED) [0..<length cs]"
    by (intro filter_cong) auto
  then show ?thesis using assms by (simp add: map_update close_last_def last_open_def)
qed

lemma first_of_simps [simp]:
  "first_of cs [] = (None, cs)"
  "first_of cs ((e, cs') # ms) = (Some e, cs')"
  by (simp_all add: first_of_def)

lemma first_of_append: "first_of cs (xs @ ys) = (if xs = [] then first_of cs ys else first_of cs xs)"
  by (cases xs) (auto simp: first_of_def)

text \<open>Running a second matcher when the first fails takes the preferred match of the two lists together.\<close>

lemma first_else:
  "m = Inr (first_of cs xs) \<Longrightarrow> f cs = Inr (first_of cs ys) \<Longrightarrow>
    pbind m (\<lambda>(r, cs). if r \<noteq> None then Inr (r, cs) else f cs) = Inr (first_of cs (xs @ ys))"
  by (cases xs) auto

lemma start_capture_text:
  assumes "length cs < LUA_MAXCAPTURES"
    and "m s (cs @ [\<lparr>init = s, len = what\<rparr>]) = Inr (first_of (cs @ [\<lparr>init = s, len = what\<rparr>]) ms)"
  shows "start_capture m s cs what = Inr (first_of cs ms)"
  using assms by (cases ms) (auto simp: start_capture_def)

lemma end_capture_text:
  fixes cs s
  defines "l \<equiv> last_open cs"
  defines "cs' \<equiv> cs[l := (cs ! l)\<lparr>len := int s - int (init (cs ! l))\<rparr>]"
  assumes "False \<in> set (closed cs)" and "m s cs' = Inr (first_of cs' ms)"
  shows "end_capture m s cs = Inr (first_of cs ms)"
proof -
  have l: "l < length cs" "len (cs ! l) = CAP_UNFINISHED" using last_open_ok [OF assms(3)] by (simp_all add: l_def)
  have "cs'[l := (cs' ! l)\<lparr>len := CAP_UNFINISHED\<rparr>] = cs"
    using l unfolding cs'_def by (cases "cs ! l") (auto intro: list_update_same_conv [THEN iffD2])
  then show ?thesis
    using assms(4) capture_to_close_text [OF assms(3)] unfolding end_capture_def
    by (cases ms) (auto simp flip: l_def cs'_def)
qed

lemma match_capture_text:
  assumes "length src < 2 ^ 31" "s \<le> length src" "caps_in (length src) s cs"
    and d: "49 \<le> uint d" "uint d - 49 < int (length cs)" "closed cs ! nat (uint d - 49)"
  shows "match_capture src cs s d = Inr (backref_end src (cs ! nat (uint d - 49)) s)"
proof -
  define l where "l = nat (uint d - 49)"
  have l: "l < length cs" "len (cs ! l) \<noteq> CAP_UNFINISHED" using d by (auto simp: l_def)
  have chk: "check_capture cs d = Inr l" using d l by (auto simp: check_capture_def Let_def l_def)
  have "cap_in (length src) s (cs ! l)" using assms(3) l by (simp add: caps_in_def)
  then consider "len (cs ! l) = - 2" | "0 \<le> len (cs ! l)" "int (init (cs ! l)) + len (cs ! l) \<le> int (length src)"
    using l(2) by (auto simp: cap_in_def)
  then show ?thesis
  proof cases
    case 1
    then show ?thesis using assms(1) chk by (auto simp: match_capture_def backref_end_def l_def [symmetric])
  next
    case 2
    then have "len (cs ! l) mod 2 ^ 64 = len (cs ! l)" using assms(1) by simp
    moreover have "init (cs ! l) + nat (len (cs ! l)) \<le> length src" using 2 by linarith
    moreover have "length src - s \<ge> nat (len (cs ! l)) \<longleftrightarrow> s + nat (len (cs ! l)) \<le> length src" using assms(2) by linarith
    ultimately show ?thesis using 2 chk unfolding match_capture_def backref_end_def l_def [symmetric]
      by (simp add: mem_range_def Let_def)
  qed
qed

section \<open>Repetitions\<close>

lemma expand_count_text:
  assumes "\<And>c. singlematch ps c p ep = Inr (sat sg c)"
  shows "expand_count src ps s p ep i = Inr (i + run_length src sg (s + i))"
proof (induction "length src - (s + i)" arbitrary: i rule: less_induct)
  case less
  show ?case
  proof (cases "s + i < length src")
    case True
    have at: "at_char src (s + i) = Inr (src ! (s + i))" using True by (simp add: at_char_def)
    have "drop (s + i) src = src ! (s + i) # drop (s + (i + 1)) src" using True by (simp add: Cons_nth_drop_Suc)
    then have "run_length src sg (s + i) = (if sat sg (src ! (s + i)) then run_length src sg (s + (i + 1)) + 1 else 0)"
      by (simp add: run_length_def)
    then show ?thesis using True at assms less.hyps [of "i + 1"] by (subst expand_count.simps) simp
  qed (subst expand_count.simps, simp add: run_length_def)
qed

lemma run_length_step:
  "run_length src sg s = (if s < length src \<and> sat sg (src ! s) then run_length src sg (s + 1) + 1 else 0)"
  by (cases "s < length src") (simp_all add: run_length_def Cons_nth_drop_Suc [symmetric])

lemma run_length_le: "s \<le> length src \<Longrightarrow> s + run_length src sg s \<le> length src"
  using length_takeWhile_le [of "sat sg" "drop s src"] by (simp add: run_length_def)

text \<open>The ends of a repetition are those of the runs of matching characters, as the manual describes them.\<close>

lemma run_length_iff: "s + i \<le> length src \<Longrightarrow> i \<le> run_length src sg s \<longleftrightarrow> (\<forall>k. s \<le> k \<longrightarrow> k < s + i \<longrightarrow> sat sg (src ! k))"
proof (induction i arbitrary: s)
  case (Suc i)
  have "Suc i \<le> run_length src sg s \<longleftrightarrow> sat sg (src ! s) \<and> i \<le> run_length src sg (s + 1)"
    using Suc.prems by (subst run_length_step) simp
  also have "i \<le> run_length src sg (s + 1) \<longleftrightarrow> (\<forall>k. s + 1 \<le> k \<longrightarrow> k < s + 1 + i \<longrightarrow> sat sg (src ! k))"
    using Suc.prems by (intro Suc.IH) simp
  finally have "Suc i \<le> run_length src sg s \<longleftrightarrow> sat sg (src ! s) \<and> (\<forall>k. s + 1 \<le> k \<longrightarrow> k < s + 1 + i \<longrightarrow> sat sg (src ! k))" .
  moreover have "(\<forall>k. s \<le> k \<longrightarrow> k < s + Suc i \<longrightarrow> P k) \<longleftrightarrow> P s \<and> (\<forall>k. s + 1 \<le> k \<longrightarrow> k < s + 1 + i \<longrightarrow> P k)" for P
  proof
    assume h: "P s \<and> (\<forall>k. s + 1 \<le> k \<longrightarrow> k < s + 1 + i \<longrightarrow> P k)"
    have "P k" if "s \<le> k" "k < s + Suc i" for k using h that by (cases "k = s") auto
    then show "\<forall>k. s \<le> k \<longrightarrow> k < s + Suc i \<longrightarrow> P k" by blast
  qed auto
  ultimately show ?case by simp
qed simp

lemma star_ends:
  assumes "s \<le> length src"
  shows "(t, cs') \<in> set (item_ends src (Star sg) s cs) \<longleftrightarrow>
    cs' = cs \<and> s \<le> t \<and> t \<le> length src \<and> (\<forall>k. s \<le> k \<longrightarrow> k < t \<longrightarrow> sat sg (src ! k))"
proof -
  have "(t, cs') \<in> set (item_ends src (Star sg) s cs) \<longleftrightarrow> cs' = cs \<and> s \<le> t \<and> t - s \<le> run_length src sg s"
  proof -
    have "(t, cs') \<in> set (item_ends src (Star sg) s cs) \<longleftrightarrow> (\<exists>i \<in> {0..<run_length src sg s + 1}. t = s + i \<and> cs' = cs)"
      by (auto simp del: upt_Suc)
    also have "\<dots> \<longleftrightarrow> cs' = cs \<and> s \<le> t \<and> t - s \<le> run_length src sg s"
      by (auto intro!: bexI [of _ "t - s"])
    finally show ?thesis .
  qed
  moreover have "t - s \<le> run_length src sg s \<longleftrightarrow> t \<le> length src \<and> (\<forall>k. s \<le> k \<longrightarrow> k < t \<longrightarrow> sat sg (src ! k))" if "s \<le> t"
    using run_length_iff [of s "t - s" src sg] run_length_le [OF assms, of sg] that by auto
  ultimately show ?thesis by auto
qed

lemma expand_back_text:
  assumes "\<And>j. j \<le> i \<Longrightarrow> m (s + j) cs = Inr (first_of cs (K (s + j)))"
  shows "expand_back m s i cs = Inr (first_of cs (concat (map (\<lambda>j. K (s + j)) (rev [0..<i + 1]))))"
  using assms
proof (induction i)
  case 0
  then have "m s cs = Inr (first_of cs (K s))" by simp
  then show ?case unfolding expand_back_simps using first_else [of "m s cs" cs "K s" "\<lambda>cs. Inr (None, cs)" "[]"] by simp
next
  case (Suc i)
  have "expand_back m s (Suc i) cs = Inr (first_of cs (K (s + Suc i) @ concat (map (\<lambda>j. K (s + j)) (rev [0..<i + 1]))))"
    unfolding expand_back_simps using Suc.IH Suc.prems [of "Suc i"] Suc.prems by (intro first_else) auto
  then show ?case by simp
qed

lemma max_expand_text:
  assumes "\<And>c. singlematch ps c p ep = Inr (sat sg c)" and "s \<le> length src"
    and "\<And>t. s \<le> t \<Longrightarrow> t \<le> length src \<Longrightarrow> m t cs = Inr (first_of cs (K t))"
  shows "max_expand src ps m s p ep cs = Inr (first_of cs (concat (map (\<lambda>j. K (s + j)) (rev [0..<run_length src sg s + 1]))))"
  unfolding max_expand_def expand_count_text [OF assms(1)]
  using expand_back_text [of "run_length src sg s" m s cs K] run_length_le [OF assms(2), of sg] assms(3) by simp

lemma min_expand_text:
  assumes "\<And>c. singlematch ps c p ep = Inr (sat sg c)" and "s \<le> length src"
    and "\<And>t. s \<le> t \<Longrightarrow> t \<le> length src \<Longrightarrow> m t cs = Inr (first_of cs (K t))"
  shows "min_expand src ps m s p ep cs = Inr (first_of cs (concat (map (\<lambda>j. K (s + j)) [0..<run_length src sg s + 1])))"
  using assms(2,3)
proof (induction "length src - s" arbitrary: s rule: less_induct)
  case less
  let ?rest = "\<lambda>s. concat (map (\<lambda>j. K (s + j)) [0..<run_length src sg s + 1])"
  let ?next = "\<lambda>cs. if s < length src then
       pbind (at_char src s) (\<lambda>c. pbind (singlematch ps c p ep) (\<lambda>b.
         if b then min_expand src ps m (s + 1) p ep cs else Inr (None, cs)))
     else Inr (None, cs)"
  have m: "m s cs = Inr (first_of cs (K s))" using less.prems by simp
  have shift: "map (\<lambda>j. K (s + j)) [0..<Suc n] = K s # map (\<lambda>j. K (s + 1 + j)) [0..<n]" for n
    by (simp only: upt_conv_Cons map_Suc_upt [symmetric]) (simp add: upt_conv_Cons map_Suc_upt [symmetric] del: upt_Suc)
  show ?case
  proof (cases "s < length src \<and> sat sg (src ! s)")
    case True
    have at: "at_char src s = Inr (src ! s)" using True by (simp add: at_char_def)
    have "?next cs = Inr (first_of cs (?rest (s + 1)))"
      using True at assms(1) less.hyps [of "s + 1"] less.prems by (simp add: diff_less_mono2)
    moreover have "?rest s = K s @ ?rest (s + 1)"
      using True shift [of "run_length src sg s"] run_length_step [of src sg s] by (simp del: upt_Suc)
    ultimately show ?thesis using first_else [OF m, of ?next] by (subst min_expand.simps) simp
  next
    case False
    have at: "s < length src \<Longrightarrow> at_char src s = Inr (src ! s)" by (simp add: at_char_def)
    have "?next cs = Inr (first_of cs [])" using False at assms(1) by auto
    moreover have "run_length src sg s = 0" by (subst run_length_step) (use False in auto)
    then have "?rest s = K s" by simp
    ultimately show ?thesis using first_else [OF m, of ?next "[]"] by (subst min_expand.simps) simp
  qed
qed

section \<open>The matcher takes the preferred match\<close>

text \<open>
  One item. The rest of the pattern has the text \<open>r\<close>, and every matcher that starts there, with captures that satisfy
  \<open>V\<close>, answers with the preferred element of \<open>K\<close>.
\<close>

definition rest_ok :: "u8 list \<Rightarrow> (nat \<Rightarrow> matcher) \<Rightarrow> (nat \<Rightarrow> bool) \<Rightarrow> (bool list \<Rightarrow> bool) \<Rightarrow>
    (nat \<Rightarrow> captures \<Rightarrow> (nat \<times> captures) list) \<Rightarrow> bool" where
  "rest_ok src mt at V K \<longleftrightarrow> (\<forall>q t cs. at q \<longrightarrow> t \<le> length src \<longrightarrow> caps_in (length src) t cs \<longrightarrow> V (closed cs) \<longrightarrow>
     mt q t cs = Inr (first_of cs (K t cs)))"

lemma rest_okD:
  "rest_ok src mt at V K \<Longrightarrow> at q \<Longrightarrow> s \<le> t \<Longrightarrow> t \<le> length src \<Longrightarrow> caps_in (length src) s cs \<Longrightarrow> V (closed cs) \<Longrightarrow>
    mt q t cs = Inr (first_of cs (K t cs))"
  by (simp add: rest_ok_def caps_in_mono)

lemma match_dflt_text:
  assumes it: "parse_plain xs = Some (it, r)" and t: "text_at ps p xs"
    and rest: "rest_ok src mt (\<lambda>q. text_at ps q r) V K"
    and s: "s \<le> length src" and cs: "caps_in (length src) s cs" and V: "V (closed cs)"
  shows "match_dflt src ps mt s p cs = Inr (first_of cs (concat (map (\<lambda>(t, cs). K t cs) (item_ends src it s cs))))"
proof -
  obtain sg ys where sg: "parse_single xs = Some (sg, ys)" and suf: "suffixed sg ys = (it, r)"
    using it by (auto simp: parse_plain_def)
  obtain ep where ep: "classend ps p = Inr ep" "text_at ps ep ys" and one: "\<And>c. singlematch ps c p ep = Inr (sat sg c)"
    using single_text [OF sg t] by blast
  define m where "m \<longleftrightarrow> s < length src \<and> sat sg (src ! s)"
  have m: "(if s < length src then pbind (at_char src s) (\<lambda>c. singlematch ps c p ep) else Inr False) = Inr m"
    using s by (simp add: m_def one at_char_def)
  have q: "at_char ps ep = Inr (if ys = [] then 0 else hd ys)" using text_at_next [OF ep(2)] .
  have go: "mt q t cs = Inr (first_of cs (K t cs))" if "text_at ps q r" "s \<le> t" "t \<le> length src" for q t
    using rest_okD [OF rest that(1,2,3) cs V] .
  have up: "text_at ps (ep + 1) r" if "ys = x # r" for x using text_at_Cons(3) ep(2) that by simp
  let ?q = "if ys = [] then 0 else hd ys"
  consider (opt) "ys = 63 # r" "it = Optional sg" | (star) "ys = 42 # r" "it = Star sg" | (plus) "ys = 43 # r" "it = Plus sg"
    | (lazy) "ys = 45 # r" "it = Lazy sg"
    | (once) "r = ys" "it = Once sg" "?q \<noteq> 63" "?q \<noteq> 42" "?q \<noteq> 43" "?q \<noteq> 45"
    using suf by (auto simp: suffixed_def split: list.splits if_splits)
  then show ?thesis
  proof cases
    case opt
    have "mt (ep + 1) s cs = Inr (first_of cs (K s cs))" using go up opt s by simp
    moreover have "pbind (mt (ep + 1) (s + 1) cs) (\<lambda>(r, cs). if r \<noteq> None then Inr (r, cs) else mt (ep + 1) s cs)
        = Inr (first_of cs (K (s + 1) cs @ K s cs))" if m
      using go [of "ep + 1"] up opt s that by (intro first_else) (auto simp: m_def)
    ultimately show ?thesis unfolding match_dflt_def ep(1) pbind_simps m q using opt m_def by simp
  next
    case star
    have "max_expand src ps (mt (ep + 1)) s p ep cs = Inr (first_of cs (concat (map (\<lambda>j. K (s + j) cs) (rev [0..<run_length src sg s + 1]))))"
      using go up star by (intro max_expand_text [OF one s, of _ _ "\<lambda>t. K t cs"]) simp
    then show ?thesis unfolding match_dflt_def ep(1) pbind_simps m q using star by (simp add: comp_def)
  next
    case plus
    have "max_expand src ps (mt (ep + 1)) (s + 1) p ep cs = Inr (first_of cs (concat (map (\<lambda>j. K (s + 1 + j) cs) (rev [0..<run_length src sg (s + 1) + 1]))))"
      if m using go up plus that by (intro max_expand_text [OF one, of "s + 1" _ _ _ "\<lambda>t. K t cs"]) (auto simp: m_def)
    moreover have "map (\<lambda>j. K (s + j) cs) (rev [1..<run_length src sg s + 1]) =
        (if m then map (\<lambda>j. K (s + 1 + j) cs) (rev [0..<run_length src sg (s + 1) + 1]) else [])"
      using run_length_step [of src sg s] by (simp add: m_def rev_map map_Suc_upt [symmetric] comp_def del: upt_Suc)
    ultimately show ?thesis unfolding match_dflt_def ep(1) pbind_simps m q using plus by (simp add: comp_def del: upt_Suc)
  next
    case lazy
    have "min_expand src ps (mt (ep + 1)) s p ep cs = Inr (first_of cs (concat (map (\<lambda>j. K (s + j) cs) [0..<run_length src sg s + 1])))"
      using go up lazy by (intro min_expand_text [OF one s, of _ _ "\<lambda>t. K t cs"]) simp
    then show ?thesis unfolding match_dflt_def ep(1) pbind_simps m q using lazy by (simp add: comp_def)
  next
    case once
    have "mt ep (s + 1) cs = Inr (first_of cs (K (s + 1) cs))" if m using go ep(2) once s that by (simp add: m_def)
    then show ?thesis unfolding match_dflt_def ep(1) pbind_simps m q using once m_def by auto
  qed
qed

lemma frontier_text:
  assumes "parse_set zs = Some ((neg, its), r)" and "text_at ps p (uchar CHR ''['' # zs)" and s: "s \<le> length src"
  shows "\<exists>ep. text_at ps ep r \<and> match_frontier src ps s p =
    Inr (if \<not> set_has neg its (if s = 0 then 0 else byte_at src (s - 1)) \<and> set_has neg its (byte_at src s) then Some ep else None)"
proof -
  obtain ep where ep: "classend ps p = Inr ep" "text_at ps ep r"
    and set: "\<And>c. matchbracketclass ps c p (ep - 1) = Inr (set_has neg its c)"
    using set_text [OF assms(1,2)] by blast
  have "(if s = 0 then Inr 0 else at_char src (s - 1)) = (Inr (if s = 0 then 0 else byte_at src (s - 1)) :: str_err + u8)"
    "at_char src s = Inr (byte_at src s)" using s by (auto simp: at_char_def byte_at_def)
  then show ?thesis using ep set text_at_Cons(1) [OF assms(2)] by (auto simp: match_frontier_def)
qed

lemma caps_valid_plain: "parse_plain xs = Some (it, r) \<Longrightarrow> caps_valid (it # its) fs \<Longrightarrow> caps_valid its fs"
proof -
  assume it: "parse_plain xs = Some (it, r)" and v: "caps_valid (it # its) fs"
  obtain sg ys where "suffixed sg ys = (it, r)" using it by (auto simp: parse_plain_def)
  then show ?thesis using v by (auto simp: suffixed_def split: list.splits if_splits)
qed

lemma match_escape_text:
  assumes n: "length src < 2 ^ 31" and it: "parse_escape xs = Some (it, r)" and t: "text_at ps p (L_ESC # xs)"
    and valid: "caps_valid (it # its) (closed cs)"
    and rest: "rest_ok src (match src ps) (\<lambda>q. text_at ps q r) (caps_valid its) K"
    and s: "s \<le> length src" and cs: "caps_in (length src) s cs"
  shows "match src ps p s cs = Inr (first_of cs (concat (map (\<lambda>(t, cs). K t cs) (item_ends src it s cs))))"
proof -
  note x = text_at_Cons [OF t]
  obtain d ys where xs: "xs = d # ys" using it by (cases xs) (auto simp: parse_escape_def)
  note d = text_at_Cons [OF x(3) [unfolded xs]]
  have go: "match src ps q t cs = Inr (first_of cs (K t cs))"
    if "text_at ps q r" "s \<le> t" "t \<le> length src" "caps_valid its (closed cs)" for q t
    using rest_okD [OF rest that(1,2,3) cs that(4)] .
  consider (bal) b e where "d = 98" "ys = b # e # r" "it = Balance b e"
    | (front) neg fs zs where "d = 102" "ys = 91 # zs" "parse_set zs = Some ((neg, fs), r)" "it = Frontier neg fs"
    | (digit) "isdigit d" "it = Backref d" "r = ys" "d \<noteq> 98" "d \<noteq> 102"
    | (plain) "\<not> isdigit d" "d \<noteq> 98" "d \<noteq> 102" "parse_plain (L_ESC # xs) = Some (it, r)"
    using it unfolding parse_escape_def xs by (auto simp del: L_ESC_def split: if_splits list.splits)
  then show ?thesis
  proof cases
    case bal
    have r: "text_at ps (p + 4) r" using text_at_append [of ps "p + 2" "[b, e]" r] d(3) bal by (simp add: numeral_eq_Suc)
    have b: "matchbalance src ps s (p + 2) = Inr (balance_ends src b e s)"
      using balance_text [OF n s, of ps "p + 2" b e r] d(3) bal by simp
    have "s \<le> u \<and> u \<le> length src" if "balance_ends src b e s = Some u" for u
      using matchbalance_safe [OF n s, of "p + 2" ps] b that text_at_le [OF d(3)] by auto
    then show ?thesis using bal x d b go [OF r] valid by (subst match.simps) (auto split: option.splits)
  next
    case front
    obtain ep where ep: "text_at ps ep r" and f: "match_frontier src ps s (p + 2) =
      Inr (if \<not> set_has neg fs (if s = 0 then 0 else byte_at src (s - 1)) \<and> set_has neg fs (byte_at src s) then Some ep else None)"
      using frontier_text [OF front(3), of ps "p + 2" s src] d(3) front(2) s by auto
    show ?thesis using front(1,4) x d f go [OF ep, of s] s valid by (subst match.simps) auto
  next
    case digit
    have c: "match_capture src cs s d = Inr (backref_end src (cs ! nat (uint d - 49)) s)"
      using valid unfolding digit(2) caps_valid.simps length_map by (intro match_capture_text [OF n s cs]) blast+
    have "s \<le> u \<and> u \<le> length src" if "backref_end src (cs ! nat (uint d - 49)) s = Some u" for u
      using match_capture_in [OF n s cs, of d] c that by auto
    moreover have "text_at ps (p + 2) r" using d(3) digit by simp
    ultimately show ?thesis using digit x d c go valid by (subst match.simps) (auto split: option.splits)
  next
    case plain
    have "caps_valid its (closed cs)" using caps_valid_plain [OF plain(4) valid] .
    then have "match_dflt src ps (match src ps) s p cs = Inr (first_of cs (concat (map (\<lambda>(t, cs). K t cs) (item_ends src it s cs))))"
      using match_dflt_text [OF plain(4) t rest s cs] by blast
    then show ?thesis using plain x d by (subst match.simps) simp
  qed
qed

lemma end_capture_item:
  assumes rest: "rest_ok src mt at V K" and q: "at q" "False \<in> set (closed cs) \<and> V (close_last (closed cs))"
    and s: "s \<le> length src" and cs: "caps_in (length src) s cs"
  shows "end_capture (mt q) s cs = Inr (first_of cs (concat (map (\<lambda>(t, cs). K t cs) (item_ends src Close s cs))))"
proof -
  define l where "l = last_open cs"
  define cs' where "cs' = cs[l := (cs ! l)\<lparr>len := int s - int (init (cs ! l))\<rparr>]"
  have unf: "False \<in> set (closed cs)" and v: "V (close_last (closed cs))" using q(2) by simp_all
  note l = last_open_ok [OF unf, folded l_def]
  have in_l: "init (cs ! l) \<le> s" using cs l unfolding caps_in_def by (auto simp: cap_in_def dest: nth_mem)
  have "cap_in (length src) s ((cs ! l)\<lparr>len := int s - int (init (cs ! l))\<rparr>)" using in_l s by (simp add: cap_in_def)
  then have in_cs': "caps_in (length src) s cs'"
    using cs unfolding caps_in_def cs'_def by (auto dest!: set_update_subset_insert [THEN subsetD])
  have "closed cs' = close_last (closed cs)" using close_last_closed [OF unf] in_l unfolding cs'_def l_def by simp
  then have "mt q s cs' = Inr (first_of cs' (K s cs'))"
    using rest_okD [OF rest q(1) order_refl s in_cs'] v by simp
  then have "end_capture (mt q) s cs = Inr (first_of cs (K s cs'))"
    using end_capture_text [OF unf] unfolding cs'_def l_def by blast
  then show ?thesis using in_l by (simp add: l_def [symmetric] cs'_def Let_def of_nat_diff)
qed

lemma match_item_text:
  assumes n: "length src < 2 ^ 31" and it: "parse_item xs = Some (it, r)" and t: "text_at ps p xs"
    and valid: "caps_valid (it # its) (closed cs)"
    and rest: "rest_ok src (match src ps) (\<lambda>q. text_at ps q r) (caps_valid its) K"
    and s: "s \<le> length src" and cs: "caps_in (length src) s cs"
  shows "match src ps p s cs = Inr (first_of cs (concat (map (\<lambda>(t, cs). K t cs) (item_ends src it s cs))))"
proof -
  obtain x ys where xs: "xs = x # ys" using it by (cases xs) (auto simp: parse_item_def)
  note x = text_at_Cons [OF t [unfolded xs]]
  have d: "at_char ps (p + 1) = Inr (if ys = [] then 0 else hd ys)" using text_at_next [OF x(3)] .
  have push: "match src ps q s (cs @ [c]) = Inr (first_of (cs @ [c]) (K s (cs @ [c])))"
    if "text_at ps q r" "length cs < LUA_MAXCAPTURES" "c = \<lparr>init = s, len = what\<rparr>" "what = CAP_UNFINISHED \<or> what = CAP_POSITION"
      "caps_valid its (closed (cs @ [c]))" for q c what
    using rest_okD [OF rest that(1) order_refl s _ that(5)] caps_in_push [OF cs s that(2,4)] that(3) by simp
  consider (pos) "x = 40" "ys = 41 # r" "it = Open_position" | (opens) "x = 40" "r = ys" "it = Open" "ys = [] \<or> hd ys \<noteq> 41"
    | (closes) "x = 41" "r = ys" "it = Close" | (esc) "x = 37" "parse_escape ys = Some (it, r)"
    | (fin) "x = 36" "ys = []" "r = []" "it = At_end"
    | (plain) "x \<noteq> 40" "x \<noteq> 41" "x \<noteq> 37" "x = 36 \<Longrightarrow> ys \<noteq> []" "parse_plain xs = Some (it, r)"
    using it unfolding parse_item_def xs by (cases ys) (auto split: if_splits)
  then show ?thesis
  proof cases
    case pos
    let ?c = "\<lparr>init = s, len = CAP_POSITION\<rparr>"
    have "start_capture (match src ps (p + 2)) s cs CAP_POSITION = Inr (first_of cs (K s (cs @ [?c])))"
      using push [of "p + 2" ?c] valid pos text_at_Cons(3) [of ps "p + 1" 41 r] x(3) by (intro start_capture_text) auto
    then show ?thesis using pos x d by (subst match.simps) simp
  next
    case opens
    let ?c = "\<lparr>init = s, len = CAP_UNFINISHED\<rparr>"
    have "start_capture (match src ps (p + 1)) s cs CAP_UNFINISHED = Inr (first_of cs (K s (cs @ [?c])))"
      using push [of "p + 1" ?c] valid opens x(3) by (intro start_capture_text) auto
    then show ?thesis using opens x d by (subst match.simps) auto
  next
    case closes
    have "end_capture (match src ps (p + 1)) s cs = Inr (first_of cs (concat (map (\<lambda>(t, cs). K t cs) (item_ends src Close s cs))))"
      using valid closes x(3) by (intro end_capture_item [OF rest _ _ s cs]) auto
    then show ?thesis using closes x by (subst match.simps) simp
  next
    case esc
    then show ?thesis using match_escape_text [OF n _ _ valid rest s cs] t xs by simp
  next
    case fin
    have "text_at ps (p + 1) []" using x(3) fin by simp
    then have r0: "match src ps (p + 1) s cs = Inr (first_of cs (K s cs))"
      using rest_okD [OF rest _ order_refl s cs] valid fin by simp
    moreover have "match src ps (p + 1) s cs = Inr (Some s, cs)" using d fin by (subst match.simps) simp
    ultimately have "first_of cs (K s cs) = (Some s, cs)" by simp
    then show ?thesis using fin x d by (subst match.simps) auto
  next
    case plain
    have "match_dflt src ps (match src ps) s p cs = Inr (first_of cs (concat (map (\<lambda>(t, cs). K t cs) (item_ends src it s cs))))"
      using match_dflt_text [OF plain(5) t rest s cs caps_valid_plain [OF plain(5) valid]] .
    then show ?thesis using plain x d text_at_Cons(2) [of ps "p + 1"] x(3) by (subst match.simps) (auto simp: neq_Nil_conv)
  qed
qed

lemma match_text:
  assumes n: "length src < 2 ^ 31"
  shows "parse xs = Some its \<Longrightarrow> text_at ps p xs \<Longrightarrow> caps_valid its (closed cs) \<Longrightarrow> s \<le> length src \<Longrightarrow> caps_in (length src) s cs \<Longrightarrow>
    match src ps p s cs = Inr (first_of cs (matches src its s cs))"
proof (induction its arbitrary: xs p s cs)
  case Nil
  then have "xs = []" by (subst (asm) parse.simps) (auto split: if_splits option.splits)
  then show ?case using Nil text_at_Nil by (subst match.simps) simp
next
  case (Cons it its)
  obtain r where it: "parse_item xs = Some (it, r)" and r: "parse r = Some its"
    using Cons.prems(1) by (subst (asm) parse.simps) (auto split: if_splits option.splits)
  have "rest_ok src (match src ps) (\<lambda>q. text_at ps q r) (caps_valid its) (matches src its)"
    unfolding rest_ok_def using Cons.IH [OF r] by blast
  then show ?case using match_item_text [OF n it Cons.prems(2,3) _ Cons.prems(4,5)] by simp
qed

text \<open>C11: the backtracking matcher of \<^verbatim>\<open>lstrlib.c\<close> returns the preferred match. For a pattern whose text (up to its first
  zero byte) parses and uses its captures correctly, and a subject of less than \<open>2\<^sup>3\<^sup>1\<close> bytes, \<^verbatim>\<open>match\<close> raises no error:
  it answers with the first of all the ways the items of the pattern can match at that position, in the order greedy
  repetitions longest first and lazy ones shortest first, with the captures of that way; if there is none it answers
  \<^verbatim>\<open>NULL\<close> and has undone every capture it made while trying.
\<close>

theorem match_prefers:
  assumes "length src < 2 ^ 31" and "s \<le> length src" and "p \<le> length ps"
    and "parse (takeWhile (\<lambda>x. x \<noteq> 0) (drop p ps)) = Some its" and "caps_valid its []"
  shows "match src ps p s [] = Inr (first_of [] (matches src its s []))"
  using assms by (intro match_text [OF _ assms(4)]) (auto simp: text_at_def)

text \<open>The pattern \<^verbatim>\<open>(a*)%1\<close> on \<^verbatim>\<open>aaaaa\<close>: the longest run that can be repeated has two letters.\<close>

lemma match_prefers_witness:
  "match [97, 97, 97, 97, 97] [40, 97, 42, 41, 37, 49] 0 0 [] = Inr (Some 4, [\<lparr>init = 0, len = 2\<rparr>])"
proof -
  have "parse (takeWhile (\<lambda>x. x \<noteq> 0) (drop 0 [40, 97, 42, 41, 37, 49])) = Some [Open, Star (Literal 97), Close, Backref 49]"
    by code_simp
  moreover have "caps_valid [Open, Star (Literal 97), Close, Backref 49] []" by code_simp
  moreover have "first_of [] (matches [97, 97, 97, 97, 97] [Open, Star (Literal 97), Close, Backref 49] 0 []) = (Some 4, [\<lparr>init = 0, len = 2\<rparr>])"
    by code_simp
  ultimately show ?thesis using match_prefers [of "[97, 97, 97, 97, 97]" 0 0 "[40, 97, 42, 41, 37, 49]"] by simp
qed

end
