(* ===== verification/Lua_Strlib.thy ===== *)
theory Lua_Strlib
  imports Lua_Pattern_Spec
begin

text \<open>
  The functions of Lua's string library that scripts call, \<^verbatim>\<open>lstrlib.c\<close>: substrings, bytes and characters, repetition,
  plain and pattern search, the iterator of \<^verbatim>\<open>gmatch\<close> and substitution. Arguments and results take the place of the Lua
  stack; an optional argument is \<open>None\<close> when the script omits it. What the code asks the rest of the interpreter is an
  argument: \<open>room\<close> is the answer of \<^verbatim>\<open>lua_checkstack\<close>, \<open>fmt\<close> the text of a number, and a replacement function or table
  is called with a state of its own. A \<^verbatim>\<open>luaL_Buffer\<close> is the text it holds.
\<close>

section \<open>Substrings and bytes\<close>

datatype lua_ret = Pushed_string "u8 list" | Pushed_integer int | Pushed_nil

definition posrelat :: "int \<Rightarrow> nat \<Rightarrow> int" where
  "posrelat pos l = (let pos = (if pos < 0 then pos + (int l + 1) else pos) in if pos \<ge> 0 then pos else 0)"

definition opt_arg :: "'a option \<Rightarrow> 'a \<Rightarrow> 'a" where
  "opt_arg a d = (case a of None \<Rightarrow> d | Some x \<Rightarrow> x)"

definition str_len :: "u8 list \<Rightarrow> lua_ret" where
  "str_len s = Pushed_integer (int (length s))"

definition str_sub :: "u8 list \<Rightarrow> int \<Rightarrow> int option \<Rightarrow> str_err + u8 list" where
  "str_sub s i j =
     (let l = length s;
          start = posrelat i l;
          end' = posrelat (opt_arg j (- 1)) l;
          start = (if start < 1 then 1 else start);
          end' = (if end' > int l then int l else end') in
      if start \<le> end' then mem_range s (nat (start - 1)) (nat (end' - start + 1)) else Inr [])"

fun reverse_loop :: "u8 list \<Rightarrow> nat \<Rightarrow> u8 list \<Rightarrow> u8 list" where
  "reverse_loop s 0 b = b"
| "reverse_loop s (Suc l) b = reverse_loop s l (b @ [s ! l])"

definition str_reverse :: "u8 list \<Rightarrow> u8 list" where
  "str_reverse s = reverse_loop s (length s) []"

definition str_lower :: "u8 list \<Rightarrow> u8 list" where
  "str_lower s = map tolower s"

definition str_upper :: "u8 list \<Rightarrow> u8 list" where
  "str_upper s = map toupper s"

text \<open>The condition of the loop, \<^verbatim>\<open>n-- > 0\<close>, decrements an \<^verbatim>\<open>int\<close> also when it fails.\<close>

function rep_loop :: "u8 list \<Rightarrow> int \<Rightarrow> u8 list \<Rightarrow> str_err + u8 list" where
  "rep_loop s n b =
     (if n = - (2 ^ 31) then Inl Int_overflow
      else if n > 0 then rep_loop s (n - 1) (b @ s) else Inr b)"
  by pat_completeness auto
termination
  by (relation "measure (\<lambda>(s, n, b). nat n)") auto

declare rep_loop.simps [simp del]

definition str_rep :: "u8 list \<Rightarrow> int \<Rightarrow> str_err + u8 list" where
  "str_rep s n = rep_loop s n []"

fun byte_loop :: "u8 list \<Rightarrow> nat \<Rightarrow> nat \<Rightarrow> str_err + int list" where
  "byte_loop s i 0 = Inr []"
| "byte_loop s i (Suc n) = pbind (at_char s i) (\<lambda>c. pbind (byte_loop s (i + 1) n) (\<lambda>cs. Inr (uint c # cs)))"

definition str_byte :: "(int \<Rightarrow> bool) \<Rightarrow> u8 list \<Rightarrow> int option \<Rightarrow> int option \<Rightarrow> str_err + int list" where
  "str_byte room s i j =
     (let l = length s;
          posi = posrelat (opt_arg i 1) l;
          pose = posrelat (opt_arg j posi) l;
          posi = (if posi \<le> 0 then 1 else posi);
          pose = (if pose > int l then int l else pose) in
      if posi > pose then Inr []
      else let n = sint (word_of_int (pose - posi + 1) :: 32 word) in
        if posi + n \<le> pose then Inl Slice_too_long
        else if \<not> room n then Inl Slice_too_long
        else byte_loop s (nat (posi - 1)) (nat n))"

fun str_char :: "int list \<Rightarrow> str_err + u8 list" where
  "str_char [] = Inr []"
| "str_char (c # cs) =
     (if uint (word_of_int c :: u8) \<noteq> c then Inl Invalid_value
      else pbind (str_char cs) (\<lambda>b. Inr (word_of_int c # b)))"

section \<open>Search\<close>

fun memchr :: "u8 list \<Rightarrow> nat \<Rightarrow> u8 \<Rightarrow> nat \<Rightarrow> str_err + nat option" where
  "memchr bs i c 0 = Inr None"
| "memchr bs i c (Suc n) = pbind (at_char bs i) (\<lambda>x. if x = c then Inr (Some i) else memchr bs (i + 1) c n)"

lemma memchr_bound: "memchr bs i c n = Inr (Some k) \<Longrightarrow> i \<le> k \<and> k < i + n"
  by (induction n arbitrary: i) (fastforce simp: pbind_Inr_iff split: if_splits)+

text \<open>\<^verbatim>\<open>lmemfind\<close>: the text \<open>s2\<close> in the \<open>l1\<close> bytes of \<open>bs\<close> from position \<open>s1\<close>.\<close>

function memfind_loop :: "u8 list \<Rightarrow> nat \<Rightarrow> nat \<Rightarrow> u8 list \<Rightarrow> str_err + nat option" where
  "memfind_loop bs s1 l1 s2 =
     (if l1 > 0 then
        pbind (memchr bs s1 (hd s2) l1) (\<lambda>r.
        case r of None \<Rightarrow> Inr None
        | Some i \<Rightarrow>
            let ini = i + 1 in
            pbind (mem_range bs ini (length s2 - 1)) (\<lambda>xs.
            if xs = tl s2 then Inr (Some (ini - 1))
            else memfind_loop bs ini (l1 - (ini - s1)) s2))
      else Inr None)"
  by pat_completeness auto
termination
  by (relation "measure (\<lambda>(bs, s1, l1, s2). l1)") (auto dest: memchr_bound)

declare memfind_loop.simps [simp del]

definition lmemfind :: "u8 list \<Rightarrow> nat \<Rightarrow> nat \<Rightarrow> u8 list \<Rightarrow> str_err + nat option" where
  "lmemfind bs s1 l1 s2 =
     (if length s2 = 0 then Inr (Some s1)
      else if length s2 > l1 then Inr None
      else memfind_loop bs s1 (l1 - (length s2 - 1)) s2)"

text \<open>A capture, or the whole match from \<open>s\<close> to \<open>e\<close> when the pattern has none.\<close>

definition push_onecapture :: "u8 list \<Rightarrow> captures \<Rightarrow> nat \<Rightarrow> nat \<Rightarrow> nat \<Rightarrow> str_err + lua_ret" where
  "push_onecapture src cs i s e =
     (if i \<ge> length cs then
        if i = 0 then pbind (mem_range src s (e - s)) (\<lambda>x. Inr (Pushed_string x)) else Inl Invalid_capture_index
      else let l = len (cs ! i) in
        if l = CAP_UNFINISHED then Inl Unfinished_capture
        else if l = CAP_POSITION then Inr (Pushed_integer (int (init (cs ! i)) + 1))
        else pbind (mem_range src (init (cs ! i)) (nat l)) (\<lambda>x. Inr (Pushed_string x)))"

fun push_loop :: "u8 list \<Rightarrow> captures \<Rightarrow> nat \<Rightarrow> nat \<Rightarrow> nat list \<Rightarrow> str_err + lua_ret list" where
  "push_loop src cs s e [] = Inr []"
| "push_loop src cs s e (i # is) =
     pbind (push_onecapture src cs i s e) (\<lambda>x. pbind (push_loop src cs s e is) (\<lambda>xs. Inr (x # xs)))"

text \<open>\<open>None\<close> is the call with \<^verbatim>\<open>NULL\<close> for the start of the match.\<close>

definition push_captures :: "(int \<Rightarrow> bool) \<Rightarrow> u8 list \<Rightarrow> captures \<Rightarrow> (nat \<times> nat) option \<Rightarrow> str_err + lua_ret list" where
  "push_captures room src cs se =
     (let nlevels = (if length cs = 0 \<and> se \<noteq> None then 1 else length cs);
          (s, e) = opt_arg se (0, 0) in
      if \<not> room (int nlevels) then Inl Stack_overflow else push_loop src cs s e [0..<nlevels])"

definition SPECIALS :: "u8 list" where
  "SPECIALS = map of_char ''^$*+?.([%-''"

definition strpbrk_specials :: "u8 list \<Rightarrow> bool" where
  "strpbrk_specials ps = list_ex (\<lambda>c. c \<in> set SPECIALS) (takeWhile (\<lambda>c. c \<noteq> 0) ps)"

text \<open>The loop of \<^verbatim>\<open>str_find_aux\<close> over the positions of the subject.\<close>

function str_find_loop :: "(int \<Rightarrow> bool) \<Rightarrow> u8 list \<Rightarrow> u8 list \<Rightarrow> nat \<Rightarrow> bool \<Rightarrow> bool \<Rightarrow> nat \<Rightarrow> str_err + lua_ret list" where
  "str_find_loop room src ps p find' anchor s1 =
     pbind (match src ps p s1 []) (\<lambda>(r, cs).
     case r of
       Some res \<Rightarrow>
         if find' then pbind (push_captures room src cs None) (\<lambda>xs.
           Inr (Pushed_integer (int s1 + 1) # Pushed_integer (int res) # xs))
         else push_captures room src cs (Some (s1, res))
     | None \<Rightarrow> if s1 < length src \<and> \<not> anchor then str_find_loop room src ps p find' anchor (s1 + 1) else Inr [Pushed_nil])"
  by pat_completeness auto
termination
  by (relation "measure (\<lambda>(room, src, ps, p, find', anchor, s1). length src - s1)") auto

declare str_find_loop.simps [simp del]

text \<open>Where a search starts: a position before the subject is its start, one behind it its end.\<close>

definition find_start :: "u8 list \<Rightarrow> int option \<Rightarrow> nat" where
  "find_start s i =
     (let ini = posrelat (opt_arg i 1) (length s) - 1 in
      if ini < 0 then 0 else if ini > int (length s) then length s else nat ini)"

definition str_find_aux :: "(int \<Rightarrow> bool) \<Rightarrow> u8 list \<Rightarrow> u8 list \<Rightarrow> int option \<Rightarrow> bool \<Rightarrow> bool \<Rightarrow> str_err + lua_ret list" where
  "str_find_aux room s p i plain find' =
     (let l1 = length s; ini = find_start s i in
      if find' \<and> (plain \<or> \<not> strpbrk_specials p) then
        pbind (lmemfind s ini (l1 - ini) p) (\<lambda>r.
        case r of Some s2 \<Rightarrow> Inr [Pushed_integer (int s2 + 1), Pushed_integer (int s2 + int (length p))]
        | None \<Rightarrow> Inr [Pushed_nil])
      else pbind (at_char p 0) (\<lambda>c.
        let anchor = (c = uchar CHR ''^'') in
        str_find_loop room s p (if anchor then 1 else 0) find' anchor ini))"

definition str_find :: "(int \<Rightarrow> bool) \<Rightarrow> u8 list \<Rightarrow> u8 list \<Rightarrow> int option \<Rightarrow> bool \<Rightarrow> str_err + lua_ret list" where
  "str_find room s p i plain = str_find_aux room s p i plain True"

definition str_match :: "(int \<Rightarrow> bool) \<Rightarrow> u8 list \<Rightarrow> u8 list \<Rightarrow> int option \<Rightarrow> str_err + lua_ret list" where
  "str_match room s p i = str_find_aux room s p i False False"

text \<open>The iterator of \<^verbatim>\<open>gmatch\<close>: from the position in its third upvalue, the new position and the values it returns.\<close>

function gmatch_aux :: "(int \<Rightarrow> bool) \<Rightarrow> u8 list \<Rightarrow> u8 list \<Rightarrow> nat \<Rightarrow> nat \<Rightarrow> str_err + nat \<times> lua_ret list" where
  "gmatch_aux room s p up src =
     (if src \<le> length s then
        pbind (match s p 0 src []) (\<lambda>(r, cs).
        case r of
          Some e \<Rightarrow> let newstart = (if e = src then e + 1 else e) in
            pbind (push_captures room s cs (Some (src, e))) (\<lambda>xs. Inr (newstart, xs))
        | None \<Rightarrow> gmatch_aux room s p up (src + 1))
      else Inr (up, []))"
  by pat_completeness auto
termination
  by (relation "measure (\<lambda>(room, s, p, up, src). length s + 1 - src)") auto

declare gmatch_aux.simps [simp del]

section \<open>Substitution\<close>

definition value_text :: "(int \<Rightarrow> u8 list) \<Rightarrow> lua_ret \<Rightarrow> u8 list" where
  "value_text fmt v = (case v of Pushed_string x \<Rightarrow> x | Pushed_integer i \<Rightarrow> fmt i | Pushed_nil \<Rightarrow> [])"

function add_s_loop :: "(int \<Rightarrow> u8 list) \<Rightarrow> u8 list \<Rightarrow> captures \<Rightarrow> u8 list \<Rightarrow> nat \<Rightarrow> nat \<Rightarrow> nat \<Rightarrow> u8 list \<Rightarrow> str_err + u8 list" where
  "add_s_loop fmt src cs news s e i b =
     (if i < length news then
        pbind (at_char news i) (\<lambda>c.
        if c \<noteq> L_ESC then add_s_loop fmt src cs news s e (i + 1) (b @ [c])
        else pbind (at_char news (i + 1)) (\<lambda>d.
          if \<not> isdigit d then add_s_loop fmt src cs news s e (i + 2) (b @ [d])
          else if d = uchar CHR ''0'' then
            pbind (mem_range src s (e - s)) (\<lambda>x. add_s_loop fmt src cs news s e (i + 2) (b @ x))
          else pbind (push_onecapture src cs (nat (uint d - uint (uchar CHR ''1''))) s e) (\<lambda>v.
            add_s_loop fmt src cs news s e (i + 2) (b @ value_text fmt v))))
      else Inr b)"
  by pat_completeness auto
termination
  by (relation "measure (\<lambda>(fmt, src, cs, news, s, e, i, b). length news - i)") auto

declare add_s_loop.simps [simp del]

definition add_s :: "(int \<Rightarrow> u8 list) \<Rightarrow> u8 list \<Rightarrow> captures \<Rightarrow> u8 list \<Rightarrow> u8 list \<Rightarrow> nat \<Rightarrow> nat \<Rightarrow> str_err + u8 list" where
  "add_s fmt src cs news b s e = add_s_loop fmt src cs news s e 0 b"

text \<open>
  The third argument of \<^verbatim>\<open>gsub\<close>: a string (or the text of a number), a function or a table. A call of the function and
  an access to the table run Lua code: they may raise an error and change the state \<open>'w\<close> of the script. Their result is
  nil or false, a value with a text, or another value.
\<close>

datatype repl_value = Keep_text | Text "u8 list" | Other_value

datatype 'w repl = Repl_string "u8 list" | Repl_function "lua_ret list \<Rightarrow> 'w \<Rightarrow> (repl_value \<times> 'w) option"
  | Repl_table "lua_ret \<Rightarrow> 'w \<Rightarrow> (repl_value \<times> 'w) option"

definition add_result :: "u8 list \<Rightarrow> u8 list \<Rightarrow> nat \<Rightarrow> nat \<Rightarrow> (repl_value \<times> 'w) option \<Rightarrow> str_err + u8 list \<times> 'w" where
  "add_result src b s e r =
     (case r of None \<Rightarrow> Inl Callee_error
      | Some (v, w) \<Rightarrow> (case v of
          Keep_text \<Rightarrow> pbind (mem_range src s (e - s)) (\<lambda>x. Inr (b @ x, w))
        | Text x \<Rightarrow> Inr (b @ x, w)
        | Other_value \<Rightarrow> Inl Invalid_replacement))"

definition add_value :: "(int \<Rightarrow> bool) \<Rightarrow> (int \<Rightarrow> u8 list) \<Rightarrow> u8 list \<Rightarrow> captures \<Rightarrow> 'w repl \<Rightarrow> u8 list \<Rightarrow> nat \<Rightarrow> nat \<Rightarrow> 'w \<Rightarrow>
    str_err + u8 list \<times> 'w" where
  "add_value room fmt src cs rp b s e w =
     (case rp of
        Repl_string news \<Rightarrow> pbind (add_s fmt src cs news b s e) (\<lambda>b. Inr (b, w))
      | Repl_function f \<Rightarrow> pbind (push_captures room src cs (Some (s, e))) (\<lambda>xs. add_result src b s e (f xs w))
      | Repl_table f \<Rightarrow> pbind (push_onecapture src cs 0 s e) (\<lambda>x. add_result src b s e (f x w)))"

function gsub_loop :: "(int \<Rightarrow> bool) \<Rightarrow> (int \<Rightarrow> u8 list) \<Rightarrow> u8 list \<Rightarrow> u8 list \<Rightarrow> nat \<Rightarrow> 'w repl \<Rightarrow> bool \<Rightarrow> int \<Rightarrow>
    nat \<Rightarrow> int \<Rightarrow> u8 list \<Rightarrow> 'w \<Rightarrow> str_err + nat \<times> int \<times> u8 list \<times> 'w" where
  "gsub_loop room fmt subj ps p rp anchor max_s src n b w =
     (if n < max_s then
        pbind (match subj ps p src []) (\<lambda>(r, cs).
        case r of
          Some e \<Rightarrow> pbind (add_value room fmt subj cs rp b src e w) (\<lambda>(b, w).
            if e > src then
              if anchor then Inr (e, n + 1, b, w) else gsub_loop room fmt subj ps p rp anchor max_s e (n + 1) b w
            else if src < length subj then pbind (at_char subj src) (\<lambda>c.
              if anchor then Inr (src + 1, n + 1, b @ [c], w)
              else gsub_loop room fmt subj ps p rp anchor max_s (src + 1) (n + 1) (b @ [c]) w)
            else Inr (src, n + 1, b, w))
        | None \<Rightarrow>
            if src < length subj then pbind (at_char subj src) (\<lambda>c.
              if anchor then Inr (src + 1, n, b @ [c], w)
              else gsub_loop room fmt subj ps p rp anchor max_s (src + 1) n (b @ [c]) w)
            else Inr (src, n, b, w))
      else Inr (src, n, b, w))"
  by pat_completeness auto
termination
  by (relation "inv_image (less_than <*lex*> less_than)
      (\<lambda>(room, fmt, subj, ps, p, rp, anchor, max_s, src, n, b, w). (nat (max_s - n), length subj - src))") auto

declare gsub_loop.simps [simp del]

text \<open>The result and the number of substitutions. The default of the last argument is converted to an \<^verbatim>\<open>int\<close>.\<close>

definition str_gsub :: "(int \<Rightarrow> bool) \<Rightarrow> (int \<Rightarrow> u8 list) \<Rightarrow> u8 list \<Rightarrow> u8 list \<Rightarrow> 'w repl \<Rightarrow> int option \<Rightarrow> 'w \<Rightarrow>
    str_err + u8 list \<times> int \<times> 'w" where
  "str_gsub room fmt subj ps rp m w =
     (let max_s = opt_arg m (sint (word_of_nat (length subj + 1) :: 32 word)) in
      pbind (at_char ps 0) (\<lambda>c.
      let anchor = (c = uchar CHR ''^'') in
      pbind (gsub_loop room fmt subj ps (if anchor then 1 else 0) rp anchor max_s 0 0 [] w) (\<lambda>(src, n, b, w).
      pbind (mem_range subj src (length subj - src)) (\<lambda>x. Inr (b @ x, n, w)))))"

section \<open>Quoting\<close>

text \<open>The option \<^verbatim>\<open>%q\<close> of \<^verbatim>\<open>format\<close>: a string as a literal of the language.\<close>

definition quoted_byte :: "u8 \<Rightarrow> u8 list" where
  "quoted_byte c =
     (if c = uchar CHR 0x22 \<or> c = uchar CHR 0x5C \<or> c = 10 then [uchar CHR 0x5C, c]
      else if c = 13 then [uchar CHR 0x5C, uchar CHR ''r'']
      else if c = 0 then [uchar CHR 0x5C, uchar CHR ''0'', uchar CHR ''0'', uchar CHR ''0'']
      else [c])"

fun quote_loop :: "u8 list \<Rightarrow> u8 list \<Rightarrow> u8 list" where
  "quote_loop [] b = b"
| "quote_loop (c # s) b = quote_loop s (b @ quoted_byte c)"

definition addquoted :: "u8 list \<Rightarrow> u8 list \<Rightarrow> u8 list" where
  "addquoted b s = quote_loop s (b @ [uchar CHR 0x22]) @ [uchar CHR 0x22]"

section \<open>Formats\<close>

text \<open>
  A format specification is copied into an array of \<open>MAX_FORMAT\<close> bytes, here a C string with its zero byte; a formatted
  item is written to one of \<open>MAX_ITEM\<close>. What \<^verbatim>\<open>sprintf\<close> writes for a specification and a value, and which text or number a
  value has (\<^verbatim>\<open>luaL_checklstring\<close>, \<^verbatim>\<open>luaL_checknumber\<close>), are arguments.
\<close>

definition FLAGS :: "u8 list" where
  "FLAGS = map of_char ''-+ #0''"

definition LUA_INTFRMLEN :: "u8 list" where
  "LUA_INTFRMLEN = map of_char ''l''"

definition MAX_ITEM :: nat where "MAX_ITEM = 512"

definition MAX_FORMAT :: nat where
  "MAX_FORMAT = (length FLAGS + 1) + (length LUA_INTFRMLEN + 1) + 10"

function skip_flags :: "u8 list \<Rightarrow> nat \<Rightarrow> str_err + nat" where
  "skip_flags fs p = pbind (at_char fs p) (\<lambda>c. if c \<noteq> 0 \<and> c \<in> set FLAGS then skip_flags fs (p + 1) else Inr p)"
  by pat_completeness auto
termination
  by (relation "measure (\<lambda>(fs, p). length fs + 1 - p)") (auto dest!: at_char_le)

declare skip_flags.simps [simp del]

definition skip_digit :: "u8 list \<Rightarrow> nat \<Rightarrow> str_err + nat" where
  "skip_digit fs p = pbind (at_char fs p) (\<lambda>c. Inr (if isdigit c then p + 1 else p))"

definition skip_precision :: "u8 list \<Rightarrow> nat \<Rightarrow> str_err + nat" where
  "skip_precision fs p =
     pbind (at_char fs p) (\<lambda>c.
     if c = uchar CHR ''.'' then pbind (skip_digit fs (p + 1)) (skip_digit fs) else Inr p)"

definition scanformat :: "u8 list \<Rightarrow> nat \<Rightarrow> str_err + nat \<times> u8 list" where
  "scanformat fs strfrmt =
     pbind (skip_flags fs strfrmt) (\<lambda>p.
     if p - strfrmt \<ge> length FLAGS + 1 then Inl Repeated_flags
     else pbind (skip_digit fs p) (\<lambda>p. pbind (skip_digit fs p) (\<lambda>p. pbind (skip_precision fs p) (\<lambda>p.
       pbind (at_char fs p) (\<lambda>c.
       if isdigit c then Inl Width_too_long
       else let form = L_ESC # take (p - strfrmt + 1) (drop strfrmt (fs @ [0])) @ [0] in
         if length form \<le> MAX_FORMAT then Inr (p, form) else Inl Out_of_bounds)))))"

text \<open>\<^verbatim>\<open>addintlen\<close> puts the length modifier in front of the conversion letter.\<close>

definition addintlen :: "u8 list \<Rightarrow> str_err + u8 list" where
  "addintlen form =
     (let t = takeWhile (\<lambda>c. c \<noteq> 0) form; l = length t in
      if l = 0 \<or> l + length LUA_INTFRMLEN + 1 > MAX_FORMAT then Inl Out_of_bounds
      else Inr (take (l - 1) t @ LUA_INTFRMLEN @ [t ! (l - 1), 0]))"

text \<open>The item is added as a C string: it ends at its first zero byte.\<close>

definition print_item :: "(u8 list \<Rightarrow> 'a \<Rightarrow> u8 list) \<Rightarrow> u8 list \<Rightarrow> 'a \<Rightarrow> str_err + u8 list" where
  "print_item sprintf form a =
     (let out = sprintf form a in
      if length out < MAX_ITEM then Inr (takeWhile (\<lambda>c. c \<noteq> 0) out) else Inl Out_of_bounds)"

text \<open>One item, with its letter: the text it adds.\<close>

definition format_item :: "('a \<Rightarrow> u8 list option) \<Rightarrow> ('a \<Rightarrow> bool) \<Rightarrow> (u8 list \<Rightarrow> 'a \<Rightarrow> u8 list) \<Rightarrow> u8 list \<Rightarrow> u8 \<Rightarrow> 'a \<Rightarrow> str_err + u8 list" where
  "format_item tostr isnum sprintf form c a =
     (if c = uchar CHR ''c'' then (if isnum a then print_item sprintf form a else Inl Wrong_type)
      else if c \<in> set (map of_char ''diouxX'') then
        pbind (addintlen form) (\<lambda>form. if isnum a then print_item sprintf form a else Inl Wrong_type)
      else if c \<in> set (map of_char ''eEfgG'') then (if isnum a then print_item sprintf form a else Inl Wrong_type)
      else if c = uchar CHR ''q'' then (case tostr a of None \<Rightarrow> Inl Wrong_type | Some s \<Rightarrow> Inr (addquoted [] s))
      else if c = uchar CHR ''s'' then
        (case tostr a of None \<Rightarrow> Inl Wrong_type
         | Some s \<Rightarrow>
             if uchar CHR ''.'' \<notin> set form \<and> length s \<ge> 100 then Inr s else print_item sprintf form a)
      else Inl Invalid_option)"

lemma skip_flags_le: "skip_flags fs p = Inr q \<Longrightarrow> p \<le> q"
proof (induction fs p rule: skip_flags.induct)
  case (1 fs p)
  obtain c where c: "at_char fs p = Inr c" using "1.prems" by (subst (asm) skip_flags.simps) (auto simp: pbind_Inr_iff)
  show ?case
  proof (cases "c \<noteq> 0 \<and> c \<in> set FLAGS")
    case True
    then have "skip_flags fs (p + 1) = Inr q" using "1.prems" c by (subst (asm) skip_flags.simps) simp
    then show ?thesis using "1.IH" [OF c True] by simp
  next
    case False
    then have "q = p" using "1.prems" c by (subst (asm) skip_flags.simps) auto
    then show ?thesis by simp
  qed
qed

lemma skip_digit_le: "skip_digit fs p = Inr q \<Longrightarrow> p \<le> q \<and> q \<le> p + 1"
  by (auto simp: skip_digit_def pbind_Inr_iff)

lemma skip_precision_le: "skip_precision fs p = Inr q \<Longrightarrow> p \<le> q \<and> q \<le> p + 3"
  by (fastforce simp: skip_precision_def pbind_Inr_iff dest!: skip_digit_le split: if_splits)

lemma scanformat_le: "scanformat fs i = Inr (p, form) \<Longrightarrow> i \<le> p"
  by (fastforce simp: scanformat_def pbind_Inr_iff Let_def dest!: skip_flags_le skip_digit_le skip_precision_le split: if_splits)

function format_loop :: "('a \<Rightarrow> u8 list option) \<Rightarrow> ('a \<Rightarrow> bool) \<Rightarrow> (u8 list \<Rightarrow> 'a \<Rightarrow> u8 list) \<Rightarrow>
    u8 list \<Rightarrow> 'a list \<Rightarrow> nat \<Rightarrow> u8 list \<Rightarrow> str_err + u8 list" where
  "format_loop tostr isnum sprintf fs args i b =
     (if i < length fs then
        pbind (at_char fs i) (\<lambda>c.
        if c \<noteq> L_ESC then format_loop tostr isnum sprintf fs args (i + 1) (b @ [c])
        else pbind (at_char fs (i + 1)) (\<lambda>d.
          if d = L_ESC then format_loop tostr isnum sprintf fs args (i + 2) (b @ [d])
          else case args of
            [] \<Rightarrow> Inl No_value
          | a # args \<Rightarrow>
              pbind (scanformat fs (i + 1)) (\<lambda>(p, form).
              pbind (at_char fs p) (\<lambda>c.
              pbind (format_item tostr isnum sprintf form c a) (\<lambda>x.
                format_loop tostr isnum sprintf fs args (p + 1) (b @ x))))))
      else Inr b)"
  by pat_completeness auto
termination
  by (relation "measure (\<lambda>(tostr, isnum, sprintf, fs, args, i, b). length fs - i)") (auto dest!: scanformat_le)

declare format_loop.simps [simp del]

definition str_format :: "('a \<Rightarrow> u8 list option) \<Rightarrow> ('a \<Rightarrow> bool) \<Rightarrow> (u8 list \<Rightarrow> 'a \<Rightarrow> u8 list) \<Rightarrow> u8 list \<Rightarrow> 'a list \<Rightarrow> str_err + u8 list" where
  "str_format tostr isnum sprintf fs args = format_loop tostr isnum sprintf fs args 0 []"

section \<open>Safety of the pattern functions\<close>

lemma find_start_le [simp]: "find_start s i \<le> length s"
  by (auto simp: find_start_def Let_def)

lemma match_answer:
  assumes "length src < 2 ^ 31" "p \<le> length ps" "s \<le> length src"
  shows "answer_in (length src) s [] (match src ps p s [])"
  using matcher_inD [OF match_in [OF assms(1,2)] assms(3)] by simp

lemma match_someD:
  assumes "length src < 2 ^ 31" "p \<le> length ps" "s \<le> length src" "match src ps p s [] = Inr (Some e, cs)"
  shows "s \<le> e" "e \<le> length src" "caps_in (length src) e cs"
  using match_answer [OF assms(1-3)] assms(4) by auto

lemma no_undef_match:
  "length src < 2 ^ 31 \<Longrightarrow> p \<le> length ps \<Longrightarrow> s \<le> length src \<Longrightarrow> no_undef (match src ps p s [])"
  using match_answer [of src p ps s] unfolding answer_in_def by blast

lemma push_onecapture_safe:
  assumes "caps_in (length src) t cs" and "cs = [] \<Longrightarrow> s \<le> e \<and> e \<le> length src"
  shows "no_undef (push_onecapture src cs i s e)"
proof (cases "i < length cs")
  case True
  then have "cap_in (length src) t (cs ! i)" using assms(1) by (simp add: caps_in_def)
  then show ?thesis using True by (auto simp: push_onecapture_def cap_in_def Let_def intro!: no_undef_bind)
next
  case False
  then show ?thesis using assms(2) by (auto simp: push_onecapture_def intro!: no_undef_bind)
qed

lemma push_captures_safe:
  assumes "caps_in (length src) t cs" and "\<And>s e. se = Some (s, e) \<Longrightarrow> s \<le> e \<and> e \<le> length src"
  shows "no_undef (push_captures room src cs se)"
proof -
  obtain s e where se: "opt_arg se (0, 0) = (s, e)" by fastforce
  have "s \<le> e \<and> e \<le> length src" using se assms(2) by (auto simp: opt_arg_def split: option.splits)
  then have "no_undef (push_onecapture src cs i s e)" for i using push_onecapture_safe [OF assms(1)] by blast
  then have "no_undef (push_loop src cs s e js)" for js by (induction js) (auto intro!: no_undef_bind)
  then show ?thesis by (simp add: push_captures_def se Let_def)
qed

lemma str_find_loop_safe:
  assumes "length src < 2 ^ 31" "p \<le> length ps" "s1 \<le> length src"
  shows "no_undef (str_find_loop room src ps p f anchor s1)"
  using assms(3)
proof (induction "length src - s1" arbitrary: s1 rule: less_induct)
  case less
  have "no_undef (str_find_loop room src ps p f anchor (s1 + 1))" if "s1 < length src"
    using that by (intro less) auto
  then show ?case using no_undef_match [OF assms(1,2) less.prems] match_someD [OF assms(1,2) less.prems]
    by (subst str_find_loop.simps) (auto intro!: no_undef_bind push_captures_safe split: option.splits)
qed

lemma gmatch_aux_safe:
  assumes "length s < 2 ^ 31"
  shows "no_undef (gmatch_aux room s p up src)"
proof (induction "length s + 1 - src" arbitrary: src rule: less_induct)
  case less
  show ?case
  proof (cases "src \<le> length s")
    case True
    then have "no_undef (gmatch_aux room s p up (src + 1))" by (intro less) auto
    then show ?thesis using True no_undef_match [OF assms _ True, of 0 p] match_someD [OF assms _ True, of 0 p]
      by (subst gmatch_aux.simps) (auto intro!: no_undef_bind push_captures_safe simp: Let_def split: option.splits)
  qed (subst gmatch_aux.simps, simp)
qed

lemma add_s_safe:
  assumes "caps_in (length src) t cs" "s \<le> e" "e \<le> length src"
  shows "no_undef (add_s fmt src cs news b s e)"
proof -
  have "no_undef (add_s_loop fmt src cs news s e i b)" for i b
  proof (induction "length news - i" arbitrary: i b rule: less_induct)
    case less
    show ?case
    proof (cases "i < length news")
      case True
      then have ih: "no_undef (add_s_loop fmt src cs news s e j b')" if "i < j" for j b' using that by (intro less) auto
      show ?thesis using True assms
        by (subst add_s_loop.simps) (auto intro!: no_undef_bind ih push_onecapture_safe)
    qed (subst add_s_loop.simps, simp)
  qed
  then show ?thesis by (simp add: add_s_def)
qed

lemma add_value_safe:
  assumes "caps_in (length src) t cs" "s \<le> e" "e \<le> length src"
  shows "no_undef (add_value room fmt src cs rp b s e w)"
proof -
  have "no_undef (add_result src b s e r)" for r :: "(repl_value \<times> 'a) option"
    using assms by (auto simp: add_result_def intro!: no_undef_bind split: option.splits repl_value.splits)
  then show ?thesis using assms
    by (auto simp: add_value_def intro!: no_undef_bind add_s_safe push_captures_safe push_onecapture_safe split: repl.splits)
qed

text \<open>The loop of \<^verbatim>\<open>gsub\<close> keeps the position inside the subject.\<close>

definition pos_in :: "nat \<Rightarrow> str_err + nat \<times> 'a \<Rightarrow> bool" where
  "pos_in n r \<longleftrightarrow> no_undef r \<and> (\<forall>src x. r = Inr (src, x) \<longrightarrow> src \<le> n)"

lemma pos_in_Inr [simp]: "pos_in n (Inr (src, x)) \<longleftrightarrow> src \<le> n"
  by (auto simp: pos_in_def)

lemma pos_in_bind: "no_undef m \<Longrightarrow> (\<And>x. m = Inr x \<Longrightarrow> pos_in n (f x)) \<Longrightarrow> pos_in n (pbind m f)"
  by (cases m) (auto simp: pos_in_def)

lemma gsub_loop_safe:
  assumes "length subj < 2 ^ 31" "p \<le> length ps" "src \<le> length subj"
  shows "pos_in (length subj) (gsub_loop room fmt subj ps p rp anchor max_s src n b w)"
  using assms(3)
proof (induction "(nat (max_s - n), length subj - src)" arbitrary: src n b w rule: wf_induct_rule [OF wf_lex_prod [OF wf_less_than wf_less_than]])
  case 1
  note ih = "1.hyps"
  show ?case
  proof (cases "n < max_s")
    case True
    have step: "pos_in (length subj) (gsub_loop room fmt subj ps p rp anchor max_s t (n + 1) b' w')" if "t \<le> length subj" for t b' w'
      using True that by (intro ih) auto
    have skip: "pos_in (length subj) (gsub_loop room fmt subj ps p rp anchor max_s (src + 1) n b' w')" if "src < length subj" for b' w'
      using that by (intro ih) auto
    have free: "pos_in (length subj) (gsub_loop room fmt subj ps p rp False max_s t (n + 1) b' w')" if "\<not> anchor" "t \<le> length subj" for t b' w'
      using step [OF that(2)] that(1) by simp
    have free_skip: "pos_in (length subj) (gsub_loop room fmt subj ps p rp False max_s (Suc src) n b' w')"
      if "\<not> anchor" "src < length subj" for b' w' using skip [OF that(2)] that(1) by simp
    show ?thesis using True "1.prems" no_undef_match [OF assms(1,2) "1.prems"] match_someD [OF assms(1,2) "1.prems"]
      by (subst gsub_loop.simps)
        (auto intro!: pos_in_bind add_value_safe free free_skip split: option.split)
  qed (use "1.prems" in \<open>subst gsub_loop.simps, simp\<close>)
qed

lemma anchor_offset: "at_char ps 0 = Inr c \<Longrightarrow> (if c = uchar CHR ''^'' then 1 else 0) \<le> length ps"
  by (auto simp: at_char_def Suc_le_eq split: if_splits)

lemma str_gsub_safe:
  assumes "length subj < 2 ^ 31"
  shows "no_undef (str_gsub room fmt subj ps rp m w)"
  unfolding str_gsub_def Let_def
proof (intro no_undef_bind)
  fix c assume c: "at_char ps 0 = Inr c"
  let ?p = "if c = uchar CHR ''^'' then 1 else 0 :: nat" and ?max = "opt_arg m (sint (word_of_nat (length subj + 1) :: 32 word))"
  have p: "?p \<le> length ps" using anchor_offset [OF c] .
  note ok = gsub_loop_safe [OF assms p le0, of room fmt rp "c = uchar CHR ''^''" ?max 0 "[]" w]
  show "no_undef (gsub_loop room fmt subj ps ?p rp (c = uchar CHR ''^'') ?max 0 0 [] w)" using ok by (simp add: pos_in_def)
  fix x assume x: "gsub_loop room fmt subj ps ?p rp (c = uchar CHR ''^'') ?max 0 0 [] w = Inr x"
  show "no_undef (case x of (src, n, b, w) \<Rightarrow> pbind (mem_range subj src (length subj - src)) (\<lambda>x. Inr (b @ x, n, w)))"
    using ok unfolding x by (cases x) (auto intro!: no_undef_bind)
qed simp

section \<open>Plain search\<close>

definition first_occurrence :: "u8 list \<Rightarrow> u8 list \<Rightarrow> nat \<Rightarrow> nat option" where
  "first_occurrence s p a = find (\<lambda>k. take (length p) (drop k s) = p) [a..<length s + 1]"

lemma upt_split: "a \<le> i \<Longrightarrow> i \<le> b \<Longrightarrow> [a..<b] = [a..<i] @ [i..<b]"
  using upt_add_eq_append [of a i "b - i"] by simp

lemma find_upt_skip:
  assumes "a \<le> i" "i \<le> b" "\<And>k. a \<le> k \<Longrightarrow> k < i \<Longrightarrow> \<not> P k"
  shows "find P [a..<b] = find P [i..<b]"
proof -
  have "[a..<b] = [a..<i] @ [i..<b]" using upt_split [OF assms(1,2)] .
  moreover have "find P ([a..<i] @ ys) = find P ys" for ys
  proof -
    have "find P xs = None \<Longrightarrow> find P (xs @ ys) = find P ys" for xs by (induction xs) (auto split: if_splits)
    moreover have "find P [a..<i] = None" using assms(3) by (auto simp: find_None_iff)
    ultimately show ?thesis by blast
  qed
  ultimately show ?thesis by simp
qed

lemma find_upt_Some:
  "find P [a..<b] = Some i \<Longrightarrow> a \<le> i \<and> i < b \<and> P i \<and> (\<forall>k. a \<le> k \<longrightarrow> k < i \<longrightarrow> \<not> P k)"
proof (induction "b - a" arbitrary: a)
  case (Suc n)
  then have "[a..<b] = a # [a + 1..<b]" by (simp add: upt_conv_Cons)
  then have "P a \<and> i = a \<or> \<not> P a \<and> find P [a + 1..<b] = Some i" using Suc.prems by (auto split: if_splits)
  then show ?case
  proof
    assume r: "\<not> P a \<and> find P [a + 1..<b] = Some i"
    then have "a + 1 \<le> i \<and> i < b \<and> P i \<and> (\<forall>k. a + 1 \<le> k \<longrightarrow> k < i \<longrightarrow> \<not> P k)" using Suc.hyps by (intro Suc.hyps(1)) auto
    then show ?thesis using r by (auto simp: Suc_le_eq) (metis less_antisym not_less_eq order_le_less)
  qed (use Suc.hyps(2) in auto)
qed simp

lemma memchr_find: "i + n \<le> length bs \<Longrightarrow> memchr bs i c n = Inr (find (\<lambda>k. bs ! k = c) [i..<i + n])"
proof (induction n arbitrary: i)
  case (Suc n)
  have "[i..<i + Suc n] = i # [i + 1..<i + 1 + n]" by (simp add: upt_conv_Cons)
  moreover have "at_char bs i = Inr (bs ! i)" using Suc.prems by (simp add: at_char_def)
  ultimately show ?case using Suc.IH [of "i + 1"] Suc.prems by (simp del: upt_Suc)
qed simp

lemma occurs_Cons:
  "k < length bs \<Longrightarrow> take (length (y # ys)) (drop k bs) = y # ys \<longleftrightarrow> bs ! k = y \<and> take (length ys) (drop (k + 1) bs) = ys"
  by (simp add: Cons_nth_drop_Suc [symmetric])

lemma memfind_loop_find:
  assumes "s1 + l1 + (length s2 - 1) \<le> length bs" and "s2 \<noteq> []"
  shows "memfind_loop bs s1 l1 s2 = Inr (find (\<lambda>k. take (length s2) (drop k bs) = s2) [s1..<s1 + l1])"
  using assms(1)
proof (induction l1 arbitrary: s1 rule: less_induct)
  case (less l1)
  obtain y ys where s2: "s2 = y # ys" using assms(2) by (cases s2) auto
  let ?P = "\<lambda>k. take (length s2) (drop k bs) = s2"
  have P: "?P k \<longleftrightarrow> bs ! k = y \<and> take (length ys) (drop (k + 1) bs) = ys" if "k < s1 + l1" for k
    using occurs_Cons [of k bs y ys] that less.prems unfolding s2 by simp
  have mc: "memchr bs s1 y l1 = Inr (find (\<lambda>k. bs ! k = y) [s1..<s1 + l1])" using less.prems by (intro memchr_find) simp
  show ?case
  proof (cases "find (\<lambda>k. bs ! k = y) [s1..<s1 + l1]")
    case None
    then have "find ?P [s1..<s1 + l1] = None" using P by (auto simp: find_None_iff)
    then show ?thesis using mc None s2 by (subst memfind_loop.simps) simp
  next
    case (Some i)
    then have i: "s1 \<le> i" "i < s1 + l1" "bs ! i = y" "\<And>k. s1 \<le> k \<Longrightarrow> k < i \<Longrightarrow> bs ! k \<noteq> y"
      by (auto dest: find_upt_Some)
    have "find ?P [s1..<s1 + l1] = find ?P [i..<s1 + l1]"
      using i P by (intro find_upt_skip) auto
    moreover have "[i..<s1 + l1] = i # [i + 1..<s1 + l1]" using i by (simp add: upt_conv_Cons)
    moreover have "memfind_loop bs (i + 1) (l1 - (i + 1 - s1)) s2 = Inr (find ?P [i + 1..<s1 + l1])"
    proof -
      have e: "i + 1 + (l1 - (i + 1 - s1)) = s1 + l1" using i by simp
      have "memfind_loop bs (i + 1) (l1 - (i + 1 - s1)) s2 = Inr (find ?P [i + 1..<i + 1 + (l1 - (i + 1 - s1))])"
        using i less.prems by (intro less.IH) auto
      then show ?thesis unfolding e .
    qed
    moreover have "mem_range bs (i + 1) (length ys) = Inr (take (length ys) (drop (i + 1) bs))"
      using i less.prems s2 by (simp add: mem_range_def)
    moreover have "0 < l1" using i by simp
    ultimately show ?thesis using mc Some s2 P [OF i(2)] i(3) by (subst memfind_loop.simps) (simp add: Let_def)
  qed
qed

lemma lmemfind_find:
  assumes "s1 \<le> length bs"
  shows "lmemfind bs s1 (length bs - s1) s2 = Inr (first_occurrence bs s2 s1)"
proof -
  let ?P = "\<lambda>k. take (length s2) (drop k bs) = s2"
  have long: "\<not> ?P k" if "length bs < k + length s2" "k \<le> length bs" for k
  proof
    assume "?P k"
    then have "length (take (length s2) (drop k bs)) = length s2" by simp
    then show False using that by simp
  qed
  consider "s2 = []" | "s2 \<noteq> []" "length s2 > length bs - s1" | "s2 \<noteq> []" "length s2 \<le> length bs - s1" by linarith
  then show ?thesis
  proof cases
    case 1
    then show ?thesis using assms by (simp add: lmemfind_def first_occurrence_def upt_conv_Cons del: upt_Suc)
  next
    case 2
    then have "find ?P [s1..<length bs + 1] = None" using long by (auto simp: find_None_iff)
    then show ?thesis using 2 by (simp add: lmemfind_def first_occurrence_def)
  next
    case 3
    let ?l = "length bs - s1 - (length s2 - 1)"
    have "find ?P [s1..<length bs + 1] = find ?P [s1..<s1 + ?l]"
    proof (cases "find ?P [s1..<s1 + ?l]")
      case None
      then have short: "\<not> ?P k" if "s1 \<le> k" "k < s1 + ?l" for k using that by (simp add: find_None_iff)
      have "\<not> ?P k" if "s1 \<le> k" "k \<le> length bs" for k
      proof (cases "k < s1 + ?l")
        case False
        moreover have "0 < length s2" using 3 by simp
        ultimately have "length bs < k + length s2" using 3(2) by linarith
        then show ?thesis using long [OF _ that(2)] by blast
      qed (use short [OF that(1)] in blast)
      then have "find ?P [s1..<length bs + 1] = None" by (auto simp: find_None_iff)
      then show ?thesis using None by simp
    next
      case (Some k)
      have "find ?P (xs @ ys) = find ?P xs" if "find ?P xs \<noteq> None" for xs ys using that by (induction xs) auto
      moreover have "[s1..<length bs + 1] = [s1..<s1 + ?l] @ [s1 + ?l..<length bs + 1]"
        using 3 assms by (intro upt_split) linarith+
      ultimately show ?thesis using Some by simp
    qed
    then show ?thesis using 3 assms memfind_loop_find [of s1 ?l s2 bs] by (simp add: lmemfind_def first_occurrence_def)
  qed
qed

text \<open>A pattern of ordinary characters is the sequence of them.\<close>

definition ordinary :: "u8 list \<Rightarrow> bool" where
  "ordinary ps \<longleftrightarrow> (\<forall>c \<in> set ps. c \<noteq> 0 \<and> c \<notin> set SPECIALS \<and> c \<noteq> uchar CHR '')'')"

lemma ordinary_Cons:
  assumes "ordinary (c # ps)"
  shows "ordinary ps" and "c \<notin> {0, 36, 37, 40, 41, 42, 43, 45, 46, 63, 91, 94}"
  using assms by (auto simp: ordinary_def SPECIALS_def)

lemma ordinary_suffix: "ordinary ps \<Longrightarrow> suffixed sg ps = (Once sg, ps)"
  by (cases ps) (auto simp: suffixed_def dest: ordinary_Cons(2))

lemma ordinary_parse: "ordinary ps \<Longrightarrow> parse ps = Some (map (\<lambda>c. Once (Literal c)) ps)"
proof (induction ps)
  case (Cons c ps)
  note c = ordinary_Cons [OF Cons.prems]
  have "parse_item (c # ps) = Some (Once (Literal c), ps)"
    using c by (simp add: parse_item_def parse_plain_def ordinary_suffix)
  then show ?case using Cons.IH [OF c(1)] by (subst parse.simps) simp
qed (subst parse.simps, simp)

lemma ordinary_valid: "caps_valid (map (\<lambda>c. Once (Literal c)) ps) fs"
  by (induction ps) auto

lemma ordinary_matches:
  "matches src (map (\<lambda>c. Once (Literal c)) ps) s cs = (if take (length ps) (drop s src) = ps then [(s + length ps, cs)] else [])"
proof (induction ps arbitrary: s)
  case (Cons c ps)
  show ?case
  proof (cases "s < length src")
    case True
    then show ?thesis using Cons.IH [of "s + 1"] occurs_Cons [OF True, of c ps] by auto
  qed simp
qed simp

lemma ordinary_text: "ordinary ps \<Longrightarrow> takeWhile (\<lambda>c. c \<noteq> 0) ps = ps"
  by (auto simp: ordinary_def takeWhile_eq_all_conv)

lemma str_find_loop_ordinary:
  assumes "length src < 2 ^ 31" "ordinary ps" "room 0" "s1 \<le> length src"
  shows "str_find_loop room src ps 0 True False s1 = Inr (case first_occurrence src ps s1 of None \<Rightarrow> [Pushed_nil]
    | Some k \<Rightarrow> [Pushed_integer (int k + 1), Pushed_integer (int k + int (length ps))])"
  using assms(4)
proof (induction "length src - s1" arbitrary: s1 rule: less_induct)
  case less
  let ?hit = "take (length ps) (drop s1 src) = ps"
  have m: "match src ps 0 s1 [] = Inr (if ?hit then (Some (s1 + length ps), []) else (None, []))"
    using match_text [OF assms(1) ordinary_parse [OF assms(2)], of ps 0 "[]" s1] less.prems
      ordinary_text [OF assms(2)] ordinary_valid [of ps "[]"] ordinary_matches [of src ps s1 "[]"]
    by (simp add: text_at_def)
  have occ: "first_occurrence src ps s1 = (if ?hit then Some s1 else first_occurrence src ps (s1 + 1))"
    using less.prems by (simp add: first_occurrence_def upt_conv_Cons del: upt_Suc)
  have none: "first_occurrence src ps (s1 + 1) = None" if "\<not> s1 < length src"
    using that less.prems by (simp add: first_occurrence_def)
  have "push_captures room src [] None = Inr []" using assms(3) by (simp add: push_captures_def opt_arg_def)
  then show ?case using m occ none less.hyps [of "s1 + 1"] less.prems
    by (subst str_find_loop.simps) auto
qed

section \<open>Substituting every match by itself\<close>

abbreviation whole_match :: "u8 list" where
  "whole_match \<equiv> map of_char ''%0''"

lemma add_s_loop_end: "length news \<le> i \<Longrightarrow> add_s_loop fmt src cs news s e i b = Inr b"
  by (subst add_s_loop.simps) simp

lemma add_value_whole:
  assumes "s \<le> e" "e \<le> length src"
  shows "add_value room fmt src cs (Repl_string whole_match) (take s src) s e w = Inr (take e src, w)"
proof -
  have "add_s_loop fmt src cs whole_match s e 0 (take s src) = Inr (take s src @ take (e - s) (drop s src))"
    using assms by (subst add_s_loop.simps) (simp add: at_char_def isdigit_def mem_range_def add_s_loop_end)
  moreover have "take s src @ take (e - s) (drop s src) = take e src" using take_add [of s "e - s" src] assms(1) by simp
  ultimately show ?thesis by (simp add: add_value_def add_s_def)
qed

lemma gsub_loop_keeps:
  assumes "length subj < 2 ^ 31" "p \<le> length ps" "src \<le> length subj"
    and total: "\<And>k. k \<le> length subj \<Longrightarrow> \<exists>r. match subj ps p k [] = Inr r"
  shows "\<exists>src' n'. gsub_loop room fmt subj ps p (Repl_string whole_match) anchor max_s src n (take src subj) w =
    Inr (src', n', take src' subj, w) \<and> src' \<le> length subj \<and> n \<le> n' \<and> n' \<le> max n max_s"
  using assms(3)
proof (induction "(nat (max_s - n), length subj - src)" arbitrary: src n rule: wf_induct_rule [OF wf_lex_prod [OF wf_less_than wf_less_than]])
  case 1
  note ih = "1.hyps"
  let ?loop = "gsub_loop room fmt subj ps p (Repl_string whole_match) anchor max_s"
  let ?ok = "\<lambda>r. \<exists>src' n'. r = Inr (src', n', take src' subj, w) \<and> src' \<le> length subj \<and> n \<le> n' \<and> n' \<le> max n max_s"
  show ?case
  proof (cases "n < max_s")
    case True
    obtain r cs where m: "match subj ps p src [] = Inr (r, cs)" using total [OF "1.prems"] by fastforce
    have one: "take (src + 1) subj = take src subj @ [subj ! src]" "at_char subj src = Inr (subj ! src)" if "src < length subj"
      using that by (simp_all add: take_Suc_conv_app_nth at_char_def)
    have step: "?ok (?loop t (n + 1) (take t subj) w)" if "t \<le> length subj" for t
    proof -
      have "\<exists>src' n'. ?loop t (n + 1) (take t subj) w = Inr (src', n', take src' subj, w) \<and> src' \<le> length subj \<and> n + 1 \<le> n' \<and> n' \<le> max (n + 1) max_s"
        using True that by (intro ih) auto
      then show ?thesis using True by force
    qed
    have skip: "?ok (?loop (src + 1) n (take src subj @ [subj ! src]) w)" if "src < length subj"
      using ih [of n "src + 1"] that one(1) [OF that] by simp
    show ?thesis
    proof (cases r)
      case None
      then show ?thesis using True m skip one "1.prems" by (subst gsub_loop.simps) (auto simp: exI)
    next
      case (Some e)
      note e = match_someD [OF assms(1,2) "1.prems" m [unfolded Some]]
      note v = add_value_whole [OF e(1,2), of room fmt cs w]
      consider "e > src" | "e = src" "src < length subj" | "e = src" "src = length subj" using e "1.prems" by linarith
      then show ?thesis
      proof cases
        case 1
        then show ?thesis using True m Some v step [OF e(2)] e(2) by (subst gsub_loop.simps) auto
      next
        case 2
        then show ?thesis using True m Some v step [of "src + 1"] one by (subst gsub_loop.simps) auto
      next
        case 3
        then show ?thesis using True m Some v by (subst gsub_loop.simps) auto
      qed
    qed
  qed (use "1.prems" in \<open>subst gsub_loop.simps, auto\<close>)
qed

section \<open>Properties\<close>

text \<open>C15: whatever the pattern, the subject (below \<open>2\<^sup>3\<^sup>1\<close> bytes) and the replacement, the functions \<^verbatim>\<open>find\<close>, \<^verbatim>\<open>match\<close>, \<^verbatim>\<open>gmatch\<close>
  and \<^verbatim>\<open>gsub\<close> read no byte outside the two strings and overflow no counter: they return or raise a Lua error. When \<^verbatim>\<open>match\<close>
  itself succeeds, the end of the match lies between its start and the end of the subject, at most 32 captures are in
  use and each of them lies inside the subject.
\<close>

theorem patterns_safe:
  assumes "length s < 2 ^ 31"
  shows "no_undef (str_find_aux room s ps i plain f) \<and> no_undef (gmatch_aux room s ps up at) \<and>
    no_undef (str_gsub room fmt s ps rp m w) \<and>
    (\<forall>p k e cs. p \<le> length ps \<and> k \<le> length s \<and> match s ps p k [] = Inr (Some e, cs) \<longrightarrow>
       k \<le> e \<and> e \<le> length s \<and> caps_in (length s) e cs)"
proof (intro conjI allI impI)
  have "no_undef (lmemfind s (find_start s i) (length s - find_start s i) ps)"
    using lmemfind_find [OF find_start_le, of s i ps] by simp
  then show "no_undef (str_find_aux room s ps i plain f)"
    using assms unfolding str_find_aux_def Let_def
    by (auto intro!: no_undef_bind str_find_loop_safe anchor_offset [of ps, simplified] split: option.splits)
  show "no_undef (gmatch_aux room s ps up at)" using gmatch_aux_safe [OF assms] .
  show "no_undef (str_gsub room fmt s ps rp m w)" using str_gsub_safe [OF assms] .
  fix p k e cs
  assume a: "p \<le> length ps \<and> k \<le> length s \<and> match s ps p k [] = Inr (Some e, cs)"
  then show "k \<le> e" and "e \<le> length s" and "caps_in (length s) e cs" using match_someD [OF assms, of p ps k e cs] by simp_all
qed

lemma patterns_safe_witness:
  "no_undef (str_find_aux (\<lambda>n. True) (map of_char ''f(x)'') (map of_char ''%b()'') None False True) \<and>
    no_undef (gmatch_aux (\<lambda>n. True) (map of_char ''f(x)'') (map of_char ''%b()'') 0 0) \<and>
    no_undef (str_gsub (\<lambda>n. True) (\<lambda>i. []) (map of_char ''f(x)'') (map of_char ''%b()'') (Repl_string [37]) None ())"
  using patterns_safe [of "map of_char ''f(x)''" "\<lambda>n. True" "map of_char ''%b()''" None False True 0 0 "\<lambda>i. []" "Repl_string [37]" None "()"]
  by simp

text \<open>C20: for a pattern of ordinary characters (no special character of the matcher, no closing parenthesis, no zero byte)
  the plain search \<^verbatim>\<open>find\<close> takes as a shortcut gives the answer of the pattern matcher: both return the first
  and last position of the first occurrence of the text at or behind the start of the search, and nil exactly when it
  does not occur there.
\<close>

theorem find_plain_eq:
  assumes "length s < 2 ^ 31" and "ordinary ps" and "room 0"
  shows "str_find room s ps i plain = str_find_loop room s ps 0 True False (find_start s i) \<and>
    str_find room s ps i plain = Inr (case first_occurrence s ps (find_start s i) of None \<Rightarrow> [Pushed_nil]
      | Some k \<Rightarrow> [Pushed_integer (int k + 1), Pushed_integer (int k + int (length ps))])"
proof -
  have "\<not> strpbrk_specials ps" using assms(2) by (auto simp: strpbrk_specials_def ordinary_def list_ex_iff dest: set_takeWhileD)
  then have "str_find room s ps i plain = Inr (case first_occurrence s ps (find_start s i) of None \<Rightarrow> [Pushed_nil]
      | Some k \<Rightarrow> [Pushed_integer (int k + 1), Pushed_integer (int k + int (length ps))])"
    by (simp add: str_find_def str_find_aux_def Let_def lmemfind_find split: option.split)
  then show ?thesis using str_find_loop_ordinary [OF assms(1,2), of room "find_start s i"] assms(3) by simp
qed

lemma find_plain_eq_witness:
  "str_find (\<lambda>n. True) (map of_char ''a cabbage'') (map of_char ''ab'') (Some 2) False =
    Inr [Pushed_integer 4, Pushed_integer 5]"
proof -
  have len: "length (map of_char ''a cabbage'' :: u8 list) < 2 ^ 31" by simp
  have ord: "ordinary (map of_char ''ab'')" by code_simp
  have occ: "first_occurrence (map of_char ''a cabbage'') (map of_char ''ab'') (find_start (map of_char ''a cabbage'') (Some 2)) = Some 3"
    by code_simp
  show ?thesis using find_plain_eq [OF len ord, of "\<lambda>n. True" "Some 2" False, unfolded occ] by auto
qed

text \<open>C21: \<^verbatim>\<open>gsub\<close> with the replacement \<^verbatim>\<open>%0\<close> gives back the subject, for every pattern that parses and uses its captures correctly,
  anchored or not and with any limit: matches, empty ones included, and the text between them are each copied once. It
  returns, leaves the state of the script alone and counts no more substitutions than the limit allows.
\<close>

theorem gsub_keeps:
  assumes "length s < 2 ^ 31" and "parse (takeWhile (\<lambda>x. x \<noteq> 0) (if byte_at ps 0 = uchar CHR ''^'' then drop 1 ps else ps)) = Some its"
    and "caps_valid its []"
  shows "\<exists>n. str_gsub room fmt s ps (Repl_string whole_match) (Some m) w = Inr (s, n, w) \<and> 0 \<le> n \<and> n \<le> max 0 m"
proof -
  define p where "p = (if byte_at ps 0 = uchar CHR ''^'' then 1 else 0 :: nat)"
  have c: "at_char ps 0 = Inr (byte_at ps 0)" by (simp add: at_char_def byte_at_def)
  have p: "p \<le> length ps" using anchor_offset [OF c] by (simp add: p_def)
  have t: "parse (takeWhile (\<lambda>x. x \<noteq> 0) (drop p ps)) = Some its" using assms(2) by (auto simp: p_def split: if_splits)
  have "\<exists>r. match s ps p k [] = Inr r" if "k \<le> length s" for k
    using match_text [OF assms(1) t, of ps p "[]" k] assms(3) p that by (simp add: text_at_def)
  then obtain src n where "gsub_loop room fmt s ps p (Repl_string whole_match) (byte_at ps 0 = uchar CHR ''^'') m 0 0 (take 0 s) w =
      Inr (src, n, take src s, w)" "src \<le> length s" "0 \<le> n" "n \<le> max 0 m"
    using gsub_loop_keeps [OF assms(1) p le0, of room fmt "byte_at ps 0 = uchar CHR ''^''" m 0 w] by blast
  then show ?thesis unfolding str_gsub_def c
    by (cases "byte_at ps 0 = uchar CHR ''^''") (auto simp: p_def opt_arg_def Let_def mem_range_def)
qed

lemma gsub_keeps_witness:
  "\<exists>n. str_gsub (\<lambda>n. True) (\<lambda>i. []) (map of_char ''one two'') (map of_char ''(%w-)'') (Repl_string whole_match) (Some 100) () =
    Inr (map of_char ''one two'', n, ()) \<and> 0 \<le> n \<and> n \<le> max 0 100"
proof -
  have "parse (takeWhile (\<lambda>x. x \<noteq> 0) (if byte_at (map of_char ''(%w-)'') 0 = uchar CHR ''^''
      then drop 1 (map of_char ''(%w-)'') else map of_char ''(%w-)'')) = Some [Open, Lazy (Letter 119), Close]" by code_simp
  moreover have "caps_valid [Open, Lazy (Letter 119), Close] []" by code_simp
  ultimately show ?thesis
    using gsub_keeps [of "map of_char ''one two''" "map of_char ''(%w-)''" _ "\<lambda>n. True" "\<lambda>i. []" 100 "()"] by simp
qed

section \<open>Taking strings apart\<close>

lemma reverse_loop_rev: "l \<le> length s \<Longrightarrow> reverse_loop s l b = b @ rev (take l s)"
  by (induction l arbitrary: b) (simp_all add: take_Suc_conv_app_nth)

lemma str_reverse_rev: "str_reverse s = rev s"
  by (simp add: str_reverse_def reverse_loop_rev)

lemma byte_loop_bytes: "i + n \<le> length s \<Longrightarrow> byte_loop s i n = Inr (map uint (take n (drop i s)))"
proof (induction n arbitrary: i)
  case (Suc n)
  have "drop i s = s ! i # drop (i + 1) s" "at_char s i = Inr (s ! i)"
    using Suc.prems by (simp_all add: Cons_nth_drop_Suc at_char_def)
  then show ?case using Suc by simp
qed simp

lemma str_char_bytes: "str_char (map uint s) = Inr s"
  by (induction s) simp_all

lemma str_sub_front: "0 \<le> i \<Longrightarrow> str_sub s 1 (Some i) = Inr (take (nat i) s)"
  by (auto simp: str_sub_def posrelat_def opt_arg_def mem_range_def Let_def Suc_le_eq)

lemma str_sub_back: "0 \<le> i \<Longrightarrow> str_sub s (i + 1) None = Inr (drop (nat i) s)"
  by (auto simp: str_sub_def posrelat_def opt_arg_def mem_range_def Let_def nat_diff_distrib' not_le)

lemma str_sub_suffix: "0 < k \<Longrightarrow> str_sub s (- int k) None = Inr (drop (length s - k) s)"
proof -
  assume "0 < k"
  moreover have "nat (int (length s) - int k) = length s - k" by linarith
  ultimately show ?thesis
    by (auto simp: str_sub_def posrelat_def opt_arg_def mem_range_def Let_def Suc_le_eq)
qed

lemma str_byte_all:
  assumes "length s < 2 ^ 31" and "room (int (length s))"
  shows "str_byte room s (Some 1) (Some (- 1)) = Inr (map uint s)"
proof (cases "s = []")
  case False
  have "sint (word_of_int (int (length s)) :: 32 word) = int (length s)" using assms(1) by (intro sint_int_of) simp_all
  then show ?thesis using False assms byte_loop_bytes [of 0 "length s" s]
    by (simp add: str_byte_def posrelat_def opt_arg_def Let_def not_less Suc_le_eq)
qed (simp add: str_byte_def posrelat_def opt_arg_def)

text \<open>taking a string apart and putting it together gives it back. Cut at any position, the two substrings join to the
  string; a negative start counts from the end, and takes the whole string when it reaches before its first byte; the
  character codes of all bytes, when the stack has room for them, are turned back into the string by \<^verbatim>\<open>char\<close>.
\<close>

lemma str_pieces:
  assumes "length s < 2 ^ 31" and "room (int (length s))" and "0 \<le> i" and "0 < k"
  shows "pbind (str_sub s 1 (Some i)) (\<lambda>a. pbind (str_sub s (i + 1) None) (\<lambda>b. Inr (a @ b))) = Inr s \<and>
    str_sub s (- int k) None = Inr (drop (length s - k) s) \<and>
    pbind (str_byte room s (Some 1) (Some (- 1))) str_char = Inr s"
  using assms by (simp add: str_sub_front str_sub_back str_sub_suffix str_byte_all str_char_bytes)

section \<open>The arrays of format\<close>

text \<open>
  A piece of the format string, and the specifications that the scan accepts: at most five flags, a width of at most two
  digits and a precision of at most two digits.
\<close>

definition piece :: "u8 list \<Rightarrow> nat \<Rightarrow> nat \<Rightarrow> u8 list" where
  "piece fs p q = take (q - p) (drop p fs)"

definition bounded_spec :: "u8 list \<Rightarrow> bool" where
  "bounded_spec x \<longleftrightarrow> (\<exists>fl w v. x = fl @ w @ v \<and>
     length fl \<le> length FLAGS \<and> set fl \<subseteq> set FLAGS \<and> length w \<le> 2 \<and> list_all isdigit w \<and>
     (v = [] \<or> (\<exists>d. v = uchar CHR ''.'' # d \<and> length d \<le> 2 \<and> list_all isdigit d)))"

lemma piece_refl [simp]: "piece fs p p = []"
  by (simp add: piece_def)

lemma piece_Cons: "p < q \<Longrightarrow> p < length fs \<Longrightarrow> piece fs p q = fs ! p # piece fs (p + 1) q"
  by (simp add: piece_def Cons_nth_drop_Suc [symmetric] take_Cons' Suc_diff_Suc)

lemma piece_append: "p \<le> q \<Longrightarrow> q \<le> r \<Longrightarrow> piece fs p r = piece fs p q @ piece fs q r"
  using take_add [of "q - p" "r - q" "drop p fs"] by (simp add: piece_def)

lemma length_piece: "length (piece fs p q) \<le> q - p"
  by (simp add: piece_def)

lemma skip_flags_ex:
  "p \<le> length fs \<Longrightarrow> \<exists>q. skip_flags fs p = Inr q \<and> p \<le> q \<and> q \<le> length fs \<and> set (piece fs p q) \<subseteq> set FLAGS"
proof (induction "length fs - p" arbitrary: p rule: less_induct)
  case less
  obtain c where c: "at_char fs p = Inr c" using at_char_ex [OF less.prems] by blast
  show ?case
  proof (cases "c \<noteq> 0 \<and> c \<in> set FLAGS")
    case True
    then have p: "p < length fs" using at_char_nonzero [OF c] by simp
    then obtain q where q: "skip_flags fs (p + 1) = Inr q" "p + 1 \<le> q" "q \<le> length fs" "set (piece fs (p + 1) q) \<subseteq> set FLAGS"
    proof -
      have "length fs - (p + 1) < length fs - p" using p by simp
      then show thesis using less.hyps [of "p + 1"] p that by fastforce
    qed
    have "fs ! p = c" using c p by (simp add: at_char_def)
    then have "set (piece fs p q) \<subseteq> set FLAGS" using piece_Cons [of p q fs] p q True by simp
    moreover have "skip_flags fs p = Inr q" using True c q(1) by (subst skip_flags.simps) simp
    ultimately show ?thesis using q by auto
  next
    case False
    then have "skip_flags fs p = Inr p" using c by (subst skip_flags.simps) auto
    then show ?thesis using less.prems by simp
  qed
qed

lemma skip_digit_ex:
  assumes "p \<le> length fs"
  shows "\<exists>q. skip_digit fs p = Inr q \<and> p \<le> q \<and> q \<le> length fs \<and> q \<le> p + 1 \<and> list_all isdigit (piece fs p q)"
proof -
  obtain c where c: "at_char fs p = Inr c" using at_char_ex [OF assms] by blast
  show ?thesis
  proof (cases "isdigit c")
    case True
    then have p: "p < length fs" using at_char_nonzero [OF c] isdigit_nonzero by blast
    then have "piece fs p (p + 1) = [c]" using c piece_Cons [of p "p + 1" fs] by (simp add: at_char_def)
    then show ?thesis using True c p by (auto simp: skip_digit_def)
  qed (use c assms in \<open>simp add: skip_digit_def\<close>)
qed

lemma two_digits_ex:
  assumes "p \<le> length fs"
  shows "\<exists>q r. skip_digit fs p = Inr q \<and> skip_digit fs q = Inr r \<and> p \<le> r \<and> r \<le> length fs \<and>
    length (piece fs p r) \<le> 2 \<and> list_all isdigit (piece fs p r)"
proof -
  obtain q where q: "skip_digit fs p = Inr q" "p \<le> q" "q \<le> length fs" "q \<le> p + 1" "list_all isdigit (piece fs p q)"
    using skip_digit_ex [OF assms] by blast
  obtain r where r: "skip_digit fs q = Inr r" "q \<le> r" "r \<le> length fs" "r \<le> q + 1" "list_all isdigit (piece fs q r)"
    using skip_digit_ex [OF q(3)] by blast
  have "length (piece fs p r) \<le> 2" using length_piece [of fs p r] q(4) r(4) by linarith
  moreover have "list_all isdigit (piece fs p r)" using piece_append [OF q(2) r(2)] q(5) r(5) by simp
  ultimately show ?thesis using q r by auto
qed

lemma skip_precision_ex:
  assumes "p \<le> length fs"
  shows "\<exists>r. skip_precision fs p = Inr r \<and> p \<le> r \<and> r \<le> length fs \<and>
    (piece fs p r = [] \<or> (\<exists>d. piece fs p r = uchar CHR ''.'' # d \<and> length d \<le> 2 \<and> list_all isdigit d))"
proof -
  obtain c where c: "at_char fs p = Inr c" using at_char_ex [OF assms] by blast
  show ?thesis
  proof (cases "c = uchar CHR ''.''")
    case True
    then have p: "p < length fs" using at_char_nonzero [OF c] by simp
    then obtain q r where r: "skip_digit fs (p + 1) = Inr q" "skip_digit fs q = Inr r" "p + 1 \<le> r" "r \<le> length fs"
        "length (piece fs (p + 1) r) \<le> 2" "list_all isdigit (piece fs (p + 1) r)"
      using two_digits_ex [of "p + 1" fs] by auto
    have "piece fs p r = c # piece fs (p + 1) r" using piece_Cons [of p r fs] p r(3) c by (simp add: at_char_def)
    moreover have "skip_precision fs p = Inr r" using c True r(1,2) by (simp add: skip_precision_def)
    ultimately show ?thesis using True r by auto
  qed (use c assms in \<open>simp add: skip_precision_def\<close>)
qed

lemma max_format: "MAX_FORMAT = 18" "length FLAGS = 5" "length LUA_INTFRMLEN = 1"
  by (simp_all add: MAX_FORMAT_def FLAGS_def LUA_INTFRMLEN_def)

lemma bounded_spec_length: "bounded_spec x \<Longrightarrow> length x \<le> 10"
  by (auto simp: bounded_spec_def max_format)

lemma list_all_isdigit_nonzero: "list_all isdigit xs \<Longrightarrow> 0 \<notin> set xs"
  by (auto simp: list_all_iff dest!: isdigit_nonzero)

lemma bounded_spec_nonzero:
  assumes "bounded_spec x"
  shows "0 \<notin> set x"
proof -
  have "0 \<notin> set FLAGS" by (simp add: FLAGS_def)
  then show ?thesis using assms by (auto simp: bounded_spec_def dest!: list_all_isdigit_nonzero)
qed

lemma scanformat_cases:
  assumes "i \<le> length fs"
  shows "scanformat fs i \<in> {Inl Repeated_flags, Inl Width_too_long} \<or>
    (\<exists>p x c. scanformat fs i = Inr (p, L_ESC # x @ [c, 0]) \<and> bounded_spec x \<and> at_char fs p = Inr c \<and> i \<le> p \<and> p \<le> length fs)"
proof -
  obtain p where p: "skip_flags fs i = Inr p" "i \<le> p" "p \<le> length fs" "set (piece fs i p) \<subseteq> set FLAGS"
    using skip_flags_ex [OF assms] by blast
  obtain q r where r: "skip_digit fs p = Inr q" "skip_digit fs q = Inr r" "p \<le> r" "r \<le> length fs"
      "length (piece fs p r) \<le> 2" "list_all isdigit (piece fs p r)"
    using two_digits_ex [OF p(3)] by blast
  obtain t where t: "skip_precision fs r = Inr t" "r \<le> t" "t \<le> length fs"
      "piece fs r t = [] \<or> (\<exists>d. piece fs r t = uchar CHR ''.'' # d \<and> length d \<le> 2 \<and> list_all isdigit d)"
    using skip_precision_ex [OF r(4)] by blast
  obtain c where c: "at_char fs t = Inr c" using at_char_ex [OF t(3)] by blast
  show ?thesis
  proof (cases "p - i \<ge> length FLAGS + 1 \<or> isdigit c")
    case True
    then show ?thesis using p r t c by (auto simp: scanformat_def)
  next
    case False
    have "piece fs i t = piece fs i p @ piece fs p r @ piece fs r t"
      using piece_append [of i p t fs] piece_append [of p r t fs] p(2) r(3) t(2) by simp
    moreover have "length (piece fs i p) \<le> length FLAGS" using length_piece [of fs i p] False by linarith
    ultimately have spec: "bounded_spec (piece fs i t)"
      unfolding bounded_spec_def using p(4) r(5,6) t(4) by blast
    have it: "i \<le> t" using p(2) r(3) t(2) by simp
    have "(fs @ [0]) ! t = c" using c t(3) by (auto simp: at_char_def nth_append split: if_splits)
    then have form: "take (t - i + 1) (drop i (fs @ [0])) = piece fs i t @ [c]"
      using it t(3) by (cases "t < length fs") (auto simp: take_Suc_conv_app_nth piece_def nth_append Suc_diff_le)
    have "scanformat fs i = Inr (t, L_ESC # piece fs i t @ [c, 0])"
      using p r t c False form bounded_spec_length [OF spec] by (simp add: scanformat_def max_format)
    then show ?thesis using spec c it t(3) by blast
  qed
qed

lemma addintlen_form:
  assumes "bounded_spec x" and "c \<noteq> 0"
  shows "addintlen (L_ESC # x @ [c, 0]) = Inr (L_ESC # x @ LUA_INTFRMLEN @ [c, 0])"
proof -
  have "takeWhile (\<lambda>c. c \<noteq> 0) (L_ESC # x @ [c, 0]) = L_ESC # x @ [c]"
    using assms(2) bounded_spec_nonzero [OF assms(1)] by (simp add: takeWhile_append)
  then show ?thesis using bounded_spec_length [OF assms(1)] by (simp add: addintlen_def max_format nth_append)
qed

text \<open>
  What the array for an item relies on: the text of a number, or of a string that is short or cut by a precision, has less
  than \<open>MAX_ITEM\<close> bytes when width and precision have two digits at most.
\<close>

definition sprintf_fits :: "('a \<Rightarrow> u8 list option) \<Rightarrow> (u8 list \<Rightarrow> 'a \<Rightarrow> u8 list) \<Rightarrow> bool" where
  "sprintf_fits tostr sprintf \<longleftrightarrow> (\<forall>x m c a. bounded_spec x \<longrightarrow> m \<in> {[], LUA_INTFRMLEN} \<longrightarrow> c \<in> set (map of_char ''cdiouxXeEfgGs'') \<longrightarrow>
     (c = uchar CHR ''s'' \<longrightarrow> uchar CHR ''.'' \<in> set x \<or> (\<exists>s. tostr a = Some s \<and> length s < 100)) \<longrightarrow>
     length (sprintf (L_ESC # x @ m @ [c, 0]) a) < MAX_ITEM)"

lemma print_item_fits:
  assumes "sprintf_fits tostr sprintf" and "bounded_spec x" and "m \<in> {[], LUA_INTFRMLEN}" and "c \<in> set (map of_char ''cdiouxXeEfgGs'')"
    and "c = uchar CHR ''s'' \<Longrightarrow> uchar CHR ''.'' \<in> set x \<or> (\<exists>s. tostr a = Some s \<and> length s < 100)"
  shows "no_undef (print_item sprintf (L_ESC # x @ m @ [c, 0]) a)"
proof -
  have "length (sprintf (L_ESC # x @ m @ [c, 0]) a) < MAX_ITEM" using assms unfolding sprintf_fits_def by blast
  then show ?thesis by (simp add: print_item_def)
qed

lemma format_item_safe:
  assumes "sprintf_fits tostr sprintf" and "bounded_spec x"
  shows "no_undef (format_item tostr isnum sprintf (L_ESC # x @ [c, 0]) c a)"
proof -
  note fits = print_item_fits [OF assms, of "[]" c a, simplified append.simps] print_item_fits [OF assms, of LUA_INTFRMLEN c a]
  consider (char) "c = uchar CHR ''c''" | (int) "c \<in> set (map of_char ''diouxX'')" | (float) "c \<in> set (map of_char ''eEfgG'')"
    | (quote) "c = uchar CHR ''q''" | (str) "c = uchar CHR ''s''"
    | (other) "c \<noteq> uchar CHR ''c''" "c \<notin> set (map of_char ''diouxX'')" "c \<notin> set (map of_char ''eEfgG'')" "c \<noteq> uchar CHR ''q''" "c \<noteq> uchar CHR ''s''"
    by blast
  then show ?thesis
  proof cases
    case int
    then have "c \<noteq> 0" by auto
    then show ?thesis using int fits(2) addintlen_form [OF assms(2), of c] by (auto simp: format_item_def)
  next
    case str
    then show ?thesis using fits(1) by (auto simp: format_item_def not_le split: option.split)
  qed (use fits(1) in \<open>auto simp: format_item_def split: option.split\<close>)
qed

text \<open>C27: whatever the format string and the arguments, \<^verbatim>\<open>string.format\<close> stays inside its two arrays and inside the format string:
  the specification it copies, with the length modifier of the integer conversions, fits the 18 bytes reserved for it
  because repeated flags and long widths are rejected first. For the array of the formatted item this rests on the bound
  of 511 bytes that the source states for what \<^verbatim>\<open>sprintf\<close> writes when width and precision have two digits at most; strings
  of 100 bytes or more without a precision never reach \<^verbatim>\<open>sprintf\<close>.\<close>

theorem format_fits:
  assumes "sprintf_fits tostr sprintf"
  shows "no_undef (str_format tostr isnum sprintf fs args)"
proof -
  have "no_undef (format_loop tostr isnum sprintf fs args i b)" for i b
  proof (induction "length fs - i" arbitrary: i b args rule: less_induct)
    case less
    show ?case
    proof (cases "i < length fs")
      case True
      then have ih: "no_undef (format_loop tostr isnum sprintf fs as j b')" if "i < j" for j b' as
        using that by (intro less) simp
      have item: "no_undef (pbind (scanformat fs (i + 1)) (\<lambda>(p, form). pbind (at_char fs p) (\<lambda>c.
          pbind (format_item tostr isnum sprintf form c a) (\<lambda>x. format_loop tostr isnum sprintf fs as (p + 1) (b @ x)))))" for a as
        using scanformat_cases [of "i + 1" fs] True
        by (auto intro!: no_undef_bind format_item_safe [OF assms, simplified] ih)
      obtain c d where "at_char fs i = Inr c" "at_char fs (i + 1) = Inr d"
        using at_char_ex [of i fs] at_char_ex [of "i + 1" fs] True by auto
      then show ?thesis using True ih item by (subst format_loop.simps) (simp split: list.split)
    qed (subst format_loop.simps, simp)
  qed
  then show ?thesis by (simp add: str_format_def)
qed

lemma format_fits_witness:
  "sprintf_fits Some (\<lambda>form a. take 100 a) \<and>
    no_undef (str_format Some (\<lambda>a. True) (\<lambda>form a. take 100 a) (map of_char ''%-+ #099.99d %q'') [[49], [97]])"
proof -
  have fits: "sprintf_fits Some (\<lambda>form a. take 100 a)" 
    by (simp only: sprintf_fits_def MAX_ITEM_def length_take) linarith
  show ?thesis using fits format_fits [OF fits, of "\<lambda>a. True" "map of_char ''%-+ #099.99d %q''" "[[49], [97]]"] by blast
qed

section \<open>The iterator and corner cases\<close>

text \<open>Each call of the iterator of \<^verbatim>\<open>gmatch\<close> that returns values moves forward; one that returns none is at the end.\<close>

lemma push_loop_length: "push_loop src cs s e is = Inr xs \<Longrightarrow> length xs = length is"
  by (induction "is" arbitrary: xs) (auto simp: pbind_Inr_iff)

lemma push_loop_some: "push_loop src cs s e [0..<n] = Inr [] \<Longrightarrow> n = 0"
  using push_loop_length [of src cs s e "[0..<n]" "[]"] by simp

lemma push_captures_some: "push_captures room src cs (Some se) = Inr xs \<Longrightarrow> xs \<noteq> []"
  by (auto simp: push_captures_def opt_arg_def Let_def simp del: push_loop.simps upt_Suc upt_rec_numeral split: if_splits prod.splits dest!: push_loop_some)

lemma gmatch_advances:
  assumes "length s < 2 ^ 31" and "gmatch_aux room s ps up at = Inr (up', xs)"
  shows "(if xs = [] then up' = up else at < up' \<and> up' \<le> length s + 1)"
  using assms(2)
proof (induction "length s + 1 - at" arbitrary: at rule: less_induct)
  case less
  show ?case
  proof (cases "at \<le> length s")
    case True
    obtain r cs where m: "match s ps 0 at [] = Inr (r, cs)"
      using less.prems True by (subst (asm) gmatch_aux.simps) (auto simp: pbind_Inr_iff)
    show ?thesis
    proof (cases r)
      case None
      then have "gmatch_aux room s ps up (at + 1) = Inr (up', xs)" using less.prems True m by (subst (asm) gmatch_aux.simps) simp
      then show ?thesis using less.hyps [of "at + 1"] True by (auto split: if_splits simp: less_Suc_eq_le Suc_diff_le)
    next
      case (Some e)
      then show ?thesis using less.prems True m match_someD [OF assms(1) le0 True, of ps e cs]
        by (subst (asm) gmatch_aux.simps) (auto simp: pbind_Inr_iff Let_def dest!: push_captures_some split: if_splits)
    qed
  qed (use less.prems in \<open>subst (asm) gmatch_aux.simps, simp\<close>)
qed

text \<open>
  The closing parenthesis is not among the characters that switch \<^verbatim>\<open>find\<close> to the matcher: \<^verbatim>\<open>find\<close> looks for it as a plain
  character while \<^verbatim>\<open>match\<close> rejects the same pattern.
\<close>

lemma find_paren_plain:
  "str_find room [97, 41] [41] None False = Inr [Pushed_integer 2, Pushed_integer 2] \<and>
    str_match room [97, 41] [41] None = Inl Invalid_pattern_capture"
proof
  have "first_occurrence [97, 41] [41] (find_start [97, 41] None) = Some 1" by code_simp
  moreover have "\<not> strpbrk_specials [41]" by code_simp
  ultimately show "str_find room [97, 41] [41] None False = Inr [Pushed_integer 2, Pushed_integer 2]"
    using lmemfind_find [OF find_start_le, of "[97, 41]" None "[41]"]
    by (simp add: str_find_def str_find_aux_def Let_def del: length_Cons)
  show "str_match room [97, 41] [41] None = Inl Invalid_pattern_capture"
    by (simp add: str_match_def str_find_aux_def Let_def at_char_def str_find_loop.simps match.simps end_capture_def capture_to_close_def)
qed

text \<open>A replacement that ends in an escape character adds the zero byte behind it to the result.\<close>

lemma add_s_trailing_escape: "add_s fmt src cs [37] b s e = Inr (b @ [0])"
  by (subst add_s_def, subst add_s_loop.simps) (simp add: at_char_def isdigit_def add_s_loop_end)

text \<open>Repetition by the least \<^verbatim>\<open>int\<close> decrements it below its range.\<close>

lemma str_rep_least_int: "str_rep s (- 2147483648) = Inl Int_overflow"
  by (simp add: str_rep_def rep_loop.simps)

lemma str_rep_concat:
  assumes "- (2 ^ 31) < n"
  shows "str_rep s n = Inr (concat (replicate (nat n) s))"
proof -
  have "rep_loop s n b = Inr (b @ concat (replicate (nat n) s))" for b
    using assms
  proof (induction "nat n" arbitrary: n b)
    case (Suc m)
    then have "nat n = Suc (nat (n - 1))" "rep_loop s (n - 1) (b @ s) = Inr ((b @ s) @ concat (replicate (nat (n - 1)) s))"
      by (auto intro!: Suc.hyps(1))
    moreover have "0 < n" using Suc.hyps(2) by simp
    ultimately show ?case using Suc.prems by (subst rep_loop.simps) simp
  qed (subst rep_loop.simps, simp)
  then show ?thesis by (simp add: str_rep_def)
qed

end
