(* ===== verification/Lua_Lex.thy ===== *)
theory Lua_Lex
  imports Lua_Strlib
begin

text \<open>
  The lexical analyser of Lua: \<^verbatim>\<open>llex.h\<close> and \<^verbatim>\<open>llex.c\<close>. The state of the lexer holds the current character (\<open>None\<close> for
  \<^verbatim>\<open>EOZ\<close>), the bytes its input stream will still deliver, the line counters, the two tokens and the token buffer with
  its allocated size. The conversion of numerals (\<^verbatim>\<open>luaO_str2d\<close>, over \<^verbatim>\<open>strtod\<close>) and the decimal point of the locale are
  arguments; interned strings are their text, and a reserved word is recognised by its place in \<^verbatim>\<open>luaX_tokens\<close>. The
  level of a long bracket is a C \<^verbatim>\<open>int\<close>: where counting its equals signs, or the offset computed from it, leaves that
  type, the model has the error \<open>Count_overflow\<close>. The sources are compiled with \<^verbatim>\<open>LUA_COMPAT_LSTR\<close> 1, where the counter
  \<^verbatim>\<open>cont\<close> of \<^verbatim>\<open>read_long_string\<close> is never read; it is left out.
\<close>

section \<open>Tokens and states\<close>

definition FIRST_RESERVED :: int where "FIRST_RESERVED = 257"

definition luaX_tokens :: "string list" where
  "luaX_tokens = [''and'', ''break'', ''do'', ''else'', ''elseif'', ''end'', ''false'', ''for'', ''function'', ''if'',
     ''in'', ''local'', ''nil'', ''not'', ''or'', ''repeat'', ''return'', ''then'', ''true'', ''until'', ''while'',
     ''..'', ''...'', ''=='', ''>='', ''<='', ''~='', ''<number>'', ''<name>'', ''<string>'', ''<eof>'']"

definition NUM_RESERVED :: nat where "NUM_RESERVED = 21"

text \<open>The tokens behind the reserved words.\<close>

definition TK_CONCAT :: int where "TK_CONCAT = 278"
definition TK_DOTS :: int where "TK_DOTS = 279"
definition TK_EQ :: int where "TK_EQ = 280"
definition TK_GE :: int where "TK_GE = 281"
definition TK_LE :: int where "TK_LE = 282"
definition TK_NE :: int where "TK_NE = 283"
definition TK_NUMBER :: int where "TK_NUMBER = 284"
definition TK_NAME :: int where "TK_NAME = 285"
definition TK_STRING :: int where "TK_STRING = 286"
definition TK_EOS :: int where "TK_EOS = 287"

lemmas token_defs = TK_CONCAT_def TK_DOTS_def TK_EQ_def TK_GE_def TK_LE_def TK_NE_def TK_NUMBER_def TK_NAME_def
  TK_STRING_def TK_EOS_def

datatype 'n SemInfo = No_info | Info_number 'n | Info_string "u8 list"

record 'n Token =
  token :: int
  seminfo :: "'n SemInfo"

record 'n LexState =
  current :: "u8 option"
  input :: "u8 list"
  linenumber :: int
  lastline :: int
  tok :: "'n Token"
  lookahead :: "'n Token"
  buff :: "u8 list"
  buffsize :: nat
  decpoint :: u8

text \<open>
  \<open>Buffer_overrun\<close> is an access outside the token buffer and \<open>Count_overflow\<close> the overflow of a C \<^verbatim>\<open>int\<close>, both undefined
  behaviour; every other error is a call of \<^verbatim>\<open>luaX_lexerror\<close>.
\<close>

datatype lex_err = Element_too_long | Too_many_lines | Malformed_number | Unfinished_long_string | Unfinished_long_comment
  | Nesting_deprecated | Unfinished_string | Escape_too_large | Invalid_delimiter | Buffer_overrun | Count_overflow

section \<open>Characters and the buffer\<close>

definition next_char :: "'n LexState \<Rightarrow> 'n LexState" where
  "next_char ls = (case input ls of [] \<Rightarrow> ls\<lparr>current := None\<rparr> | c # cs \<Rightarrow> ls\<lparr>current := Some c, input := cs\<rparr>)"

definition currIsNewline :: "'n LexState \<Rightarrow> bool" where
  "currIsNewline ls \<longleftrightarrow> current ls = Some 10 \<or> current ls = Some 13"

definition MAX_SIZET :: nat where "MAX_SIZET = 2 ^ 64 - 3"
definition MAX_INT :: int where "MAX_INT = 2 ^ 31 - 3"

definition save :: "u8 \<Rightarrow> 'n LexState \<Rightarrow> lex_err + 'n LexState" where
  "save c ls =
     pbind (if length (buff ls) + 1 > buffsize ls then
              if buffsize ls \<ge> MAX_SIZET div 2 then Inl Element_too_long
              else Inr (ls\<lparr>buffsize := buffsize ls * 2\<rparr>)
            else Inr ls) (\<lambda>ls.
     if length (buff ls) < buffsize ls then Inr (ls\<lparr>buff := buff ls @ [c]\<rparr>) else Inl Buffer_overrun)"

text \<open>The cast of \<^verbatim>\<open>EOZ\<close> to a character is the byte 255.\<close>

definition save_and_next :: "'n LexState \<Rightarrow> lex_err + 'n LexState" where
  "save_and_next ls = pbind (save (case current ls of None \<Rightarrow> 255 | Some c \<Rightarrow> c) ls) (\<lambda>ls. Inr (next_char ls))"

definition inclinenumber :: "'n LexState \<Rightarrow> lex_err + 'n LexState" where
  "inclinenumber ls =
     (let old = current ls;
          ls = next_char ls;
          ls = (if currIsNewline ls \<and> current ls \<noteq> old then next_char ls else ls);
          ls = ls\<lparr>linenumber := linenumber ls + 1\<rparr> in
      if linenumber ls \<ge> MAX_INT then Inl Too_many_lines else Inr ls)"

definition luaX_setinput :: "u8 list \<Rightarrow> 'n LexState" where
  "luaX_setinput bytes =
     next_char \<lparr>current = None, input = bytes, linenumber = 1, lastline = 1, tok = \<lparr>token = 0, seminfo = No_info\<rparr>,
       lookahead = \<lparr>token = TK_EOS, seminfo = No_info\<rparr>, buff = [], buffsize = 32, decpoint = uchar CHR ''.''\<rparr>"

text \<open>\<^verbatim>\<open>strchr\<close> also finds the zero byte that ends the set.\<close>

definition check_next :: "u8 list \<Rightarrow> 'n LexState \<Rightarrow> lex_err + bool \<times> 'n LexState" where
  "check_next chars ls =
     (if current ls \<in> Some ` set (chars @ [0]) then pbind (save_and_next ls) (\<lambda>ls. Inr (True, ls)) else Inr (False, ls))"

text \<open>What is left to read; every loop of the lexer makes it smaller.\<close>

definition remaining :: "'n LexState \<Rightarrow> nat" where
  "remaining ls = length (input ls) + (if current ls = None then 0 else 1)"

lemma remaining_next_le: "remaining (next_char ls) \<le> length (input ls)"
  by (auto simp: remaining_def next_char_def split: list.split)

lemma remaining_next_less: "current ls \<noteq> None \<Longrightarrow> remaining (next_char ls) < remaining ls"
  by (auto simp: remaining_def next_char_def split: list.split)

lemma save_fields:
  "save c ls = Inr ls' \<Longrightarrow> current ls' = current ls \<and> input ls' = input ls"
  by (auto simp: save_def pbind_Inr_iff split: if_splits)

lemma save_and_next_less: "save_and_next ls = Inr ls' \<Longrightarrow> current ls \<noteq> None \<Longrightarrow> remaining ls' < remaining ls"
proof -
  assume "save_and_next ls = Inr ls'" and c: "current ls \<noteq> None"
  then obtain l where l: "ls' = next_char l" "current l = current ls" "input l = input ls"
    by (auto simp: save_and_next_def pbind_Inr_iff dest!: save_fields)
  then have "remaining l = remaining ls" by (simp add: remaining_def)
  then show ?thesis using remaining_next_less [of l] l c by simp
qed

lemma save_and_next_le: "save_and_next ls = Inr ls' \<Longrightarrow> remaining ls' \<le> remaining ls"
proof -
  assume "save_and_next ls = Inr ls'"
  then obtain l where l: "ls' = next_char l" "input l = input ls"
    by (auto simp: save_and_next_def pbind_Inr_iff dest!: save_fields)
  then show ?thesis using remaining_next_le [of l] by (simp add: remaining_def)
qed

lemma save_remaining: "save c ls = Inr ls' \<Longrightarrow> remaining ls' = remaining ls"
  by (simp add: remaining_def save_fields)

lemma remaining_buff [simp]: "remaining (ls\<lparr>buff := b\<rparr>) = remaining ls"
  by (simp add: remaining_def)

lemma inclinenumber_less: "inclinenumber ls = Inr ls' \<Longrightarrow> current ls \<noteq> None \<Longrightarrow> remaining ls' < remaining ls"
proof -
  assume i: "inclinenumber ls = Inr ls'" and c: "current ls \<noteq> None"
  let ?n = "next_char ls"
  have "remaining ls' = remaining (if currIsNewline ?n \<and> current ?n \<noteq> current ls then next_char ?n else ?n)"
    using i by (auto simp: inclinenumber_def Let_def remaining_def split: if_splits)
  moreover have "currIsNewline ?n \<Longrightarrow> remaining (next_char ?n) < remaining ?n"
    by (intro remaining_next_less) (auto simp: currIsNewline_def)
  ultimately show ?thesis using remaining_next_less [OF c] by (auto split: if_splits)
qed

section \<open>Numerals\<close>

text \<open>Loops that save characters as long as they satisfy a test.\<close>

function save_while :: "(u8 \<Rightarrow> bool) \<Rightarrow> 'n LexState \<Rightarrow> lex_err + 'n LexState" where
  "save_while P ls =
     (if current ls \<noteq> None \<and> P (the (current ls)) then pbind (save_and_next ls) (\<lambda>ls. save_while P ls) else Inr ls)"
  by pat_completeness auto
termination
  by (relation "measure (\<lambda>(P, ls). remaining ls)") (auto dest: save_and_next_less)

declare save_while.simps [simp del]

definition buffreplace :: "u8 \<Rightarrow> u8 \<Rightarrow> 'n LexState \<Rightarrow> 'n LexState" where
  "buffreplace from' to' ls = ls\<lparr>buff := map (\<lambda>c. if c = from' then to' else c) (buff ls)\<rparr>"

text \<open>The text in the buffer up to its zero byte, as \<^verbatim>\<open>luaO_str2d\<close> gets it.\<close>

definition buff_text :: "'n LexState \<Rightarrow> u8 list" where
  "buff_text ls = takeWhile (\<lambda>c. c \<noteq> 0) (buff ls)"

definition trydecpoint :: "(u8 list \<Rightarrow> 'n option) \<Rightarrow> u8 \<Rightarrow> 'n LexState \<Rightarrow> lex_err + 'n \<times> 'n LexState" where
  "trydecpoint str2d point ls =
     (let old = decpoint ls;
          ls = buffreplace old point (ls\<lparr>decpoint := point\<rparr>) in
      case str2d (buff_text ls) of None \<Rightarrow> Inl Malformed_number | Some r \<Rightarrow> Inr (r, ls))"

definition read_numeral :: "(u8 list \<Rightarrow> 'n option) \<Rightarrow> u8 \<Rightarrow> 'n LexState \<Rightarrow> lex_err + 'n \<times> 'n LexState" where
  "read_numeral str2d point ls =
     pbind (save_and_next ls) (\<lambda>ls.
     pbind (save_while (\<lambda>c. isdigit c \<or> c = uchar CHR ''.'') ls) (\<lambda>ls.
     pbind (check_next (map of_char ''Ee'') ls) (\<lambda>(e, ls).
     pbind (if e then pbind (check_next (map of_char ''+-'') ls) (\<lambda>(_, ls). Inr ls) else Inr ls) (\<lambda>ls.
     pbind (save_while (\<lambda>c. isalnum c \<or> c = uchar CHR ''_'') ls) (\<lambda>ls.
     pbind (save 0 ls) (\<lambda>ls.
     let ls = buffreplace (uchar CHR ''.'') (decpoint ls) ls in
     case str2d (buff_text ls) of Some r \<Rightarrow> Inr (r, ls) | None \<Rightarrow> trydecpoint str2d point ls))))))"

section \<open>Strings\<close>

text \<open>A part of the buffer, as \<^verbatim>\<open>luaX_newstring\<close> reads it; the length is an unsigned difference.\<close>

definition buff_part :: "nat \<Rightarrow> nat \<Rightarrow> 'n LexState \<Rightarrow> lex_err + u8 list" where
  "buff_part off n ls =
     (if n \<le> length (buff ls) \<and> off + (length (buff ls) - n) \<le> length (buff ls)
      then Inr (take (length (buff ls) - n) (drop off (buff ls))) else Inl Buffer_overrun)"

function sep_loop :: "int \<Rightarrow> 'n LexState \<Rightarrow> lex_err + int \<times> 'n LexState" where
  "sep_loop count ls =
     (if current ls = Some (uchar CHR ''='') then
        pbind (save_and_next ls) (\<lambda>ls. if count + 1 \<ge> 2 ^ 31 then Inl Count_overflow else sep_loop (count + 1) ls)
      else Inr (count, ls))"
  by pat_completeness auto
termination
  by (relation "measure (\<lambda>(count, ls). remaining ls)") (auto dest: save_and_next_less)

declare sep_loop.simps [simp del]

definition skip_sep :: "'n LexState \<Rightarrow> lex_err + int \<times> 'n LexState" where
  "skip_sep ls =
     (let s = current ls in
      pbind (save_and_next ls) (\<lambda>ls.
      pbind (sep_loop 0 ls) (\<lambda>(count, ls).
      Inr (if current ls = s then count else - count - 1, ls))))"

lemma sep_loop_le: "sep_loop count ls = Inr (n, ls') \<Longrightarrow> remaining ls' \<le> remaining ls"
proof (induction count ls arbitrary: n ls' rule: sep_loop.induct)
  case (1 count ls)
  show ?case
  proof (cases "current ls = Some (uchar CHR ''='')")
    case True
    then obtain l where l: "save_and_next ls = Inr l" "\<not> count + 1 \<ge> 2 ^ 31" "sep_loop (count + 1) l = Inr (n, ls')"
      using "1.prems" by (subst (asm) sep_loop.simps) (auto simp: pbind_Inr_iff split: if_splits)
    then show ?thesis using "1.IH" [OF True l] save_and_next_less [OF l(1)] True by simp
  qed (use "1.prems" in \<open>subst (asm) sep_loop.simps, simp\<close>)
qed

lemma sep_loop_ge: "sep_loop count ls = Inr (n, ls') \<Longrightarrow> count \<le> n"
proof (induction count ls arbitrary: n ls' rule: sep_loop.induct)
  case (1 count ls)
  show ?case
  proof (cases "current ls = Some (uchar CHR ''='')")
    case True
    then obtain l where l: "save_and_next ls = Inr l" "\<not> count + 1 \<ge> 2 ^ 31" "sep_loop (count + 1) l = Inr (n, ls')"
      using "1.prems" by (subst (asm) sep_loop.simps) (auto simp: pbind_Inr_iff split: if_splits)
    then show ?thesis using "1.IH" [OF True l] by simp
  qed (use "1.prems" in \<open>subst (asm) sep_loop.simps, simp\<close>)
qed

lemma skip_sep_less: "skip_sep ls = Inr (n, ls') \<Longrightarrow> current ls \<noteq> None \<Longrightarrow> remaining ls' < remaining ls"
  by (auto simp: skip_sep_def pbind_Inr_iff Let_def dest!: sep_loop_le save_and_next_less)

text \<open>The loop of \<^verbatim>\<open>read_long_string\<close> up to the closing bracket; \<open>want\<close> is false for a comment.\<close>

function long_loop :: "bool \<Rightarrow> int \<Rightarrow> 'n LexState \<Rightarrow> lex_err + 'n LexState" where
  "long_loop want sep ls =
     (case current ls of
        None \<Rightarrow> Inl (if want then Unfinished_long_string else Unfinished_long_comment)
      | Some c \<Rightarrow>
          if c = uchar CHR ''['' then
            pbind (skip_sep ls) (\<lambda>(n, ls).
            if n = sep then
              pbind (save_and_next ls) (\<lambda>ls. if sep = 0 then Inl Nesting_deprecated else long_loop want sep ls)
            else long_loop want sep ls)
          else if c = uchar CHR '']'' then
            pbind (skip_sep ls) (\<lambda>(n, ls). if n = sep then save_and_next ls else long_loop want sep ls)
          else if c = 10 \<or> c = 13 then
            pbind (save 10 ls) (\<lambda>ls. pbind (inclinenumber ls) (\<lambda>ls.
              long_loop want sep (if want then ls else ls\<lparr>buff := []\<rparr>)))
          else if want then pbind (save_and_next ls) (\<lambda>ls. long_loop want sep ls)
          else long_loop want sep (next_char ls))"
  by pat_completeness auto
termination
proof (relation "measure (\<lambda>(want, sep, ls). remaining ls)", goal_cases)
  case (2 want sep ls c r n ls' ls'')
  then show ?case using skip_sep_less [of ls n ls'] save_and_next_le [of ls' ls''] by simp
next
  case (3 want sep ls c r n ls')
  then show ?case using skip_sep_less [of ls n ls'] by simp
next
  case (4 want sep ls c r n ls')
  then show ?case using skip_sep_less [of ls n ls'] by simp
next
  case (5 want sep ls c ls' ls'')
  then show ?case using save_remaining [of 10 ls ls'] save_fields [of 10 ls ls'] inclinenumber_less [of ls' ls''] by simp
next
  case (6 want sep ls c ls')
  then show ?case using save_and_next_less [of ls ls'] by simp
next
  case (7 want sep ls c)
  then show ?case using remaining_next_less [of ls] by simp
qed simp

declare long_loop.simps [simp del]

definition read_long_string :: "bool \<Rightarrow> int \<Rightarrow> 'n LexState \<Rightarrow> lex_err + u8 list \<times> 'n LexState" where
  "read_long_string want sep ls =
     pbind (save_and_next ls) (\<lambda>ls.
     pbind (if currIsNewline ls then inclinenumber ls else Inr ls) (\<lambda>ls.
     pbind (long_loop want sep ls) (\<lambda>ls.
     if \<not> want then Inr ([], ls)
     else if 2 * (2 + sep) \<ge> 2 ^ 31 then Inl Count_overflow
     else pbind (buff_part (nat (2 + sep)) (nat (2 * (2 + sep))) ls) (\<lambda>ts. Inr (ts, ls)))))"

text \<open>The number of a decimal escape, of at most three digits, and the state behind it.\<close>

fun escape_digits :: "nat \<Rightarrow> nat \<Rightarrow> 'n LexState \<Rightarrow> nat \<times> 'n LexState" where
  "escape_digits 0 c ls = (c, ls)"
| "escape_digits (Suc i) c ls =
     (if current ls \<noteq> None \<and> isdigit (the (current ls))
      then escape_digits i (10 * c + (unat (the (current ls)) - 48)) (next_char ls) else (c, ls))"

text \<open>The escape sequence behind a backslash. At the end of the input nothing happens: the loop around it raises the error.\<close>

definition escape_code :: "u8 \<Rightarrow> u8 option" where
  "escape_code c =
     (if c = uchar CHR ''a'' then Some 7 else if c = uchar CHR ''b'' then Some 8 else if c = uchar CHR ''f'' then Some 12
      else if c = uchar CHR ''n'' then Some 10 else if c = uchar CHR ''r'' then Some 13 else if c = uchar CHR ''t'' then Some 9
      else if c = uchar CHR ''v'' then Some 11 else None)"

definition read_escape :: "'n LexState \<Rightarrow> lex_err + 'n LexState" where
  "read_escape ls =
     (case current ls of
        None \<Rightarrow> Inr ls
      | Some c \<Rightarrow> (case escape_code c of
          Some e \<Rightarrow> pbind (save e ls) (\<lambda>ls. Inr (next_char ls))
        | None \<Rightarrow>
            if c = 10 \<or> c = 13 then pbind (save 10 ls) inclinenumber
            else if \<not> isdigit c then save_and_next ls
            else let (n, ls) = escape_digits 3 0 ls in
              if n > 255 then Inl Escape_too_large else save (of_nat n) ls))"

lemma escape_digits_le: "remaining (snd (escape_digits i c ls)) \<le> remaining ls"
proof (induction i c ls rule: escape_digits.induct)
  case (2 i c ls)
  show ?case using "2.IH" remaining_next_less [of ls] by (cases "current ls \<noteq> None \<and> isdigit (the (current ls))") auto
qed simp

lemma read_escape_le: "read_escape ls = Inr ls' \<Longrightarrow> remaining ls' \<le> remaining ls"
proof -
  assume r: "read_escape ls = Inr ls'"
  show ?thesis
  proof (cases "current ls")
    case None
    then show ?thesis using r by (simp add: read_escape_def)
  next
    case (Some c)
    have saved: "remaining l = remaining ls \<and> current l = Some c" if "save x ls = Inr l" for x l
      using save_remaining [OF that] save_fields [OF that] Some by simp
    show ?thesis
    proof (cases "escape_code c")
      case code: (Some e)
      then obtain l where "save e ls = Inr l" "ls' = next_char l"
        using r Some by (auto simp: read_escape_def pbind_Inr_iff)
      then show ?thesis using saved [of e l] remaining_next_less [of l] by simp
    next
      case None
      consider (line) "c = 10 \<or> c = 13" | (char) "c \<noteq> 10" "c \<noteq> 13" "\<not> isdigit c" | (num) "isdigit c" "c \<noteq> 10" "c \<noteq> 13" by blast
      then show ?thesis
      proof cases
        case line
        then obtain l where "save 10 ls = Inr l" "inclinenumber l = Inr ls'"
          using r Some None by (auto simp: read_escape_def pbind_Inr_iff)
        then show ?thesis using saved [of 10 l] inclinenumber_less [of l ls'] by simp
      next
        case char
        then have "save_and_next ls = Inr ls'" using r Some None by (simp add: read_escape_def)
        then show ?thesis by (rule save_and_next_le)
      next
        case num
        obtain n l where d: "escape_digits 3 0 ls = (n, l)" by fastforce
        then have "save (of_nat n) l = Inr ls'" using r Some None num by (simp add: read_escape_def split: if_splits)
        then show ?thesis using escape_digits_le [of 3 0 ls] d save_remaining by fastforce
      qed
    qed
  qed
qed

function string_loop :: "u8 \<Rightarrow> 'n LexState \<Rightarrow> lex_err + 'n LexState" where
  "string_loop del ls =
     (case current ls of
        None \<Rightarrow> Inl Unfinished_string
      | Some c \<Rightarrow>
          if c = del then Inr ls
          else if c = 10 \<or> c = 13 then Inl Unfinished_string
          else if c = uchar CHR 0x5C then pbind (read_escape (next_char ls)) (\<lambda>ls. string_loop del ls)
          else pbind (save_and_next ls) (\<lambda>ls. string_loop del ls))"
  by pat_completeness auto
termination
proof (relation "measure (\<lambda>(del, ls). remaining ls)", goal_cases)
  case (2 del ls c ls')
  then show ?case using read_escape_le [of "next_char ls" ls'] remaining_next_less [of ls] by simp
next
  case (3 del ls c ls')
  then show ?case using save_and_next_less [of ls ls'] by simp
qed simp

declare string_loop.simps [simp del]

definition read_string :: "u8 \<Rightarrow> 'n LexState \<Rightarrow> lex_err + u8 list \<times> 'n LexState" where
  "read_string del ls =
     pbind (save_and_next ls) (\<lambda>ls.
     pbind (string_loop del ls) (\<lambda>ls.
     pbind (save_and_next ls) (\<lambda>ls.
     pbind (buff_part 1 2 ls) (\<lambda>ts. Inr (ts, ls)))))"

section \<open>The lexer\<close>

function skip_line :: "'n LexState \<Rightarrow> 'n LexState" where
  "skip_line ls = (if \<not> currIsNewline ls \<and> current ls \<noteq> None then skip_line (next_char ls) else ls)"
  by pat_completeness auto
termination
  by (relation "measure remaining") (simp_all add: remaining_next_less)

declare skip_line.simps [simp del]

text \<open>A comment, from the character behind the two dashes.\<close>

definition skip_comment :: "'n LexState \<Rightarrow> lex_err + 'n LexState" where
  "skip_comment ls =
     (if current ls = Some (uchar CHR ''['') then
        pbind (skip_sep ls) (\<lambda>(sep, ls).
        let ls = ls\<lparr>buff := []\<rparr> in
        if sep \<ge> 0 then pbind (read_long_string False sep ls) (\<lambda>(_, ls). Inr (ls\<lparr>buff := []\<rparr>))
        else Inr (skip_line ls))
      else Inr (skip_line ls))"

text \<open>One of the characters that may be followed by an equals sign.\<close>

definition lex_equals :: "u8 \<Rightarrow> int \<Rightarrow> 'n LexState \<Rightarrow> int \<times> 'n LexState" where
  "lex_equals c tk ls =
     (let ls = next_char ls in if current ls \<noteq> Some (uchar CHR ''='') then (uint c, ls) else (tk, next_char ls))"

definition reserved :: "u8 list \<Rightarrow> nat option" where
  "reserved ts = find (\<lambda>i. map of_char (luaX_tokens ! i) = ts) [0..<NUM_RESERVED]"

definition lex_name :: "'n LexState \<Rightarrow> lex_err + int \<times> 'n SemInfo \<times> 'n LexState" where
  "lex_name ls =
     pbind (save_and_next ls) (\<lambda>ls.
     pbind (save_while (\<lambda>c. isalnum c \<or> c = uchar CHR ''_'') ls) (\<lambda>ls.
     case reserved (buff ls) of
       Some i \<Rightarrow> Inr (int i + FIRST_RESERVED, No_info, ls)
     | None \<Rightarrow> Inr (TK_NAME, Info_string (buff ls), ls)))"

definition lex_number :: "(u8 list \<Rightarrow> 'n option) \<Rightarrow> u8 \<Rightarrow> 'n LexState \<Rightarrow> lex_err + int \<times> 'n SemInfo \<times> 'n LexState" where
  "lex_number str2d point ls = pbind (read_numeral str2d point ls) (\<lambda>(r, ls). Inr (TK_NUMBER, Info_number r, ls))"

definition lex_dots :: "(u8 list \<Rightarrow> 'n option) \<Rightarrow> u8 \<Rightarrow> 'n LexState \<Rightarrow> lex_err + int \<times> 'n SemInfo \<times> 'n LexState" where
  "lex_dots str2d point ls =
     pbind (save_and_next ls) (\<lambda>ls.
     pbind (check_next (map of_char ''.'') ls) (\<lambda>(two, ls).
     if two then pbind (check_next (map of_char ''.'') ls) (\<lambda>(three, ls). Inr (if three then TK_DOTS else TK_CONCAT, No_info, ls))
     else if current ls = None \<or> \<not> isdigit (the (current ls)) then Inr (uint (uchar CHR ''.''), No_info, ls)
     else lex_number str2d point ls))"

definition lex_bracket :: "'n LexState \<Rightarrow> lex_err + int \<times> 'n SemInfo \<times> 'n LexState" where
  "lex_bracket ls =
     pbind (skip_sep ls) (\<lambda>(sep, ls).
     if sep \<ge> 0 then pbind (read_long_string True sep ls) (\<lambda>(ts, ls). Inr (TK_STRING, Info_string ts, ls))
     else if sep = - 1 then Inr (uint (uchar CHR ''[''), No_info, ls)
     else Inl Invalid_delimiter)"

lemma save_while_le: "save_while P ls = Inr ls' \<Longrightarrow> remaining ls' \<le> remaining ls"
proof (induction P ls arbitrary: ls' rule: save_while.induct)
  case (1 P ls)
  show ?case
  proof (cases "current ls \<noteq> None \<and> P (the (current ls))")
    case True
    then obtain l where l: "save_and_next ls = Inr l" "save_while P l = Inr ls'"
      using "1.prems" by (subst (asm) save_while.simps) (auto simp: pbind_Inr_iff)
    show ?thesis using "1.IH" [OF True l] save_and_next_le [OF l(1)] by simp
  qed (use "1.prems" in \<open>subst (asm) save_while.simps, auto\<close>)
qed

lemma skip_line_le: "remaining (skip_line ls) \<le> remaining ls"
proof (induction ls rule: skip_line.induct)
  case (1 ls)
  then show ?case using remaining_next_less [of ls] by (subst skip_line.simps) auto
qed

lemma long_loop_le: "long_loop want sep ls = Inr ls' \<Longrightarrow> remaining ls' \<le> remaining ls"
proof (induction "remaining ls" arbitrary: ls ls' rule: less_induct)
  case less
  obtain c where c: "current ls = Some c" using less.prems by (subst (asm) long_loop.simps) (auto split: option.splits)
  have ih: "long_loop want sep l = Inr ls' \<Longrightarrow> remaining l < remaining ls \<Longrightarrow> remaining ls' \<le> remaining ls" for l
    using less.hyps [of l ls'] by simp
  note step = less.prems [THEN subst [OF long_loop.simps, of "\<lambda>r. r = Inr ls'"]]
  consider (opens) "c = 91" | (closes) "c = 93" | (line) "c = 10 \<or> c = 13" | (other) "c \<noteq> 91" "c \<noteq> 93" "c \<noteq> 10" "c \<noteq> 13" by blast
  then show ?case
  proof cases
    case opens
    then obtain n l where l: "skip_sep ls = Inr (n, l)" using step c by (auto simp: pbind_Inr_iff)
    have "remaining l < remaining ls" using skip_sep_less [OF l] c by simp
    moreover have "long_loop want sep l = Inr ls' \<or> (\<exists>m. save_and_next l = Inr m \<and> long_loop want sep m = Inr ls')"
      using step c opens l by (auto simp: pbind_Inr_iff split: if_splits)
    ultimately show ?thesis using ih save_and_next_le le_less_trans by blast
  next
    case closes
    then obtain n l where l: "skip_sep ls = Inr (n, l)" using step c by (auto simp: pbind_Inr_iff)
    have "remaining l < remaining ls" using skip_sep_less [OF l] c by simp
    then show ?thesis using step c closes l ih save_and_next_le [of l ls'] by (auto split: if_splits)
  next
    case line
    then obtain l m where l: "save 10 ls = Inr l" "inclinenumber l = Inr m"
      "long_loop want sep (if want then m else m\<lparr>buff := []\<rparr>) = Inr ls'" using step c by (auto simp: pbind_Inr_iff)
    have "remaining m < remaining ls" using inclinenumber_less [OF l(2)] save_fields [OF l(1)] save_remaining [OF l(1)] c by simp
    then show ?thesis using ih [OF l(3)] by simp
  next
    case other
    then show ?thesis using step c ih remaining_next_less [of ls] save_and_next_less [of ls]
      by (auto simp: pbind_Inr_iff split: if_splits)
  qed
qed

lemma read_long_string_le: "read_long_string want sep ls = Inr (ts, ls') \<Longrightarrow> remaining ls' \<le> remaining ls"
proof -
  assume "read_long_string want sep ls = Inr (ts, ls')"
  then obtain l m where l: "save_and_next ls = Inr l" "(if currIsNewline l then inclinenumber l else Inr l) = Inr m"
    "long_loop want sep m = Inr ls'"
    unfolding read_long_string_def pbind_Inr_iff by (cases want) (fastforce simp: pbind_Inr_iff split: if_splits)+
  have "remaining m \<le> remaining l" using l(2) inclinenumber_less [of l m] by (auto simp: currIsNewline_def split: if_splits)
  then show ?thesis using save_and_next_le [OF l(1)] long_loop_le [OF l(3)] by simp
qed

lemma skip_comment_le: "skip_comment ls = Inr ls' \<Longrightarrow> remaining ls' \<le> remaining ls"
proof -
  assume s: "skip_comment ls = Inr ls'"
  show ?thesis
  proof (cases "current ls = Some (uchar CHR ''['')")
    case True
    then obtain sep l where l: "skip_sep ls = Inr (sep, l)" using s by (auto simp: skip_comment_def pbind_Inr_iff)
    have le: "remaining l \<le> remaining ls" using skip_sep_less [OF l] True by simp
    show ?thesis using s True l le skip_line_le [of "l\<lparr>buff := []\<rparr>"]
      by (auto simp: skip_comment_def pbind_Inr_iff Let_def dest!: read_long_string_le split: if_splits)
  qed (use s skip_line_le [of ls] in \<open>auto simp: skip_comment_def\<close>)
qed

function llex_loop :: "(u8 list \<Rightarrow> 'n option) \<Rightarrow> u8 \<Rightarrow> 'n LexState \<Rightarrow> lex_err + int \<times> 'n SemInfo \<times> 'n LexState" where
  "llex_loop str2d point ls =
     (case current ls of
        None \<Rightarrow> Inr (TK_EOS, No_info, ls)
      | Some c \<Rightarrow>
          if c = 10 \<or> c = 13 then pbind (inclinenumber ls) (\<lambda>ls. llex_loop str2d point ls)
          else if c = uchar CHR ''-'' then
            let ls = next_char ls in
            if current ls \<noteq> Some (uchar CHR ''-'') then Inr (uint c, No_info, ls)
            else pbind (skip_comment (next_char ls)) (\<lambda>ls. llex_loop str2d point ls)
          else if c = uchar CHR ''['' then lex_bracket ls
          else if c = uchar CHR ''='' then (case lex_equals c TK_EQ ls of (tk, ls) \<Rightarrow> Inr (tk, No_info, ls))
          else if c = uchar CHR ''<'' then (case lex_equals c TK_LE ls of (tk, ls) \<Rightarrow> Inr (tk, No_info, ls))
          else if c = uchar CHR ''>'' then (case lex_equals c TK_GE ls of (tk, ls) \<Rightarrow> Inr (tk, No_info, ls))
          else if c = uchar CHR ''~'' then (case lex_equals c TK_NE ls of (tk, ls) \<Rightarrow> Inr (tk, No_info, ls))
          else if c = uchar CHR 0x22 \<or> c = uchar CHR 0x27 then
            pbind (read_string c ls) (\<lambda>(ts, ls). Inr (TK_STRING, Info_string ts, ls))
          else if c = uchar CHR ''.'' then lex_dots str2d point ls
          else if isspace c then llex_loop str2d point (next_char ls)
          else if isdigit c then lex_number str2d point ls
          else if isalpha c \<or> c = uchar CHR ''_'' then lex_name ls
          else Inr (uint c, No_info, next_char ls))"
  by pat_completeness auto
termination
proof (relation "measure (\<lambda>(str2d, point, ls). remaining ls)", goal_cases)
  case (2 str2d point ls c ls')
  then show ?case using inclinenumber_less [of ls ls'] by simp
next
  case (3 str2d point ls c l ls')
  then show ?case using skip_comment_le [of "next_char l" ls'] remaining_next_less [of l] remaining_next_less [of ls] by simp
next
  case (4 str2d point ls c)
  then show ?case using remaining_next_less [of ls] by simp
qed simp

declare llex_loop.simps [simp del]

definition llex :: "(u8 list \<Rightarrow> 'n option) \<Rightarrow> u8 \<Rightarrow> 'n LexState \<Rightarrow> lex_err + int \<times> 'n SemInfo \<times> 'n LexState" where
  "llex str2d point ls = llex_loop str2d point (ls\<lparr>buff := []\<rparr>)"

text \<open>A token without semantic information leaves the field of the token as it is.\<close>

definition token_info :: "'n SemInfo \<Rightarrow> 'n SemInfo \<Rightarrow> 'n SemInfo" where
  "token_info old new = (case new of No_info \<Rightarrow> old | _ \<Rightarrow> new)"

definition luaX_next :: "(u8 list \<Rightarrow> 'n option) \<Rightarrow> u8 \<Rightarrow> 'n LexState \<Rightarrow> lex_err + 'n LexState" where
  "luaX_next str2d point ls =
     (let ls = ls\<lparr>lastline := linenumber ls\<rparr> in
      if token (lookahead ls) \<noteq> TK_EOS then
        Inr (ls\<lparr>tok := lookahead ls, lookahead := (lookahead ls)\<lparr>token := TK_EOS\<rparr>\<rparr>)
      else pbind (llex str2d point ls) (\<lambda>(tk, si, ls). Inr (ls\<lparr>tok := \<lparr>token = tk, seminfo = token_info (seminfo (tok ls)) si\<rparr>\<rparr>)))"

definition luaX_lookahead :: "(u8 list \<Rightarrow> 'n option) \<Rightarrow> u8 \<Rightarrow> 'n LexState \<Rightarrow> lex_err + 'n LexState" where
  "luaX_lookahead str2d point ls =
     pbind (llex str2d point ls) (\<lambda>(tk, si, ls).
       Inr (ls\<lparr>lookahead := \<lparr>token = tk, seminfo = token_info (seminfo (lookahead ls)) si\<rparr>\<rparr>))"

section \<open>The token buffer\<close>

definition buf_ok :: "'n LexState \<Rightarrow> bool" where
  "buf_ok ls \<longleftrightarrow> 0 < buffsize ls \<and> length (buff ls) \<le> buffsize ls"

text \<open>
  An operation keeps the buffer if it does not access it out of bounds and leaves it well formed, at least \<open>k\<close> bytes
  longer. The projection finds the state in its result.
\<close>

definition goes :: "nat \<Rightarrow> 'n LexState \<Rightarrow> 'n LexState \<Rightarrow> bool" where
  "goes k ls ls' \<longleftrightarrow> buf_ok ls' \<and> length (buff ls) + k \<le> length (buff ls')"

definition keeps :: "('a \<Rightarrow> 'n LexState) \<Rightarrow> nat \<Rightarrow> 'n LexState \<Rightarrow> lex_err + 'a \<Rightarrow> bool" where
  "keeps pr k ls r \<longleftrightarrow> r \<noteq> Inl Buffer_overrun \<and> (\<forall>x. r = Inr x \<longrightarrow> goes k ls (pr x))"

lemma keeps_simps [simp]:
  "keeps pr k ls (Inr x) \<longleftrightarrow> goes k ls (pr x)"
  "keeps pr k ls (Inl e) \<longleftrightarrow> e \<noteq> Buffer_overrun"
  by (auto simp: keeps_def)

lemma goes_ok: "goes k ls ls' \<Longrightarrow> buf_ok ls'"
  by (simp add: goes_def)

lemma goes_refl [simp]: "goes 0 ls ls \<longleftrightarrow> buf_ok ls"
  by (simp add: goes_def)

lemma keeps_weaken: "keeps pr k ls r \<Longrightarrow> j \<le> k \<Longrightarrow> keeps pr j ls r"
  by (auto simp: keeps_def goes_def)

lemma keeps_bind:
  assumes "keeps pr j ls m" and "\<And>x. m = Inr x \<Longrightarrow> buf_ok (pr x) \<Longrightarrow> keeps pr' k (pr x) (f x)"
  shows "keeps pr' (j + k) ls (pbind m f)"
  using assms by (cases m) (fastforce simp: keeps_def goes_def)+

lemma keeps_bind0:
  assumes "keeps pr j ls m" and "\<And>x. m = Inr x \<Longrightarrow> buf_ok (pr x) \<Longrightarrow> keeps pr' 0 (pr x) (f x)"
  shows "keeps pr' 0 ls (pbind m f)"
  using keeps_weaken [OF keeps_bind [OF assms]] by simp

lemma next_char_buff [simp]: "buff (next_char ls) = buff ls" "buffsize (next_char ls) = buffsize ls"
  by (simp_all add: next_char_def split: list.split)

lemma goes_next [simp]: "goes k ls (next_char ls') \<longleftrightarrow> goes k ls ls'" "goes k (next_char ls) ls' \<longleftrightarrow> goes k ls ls'"
  by (simp_all add: goes_def buf_ok_def)

lemma keeps_next [simp]: "keeps pr k (next_char ls) r \<longleftrightarrow> keeps pr k ls r"
  by (simp add: keeps_def)

lemma buf_ok_next [simp]: "buf_ok (next_char ls) \<longleftrightarrow> buf_ok ls"
  by (simp add: buf_ok_def)

lemma save_keeps: "buf_ok ls \<Longrightarrow> keeps (\<lambda>l. l) 1 ls (save c ls)"
  by (auto simp: save_def keeps_def goes_def buf_ok_def)

lemma save_and_next_keeps: "buf_ok ls \<Longrightarrow> keeps (\<lambda>l. l) 1 ls (save_and_next ls)"
  unfolding save_and_next_def 
  using keeps_bind [OF save_keeps, of ls "case current ls of None \<Rightarrow> 255 | Some c \<Rightarrow> c" "\<lambda>l. l" 0 "\<lambda>ls. Inr (next_char ls)"] by simp

lemma inclinenumber_keeps: "buf_ok ls \<Longrightarrow> keeps (\<lambda>l. l) 0 ls (inclinenumber ls)"
  by (auto simp: inclinenumber_def Let_def keeps_def goes_def buf_ok_def)

lemma save_while_keeps: "buf_ok ls \<Longrightarrow> keeps (\<lambda>l. l) 0 ls (save_while P ls)"
proof (induction P ls rule: save_while.induct)
  case (1 P ls)
  show ?case
  proof (cases "current ls \<noteq> None \<and> P (the (current ls))")
    case True
    have "keeps (\<lambda>l. l) 0 ls (pbind (save_and_next ls) (\<lambda>ls. save_while P ls))"
      using "1.IH" [OF True] by (intro keeps_bind0 [OF save_and_next_keeps [OF "1.prems"]]) simp
    then show ?thesis using True by (subst save_while.simps) simp
  next
    case False
    then show ?thesis using "1.prems" by (subst save_while.simps) auto
  qed
qed

lemma check_next_keeps: "buf_ok ls \<Longrightarrow> keeps snd 0 ls (check_next chars ls)"
  unfolding check_next_def by (auto intro!: keeps_bind0 [OF save_and_next_keeps])

lemma buffreplace_ok [simp]: "buf_ok (buffreplace a b ls) \<longleftrightarrow> buf_ok ls"
  by (simp add: buffreplace_def buf_ok_def)

lemma buffreplace_goes [simp]:
  "goes k ls (buffreplace a b ls') \<longleftrightarrow> goes k ls ls'"
  "keeps pr k (buffreplace a b ls) r \<longleftrightarrow> keeps pr k ls r"
  by (simp_all add: buffreplace_def buf_ok_def goes_def keeps_def)

lemma read_numeral_keeps: "buf_ok ls \<Longrightarrow> keeps snd 0 ls (read_numeral str2d point ls)"
proof -
  assume ok: "buf_ok ls"
  have point: "keeps snd 0 l (trydecpoint str2d point l)" if "buf_ok l" for l
    using that by (auto simp: trydecpoint_def Let_def goes_def buf_ok_def buffreplace_def split: option.split)
  have fin: "keeps snd 0 l (let ls = buffreplace (uchar CHR ''.'') (decpoint l) l in
      case str2d (buff_text ls) of Some r \<Rightarrow> Inr (r, ls) | None \<Rightarrow> trydecpoint str2d point ls)" if "buf_ok l" for l
    using that point [of "buffreplace (uchar CHR ''.'') (decpoint l) l"]
    by (auto simp: Let_def split: option.split)
  have sign: "keeps (\<lambda>l. l) 0 l (if e then pbind (check_next (map of_char ''+-'') l) (\<lambda>(_, ls). Inr ls) else Inr l)"
    if "buf_ok l" for e l
    using keeps_bind0 [OF check_next_keeps [OF that, of "map of_char ''+-''"], where pr' = "\<lambda>l. l" and f = "\<lambda>(_, ls). Inr ls"] that by auto
  show ?thesis unfolding read_numeral_def
    apply (rule keeps_bind0 [OF save_and_next_keeps [OF ok]])
    apply (rule keeps_bind0 [OF save_while_keeps], assumption)
    apply (rule keeps_bind0 [OF check_next_keeps], assumption)
    apply (simp only: split_beta)
    apply (rule keeps_bind0 [OF sign], assumption)
    apply (rule keeps_bind0 [OF save_while_keeps], assumption)
    apply (rule keeps_bind0 [OF save_keeps], assumption)
    apply (rule fin, assumption)
    done
qed

text \<open>A separator of level \<open>n\<close> puts \<open>n + 1\<close> bytes into the buffer.\<close>

lemma sep_loop_keeps:
  "buf_ok ls \<Longrightarrow> keeps snd 0 ls (sep_loop count ls) \<and>
    (\<forall>n ls'. sep_loop count ls = Inr (n, ls') \<longrightarrow> count \<le> n \<and> goes (nat (n - count)) ls ls')"
proof (induction count ls rule: sep_loop.induct)
  case (1 count ls)
  show ?case
  proof (cases "current ls = Some (uchar CHR ''='')")
    case True
    note s = save_and_next_keeps [OF "1.prems"]
    show ?thesis
    proof (cases "save_and_next ls")
      case (Inl e)
      then show ?thesis using s True by (subst (1 2) sep_loop.simps) simp
    next
      case (Inr l)
      have g: "goes 1 ls l" using s Inr by simp
      show ?thesis
      proof (cases "count + 1 \<ge> 2 ^ 31")
        case over: True
        then show ?thesis using True Inr by (subst (1 2) sep_loop.simps) simp
      next
        case False
        note ih = "1.IH" [OF True Inr False goes_ok [OF g]]
        show ?thesis using ih True Inr False g by (subst (1 2) sep_loop.simps) (fastforce simp: keeps_def goes_def)
      qed
    qed
  qed (use "1.prems" in \<open>subst (1 2) sep_loop.simps, auto\<close>)
qed

lemma skip_sep_keeps:
  assumes "buf_ok ls"
  shows "keeps snd 1 ls (skip_sep ls) \<and> (\<forall>n ls'. skip_sep ls = Inr (n, ls') \<longrightarrow> 0 \<le> n \<longrightarrow> goes (nat n + 1) ls ls')"
proof (cases "save_and_next ls")
  case (Inl e)
  then show ?thesis using save_and_next_keeps [OF assms] by (simp add: skip_sep_def)
next
  case (Inr l)
  have g: "goes 1 ls l" using save_and_next_keeps [OF assms] Inr by simp
  note k = sep_loop_keeps [OF goes_ok [OF g], of 0]
  show ?thesis
  proof (cases "sep_loop 0 l")
    case i: (Inr p)
    obtain n m where p: "p = (n, m)" by fastforce
    then have "0 \<le> n" "goes (nat n) l m" using k i by auto
    then show ?thesis using g Inr i p by (auto simp: skip_sep_def goes_def Let_def)
  qed (use k Inr in \<open>auto simp: skip_sep_def\<close>)
qed

lemma skip_sep_keeps0: "buf_ok ls \<Longrightarrow> keeps snd 0 ls (skip_sep ls)"
  using skip_sep_keeps keeps_weaken by blast

definition long_ok :: "bool \<Rightarrow> int \<Rightarrow> 'n LexState \<Rightarrow> lex_err + 'n LexState \<Rightarrow> bool" where
  "long_ok want sep ls r \<longleftrightarrow> r \<noteq> Inl Buffer_overrun \<and>
     (\<forall>ls'. r = Inr ls' \<longrightarrow> buf_ok ls' \<and> (want \<longrightarrow> goes (nat sep + 2) ls ls'))"

lemma long_ok_bind:
  assumes "keeps pr k ls m" and "\<And>x. m = Inr x \<Longrightarrow> goes k ls (pr x) \<Longrightarrow> buf_ok (pr x) \<Longrightarrow> long_ok want sep (pr x) (f x)"
  shows "long_ok want sep ls (pbind m f)"
  using assms by (cases m) (fastforce simp: keeps_def long_ok_def goes_def)+

lemma long_ok_error [simp]: "long_ok want sep ls (Inl e) \<longleftrightarrow> e \<noteq> Buffer_overrun"
  by (simp add: long_ok_def)

text \<open>The closing bracket, and a newline.\<close>

lemma long_close_keeps:
  assumes ok: "buf_ok ls" and sep: "0 \<le> sep"
    and f: "\<And>n l. skip_sep ls = Inr (n, l) \<Longrightarrow> n \<noteq> sep \<Longrightarrow> buf_ok l \<Longrightarrow> long_ok want sep l (f l)"
  shows "long_ok want sep ls (pbind (skip_sep ls) (\<lambda>(n, ls). if n = sep then save_and_next ls else f ls))"
proof (cases "skip_sep ls")
  case (Inl e)
  then show ?thesis using skip_sep_keeps0 [OF ok] by simp
next
  case (Inr p)
  obtain n l where p: "p = (n, l)" by fastforce
  have k: "goes 0 ls l" "0 \<le> n \<Longrightarrow> goes (nat n + 1) ls l"
    using skip_sep_keeps [OF ok] skip_sep_keeps0 [OF ok] Inr p by auto
  have closing: "long_ok want sep ls (save_and_next l)" if "goes (nat sep + 1) ls l"
    using save_and_next_keeps [OF goes_ok [OF that]] that by (auto simp: long_ok_def keeps_def goes_def)
  show ?thesis
  proof (cases "n = sep")
    case True
    then show ?thesis using Inr p closing k(2) sep by simp
  next
    case False
    then have "long_ok want sep l (f l)" using f Inr p goes_ok [OF k(1)] by simp
    then show ?thesis using Inr p False k(1) by (auto simp: long_ok_def goes_def)
  qed
qed

lemma long_line_keeps:
  assumes ok: "buf_ok ls"
    and f: "\<And>l m. save 10 ls = Inr l \<Longrightarrow> inclinenumber l = Inr m \<Longrightarrow> buf_ok (if want then m else m\<lparr>buff := []\<rparr>) \<Longrightarrow>
      long_ok want sep (if want then m else m\<lparr>buff := []\<rparr>) (f (if want then m else m\<lparr>buff := []\<rparr>))"
  shows "long_ok want sep ls (pbind (save 10 ls) (\<lambda>ls. pbind (inclinenumber ls) (\<lambda>ls. f (if want then ls else ls\<lparr>buff := []\<rparr>))))"
proof (rule long_ok_bind [OF save_keeps [OF ok]], rule long_ok_bind [OF inclinenumber_keeps], assumption)
  fix l m assume l: "save 10 ls = Inr l" "inclinenumber l = Inr m" "buf_ok m"
  have "long_ok want sep (if want then m else m\<lparr>buff := []\<rparr>) (f (if want then m else m\<lparr>buff := []\<rparr>))"
    using f [OF l(1,2)] l(3) by (simp add: buf_ok_def)
  then show "long_ok want sep m (f (if want then m else m\<lparr>buff := []\<rparr>))" by (cases want) (simp_all add: long_ok_def)
qed

lemma long_loop_keeps: "buf_ok ls \<Longrightarrow> 0 \<le> sep \<Longrightarrow> long_ok want sep ls (long_loop want sep ls)"
proof (induction want sep ls rule: long_loop.induct)
  case (1 want sep ls)
  note ok = "1.prems"(1) and sep = "1.prems"(2)
  show ?case
  proof (cases "current ls")
    case None
    then show ?thesis by (subst long_loop.simps) simp
  next
    case (Some c)
    consider (opens) "c = uchar CHR ''[''" | (closes) "c \<noteq> uchar CHR ''[''" "c = uchar CHR '']''"
      | (line) "c \<noteq> uchar CHR ''[''" "c \<noteq> uchar CHR '']''" "c = 10 \<or> c = 13"
      | (other) "c \<noteq> uchar CHR ''[''" "c \<noteq> uchar CHR '']''" "\<not> (c = 10 \<or> c = 13)" by blast
    then show ?thesis
    proof cases
      case opens
      have "long_ok want sep ls (pbind (skip_sep ls) (\<lambda>(n, ls). if n = sep then
              pbind (save_and_next ls) (\<lambda>ls. if sep = 0 then Inl Nesting_deprecated else long_loop want sep ls)
            else long_loop want sep ls))"
        using "1.IH"(1,2) [OF Some opens] sep
        by (intro long_ok_bind [OF skip_sep_keeps0 [OF ok]]) (auto intro!: long_ok_bind [OF save_and_next_keeps])
      then show ?thesis using Some opens by (subst long_loop.simps) simp
    next
      case closes
      have "long_ok want sep ls (pbind (skip_sep ls) (\<lambda>(n, ls). if n = sep then save_and_next ls else long_loop want sep ls))"
        using "1.IH"(3) [OF Some closes] sep by (intro long_close_keeps [OF ok]) auto
      then show ?thesis using Some closes by (subst long_loop.simps) simp
    next
      case line
      have "long_ok want sep ls (pbind (save 10 ls) (\<lambda>ls. pbind (inclinenumber ls) (\<lambda>ls.
              long_loop want sep (if want then ls else ls\<lparr>buff := []\<rparr>))))"
        using "1.IH"(4) [OF Some line] sep by (intro long_line_keeps [OF ok]) simp
      then show ?thesis using Some line by (subst long_loop.simps) auto
    next
      case other
      show ?thesis
      proof (cases want)
        case True
        have "long_ok want sep ls (pbind (save_and_next ls) (\<lambda>ls. long_loop want sep ls))"
          using "1.IH"(5) [OF Some other True] sep by (intro long_ok_bind [OF save_and_next_keeps [OF ok]]) simp
        then show ?thesis using Some other True by (subst long_loop.simps) simp
      next
        case False
        have "long_ok want sep (next_char ls) (long_loop want sep (next_char ls))"
          using "1.IH"(6) [OF Some other False] sep ok by simp
        then show ?thesis using Some other False by (subst long_loop.simps) (simp add: long_ok_def)
      qed
    qed
  qed
qed

lemma read_long_string_keeps:
  assumes ok: "buf_ok ls" and sep: "0 \<le> sep" and n: "want \<Longrightarrow> nat sep + 1 \<le> length (buff ls)"
  shows "read_long_string want sep ls \<noteq> Inl Buffer_overrun \<and> (\<forall>ts ls'. read_long_string want sep ls = Inr (ts, ls') \<longrightarrow> buf_ok ls')"
proof -
  have part: "buff_part (nat (2 + sep)) (nat (2 * (2 + sep))) l \<noteq> Inl Buffer_overrun" if "want" "2 * (nat sep + 2) \<le> length (buff l)" for l :: "'a LexState"
  proof -
    have e: "nat (2 + sep) = nat sep + 2" "nat (2 * (2 + sep)) = 2 * (nat sep + 2)" using sep by simp_all
    show ?thesis using that unfolding buff_part_def e by simp
  qed
  show ?thesis
  proof (cases "save_and_next ls")
    case (Inl e)
    then show ?thesis using save_and_next_keeps [OF ok] by (simp add: read_long_string_def)
  next
    case (Inr l)
    have l: "goes 1 ls l" using save_and_next_keeps [OF ok] Inr by simp
    have k: "keeps (\<lambda>l. l) 0 l (if currIsNewline l then inclinenumber l else Inr l)"
      using inclinenumber_keeps [OF goes_ok [OF l]] goes_ok [OF l] by simp
    show ?thesis
    proof (cases "if currIsNewline l then inclinenumber l else Inr l")
      case i: (Inl e)
      then show ?thesis using k Inr by (simp add: read_long_string_def)
    next
      case i: (Inr m)
      have m: "goes 0 l m" using k unfolding i by simp
      have lo: "long_ok want sep m (long_loop want sep m)" using long_loop_keeps [OF goes_ok [OF m] sep] .
      have len: "want \<Longrightarrow> goes (nat sep + 2) m x \<Longrightarrow> 2 * (nat sep + 2) \<le> length (buff x)" for x
        using l m n by (simp add: goes_def)
      show ?thesis
      proof (cases "long_loop want sep m")
        case j: (Inl e)
        then show ?thesis using lo Inr i by (simp add: read_long_string_def)
      next
        case j: (Inr x)
        have x: "buf_ok x" "want \<Longrightarrow> 2 * (nat sep + 2) \<le> length (buff x)" using lo j len by (auto simp: long_ok_def)
        show ?thesis
        proof (cases want)
          case True
          then show ?thesis using Inr i j x part [OF True x(2) [OF True]]
            by (cases "buff_part (nat (2 + sep)) (nat (2 * (2 + sep))) x") (auto simp: read_long_string_def)
        next
          case False
          then show ?thesis using Inr i j x by (simp add: read_long_string_def)
        qed
      qed
    qed
  qed
qed

lemma escape_digits_buff [simp]: "buff (snd (escape_digits i c ls)) = buff ls" "buffsize (snd (escape_digits i c ls)) = buffsize ls"
proof (induction i arbitrary: c ls)
  case (Suc i)
  {
    case 1
    show ?case using Suc.IH(1) by (cases "current ls \<noteq> None \<and> isdigit (the (current ls))") auto
  next
    case 2
    show ?case using Suc.IH(2) by (cases "current ls \<noteq> None \<and> isdigit (the (current ls))") auto
  }
qed simp_all

lemma read_escape_keeps:
  assumes "buf_ok ls"
  shows "keeps (\<lambda>l. l) 0 ls (read_escape ls)"
proof -
  have save0: "keeps (\<lambda>l. l) 0 ls (save x l)" if "buff l = buff ls" "buffsize l = buffsize ls" for x l
  proof -
    have "buf_ok l" using that assms by (simp add: buf_ok_def)
    then show ?thesis using save_keeps [of l x] that(1) unfolding keeps_def goes_def by (auto dest: Suc_leD)
  qed
  have line: "keeps (\<lambda>l. l) 0 ls (pbind (save 10 ls) inclinenumber)"
    by (intro keeps_bind0 [OF save_keeps [OF assms]] inclinenumber_keeps)
  have code: "keeps (\<lambda>l. l) 0 ls (pbind (save e ls) (\<lambda>ls. Inr (next_char ls)))" for e
    by (intro keeps_bind0 [OF save_keeps [OF assms]]) simp
  have other: "keeps (\<lambda>l. l) 0 ls (save_and_next ls)" using save_and_next_keeps [OF assms] by (rule keeps_weaken) simp
  obtain n l where d: "escape_digits 3 0 ls = (n, l)" by fastforce
  have "buff l = buff ls" "buffsize l = buffsize ls" using escape_digits_buff [of 3 0 ls] d by simp_all
  then show ?thesis unfolding read_escape_def d using save0 line code other assms
    by (auto split: option.split)
qed

lemma string_loop_keeps: "buf_ok ls \<Longrightarrow> keeps (\<lambda>l. l) 0 ls (string_loop del ls)"
proof (induction del ls rule: string_loop.induct)
  case (1 del ls)
  show ?case
  proof (cases "current ls")
    case (Some c)
    have esc: "keeps (\<lambda>l. l) 0 (next_char ls) (pbind (read_escape (next_char ls)) (\<lambda>ls. string_loop del ls))"
      if "c \<noteq> del" "\<not> (c = 10 \<or> c = 13)" "c = uchar CHR 0x5C"
      using "1.IH"(1) [OF Some that] "1.prems" by (intro keeps_bind0 [OF read_escape_keeps]) simp_all
    have plain: "keeps (\<lambda>l. l) 0 ls (pbind (save_and_next ls) (\<lambda>ls. string_loop del ls))"
      if "c \<noteq> del" "\<not> (c = 10 \<or> c = 13)" "c \<noteq> uchar CHR 0x5C"
      using "1.IH"(2) [OF Some that] "1.prems" by (intro keeps_bind0 [OF save_and_next_keeps]) simp_all
    show ?thesis using Some esc plain "1.prems" by (subst string_loop.simps) auto
  qed (subst string_loop.simps, simp)
qed

lemma read_string_keeps:
  assumes "buf_ok ls"
  shows "keeps snd 0 ls (read_string del ls)"
proof -
  have "keeps (\<lambda>l. l) (1 + (0 + 1)) ls (pbind (save_and_next ls) (\<lambda>ls. pbind (string_loop del ls) (\<lambda>ls. save_and_next ls)))"
    by (rule keeps_bind [OF save_and_next_keeps [OF assms]], rule keeps_bind [OF string_loop_keeps], assumption, rule save_and_next_keeps)
  moreover have "read_string del ls = pbind (pbind (save_and_next ls) (\<lambda>ls. pbind (string_loop del ls) (\<lambda>ls. save_and_next ls)))
      (\<lambda>ls. pbind (buff_part 1 2 ls) (\<lambda>ts. Inr (ts, ls)))"
    by (cases "save_and_next ls") (auto simp: read_string_def pbind_def split: sum.split)
  moreover have "keeps snd 0 ls (pbind m (\<lambda>ls. pbind (buff_part 1 2 ls) (\<lambda>ts. Inr (ts, ls))))" if "keeps (\<lambda>l. l) (1 + (0 + 1)) ls m" for m
    using that by (cases m) (simp_all add: buff_part_def goes_def, linarith)
  ultimately show ?thesis by simp
qed

lemma skip_line_buff [simp]: "buff (skip_line ls) = buff ls" "buffsize (skip_line ls) = buffsize ls"
proof (induction ls rule: skip_line.induct)
  case (1 ls)
  { case 1 then show ?case using "1.IH"(1) by (subst skip_line.simps) simp }
  { case 2 then show ?case using "1.IH"(2) by (subst skip_line.simps) simp }
qed

lemma empty_buff_ok: "buf_ok ls \<Longrightarrow> buf_ok (ls\<lparr>buff := []\<rparr>)"
  by (simp add: buf_ok_def)

lemma skip_comment_ok:
  assumes "buf_ok ls"
  shows "skip_comment ls \<noteq> Inl Buffer_overrun \<and> (\<forall>ls'. skip_comment ls = Inr ls' \<longrightarrow> buf_ok ls')"
proof (cases "current ls = Some (uchar CHR ''['')")
  case True
  show ?thesis
  proof (cases "skip_sep ls")
    case (Inl e)
    then show ?thesis using True skip_sep_keeps0 [OF assms] by (simp add: skip_comment_def)
  next
    case (Inr p)
    obtain sep l where p: "p = (sep, l)" by fastforce
    have l: "buf_ok (l\<lparr>buff := []\<rparr>)" using skip_sep_keeps0 [OF assms] Inr p by (auto intro: empty_buff_ok goes_ok)
    note r = read_long_string_keeps [OF l, of sep False]
    show ?thesis
    proof (cases "0 \<le> sep")
      case s: True
      then show ?thesis using True Inr p r
        by (cases "read_long_string False sep (l\<lparr>buff := []\<rparr>)") (auto simp: skip_comment_def Let_def intro: empty_buff_ok)
    next
      case False
      then show ?thesis using True Inr p l by (auto simp: skip_comment_def Let_def buf_ok_def)
    qed
  qed
qed (use assms in \<open>auto simp: skip_comment_def buf_ok_def\<close>)

abbreviation lex_state :: "int \<times> 'n SemInfo \<times> 'n LexState \<Rightarrow> 'n LexState" where
  "lex_state r \<equiv> snd (snd r)"

definition lex_ok :: "lex_err + int \<times> 'n SemInfo \<times> 'n LexState \<Rightarrow> bool" where
  "lex_ok r \<longleftrightarrow> r \<noteq> Inl Buffer_overrun \<and> (\<forall>x. r = Inr x \<longrightarrow> buf_ok (lex_state x))"

lemma lex_ok_simps [simp]:
  "lex_ok (Inr (tk, si, ls)) \<longleftrightarrow> buf_ok ls"
  "lex_ok (Inl e) \<longleftrightarrow> e \<noteq> Buffer_overrun"
  by (auto simp: lex_ok_def)

lemma lex_ok_bind:
  assumes "keeps pr k ls m" and "\<And>x. m = Inr x \<Longrightarrow> buf_ok (pr x) \<Longrightarrow> lex_ok (f x)"
  shows "lex_ok (pbind m f)"
  using assms by (cases m) (auto simp: keeps_def goes_def)

lemma lex_bracket_ok:
  assumes "buf_ok ls"
  shows "lex_ok (lex_bracket ls)"
proof (cases "skip_sep ls")
  case (Inl e)
  then show ?thesis using skip_sep_keeps0 [OF assms] by (simp add: lex_bracket_def)
next
  case (Inr p)
  obtain sep l where p: "p = (sep, l)" by fastforce
  have l: "buf_ok l" "0 \<le> sep \<Longrightarrow> nat sep + 1 \<le> length (buff l)"
    using skip_sep_keeps [OF assms] Inr p by (auto simp: goes_def)
  show ?thesis
  proof (cases "0 \<le> sep")
    case True
    note r = read_long_string_keeps [OF l(1) True, of True]
    show ?thesis using Inr p r l(2) True by (cases "read_long_string True sep l") (auto simp: lex_bracket_def)
  qed (use Inr p l in \<open>auto simp: lex_bracket_def\<close>)
qed

lemma lex_number_ok: "buf_ok ls \<Longrightarrow> lex_ok (lex_number str2d point ls)"
  unfolding lex_number_def by (rule lex_ok_bind [OF read_numeral_keeps]) auto

lemma lex_dots_ok: "buf_ok ls \<Longrightarrow> lex_ok (lex_dots str2d point ls)"
  unfolding lex_dots_def
  by (rule lex_ok_bind [OF save_and_next_keeps], assumption, rule lex_ok_bind [OF check_next_keeps], assumption)
    (auto intro!: lex_number_ok lex_ok_bind [OF check_next_keeps])

lemma lex_name_ok: "buf_ok ls \<Longrightarrow> lex_ok (lex_name ls)"
  unfolding lex_name_def
  by (rule lex_ok_bind [OF save_and_next_keeps], assumption, rule lex_ok_bind [OF save_while_keeps], assumption)
    (auto split: option.split)

lemma lex_equals_ok: "buf_ok ls \<Longrightarrow> buf_ok (snd (lex_equals c tk ls))"
  by (simp add: lex_equals_def Let_def)

lemma llex_loop_ok: "buf_ok ls \<Longrightarrow> lex_ok (llex_loop str2d point ls)"
proof (induction "remaining ls" arbitrary: ls rule: less_induct)
  case less
  show ?case
  proof (cases "current ls")
    case None
    then show ?thesis using less.prems by (subst llex_loop.simps) simp
  next
    case (Some c)
    have cur: "current ls \<noteq> None" using Some by simp
    have line: "lex_ok (pbind (inclinenumber ls) (\<lambda>ls. llex_loop str2d point ls))"
      using less.hyps inclinenumber_less [OF _ cur] by (intro lex_ok_bind [OF inclinenumber_keeps [OF less.prems]]) simp
    have comment: "lex_ok (pbind (skip_comment (next_char (next_char ls))) (\<lambda>ls. llex_loop str2d point ls))"
      if "current (next_char ls) \<noteq> None"
    proof -
      have "remaining l < remaining ls" if "skip_comment (next_char (next_char ls)) = Inr l" for l
        using skip_comment_le [OF that] remaining_next_less [OF cur] remaining_next_less [OF \<open>current (next_char ls) \<noteq> None\<close>] by simp
      then show ?thesis using less.hyps skip_comment_ok [of "next_char (next_char ls)"] less.prems
        by (cases "skip_comment (next_char (next_char ls))") auto
    qed
    have space: "lex_ok (llex_loop str2d point (next_char ls))"
      using less.hyps [of "next_char ls"] remaining_next_less [OF cur] less.prems by simp
    have str: "lex_ok (pbind (read_string c ls) (\<lambda>(ts, ls). Inr (TK_STRING, Info_string ts, ls)))"
      by (rule lex_ok_bind [OF read_string_keeps [OF less.prems]]) auto
    have eq: "lex_ok (case lex_equals c tk ls of (tk, ls) \<Rightarrow> Inr (tk, No_info, ls))" for tk
      using lex_equals_ok [OF less.prems, of c tk] by (cases "lex_equals c tk ls") simp
    note parts = line space str eq lex_bracket_ok [OF less.prems] lex_dots_ok [OF less.prems] lex_number_ok [OF less.prems] lex_name_ok [OF less.prems]
    show ?thesis unfolding llex_loop.simps [of _ _ ls] Some option.case Let_def
      using parts comment less.prems by (simp split del: if_split) (simp only: if_split, auto)
  qed
qed

section \<open>Progress\<close>

text \<open>The end of the input is reported exactly at the end, and every other token is made of at least one byte.\<close>

definition lex_reads :: "'n LexState \<Rightarrow> lex_err + int \<times> 'n SemInfo \<times> 'n LexState \<Rightarrow> bool" where
  "lex_reads ls r \<longleftrightarrow> (\<forall>tk si ls'. r = Inr (tk, si, ls') \<longrightarrow>
     (if tk = TK_EOS then current ls' = None else remaining ls' < remaining ls))"

lemma lex_reads_mono: "lex_reads l r \<Longrightarrow> remaining l \<le> remaining ls \<Longrightarrow> lex_reads ls r"
  unfolding lex_reads_def by (metis order_less_le_trans)

lemma lex_reads_Inr: "tk \<noteq> TK_EOS \<Longrightarrow> remaining l < remaining ls \<Longrightarrow> lex_reads ls (Inr (tk, si, l))"
  by (simp add: lex_reads_def)

lemma lex_reads_Inl [simp]: "lex_reads ls (Inl e)"
  by (simp add: lex_reads_def)

lemma byte_not_EOS: "uint (c :: u8) \<noteq> TK_EOS"
  using uint_lt2p [of c] by (simp add: TK_EOS_def)

lemma reserved_not_EOS: "reserved ts = Some i \<Longrightarrow> int i + FIRST_RESERVED \<noteq> TK_EOS"
  by (auto simp: reserved_def FIRST_RESERVED_def TK_EOS_def NUM_RESERVED_def dest!: find_upt_Some)

lemma check_next_le: "check_next chars ls = Inr (b, ls') \<Longrightarrow> remaining ls' \<le> remaining ls"
  by (auto simp: check_next_def pbind_Inr_iff dest!: save_and_next_le split: if_splits)

lemma string_loop_le: "string_loop del ls = Inr ls' \<Longrightarrow> remaining ls' \<le> remaining ls"
proof (induction "remaining ls" arbitrary: ls rule: less_induct)
  case less
  obtain c where c: "current ls = Some c" using less.prems by (subst (asm) string_loop.simps) (auto split: option.splits)
  have "ls' = ls \<or> (\<exists>l. string_loop del l = Inr ls' \<and> remaining l < remaining ls)"
    using less.prems c remaining_next_less [of ls] read_escape_le [of "next_char ls"] save_and_next_less [of ls]
    by (subst (asm) string_loop.simps) (fastforce simp: pbind_Inr_iff split: if_splits)
  then show ?case using less.hyps by fastforce
qed

lemma read_string_less: "current ls \<noteq> None \<Longrightarrow> read_string del ls = Inr (ts, ls') \<Longrightarrow> remaining ls' < remaining ls"
  unfolding read_string_def
  by (clarsimp simp: pbind_Inr_iff) (metis le_less_trans option.distinct(1) save_and_next_le save_and_next_less string_loop_le)

lemma trydecpoint_remaining: "trydecpoint str2d point ls = Inr (r, ls') \<Longrightarrow> remaining ls' = remaining ls"
  by (auto simp: trydecpoint_def Let_def remaining_def buffreplace_def split: option.splits)

definition left_le :: "('a \<Rightarrow> 'n LexState) \<Rightarrow> nat \<Rightarrow> lex_err + 'a \<Rightarrow> bool" where
  "left_le pr n r \<longleftrightarrow> (\<forall>x. r = Inr x \<longrightarrow> remaining (pr x) \<le> n)"

lemma left_le_bind:
  "left_le pr n m \<Longrightarrow> (\<And>x. m = Inr x \<Longrightarrow> left_le pr' (remaining (pr x)) (f x)) \<Longrightarrow> left_le pr' n (pbind m f)"
  by (cases m) (auto simp: left_le_def intro: order_trans)

lemma left_le_parts:
  "left_le (\<lambda>l. l) (remaining ls) (save_while P ls)"
  "left_le (\<lambda>l. l) (remaining ls) (save c ls)"
  "left_le snd (remaining ls) (check_next chars ls)"
  by (auto simp: left_le_def dest: save_while_le save_remaining check_next_le)

lemma read_numeral_less:
  assumes "current ls \<noteq> None" and "read_numeral str2d point ls = Inr (r, ls')"
  shows "remaining ls' < remaining ls"
proof -
  have first: "left_le (\<lambda>l. l) (remaining ls - 1) (save_and_next ls)"
    using save_and_next_less [of ls] assms(1) by (force simp: left_le_def)
  have sign: "left_le (\<lambda>l. l) (remaining l) (if e then pbind (check_next (map of_char ''+-'') l) (\<lambda>(_, ls). Inr ls) else Inr l)" for e l
    by (auto simp: left_le_def pbind_Inr_iff dest!: check_next_le)
  have fin: "left_le snd (remaining l) (let ls = buffreplace (uchar CHR ''.'') (decpoint l) l in
      case str2d (buff_text ls) of Some r \<Rightarrow> Inr (r, ls) | None \<Rightarrow> trydecpoint str2d point ls)" for l
    using trydecpoint_remaining [of str2d point "buffreplace (uchar CHR ''.'') (decpoint l) l"]
    by (auto simp: left_le_def Let_def remaining_def buffreplace_def split: option.splits)
  have "left_le snd (remaining ls - 1) (read_numeral str2d point ls)"
    unfolding read_numeral_def split_beta
    by (intro left_le_bind [OF first] left_le_bind [OF left_le_parts(1)] left_le_bind [OF left_le_parts(3)]
        left_le_bind [OF sign [unfolded split_beta]] left_le_bind [OF left_le_parts(2)] fin)
  moreover have "0 < remaining ls" using assms(1) by (auto simp: remaining_def)
  ultimately show ?thesis using assms(2) unfolding left_le_def by fastforce
qed

lemma lex_bracket_reads: "current ls \<noteq> None \<Longrightarrow> lex_reads ls (lex_bracket ls)"
proof (cases "skip_sep ls")
  case (Inr p)
  assume c: "current ls \<noteq> None"
  obtain sep l where p: "p = (sep, l)" by fastforce
  have l: "remaining l < remaining ls" using skip_sep_less Inr p c by blast
  have "remaining l' < remaining ls" if "read_long_string True sep l = Inr (ts, l')" for ts l'
    using read_long_string_le [OF that] l by simp
  then show ?thesis using Inr p l byte_not_EOS [of "uchar CHR ''[''"]
    by (cases "read_long_string True sep l") (auto simp: lex_bracket_def token_defs intro!: lex_reads_Inr)
qed (simp add: lex_bracket_def)

lemma lex_number_reads: "current ls \<noteq> None \<Longrightarrow> lex_reads ls (lex_number str2d point ls)"
  by (cases "read_numeral str2d point ls") (auto simp: lex_number_def token_defs intro!: lex_reads_Inr read_numeral_less)

lemma lex_dots_reads:
  assumes c: "current ls \<noteq> None"
  shows "lex_reads ls (lex_dots str2d point ls)"
proof (cases "save_and_next ls")
  case (Inr l)
  have l: "remaining l < remaining ls" using save_and_next_less [OF Inr c] .
  show ?thesis
  proof (cases "check_next (map of_char ''.'') l")
    case i: (Inr p)
    obtain two m where p: "p = (two, m)" by fastforce
    have m: "remaining m < remaining ls" using check_next_le i p l by fastforce
    have "lex_reads ls (lex_number str2d point m)" if "current m \<noteq> None"
      using lex_reads_mono [OF lex_number_reads [OF that]] m by simp
    moreover have "lex_reads ls (pbind (check_next (map of_char ''.'') m) (\<lambda>(three, ls). Inr (if three then TK_DOTS else TK_CONCAT, No_info, ls)))"
      using m check_next_le [of "map of_char ''.''" m]
      by (cases "check_next (map of_char ''.'') m") (fastforce simp: token_defs intro!: lex_reads_Inr)+
    ultimately show ?thesis using Inr i p m byte_not_EOS [of "uchar CHR ''.''"]
      by (auto simp: lex_dots_def simp del: list.map intro!: lex_reads_Inr)
  qed (use Inr in \<open>simp add: lex_dots_def del: list.map\<close>)
qed (simp add: lex_dots_def)

lemma lex_name_reads:
  assumes c: "current ls \<noteq> None"
  shows "lex_reads ls (lex_name ls)"
proof (cases "save_and_next ls")
  case (Inr l)
  have l: "remaining m < remaining ls" if "save_while P l = Inr m" for P m
    using save_and_next_less [OF Inr c] save_while_le [OF that] by simp
  have n: "TK_NAME \<noteq> TK_EOS" by (simp add: token_defs)
  show ?thesis
    using Inr l n reserved_not_EOS
    by (cases "save_while (\<lambda>c. isalnum c \<or> c = uchar CHR ''_'') l")
      (auto simp: lex_name_def intro!: lex_reads_Inr split: option.split)
qed (simp add: lex_name_def)

lemma lex_equals_reads:
  assumes c: "current ls \<noteq> None" and "tk \<noteq> TK_EOS"
  shows "lex_reads ls (case lex_equals c tk ls of (tk, ls) \<Rightarrow> Inr (tk, No_info, ls))"
  using assms(2) byte_not_EOS remaining_next_less [OF c] remaining_next_less [of "next_char ls"]
  by (auto simp: lex_equals_def Let_def intro!: lex_reads_Inr)

lemma llex_loop_reads: "lex_reads ls (llex_loop str2d point ls)"
proof (induction "remaining ls" arbitrary: ls rule: less_induct)
  case less
  show ?case
  proof (cases "current ls")
    case None
    then show ?thesis by (subst llex_loop.simps) (simp add: lex_reads_def)
  next
    case (Some c)
    have cur: "current ls \<noteq> None" using Some by simp
    have ih: "lex_reads ls (llex_loop str2d point l)" if "remaining l < remaining ls" for l
      using lex_reads_mono [OF less.hyps [OF that]] that by simp
    have line: "lex_reads ls (pbind (inclinenumber ls) (\<lambda>ls. llex_loop str2d point ls))"
      using ih inclinenumber_less [OF _ cur] by (cases "inclinenumber ls") auto
    have comment: "lex_reads ls (pbind (skip_comment (next_char (next_char ls))) (\<lambda>ls. llex_loop str2d point ls))"
      if n: "current (next_char ls) \<noteq> None"
    proof (cases "skip_comment (next_char (next_char ls))")
      case (Inr l)
      have "remaining l < remaining ls"
        using skip_comment_le [OF Inr] remaining_next_less [OF cur] remaining_next_less [OF n] by simp
      then show ?thesis using Inr ih by simp
    qed simp
    have space: "lex_reads ls (llex_loop str2d point (next_char ls))" using ih remaining_next_less [OF cur] by blast
    have str: "lex_reads ls (pbind (read_string c ls) (\<lambda>(ts, ls). Inr (TK_STRING, Info_string ts, ls)))"
      by (cases "read_string c ls") (auto simp: token_defs intro!: lex_reads_Inr read_string_less [OF cur])
    have one: "lex_reads ls (Inr (uint c, No_info, next_char ls))"
      using byte_not_EOS remaining_next_less [OF cur] by (intro lex_reads_Inr)
    have "TK_EQ \<noteq> TK_EOS" "TK_LE \<noteq> TK_EOS" "TK_GE \<noteq> TK_EOS" "TK_NE \<noteq> TK_EOS" by (simp_all add: token_defs)
    note parts = line space str one this [THEN lex_equals_reads [OF cur]] lex_bracket_reads [OF cur] lex_dots_reads [OF cur]
      lex_number_reads [OF cur] lex_name_reads [OF cur]
    show ?thesis unfolding llex_loop.simps [of _ _ ls] Some option.case Let_def
      using parts comment by (simp split del: if_split) (simp only: if_split, auto)
  qed
qed

lemma llex_ok:
  assumes "buf_ok ls"
  shows "lex_ok (llex str2d point ls)" and "lex_reads ls (llex str2d point ls)"
  using llex_loop_ok [OF empty_buff_ok [OF assms]] lex_reads_mono [OF llex_loop_reads, of "ls\<lparr>buff := []\<rparr>" ls]
  by (simp_all add: llex_def)

section \<open>The level of long brackets\<close>

text \<open>No operation on less than \<open>2\<^sup>3\<^sup>0 - 2\<close> bytes lets a level, or an offset computed from it, leave the C \<^verbatim>\<open>int\<close>.\<close>

definition level_ok :: "lex_err + 'a \<Rightarrow> bool" where
  "level_ok r \<longleftrightarrow> r \<noteq> Inl Count_overflow"

lemma level_ok_simps [simp]: "level_ok (Inr x)" "level_ok (Inl e) \<longleftrightarrow> e \<noteq> Count_overflow"
  by (simp_all add: level_ok_def)

lemma level_ok_bind: "level_ok m \<Longrightarrow> (\<And>x. m = Inr x \<Longrightarrow> level_ok (f x)) \<Longrightarrow> level_ok (pbind m f)"
  by (cases m) simp_all

lemma level_ok_basic [simp]:
  "level_ok (save c ls)" "level_ok (save_and_next ls)" "level_ok (inclinenumber ls)" "level_ok (check_next chars ls)"
  "level_ok (buff_part off n ls)" "level_ok (trydecpoint str2d point ls)"
proof -
  show save: "level_ok (save c ls)" for c and ls :: "'n LexState" by (auto simp: save_def intro!: level_ok_bind)
  show nxt: "level_ok (save_and_next ls)" for ls :: "'n LexState" by (auto simp: save_and_next_def intro!: level_ok_bind save)
  show "level_ok (check_next chars ls)" by (auto simp: check_next_def intro!: level_ok_bind nxt)
qed (auto simp: inclinenumber_def buff_part_def trydecpoint_def Let_def split: option.split)

lemma save_while_level [simp]: "level_ok (save_while P ls)"
proof (induction P ls rule: save_while.induct)
  case (1 P ls)
  then show ?case by (subst save_while.simps) (auto intro!: level_ok_bind)
qed

lemma read_numeral_level [simp]: "level_ok (read_numeral str2d point ls)"
  unfolding read_numeral_def by (auto simp: Let_def intro!: level_ok_bind split: option.split)

lemma read_string_level [simp]: "level_ok (read_string del ls)"
proof -
  have esc: "level_ok (read_escape l)" for l :: "'n LexState"
    by (auto simp: read_escape_def intro!: level_ok_bind split: option.split prod.split)
  have "level_ok (string_loop del l)" for l :: "'n LexState"
  proof (induction del l rule: string_loop.induct)
    case (1 del ls)
    then show ?case using esc by (subst string_loop.simps) (auto intro!: level_ok_bind split: option.split)
  qed
  then show ?thesis by (auto simp: read_string_def intro!: level_ok_bind)
qed

lemma sep_loop_level:
  assumes "count + int (remaining ls) < 2 ^ 31"
  shows "level_ok (sep_loop count ls) \<and> (\<forall>n ls'. sep_loop count ls = Inr (n, ls') \<longrightarrow> n \<le> count + int (remaining ls))"
  using assms
proof (induction count ls rule: sep_loop.induct)
  case (1 count ls)
  show ?case
  proof (cases "current ls = Some (uchar CHR ''='')")
    case True
    show ?thesis
    proof (cases "save_and_next ls")
      case (Inl e)
      then show ?thesis using True level_ok_basic(2) [of ls] by (subst (1 2) sep_loop.simps) simp
    next
      case (Inr l)
      have l: "remaining l < remaining ls" using save_and_next_less [OF Inr] True by simp
      have c: "\<not> count + 1 \<ge> 2 ^ 31" using "1.prems" l by linarith
      have "count + 1 + int (remaining l) < 2 ^ 31" using "1.prems" l by linarith
      note ih = "1.IH" [OF True Inr c this]
      show ?thesis using ih True Inr c l by (subst (1 2) sep_loop.simps) fastforce
    qed
  qed (subst (1 2) sep_loop.simps, simp)
qed

lemma skip_sep_level:
  assumes "int (remaining ls) < 2 ^ 31"
  shows "level_ok (skip_sep ls) \<and> (\<forall>n ls'. skip_sep ls = Inr (n, ls') \<longrightarrow> n \<le> int (remaining ls))"
proof (cases "save_and_next ls")
  case (Inl e)
  then show ?thesis using level_ok_basic(2) [of ls] by (simp add: skip_sep_def)
next
  case (Inr l)
  have l: "remaining l \<le> remaining ls" using save_and_next_le [OF Inr] .
  have lev: "0 + int (remaining l) < 2 ^ 31" using l assms by simp
  note level = sep_loop_level [OF lev]
  show ?thesis
  proof (cases "sep_loop 0 l")
    case s: (Inr p)
    obtain n m where p: "p = (n, m)" by fastforce
    have n: "n \<le> int (remaining l)" using level s p by simp
    have "0 \<le> n" using sep_loop_ge [of 0 l n m] s p by simp
    then show ?thesis using Inr s p n l by (auto simp: skip_sep_def Let_def)
  qed (use Inr level in \<open>auto simp: skip_sep_def\<close>)
qed

lemma long_loop_level: "int (remaining ls) < 2 ^ 31 \<Longrightarrow> level_ok (long_loop want sep ls)"
proof (induction "remaining ls" arbitrary: ls rule: less_induct)
  case less
  have ih: "level_ok (long_loop want sep l)" if "remaining l < remaining ls" for l :: "'a LexState"
    using less.hyps [OF that] that less.prems by simp
  show ?case
  proof (cases "current ls")
    case None
    then show ?thesis by (subst long_loop.simps) simp
  next
    case (Some c)
    have sep: "level_ok (pbind (skip_sep ls) f)" if "\<And>n l. remaining l < remaining ls \<Longrightarrow> level_ok (f (n, l))" for f :: "int \<times> 'a LexState \<Rightarrow> lex_err + 'a LexState"
      using skip_sep_level [OF less.prems] skip_sep_less [of ls] Some that by (intro level_ok_bind) auto
    have more: "level_ok (pbind (save_and_next l) (\<lambda>ls. if b then Inl Nesting_deprecated else long_loop want sep ls))"
      if "remaining l < remaining ls" for b and l :: "'a LexState"
      using save_and_next_le [of l] ih that by (intro level_ok_bind) (auto intro: le_less_trans)
    have line: "level_ok (pbind (save 10 ls) (\<lambda>ls. pbind (inclinenumber ls) (\<lambda>ls. long_loop want sep (if want then ls else ls\<lparr>buff := []\<rparr>))))"
    proof (intro level_ok_bind level_ok_basic)
      fix l m assume l: "save 10 ls = Inr l" "inclinenumber l = Inr m"
      have "remaining m < remaining ls"
        using inclinenumber_less [OF l(2)] save_fields [OF l(1)] save_remaining [OF l(1)] Some by simp
      then show "level_ok (long_loop want sep (if want then m else m\<lparr>buff := []\<rparr>))" by (intro ih) simp
    qed
    have other: "level_ok (pbind (save_and_next ls) (\<lambda>ls. long_loop want sep ls))" "level_ok (long_loop want sep (next_char ls))"
      using save_and_next_less [of ls] remaining_next_less [of ls] ih Some by (auto intro!: level_ok_bind)
    show ?thesis unfolding long_loop.simps [of _ _ ls] Some option.case
      using ih more line other by (auto intro!: sep)
  qed
qed

lemma read_long_string_level:
  assumes "int (remaining ls) < 2 ^ 31" and "want \<Longrightarrow> 2 * (2 + sep) < 2 ^ 31"
  shows "level_ok (read_long_string want sep ls)"
proof -
  have line: "level_ok (if currIsNewline l then inclinenumber l else Inr l)" for l :: "'a LexState" by simp
  have le: "remaining m \<le> remaining ls"
    if "save_and_next ls = Inr l" "(if currIsNewline l then inclinenumber l else Inr l) = Inr m" for l m
    using save_and_next_le [OF that(1)] that(2) inclinenumber_less [of l m] by (auto simp: currIsNewline_def split: if_splits)
  have fin: "level_ok (if \<not> want then Inr ([], l) else if 2 * (2 + sep) \<ge> 2 ^ 31 then Inl Count_overflow
     else pbind (buff_part (nat (2 + sep)) (nat (2 * (2 + sep))) l) (\<lambda>ts. Inr (ts, l)))" for l :: "'a LexState"
    using assms(2) by (auto intro!: level_ok_bind)
  show ?thesis unfolding read_long_string_def
    using le assms(1) by (intro level_ok_bind level_ok_basic line long_loop_level fin) force
qed

lemma skip_comment_level: "int (remaining ls) < 2 ^ 31 \<Longrightarrow> level_ok (skip_comment ls)"
proof (cases "current ls = Some (uchar CHR ''['')")
  case True
  assume r: "int (remaining ls) < 2 ^ 31"
  have "level_ok (let ls = l\<lparr>buff := []\<rparr> in
      if sep \<ge> 0 then pbind (read_long_string False sep ls) (\<lambda>(_, ls). Inr (ls\<lparr>buff := []\<rparr>)) else Inr (skip_line ls))"
    if "skip_sep ls = Inr (sep, l)" for sep l
    using skip_sep_less [OF that] True r by (auto simp: Let_def intro!: level_ok_bind read_long_string_level)
  then show ?thesis using True skip_sep_level [OF r] by (auto simp: skip_comment_def intro!: level_ok_bind)
qed (simp add: skip_comment_def)

lemma lex_bracket_level: "current ls \<noteq> None \<Longrightarrow> int (remaining ls) < 2 ^ 30 - 2 \<Longrightarrow> level_ok (lex_bracket ls)"
proof -
  assume c: "current ls \<noteq> None" and r: "int (remaining ls) < 2 ^ 30 - 2"
  have s: "level_ok (skip_sep ls)" "skip_sep ls = Inr (n, l) \<Longrightarrow> n \<le> int (remaining ls)" for n l
    using skip_sep_level [of ls] r by simp_all
  have "level_ok (read_long_string True n l)" if "skip_sep ls = Inr (n, l)" for n l
    using s(2) [OF that] skip_sep_less [OF that c] r by (intro read_long_string_level) simp_all
  then show ?thesis using s(1) by (auto simp: lex_bracket_def intro!: level_ok_bind)
qed

lemma lex_parts_level [simp]:
  "level_ok (lex_number str2d point ls)" "level_ok (lex_dots str2d point ls)" "level_ok (lex_name ls)"
proof -
  show num: "level_ok (lex_number str2d point ls)" for ls by (auto simp: lex_number_def intro!: level_ok_bind)
  show "level_ok (lex_dots str2d point ls)" by (auto simp: lex_dots_def simp del: list.map intro!: level_ok_bind num)
  show "level_ok (lex_name ls)" by (auto simp: lex_name_def intro!: level_ok_bind split: option.split)
qed

lemma llex_loop_level: "int (remaining ls) < 2 ^ 30 - 2 \<Longrightarrow> level_ok (llex_loop str2d point ls)"
proof (induction "remaining ls" arbitrary: ls rule: less_induct)
  case less
  show ?case
  proof (cases "current ls")
    case None
    then show ?thesis by (subst llex_loop.simps) simp
  next
    case (Some c)
    have cur: "current ls \<noteq> None" using Some by simp
    have ih: "level_ok (llex_loop str2d point l)" if "remaining l < remaining ls" for l
      using less.hyps [OF that] that less.prems by simp
    have line: "level_ok (pbind (inclinenumber ls) (\<lambda>ls. llex_loop str2d point ls))"
      using ih inclinenumber_less [OF _ cur] by (intro level_ok_bind) simp_all
    have comment: "level_ok (pbind (skip_comment (next_char (next_char ls))) (\<lambda>ls. llex_loop str2d point ls))"
      if n: "current (next_char ls) \<noteq> None"
    proof (rule level_ok_bind)
      have less: "remaining (next_char (next_char ls)) < remaining ls"
        using remaining_next_less [OF cur] remaining_next_less [OF n] by simp
      show "level_ok (skip_comment (next_char (next_char ls)))"
        using less less.prems by (intro skip_comment_level) simp
      show "level_ok (llex_loop str2d point l)" if "skip_comment (next_char (next_char ls)) = Inr l" for l
        using skip_comment_le [OF that] less by (intro ih) simp
    qed
    have space: "level_ok (llex_loop str2d point (next_char ls))" using ih remaining_next_less [OF cur] by blast
    have str: "level_ok (pbind (read_string c ls) (\<lambda>(ts, ls). Inr (TK_STRING, Info_string ts, ls)))"
      by (auto intro!: level_ok_bind)
    have eq: "level_ok (case lex_equals c tk ls of (tk, ls) \<Rightarrow> Inr (tk, No_info, ls))" for tk
      by (cases "lex_equals c tk ls") simp
    note parts = line space str eq lex_bracket_level [OF cur less.prems]
    show ?thesis unfolding llex_loop.simps [of _ _ ls] Some option.case Let_def
      using parts comment by (simp split del: if_split) (simp only: if_split, auto)
  qed
qed

lemma llex_level: "int (remaining ls) < 2 ^ 30 - 2 \<Longrightarrow> llex str2d point ls \<noteq> Inl Count_overflow"
  using llex_loop_level [of "ls\<lparr>buff := []\<rparr>" str2d point] by (simp add: llex_def level_ok_def)

section \<open>Reading all tokens\<close>

text \<open>
  Reading all tokens of an input. The calls of \<^verbatim>\<open>llex\<close> are counted, and what would need more of them than are allowed is
  \<open>None\<close>.
\<close>

fun lex_all :: "(u8 list \<Rightarrow> 'n option) \<Rightarrow> u8 \<Rightarrow> nat \<Rightarrow> 'n LexState \<Rightarrow> (lex_err + (int \<times> 'n SemInfo) list) option" where
  "lex_all str2d point 0 ls = None"
| "lex_all str2d point (Suc n) ls =
     (case llex str2d point ls of
        Inl e \<Rightarrow> Some (Inl e)
      | Inr (tk, si, ls) \<Rightarrow>
          if tk = TK_EOS then Some (Inr [(tk, si)])
          else map_option (map_sum id (\<lambda>ts. (tk, si) # ts)) (lex_all str2d point n ls))"

definition all_read :: "nat \<Rightarrow> lex_err + (int \<times> 'n SemInfo) list \<Rightarrow> bool" where
  "all_read n r = (case r of Inl e \<Rightarrow> e \<noteq> Buffer_overrun \<and> e \<noteq> Count_overflow
     | Inr ts \<Rightarrow> ts \<noteq> [] \<and> fst (last ts) = TK_EOS \<and> TK_EOS \<notin> fst ` set (butlast ts) \<and> length ts \<le> n + 1)"

lemma lex_all_ok:
  "buf_ok ls \<Longrightarrow> remaining ls < n \<Longrightarrow> int (remaining ls) < 2 ^ 30 - 2 \<Longrightarrow> \<exists>r. lex_all str2d point n ls = Some r \<and> all_read (remaining ls) r"
proof (induction n arbitrary: ls)
  case (Suc n)
  note ok = llex_ok [OF Suc.prems(1), of str2d point] llex_level [OF Suc.prems(3), of str2d point]
  show ?case
  proof (cases "llex str2d point ls")
    case (Inl e)
    then show ?thesis using ok by (simp add: all_read_def)
  next
    case (Inr x)
    obtain tk si l where x: "x = (tk, si, l)" by (cases x)
    show ?thesis
    proof (cases "tk = TK_EOS")
      case True
      then show ?thesis using Inr x by (simp add: all_read_def)
    next
      case False
      have l: "buf_ok l" "remaining l < remaining ls" using ok Inr x False by (auto simp: lex_reads_def)
      obtain r where r: "lex_all str2d point n l = Some r" "all_read (remaining l) r"
        using Suc.IH [OF l(1)] l(2) Suc.prems(2,3) by auto
      have "all_read (remaining ls) (map_sum id (\<lambda>ts. (tk, si) # ts) r)"
        using r(2) l(2) False by (cases r) (auto simp: all_read_def)
      then show ?thesis using Inr x False r by simp
    qed
  qed
qed simp

section \<open>Reading back a quoted string\<close>

text \<open>A state with the text \<open>xs\<close> ahead.\<close>

definition ahead :: "u8 list \<Rightarrow> 'n LexState \<Rightarrow> 'n LexState" where
  "ahead xs ls = ls\<lparr>current := (case xs of [] \<Rightarrow> None | c # _ \<Rightarrow> Some c), input := tl xs\<rparr>"

lemma ahead_simps [simp]:
  "current (ahead [] ls) = None"
  "current (ahead (c # xs) ls) = Some c"
  "next_char (ahead (c # xs) ls) = ahead xs ls"
  "buff (ahead xs ls) = buff ls"
  "buffsize (ahead xs ls) = buffsize ls"
  "linenumber (ahead xs ls) = linenumber ls"
  by (simp_all add: ahead_def next_char_def split: list.split)

text \<open>The state behind the text \<open>s\<close> was saved, with \<open>n\<close> newlines counted.\<close>

definition saved :: "u8 list \<Rightarrow> nat \<Rightarrow> 'n LexState \<Rightarrow> 'n LexState \<Rightarrow> bool" where
  "saved s n ls ls' \<longleftrightarrow> buf_ok ls' \<and> buff ls' = buff ls @ s \<and> linenumber ls' = linenumber ls + int n"

lemma save_ahead:
  assumes "buf_ok ls" and "length (buff ls) < 2 ^ 62"
  shows "\<exists>ls'. save c (ahead xs ls) = Inr (ahead xs ls') \<and> saved [c] 0 ls ls'"
proof -
  define z where "z = (if length (buff ls) + 1 > buffsize ls then buffsize ls * 2 else buffsize ls)"
  have "save c (ahead xs ls) = Inr (ahead xs (ls\<lparr>buffsize := z, buff := buff ls @ [c]\<rparr>))"
    using assms by (auto simp: save_def z_def buf_ok_def ahead_def MAX_SIZET_def)
  moreover have "saved [c] 0 ls (ls\<lparr>buffsize := z, buff := buff ls @ [c]\<rparr>)"
    using assms(1) by (auto simp: saved_def buf_ok_def z_def)
  ultimately show ?thesis by blast
qed

lemma save_and_next_ahead:
  assumes "buf_ok ls" and "length (buff ls) < 2 ^ 62"
  shows "\<exists>ls'. save_and_next (ahead (c # xs) ls) = Inr (ahead xs ls') \<and> saved [c] 0 ls ls'"
  using save_ahead [OF assms, of c "c # xs"] by (auto simp: save_and_next_def)

lemma inclinenumber_ahead:
  assumes "linenumber ls + 1 < MAX_INT" and "xs = [] \<or> hd xs \<noteq> 13"
  shows "inclinenumber (ahead (10 # xs) ls) = Inr (ahead xs (ls\<lparr>linenumber := linenumber ls + 1\<rparr>))"
proof -
  have n: "\<not> (currIsNewline (ahead xs ls) \<and> current (ahead xs ls) \<noteq> Some 10)"
    using assms(2) by (cases xs) (auto simp: currIsNewline_def)
  have "(ahead xs ls)\<lparr>linenumber := v\<rparr> = ahead xs (ls\<lparr>linenumber := v\<rparr>)" for v by (simp add: ahead_def)
  then show ?thesis using assms(1) unfolding inclinenumber_def Let_def ahead_simps if_not_P [OF n] by simp
qed

text \<open>Each byte of the string comes back from its quoted form.\<close>

lemma string_loop_byte:
  assumes ok: "buf_ok ls" "length (buff ls) < 2 ^ 62" and line: "c = 10 \<Longrightarrow> linenumber ls + 1 < MAX_INT"
    and xs: "xs = [] \<or> hd xs \<noteq> 13"
  shows "\<exists>ls'. string_loop 34 (ahead (quoted_byte c @ xs) ls) = string_loop 34 (ahead xs ls') \<and> saved [c] (if c = 10 then 1 else 0) ls ls'"
proof -
  have esc: "string_loop 34 (ahead (92 # ys) ls) = pbind (read_escape (ahead ys ls)) (\<lambda>ls. string_loop 34 ls)" for ys
    by (subst string_loop.simps) simp
  consider (self) "c = 34 \<or> c = 92" | (line) "c = 10" | (ret) "c = 13" | (zero) "c = 0"
    | (plain) "c \<noteq> 34" "c \<noteq> 92" "c \<noteq> 10" "c \<noteq> 13" "c \<noteq> 0" by blast
  then show ?thesis
  proof cases
    case self
    obtain l where l: "save_and_next (ahead (c # xs) ls) = Inr (ahead xs l)" "saved [c] 0 ls l"
      using save_and_next_ahead [OF ok] by blast
    have "read_escape (ahead (c # xs) ls) = Inr (ahead xs l)"
      using self l(1) by (auto simp: read_escape_def escape_code_def isdigit_def)
    then show ?thesis using self l(2) esc [of "c # xs"] by (auto simp: quoted_byte_def)
  next
    case line
    obtain l where l: "save 10 (ahead (10 # xs) ls) = Inr (ahead (10 # xs) l)" "saved [10] 0 ls l"
      using save_ahead [OF ok] by blast
    let ?l = "l\<lparr>linenumber := linenumber l + 1\<rparr>"
    have "inclinenumber (ahead (10 # xs) l) = Inr (ahead xs ?l)"
      using l(2) assms(3) line xs by (intro inclinenumber_ahead) (auto simp: saved_def)
    then have "read_escape (ahead (10 # xs) ls) = Inr (ahead xs ?l)"
      using l(1) by (simp add: read_escape_def escape_code_def)
    moreover have "saved [10] 1 ls ?l" using l(2) by (auto simp: saved_def buf_ok_def)
    ultimately show ?thesis using line esc [of "10 # xs"] by (auto simp: quoted_byte_def)
  next
    case ret
    obtain l where l: "save 13 (ahead (114 # xs) ls) = Inr (ahead (114 # xs) l)" "saved [13] 0 ls l"
      using save_ahead [OF ok] by blast
    have "read_escape (ahead (114 # xs) ls) = Inr (ahead xs l)"
      using l(1) by (simp add: read_escape_def escape_code_def)
    then show ?thesis using ret l(2) esc [of "114 # xs"] by (auto simp: quoted_byte_def)
  next
    case zero
    obtain l where l: "save 0 (ahead xs ls) = Inr (ahead xs l)" "saved [0] 0 ls l" using save_ahead [OF ok] by blast
    have "escape_digits 3 0 (ahead (48 # 48 # 48 # xs) ls) = (0, ahead xs ls)"
      by (simp add: numeral_3_eq_3 isdigit_def)
    then have "read_escape (ahead (48 # 48 # 48 # xs) ls) = Inr (ahead xs l)"
      using l(1) by (simp add: read_escape_def escape_code_def isdigit_def)
    then show ?thesis using zero l(2) esc [of "48 # 48 # 48 # xs"] by (auto simp: quoted_byte_def)
  next
    case plain
    obtain l where l: "save_and_next (ahead (c # xs) ls) = Inr (ahead xs l)" "saved [c] 0 ls l"
      using save_and_next_ahead [OF ok] by blast
    then show ?thesis using plain by (subst string_loop.simps) (auto simp: quoted_byte_def)
  qed
qed

lemma quoted_head: "hd (concat (map quoted_byte s) @ 34 # r) \<noteq> 13"
  by (cases s) (auto simp: quoted_byte_def)

lemma string_loop_quoted:
  assumes "buf_ok ls" and "length (buff ls) + length s < 2 ^ 62" and "linenumber ls + int (count_list s 10) < MAX_INT"
  shows "\<exists>ls'. string_loop 34 (ahead (concat (map quoted_byte s) @ 34 # r) ls) = Inr (ahead (34 # r) ls') \<and>
    saved s (count_list s 10) ls ls'"
  using assms
proof (induction s arbitrary: ls)
  case Nil
  then show ?case by (subst string_loop.simps) (auto simp: saved_def intro!: exI [of _ ls])
next
  case (Cons c s)
  let ?xs = "concat (map quoted_byte s) @ 34 # r"
  obtain l where l: "string_loop 34 (ahead (quoted_byte c @ ?xs) ls) = string_loop 34 (ahead ?xs l)"
      "saved [c] (if c = 10 then 1 else 0) ls l"
    using string_loop_byte [OF Cons.prems(1), of c ?xs] Cons.prems(2,3) quoted_head by (auto split: if_splits)
  have "\<exists>ls'. string_loop 34 (ahead ?xs l) = Inr (ahead (34 # r) ls') \<and> saved s (count_list s 10) l ls'"
    using l(2) Cons.prems(2,3) by (intro Cons.IH) (auto simp: saved_def split: if_splits)
  then show ?case using l by (auto simp: saved_def split: if_splits)
qed

lemma quote_loop_concat: "quote_loop s b = b @ concat (map quoted_byte s)"
  by (induction s arbitrary: b) simp_all

section \<open>Properties\<close>

text \<open>C16: what \<^verbatim>\<open>string.format\<close> writes for \<^verbatim>\<open>%q\<close> is read back by the lexer as the same string. The literal for \<open>s\<close>, with anything behind
  it, is one string token with the bytes of \<open>s\<close>, whichever they are: quotes, backslashes, newlines, carriage returns
  and zero bytes, also before digits. The lexer stands directly behind the literal and has counted its newlines. (The
  string has less than \<open>2\<^sup>6\<^sup>1\<close> bytes and the line counter room for its newlines.)\<close>

theorem quoted_reads_back:
  assumes "buf_ok ls" and "length s < 2 ^ 61" and "linenumber ls + int (count_list s 10) < MAX_INT"
  shows "\<exists>ls'. llex str2d point (ahead (addquoted [] s @ r) ls) = Inr (TK_STRING, Info_string s, ahead r ls') \<and>
    linenumber ls' = linenumber ls + int (count_list s 10)"
proof -
  let ?ls = "ls\<lparr>buff := []\<rparr>" and ?xs = "concat (map quoted_byte s) @ 34 # r"
  have lit: "addquoted [] s @ r = 34 # ?xs" by (simp add: addquoted_def quote_loop_concat)
  have strip: "(ahead xs ls)\<lparr>buff := []\<rparr> = ahead xs ?ls" for xs by (simp add: ahead_def)
  obtain l where l: "save_and_next (ahead (34 # ?xs) ?ls) = Inr (ahead ?xs l)" "saved [34] 0 ?ls l"
    using save_and_next_ahead [OF empty_buff_ok [OF assms(1)], of 34 ?xs] by auto
  obtain m where m: "string_loop 34 (ahead ?xs l) = Inr (ahead (34 # r) m)" "saved s (count_list s 10) l m"
    using string_loop_quoted [of l s r] l(2) assms(2,3) by (auto simp: saved_def)
  obtain n where n: "save_and_next (ahead (34 # r) m) = Inr (ahead r n)" "saved [34] 0 m n"
    using save_and_next_ahead [of m 34 r] l(2) m(2) assms(2) by (auto simp: saved_def)
  have b: "buff n = 34 # s @ [34]" "linenumber n = linenumber ls + int (count_list s 10)" using l(2) m(2) n(2) by (auto simp: saved_def)
  have "buff_part 1 2 (ahead r n) = Inr s" using b(1) by (simp add: buff_part_def)
  then have "read_string 34 (ahead (34 # ?xs) ?ls) = Inr (s, ahead r n)"
    using l(1) m(1) n(1) by (simp add: read_string_def)
  then have "llex str2d point (ahead (addquoted [] s @ r) ls) = Inr (TK_STRING, Info_string s, ahead r n)"
    unfolding llex_def lit strip by (subst llex_loop.simps) simp
  then show ?thesis using b(2) by blast
qed

lemma quoted_reads_back_witness:
  "\<exists>ls'. llex (\<lambda>_. None :: nat option) 46 (ahead (addquoted [] [10, 0, 49, 34, 13] @ [59]) (luaX_setinput [])) =
    Inr (TK_STRING, Info_string [10, 0, 49, 34, 13], ahead [59] ls') \<and> linenumber ls' = 2"
  using quoted_reads_back [of "luaX_setinput []" "[10, 0, 49, 34, 13]" "\<lambda>_. None :: nat option" 46 "[59]"]
  by (simp add: luaX_setinput_def next_char_def buf_ok_def MAX_INT_def)

text \<open>C17: the lexer comes to the end of every input of less than \<open>2\<^sup>3\<^sup>0 - 2\<close> bytes. For any such bytes, any conversion of
  numerals and any locale, calling it once more often than there are bytes is enough: it raises a syntax error on the
  way, or it has delivered tokens of which the last one, and only that, is the end of the input. It never accesses its
  token buffer out of bounds, also not where it cuts the delimiters off a string of either kind, and the \<^verbatim>\<open>int\<close> that holds
  the level of a long bracket never overflows, nor does the length of its two delimiters. (In a longer input, a bracket
  of level \<open>2\<^sup>3\<^sup>0 - 2\<close> makes that length overflow.)\<close>

theorem lexer_total:
  fixes str2d :: "u8 list \<Rightarrow> 'n option"
  assumes "length bytes < 2 ^ 30 - 2"
  shows "case lex_all str2d point (length bytes + 1) (luaX_setinput bytes) of None \<Rightarrow> False | Some r \<Rightarrow> all_read (length bytes) r"
proof -
  let ?ls = "luaX_setinput bytes :: 'n LexState"
  have ls: "buf_ok ?ls" "remaining ?ls = length bytes"
    by (auto simp: luaX_setinput_def buf_ok_def remaining_def next_char_def split: list.split)
  obtain r where "lex_all str2d point (length bytes + 1) ?ls = Some r" "all_read (length bytes) r"
    using lex_all_ok [OF ls(1), of "length bytes + 1" str2d point] ls(2) assms by (auto simp del: lex_all.simps)
  then show ?thesis by (simp del: lex_all.simps)
qed

text \<open>The witness is a long string of level one with a closing bracket of level zero in it, and a name: \<^verbatim>\<open>[=[]]]=]a\<close>.\<close>

lemma lexer_total_witness:
  "case lex_all (\<lambda>_. None :: nat option) 46 10 (luaX_setinput [91, 61, 91, 93, 93, 93, 61, 93, 97]) of
     None \<Rightarrow> False | Some r \<Rightarrow> all_read 9 r"
proof -
  let ?b = "[91, 61, 91, 93, 93, 93, 61, 93, 97] :: u8 list"
  have n: "length ?b + 1 = 10" "length ?b = 9" by simp_all
  show ?thesis using lexer_total [of ?b "\<lambda>_. None :: nat option" 46] unfolding n by simp
qed

text \<open>
  Behind the bound the guarantee ends: at the end of a long string of level \<open>2\<^sup>3\<^sup>0 - 2\<close> or more the length of its
  delimiters leaves the \<^verbatim>\<open>int\<close>.
\<close>

lemma long_string_level_overflow:
  assumes "2 ^ 30 - 2 \<le> sep" and "save_and_next ls = Inr l"
    and "(if currIsNewline l then inclinenumber l else Inr l) = Inr m" and "long_loop True sep m = Inr ls'"
  shows "read_long_string True sep ls = Inl Count_overflow"
  using assms(1,2,4) unfolding read_long_string_def by (simp add: assms(3))

text \<open>
  A zero byte behind a dot is taken for a second dot: \<^verbatim>\<open>strchr\<close> finds it at the end of the set of characters the lexer
  accepts there.
\<close>

lemma zero_byte_concat:
  "\<exists>ls. llex str2d point (luaX_setinput [46, 0]) = Inr (TK_CONCAT, No_info, ls)"
  by (simp add: llex_def luaX_setinput_def next_char_def llex_loop.simps lex_dots_def check_next_def save_and_next_def save_def
    MAX_SIZET_def)

end
