(* ===== verification/Spec2Isabelle.thy ===== *)
theory Spec2Isabelle
  imports Ax_Buffer Ax_Queue Mem_Pool Ax_Hashmap Ax_String Ax_Timer_Inv Proto_Msg Kqueue Ax_Tpipe Connect Client_Mgr Ax_Debug Node_Conf
    Lua_Object Lua_Chunk Lua_Tablib Lua_Lex
begin

text \<open>
  Verification of the Axon server engine: the core library under \<^verbatim>\<open>src/core\<close>, the message classes under
  \<^verbatim>\<open>src/proto\<close> and the multi-threaded client gateway under \<^verbatim>\<open>src/cgate_mt\<close>.

  \<^bold>\<open>The program.\<close> A node is a process around an event poller. The poller (\<^verbatim>\<open>fd_poller.cc\<close>, with the drivers
  \<^verbatim>\<open>epoll.cc\<close> and \<^verbatim>\<open>kqueue.cc\<close>) watches descriptors, calls the reactors registered for them, runs the timer wheel
  (\<^verbatim>\<open>ax_timer.cc\<close>) and keeps registrations that have to wait in a hash table (\<^verbatim>\<open>ax_hashmap.h\<close>). Threads talk through
  a pipe with a buffer on either side (\<^verbatim>\<open>ax_tpipe.cc\<close> over \<^verbatim>\<open>ax_buffer.cc\<close>), in messages with a four-byte header
  (\<^verbatim>\<open>ax_proto_msg.h\<close>) and generated classes (\<^verbatim>\<open>cgate_msg_pb.cc\<close>, \<^verbatim>\<open>node_msg_pb.cc\<close>). In the gateway the main thread
  (\<^verbatim>\<open>client_mgr.cc\<close>) listens, gives each accepted socket a handle and announces it to a worker (\<^verbatim>\<open>connect_worker.cc\<close>),
  which keeps it in a table of connections (\<^verbatim>\<open>connect.cc\<close>). The configuration is read by \<^verbatim>\<open>node_init.cc\<close> and, for
  nodes in general, \<^verbatim>\<open>node_base.cc\<close>.

  \<^bold>\<open>How code is modelled.\<close> Every operation is a function on the records of its class. Integers keep their width (words
  of 8, 16, 32 and 64 bits, read as signed numbers where the code does); memory is a block of cells which may be
  uninitialised; an access the language leaves undefined, the overflow of a signed \<^verbatim>\<open>int\<close>, a failed assertion and an
  endless loop over a pointer structure are values of the error type of \<open>Ax_Prelude\<close>, so that a theorem with a result of the form \<^const>\<open>Inr\<close> excludes them.
  Loops over pointer structures carry fuel, the number of nodes allocated, which every run through an acyclic structure
  stays below; running out is the error \<^const>\<open>Diverge\<close>, and the theorems show that it does not occur where the code's
  invariant holds. What the operating system answers is an argument of the operation that asks, as are the methods of
  \<^verbatim>\<open>Json::Value\<close>.

  \<^bold>\<open>The theories\<close>, in the order they build on each other:
  \<^item> \<open>Ax_Prelude\<close>: results, words, blocks, little-endian integers; \<open>Node_Heap\<close> and \<open>Dll\<close>: heaps of nodes and the doubly
    linked lists of \<^verbatim>\<open>ax_hashmap.h\<close>, \<^verbatim>\<open>ax_timer.cc\<close> and \<^verbatim>\<open>connect.cc\<close>.
  \<^item> \<open>Ax_Buffer\<close> (\<^verbatim>\<open>ax_buffer.h\<close>, \<^verbatim>\<open>ax_buffer.cc\<close>), with its contract \<open>Fifo_Spec\<close>: the buffer refines a list of bytes with
    append at the end and removal at the front.
  \<^item> \<open>Ax_Queue\<close> (\<^verbatim>\<open>ax_queue.h\<close>, \<^verbatim>\<open>ax_queue.cc\<close>), with its contract \<open>Msg_Queue_Spec\<close>: a batch that fits comes out in order;
    and what happens to messages that do not fit.
  \<^item> \<open>Mem_Pool\<close> (\<^verbatim>\<open>mem_pool.h\<close>, \<^verbatim>\<open>mem_pool.cc\<close>): memory handed out is disjoint and stays the client's until it is freed.
  \<^item> \<open>Ax_Hashmap\<close> (\<^verbatim>\<open>ax_hashmap.h\<close>), with its contract \<open>Kv_Spec\<close>: the table refines a list of pairs, newest first.
  \<^item> \<open>Ax_String\<close> (\<^verbatim>\<open>ax_string.h\<close>, \<^verbatim>\<open>ax_string.cc\<close>): the two representations of a string and the operations on them.
  \<^item> \<open>Ax_Timer\<close> and \<open>Ax_Timer_Inv\<close> (\<^verbatim>\<open>ax_timer.h\<close>, \<^verbatim>\<open>ax_timer.cc\<close>): the three wheels, the invariant that ties them to the
    handle table, and that a timer fires at its tick.
  \<^item> \<open>Proto_Msg\<close> (\<^verbatim>\<open>ax_proto_msg.h\<close>, \<^verbatim>\<open>cgate_msg_pb.h\<close>, \<^verbatim>\<open>cgate_msg_pb.cc\<close>, \<^verbatim>\<open>node_msg_pb.h\<close>, \<^verbatim>\<open>node_msg_pb.cc\<close>): the classes as
    instances of the locales \<open>msg_packer\<close> and \<open>proto_msg\<close>, whose laws give the round trips.
  \<^item> \<open>Fd_Poller\<close> (\<^verbatim>\<open>fd_poller.h\<close>, \<^verbatim>\<open>fd_poller.cc\<close>): the poller over the interface \<open>fd_driver\<close> and its invariant; \<open>Epoll\<close> and
    \<open>Kqueue\<close> (\<^verbatim>\<open>epoll.cc\<close>, \<^verbatim>\<open>kqueue.cc\<close>) are the two instances. In \<open>Epoll\<close> the reactors are programs of calls of the poller, and
    its rounds and calls an inductive relation, which keeps the invariant.
  \<^item> \<open>Ax_Tpipe\<close> (\<^verbatim>\<open>ax_tpipe.h\<close>, \<^verbatim>\<open>ax_tpipe.cc\<close>): framing against the reference parser \<open>split_msgs\<close>, delivery, and what a
    write sends.
  \<^item> \<open>Connect\<close> (\<^verbatim>\<open>connect.h\<close>, \<^verbatim>\<open>connect.cc\<close>): connections, the table of slots (interface \<open>slot_pool\<close>) and the listener.
  \<^item> \<open>Connect_Worker\<close> (\<^verbatim>\<open>connect_worker.h\<close>, \<^verbatim>\<open>connect_worker.cc\<close>) and \<open>Client_Mgr\<close> (\<^verbatim>\<open>client_mgr.h\<close>, \<^verbatim>\<open>client_mgr.cc\<close>): the
    threads of the gateway.
  \<^item> \<open>Ax_Debug\<close> (\<^verbatim>\<open>ax_debug.cc\<close>, \<^verbatim>\<open>utest.cc\<close>, \<^verbatim>\<open>ax_thread.cc\<close>, \<^verbatim>\<open>os_misc.cc\<close>): logger, test registry, thread wrapper.
  \<^item> \<open>Node_Conf\<close> (\<^verbatim>\<open>node_init.cc\<close>, \<^verbatim>\<open>main.cc\<close>, \<^verbatim>\<open>node_base.cc\<close>, \<^verbatim>\<open>node_common.h\<close>): configuration and start of a node, with the
    lines its main program logs.
  \<^item> \<open>Lua_Opcodes\<close> (\<^verbatim>\<open>lopcodes.h\<close>, \<^verbatim>\<open>lopcodes.c\<close> of the Lua interpreter under \<^verbatim>\<open>depends/lua/src\<close>): the instruction format, its
    accessors and the property table; \<open>Lua_Object\<close> (\<^verbatim>\<open>lobject.c\<close>): floating point bytes, logarithm, names of chunks.
  \<^item> \<open>Lua_Check\<close> (\<^verbatim>\<open>ldebug.c\<close>, the loop of \<^verbatim>\<open>lvm.c\<close>): function prototypes, the code checker as a loop over the code that may fail, the
    movements of the interpreter as a step relation, that accepted code is never left and its registers are in the frame, and
    that the property table describes what the interpreter does with the operands.
  \<^item> \<open>Lua_Zio\<close> (\<^verbatim>\<open>lzio.h\<close>, \<^verbatim>\<open>lzio.c\<close>): input streams refine the bytes their reader delivers; \<open>Lua_Chunk\<close> (\<^verbatim>\<open>ldump.c\<close>, \<^verbatim>\<open>lundump.c\<close>): precompiled
    chunks, written through a writer and read from a stream, with the checker applied to what is read.
  \<^item> \<open>Lua_Tablib\<close> (\<^verbatim>\<open>ltablib.c\<close>): insertion, removal, concatenation and the quicksort of the table library.
  \<^item> \<open>Lua_Pattern\<close> (the matcher of \<^verbatim>\<open>lstrlib.c\<close>): classes, captures and backtracking over the text of the pattern, and that no read leaves the
    strings; \<open>Lua_Pattern_Spec\<close>: a parser of patterns and the list of all matches in order of preference, of which the matcher
    returns the first; \<open>Lua_Strlib\<close> (the rest of \<^verbatim>\<open>lstrlib.c\<close>): substrings, search, iteration, substitution,
    and formats, whose fixed arrays are never overrun.
  \<^item> \<open>Lua_Lex\<close> (\<^verbatim>\<open>llex.h\<close>, \<^verbatim>\<open>llex.c\<close>): the lexer with its token buffer, that it reaches the end of every input, and that it reads
    back what the string library quotes.

  \<^bold>\<open>What the theorems show.\<close> For the containers, refinement of their abstract contracts and the invariants behind it; for
  the codecs, round trips and the exact values they lose; for timer, poller, pool and connection table, invariants over
  all sequences of operations, that loops end and that what is due happens; for the gateway, that the configured
  workers start, that the listener listens exactly when a report came in with all workers active and its bind succeeded,
  and that every accepted connection travels through mailbox and framing to its worker, with the address the codec of
  the message makes of it. Theorems of kind error state what the code does where it does not do what
  it means to: they are the evidence for the findings of the manifest.

  \<^bold>\<open>Bounds.\<close> Theorems about buffers assume that the capacity stays below the 32-bit limit by the margin of one step;
  those about tables that the number of slots fits an \<^verbatim>\<open>int\<close>; those about the gateway that less than \<open>2\<^sup>3\<^sup>0\<close> connections are
  configured; those about the memory pool that it has less than \<open>2\<^sup>3\<^sup>1\<close> bytes; those about the lexer that its input has
  less than \<open>2\<^sup>3\<^sup>0 - 2\<close>; those about the pipe that a read brings at most
  \<^verbatim>\<open>MAX_PROTO_LEN\<close> bytes, as the call asks for. Each property with hypotheses has a witness where they hold.

  \<^bold>\<open>Not modelled.\<close> Destructors that only free; the loops of \<^verbatim>\<open>ClientMgr::process\<close> and \<^verbatim>\<open>ConnectWorker::start_loop\<close>
  around \<^verbatim>\<open>poller_->process()\<close> (one round of which is modelled); \<^verbatim>\<open>AxMutex\<close>, which only forwards to \<^verbatim>\<open>pthread\<close>; real
  parallelism: the two threads that share a pipe use disjoint sides of it, so each is modelled with its own side; the stubs
  \<^verbatim>\<open>master.cc\<close> and \<^verbatim>\<open>pgate/main.cc\<close>; the Python code generator and test client; jsoncpp, of which the repository has the
  headers only; and of the Lua interpreter, which is third-party code, the compiler, the garbage collector, the values the
  interpreter loop computes, the C interface and the other libraries. What \<^verbatim>\<open>sprintf\<close> writes for
  one item of \<^verbatim>\<open>string.format\<close> is an argument of its model. Calls of the logger are modelled in the main program; inside the
  other components they are left out, where they change nothing as long as the log file can be opened.
\<close>

section \<open>From the listener to the worker\<close>

text \<open>C6: An accepted connection reaches its worker. In a gateway that accepts (all workers active, the listener
  listening) and whose first mailbox still holds the messages \<open>old\<close>, accepting a descriptor succeeds, leaves one message
  \<open>new\<close> behind the old ones in that mailbox (loads are never counted, so it always is the first), and the gateway
  accepts again. When the bytes of the mailbox reach the worker, however they are cut into reads, it is called back with the old
  messages, which no write takes off the buffer, and then with \<open>new\<close>; on this call it opens the connection with the
  accepted descriptor and port, the handle the manager counted up and the address as the codec of the message
  yields it, which is the accepted one when its upper half is zero and none of its bytes has the top bit. The write
  buffer has not reached the 32-bit limit.\<close>

theorem accept_reaches_worker:
  assumes "accepting old sz m" and "list_all msg_plain old" and "sz + 200 < 2 ^ 32"
    and "length wmb = 2" and "tpipe_side f wmb = Some 1" and "pi_cb_read (wmb ! 1)"
    and "rbuf_ok (pi_rbuf (wmb ! 1))" and "buffer_content (pi_rbuf (wmb ! 1)) = []" and "0 \<le> fd" and "fd < 2 ^ 31"
  shows "\<exists>m' new. on_accept_new_connect de (Io_ok n) fd ip port m = Inr (m', AX_RET_OK) \<and>
    cm_hid m' = take_bit 26 (cm_hid m + 1) \<and> accepting (old @ [new]) (sz + 200) m' \<and> msg_plain new \<and>
    (\<forall>cs. concat cs = concat (map msg_bytes (old @ [new])) \<and> (\<forall>c \<in> set cs. length c \<le> MAX_PROTO_LEN) \<longrightarrow>
       (\<exists>tp. run_reads wc f cs (wmb, p) = Inr (tp, old @ [new]))) \<and>
    (\<forall>w. worker_on_mailbox_read ae (fst new) (map Some (snd new)) w =
       rbind (new_connect ae fd (cm_hid m') (decoded_ip ip) port w) (\<lambda>(w, _). Inr w)) \<and>
    (ip AND 0x8080808080808080 = 0 \<and> ip < 2 ^ 32 \<longrightarrow> decoded_ip ip = ip)"
proof -
  define hid where "hid = (cm_hid m + 1) AND NOT (push_bit HID_THR_BITS HID_THR_MASK)"
  let ?new = "newconn_msg fd hid ip port"
  obtain m' where acc: "on_accept_new_connect de (Io_ok n) fd ip port m = Inr (m', AX_RET_OK)" "cm_hid m' = hid"
      "accepting (old @ [?new]) (sz + 200) m'"
    using accepting_accept [OF assms(1,3) hid_def] by blast
  have split: "split_msgs (concat (map msg_bytes (old @ [?new]))) = (old @ [?new], [])"
    using assms(2) newconn_msg_plain by (intro split_msg_bytes) simp
  have nil: "split_msgs [] = ([], [])" "buffer_content (pi_rbuf (wmb ! 1)) = map Some []"
    using assms(8) by (simp_all add: split_msgs_stop)
  have reads: "\<exists>tp. run_reads wc f cs (wmb, p) = Inr (tp, old @ [?new])"
    if "concat cs = concat (map msg_bytes (old @ [?new])) \<and> (\<forall>c \<in> set cs. length c \<le> MAX_PROTO_LEN)" for cs
    using run_reads_ok [OF assms(4-7) nil(2), of "[]" cs wc p] that nil(1) split by auto
  show ?thesis
    using acc reads newconn_msg_plain newconn_msg_read [OF assms(9,10)] decoded_ip_same [of ip] hid_take_bit [of "cm_hid m + 1"]
    unfolding hid_def [symmetric] by (intro exI [of _ m'] exI [of _ ?new]) auto
qed

text \<open>The gateway with two workers from its construction on: both report, and two connections are accepted.\<close>

theorem accept_reaches_worker_witness:
  "\<exists>m1 m2 m3 m4 m5 new1 new2 tp.
     client_mgr_init 1000 3 True (\<lambda>i. Some (2 * int i + 4, 2 * int i + 5)) (\<lambda>_. sim_tworker) 1234 10 2 sim_mgr = Inr m1 \<and>
     start_worker (epoll_add_event sim_ctl) 1000 (\<lambda>_. 0) m1 = Inr (m2, 0) \<and>
     notify_run (epoll_add_event sim_ctl) (epoll_del_event sim_ctl) [(1, True), (0, True)] m2 = Inr m3 \<and>
     on_accept_new_connect (epoll_del_event sim_ctl) (Io_ok 24) 6 0x7F000001 80 m3 = Inr (m4, AX_RET_OK) \<and>
     on_accept_new_connect (epoll_del_event sim_ctl) (Io_ok 48) 7 0xC0A80001 81 m4 = Inr (m5, AX_RET_OK) \<and>
     run_reads (\<lambda>_ q. Inr (q, 0)) 9 (map (\<lambda>b. [b]) (concat (map msg_bytes [new1, new2])))
       ([\<lparr>pi_fd = 8, pi_wbuf = buffer_new_n init_buf_size, pi_rbuf = buffer_new_n init_buf_size, pi_cb_read = True, pi_poller = True\<rparr>,
         \<lparr>pi_fd = 9, pi_wbuf = buffer_new_n init_buf_size, pi_rbuf = buffer_new_n init_buf_size, pi_cb_read = True, pi_poller = True\<rparr>], ())
       = Inr (tp, [new1, new2]) \<and>
     worker_on_mailbox_read (epoll_add_event sim_ctl) (fst new2) (map Some (snd new2)) sim_worker =
       rbind (new_connect (epoll_add_event sim_ctl) 7 (cm_hid m5) (decoded_ip 0xC0A80001) 81 sim_worker) (\<lambda>(w, _). Inr w)"
proof -
  let ?wmb = "[\<lparr>pi_fd = 8, pi_wbuf = buffer_new_n init_buf_size, pi_rbuf = buffer_new_n init_buf_size, pi_cb_read = True, pi_poller = True\<rparr>,
         \<lparr>pi_fd = 9, pi_wbuf = buffer_new_n init_buf_size, pi_rbuf = buffer_new_n init_buf_size, pi_cb_read = True, pi_poller = True\<rparr>]"
  obtain m1 m2 m3 :: "(unit, unit, int list, unit) client_mgr" where st:
    "client_mgr_init 1000 3 True (\<lambda>i. Some (2 * int i + 4, 2 * int i + 5)) (\<lambda>_. sim_tworker) 1234 10 2 sim_mgr = Inr m1"
    "start_worker (epoll_add_event sim_ctl) 1000 (\<lambda>_. 0) m1 = Inr (m2, 0)"
    "notify_run (epoll_add_event sim_ctl) (epoll_del_event sim_ctl) [(1, True), (0, True)] m2 = Inr m3"
    "accepting [] (unat init_buf_size) m3" using sim_accepting by blast
  have sz: "unat init_buf_size + 200 < 2 ^ 32" "(unat init_buf_size + 200) + 200 < 2 ^ 32" by (simp_all add: init_buf_size_def)
  have wmb: "length ?wmb = 2" "tpipe_side 9 ?wmb = Some 1" "pi_cb_read (?wmb ! 1)" "rbuf_ok (pi_rbuf (?wmb ! 1))"
      "buffer_content (pi_rbuf (?wmb ! 1)) = []"
    using rbuf_new by (simp_all add: tpipe_side_def)
  have fd: "(0 :: int) \<le> 6" "(6 :: int) < 2 ^ 31" "(0 :: int) \<le> 7" "(7 :: int) < 2 ^ 31" by simp_all
  note thm1 = accept_reaches_worker [OF st(4) _ sz(1) wmb fd(1,2), of "epoll_del_event sim_ctl" 24 "0x7F000001" 80 "\<lambda>_ q. Inr (q, 0)" "()" "epoll_add_event sim_ctl"]
  obtain m4 new1 where a1: "on_accept_new_connect (epoll_del_event sim_ctl) (Io_ok 24) 6 0x7F000001 80 m3 = Inr (m4, AX_RET_OK)"
      "accepting [new1] (unat init_buf_size + 200) m4" "list_all msg_plain [new1]"
    using thm1 by auto
  note thm2 = accept_reaches_worker [OF a1(2,3) sz(2) wmb fd(3,4), of "epoll_del_event sim_ctl" 48 "0xC0A80001" 81 "\<lambda>_ q. Inr (q, 0)" "()" "epoll_add_event sim_ctl"]
  obtain m5 new2 where a2: "on_accept_new_connect (epoll_del_event sim_ctl) (Io_ok 48) 7 0xC0A80001 81 m4 = Inr (m5, AX_RET_OK)"
    and rd: "\<forall>cs. concat cs = concat (map msg_bytes ([new1] @ [new2])) \<and> (\<forall>c \<in> set cs. length c \<le> MAX_PROTO_LEN) \<longrightarrow>
       (\<exists>tp. run_reads (\<lambda>_ q. Inr (q, 0)) 9 cs (?wmb, ()) = Inr (tp, [new1] @ [new2]))"
    and op: "\<forall>w. worker_on_mailbox_read (epoll_add_event sim_ctl) (fst new2) (map Some (snd new2)) (w :: (unit, unit, int list) connect_worker) =
       rbind (new_connect (epoll_add_event sim_ctl) 7 (cm_hid m5) (decoded_ip 0xC0A80001) 81 w) (\<lambda>(w, _). Inr w)"
    using thm2 by blast
  have "concat (map (\<lambda>b. [b]) bytes) = bytes \<and> (\<forall>c \<in> set (map (\<lambda>b. [b]) bytes). length c \<le> MAX_PROTO_LEN)" for bytes :: "u8 list"
    by (simp add: MAX_PROTO_LEN_def)
  then have "\<exists>tp. run_reads (\<lambda>_ q. Inr (q, 0)) 9 (map (\<lambda>b. [b]) (concat (map msg_bytes ([new1] @ [new2])))) (?wmb, ()) = Inr (tp, [new1] @ [new2])"
    using rd by blast
  then show ?thesis using st(1-3) a1(1) a2 op unfolding append.simps by blast
qed

end
